(* ===== verification/Prelude.thy ===== *)
theory Prelude
  imports "HOL-Library.Word"
begin

section \<open>Prelude: machine types, errors, byte memory\<close>

text \<open>
  What every component theory shares: the integer types of \<open>include/util.h\<close>, the
  error type with its sequencing function, the arithmetic macros of \<open>util.h\<close>, and the
  one byte-addressed memory in which the kernel's structs, page tables, bitmaps and
  strings live, with little-endian loads and stores.

  The lemmas about memory come in two groups: what a load returns after a store to the
  same place or to a place apart from it (collection \<open>mem_simps\<close>), and frame facts
  "everything outside this range is unchanged" (\<open>same_outside\<close>).
\<close>

unbundle bit_operations_syntax

named_theorems mem_simps \<open>loads after stores, at the same place and apart\<close>

type_synonym u8 = "8 word"
type_synonym u16 = "16 word"
type_synonym u32 = "32 word"
type_synonym u64 = "64 word"

subsection \<open>Errors\<close>

text \<open>
  How kernel code ends without returning: a failed \<open>ASSERT\<close> (\<open>include/assert.h\<close>), a call of
  \<open>panic\<close> with its message, acquiring a spinlock that nobody will drop, an access
  through a null pointer (which traps, and ends in \<open>panicIsr\<close>), a call through a function
  pointer that is not the address of a function (\<open>WildCall\<close>), or an index outside a static
  array (\<open>OutOfBounds\<close>, where C gives no meaning). \<open>panic\<close> halts the CPU with
  interrupts off, so it is an end of the computation.
\<close>

datatype err =
    AssertFail
  | PanicMsg string
  | Deadlock
  | NullDeref
  | WildCall
  | OutOfBounds

type_synonym 'a res = "err + 'a"

definition bnd :: "'a res \<Rightarrow> ('a \<Rightarrow> 'b res) \<Rightarrow> 'b res" where
  "bnd r f = (case r of Inl e \<Rightarrow> Inl e | Inr x \<Rightarrow> f x)"

definition ASSERT :: "bool \<Rightarrow> 'a res \<Rightarrow> 'a res" where
  "ASSERT c k = (if c then k else Inl AssertFail)"

text \<open>An access through pointer \<open>p\<close> traps when \<open>p\<close> is null.\<close>

definition deref :: "u64 \<Rightarrow> 'a res \<Rightarrow> 'a res" where
  "deref p k = (if p = 0 then Inl NullDeref else k)"

lemma deref_nonnull [simp]: "p \<noteq> 0 \<Longrightarrow> deref p k = k"
  and deref_null [simp]: "deref 0 k = Inl NullDeref"
  by (simp_all add: deref_def)

lemma deref_eq_Inr: "deref p k = Inr y \<longleftrightarrow> p \<noteq> 0 \<and> k = Inr y"
  by (simp add: deref_def)

lemma bnd_Inl [simp]: "bnd (Inl e) f = Inl e"
  and bnd_Inr [simp]: "bnd (Inr x) f = f x"
  by (simp_all add: bnd_def)

lemma bnd_eq_Inr: "bnd r f = Inr y \<longleftrightarrow> (\<exists>x. r = Inr x \<and> f x = Inr y)"
  by (cases r) simp_all

lemma bnd_eq_Inl: "bnd r f = Inl e \<longleftrightarrow> r = Inl e \<or> (\<exists>x. r = Inr x \<and> f x = Inl e)"
  by (cases r) simp_all

lemma bnd_cong [fundef_cong]:
  "r = r' \<Longrightarrow> (\<And>x. r' = Inr x \<Longrightarrow> f x = g x) \<Longrightarrow> bnd r f = bnd r' g"
  by (cases r') simp_all

lemma ASSERT_True [simp]: "ASSERT True k = k"
  and ASSERT_False [simp]: "ASSERT False k = Inl AssertFail"
  by (simp_all add: ASSERT_def)

lemma ASSERT_eq_Inr: "ASSERT c k = Inr y \<longleftrightarrow> c \<and> k = Inr y"
  by (simp add: ASSERT_def)

lemma ASSERT_cong [fundef_cong]:
  "c = d \<Longrightarrow> (d \<Longrightarrow> k = l) \<Longrightarrow> ASSERT c k = ASSERT d l"
  by (simp add: ASSERT_def)

lemmas res_simps = bnd_eq_Inr bnd_eq_Inl ASSERT_eq_Inr deref_eq_Inr

text \<open>
  Loops that may run for ever make a function partial: \<^term>\<open>None\<close> is "does not return".
\<close>

type_synonym 'a ores = "'a res option"

definition bndO :: "'a ores \<Rightarrow> ('a \<Rightarrow> 'b ores) \<Rightarrow> 'b ores" where
  "bndO r f = (case r of None \<Rightarrow> None | Some (Inl e) \<Rightarrow> Some (Inl e) | Some (Inr x) \<Rightarrow> f x)"

lemma bndO_simps [simp]:
  "bndO None f = None" "bndO (Some (Inl e)) f = Some (Inl e)" "bndO (Some (Inr x)) f = f x"
  by (simp_all add: bndO_def)

lemma bndO_bind: "bndO r f = Option.bind r (\<lambda>x. case x of Inl e \<Rightarrow> Some (Inl e) | Inr y \<Rightarrow> f y)"
  by (cases r) (auto split: sum.splits)

lemma bndO_mono [partial_function_mono]:
  assumes "mono_option B" and "\<And>y. mono_option (\<lambda>f. C y f)"
  shows "mono_option (\<lambda>f. bndO (B f) (\<lambda>y. C y f))"
  unfolding bndO_bind
proof (rule bind_mono [OF assms(1)])
  fix x
  show "mono_option (\<lambda>f. case x of Inl e \<Rightarrow> Some (Inl e) | Inr y \<Rightarrow> C y f)"
    using assms(2) by (cases x) (simp_all add: monotone_def flat_ord_def)
qed

lemma bndO_eq_Inr: "bndO r f = Some (Inr y) \<longleftrightarrow> (\<exists>x. r = Some (Inr x) \<and> f x = Some (Inr y))"
  by (auto simp: bndO_def split: option.splits sum.splits)

lemma bndO_assoc: "bndO (bndO r f) g = bndO r (\<lambda>x. bndO (f x) g)"
  by (auto simp: bndO_def split: option.splits sum.splits)

subsection \<open>Macros of include/util.h and include/paging.h\<close>

definition DIV_ROUND_UP :: "u64 \<Rightarrow> u64 \<Rightarrow> u64" where
  "DIV_ROUND_UP n d = (n + d - 1) div d"

definition ALIGN_UP :: "u64 \<Rightarrow> u64 \<Rightarrow> u64" where
  "ALIGN_UP num align = (num + (align - 1)) AND NOT (align - 1)"

definition ALIGN_DOWN :: "u64 \<Rightarrow> u64 \<Rightarrow> u64" where
  "ALIGN_DOWN num align = num AND NOT (align - 1)"

definition U64_LOW :: "u64 \<Rightarrow> u32" where
  "U64_LOW addr = ucast (addr AND 0xffffffff)"

definition U64_HIGH :: "u64 \<Rightarrow> u32" where
  "U64_HIGH addr = ucast (drop_bit 32 addr AND 0xffffffff)"

definition U64 :: "u32 \<Rightarrow> u32 \<Rightarrow> u64" where
  "U64 low high = push_bit 32 (ucast high) + ucast low"

definition PAGE_SIZE :: u64 where
  "PAGE_SIZE = 0x1000"

subsection \<open>Word arithmetic\<close>

lemma unat_less_max: "unat (a::u64) < 2 ^ 64"
  using unsigned_less [of a] by simp

lemma unat_plus1: "(a::u64) < b \<Longrightarrow> unat (a + 1) = Suc (unat a)"
  using unat_less_max [of b] by (auto simp: unat_plus_if' word_less_nat_alt)

lemma unat_add_no_wrap: "unat (a::u64) + unat b < 2 ^ 64 \<Longrightarrow> unat (a + b) = unat a + unat b"
  using unat_add_lem [of a b] by simp

lemma unat_add_le: "unat ((a::u64) + b) \<le> unat a + unat b"
  by (simp add: unat_plus_if')

lemma unat_uminus: "unat (- (d::u64)) = (if d = 0 then 0 else 2 ^ 64 - unat d)"
  using unat_sub_if' [of 0 d] by (simp add: unat_eq_0)

lemma unat_of_nat64: "n < 2 ^ 64 \<Longrightarrow> unat (of_nat n :: u64) = n"
  by (simp add: unsigned_of_nat take_bit_nat_eq_self)

lemma unat_eqD: "unat (i::u64) = n \<Longrightarrow> i = of_nat n"
  by auto

lemma unat_of_nat_le: "unat (of_nat n :: u64) \<le> n"
  by (simp add: unat_of_nat)

subsection \<open>Byte ranges\<close>

text \<open>
  \<open>rng a n\<close> is the \<open>n\<close> bytes at \<open>a\<close> (addresses wrap at \<open>2\<^sup>64\<close>, as pointer arithmetic does),
  and \<open>apart a n b k\<close> says that two such ranges do not meet; it is stated on the two
  distances, so it computes.
\<close>

definition rng :: "u64 \<Rightarrow> nat \<Rightarrow> u64 set" where
  "rng a n = {x. unat (x - a) < n}"

definition apart :: "u64 \<Rightarrow> nat \<Rightarrow> u64 \<Rightarrow> nat \<Rightarrow> bool" where
  "apart a n b k \<longleftrightarrow> n \<le> unat (b - a) \<and> k \<le> unat (a - b)"

lemma in_rng: "x \<in> rng a n \<longleftrightarrow> unat (x - a) < n"
  by (simp add: rng_def)

lemma apart_sym: "apart a n b k \<Longrightarrow> apart b k a n"
  by (simp add: apart_def)

lemma apart_notin:
  assumes "apart a n b k" and "x \<in> rng a n"
  shows "x \<notin> rng b k"
proof -
  define d where "d = b - a"
  define p where "p = x - a"
  have q: "x - b = p - d" and e: "a - b = - d"
    by (simp_all add: d_def p_def)
  have "unat p < unat d" and "k \<le> unat (- d)"
    using assms unfolding e [symmetric] by (simp_all add: apart_def in_rng d_def p_def)
  then have "k \<le> unat (p - d)"
    using unat_less_max [of d] by (auto simp: unat_sub_if' unat_uminus split: if_splits)
  then show ?thesis by (simp add: in_rng q)
qed

lemma rng_sub: "unat i + n' \<le> n \<Longrightarrow> rng (a + i) n' \<subseteq> rng a n"
proof
  fix x assume i: "unat i + n' \<le> n" and x: "x \<in> rng (a + i) n'"
  have "x - a = (x - (a + i)) + i" by simp
  then have "unat (x - a) \<le> unat (x - (a + i)) + unat i"
    using unat_add_le by metis
  with i x show "x \<in> rng a n" by (simp add: in_rng)
qed

lemma rng_mono: "n' \<le> n \<Longrightarrow> rng a n' \<subseteq> rng a n"
  by (auto simp: in_rng)

lemma apartI:
  assumes "0 < n" and "0 < k" and "n \<le> 2 ^ 63" and "k \<le> 2 ^ 63"
    and dis: "rng a n \<inter> rng b k = {}"
  shows "apart a n b k"
proof (rule ccontr)
  assume "\<not> apart a n b k"
  then have "b \<in> rng a n \<or> a \<in> rng b k" by (auto simp: apart_def in_rng)
  moreover have "a \<in> rng a n" "b \<in> rng b k" using assms by (simp_all add: in_rng)
  ultimately show False using dis by blast
qed

lemma apart_disjoint: "apart a n b k \<Longrightarrow> rng a n \<inter> rng b k = {}"
  using apart_notin by blast

text \<open>Parts of ranges that are apart are apart: the four shapes of offsets.\<close>

lemma apart_sub:
  assumes "apart a n b k" and "unat i + n' \<le> n" and "unat j + k' \<le> k" and "0 < n'" and "0 < k'"
  shows "apart (a + i) n' (b + j) k'"
proof -
  define d where "d = b - a"
  have e: "a - b = - d" "(b + j) - (a + i) = (d + j) - i" "(a + i) - (b + j) = i - (d + j)"
    by (simp_all add: d_def)
  have 1: "n \<le> unat d" "k \<le> unat (- d)"
    using assms(1) by (simp_all add: apart_def d_def flip: e(1))
  then have dk: "unat d + k \<le> 2 ^ 64" using assms(2,4) unat_less_max [of d]
    by (auto simp: unat_uminus split: if_splits)
  then have dj: "unat (d + j) = unat d + unat j"
    using assms(3,5) by (intro unat_add_no_wrap) linarith
  have ij: "\<not> unat (d + j) \<le> unat i" using dj 1 assms(2,4) by linarith
  have "n' \<le> unat ((d + j) - i)"
    using 1 dj ij assms(2) by (simp add: unat_sub_if')
  moreover have "k' \<le> unat (i - (d + j))"
    using dk dj ij assms(3) unfolding unat_sub_if' by simp
  ultimately have "n' \<le> unat ((b + j) - (a + i)) \<and> k' \<le> unat ((a + i) - (b + j))"
    unfolding e by simp
  then show ?thesis by (simp add: apart_def)
qed

lemma apart_shrink:
  "apart a n b k \<Longrightarrow> n' \<le> n \<Longrightarrow> k' \<le> k \<Longrightarrow> apart a n' b k'"
  by (auto simp: apart_def)

lemma apart_base:
  assumes "unat i + n \<le> unat j" and "unat j + k \<le> 2 ^ 64" and "0 < n"
  shows "apart (a + i) n (a + j) k"
proof -
  have ij: "\<not> unat j \<le> unat i" using assms(1,3) by linarith
  have "n \<le> unat (j - i)" using assms(1) ij by (simp add: unat_sub_if')
  moreover have "k \<le> unat (i - j)" using assms(2) ij unfolding unat_sub_if' by simp
  ultimately show ?thesis by (simp add: apart_def)
qed

lemma rng_disjoint_base:
  "unat i + n \<le> unat j \<Longrightarrow> unat j + k \<le> 2 ^ 64 \<Longrightarrow> rng (a + i) n \<inter> rng (a + j) k = {}"
  by (cases "n = 0") (simp add: rng_def, rule apart_disjoint [OF apart_base], simp_all)

lemma disjoint_subset: "A \<inter> B = {} \<Longrightarrow> X \<subseteq> A \<Longrightarrow> Y \<subseteq> B \<Longrightarrow> X \<inter> Y = {}"
  by blast

subsection \<open>Byte memory\<close>

type_synonym mem = "u64 \<Rightarrow> u8"

text \<open>Little-endian access to \<open>n\<close> bytes at \<open>a\<close>, as x86-64 does it.\<close>

fun load :: "nat \<Rightarrow> mem \<Rightarrow> u64 \<Rightarrow> u64" where
  "load 0 m a = 0"
| "load (Suc n) m a = ucast (m a) OR push_bit 8 (load n m (a + 1))"

definition store :: "nat \<Rightarrow> mem \<Rightarrow> u64 \<Rightarrow> u64 \<Rightarrow> mem" where
  "store n m a v = (\<lambda>x. if unat (x - a) < n then ucast (drop_bit (8 * unat (x - a)) v) else m x)"

abbreviation load64 :: "mem \<Rightarrow> u64 \<Rightarrow> u64" where "load64 \<equiv> load 8"
abbreviation store64 :: "mem \<Rightarrow> u64 \<Rightarrow> u64 \<Rightarrow> mem" where "store64 \<equiv> store 8"

definition load32 :: "mem \<Rightarrow> u64 \<Rightarrow> u32" where
  "load32 m a = ucast (load 4 m a)"

definition store32 :: "mem \<Rightarrow> u64 \<Rightarrow> u32 \<Rightarrow> mem" where
  "store32 m a v = store 4 m a (ucast v)"

text \<open>Everything outside a set of addresses is as it was.\<close>

definition same_outside :: "u64 set \<Rightarrow> mem \<Rightarrow> mem \<Rightarrow> bool" where
  "same_outside A m m' \<longleftrightarrow> (\<forall>x. x \<notin> A \<longrightarrow> m' x = m x)"

lemma same_outsideD: "same_outside A m m' \<Longrightarrow> x \<notin> A \<Longrightarrow> m' x = m x"
  by (simp add: same_outside_def)

lemma same_outside_refl [simp]: "same_outside A m m"
  by (simp add: same_outside_def)

lemma same_outside_trans:
  "same_outside A m m' \<Longrightarrow> same_outside A m' m'' \<Longrightarrow> same_outside A m m''"
  by (simp add: same_outside_def)

lemma same_outside_mono: "same_outside A m m' \<Longrightarrow> A \<subseteq> B \<Longrightarrow> same_outside B m m'"
  by (auto simp: same_outside_def)

lemma bit_load:
  "bit (load n m a) i \<longleftrightarrow> i < 8 * n \<and> i < 64 \<and> bit (m (a + of_nat (i div 8))) (i mod 8)"
proof (induction n m a arbitrary: i rule: load.induct)
  case (1 m a)
  then show ?case by simp
next
  case (2 n m a)
  show ?case
  proof (cases "i < 8")
    case True
    then show ?thesis by (auto simp: bit_simps)
  next
    case False
    define j where "j = i - 8"
    have i: "i = j + 8" using False by (simp add: j_def)
    have "\<not> bit (m a) i" using False bit_imp_le_length [of "m a" i] by auto
    moreover have "(j + 8) div 8 = Suc (j div 8)" by simp
    ultimately show ?thesis
      using 2 [of j] by (auto simp: bit_simps i algebra_simps)
  qed
qed

lemma load_cong:
  assumes "\<And>x. x \<in> rng a n \<Longrightarrow> m x = m' x"
  shows "load n m a = load n m' a"
proof (rule bit_word_eqI)
  fix i assume "i < LENGTH(64)"
  have "a + of_nat (i div 8) \<in> rng a n" if "i < 8 * n"
    using that le_less_trans [OF unat_of_nat_le [of "i div 8"], of n] by (simp add: in_rng)
  then show "bit (load n m a) i \<longleftrightarrow> bit (load n m' a) i"
    using assms by (auto simp: bit_load)
qed

lemma load_same_outside:
  "same_outside A m m' \<Longrightarrow> rng a n \<inter> A = {} \<Longrightarrow> load n m' a = load n m a"
  by (rule load_cong) (auto simp: same_outside_def)

lemma load_zero: "(\<And>x. x \<in> rng a n \<Longrightarrow> m x = 0) \<Longrightarrow> load n m a = 0"
  using load_cong [of a n m "\<lambda>_. 0"] by (simp add: bit_eq_iff bit_load)

lemma store_outside: "x \<notin> rng a n \<Longrightarrow> store n m a v x = m x"
  by (simp add: store_def in_rng)

lemma store_same_outside: "same_outside (rng a n) m (store n m a v)"
  by (simp add: same_outside_def store_outside)

lemma store_same_outside': "rng a n \<subseteq> A \<Longrightarrow> same_outside A m (store n m a v)"
  by (rule same_outside_mono [OF store_same_outside])

lemma load_store_same:
  assumes "n \<le> 8"
  shows "load n (store n m a v) a = take_bit (8 * n) v"
proof (rule bit_word_eqI)
  fix i assume "i < LENGTH(64)"
  then have "unat (of_nat (i div 8) :: u64) = i div 8" by (intro unat_of_nat64) simp
  then show "bit (load n (store n m a v) a) i \<longleftrightarrow> bit (take_bit (8 * n) v) i"
    using \<open>i < LENGTH(64)\<close> by (auto simp: bit_load store_def bit_simps)
qed

lemma load_store_apart: "apart a n b k \<Longrightarrow> load k (store n m a v) b = load k m b"
  by (rule load_cong) (metis apart_notin apart_sym store_outside)

lemma load64_store64 [simp, mem_simps]: "load64 (store64 m a v) a = v"
proof -
  have "take_bit 64 v = v" for v :: u64
    using take_bit_word_eq_self [of 64 v] by simp
  then show ?thesis by (simp add: load_store_same)
qed

lemma load32_store32 [simp, mem_simps]: "load32 (store32 m a v) a = v"
  by (rule bit_word_eqI) (simp add: load32_def store32_def load_store_same bit_simps)

lemma store64_commute:
  assumes "apart a 8 b 8"
  shows "store64 (store64 m a v) b w = store64 (store64 m b w) a v"
proof
  fix x
  show "store64 (store64 m a v) b w x = store64 (store64 m b w) a v x"
    using apart_notin [OF assms, of x] by (simp add: store_def in_rng)
qed

text \<open>The next loads are decided by the distance of the two addresses alone.\<close>

lemma load64_store64_dist [mem_simps]:
  "8 \<le> unat (b - a) \<Longrightarrow> 8 \<le> unat (a - b) \<Longrightarrow> load64 (store64 m a v) b = load64 m b"
  by (rule load_store_apart) (simp add: apart_def)

lemma store_at [mem_simps]:
  "store n m a v x = (if unat (x - a) < n then ucast (drop_bit (8 * unat (x - a)) v) else m x)"
  by (simp add: store_def)

lemma load_upd_dist [mem_simps]: "n \<le> unat (x - a) \<Longrightarrow> load n (m(x := v)) a = load n m a"
  by (rule load_cong) (auto simp: in_rng)

lemma load32_load64: "load32 m a = ucast (load64 m a)"
  by (rule bit_word_eqI) (simp add: load32_def bit_simps bit_load)

lemma load_zero_mem [mem_simps]: "load n (\<lambda>_. 0) a = 0"
  by (rule load_zero) simp

subsection \<open>Bit fields\<close>

text \<open>
  Masks as bit ranges; the simplifier reads the bits of a numeral off its value as an integer.
\<close>

lemma mask_bits:
  "bit (0x3 :: int) n \<longleftrightarrow> n < 2" "bit (0x7 :: int) n \<longleftrightarrow> n < 3" "bit (0xf :: int) n \<longleftrightarrow> n < 4"
  "bit (0xff :: int) n \<longleftrightarrow> n < 8" "bit (0xffff :: int) n \<longleftrightarrow> n < 16"
  "bit (0xfffff :: int) n \<longleftrightarrow> n < 20" "bit (0xffffff :: int) n \<longleftrightarrow> n < 24"
  "bit (0xffffffff :: int) n \<longleftrightarrow> n < 32"
proof -
  have "(0x3 :: int) = mask 2" "(0x7 :: int) = mask 3" "(0xf :: int) = mask 4" "(0xff :: int) = mask 8"
    "(0xffff :: int) = mask 16" "(0xfffff :: int) = mask 20" "(0xffffff :: int) = mask 24"
    "(0xffffffff :: int) = mask 32"
    by (simp_all add: mask_eq_exp_minus_1)
  then show "bit (0x3 :: int) n \<longleftrightarrow> n < 2" "bit (0x7 :: int) n \<longleftrightarrow> n < 3" "bit (0xf :: int) n \<longleftrightarrow> n < 4"
    "bit (0xff :: int) n \<longleftrightarrow> n < 8" "bit (0xffff :: int) n \<longleftrightarrow> n < 16"
    "bit (0xfffff :: int) n \<longleftrightarrow> n < 20" "bit (0xffffff :: int) n \<longleftrightarrow> n < 24"
    "bit (0xffffffff :: int) n \<longleftrightarrow> n < 32"
    by (simp_all only: bit_mask_iff) simp_all
qed

lemma bit_beyond: "LENGTH('a) \<le> n \<Longrightarrow> \<not> bit (w :: 'a::len word) n"
  using bit_imp_le_length [of w n] by auto

end
