(* ===== verification/Strings.thy ===== *)
theory Strings
  imports Prelude
begin

section \<open>Byte and string routines (util/string.c)\<close>

text \<open>
  The routines of \<open>util/string.c\<close> on the byte memory. \<open>rep stosb\<close> and \<open>rep movsb\<close> are the two
  x86 string instructions the inline assembly uses; they are run with the destination in
  \<open>rdi\<close> and the source in \<open>rsi\<close>, where the calling convention puts the first two arguments
  (the assembly names only \<open>rax\<close> and \<open>rcx\<close> and relies on it).
  The loops with a byte count are total; the loops that look for a terminating zero
  (\<open>strlen\<close>, \<open>strcmp\<close>, \<open>strcpy\<close>) are partial functions whose value is \<^term>\<open>None\<close> when they run for
  ever.
\<close>

subsection \<open>memset, memcpy, memmove, memcmp\<close>

fun rep_stosb :: "nat \<Rightarrow> u64 \<Rightarrow> u8 \<Rightarrow> mem \<Rightarrow> mem" where
  "rep_stosb 0 rdi al m = m"
| "rep_stosb (Suc rcx) rdi al m = rep_stosb rcx (rdi + 1) al (m(rdi := al))"

fun rep_movsb :: "nat \<Rightarrow> u64 \<Rightarrow> u64 \<Rightarrow> mem \<Rightarrow> mem" where
  "rep_movsb 0 rdi rsi m = m"
| "rep_movsb (Suc rcx) rdi rsi m = rep_movsb rcx (rdi + 1) (rsi + 1) (m(rdi := m rsi))"

definition memset :: "u64 \<Rightarrow> u32 \<Rightarrow> u64 \<Rightarrow> mem \<Rightarrow> mem res" where
  "memset dst val n m =
     ASSERT (dst \<noteq> 0) (ASSERT (n > 0) (Inr (rep_stosb (unat n) dst (ucast val) m)))"

definition memcpy :: "u64 \<Rightarrow> u64 \<Rightarrow> u64 \<Rightarrow> mem \<Rightarrow> mem res" where
  "memcpy dst src n m =
     ASSERT (dst \<noteq> 0) (ASSERT (src \<noteq> 0) (ASSERT (n > 0)
       (Inr (rep_movsb (unat n) dst src m))))"

text \<open>The two loops of \<open>memmove\<close>: upwards from \<open>i\<close>, and downwards to 0.\<close>

function memmoveUp :: "u64 \<Rightarrow> u64 \<Rightarrow> u64 \<Rightarrow> u64 \<Rightarrow> mem \<Rightarrow> mem" where
  "memmoveUp dst src n i m =
     (if i < n then memmoveUp dst src n (i + 1) (m(dst + i := m (src + i))) else m)"
  by pat_completeness auto
termination
  by (relation "measure (\<lambda>(dst, src, n, i, m). unat n - unat i)")
    (auto simp: unat_plus1 word_less_nat_alt)

function memmoveDown :: "u64 \<Rightarrow> u64 \<Rightarrow> u64 \<Rightarrow> mem \<Rightarrow> mem" where
  "memmoveDown dst src i m =
     (if i \<noteq> 0 then memmoveDown dst src (i - 1) (m(dst + i - 1 := m (src + i - 1))) else m)"
  by pat_completeness auto
termination
  by (relation "measure (\<lambda>(dst, src, i, m). unat i)") (auto simp: unat_minus_one unat_gt_0)

definition memmove :: "u64 \<Rightarrow> u64 \<Rightarrow> u64 \<Rightarrow> mem \<Rightarrow> mem res" where
  "memmove dst src n m =
     ASSERT (dst \<noteq> 0) (ASSERT (src \<noteq> 0) (ASSERT (n > 0)
       (Inr (if dst < src then memmoveUp dst src n 0 m else memmoveDown dst src n m))))"

fun memcmpLoop :: "nat \<Rightarrow> u64 \<Rightarrow> u64 \<Rightarrow> mem \<Rightarrow> int" where
  "memcmpLoop 0 a b m = 0"
| "memcmpLoop (Suc cnt) a b m =
     (if m a \<noteq> m b then (if m a > m b then 1 else -1) else memcmpLoop cnt (a + 1) (b + 1) m)"

definition memcmp :: "u64 \<Rightarrow> u64 \<Rightarrow> u64 \<Rightarrow> mem \<Rightarrow> int res" where
  "memcmp a b cnt m =
     ASSERT (a \<noteq> 0) (ASSERT (b \<noteq> 0) (ASSERT (cnt > 0) (Inr (memcmpLoop (unat cnt) a b m))))"

subsection \<open>strlen, strcmp, strcpy, strncpy\<close>

partial_function (option) strlenLoop :: "mem \<Rightarrow> u64 \<Rightarrow> u64 \<Rightarrow> u64 option" where
  "strlenLoop m ptr r = (if m ptr \<noteq> 0 then strlenLoop m (ptr + 1) (r + 1) else Some r)"

definition strlen :: "u64 \<Rightarrow> mem \<Rightarrow> u64 res option" where
  "strlen s m = (if s = 0 then Some (Inl AssertFail) else map_option Inr (strlenLoop m s 0))"

text \<open>\<open>char\<close> is signed on x86-64, so the difference is one of signed bytes.\<close>

partial_function (option) strcmpLoop :: "mem \<Rightarrow> u64 \<Rightarrow> u64 \<Rightarrow> int option" where
  "strcmpLoop m ss1 ss2 =
     (if m ss1 \<noteq> 0 \<and> m ss1 = m ss2 then strcmpLoop m (ss1 + 1) (ss2 + 1)
      else Some (sint (m ss1) - sint (m ss2)))"

definition strcmp :: "u64 \<Rightarrow> u64 \<Rightarrow> mem \<Rightarrow> int res option" where
  "strcmp s1 s2 m =
     (if s1 = 0 \<or> s2 = 0 then Some (Inl AssertFail) else map_option Inr (strcmpLoop m s1 s2))"

partial_function (option) strcpyLoop :: "u64 \<Rightarrow> u64 \<Rightarrow> u64 \<Rightarrow> mem \<Rightarrow> mem option" where
  "strcpyLoop dst src i m =
     (if m (src + i) \<noteq> 0 then strcpyLoop dst src (i + 1) (m(dst + i := m (src + i)))
      else Some (m(dst + i := 0)))"

definition strcpy :: "u64 \<Rightarrow> u64 \<Rightarrow> mem \<Rightarrow> mem res option" where
  "strcpy dst src m =
     (if dst = 0 \<or> src = 0 then Some (Inl AssertFail) else map_option Inr (strcpyLoop dst src 0 m))"

function strncpyCopy :: "u64 \<Rightarrow> u64 \<Rightarrow> u64 \<Rightarrow> u64 \<Rightarrow> mem \<Rightarrow> u64 \<times> mem" where
  "strncpyCopy dst src n i m =
     (if i < n \<and> m (src + i) \<noteq> 0
      then strncpyCopy dst src n (i + 1) (m(dst + i := m (src + i))) else (i, m))"
  by pat_completeness auto
termination
  by (relation "measure (\<lambda>(dst, src, n, i, m). unat n - unat i)")
    (auto simp: unat_plus1 word_less_nat_alt)

function strncpyPad :: "u64 \<Rightarrow> u64 \<Rightarrow> u64 \<Rightarrow> mem \<Rightarrow> mem" where
  "strncpyPad dst n i m = (if i < n then strncpyPad dst n (i + 1) (m(dst + i := 0)) else m)"
  by pat_completeness auto
termination
  by (relation "measure (\<lambda>(dst, n, i, m). unat n - unat i)")
    (auto simp: unat_plus1 word_less_nat_alt)

definition strncpy :: "u64 \<Rightarrow> u64 \<Rightarrow> u64 \<Rightarrow> mem \<Rightarrow> mem res" where
  "strncpy dst src n m =
     ASSERT (dst \<noteq> 0) (ASSERT (src \<noteq> 0) (ASSERT (n > 0)
       (case strncpyCopy dst src n 0 m of (i, m') \<Rightarrow> Inr (strncpyPad dst n i m'))))"

declare memmoveUp.simps [simp del] memmoveDown.simps [simp del]
  strncpyCopy.simps [simp del] strncpyPad.simps [simp del]

subsection \<open>Filling and copying\<close>

text \<open>What a fill and a copy of \<open>n\<close> bytes leave, as closed forms: the specifications.\<close>

definition filled :: "u64 \<Rightarrow> nat \<Rightarrow> u8 \<Rightarrow> mem \<Rightarrow> mem" where
  "filled d n v m = (\<lambda>x. if x \<in> rng d n then v else m x)"

definition copied :: "u64 \<Rightarrow> u64 \<Rightarrow> nat \<Rightarrow> mem \<Rightarrow> mem" where
  "copied d s n m = (\<lambda>x. if x \<in> rng d n then m (s + (x - d)) else m x)"

lemma rng_Suc:
  assumes "n < 2 ^ 64"
  shows "x \<in> rng d (Suc n) \<longleftrightarrow> x = d \<or> x \<in> rng (d + 1) n"
proof -
  have e: "x - (d + 1) = (x - d) - 1" by simp
  show ?thesis
  proof (cases "x = d")
    case False
    then have "unat ((x - d) - 1) = unat (x - d) - 1" and "unat (x - d) \<noteq> 0"
      by (simp_all add: unat_minus_one unat_eq_0)
    then show ?thesis using False unfolding in_rng e by auto
  qed (simp add: in_rng)
qed

lemma start_notin_rng_tail: "n < 2 ^ 64 \<Longrightarrow> d \<notin> rng (d + 1) n"
  by (simp add: in_rng unat_uminus)

lemma rng_0 [simp]: "rng d 0 = {}"
  by (simp add: rng_def)

lemma rep_stosb_filled: "n < 2 ^ 64 \<Longrightarrow> rep_stosb n d v m = filled d n v m"
proof (induction n arbitrary: d m)
  case 0
  show ?case by (simp add: filled_def)
next
  case (Suc n)
  then show ?case
    by (auto simp: filled_def rng_Suc start_notin_rng_tail fun_eq_iff)
qed

lemma memset_filled:
  "dst \<noteq> 0 \<Longrightarrow> n \<noteq> 0 \<Longrightarrow> memset dst val n m = Inr (filled dst (unat n) (ucast val) m)"
  using unat_less_max [of n] by (simp add: memset_def rep_stosb_filled word_neq_0_conv)

lemma memset_cases:
  "memset dst val n m = Inr m' \<longleftrightarrow> dst \<noteq> 0 \<and> n \<noteq> 0 \<and> m' = filled dst (unat n) (ucast val) m"
  using unat_less_max [of n]
  by (auto simp: memset_def ASSERT_def rep_stosb_filled word_neq_0_conv)

lemma filled_same_outside: "same_outside (rng d n) m (filled d n v m)"
  by (simp add: same_outside_def filled_def)

lemma load_filled_zero: "rng a k \<subseteq> rng d n \<Longrightarrow> load k (filled d n 0 m) a = 0"
  by (rule load_zero) (auto simp: filled_def)

lemma copied_same_outside: "same_outside (rng d n) m (copied d s n m)"
  by (simp add: same_outside_def copied_def)

lemma rep_movsb_copied:
  assumes "n < 2 ^ 64" and "apart d n s n"
  shows "rep_movsb n d s m = copied d s n m"
  using assms
proof (induction n arbitrary: d s m)
  case 0
  show ?case by (simp add: copied_def)
next
  case (Suc n)
  show ?case
  proof (cases "n = 0")
    case True
    then show ?thesis by (auto simp: copied_def in_rng unat_eq_0)
  next
    case False
    have ap: "apart (d + 1) n (s + 1) n"
      using Suc.prems by (simp add: apart_def)
    have IH: "rep_movsb n (d + 1) (s + 1) m1 = copied (d + 1) (s + 1) n m1" for m1
      using Suc.IH [OF _ ap] Suc.prems by simp
    have dns: "d \<notin> rng s (Suc n)"
      using apart_notin [OF Suc.prems(2), of d] by (simp add: in_rng)
    have "copied (d + 1) (s + 1) n (m(d := m s)) x = copied d s (Suc n) m x" for x
    proof (cases "x \<in> rng (d + 1) n")
      case True
      then have xd: "unat (x - (d + 1)) < n" by (simp add: in_rng)
      have "s + 1 + (x - (d + 1)) \<noteq> d"
      proof
        assume "s + 1 + (x - (d + 1)) = d"
        then have "d - s = (x - (d + 1)) + 1" by (simp add: algebra_simps)
        then have "unat (d - s) \<le> unat (x - (d + 1)) + 1" using unat_add_le by (metis unat_1)
        with xd have "d \<in> rng s (Suc n)" by (simp add: in_rng)
        with dns show False by simp
      qed
      then show ?thesis using True Suc.prems(1) by (simp add: copied_def rng_Suc)
    next
      case False
      then show ?thesis using Suc.prems(1) by (auto simp: copied_def rng_Suc)
    qed
    then have "copied (d + 1) (s + 1) n (m(d := m s)) = copied d s (Suc n) m" by (rule ext)
    then show ?thesis by (simp add: IH)
  qed
qed

lemma rep_movsb_outside: "same_outside (rng d n) m (rep_movsb n d s m)"
proof (induction n arbitrary: d s m)
  case (Suc n)
  have "rng (d + 1) n \<subseteq> rng d (Suc n)" "rng d 1 \<subseteq> rng d (Suc n)"
    using rng_sub [of 1 n "Suc n" d] rng_mono [of 1 "Suc n" d] by simp_all
  moreover have "d \<in> rng d 1" by (simp add: in_rng)
  ultimately have "same_outside (rng d (Suc n)) m (m(d := m s))" by (auto simp: same_outside_def)
  from same_outside_trans [OF this same_outside_mono [OF Suc.IH \<open>rng (d + 1) n \<subseteq> rng d (Suc n)\<close>]]
  show ?case unfolding rep_movsb.simps .
qed (simp add: same_outside_refl)

lemma memcpy_copied:
  assumes "dst \<noteq> 0" and "src \<noteq> 0" and "n \<noteq> 0" and "apart dst (unat n) src (unat n)"
  shows "memcpy dst src n m = Inr (copied dst src (unat n) m)"
  using assms unat_less_max [of n]
  by (simp add: memcpy_def rep_movsb_copied word_neq_0_conv)

text \<open>
  The copy loops of \<open>memmove\<close>: what is already copied after the bytes below \<open>i\<close> (upwards), and
  after those from \<open>i\<close> on (downwards). The direction is the one in which no byte is read
  after it was overwritten.
\<close>

lemma memmoveUp_copied:
  assumes "dst < src" and "unat src + unat n \<le> 2 ^ 64" and "i \<le> n"
    and "m = copied dst src (unat i) m0"
  shows "memmoveUp dst src n i m = copied dst src (unat n) m0"
  using assms
proof (induction dst src n i m rule: memmoveUp.induct)
  case (1 dst src n i m)
  show ?case
  proof (cases "i < n")
    case False
    with "1.prems" show ?thesis by (subst memmoveUp.simps) auto
  next
    case True
    have u: "unat (i + 1) = Suc (unat i)" using True by (rule unat_plus1)
    have si: "unat (src + i) = unat src + unat i"
      using "1.prems" True unat_less_max [of src]
      by (intro unat_add_no_wrap) (simp add: word_less_nat_alt)
    have "src + i \<notin> rng dst (unat i)"
      using "1.prems"(1) si by (simp add: in_rng unat_sub_if' word_less_nat_alt)
    then have rd: "m (src + i) = m0 (src + i)"
      using "1.prems" by (simp add: copied_def)
    have st: "m(dst + i := m (src + i)) = copied dst src (unat (i + 1)) m0"
    proof
      fix x
      have "x = dst + i \<longleftrightarrow> unat (x - dst) = unat i"
        by (auto simp: word_unat_eq_iff [symmetric] algebra_simps)
      then show "(m(dst + i := m (src + i))) x = copied dst src (unat (i + 1)) m0 x"
        using "1.prems"(4) rd by (auto simp: copied_def in_rng u less_Suc_eq)
    qed
    have "i + 1 \<le> n" using True by (simp add: inc_le)
    then show ?thesis
      using "1.IH" [OF True "1.prems"(1,2) _ st] True
      by (simp add: memmoveUp.simps [of dst src n i m] fun_upd_def)
  qed
qed

lemma memmoveDown_copied:
  assumes "src \<le> dst" and "unat dst + unat n \<le> 2 ^ 64" and "i \<le> n"
    and "m = (\<lambda>x. if x \<in> rng dst (unat n) \<and> x \<notin> rng dst (unat i)
                  then m0 (src + (x - dst)) else m0 x)"
  shows "memmoveDown dst src i m = copied dst src (unat n) m0"
  using assms
proof (induction dst src i m rule: memmoveDown.induct)
  case (1 dst src i m)
  show ?case
  proof (cases "i = 0")
    case True
    have "m = copied dst src (unat n) m0"
      unfolding "1.prems"(4) copied_def using True by (intro ext) simp
    with True show ?thesis by (subst memmoveDown.simps) simp
  next
    case False
    then have u: "unat (i - 1) = unat i - 1" and ui: "0 < unat i"
      by (simp_all add: unat_minus_one unat_gt_0)
    have le: "i - 1 \<le> n" and i_n: "unat i \<le> unat n"
      using "1.prems"(3) u by (simp_all add: word_le_nat_alt)
    define y where "y = src + (i - 1)"
    have e1: "src + i - 1 = y" and e2: "dst + i - 1 = dst + (i - 1)"
      by (simp_all add: y_def)
    have "y \<notin> rng dst (unat n) \<or> y \<in> rng dst (unat i)"
    proof -
      have yd: "y - dst = (i - 1) - (dst - src)" by (simp add: y_def)
      have ds: "unat (dst - src) = unat dst - unat src"
        using "1.prems"(1) by (simp add: unat_sub)
      show ?thesis
      proof (cases "unat (dst - src) \<le> unat (i - 1)")
        case True
        then have "unat (y - dst) = unat (i - 1) - unat (dst - src)"
          unfolding yd by (simp add: unat_sub word_le_nat_alt)
        then have "y \<in> rng dst (unat i)" using u ui by (simp add: in_rng)
        then show ?thesis ..
      next
        case False
        then have "unat (y - dst) = unat (i - 1) + 2 ^ 64 - unat (dst - src)"
          unfolding yd unat_sub_if' by simp
        then have "y \<notin> rng dst (unat n)" using "1.prems"(2) ds u ui i_n by (simp add: in_rng)
        then show ?thesis ..
      qed
    qed
    then have rd: "m y = m0 y" using "1.prems"(4) by auto
    have st: "m(dst + i - 1 := m (src + i - 1)) =
      (\<lambda>x. if x \<in> rng dst (unat n) \<and> x \<notin> rng dst (unat (i - 1))
           then m0 (src + (x - dst)) else m0 x)"
    proof
      fix x
      have "x = dst + (i - 1) \<longleftrightarrow> unat (x - dst) = unat (i - 1)"
        by (auto simp: word_unat_eq_iff [symmetric] algebra_simps)
      moreover have "x = dst + (i - 1) \<Longrightarrow> src + (x - dst) = y" by (simp add: y_def)
      ultimately show "(m(dst + i - 1 := m (src + i - 1))) x =
        (if x \<in> rng dst (unat n) \<and> x \<notin> rng dst (unat (i - 1)) then m0 (src + (x - dst)) else m0 x)"
        unfolding e1 e2 using "1.prems"(4) rd u ui i_n by (auto simp: in_rng)
    qed
    show ?thesis
      using "1.IH" [OF False "1.prems"(1,2) le st] False
      by (simp add: memmoveDown.simps [of dst src i m] fun_upd_def)
  qed
qed

lemma memmove_copied:
  assumes "dst \<noteq> 0" and "src \<noteq> 0" and "n \<noteq> 0"
    and "unat dst + unat n \<le> 2 ^ 64" and "unat src + unat n \<le> 2 ^ 64"
  shows "memmove dst src n m = Inr (copied dst src (unat n) m)"
proof (cases "dst < src")
  case True
  have "m = copied dst src (unat 0) m" by (simp add: copied_def)
  then show ?thesis
    using memmoveUp_copied [OF True assms(5), of 0 m m] True assms
    by (simp add: memmove_def word_neq_0_conv)
next
  case False
  then have "memmoveDown dst src n m = copied dst src (unat n) m"
    using assms by (intro memmoveDown_copied) auto
  then show ?thesis using False assms by (simp add: memmove_def word_neq_0_conv)
qed

subsection \<open>Zero-terminated strings\<close>

text \<open>\<open>cstr m a s\<close>: the bytes \<open>s\<close>, none of them zero, stand at \<open>a\<close>, followed by a zero.\<close>

fun cstr :: "mem \<Rightarrow> u64 \<Rightarrow> u8 list \<Rightarrow> bool" where
  "cstr m a [] \<longleftrightarrow> m a = 0"
| "cstr m a (c # s) \<longleftrightarrow> c \<noteq> 0 \<and> m a = c \<and> cstr m (a + 1) s"

lemma cstr_unique: "cstr m a s \<Longrightarrow> cstr m a t \<Longrightarrow> s = t"
proof (induction s arbitrary: a t)
  case Nil
  then show ?case by (cases t) auto
next
  case (Cons c s)
  then show ?case by (cases t) auto
qed

lemma cstr_nonzero: "cstr m a s \<Longrightarrow> 0 \<notin> set s"
  by (induction s arbitrary: a) auto

lemma cstr_char: "cstr m a s \<Longrightarrow> i < length s \<Longrightarrow> m (a + of_nat i) = s ! i"
proof (induction s arbitrary: a i)
  case (Cons c s)
  show ?case
  proof (cases i)
    case (Suc j)
    then show ?thesis
      using Cons.IH [of "a + 1" j] Cons.prems by (simp add: algebra_simps)
  qed (use Cons in simp)
qed simp

lemma cstr_end: "cstr m a s \<Longrightarrow> m (a + of_nat (length s)) = 0"
proof (induction s arbitrary: a)
  case (Cons c s)
  then show ?case using Cons.IH [of "a + 1"] by (simp add: algebra_simps)
qed simp

lemma cstrI:
  assumes "0 \<notin> set s" and "\<And>i. i < length s \<Longrightarrow> m (a + of_nat i) = s ! i"
    and "m (a + of_nat (length s)) = 0"
  shows "cstr m a s"
  using assms
proof (induction s arbitrary: a)
  case (Cons c s)
  have "cstr m (a + 1) s"
  proof (rule Cons.IH)
    show "m (a + 1 + of_nat i) = s ! i" if "i < length s" for i
      using Cons.prems(2) [of "Suc i"] that by (simp add: algebra_simps)
  qed (use Cons.prems in \<open>auto simp: algebra_simps\<close>)
  with Cons.prems(1) Cons.prems(2) [of 0] show ?case by auto
qed simp

lemma cstr_cong:
  assumes "cstr m a s" and "\<And>x. x \<in> rng a (Suc (length s)) \<Longrightarrow> m' x = m x"
  shows "cstr m' a s"
proof (rule cstrI)
  have in_r: "a + of_nat i \<in> rng a (Suc (length s))" if "i \<le> length s" for i
    using that le_less_trans [OF unat_of_nat_le [of i]] by (simp add: in_rng)
  show "0 \<notin> set s" using assms(1) by (rule cstr_nonzero)
  show "m' (a + of_nat i) = s ! i" if "i < length s" for i
    using cstr_char [OF assms(1) that] assms(2) [OF in_r] that by simp
  show "m' (a + of_nat (length s)) = 0"
    using cstr_end [OF assms(1)] assms(2) [OF in_r] by simp
qed

lemma strlenLoop_cstr: "cstr m a s \<Longrightarrow> strlenLoop m a r = Some (r + of_nat (length s))"
proof (induction s arbitrary: a r)
  case (Cons c s)
  then show ?case by (subst strlenLoop.simps) (simp add: algebra_simps)
qed (subst strlenLoop.simps, simp)

lemma strlen_cstr: "a \<noteq> 0 \<Longrightarrow> cstr m a s \<Longrightarrow> strlen a m = Some (Inr (of_nat (length s)))"
  by (simp add: strlen_def strlenLoop_cstr)

text \<open>A string with no terminator anywhere makes \<open>strlen\<close> run for ever.\<close>

lemma strlenLoop_Some: "strlenLoop m a r = Some n \<Longrightarrow> \<exists>x. m x = 0"
  by (rule strlenLoop.raw_induct [where P = "\<lambda>m a r n. \<exists>x. m x = 0"]) (auto split: if_splits)

text \<open>
  What \<open>strcmp\<close> returns on two strings: the difference of the first two bytes that differ
  (the terminator included), as signed characters.
\<close>

fun strcmp_spec :: "u8 list \<Rightarrow> u8 list \<Rightarrow> int" where
  "strcmp_spec [] t = - sint (hd (t @ [0]))"
| "strcmp_spec (c # s) [] = sint c"
| "strcmp_spec (c # s) (d # t) = (if c = d then strcmp_spec s t else sint c - sint d)"

lemma strcmpLoop_cstr: "cstr m a s \<Longrightarrow> cstr m b t \<Longrightarrow> strcmpLoop m a b = Some (strcmp_spec s t)"
proof (induction s t arbitrary: a b rule: strcmp_spec.induct)
  case (1 t)
  then show ?case by (cases t) (subst strcmpLoop.simps, simp)+
qed (subst strcmpLoop.simps, auto)+

lemma sint_inj: "sint (c::u8) = sint d \<longleftrightarrow> c = d"
  using signed_word_eqI [of c d] by auto

lemma sint_eq_0: "sint (c::u8) = 0 \<longleftrightarrow> c = 0"
  using sint_inj [of c 0] by simp

lemma strcmp_spec_eq_0: "0 \<notin> set s \<Longrightarrow> 0 \<notin> set t \<Longrightarrow> strcmp_spec s t = 0 \<longleftrightarrow> s = t"
proof (induction s t rule: strcmp_spec.induct)
  case (1 t)
  then show ?case by (cases t) (auto simp: sint_eq_0)
qed (auto simp: sint_inj sint_eq_0)

lemma strcmp_cstr:
  assumes "a \<noteq> 0" and "b \<noteq> 0" and "cstr m a s" and "cstr m b t"
  shows "strcmp a b m = Some (Inr (strcmp_spec s t))"
  using assms by (simp add: strcmp_def strcmpLoop_cstr)

subsection \<open>strcpy and strncpy\<close>

text \<open>
  \<open>strncpy_spec s n\<close> is what \<open>strncpy\<close> writes: the string cut to \<open>n\<close> bytes and padded with
  zeros up to \<open>n\<close>. It holds a terminator only when the string is shorter than \<open>n\<close>.
\<close>

definition strncpy_spec :: "u8 list \<Rightarrow> nat \<Rightarrow> u8 list" where
  "strncpy_spec s n = take n s @ replicate (n - length s) 0"

definition bytes_at :: "mem \<Rightarrow> u64 \<Rightarrow> u8 list \<Rightarrow> bool" where
  "bytes_at m a bs \<longleftrightarrow> (\<forall>i < length bs. m (a + of_nat i) = bs ! i)"

lemma length_strncpy_spec [simp]: "length (strncpy_spec s n) = n"
  by (simp add: strncpy_spec_def)

lemma strncpy_spec_nth:
  "i < n \<Longrightarrow> strncpy_spec s n ! i = (if i < length s then s ! i else 0)"
  by (auto simp: strncpy_spec_def nth_append)

lemma strncpyPad_spec:
  assumes "i \<le> n"
  shows "strncpyPad d n i m = (\<lambda>x. if x \<in> rng d (unat n) \<and> x \<notin> rng d (unat i) then 0 else m x)"
  using assms
proof (induction d n i m rule: strncpyPad.induct)
  case (1 d n i m)
  show ?case
  proof (cases "i < n")
    case False
    with "1.prems" show ?thesis by (subst strncpyPad.simps) (auto simp: fun_eq_iff)
  next
    case True
    have u: "unat (i + 1) = Suc (unat i)" using True by (rule unat_plus1)
    have "i + 1 \<le> n" using True by (simp add: inc_le)
    note IH = "1.IH" [OF True this]
    show ?thesis
    proof
      fix x
      have "x = d + i \<longleftrightarrow> unat (x - d) = unat i"
        by (auto simp: word_unat_eq_iff [symmetric] algebra_simps)
      moreover have "unat i < unat n" using True by (simp add: word_less_nat_alt)
      ultimately show "strncpyPad d n i m x =
          (if x \<in> rng d (unat n) \<and> x \<notin> rng d (unat i) then 0 else m x)"
        by (subst strncpyPad.simps) (auto simp: True IH in_rng u)
    qed
  qed
qed

lemma strncpyCopy_spec:
  assumes "cstr m0 src s" and "rng d (unat n) \<inter> rng src (min (unat n) (Suc (length s))) = {}"
    and "i \<le> n" and "unat i \<le> length s"
    and "m = copied d src (unat i) m0"
  shows "\<exists>j. strncpyCopy d src n i m = (j, copied d src (unat j) m0) \<and> unat j = min (unat n) (length s)"
  using assms
proof (induction d src n i m rule: strncpyCopy.induct)
  case (1 d src n i m)
  have ch: "m (src + i) = m0 (src + i)" if "i < n"
  proof -
    have "src + i \<in> rng src (min (unat n) (Suc (length s)))"
      using that "1.prems"(4) by (simp add: in_rng word_less_nat_alt)
    then have "src + i \<notin> rng d (unat n)" using "1.prems"(2) by auto
    then have "src + i \<notin> rng d (unat i)"
      using rng_mono [of "unat i" "unat n" d] that by (auto simp: word_less_nat_alt)
    then show ?thesis using "1.prems"(5) by (simp add: copied_def)
  qed
  show ?case
  proof (cases "i < n \<and> unat i < length s")
    case True
    have nz: "m (src + i) \<noteq> 0"
      using cstr_char [OF "1.prems"(1), of "unat i"] True ch cstr_nonzero [OF "1.prems"(1)]
      by (auto simp: in_set_conv_nth)
    have u: "unat (i + 1) = Suc (unat i)" using True unat_plus1 by blast
    have st: "m(d + i := m (src + i)) = copied d src (unat (i + 1)) m0"
    proof
      fix x
      have "x = d + i \<longleftrightarrow> unat (x - d) = unat i"
        by (auto simp: word_unat_eq_iff [symmetric] algebra_simps)
      then show "(m(d + i := m (src + i))) x = copied d src (unat (i + 1)) m0 x"
        using "1.prems"(5) ch True by (auto simp: copied_def in_rng u less_Suc_eq)
    qed
    have "i + 1 \<le> n" "unat (i + 1) \<le> length s" using True u by (simp_all add: inc_le)
    then show ?thesis
      using "1.IH" [OF _ "1.prems"(1,2) _ _ st] True nz
      by (simp add: strncpyCopy.simps [of d src n i m] fun_upd_def)
  next
    case False
    have "i < n \<Longrightarrow> m (src + i) = 0"
      using False "1.prems"(4) cstr_end [OF "1.prems"(1)] ch unat_eqD [of i "length s"]
      by (cases "unat i = length s") auto
    then have "strncpyCopy d src n i m = (i, m)" by (subst strncpyCopy.simps) auto
    moreover have "unat i = min (unat n) (length s)"
      using False "1.prems"(3,4) by (auto simp: word_le_nat_alt word_less_nat_alt)
    ultimately show ?thesis using "1.prems"(5) by auto
  qed
qed

text \<open>
  \<open>strncpy\<close> writes exactly \<open>n\<close> bytes, those of \<^term>\<open>strncpy_spec\<close>, when the destination does
  not meet the part of the source it reads.
\<close>

lemma strncpy_cstr:
  assumes "d \<noteq> 0" and "src \<noteq> 0" and "n \<noteq> 0" and "cstr m src s"
    and "rng d (unat n) \<inter> rng src (min (unat n) (Suc (length s))) = {}"
  shows "\<exists>m'. strncpy d src n m = Inr m' \<and> bytes_at m' d (strncpy_spec s (unat n))
           \<and> same_outside (rng d (unat n)) m m'"
proof -
  have "m = copied d src (unat 0) m" by (simp add: copied_def)
  with strncpyCopy_spec [OF assms(4,5), of 0 m]
  obtain j where j: "strncpyCopy d src n 0 m = (j, copied d src (unat j) m)"
    "unat j = min (unat n) (length s)" by auto
  then have jn: "j \<le> n" by (simp add: word_le_nat_alt)
  let ?m = "strncpyPad d n j (copied d src (unat j) m)"
  have "strncpy d src n m = Inr ?m"
    using assms j by (simp add: strncpy_def word_neq_0_conv)
  moreover have "bytes_at ?m d (strncpy_spec s (unat n))"
    unfolding bytes_at_def
  proof (intro allI impI)
    fix i assume "i < length (strncpy_spec s (unat n))"
    then have i: "i < unat n" by simp
    then have ui: "unat (of_nat i :: u64) = i"
      using unat_less_max [of n] by (intro unat_of_nat64) simp
    show "?m (d + of_nat i) = strncpy_spec s (unat n) ! i"
      using i j(2) cstr_char [OF assms(4), of i]
      by (auto simp: strncpyPad_spec [OF jn] copied_def in_rng ui strncpy_spec_nth)
  qed
  moreover have "same_outside (rng d (unat n)) m ?m"
    using j(2) by (auto simp: same_outside_def strncpyPad_spec [OF jn] copied_def in_rng)
  ultimately show ?thesis by blast
qed

lemma bytes_at_cstr:
  assumes "bytes_at m a bs" and "bs = s @ 0 # t" and "0 \<notin> set s"
  shows "cstr m a s"
proof (rule cstrI)
  show "m (a + of_nat i) = s ! i" if "i < length s" for i
    using assms that by (simp add: bytes_at_def nth_append)
  show "m (a + of_nat (length s)) = 0"
    using assms(1) by (simp add: bytes_at_def assms(2))
qed (fact assms(3))

lemma strncpy_spec_short:
  "length s < n \<Longrightarrow> strncpy_spec s n = s @ 0 # replicate (n - Suc (length s)) 0"
  by (simp add: strncpy_spec_def Suc_diff_Suc flip: replicate_Suc)

text \<open>A string shorter than the bound is copied whole, terminator and all.\<close>

lemma strncpy_cstr_short:
  assumes "d \<noteq> 0" and "src \<noteq> 0" and "cstr m src s" and "length s < unat n"
    and "rng d (unat n) \<inter> rng src (Suc (length s)) = {}"
  shows "\<exists>m'. strncpy d src n m = Inr m' \<and> cstr m' d s \<and> same_outside (rng d (unat n)) m m'"
proof -
  have n0: "n \<noteq> 0" using assms(4) by auto
  have "min (unat n) (Suc (length s)) = Suc (length s)" using assms(4) by simp
  with strncpy_cstr [OF assms(1,2) n0 assms(3)] assms(5)
  obtain m' where m': "strncpy d src n m = Inr m'"
    "bytes_at m' d (strncpy_spec s (unat n))" "same_outside (rng d (unat n)) m m'" by auto
  have "cstr m' d s"
    using m'(2) strncpy_spec_short [OF assms(4)] cstr_nonzero [OF assms(3)]
    by (rule bytes_at_cstr)
  with m' show ?thesis by blast
qed

lemma strcpyLoop_spec:
  assumes "cstr m0 src s" and "rng d (Suc (length s)) \<inter> rng src (Suc (length s)) = {}"
    and "length s < 2 ^ 63" and "unat i \<le> length s" and "m = copied d src (unat i) m0"
  shows "strcpyLoop d src i m = Some (copied d src (Suc (length s)) m0)"
  using assms(4,5)
proof (induction "length s - unat i" arbitrary: i m)
  case 0
  then have ui: "unat i = length s" by simp
  then have i: "i = of_nat (length s)" by (rule unat_eqD)
  have "src + i \<in> rng src (Suc (length s))" using ui by (simp add: in_rng)
  then have "src + i \<notin> rng d (unat i)" using assms(2) ui rng_mono [of "unat i" "Suc (length s)" d] by auto
  then have e: "m (src + i) = 0"
    using "0.prems"(2) cstr_end [OF assms(1)] by (simp add: copied_def i)
  have "m(d + i := 0) = copied d src (Suc (length s)) m0"
  proof
    fix x
    have "x = d + i \<longleftrightarrow> unat (x - d) = unat i"
      by (auto simp: word_unat_eq_iff [symmetric] algebra_simps)
    then show "(m(d + i := 0)) x = copied d src (Suc (length s)) m0 x"
      using "0.prems"(2) cstr_end [OF assms(1)] ui
      by (auto simp: copied_def in_rng less_Suc_eq i [symmetric])
  qed
  with e show ?case by (subst strcpyLoop.simps) simp
next
  case (Suc k)
  then have lt: "unat i < length s" by simp
  have "unat i < 2 ^ 63" using lt assms(3) by simp
  then have u: "unat (i + 1) = Suc (unat i)" by (simp add: unat_plus_if')
  have "src + i \<in> rng src (Suc (length s))" using lt by (simp add: in_rng)
  then have "src + i \<notin> rng d (unat i)" using assms(2) lt rng_mono [of "unat i" "Suc (length s)" d] by auto
  then have e: "m (src + i) = m0 (src + i)" using Suc.prems by (simp add: copied_def)
  have nz: "m (src + i) \<noteq> 0"
    using cstr_char [OF assms(1) lt] e cstr_nonzero [OF assms(1)] lt by (auto simp: in_set_conv_nth)
  have st: "m(d + i := m (src + i)) = copied d src (unat (i + 1)) m0"
  proof
    fix x
    have "x = d + i \<longleftrightarrow> unat (x - d) = unat i"
      by (auto simp: word_unat_eq_iff [symmetric] algebra_simps)
    then show "(m(d + i := m (src + i))) x = copied d src (unat (i + 1)) m0 x"
      using Suc.prems e by (auto simp: copied_def in_rng u less_Suc_eq)
  qed
  have "strcpyLoop d src (i + 1) (m(d + i := m (src + i))) = Some (copied d src (Suc (length s)) m0)"
    using Suc.hyps(2) u lt by (intro Suc.hyps(1) [OF _ _ st]) auto
  with nz show ?case by (subst strcpyLoop.simps) simp
qed

lemma strcpy_cstr:
  assumes "d \<noteq> 0" and "src \<noteq> 0" and "cstr m src s" and "length s < 2 ^ 63"
    and "rng d (Suc (length s)) \<inter> rng src (Suc (length s)) = {}"
  shows "\<exists>m'. strcpy d src m = Some (Inr m') \<and> cstr m' d s
           \<and> same_outside (rng d (Suc (length s))) m m'"
proof -
  let ?m = "copied d src (Suc (length s)) m"
  have "m = copied d src (unat 0) m" by (simp add: copied_def)
  then have "strcpy d src m = Some (Inr ?m)"
    using strcpyLoop_spec [OF assms(3,5,4), of 0 m] assms(1,2) by (simp add: strcpy_def)
  moreover have "cstr ?m d s"
  proof (rule cstrI)
    have in_r: "d + of_nat i \<in> rng d (Suc (length s))" if "i \<le> length s" for i
      using that le_less_trans [OF unat_of_nat_le [of i]] by (simp add: in_rng)
    show "?m (d + of_nat i) = s ! i" if "i < length s" for i
      using in_r [of i] that cstr_char [OF assms(3) that] by (simp add: copied_def)
    show "?m (d + of_nat (length s)) = 0"
      using in_r [of "length s"] cstr_end [OF assms(3)] by (simp add: copied_def)
  qed (use assms(3) cstr_nonzero in blast)
  ultimately show ?thesis using copied_same_outside by blast
qed

lemma memcmpLoop_eq_0:
  "n \<le> 2 ^ 63 \<Longrightarrow> memcmpLoop n a b m = 0 \<longleftrightarrow> (\<forall>i < n. m (a + of_nat i) = m (b + of_nat i))"
proof (induction n arbitrary: a b)
  case (Suc n)
  have "(\<forall>i < Suc n. m (a + of_nat i) = m (b + of_nat i)) \<longleftrightarrow>
      m a = m b \<and> (\<forall>i < n. m (a + 1 + of_nat i) = m (b + 1 + of_nat i))"
    by (auto simp: less_Suc_eq_0_disj algebra_simps)
  with Suc show ?case by auto
qed simp

subsection \<open>Properties\<close>

text \<open>C8: \<open>memmove\<close> leaves at the destination the bytes the source had before the call, however
  the two ranges overlap, and changes nothing else.\<close>

theorem memmove_correct:
  assumes "dst \<noteq> 0" and "src \<noteq> 0" and "n \<noteq> 0"
    and "unat dst + unat n \<le> 2 ^ 64" and "unat src + unat n \<le> 2 ^ 64"
  shows "\<exists>m'. memmove dst src n m = Inr m' \<and> same_outside (rng dst (unat n)) m m'
    \<and> (\<forall>i < unat n. m' (dst + of_nat i) = m (src + of_nat i))"
proof -
  have "unat (of_nat i :: u64) = i" if "i < unat n" for i
    using that unat_less_max [of n] by (intro unat_of_nat64) simp
  then show ?thesis
    using memmove_copied [OF assms] copied_same_outside
    by (auto simp: copied_def in_rng)
qed

theorem memmove_correct_witness:
  "\<exists>m'. memmove 0x1002 0x1000 4 (\<lambda>x. ucast x) = Inr m' \<and> m' 0x1005 = 3"
proof -
  from memmove_correct [of "0x1002" "0x1000" 4 "\<lambda>x. ucast x"] obtain m' where
    m': "memmove 0x1002 0x1000 4 (\<lambda>x. ucast x) = Inr m'"
      "\<forall>i < 4. m' (0x1002 + of_nat i) = ucast (0x1000 + of_nat i :: u64)" by auto
  then have "m' (0x1002 + of_nat 3) = ucast (0x1000 + of_nat 3 :: u64)" by (simp only:)
  with m'(1) show ?thesis by (intro exI [of _ m']) simp
qed

text \<open>\<open>strncpy\<close> writes exactly \<open>n\<close> bytes: the string cut to \<open>n\<close> bytes, then zeros. The copy is
  a terminated string within those \<open>n\<close> bytes exactly when the source is shorter than \<open>n\<close>.\<close>

theorem strncpy_correct:
  assumes "d \<noteq> 0" and "src \<noteq> 0" and "n \<noteq> 0" and "cstr m src s"
    and "rng d (unat n) \<inter> rng src (min (unat n) (Suc (length s))) = {}"
  shows "\<exists>m'. strncpy d src n m = Inr m' \<and> same_outside (rng d (unat n)) m m'
    \<and> bytes_at m' d (take (unat n) s @ replicate (unat n - length s) 0)
    \<and> ((\<exists>t. length t < unat n \<and> cstr m' d t) \<longleftrightarrow> length s < unat n)"
proof -
  from strncpy_cstr [OF assms] obtain m' where m': "strncpy d src n m = Inr m'"
    "bytes_at m' d (strncpy_spec s (unat n))" "same_outside (rng d (unat n)) m m'" by blast
  have "cstr m' d s" if "length s < unat n"
    using m'(2) strncpy_spec_short [OF that] cstr_nonzero [OF assms(4)] by (rule bytes_at_cstr)
  moreover have "length s < unat n" if t: "length t < unat n" "cstr m' d t" for t
  proof (rule ccontr)
    assume long: "\<not> length s < unat n"
    then have "m' (d + of_nat (length t)) = s ! length t"
      using m'(2) t(1) by (simp add: bytes_at_def strncpy_spec_nth)
    then have "s ! length t = 0" using cstr_end [OF t(2)] by simp
    moreover have "length t < length s" using long t(1) by linarith
    ultimately show False using cstr_nonzero [OF assms(4)] by (metis nth_mem)
  qed
  ultimately show ?thesis using m' unfolding strncpy_spec_def by blast
qed

text \<open>The string \<open>"ab"\<close> at \<open>0x1000\<close>, and the longer \<open>"abc"\<close> at \<open>0x1100\<close>.\<close>

definition demoStrings :: mem where
  "demoStrings = (\<lambda>_. 0)(0x1000 := 0x61, 0x1001 := 0x62, 0x1100 := 0x61, 0x1101 := 0x62, 0x1102 := 0x63)"

lemma demo_cstr: "cstr demoStrings 0x1000 [0x61, 0x62]" "cstr demoStrings 0x1100 [0x61, 0x62, 0x63]"
  by (simp_all add: demoStrings_def)

theorem strncpy_correct_witness:
  "\<exists>m'. strncpy 0x2000 0x1100 3 demoStrings = Inr m' \<and> bytes_at m' 0x2000 [0x61, 0x62, 0x63]"
proof -
  have "rng 0x2000 3 \<inter> rng 0x1100 3 = {}"
    by (rule apart_disjoint) (simp add: apart_def)
  then show ?thesis using strncpy_correct [OF _ _ _ demo_cstr(2), of "0x2000" 3]
    by (auto simp: numeral_3_eq_3 [symmetric])
qed

text \<open>on two terminated strings \<open>strcmp\<close> returns, and returns 0 exactly when they are equal.\<close>

theorem strcmp_correct:
  assumes "a \<noteq> 0" and "b \<noteq> 0" and "cstr m a s" and "cstr m b t"
  shows "\<exists>r. strcmp a b m = Some (Inr r) \<and> (r = 0 \<longleftrightarrow> s = t)"
  using strcmp_cstr [OF assms] strcmp_spec_eq_0 cstr_nonzero assms(3,4) by blast

theorem strcmp_correct_witness:
  "\<exists>r. strcmp 0x1000 0x1100 demoStrings = Some (Inr r) \<and> r \<noteq> 0"
  using strcmp_correct [OF _ _ demo_cstr] by auto

end
