(* ===== verification/BitmapData.thy ===== *)
theory BitmapData
  imports Strings
begin

section \<open>Bitmaps (util/datastructures/bitmap.c)\<close>

text \<open>
  The bitmap of \<open>bitmap.c\<close>: a struct of bit count, byte size and a pointer to the array of
  64-bit words, which stands in the byte memory. The two users in the kernel, the page
  allocator and the interrupt vectors, have the struct as a static variable, so here it is
  a record and the null checks on the struct pointer are true; the null check on the data
  pointer stays.

  The abstract view is one boolean per position (\<open>bmBit\<close>). The lemmas show each operation
  on that view, and that it touches no byte outside the array. The locale \<open>bit_allocator\<close> is
  what the two users need of it: find a run, fill a run, and what that gives together.
\<close>

record Bitmap =
  bits :: u64
  dataSize :: u64
  data :: u64

definition INDEX :: "u64 \<Rightarrow> u64" where "INDEX pos = pos div 64"
definition BIT_INDEX :: "u64 \<Rightarrow> u64" where "BIT_INDEX pos = pos mod 64"
definition BIT :: "u64 \<Rightarrow> u64" where "BIT pos = push_bit (unat (BIT_INDEX pos)) 1"

definition bitmapCalculateSize :: "u64 \<Rightarrow> u64" where
  "bitmapCalculateSize n = DIV_ROUND_UP n 64 * 8"

definition bitmapInit :: "u64 \<Rightarrow> u64 \<Rightarrow> mem \<Rightarrow> (Bitmap \<times> mem) res" where
  "bitmapInit n dat m =
     ASSERT (n > 0) (ASSERT (dat \<noteq> 0)
       (let bm = \<lparr>bits = n, dataSize = bitmapCalculateSize n, data = dat\<rparr>
        in bnd (memset (data bm) 0 (dataSize bm) m) (\<lambda>m. Inr (bm, m))))"

text \<open>The address of \<open>bitmap->data[INDEX(pos)]\<close>.\<close>

definition wordAddr :: "Bitmap \<Rightarrow> u64 \<Rightarrow> u64" where
  "wordAddr bm pos = data bm + 8 * INDEX pos"

definition bitmapSet :: "Bitmap \<Rightarrow> u64 \<Rightarrow> bool \<Rightarrow> mem \<Rightarrow> mem res" where
  "bitmapSet bm pos val m =
     ASSERT (pos < bits bm)
       (let a = wordAddr bm pos in
        Inr (if val then store64 m a (load64 m a OR BIT pos)
             else store64 m a (load64 m a AND NOT (BIT pos))))"

definition bitmapCheck :: "Bitmap \<Rightarrow> u64 \<Rightarrow> mem \<Rightarrow> bool res" where
  "bitmapCheck bm pos m =
     ASSERT (pos < bits bm) (Inr (load64 m (wordAddr bm pos) AND BIT pos \<noteq> 0))"

definition bitmapFillAll :: "Bitmap \<Rightarrow> bool \<Rightarrow> mem \<Rightarrow> mem res" where
  "bitmapFillAll bm val m =
     (if val then memset (data bm) 0xff (dataSize bm) m else memset (data bm) 0 (dataSize bm) m)"

function bitmapFillLoop :: "Bitmap \<Rightarrow> u64 \<Rightarrow> u64 \<Rightarrow> bool \<Rightarrow> mem \<Rightarrow> mem res" where
  "bitmapFillLoop bm pos to val m =
     (if pos < to
      then bnd (bitmapSet bm pos val m) (\<lambda>m. bitmapFillLoop bm (pos + 1) to val m)
      else Inr m)"
  by pat_completeness auto
termination
  by (relation "measure (\<lambda>(bm, pos, to, val, m). unat to - unat pos)")
    (auto simp: unat_plus1 word_less_nat_alt)

definition bitmapFill :: "Bitmap \<Rightarrow> u64 \<Rightarrow> u64 \<Rightarrow> bool \<Rightarrow> mem \<Rightarrow> mem res" where
  "bitmapFill bm from to val m =
     ASSERT (from < bits bm) (ASSERT (to \<le> bits bm) (bitmapFillLoop bm from to val m))"

function bitmapFindLoop :: "Bitmap \<Rightarrow> u64 \<Rightarrow> u64 \<Rightarrow> u64 \<Rightarrow> u64 \<Rightarrow> mem \<Rightarrow> u64 res" where
  "bitmapFindLoop bm len pos start current m =
     (if pos < bits bm
      then bnd (bitmapCheck bm pos m) (\<lambda>isset.
             if \<not> isset
             then (if current + 1 = len then Inr start
                   else bitmapFindLoop bm len (pos + 1) start (current + 1) m)
             else bitmapFindLoop bm len (pos + 1) (pos + 1) 0 m)
      else Inr 0)"
  by pat_completeness auto
termination
  by (relation "measure (\<lambda>(bm, len, pos, start, current, m). unat (bits bm) - unat pos)")
    (auto simp: unat_plus1 word_less_nat_alt)

definition bitmapFind :: "Bitmap \<Rightarrow> u64 \<Rightarrow> mem \<Rightarrow> u64 res" where
  "bitmapFind bm len m = ASSERT (len > 0) (bitmapFindLoop bm len 0 0 0 m)"

declare bitmapFillLoop.simps [simp del] bitmapFindLoop.simps [simp del]

subsection \<open>The view as one boolean per position\<close>

definition bmBit :: "mem \<Rightarrow> Bitmap \<Rightarrow> nat \<Rightarrow> bool" where
  "bmBit m bm p \<longleftrightarrow> bit (load64 m (data bm + of_nat (8 * (p div 64)))) (p mod 64)"

text \<open>
  A usable bitmap: sizes as \<open>bitmapInit\<close> computes them, below the size at which rounding up
  would overflow, and an array that does not wrap around the address space.
\<close>

definition bm_ok :: "Bitmap \<Rightarrow> bool" where
  "bm_ok bm \<longleftrightarrow> bits bm \<noteq> 0 \<and> unat (bits bm) \<le> 2 ^ 60 \<and> data bm \<noteq> 0
     \<and> dataSize bm = bitmapCalculateSize (bits bm)
     \<and> unat (data bm) + unat (dataSize bm) \<le> 2 ^ 64"

abbreviation bm_rng :: "Bitmap \<Rightarrow> u64 set" where
  "bm_rng bm \<equiv> rng (data bm) (unat (dataSize bm))"

lemma unat_calculateSize:
  assumes "unat n \<le> 2 ^ 60"
  shows "unat (bitmapCalculateSize n) = 8 * ((unat n + 63) div 64)"
proof -
  have "unat (n + 64 - 1) = unat n + 63"
  proof -
    have "n + 64 - 1 = n + 63" by simp
    then show ?thesis using assms by (simp add: unat_plus_if')
  qed
  then have d: "unat (DIV_ROUND_UP n 64) = (unat n + 63) div 64"
    by (simp add: DIV_ROUND_UP_def unat_div)
  have "(unat n + 63) div 64 * 8 < 2 ^ 64" using assms by simp
  then have "unat (DIV_ROUND_UP n 64 * 8) = (unat n + 63) div 64 * 8"
    using unat_mult_lem [of "DIV_ROUND_UP n 64" 8] d by simp
  then show ?thesis by (simp add: bitmapCalculateSize_def)
qed

lemma wordAddr_nat: "wordAddr bm pos = data bm + of_nat (8 * (unat pos div 64))"
proof -
  have "(of_nat (unat pos div 64) :: u64) = pos div 64"
    by (rule unat_eqD [symmetric]) (simp add: unat_div)
  then show ?thesis by (simp add: wordAddr_def INDEX_def)
qed

text \<open>Two words of the array are the same or apart.\<close>

lemma word_in_data:
  assumes "bm_ok bm" and "p < unat (bits bm)"
  shows "unat (of_nat (8 * (p div 64)) :: u64) = 8 * (p div 64)"
    and "8 * (p div 64) + 8 \<le> unat (dataSize bm)"
proof -
  have n: "unat (bits bm) \<le> 2 ^ 60" and sz: "unat (dataSize bm) = 8 * ((unat (bits bm) + 63) div 64)"
    using assms(1) unat_calculateSize by (auto simp: bm_ok_def)
  show "unat (of_nat (8 * (p div 64)) :: u64) = 8 * (p div 64)"
    using assms(2) n by (intro unat_of_nat64) simp
  have "p div 64 < (unat (bits bm) + 63) div 64"
    using div_le_mono [of "p + 64" "unat (bits bm) + 63" 64] assms(2) by simp
  then show "8 * (p div 64) + 8 \<le> unat (dataSize bm)" using sz by linarith
qed

lemma word_rng_data:
  assumes "bm_ok bm" and "p < unat (bits bm)"
  shows "rng (data bm + of_nat (8 * (p div 64))) 8 \<subseteq> bm_rng bm"
  using word_in_data [OF assms] by (intro rng_sub) simp

lemma words_apart:
  assumes "i < j" and "j < 2 ^ 58"
  shows "apart (a + of_nat (8 * i)) 8 (a + of_nat (8 * j)) 8"
proof -
  have i: "unat (of_nat (8 * i) :: u64) = 8 * i" and j: "unat (of_nat (8 * j) :: u64) = 8 * j"
    using assms by (intro unat_of_nat64; simp)+
  have "apart (a + of_nat (8 * i)) 8 (a + of_nat (8 * j)) 8 \<longleftrightarrow>
      8 \<le> unat (of_nat (8 * j) - of_nat (8 * i) :: u64) \<and>
      8 \<le> unat (of_nat (8 * i) - of_nat (8 * j) :: u64)"
    by (simp add: apart_def)
  also have "\<dots>" unfolding unat_sub_if' i j using assms by (simp, arith)
  finally show ?thesis .
qed

lemma bit_BIT: "bit (BIT pos) k \<longleftrightarrow> k = unat pos mod 64"
  by (auto simp: BIT_def BIT_INDEX_def bit_simps unat_mod)

lemma BIT_test: "w AND BIT pos \<noteq> 0 \<longleftrightarrow> bit w (unat pos mod 64)"
proof -
  have b: "bit (w AND BIT pos) k \<longleftrightarrow> bit w k \<and> k = unat pos mod 64" for k
    by (simp add: bit_and_iff bit_BIT)
  show ?thesis
  proof
    assume "w AND BIT pos \<noteq> 0"
    then show "bit w (unat pos mod 64)"
      using bit_word_eqI [of "w AND BIT pos" 0] b by auto
  next
    assume "bit w (unat pos mod 64)"
    then have "bit (w AND BIT pos) (unat pos mod 64)" by (simp add: b)
    then show "w AND BIT pos \<noteq> 0" by (metis bit_0_eq bot_apply bot_bool_def)
  qed
qed

lemma bitmapCheck_bmBit:
  "pos < bits bm \<Longrightarrow> bitmapCheck bm pos m = Inr (bmBit m bm (unat pos))"
  by (simp add: bitmapCheck_def BIT_test bmBit_def wordAddr_nat del: of_nat_mult)

lemma bitmapSet_spec:
  assumes "bm_ok bm" and "pos < bits bm"
  shows "\<exists>m'. bitmapSet bm pos val m = Inr m' \<and> same_outside (bm_rng bm) m m'
    \<and> (\<forall>p < unat (bits bm). bmBit m' bm p = (if p = unat pos then val else bmBit m bm p))"
proof -
  let ?a = "data bm + of_nat (8 * (unat pos div 64))"
  define v where "v = (if val then load64 m ?a OR BIT pos else load64 m ?a AND NOT (BIT pos))"
  let ?m = "store64 m ?a v"
  have pos: "unat pos < unat (bits bm)" using assms(2) by (simp add: word_less_nat_alt)
  have "bitmapSet bm pos val m = Inr ?m"
    using assms(2) by (simp add: bitmapSet_def wordAddr_nat v_def Let_def del: of_nat_mult)
  moreover have "same_outside (bm_rng bm) m ?m"
    by (rule store_same_outside' [OF word_rng_data [OF assms(1) pos]])
  moreover have "bmBit ?m bm p = (if p = unat pos then val else bmBit m bm p)"
    if p: "p < unat (bits bm)" for p
  proof (cases "p div 64 = unat pos div 64")
    case True
    have "p = unat pos \<longleftrightarrow> p mod 64 = unat pos mod 64"
      using True by (metis div_mult_mod_eq)
    moreover have "bit v (p mod 64) = (if p mod 64 = unat pos mod 64 then val else bit (load64 m ?a) (p mod 64))"
      by (auto simp: v_def bit_simps bit_BIT)
    ultimately show ?thesis using True by (simp add: bmBit_def del: of_nat_mult)
  next
    case False
    have lim: "p div 64 < 2 ^ 58" "unat pos div 64 < 2 ^ 58"
      using p pos assms(1) by (auto simp: bm_ok_def)
    have "apart ?a 8 (data bm + of_nat (8 * (p div 64))) 8"
      using False lim words_apart apart_sym by (metis linorder_less_linear)
    then show ?thesis using False by (auto simp: bmBit_def load_store_apart simp del: of_nat_mult)
  qed
  ultimately show ?thesis by blast
qed

lemma bmBit_same_outside:
  assumes "bm_ok bm" and "p < unat (bits bm)" and "same_outside A m m'" and "A \<inter> bm_rng bm = {}"
  shows "bmBit m' bm p = bmBit m bm p"
proof -
  have "rng (data bm + of_nat (8 * (p div 64))) 8 \<inter> A = {}"
    using word_rng_data [OF assms(1,2)] assms(4) by blast
  then show ?thesis using load_same_outside [OF assms(3)] by (simp add: bmBit_def del: of_nat_mult)
qed

lemma bitmapFillLoop_spec:
  assumes "bm_ok bm" and "to \<le> bits bm"
  shows "\<exists>m'. bitmapFillLoop bm pos to val m = Inr m' \<and> same_outside (bm_rng bm) m m'
    \<and> (\<forall>p < unat (bits bm). bmBit m' bm p =
          (if unat pos \<le> p \<and> p < unat to then val else bmBit m bm p))"
  using assms
proof (induction bm pos to val m rule: bitmapFillLoop.induct)
  case (1 bm pos to val m)
  show ?case
  proof (cases "pos < to")
    case False
    then show ?thesis by (subst bitmapFillLoop.simps) (auto simp: word_less_nat_alt)
  next
    case True
    have pos: "pos < bits bm" using True "1.prems"(2) by simp
    from bitmapSet_spec [OF "1.prems"(1) pos, of val m]
    obtain m1 where m1: "bitmapSet bm pos val m = Inr m1" "same_outside (bm_rng bm) m m1"
      "\<And>p. p < unat (bits bm) \<Longrightarrow> bmBit m1 bm p = (if p = unat pos then val else bmBit m bm p)"
      by auto
    have u: "unat (pos + 1) = Suc (unat pos)" using True by (rule unat_plus1)
    from "1.IH" [OF True m1(1) "1.prems"]
    obtain m2 where m2: "bitmapFillLoop bm (pos + 1) to val m1 = Inr m2"
      "same_outside (bm_rng bm) m1 m2"
      "\<And>p. p < unat (bits bm) \<Longrightarrow> bmBit m2 bm p =
          (if unat (pos + 1) \<le> p \<and> p < unat to then val else bmBit m1 bm p)" by auto
    have "bitmapFillLoop bm pos to val m = Inr m2"
      using True m1(1) m2(1) by (subst bitmapFillLoop.simps) simp
    moreover have "unat pos < unat to" using True by (simp add: word_less_nat_alt)
    ultimately show ?thesis
      using same_outside_trans [OF m1(2) m2(2)] m1(3) m2(3) by (auto simp: u)
  qed
qed

lemma bitmapFill_spec:
  assumes "bm_ok bm" and "from < bits bm" and "to \<le> bits bm"
  shows "\<exists>m'. bitmapFill bm from to val m = Inr m' \<and> same_outside (bm_rng bm) m m'
    \<and> (\<forall>p < unat (bits bm). bmBit m' bm p =
          (if unat from \<le> p \<and> p < unat to then val else bmBit m bm p))"
  using bitmapFillLoop_spec [OF assms(1,3), of "from" val m] assms by (simp add: bitmapFill_def)

subsection \<open>Finding a free run\<close>

text \<open>\<open>free_run used cap s n\<close>: positions \<open>s\<close> to \<open>s + n - 1\<close> exist and are all free.\<close>

definition free_run :: "(nat \<Rightarrow> bool) \<Rightarrow> nat \<Rightarrow> nat \<Rightarrow> nat \<Rightarrow> bool" where
  "free_run used cap s n \<longleftrightarrow> s + n \<le> cap \<and> (\<forall>p \<in> set [s ..< s + n]. \<not> used p)"

lemma free_run_iff:
  "free_run used cap s n \<longleftrightarrow> s + n \<le> cap \<and> (\<forall>p. s \<le> p \<and> p < s + n \<longrightarrow> \<not> used p)"
  by (auto simp: free_run_def)

text \<open>
  What \<open>bitmapFind\<close> promises: the first run of \<open>n\<close> free positions, or 0 when there is none.
  (So 0 is returned both for a run that starts at 0 and for no run; the callers differ in
  what they make of it.)
\<close>

definition first_fit :: "(nat \<Rightarrow> bool) \<Rightarrow> nat \<Rightarrow> nat \<Rightarrow> nat" where
  "first_fit used cap n =
     (case find (\<lambda>s. free_run used cap s n) [0 ..< Suc cap] of Some s \<Rightarrow> s | None \<Rightarrow> 0)"

lemma first_fitI:
  assumes "free_run used cap s n" and "\<And>s'. s' < s \<Longrightarrow> \<not> free_run used cap s' n"
  shows "first_fit used cap n = s"
proof -
  have "s \<le> cap" using assms(1) by (simp add: free_run_iff)
  then have "find (\<lambda>s. free_run used cap s n) [0 ..< Suc cap] = Some s"
    unfolding find_Some_iff using assms
    by (intro exI [of _ s]) (simp del: upt_Suc)
  then show ?thesis by (simp add: first_fit_def del: upt_Suc)
qed

lemma first_fit_none: "(\<And>s. \<not> free_run used cap s n) \<Longrightarrow> first_fit used cap n = 0"
  by (simp add: first_fit_def find_None_iff [THEN iffD2] del: upt_Suc)

lemma first_fit_run:
  assumes "free_run used cap s n"
  shows "free_run used cap (first_fit used cap n) n"
proof -
  define t where "t = (LEAST t. free_run used cap t n)"
  have t: "free_run used cap t n" using assms unfolding t_def by (rule LeastI)
  have "\<And>s'. s' < t \<Longrightarrow> \<not> free_run used cap s' n" unfolding t_def by (rule not_less_Least)
  with t have "first_fit used cap n = t" by (rule first_fitI)
  with t show ?thesis by simp
qed

lemma first_fit_le: "free_run used cap s n \<Longrightarrow> first_fit used cap n \<le> s"
proof -
  assume s: "free_run used cap s n"
  define t where "t = (LEAST t. free_run used cap t n)"
  have "free_run used cap t n" using s unfolding t_def by (rule LeastI)
  moreover have "\<And>s'. s' < t \<Longrightarrow> \<not> free_run used cap s' n" unfolding t_def by (rule not_less_Least)
  ultimately have "first_fit used cap n = t" by (rule first_fitI)
  then show ?thesis using Least_le [of "\<lambda>t. free_run used cap t n", OF s] by (simp add: t_def)
qed

lemma free_run_one: "free_run used cap s 1 \<longleftrightarrow> s < cap \<and> \<not> used s"
  by (auto simp: free_run_def)

lemma bitmapFindLoop_spec:
  assumes "0 < len" and "unat pos \<le> unat (bits bm)"
    and "unat start + unat current = unat pos" and "unat current < unat len"
    and "\<And>p. unat start \<le> p \<Longrightarrow> p < unat pos \<Longrightarrow> \<not> bmBit m bm p"
    and "\<And>s. s < unat start \<Longrightarrow> \<not> free_run (bmBit m bm) (unat (bits bm)) s (unat len)"
  shows "bitmapFindLoop bm len pos start current m
     = Inr (of_nat (first_fit (bmBit m bm) (unat (bits bm)) (unat len)))"
  using assms
proof (induction bm len pos start current m rule: bitmapFindLoop.induct)
  case (1 bm len pos start current m)
  let ?used = "bmBit m bm" and ?cap = "unat (bits bm)"
  show ?case
  proof (cases "pos < bits bm")
    case False
    then have pos: "unat pos = ?cap" using "1.prems"(2) by (simp add: word_less_nat_alt)
    have "\<not> free_run ?used ?cap s (unat len)" for s
    proof (cases "s < unat start")
      case False
      then show ?thesis using "1.prems"(3,4) pos by (auto simp: free_run_iff)
    qed (rule "1.prems"(6))
    then have "first_fit ?used ?cap (unat len) = 0" by (rule first_fit_none)
    with False show ?thesis by (subst bitmapFindLoop.simps) simp
  next
    case True
    have u: "unat (pos + 1) = Suc (unat pos)" using True by (rule unat_plus1)
    have lt: "unat pos < ?cap" using True by (simp add: word_less_nat_alt)
    have chk: "bitmapCheck bm pos m = Inr (?used (unat pos))" using True by (rule bitmapCheck_bmBit)
    have c: "unat (current + 1) = Suc (unat current)"
      using "1.prems"(4) by (intro unat_plus1 [of _ len]) (simp add: word_less_nat_alt)
    have run_pos: "\<not> free_run ?used ?cap s (unat len)"
      if "?used (unat pos)" and "s \<le> unat pos" for s
    proof (cases "s < unat start")
      case False
      have "s \<le> unat pos \<and> unat pos < s + unat len" using False that(2) "1.prems"(3,4) by linarith
      with that(1) show ?thesis unfolding free_run_iff by blast
    qed (rule "1.prems"(6))
    show ?thesis
    proof (cases "?used (unat pos)")
      case True
      have "bitmapFindLoop bm len (pos + 1) (pos + 1) 0 m
          = Inr (of_nat (first_fit ?used ?cap (unat len)))"
      proof (rule "1.IH"(2) [OF \<open>pos < bits bm\<close> chk _ "1.prems"(1)])
        show "\<not> \<not> ?used (unat pos)" using True by simp
        show "\<not> free_run ?used ?cap s (unat len)" if "s < unat (pos + 1)" for s
          using run_pos [OF True] that by (simp add: u)
      qed (use lt u "1.prems"(1) in \<open>auto simp: word_gt_0 unat_gt_0\<close>)
      with True chk \<open>pos < bits bm\<close> show ?thesis by (subst bitmapFindLoop.simps) simp
    next
      case False
      have free: "\<not> ?used p" if "unat start \<le> p" "p < unat (pos + 1)" for p
        using that "1.prems"(5) [of p] False u by (cases "p = unat pos") auto
      show ?thesis
      proof (cases "current + 1 = len")
        case True
        then have "unat len = Suc (unat current)" using c by simp
        then have "free_run ?used ?cap (unat start) (unat len)"
          using free "1.prems"(3) lt u by (auto simp: free_run_iff)
        then have "first_fit ?used ?cap (unat len) = unat start"
          using "1.prems"(6) by (rule first_fitI)
        with True False chk \<open>pos < bits bm\<close> show ?thesis by (subst bitmapFindLoop.simps) simp
      next
        case neq: False
        have "unat (current + 1) < unat len"
          using neq c "1.prems"(4) by (metis Suc_lessI word_unat_eq_iff)
        then have "bitmapFindLoop bm len (pos + 1) start (current + 1) m
            = Inr (of_nat (first_fit ?used ?cap (unat len)))"
          using False neq lt u c free "1.prems"(1,3,6)
          by (intro "1.IH"(1) [OF \<open>pos < bits bm\<close> chk]) auto
        with neq False chk \<open>pos < bits bm\<close> show ?thesis by (subst bitmapFindLoop.simps) simp
      qed
    qed
  qed
qed

lemma bitmapFind_first_fit:
  "len \<noteq> 0 \<Longrightarrow>
    bitmapFind bm len m = Inr (of_nat (first_fit (bmBit m bm) (unat (bits bm)) (unat len)))"
  unfolding bitmapFind_def using bitmapFindLoop_spec [of len 0 bm 0 0 m]
  by (simp add: word_gt_0 unat_gt_0)

subsection \<open>Initialising and filling all\<close>

lemma byte_of_data:
  assumes "bm_ok bm" and "p < unat (bits bm)"
  shows "data bm + of_nat (8 * (p div 64)) + of_nat (p mod 64 div 8) \<in> bm_rng bm"
proof -
  have "p mod 64 div 8 < 8" by simp
  then have "unat (of_nat (p mod 64 div 8) :: u64) = p mod 64 div 8"
    and "p mod 64 div 8 < 8" by (auto intro: unat_of_nat64)
  then have "data bm + of_nat (8 * (p div 64)) + of_nat (p mod 64 div 8)
      \<in> rng (data bm + of_nat (8 * (p div 64))) 8"
    by (simp add: in_rng del: of_nat_mult)
  then show ?thesis using word_rng_data [OF assms] by blast
qed

lemma bmBit_filled:
  assumes "bm_ok bm" and "p < unat (bits bm)"
  shows "bmBit (filled (data bm) (unat (dataSize bm)) v m) bm p = bit v (p mod 8)"
proof -
  have "p mod 64 mod 8 = p mod 8" by (simp add: mod_mod_cancel)
  then show ?thesis
    using byte_of_data [OF assms] by (simp add: bmBit_def bit_load filled_def del: of_nat_mult)
qed

lemma bm_ok_dataSize: "bm_ok bm \<Longrightarrow> dataSize bm \<noteq> 0"
proof -
  assume ok: "bm_ok bm"
  then have "unat (dataSize bm) = 8 * ((unat (bits bm) + 63) div 64)" "unat (bits bm) \<noteq> 0"
    using unat_calculateSize by (auto simp: bm_ok_def unat_eq_0)
  then have "unat (dataSize bm) \<noteq> 0" using div_le_mono [of 64 "unat (bits bm) + 63" 64] by simp
  then show ?thesis by (simp add: unat_eq_0)
qed

lemma bitmapFillAll_spec:
  assumes "bm_ok bm"
  shows "\<exists>m'. bitmapFillAll bm val m = Inr m' \<and> same_outside (bm_rng bm) m m'
    \<and> (\<forall>p < unat (bits bm). bmBit m' bm p = val)"
proof -
  let ?v = "if val then 0xff else 0 :: u8"
  have "bitmapFillAll bm val m = Inr (filled (data bm) (unat (dataSize bm)) ?v m)"
    using assms bm_ok_dataSize [OF assms]
    by (simp add: bitmapFillAll_def memset_filled bm_ok_def)
  moreover have "bit (0xff :: u8) (p mod 8)" for p
  proof -
    have "(0xff :: u8) = mask 8" by (simp add: mask_eq_exp_minus_1)
    moreover have "bit (mask 8 :: u8) (p mod 8)" by (simp only: bit_mask_iff) simp
    ultimately show ?thesis by (simp only:)
  qed
  ultimately show ?thesis
    using assms by (auto simp: bmBit_filled filled_same_outside)
qed

lemma bitmapInit_spec:
  assumes "n \<noteq> 0" and "unat n \<le> 2 ^ 60" and "dat \<noteq> 0"
    and "unat dat + unat (bitmapCalculateSize n) \<le> 2 ^ 64"
  shows "\<exists>bm m'. bitmapInit n dat m = Inr (bm, m') \<and> bm_ok bm \<and> bits bm = n \<and> data bm = dat
    \<and> same_outside (bm_rng bm) m m' \<and> (\<forall>p < unat n. \<not> bmBit m' bm p)"
proof -
  let ?bm = "\<lparr>bits = n, dataSize = bitmapCalculateSize n, data = dat\<rparr>"
  have ok: "bm_ok ?bm" using assms by (simp add: bm_ok_def)
  let ?m = "filled dat (unat (bitmapCalculateSize n)) 0 m"
  have "bitmapInit n dat m = Inr (?bm, ?m)"
    using assms bm_ok_dataSize [OF ok]
    by (simp add: bitmapInit_def memset_filled word_neq_0_conv [symmetric])
  moreover have "same_outside (bm_rng ?bm) m ?m" by (simp add: filled_same_outside)
  moreover have "\<forall>p < unat n. \<not> bmBit ?m ?bm p"
    using bmBit_filled [OF ok] by simp
  ultimately show ?thesis using ok by auto
qed

subsection \<open>The interface: a store of numbered bits with first-fit search\<close>

locale bit_allocator =
  fixes used :: "'b \<Rightarrow> 'm \<Rightarrow> nat \<Rightarrow> bool"
    and cap :: "'b \<Rightarrow> u64"
    and wf :: "'b \<Rightarrow> bool"
    and frame :: "'b \<Rightarrow> 'm \<Rightarrow> 'm \<Rightarrow> bool"
    and find_run :: "'b \<Rightarrow> u64 \<Rightarrow> 'm \<Rightarrow> u64 res"
    and fill :: "'b \<Rightarrow> u64 \<Rightarrow> u64 \<Rightarrow> bool \<Rightarrow> 'm \<Rightarrow> 'm res"
  assumes find_first:
      "n \<noteq> 0 \<Longrightarrow> find_run b n m = Inr (of_nat (first_fit (used b m) (unat (cap b)) (unat n)))"
    and fill_range:
      "wf b \<Longrightarrow> from < cap b \<Longrightarrow> to \<le> cap b \<Longrightarrow>
        \<exists>m'. fill b from to v m = Inr m' \<and> frame b m m' \<and>
          (\<forall>p < unat (cap b). used b m' p = (if unat from \<le> p \<and> p < unat to then v else used b m p))"
begin

lemma find_zero:
  assumes "n \<noteq> 0" and "\<And>s. s \<noteq> 0 \<Longrightarrow> \<not> free_run (used b m) (unat (cap b)) s (unat n)"
  shows "find_run b n m = Inr 0"
proof -
  have "first_fit (used b m) (unat (cap b)) (unat n) = 0"
  proof (cases "\<exists>s. free_run (used b m) (unat (cap b)) s (unat n)")
    case True
    then show ?thesis using first_fit_run assms(2) by metis
  qed (auto intro: first_fit_none)
  then show ?thesis using find_first [OF assms(1)] by simp
qed

text \<open>A result other than 0 is the start of a free run, and the first one.\<close>

lemma find_nonzero:
  assumes "n \<noteq> 0" and "find_run b n m = Inr s" and "s \<noteq> 0"
  shows "free_run (used b m) (unat (cap b)) (unat s) (unat n)"
    and "s' < unat s \<Longrightarrow> \<not> free_run (used b m) (unat (cap b)) s' (unat n)"
    and "unat (s + n) = unat s + unat n" and "s < cap b" and "s + n \<le> cap b"
proof -
  let ?U = "used b m" and ?c = "unat (cap b)"
  define f where "f = first_fit ?U ?c (unat n)"
  have sf: "s = of_nat f" using find_first [OF assms(1)] assms(2) by (simp add: f_def)
  obtain t where t: "free_run ?U ?c t (unat n)"
    using first_fit_none [of ?U ?c "unat n"] sf assms(3) unfolding f_def by (cases "\<exists>t. free_run ?U ?c t (unat n)") auto
  have run: "free_run ?U ?c f (unat n)" unfolding f_def by (rule first_fit_run [OF t])
  then have "f \<le> ?c" by (simp add: free_run_iff)
  then have uf: "unat s = f" using unat_less_max [of "cap b"] unfolding sf by (intro unat_of_nat64) simp
  show r: "free_run ?U ?c (unat s) (unat n)" using run uf by simp
  have le: "unat s + unat n \<le> ?c" using r by (simp add: free_run_iff)
  then show add: "unat (s + n) = unat s + unat n"
    using unat_less_max [of "cap b"] by (intro unat_add_no_wrap) simp
  have n0: "0 < unat n" using assms(1) by (simp add: unat_gt_0)
  show "s < cap b" using le n0 by (simp add: word_less_nat_alt)
  show "s + n \<le> cap b" using le add by (simp add: word_le_nat_alt)
  show "\<not> free_run ?U ?c s' (unat n)" if "s' < unat s"
  proof -
    define l where "l = (LEAST t. free_run ?U ?c t (unat n))"
    have "free_run ?U ?c l (unat n)" using run unfolding l_def by (rule LeastI)
    moreover have less: "\<And>s'. s' < l \<Longrightarrow> \<not> free_run ?U ?c s' (unat n)"
      unfolding l_def by (rule not_less_Least)
    ultimately have "f = l" unfolding f_def by (rule first_fitI)
    then show ?thesis using less that uf by simp
  qed
qed

text \<open>Find then fill takes exactly the run found.\<close>

lemma take_run:
  assumes "wf b" and "n \<noteq> 0" and "find_run b n m = Inr s" and "s \<noteq> 0"
  shows "\<exists>m'. fill b s (s + n) True m = Inr m' \<and> frame b m m' \<and>
    (\<forall>p < unat (cap b). used b m' p \<longleftrightarrow> used b m p \<or> (unat s \<le> p \<and> p < unat s + unat n))"
  using fill_range [OF assms(1) find_nonzero(4,5) [OF assms(2-4)], of True m]
    find_nonzero(3) [OF assms(2-4)] by auto

text \<open>Clearing the run again gives back the map that was there before.\<close>

lemma take_release:
  assumes "wf b" and "n \<noteq> 0" and "find_run b n m = Inr s" and "s \<noteq> 0"
    and "fill b s (s + n) True m = Inr m1"
  shows "\<exists>m2. fill b s (s + n) False m1 = Inr m2 \<and> (\<forall>p < unat (cap b). used b m2 p = used b m p)"
proof -
  note nz = find_nonzero [OF assms(2-4)]
  from fill_range [OF assms(1) nz(4,5), of True m] assms(5)
  have m1: "\<And>p. p < unat (cap b) \<Longrightarrow>
      used b m1 p = (if unat s \<le> p \<and> p < unat (s + n) then True else used b m p)" by auto
  from fill_range [OF assms(1) nz(4,5), of False m1]
  obtain m2 where "fill b s (s + n) False m1 = Inr m2"
    "\<forall>p < unat (cap b). used b m2 p = (if unat s \<le> p \<and> p < unat (s + n) then False else used b m1 p)"
    by auto
  moreover have "\<not> used b m p" if "unat s \<le> p" "p < unat (s + n)" for p
    using nz(1,3) that by (auto simp: free_run_iff)
  ultimately show ?thesis using m1 by (intro exI [of _ m2]) auto
qed

end

interpretation bma: bit_allocator
  "\<lambda>bm m. bmBit m bm" bits bm_ok "\<lambda>bm. same_outside (bm_rng bm)" bitmapFind bitmapFill
  by unfold_locales (simp add: bitmapFind_first_fit, rule bitmapFill_spec)

lemma bitmapFind_zero_run:
  assumes "len \<noteq> 0" and "bitmapFind bm len m = Inr 0"
    and run: "free_run (bmBit m bm) (unat (bits bm)) t (unat len)"
  shows "free_run (bmBit m bm) (unat (bits bm)) 0 (unat len)"
proof -
  define f where "f = first_fit (bmBit m bm) (unat (bits bm)) (unat len)"
  have fr: "free_run (bmBit m bm) (unat (bits bm)) f (unat len)"
    unfolding f_def by (rule first_fit_run [OF run])
  then have "f \<le> unat (bits bm)" by (simp add: free_run_iff)
  then have "unat (of_nat f :: u64) = f"
    using unat_less_max [of "bits bm"] by (intro unat_of_nat64) simp
  moreover have "(of_nat f :: u64) = 0"
    using bma.find_first [OF assms(1), of bm m] assms(2) by (simp add: f_def)
  ultimately show ?thesis using fr by simp
qed

subsection \<open>Properties\<close>

text \<open>C5: \<open>bitmapFind\<close> never fails on a length that is not 0. A result other than 0 is the start of
  the first run of that many free bits. The result 0 stands for two cases at once: the first
  run starts at bit 0, or there is no run at all.\<close>

theorem bitmapFind_correct:
  assumes "len \<noteq> 0"
  shows "\<exists>s. bitmapFind bm len m = Inr s
    \<and> (s \<noteq> 0 \<longrightarrow> free_run (bmBit m bm) (unat (bits bm)) (unat s) (unat len)
         \<and> (\<forall>t < unat s. \<not> free_run (bmBit m bm) (unat (bits bm)) t (unat len)))
    \<and> (s = 0 \<longleftrightarrow> free_run (bmBit m bm) (unat (bits bm)) 0 (unat len)
         \<or> (\<forall>t. \<not> free_run (bmBit m bm) (unat (bits bm)) t (unat len)))"
proof -
  obtain s where s: "bitmapFind bm len m = Inr s" using bma.find_first [OF assms] by blast
  note nz = bma.find_nonzero [OF assms s]
  have "s = 0" if "free_run (bmBit m bm) (unat (bits bm)) 0 (unat len)"
    using nz(2) [of 0] that by (auto simp: unat_gt_0)
  moreover have "s = 0" if "\<forall>t. \<not> free_run (bmBit m bm) (unat (bits bm)) t (unat len)"
    using nz(1) that by blast
  moreover have "free_run (bmBit m bm) (unat (bits bm)) 0 (unat len)"
    if "s = 0" and "free_run (bmBit m bm) (unat (bits bm)) t (unat len)" for t
    using bitmapFind_zero_run [OF assms] s that by blast
  ultimately show ?thesis using s nz(1,2) by blast
qed

text \<open>A map of 64 bits at \<open>0x1000\<close> in which the bits 0 and 1 are set.\<close>

definition demoBitmap :: Bitmap where
  "demoBitmap = \<lparr>bits = 64, dataSize = 8, data = 0x1000\<rparr>"

definition demoBits :: mem where
  "demoBits = store64 (\<lambda>_. 0) 0x1000 3"

lemma demo_bm_ok: "bm_ok demoBitmap"
  by (simp add: bm_ok_def demoBitmap_def bitmapCalculateSize_def DIV_ROUND_UP_def)

lemma demo_bit: "p < 64 \<Longrightarrow> bmBit demoBits demoBitmap p \<longleftrightarrow> p < 2"
proof -
  assume p: "p < 64"
  have "(3 :: u64) = mask 2" by (simp add: mask_eq_exp_minus_1)
  then have "bit (3 :: u64) p \<longleftrightarrow> p < 2"
    by (simp only: bit_mask_iff) (use p in simp)
  with p show "bmBit demoBits demoBitmap p \<longleftrightarrow> p < 2"
    by (simp add: bmBit_def demoBits_def demoBitmap_def)
qed

theorem bitmapFind_correct_witness:
  "\<exists>s. bitmapFind demoBitmap 3 demoBits = Inr s \<and> s \<noteq> 0"
proof -
  have "free_run (bmBit demoBits demoBitmap) 64 2 3"
    by (auto simp: free_run_iff demo_bit)
  moreover have "\<not> free_run (bmBit demoBits demoBitmap) 64 0 3"
    by (auto simp: free_run_iff demo_bit intro!: exI [of _ 0])
  moreover have "unat (bits demoBitmap) = 64" by (simp add: demoBitmap_def)
  ultimately show ?thesis using bitmapFind_correct [of 3 demoBitmap demoBits] by auto
qed

text \<open>\<open>bitmapFill\<close> on a range inside the map succeeds, gives exactly the bits of the range
  the value, leaves the other bits as they were, and writes no byte outside the map's array.
  A range that starts or ends outside the map fails its assertion.\<close>

theorem bitmapFill_correct:
  assumes "bm_ok bm"
  shows "if start < bits bm \<and> to \<le> bits bm
    then \<exists>m'. bitmapFill bm start to val m = Inr m' \<and> same_outside (bm_rng bm) m m'
      \<and> (\<forall>p < unat (bits bm). bmBit m' bm p =
            (if unat start \<le> p \<and> p < unat to then val else bmBit m bm p))
    else bitmapFill bm start to val m = Inl AssertFail"
  using bma.fill_range [OF assms, of start to val m] by (auto simp: bitmapFill_def ASSERT_def)

theorem bitmapFill_correct_witness:
  "\<exists>m'. bitmapFill demoBitmap 1 5 True demoBits = Inr m' \<and> bmBit m' demoBitmap 4"
proof -
  have "\<exists>m'. bitmapFill demoBitmap 1 5 True demoBits = Inr m'
      \<and> (\<forall>p < 64. bmBit m' demoBitmap p = (if 1 \<le> p \<and> p < 5 then True else bmBit demoBits demoBitmap p))"
    using bitmapFill_correct [OF demo_bm_ok, of 1 5 True demoBits] by (auto simp: demoBitmap_def)
  then show ?thesis by auto
qed

end
