(* ===== verification/Spinlocks.thy ===== *)
theory Spinlocks
  imports Prelude
begin

section \<open>Spinlocks (cpu/spinlock.c)\<close>

text \<open>
  Two views of the lock. The first is what the other components use: one CPU runs a kernel
  function to its end, so an acquire of a held lock spins for ever (\<open>Deadlock\<close>). The second
  justifies it for several CPUs: the acquire loop of each CPU is a sequence of
  test-and-set steps, interleaved in any order with those of the others, and no two CPUs
  are ever both past the loop.
\<close>

type_synonym Spinlock = bool

definition test_and_set :: "Spinlock \<Rightarrow> bool \<times> Spinlock" where
  "test_and_set lock = (lock, True)"

definition spinlockAcquire :: "Spinlock \<Rightarrow> Spinlock res" where
  "spinlockAcquire lock =
     (case test_and_set lock of (held, lock') \<Rightarrow> if held then Inl Deadlock else Inr lock')"

definition spinlockDrop :: "Spinlock \<Rightarrow> Spinlock" where
  "spinlockDrop lock = False"

definition spinlockInit :: Spinlock where
  "spinlockInit = False"

lemma spinlockAcquire_free [simp]: "spinlockAcquire False = Inr True"
  and spinlockAcquire_held [simp]: "spinlockAcquire True = Inl Deadlock"
  and spinlockDrop_False [simp]: "spinlockDrop lock = False"
  by (simp_all add: spinlockAcquire_def test_and_set_def spinlockDrop_def)

lemma spinlockAcquire_eq_Inr: "spinlockAcquire l = Inr l' \<longleftrightarrow> \<not> l \<and> l'"
  by (cases l) auto

subsection \<open>Several CPUs\<close>

text \<open>Where a CPU stands with respect to one lock.\<close>

datatype where_at = Elsewhere | InLoop | Holding

record lock_state =
  lockFlag :: Spinlock
  cpu :: "nat \<Rightarrow> where_at"

inductive lock_step :: "lock_state \<Rightarrow> lock_state \<Rightarrow> bool" where
  call_acquire: "cpu s i = Elsewhere \<Longrightarrow> lock_step s (s\<lparr>cpu := (cpu s)(i := InLoop)\<rparr>)"
| spin: "cpu s i = InLoop \<Longrightarrow> test_and_set (lockFlag s) = (held, flag) \<Longrightarrow>
    lock_step s (s\<lparr>lockFlag := flag, cpu := (cpu s)(i := (if held then InLoop else Holding))\<rparr>)"
| drop: "cpu s i = Holding \<Longrightarrow>
    lock_step s (s\<lparr>lockFlag := spinlockDrop (lockFlag s), cpu := (cpu s)(i := Elsewhere)\<rparr>)"

definition lock_start :: lock_state where
  "lock_start = \<lparr>lockFlag = spinlockInit, cpu = (\<lambda>_. Elsewhere)\<rparr>"

text \<open>The flag is set exactly while some CPU holds the lock, and one CPU at most does.\<close>

definition lock_inv :: "lock_state \<Rightarrow> bool" where
  "lock_inv s \<longleftrightarrow> (lockFlag s \<longleftrightarrow> (\<exists>i. cpu s i = Holding))
     \<and> (\<forall>i j. cpu s i = Holding \<and> cpu s j = Holding \<longrightarrow> i = j)"

lemma lock_inv_step: "lock_step s t \<Longrightarrow> lock_inv s \<Longrightarrow> lock_inv t"
proof (induction rule: lock_step.induct)
  case (call_acquire s i)
  then have "((cpu s)(i := InLoop)) j = Holding \<longleftrightarrow> cpu s j = Holding" for j by auto
  with call_acquire show ?case by (simp add: lock_inv_def)
next
  case (spin s i held flag)
  show ?case
  proof (cases "lockFlag s")
    case True
    then have "((cpu s)(i := InLoop)) j = Holding \<longleftrightarrow> cpu s j = Holding" for j
      using spin by auto
    with True spin show ?thesis by (simp add: lock_inv_def test_and_set_def)
  qed (use spin in \<open>auto simp: lock_inv_def test_and_set_def\<close>)
next
  case (drop s i)
  then show ?case by (auto simp: lock_inv_def)
qed

lemma lock_inv_reachable: "lock_step\<^sup>*\<^sup>* lock_start s \<Longrightarrow> lock_inv s"
proof (induction rule: rtranclp_induct)
  case base
  show ?case by (simp add: lock_inv_def lock_start_def spinlockInit_def)
next
  case (step t u)
  then show ?case by (blast intro: lock_inv_step)
qed

subsection \<open>Properties\<close>

text \<open>C6: however the acquire loops and drops of any number of CPUs interleave, at most one CPU
  holds the lock, and the flag is set exactly while one does.\<close>

theorem spinlock_mutual_exclusion:
  assumes "lock_step\<^sup>*\<^sup>* lock_start s"
  shows "(cpu s i = Holding \<and> cpu s j = Holding \<longrightarrow> i = j)
    \<and> (lockFlag s \<longleftrightarrow> (\<exists>i. cpu s i = Holding))"
  using lock_inv_reachable [OF assms] by (auto simp: lock_inv_def)

text \<open>CPU 0 gets the lock while CPU 1 spins.\<close>

definition demoContended :: lock_state where
  "demoContended = \<lparr>lockFlag = True, cpu = (\<lambda>_. Elsewhere)(0 := Holding, 1 := InLoop)\<rparr>"

lemma demo_contended: "lock_step\<^sup>*\<^sup>* lock_start demoContended"
proof -
  let ?a = "lock_start\<lparr>cpu := (cpu lock_start)(0 := InLoop)\<rparr>"
  let ?b = "?a\<lparr>lockFlag := True, cpu := (cpu ?a)(0 := Holding)\<rparr>"
  have 1: "lock_step lock_start ?a" by (rule call_acquire) (simp add: lock_start_def)
  have 2: "lock_step ?a ?b"
    using spin [of ?a 0 False True] by (simp add: lock_start_def spinlockInit_def test_and_set_def)
  have 3: "lock_step ?b (?b\<lparr>cpu := (cpu ?b)(1 := InLoop)\<rparr>)"
    by (rule call_acquire) (simp add: lock_start_def)
  have "?b\<lparr>cpu := (cpu ?b)(1 := InLoop)\<rparr> = demoContended"
    by (auto simp: lock_start_def demoContended_def)
  with 1 2 3 show ?thesis by (metis rtranclp.rtrancl_into_rtrancl rtranclp.rtrancl_refl)
qed

theorem spinlock_mutual_exclusion_witness: "\<not> (cpu demoContended 1 = Holding)"
  using spinlock_mutual_exclusion [OF demo_contended, of 0 1] by (simp add: demoContended_def)

end
