(* ===== verification/Pmm.thy ===== *)
theory Pmm
  imports BitmapData Spinlocks
begin

section \<open>The physical page allocator (mem/pmm.c)\<close>

text \<open>
  The allocator of physical pages over one bitmap with a bit per page, set for a page in
  use. Its state is the memory, the offset of the higher-half direct map (the window through
  which the kernel sees physical memory: physical address \<open>a\<close> is read at \<open>a + hhdm\<close>), the
  static bitmap and the static lock. The bitmap's own words live in that same memory, inside
  pages the allocator manages, so a page handed out must never be one of them; the invariant
  \<open>pmm_inv\<close> says so, and it is what makes clearing a fresh page (\<open>pmmZeroAlloc\<close>) safe.
\<close>

record pmm_state =
  mem :: mem
  hhdm :: u64
  pmmBitmap :: Bitmap
  pmmSpinlock :: Spinlock

text \<open>\<open>vmmPhysToVirt\<close>, \<open>vmmVirtToPhys\<close> of \<open>mem/vmm.c\<close>; \<open>getHHDM\<close> of \<open>kernel/boot.c\<close> is the field.\<close>

definition vmmPhysToVirt :: "'a pmm_state_scheme \<Rightarrow> u64 \<Rightarrow> u64" where
  "vmmPhysToVirt k phys = phys + hhdm k"

definition vmmVirtToPhys :: "'a pmm_state_scheme \<Rightarrow> u64 \<Rightarrow> u64" where
  "vmmVirtToPhys k virt = virt - hhdm k"

definition pmmHandleOOM :: "'b res" where
  "pmmHandleOOM = Inl (PanicMsg ''OUT OF MEMORY'')"

definition pmmAlloc :: "u64 \<Rightarrow> 'a pmm_state_scheme \<Rightarrow> (u64 \<times> 'a pmm_state_scheme) res" where
  "pmmAlloc pages k =
     ASSERT (pages > 0)
       (bnd (spinlockAcquire (pmmSpinlock k)) (\<lambda>l.
        bnd (bitmapFind (pmmBitmap k) pages (mem k)) (\<lambda>found.
          if found = 0 then pmmHandleOOM
          else bnd (bitmapFill (pmmBitmap k) found (found + pages) True (mem k)) (\<lambda>m.
            Inr (found * PAGE_SIZE, k\<lparr>mem := m, pmmSpinlock := spinlockDrop l\<rparr>)))))"

definition pmmZeroAlloc :: "u64 \<Rightarrow> 'a pmm_state_scheme \<Rightarrow> (u64 \<times> 'a pmm_state_scheme) res" where
  "pmmZeroAlloc pages k =
     ASSERT (pages > 0)
       (bnd (pmmAlloc pages k) (\<lambda>(addr, k).
        bnd (memset (vmmPhysToVirt k addr) 0 (pages * PAGE_SIZE) (mem k)) (\<lambda>m.
          Inr (addr, k\<lparr>mem := m\<rparr>))))"

definition pmmFree :: "u64 \<Rightarrow> u64 \<Rightarrow> 'a pmm_state_scheme \<Rightarrow> 'a pmm_state_scheme res" where
  "pmmFree addr pages k =
     ASSERT (addr \<noteq> 0) (ASSERT (pages > 0)
       (bnd (spinlockAcquire (pmmSpinlock k)) (\<lambda>l.
        let page = addr div PAGE_SIZE in
        bnd (bitmapFill (pmmBitmap k) page (page + pages) False (mem k)) (\<lambda>m.
          Inr (k\<lparr>mem := m, pmmSpinlock := spinlockDrop l\<rparr>)))))"

text \<open>\<open>vmmAlloc\<close> of \<open>mem/vmm.c\<close>: fresh pages, by their address in the direct map.\<close>

definition vmmAlloc :: "u64 \<Rightarrow> 'a pmm_state_scheme \<Rightarrow> (u64 \<times> 'a pmm_state_scheme) res" where
  "vmmAlloc pages k = bnd (pmmAlloc pages k) (\<lambda>(a, k). Inr (vmmPhysToVirt k a, k))"

subsection \<open>Start-up from the boot loader's memory map\<close>

text \<open>An entry of the memory map (\<open>include/limine.h\<close>); type 0 is usable memory.\<close>

record memmap_entry =
  entBase :: u64
  entLength :: u64
  entType :: u64

definition LIMINE_MEMMAP_USABLE :: u64 where
  "LIMINE_MEMMAP_USABLE = 0"

text \<open>The first loop: the end of the last usable entry in the order of the map.\<close>

fun pmmLastUsable :: "memmap_entry list \<Rightarrow> u64 \<Rightarrow> u64" where
  "pmmLastUsable [] lst = lst"
| "pmmLastUsable (ent # ents) lst =
     pmmLastUsable ents
       (if entType ent = LIMINE_MEMMAP_USABLE then entBase ent + entLength ent else lst)"

text \<open>The second loop: the first usable entry, not at 0, that holds the bitmap; 0 if none.\<close>

fun pmmBitmapPlace :: "memmap_entry list \<Rightarrow> u64 \<Rightarrow> u64" where
  "pmmBitmapPlace [] bitmapSize = 0"
| "pmmBitmapPlace (ent # ents) bitmapSize =
     (if entType ent = LIMINE_MEMMAP_USABLE \<and> entBase ent \<noteq> 0 \<and> entLength ent \<ge> bitmapSize
      then entBase ent else pmmBitmapPlace ents bitmapSize)"

text \<open>The third loop: the pages of each usable, page-aligned entry become free.\<close>

fun pmmMarkUsable :: "memmap_entry list \<Rightarrow> Bitmap \<Rightarrow> mem \<Rightarrow> mem res" where
  "pmmMarkUsable [] bm m = Inr m"
| "pmmMarkUsable (ent # ents) bm m =
     (if entBase ent mod PAGE_SIZE = 0 \<and> entType ent = LIMINE_MEMMAP_USABLE
      then bnd (bitmapFill bm (entBase ent div PAGE_SIZE)
                 ((entBase ent + entLength ent) div PAGE_SIZE) False m)
               (\<lambda>m. pmmMarkUsable ents bm m)
      else pmmMarkUsable ents bm m)"

definition pmmInit ::
    "memmap_entry list option \<Rightarrow> 'a pmm_state_scheme \<Rightarrow> 'a pmm_state_scheme res" where
  "pmmInit response k =
     (case response of None \<Rightarrow> Inl (PanicMsg ''memory map response unavailable!!'')
      | Some ents \<Rightarrow>
        let lst = pmmLastUsable ents 0;
            bitmapSize = bitmapCalculateSize (lst div PAGE_SIZE);
            bitmapAddr = pmmBitmapPlace ents bitmapSize
        in if bitmapAddr = 0 then Inl (PanicMsg ''not enough memory for the pmm bitmap!'')
           else bnd (bitmapInit (lst div PAGE_SIZE) (vmmPhysToVirt k bitmapAddr) (mem k)) (\<lambda>(bm, m).
                bnd (bitmapFillAll bm True m) (\<lambda>m.
                bnd (pmmMarkUsable ents bm m) (\<lambda>m.
                let bitmapStartPage = bitmapAddr div PAGE_SIZE;
                    bitmapEndPage = bitmapStartPage + DIV_ROUND_UP bitmapSize PAGE_SIZE
                in bnd (bitmapFill bm bitmapStartPage bitmapEndPage True m) (\<lambda>m.
                   bnd (bitmapSet bm 0 True m) (\<lambda>m.
                     Inr (k\<lparr>mem := m, pmmBitmap := bm\<rparr>)))))))"

subsection \<open>Pages and the invariant\<close>

abbreviation pgUsed :: "'a pmm_state_scheme \<Rightarrow> nat \<Rightarrow> bool" where
  "pgUsed k \<equiv> bmBit (mem k) (pmmBitmap k)"

abbreviation pgCount :: "'a pmm_state_scheme \<Rightarrow> nat" where
  "pgCount k \<equiv> unat (bits (pmmBitmap k))"

text \<open>The bytes through which the kernel sees \<open>n\<close> physical pages at \<open>addr\<close>.\<close>

definition phys_rng :: "'a pmm_state_scheme \<Rightarrow> u64 \<Rightarrow> nat \<Rightarrow> u64 set" where
  "phys_rng k addr n = rng (vmmPhysToVirt k addr) (n * 4096)"

abbreviation page_rng :: "'a pmm_state_scheme \<Rightarrow> nat \<Rightarrow> u64 set" where
  "page_rng k p \<equiv> phys_rng k (of_nat (p * 4096)) 1"

definition pmm_inv :: "'a pmm_state_scheme \<Rightarrow> bool" where
  "pmm_inv k \<longleftrightarrow> bm_ok (pmmBitmap k) \<and> pgCount k \<le> 2 ^ 52 \<and> \<not> pmmSpinlock k \<and> pgUsed k 0
     \<and> (\<forall>p < pgCount k. \<not> pgUsed k p \<longrightarrow> page_rng k p \<inter> bm_rng (pmmBitmap k) = {})"

lemma pmm_invD:
  assumes "pmm_inv k"
  shows "bm_ok (pmmBitmap k)" and "pgCount k \<le> 2 ^ 52" and "\<not> pmmSpinlock k" and "pgUsed k 0"
    and "p < pgCount k \<Longrightarrow> \<not> pgUsed k p \<Longrightarrow> page_rng k p \<inter> bm_rng (pmmBitmap k) = {}"
  using assms by (auto simp: pmm_inv_def)

lemma phys_rng_pages:
  assumes "x \<in> phys_rng k (of_nat (s * 4096)) n"
  shows "\<exists>i < n. x \<in> page_rng k (s + i)"
proof -
  define a where "a = of_nat (s * 4096) + hhdm k"
  define d where "d = x - a"
  define i where "i = unat d div 4096"
  have d: "unat d < n * 4096" using assms by (simp add: phys_rng_def vmmPhysToVirt_def in_rng d_def a_def)
  then have "i < n" by (simp add: i_def less_mult_imp_div_less)
  have "unat (of_nat (i * 4096) :: u64) = i * 4096"
    using unat_less_max [of d] by (intro unat_of_nat64) (simp add: i_def)
  moreover have "i * 4096 \<le> unat d" by (simp add: i_def)
  ultimately have "unat (d - of_nat (i * 4096)) = unat d - i * 4096"
    by (metis unat_sub word_le_nat_alt)
  also have "\<dots> < 4096" by (simp add: i_def minus_div_mult_eq_mod)
  finally have "unat (d - of_nat (i * 4096)) < 4096" .
  moreover have "x - (of_nat ((s + i) * 4096) + hhdm k) = d - of_nat (i * 4096)"
    by (simp add: d_def a_def algebra_simps)
  ultimately have "x \<in> page_rng k (s + i)"
    by (simp add: phys_rng_def vmmPhysToVirt_def in_rng del: of_nat_add of_nat_mult)
  with \<open>i < n\<close> show ?thesis by blast
qed

lemma spin_off: "\<not> pmmSpinlock k \<Longrightarrow> k\<lparr>mem := m, pmmSpinlock := False\<rparr> = k\<lparr>mem := m\<rparr>"
  by (cases k) simp

lemma page_of_addr:
  assumes "unat s \<le> 2 ^ 52" and "s < e" and "unat e \<le> 2 ^ 52"
  shows "unat (s * PAGE_SIZE) = unat s * 4096" and "unat (s * PAGE_SIZE) div 4096 = unat s"
proof -
  have "unat s < unat e" using assms(2) by (simp add: word_less_nat_alt)
  then show 1: "unat (s * PAGE_SIZE) = unat s * 4096"
    using assms(3) unat_mult_lem [of s PAGE_SIZE] by (simp add: PAGE_SIZE_def)
  then show "unat (s * PAGE_SIZE) div 4096 = unat s" by simp
qed

text \<open>What a successful allocation is: the first free run, now used, and nothing else changed.\<close>

definition alloc_result ::
    "'a pmm_state_scheme \<Rightarrow> u64 \<Rightarrow> u64 \<Rightarrow> 'a pmm_state_scheme \<Rightarrow> bool" where
  "alloc_result k pages addr k' \<longleftrightarrow>
     (let s = unat addr div 4096; n = unat pages in
      unat addr = s * 4096 \<and> s \<noteq> 0 \<and> free_run (pgUsed k) (pgCount k) s n
      \<and> (\<forall>s' < s. \<not> free_run (pgUsed k) (pgCount k) s' n)
      \<and> k' = k\<lparr>mem := mem k'\<rparr> \<and> same_outside (bm_rng (pmmBitmap k)) (mem k) (mem k')
      \<and> (\<forall>p < pgCount k. pgUsed k' p \<longleftrightarrow> pgUsed k p \<or> (s \<le> p \<and> p < s + n)))"

lemma pmmAlloc_result:
  assumes inv: "pmm_inv k" and ok: "pmmAlloc pages k = Inr (addr, k')"
  shows "alloc_result k pages addr k'"
proof -
  have n0: "pages \<noteq> 0" using ok by (simp add: pmmAlloc_def res_simps word_neq_0_conv)
  from ok obtain s m where s: "bitmapFind (pmmBitmap k) pages (mem k) = Inr s" "s \<noteq> 0"
    and fill: "bitmapFill (pmmBitmap k) s (s + pages) True (mem k) = Inr m"
    and addr: "addr = s * PAGE_SIZE" and k': "k' = k\<lparr>mem := m, pmmSpinlock := False\<rparr>"
    by (auto simp: pmmAlloc_def pmmHandleOOM_def res_simps split: if_splits)
  note nz = bma.find_nonzero [OF n0 s]
  have sl: "unat s < pgCount k" using nz(4) by (simp add: word_less_nat_alt)
  have u: "unat addr = unat s * 4096" "unat addr div 4096 = unat s"
    using page_of_addr [OF _ nz(4) pmm_invD(2) [OF inv]] sl pmm_invD(2) [OF inv]
    unfolding addr by simp_all
  have kk: "k' = k\<lparr>mem := m\<rparr>" using k' pmm_invD(3) [OF inv] by (simp add: spin_off)
  show ?thesis
    using nz(1,2) s(2) bma.take_run [OF pmm_invD(1) [OF inv] n0 s] fill
    by (auto simp: alloc_result_def Let_def u kk unat_gt_0)
qed

lemma pmmAlloc_inv:
  assumes inv: "pmm_inv k" and ok: "pmmAlloc pages k = Inr (addr, k')"
  shows "pmm_inv k'"
proof -
  have r: "k' = k\<lparr>mem := mem k'\<rparr>"
      "\<And>p. p < pgCount k \<Longrightarrow> pgUsed k p \<Longrightarrow> pgUsed k' p"
    using pmmAlloc_result [OF assms] by (auto simp: alloc_result_def Let_def)
  have eq: "pmmBitmap k' = pmmBitmap k" "hhdm k' = hhdm k" "pmmSpinlock k' = pmmSpinlock k"
    by (subst r(1), simp)+
  have "0 < pgCount k" using pmm_invD(1) [OF inv] by (simp add: bm_ok_def unat_gt_0)
  then show ?thesis
    using inv r(2) by (auto simp: pmm_inv_def eq phys_rng_def vmmPhysToVirt_def)
qed

text \<open>When there is a free run, the allocation succeeds; when there is none, it panics.\<close>

lemma pmmAlloc_succeeds:
  assumes inv: "pmm_inv k" and n0: "pages \<noteq> 0" and run: "free_run (pgUsed k) (pgCount k) s (unat pages)"
  shows "\<exists>addr k'. pmmAlloc pages k = Inr (addr, k')"
proof -
  define f where "f = first_fit (pgUsed k) (pgCount k) (unat pages)"
  have fr: "free_run (pgUsed k) (pgCount k) f (unat pages)"
    unfolding f_def by (rule first_fit_run [OF run])
  moreover have np: "0 < unat pages" using n0 by (simp add: unat_gt_0)
  ultimately have f0: "f \<noteq> 0" using pmm_invD(4) [OF inv] by (auto simp: free_run_iff)
  have "f \<le> pgCount k" using fr by (simp add: free_run_iff)
  then have "unat (of_nat f :: u64) = f"
    using unat_less_max [of "bits (pmmBitmap k)"] by (intro unat_of_nat64) simp
  then have s0: "(of_nat f :: u64) \<noteq> 0" using f0 by (auto simp: unat_eq_0 [symmetric])
  have find: "bitmapFind (pmmBitmap k) pages (mem k) = Inr (of_nat f)"
    using bma.find_first [OF n0] by (simp add: f_def)
  with bma.take_run [OF pmm_invD(1) [OF inv] n0 find s0] pmm_invD(3) [OF inv] n0 s0
  show ?thesis by (auto simp: pmmAlloc_def word_neq_0_conv)
qed

lemma pmmAlloc_oom:
  assumes inv: "pmm_inv k" and n0: "pages \<noteq> 0"
    and none: "\<And>s. \<not> free_run (pgUsed k) (pgCount k) s (unat pages)"
  shows "pmmAlloc pages k = Inl (PanicMsg ''OUT OF MEMORY'')"
  using bma.find_zero [where n = pages and b = "pmmBitmap k" and m = "mem k"] none n0 pmm_invD(3) [OF inv]
  by (simp add: pmmAlloc_def pmmHandleOOM_def word_neq_0_conv)

lemma free_run_pages:
  assumes "pmm_inv k" and "free_run (pgUsed k) (pgCount k) s n"
  shows "phys_rng k (of_nat (s * 4096)) n \<inter> bm_rng (pmmBitmap k) = {}"
proof -
  have "page_rng k (s + i) \<inter> bm_rng (pmmBitmap k) = {}" if "i < n" for i
    using assms(2) that by (intro pmm_invD(5) [OF assms(1)]) (auto simp: free_run_iff)
  then show ?thesis using phys_rng_pages by blast
qed

lemma alloc_result_addr: "alloc_result k pages addr k' \<Longrightarrow> addr = of_nat (unat addr div 4096 * 4096)"
  unfolding alloc_result_def Let_def by (metis unat_eqD)

text \<open>The pages just allocated do not meet the bitmap's own words.\<close>

lemma alloc_pages_off_bitmap:
  assumes "pmm_inv k" and "alloc_result k pages addr k'"
  shows "phys_rng k addr (unat pages) \<inter> bm_rng (pmmBitmap k) = {}"
proof -
  have "free_run (pgUsed k) (pgCount k) (unat addr div 4096) (unat pages)"
    using assms(2) by (simp add: alloc_result_def Let_def)
  from free_run_pages [OF assms(1) this] show ?thesis
    using alloc_result_addr [OF assms(2)] by simp
qed

lemma pages_bytes:
  assumes "pmm_inv k" and "alloc_result k pages addr k'"
  shows "unat (pages * PAGE_SIZE) = unat pages * 4096"
proof -
  have "unat addr div 4096 + unat pages \<le> pgCount k" "unat addr div 4096 \<noteq> 0"
    using assms(2) by (simp_all add: alloc_result_def Let_def free_run_iff)
  then have "unat pages < 2 ^ 52" using pmm_invD(2) [OF assms(1)] by linarith
  then show ?thesis using unat_mult_lem [of pages PAGE_SIZE] by (simp add: PAGE_SIZE_def)
qed

lemma mem_update_eq:
  "k' = k\<lparr>mem := m\<rparr> \<Longrightarrow> pmmBitmap k' = pmmBitmap k \<and> hhdm k' = hhdm k
      \<and> pmmSpinlock k' = pmmSpinlock k \<and> mem k' = m"
  by simp

text \<open>
  A zeroed allocation: the pages read as zero, the allocator's view is that of the plain
  allocation, and outside the pages and the bitmap no byte changed.
\<close>

lemma pmmZeroAlloc_result:
  assumes inv: "pmm_inv k" and ok: "pmmZeroAlloc pages k = Inr (addr, k')"
  shows "\<exists>k1. pmmAlloc pages k = Inr (addr, k1) \<and> k' = k1\<lparr>mem := mem k'\<rparr>
      \<and> same_outside (phys_rng k addr (unat pages)) (mem k1) (mem k')
      \<and> (\<forall>x \<in> phys_rng k addr (unat pages). mem k' x = 0)
      \<and> (\<forall>p < pgCount k. pgUsed k' p = pgUsed k1 p)"
proof -
  from ok obtain k1 m where k1: "pmmAlloc pages k = Inr (addr, k1)"
    and m: "memset (vmmPhysToVirt k1 addr) 0 (pages * PAGE_SIZE) (mem k1) = Inr m"
    and k': "k' = k1\<lparr>mem := m\<rparr>"
    by (auto simp: pmmZeroAlloc_def res_simps)
  have r: "alloc_result k pages addr k1" by (rule pmmAlloc_result [OF inv k1])
  then have "k1 = k\<lparr>mem := mem k1\<rparr>" by (simp add: alloc_result_def Let_def)
  note e = mem_update_eq [OF this]
  have m': "m = filled (vmmPhysToVirt k addr) (unat pages * 4096) 0 (mem k1)"
    using m pages_bytes [OF inv r] e by (simp add: memset_cases vmmPhysToVirt_def)
  have out: "same_outside (phys_rng k addr (unat pages)) (mem k1) (mem k')"
    unfolding k' m' phys_rng_def by (simp add: filled_same_outside)
  moreover have "\<forall>x \<in> phys_rng k addr (unat pages). mem k' x = 0"
    by (simp add: k' m' phys_rng_def filled_def)
  moreover have "\<forall>p < pgCount k. pgUsed k' p = pgUsed k1 p"
    using bmBit_same_outside [OF pmm_invD(1) [OF inv] _ out alloc_pages_off_bitmap [OF inv r]] e k'
    by simp
  ultimately show ?thesis using k1 k' by auto
qed

lemma pmm_inv_mem:
  assumes "pmm_inv k" and "\<And>p. p < pgCount k \<Longrightarrow> bmBit m (pmmBitmap k) p = pgUsed k p"
  shows "pmm_inv (k\<lparr>mem := m\<rparr>)"
proof -
  have "0 < pgCount k" using pmm_invD(1) [OF assms(1)] by (simp add: bm_ok_def unat_gt_0)
  then show ?thesis
    using assms by (auto simp: pmm_inv_def phys_rng_def vmmPhysToVirt_def)
qed

lemma pmmZeroAlloc_inv:
  assumes inv: "pmm_inv k" and ok: "pmmZeroAlloc pages k = Inr (addr, k')"
  shows "pmm_inv k'"
proof -
  from pmmZeroAlloc_result [OF assms] obtain k1 where k1: "pmmAlloc pages k = Inr (addr, k1)"
    "k' = k1\<lparr>mem := mem k'\<rparr>" "\<forall>p < pgCount k. pgUsed k' p = pgUsed k1 p" by auto
  have r: "alloc_result k pages addr k1" by (rule pmmAlloc_result [OF inv k1(1)])
  then have "k1 = k\<lparr>mem := mem k1\<rparr>" by (simp add: alloc_result_def Let_def)
  note e = mem_update_eq [OF this] mem_update_eq [OF k1(2)]
  have "pmm_inv (k1\<lparr>mem := mem k'\<rparr>)"
    using pmmAlloc_inv [OF inv k1(1)] k1(3) e by (intro pmm_inv_mem) auto
  with k1(2) show ?thesis by simp
qed

subsection \<open>Freeing\<close>

lemma pmmFree_spec:
  assumes inv: "pmm_inv k" and "addr \<noteq> 0" and "pages \<noteq> 0"
    and fits: "unat addr div 4096 + unat pages \<le> pgCount k"
  shows "\<exists>k'. pmmFree addr pages k = Inr k' \<and> k' = k\<lparr>mem := mem k'\<rparr>
    \<and> same_outside (bm_rng (pmmBitmap k)) (mem k) (mem k')
    \<and> (\<forall>p < pgCount k. pgUsed k' p \<longleftrightarrow> pgUsed k p \<and>
          \<not> (unat addr div 4096 \<le> p \<and> p < unat addr div 4096 + unat pages))"
proof -
  define s where "s = addr div PAGE_SIZE"
  have us: "unat s = unat addr div 4096" by (simp add: s_def unat_div PAGE_SIZE_def)
  have np: "0 < unat pages" using assms(3) by (simp add: unat_gt_0)
  have add: "unat (s + pages) = unat s + unat pages"
    using fits us unat_less_max [of "bits (pmmBitmap k)"] by (intro unat_add_no_wrap) linarith
  have "s < bits (pmmBitmap k)" "s + pages \<le> bits (pmmBitmap k)"
    using fits np by (simp_all add: word_less_nat_alt word_le_nat_alt us add)
  from bma.fill_range [OF pmm_invD(1) [OF inv] this, of False "mem k"]
  obtain m where m: "bitmapFill (pmmBitmap k) s (s + pages) False (mem k) = Inr m"
    "same_outside (bm_rng (pmmBitmap k)) (mem k) m"
    "\<forall>p < pgCount k. bmBit m (pmmBitmap k) p =
        (if unat s \<le> p \<and> p < unat (s + pages) then False else pgUsed k p)" by blast
  have "pmmFree addr pages k = Inr (k\<lparr>mem := m\<rparr>)"
    using assms(2,3) m(1) pmm_invD(3) [OF inv] spin_off [of k m]
    by (simp add: pmmFree_def Let_def word_neq_0_conv s_def)
  with m(2,3) show ?thesis by (auto simp: us add)
qed

lemma alloc_result_fits:
  "alloc_result k pages addr k' \<Longrightarrow> unat addr div 4096 + unat pages \<le> pgCount k \<and> addr \<noteq> 0"
  by (auto simp: alloc_result_def Let_def free_run_iff)

lemma alloc_free_view:
  assumes inv: "pmm_inv k" and al: "pmmAlloc pages k = Inr (addr, k1)"
  shows "\<exists>k2. pmmFree addr pages k1 = Inr k2 \<and> (\<forall>p < pgCount k. pgUsed k2 p = pgUsed k p)"
proof -
  have r: "alloc_result k pages addr k1" by (rule pmmAlloc_result [OF inv al])
  then have k1: "k1 = k\<lparr>mem := mem k1\<rparr>"
    and fr: "free_run (pgUsed k) (pgCount k) (unat addr div 4096) (unat pages)"
    and u1: "\<And>p. p < pgCount k \<Longrightarrow> pgUsed k1 p \<longleftrightarrow> pgUsed k p \<or>
        (unat addr div 4096 \<le> p \<and> p < unat addr div 4096 + unat pages)"
    by (simp_all add: alloc_result_def Let_def)
  note e = mem_update_eq [OF k1]
  have "pages \<noteq> 0" using al by (simp add: pmmAlloc_def res_simps word_neq_0_conv)
  with pmmFree_spec [OF pmmAlloc_inv [OF inv al], of addr pages] alloc_result_fits [OF r] e
  obtain k2 where "pmmFree addr pages k1 = Inr k2"
    "\<forall>p < pgCount k. pgUsed k2 p \<longleftrightarrow> pgUsed k1 p \<and>
          \<not> (unat addr div 4096 \<le> p \<and> p < unat addr div 4096 + unat pages)" by auto
  then show ?thesis using fr u1 by (intro exI [of _ k2]) (auto simp: free_run_iff)
qed

subsection \<open>Start-up\<close>

definition usable :: "memmap_entry \<Rightarrow> bool" where
  "usable ent \<longleftrightarrow> entType ent = LIMINE_MEMMAP_USABLE"

abbreviation entEnd :: "memmap_entry \<Rightarrow> nat" where
  "entEnd ent \<equiv> unat (entBase ent) + unat (entLength ent)"

text \<open>
  What the Limine protocol guarantees of usable entries: page-aligned, not empty, sorted by
  base and not overlapping, and below the end of the address space.
\<close>

definition memmap_ok :: "memmap_entry list \<Rightarrow> bool" where
  "memmap_ok ents \<longleftrightarrow>
     sorted_wrt (\<lambda>a b. entEnd a \<le> unat (entBase b)) (filter usable ents)
     \<and> (\<forall>ent \<in> set ents. usable ent \<longrightarrow> unat (entBase ent) mod 4096 = 0
          \<and> unat (entLength ent) mod 4096 = 0 \<and> entLength ent \<noteq> 0 \<and> entEnd ent < 2 ^ 64)"

text \<open>The pages of an entry.\<close>

definition inEntry :: "nat \<Rightarrow> memmap_entry \<Rightarrow> bool" where
  "inEntry p ent \<longleftrightarrow> usable ent \<and> unat (entBase ent) div 4096 \<le> p \<and> p < entEnd ent div 4096"

lemma pmmLastUsable_filter:
  "pmmLastUsable ents x = (case filter usable ents of [] \<Rightarrow> x
     | us \<Rightarrow> entBase (last us) + entLength (last us))"
  by (induction ents x rule: pmmLastUsable.induct)
    (auto simp: usable_def split: list.splits)

lemma sorted_last:
  assumes "sorted_wrt (\<lambda>a b. entEnd a \<le> unat (entBase b)) us" and "e \<in> set us"
  shows "entEnd e \<le> entEnd (last us)"
  using assms by (induction us) (auto split: if_splits intro: order_trans [OF _ le_add1])

lemma last_covers:
  assumes "memmap_ok ents" and "e \<in> set ents" and "usable e"
  shows "entEnd e \<le> unat (pmmLastUsable ents 0)" and "unat (pmmLastUsable ents 0) mod 4096 = 0"
proof -
  let ?us = "filter usable ents"
  have e: "e \<in> set ?us" using assms by simp
  then have ne: "?us \<noteq> []" by force
  then have l: "last ?us \<in> set ents" "usable (last ?us)"
    using last_in_set [OF ne] by auto
  have "unat (pmmLastUsable ents 0) = entEnd (last ?us)"
    using ne assms(1) l unat_add_no_wrap [of "entBase (last ?us)" "entLength (last ?us)"]
    by (auto simp: pmmLastUsable_filter memmap_ok_def split: list.split)
  then show "entEnd e \<le> unat (pmmLastUsable ents 0)" "unat (pmmLastUsable ents 0) mod 4096 = 0"
    using sorted_last [OF _ e] assms(1) l by (auto simp: memmap_ok_def mod_add_eq [symmetric])
qed

lemma pmmBitmapPlace_spec:
  "pmmBitmapPlace ents sz \<noteq> 0 \<Longrightarrow>
    \<exists>e \<in> set ents. usable e \<and> entBase e = pmmBitmapPlace ents sz \<and> sz \<le> entLength e"
  by (induction ents sz rule: pmmBitmapPlace.induct) (auto simp: usable_def split: if_splits)

lemma unat_page: "unat (a div PAGE_SIZE) = unat a div 4096"
  by (simp add: unat_div PAGE_SIZE_def)

lemma pmmMarkUsable_spec:
  assumes "bm_ok bm"
    and "\<And>e. e \<in> set ents \<Longrightarrow> usable e \<Longrightarrow> unat (entBase e) mod 4096 = 0 \<and> entEnd e < 2 ^ 64
          \<and> unat (entBase e) div 4096 < unat (bits bm) \<and> entEnd e div 4096 \<le> unat (bits bm)"
  shows "\<exists>m'. pmmMarkUsable ents bm m = Inr m' \<and> same_outside (bm_rng bm) m m'
    \<and> (\<forall>p < unat (bits bm). bmBit m' bm p \<longleftrightarrow> bmBit m bm p \<and> \<not> (\<exists>e \<in> set ents. inEntry p e))"
  using assms
proof (induction ents arbitrary: m)
  case Nil
  show ?case by simp
next
  case (Cons e ents)
  note IH = Cons.IH [OF Cons.prems(1) Cons.prems(2)]
  show ?case
  proof (cases "usable e")
    case False
    then show ?thesis using IH [of m] by (auto simp: usable_def inEntry_def)
  next
    case True
    have e: "unat (entBase e) mod 4096 = 0" "entEnd e < 2 ^ 64"
      "unat (entBase e) div 4096 < unat (bits bm)" "entEnd e div 4096 \<le> unat (bits bm)"
      using Cons.prems(2) [OF _ True] by auto
    let ?f = "entBase e div PAGE_SIZE" and ?t = "(entBase e + entLength e) div PAGE_SIZE"
    have u: "unat ?f = unat (entBase e) div 4096" "unat ?t = entEnd e div 4096"
      using unat_add_no_wrap [OF e(2)] by (simp_all add: unat_page)
    have al: "entBase e mod PAGE_SIZE = 0"
      using e(1) by (simp add: unat_eq_0 [symmetric] unat_mod PAGE_SIZE_def)
    have "?f < bits bm" "?t \<le> bits bm" using e u by (simp_all add: word_less_nat_alt word_le_nat_alt)
    from bitmapFill_spec [OF Cons.prems(1) this, of False m]
    obtain m1 where m1: "bitmapFill bm ?f ?t False m = Inr m1" "same_outside (bm_rng bm) m m1"
      "\<And>p. p < unat (bits bm) \<Longrightarrow> bmBit m1 bm p =
         (if unat ?f \<le> p \<and> p < unat ?t then False else bmBit m bm p)" by blast
    from IH [of m1] obtain m2 where m2: "pmmMarkUsable ents bm m1 = Inr m2"
      "same_outside (bm_rng bm) m1 m2"
      "\<And>p. p < unat (bits bm) \<Longrightarrow> bmBit m2 bm p \<longleftrightarrow> bmBit m1 bm p \<and> \<not> (\<exists>e \<in> set ents. inEntry p e)"
      by auto
    have "pmmMarkUsable (e # ents) bm m = Inr m2"
      using True al m1(1) m2(1) by (simp add: usable_def)
    then show ?thesis
      using same_outside_trans [OF m1(2) m2(2)] m1(3) m2(3) True
      by (auto simp: inEntry_def u)
  qed
qed

text \<open>The pages that hold the bitmap itself.\<close>

definition inBitmapPages :: "memmap_entry list \<Rightarrow> nat \<Rightarrow> bool" where
  "inBitmapPages ents p \<longleftrightarrow>
     (let sz = bitmapCalculateSize (pmmLastUsable ents 0 div PAGE_SIZE);
          st = unat (pmmBitmapPlace ents sz) div 4096
      in st \<le> p \<and> p < st + (unat sz + 4095) div 4096)"

lemma rng_no_wrap:
  assumes "unat a + n \<le> 2 ^ 64"
  shows "x \<in> rng a n \<longleftrightarrow> unat a \<le> unat x \<and> unat x < unat a + n"
  using assms unat_less_max [of x] by (auto simp: in_rng unat_sub_if')

lemma bitmap_extent:
  assumes mo: "memmap_ok ents"
    and sz: "sz = bitmapCalculateSize (pmmLastUsable ents 0 div PAGE_SIZE)"
    and place: "a = pmmBitmapPlace ents sz" "a \<noteq> 0"
  shows "unat a mod 4096 = 0" and "0 < unat sz" and "unat sz \<le> 2 ^ 50"
    and "unat a + 4096 * ((unat sz + 4095) div 4096) \<le> unat (pmmLastUsable ents 0)"
    and "0 < unat a" and "unat (pmmLastUsable ents 0) mod 4096 = 0"
proof -
  from pmmBitmapPlace_spec [of ents sz] place obtain e where e: "e \<in> set ents" "usable e"
    "entBase e = a" "sz \<le> entLength e" by auto
  have ok: "unat a mod 4096 = 0" "unat (entLength e) mod 4096 = 0" "entLength e \<noteq> 0"
    using mo e by (auto simp: memmap_ok_def)
  have la: "entEnd e \<le> unat (pmmLastUsable ents 0)" and lm: "unat (pmmLastUsable ents 0) mod 4096 = 0"
    using last_covers [OF mo e(1,2)] by auto
  show "unat a mod 4096 = 0" by fact
  show "unat (pmmLastUsable ents 0) mod 4096 = 0" by fact
  show a0: "0 < unat a" using place(2) by (simp add: unat_gt_0)
  define l where "l = unat (pmmLastUsable ents 0) div 4096"
  have lmax: "l < 2 ^ 52" using unat_less_max [of "pmmLastUsable ents 0"] by (simp add: l_def)
  have "0 < unat (entLength e)" using ok(3) by (simp add: unat_gt_0)
  then have l0: "0 < l" using la a0 ok(1,2) e(3) unfolding l_def by auto
  have us: "unat sz = 8 * ((l + 63) div 64)"
    using unat_calculateSize lmax unfolding sz by (simp add: unat_page l_def)
  show "0 < unat sz" using us l0 by simp
  show "unat sz \<le> 2 ^ 50" using us lmax by simp
  have "unat sz \<le> unat (entLength e)" using e(4) by (simp add: word_le_nat_alt)
  then have "(unat sz + 4095) div 4096 \<le> unat (entLength e) div 4096"
    using ok(2) div_le_mono [of "unat sz + 4095" "unat (entLength e) + 4095" 4096] by auto
  moreover have "4096 * (unat (entLength e) div 4096) = unat (entLength e)" using ok(2) by auto
  ultimately show "unat a + 4096 * ((unat sz + 4095) div 4096) \<le> unat (pmmLastUsable ents 0)"
    using la e(3) by auto
qed

text \<open>A page outside the bitmap's pages does not meet the bitmap's words.\<close>

lemma page_off_words:
  assumes "unat h + L \<le> 2 ^ 64" and "unat a mod 4096 = 0" and "unat a + 4096 * nb \<le> L"
    and "sz \<le> 4096 * nb" and "0 < nb" and "p * 4096 + 4096 \<le> L"
    and "p < unat a div 4096 \<or> unat a div 4096 + nb \<le> p"
  shows "rng (of_nat (p * 4096) + h) 4096 \<inter> rng (a + h) sz = {}"
proof -
  have up: "unat (of_nat (p * 4096) :: u64) = p * 4096"
    using assms(1,6) by (intro unat_of_nat64) linarith
  have pv: "unat (of_nat (p * 4096) + h) = p * 4096 + unat h"
    using assms(1,6) up unat_add_no_wrap [of "of_nat (p * 4096)" h] by linarith
  have av: "unat (a + h) = unat a + unat h"
    using assms(1,3,5) by (intro unat_add_no_wrap) linarith
  have ad: "unat a = 4096 * (unat a div 4096)" using assms(2) by auto
  have pe: "unat (of_nat (p * 4096) + h) + 4096 \<le> 2 ^ 64" using pv assms(1,6) by linarith
  have ae: "unat (a + h) + sz \<le> 2 ^ 64" using av assms(1,3,4) by linarith
  have "\<not> (x \<in> rng (of_nat (p * 4096) + h) 4096 \<and> x \<in> rng (a + h) sz)" for x
    using rng_no_wrap [OF pe, of x] rng_no_wrap [OF ae, of x] pv av ad assms(4,7) by linarith
  then show ?thesis by blast
qed

text \<open>Every usable entry lies below the end of the map, so marking it stays in the bitmap.\<close>

lemma memmap_entry_fits:
  assumes mo: "memmap_ok ents" and e: "e \<in> set ents" "usable e"
  shows "unat (entBase e) mod 4096 = 0 \<and> entEnd e < 2 ^ 64
      \<and> unat (entBase e) div 4096 < unat (pmmLastUsable ents 0) div 4096
      \<and> entEnd e div 4096 \<le> unat (pmmLastUsable ents 0) div 4096"
proof -
  have le: "entEnd e \<le> unat (pmmLastUsable ents 0)" using last_covers(1) [OF mo e] .
  have ok: "0 < unat (entLength e)" "unat (entBase e) mod 4096 = 0"
    "unat (entLength e) mod 4096 = 0" "entEnd e < 2 ^ 64"
    using mo e by (auto simp: memmap_ok_def unat_gt_0)
  then have "unat (entBase e) div 4096 < entEnd e div 4096" by auto
  moreover have "entEnd e div 4096 \<le> unat (pmmLastUsable ents 0) div 4096"
    using le by (rule div_le_mono)
  ultimately show ?thesis using ok by simp
qed

text \<open>The three marking steps after the bitmap is set up, over any usable bitmap.\<close>

lemma pmmInit_marks:
  assumes mo: "memmap_ok ents" and ok: "bm_ok bm"
    and n: "unat (bits bm) = unat (pmmLastUsable ents 0) div 4096"
    and se: "unat s + nb = unat e" "0 < nb" "unat e \<le> unat (bits bm)"
  shows "\<exists>m2 m3 m4 m5. bitmapFillAll bm True m1 = Inr m2 \<and> pmmMarkUsable ents bm m2 = Inr m3
    \<and> bitmapFill bm s e True m3 = Inr m4 \<and> bitmapSet bm 0 True m4 = Inr m5
    \<and> (\<forall>p < unat (bits bm). bmBit m5 bm p \<longleftrightarrow>
          \<not> (\<exists>e \<in> set ents. inEntry p e) \<or> (unat s \<le> p \<and> p < unat s + nb) \<or> p = 0)"
proof -
  from bitmapFillAll_spec [OF ok, of True m1] obtain m2 where m2: "bitmapFillAll bm True m1 = Inr m2"
    "\<And>p. p < unat (bits bm) \<Longrightarrow> bmBit m2 bm p" by auto
  from pmmMarkUsable_spec [OF ok memmap_entry_fits [OF mo, folded n], of ents m2] obtain m3 where
    m3: "pmmMarkUsable ents bm m2 = Inr m3"
    "\<And>p. p < unat (bits bm) \<Longrightarrow> bmBit m3 bm p \<longleftrightarrow> \<not> (\<exists>e \<in> set ents. inEntry p e)"
    using m2(2) by auto
  have "s < bits bm" "e \<le> bits bm"
    using se by (simp_all add: word_less_nat_alt word_le_nat_alt)
  from bitmapFill_spec [OF ok this, of True m3] obtain m4 where
    m4: "bitmapFill bm s e True m3 = Inr m4"
    "\<And>p. p < unat (bits bm) \<Longrightarrow> bmBit m4 bm p =
       (if unat s \<le> p \<and> p < unat e then True else bmBit m3 bm p)" by blast
  have "0 < bits bm" using ok by (simp add: bm_ok_def word_neq_0_conv)
  from bitmapSet_spec [OF ok this, of True m4] obtain m5 where
    m5: "bitmapSet bm 0 True m4 = Inr m5"
    "\<And>p. p < unat (bits bm) \<Longrightarrow> bmBit m5 bm p = (if p = 0 then True else bmBit m4 bm p)" by auto
  have "bmBit m5 bm p \<longleftrightarrow>
          \<not> (\<exists>e \<in> set ents. inEntry p e) \<or> (unat s \<le> p \<and> p < unat s + nb) \<or> p = 0"
    if "p < unat (bits bm)" for p
    using m5(2) [OF that] m4(2) [OF that] m3(2) [OF that] se(1) by auto
  then show ?thesis using m2(1) m3(1) m4(1) m5(1) by blast
qed

lemma pmmInit_spec:
  assumes mo: "memmap_ok ents"
    and hh: "unat (hhdm k) + unat (pmmLastUsable ents 0) \<le> 2 ^ 64"
    and place: "pmmBitmapPlace ents (bitmapCalculateSize (pmmLastUsable ents 0 div PAGE_SIZE)) \<noteq> 0"
    and unlocked: "\<not> pmmSpinlock k"
  shows "\<exists>k'. pmmInit (Some ents) k = Inr k' \<and> pmm_inv k' \<and> hhdm k' = hhdm k
    \<and> pgCount k' = unat (pmmLastUsable ents 0) div 4096
    \<and> (\<forall>p < pgCount k'. pgUsed k' p \<longleftrightarrow>
          \<not> (\<exists>e \<in> set ents. inEntry p e) \<or> inBitmapPages ents p \<or> p = 0)"
proof -
  define L where "L = unat (pmmLastUsable ents 0)"
  define n where "n = pmmLastUsable ents 0 div PAGE_SIZE"
  define sz where "sz = bitmapCalculateSize n"
  define a where "a = pmmBitmapPlace ents sz"
  define nb where "nb = (unat sz + 4095) div 4096"
  have a0: "a \<noteq> 0" using place by (simp add: a_def sz_def n_def)
  note ext = bitmap_extent [OF mo sz_def [unfolded n_def] a_def a0, folded L_def nb_def]
  have hh': "unat (hhdm k) + L \<le> 2 ^ 64" using hh by (simp add: L_def)
  have un: "unat n = L div 4096" by (simp add: n_def unat_page L_def)
  have nmax: "unat n < 2 ^ 52" using unat_less_max [of "pmmLastUsable ents 0"] by (simp add: un L_def)
  have nb0: "0 < nb" and szb: "unat sz \<le> 4096 * nb" using ext(2) by (simp_all add: nb_def)
  let ?v = "a + hhdm k"
  have virt: "unat ?v = unat a + unat (hhdm k)"
    using ext(4) hh' nb0 by (intro unat_add_no_wrap) linarith
  have v0: "?v \<noteq> 0" using virt ext(5) by (auto simp: unat_eq_0 [symmetric])
  have vend: "unat ?v + unat sz \<le> 2 ^ 64" using virt ext(4) szb hh' by linarith
  have le: "unat a div 4096 + nb \<le> unat n" using div_le_mono [OF ext(4), of 4096] ext(1) un by simp
  have n0: "n \<noteq> 0" using le nb0 by (auto simp: unat_eq_0 [symmetric])
  define bm where "bm = \<lparr>bits = n, dataSize = sz, data = ?v\<rparr>"
  have ok: "bm_ok bm" using n0 nmax v0 vend by (simp add: bm_ok_def bm_def sz_def)
  obtain m1 where m1: "bitmapInit n ?v (mem k) = Inr (bm, m1)"
    using n0 v0 bm_ok_dataSize [OF ok]
    by (simp add: bitmapInit_def memset_filled word_neq_0_conv [symmetric] bm_def sz_def)
  let ?s = "a div PAGE_SIZE" and ?e = "a div PAGE_SIZE + DIV_ROUND_UP sz PAGE_SIZE"
  have us: "unat ?s = unat a div 4096" by (rule unat_page)
  have "unat (DIV_ROUND_UP sz PAGE_SIZE) = nb"
    using ext(3) unat_add_no_wrap [of 4095 sz]
    by (simp add: DIV_ROUND_UP_def unat_div PAGE_SIZE_def nb_def)
  then have ue: "unat ?e = unat ?s + nb"
    using us le nmax unat_add_no_wrap [of ?s "DIV_ROUND_UP sz PAGE_SIZE"] by simp
  from pmmInit_marks [OF mo ok _ ue [symmetric] nb0, of m1] obtain m2 m3 m4 m5 where
    m: "bitmapFillAll bm True m1 = Inr m2" "pmmMarkUsable ents bm m2 = Inr m3"
      "bitmapFill bm ?s ?e True m3 = Inr m4" "bitmapSet bm 0 True m4 = Inr m5"
    and view: "\<And>p. p < unat n \<Longrightarrow> bmBit m5 bm p \<longleftrightarrow> \<not> (\<exists>e \<in> set ents. inEntry p e)
        \<or> (unat ?s \<le> p \<and> p < unat ?s + nb) \<or> p = 0"
    using le by (auto simp: bm_def un L_def us ue)
  have inb: "inBitmapPages ents p \<longleftrightarrow> unat ?s \<le> p \<and> p < unat ?s + nb" for p
    by (simp add: inBitmapPages_def Let_def nb_def us flip: n_def sz_def a_def)
  let ?k = "k\<lparr>mem := m5, pmmBitmap := bm\<rparr>"
  have run: "pmmInit (Some ents) k = Inr ?k"
    using m m1 a0 by (simp add: pmmInit_def Let_def vmmPhysToVirt_def flip: n_def sz_def a_def)
  have off: "page_rng ?k p \<inter> bm_rng bm = {}" if p: "p < unat n" "\<not> bmBit m5 bm p" for p
  proof -
    have "p * 4096 + 4096 \<le> L" using p(1) un by linarith
    with page_off_words [OF hh' ext(1,4) szb nb0, of p] view [OF p(1)] p(2)
    show ?thesis by (auto simp: phys_rng_def vmmPhysToVirt_def bm_def us)
  qed
  have "pmm_inv ?k"
    using ok nmax unlocked off view [of 0] n0
    by (auto simp: pmm_inv_def bm_def unat_gt_0)
  then show ?thesis
    using run view un inb by (intro exI [of _ ?k]) (simp add: L_def bm_def)
qed

subsection \<open>Clients of the allocator\<close>

text \<open>
  What any run of the kernel does with the allocator: allocations, zeroed allocations, frees
  of blocks it holds, and arbitrary writes into blocks it holds. The second component is the
  list of the blocks held, each an address with its page count.
\<close>

type_synonym block = "u64 \<times> u64"

inductive pmm_client ::
    "'a pmm_state_scheme \<times> block list \<Rightarrow> 'a pmm_state_scheme \<times> block list \<Rightarrow> bool" where
  client_alloc: "pmmAlloc n k = Inr (a, k') \<Longrightarrow> pmm_client (k, L) (k', (a, n) # L)"
| client_zero: "pmmZeroAlloc n k = Inr (a, k') \<Longrightarrow> pmm_client (k, L) (k', (a, n) # L)"
| client_free: "pmmFree a n k = Inr k' \<Longrightarrow> pmm_client (k, xs @ (a, n) # ys) (k', xs @ ys)"
| client_write: "(a, n) \<in> set L \<Longrightarrow> same_outside (phys_rng k a (unat n)) (mem k) m \<Longrightarrow>
    pmm_client (k, L) (k\<lparr>mem := m\<rparr>, L)"

inductive_cases pmm_clientE: "pmm_client (k, L) c"

definition pages_of :: "block \<Rightarrow> nat set" where
  "pages_of b = {unat (fst b) div 4096 ..< unat (fst b) div 4096 + unat (snd b)}"

abbreviation block_rng :: "'a pmm_state_scheme \<Rightarrow> block \<Rightarrow> u64 set" where
  "block_rng k b \<equiv> phys_rng k (fst b) (unat (snd b))"

definition block_ok :: "'a pmm_state_scheme \<Rightarrow> block \<Rightarrow> bool" where
  "block_ok k b \<longleftrightarrow> fst b \<noteq> 0 \<and> snd b \<noteq> 0 \<and> unat (fst b) mod 4096 = 0
     \<and> unat (fst b) div 4096 + unat (snd b) \<le> pgCount k
     \<and> (\<forall>p \<in> pages_of b. pgUsed k p \<and> p \<noteq> 0 \<and> page_rng k p \<inter> bm_rng (pmmBitmap k) = {})"

definition ledger_inv :: "'a pmm_state_scheme \<times> block list \<Rightarrow> bool" where
  "ledger_inv c \<longleftrightarrow> (case c of (k, L) \<Rightarrow> pmm_inv k \<and> (\<forall>b \<in> set L. block_ok k b)
     \<and> sorted_wrt (\<lambda>b c. pages_of b \<inter> pages_of c = {}) L)"

lemma phys_rng_window:
  assumes "unat a + n * 4096 \<le> 2 ^ 64"
  shows "x \<in> phys_rng k a n \<longleftrightarrow> unat a \<le> unat (x - hhdm k) \<and> unat (x - hhdm k) < unat a + n * 4096"
proof -
  have "x - (a + hhdm k) = x - hhdm k - a" by (simp add: algebra_simps)
  then have "x \<in> phys_rng k a n \<longleftrightarrow> x - hhdm k \<in> rng a (n * 4096)"
    by (simp only: phys_rng_def vmmPhysToVirt_def in_rng)
  then show ?thesis using rng_no_wrap [OF assms] by simp
qed

lemma block_bytes:
  assumes "pmm_inv k" and "block_ok k b"
  shows "x \<in> block_rng k b \<longleftrightarrow> unat (x - hhdm k) div 4096 \<in> pages_of b"
proof -
  have a: "unat (fst b) = 4096 * (unat (fst b) div 4096)" using assms(2) by (auto simp: block_ok_def)
  have "unat (fst b) div 4096 + unat (snd b) \<le> 2 ^ 52"
    using assms by (auto simp: block_ok_def pmm_inv_def)
  then have "4096 * (unat (fst b) div 4096 + unat (snd b)) \<le> 4096 * 2 ^ 52" by (rule mult_le_mono2)
  then have "unat (fst b) + unat (snd b) * 4096 \<le> 2 ^ 64" using a by simp
  from phys_rng_window [OF this, of x k]
  have w: "x \<in> block_rng k b \<longleftrightarrow> 4096 * (unat (fst b) div 4096) \<le> unat (x - hhdm k)
      \<and> unat (x - hhdm k) < 4096 * (unat (fst b) div 4096 + unat (snd b))"
    using a by (simp add: algebra_simps)
  have "4096 * s \<le> y \<longleftrightarrow> s \<le> y div 4096" "y < 4096 * s \<longleftrightarrow> y div 4096 < s" for s y :: nat
    by (simp_all add: less_eq_div_iff_mult_less_eq div_less_iff_less_mult mult.commute)
  then show ?thesis unfolding w pages_of_def by (simp del: distrib_left_numeral)
qed

lemma blocks_disjoint:
  assumes "pmm_inv k" and "block_ok k b" and "block_ok k c" and "pages_of b \<inter> pages_of c = {}"
  shows "block_rng k b \<inter> block_rng k c = {}"
  using block_bytes [OF assms(1,2)] block_bytes [OF assms(1,3)] assms(4) by blast

lemma block_off_bitmap:
  assumes "block_ok k b"
  shows "block_rng k b \<inter> bm_rng (pmmBitmap k) = {}"
proof -
  have a: "fst b = of_nat (unat (fst b) div 4096 * 4096)"
    using assms by (intro unat_eqD) (auto simp: block_ok_def)
  have "x \<notin> bm_rng (pmmBitmap k)" if x: "x \<in> block_rng k b" for x
  proof -
    from x obtain i where i: "i < unat (snd b)" "x \<in> page_rng k (unat (fst b) div 4096 + i)"
      using phys_rng_pages [of x k "unat (fst b) div 4096" "unat (snd b)"] unfolding a [symmetric] by blast
    then have "unat (fst b) div 4096 + i \<in> pages_of b" by (simp add: pages_of_def)
    then show ?thesis using assms i(2) unfolding block_ok_def by blast
  qed
  then show ?thesis by blast
qed

text \<open>A change of memory under which no page of the block becomes free keeps the block.\<close>

lemma block_ok_mono:
  assumes "block_ok k b" and "pmmBitmap k' = pmmBitmap k" and "hhdm k' = hhdm k"
    and "\<And>p. p < pgCount k \<Longrightarrow> p \<in> pages_of b \<Longrightarrow> pgUsed k p \<Longrightarrow> pgUsed k' p"
  shows "block_ok k' b"
proof -
  have "p < pgCount k" if "p \<in> pages_of b" for p
    using assms(1) that by (auto simp: block_ok_def pages_of_def)
  then show ?thesis
    using assms by (auto simp: block_ok_def phys_rng_def vmmPhysToVirt_def)
qed

lemma alloc_block:
  assumes inv: "pmm_inv k" and al: "pmmAlloc n k = Inr (a, k')"
  shows "block_ok k' (a, n)" and "\<And>p. p \<in> pages_of (a, n) \<Longrightarrow> \<not> pgUsed k p"
    and "\<And>p. p < pgCount k \<Longrightarrow> pgUsed k p \<Longrightarrow> pgUsed k' p"
    and "pmmBitmap k' = pmmBitmap k" and "hhdm k' = hhdm k"
proof -
  have r: "alloc_result k n a k'" by (rule pmmAlloc_result [OF assms])
  then have run: "free_run (pgUsed k) (pgCount k) (unat a div 4096) (unat n)"
    and k': "k' = k\<lparr>mem := mem k'\<rparr>" and a: "unat a = unat a div 4096 * 4096"
    and u: "\<And>p. p < pgCount k \<Longrightarrow> pgUsed k' p \<longleftrightarrow> pgUsed k p \<or>
        (unat a div 4096 \<le> p \<and> p < unat a div 4096 + unat n)"
    by (simp_all add: alloc_result_def Let_def)
  note e = mem_update_eq [OF k']
  show "pmmBitmap k' = pmmBitmap k" "hhdm k' = hhdm k" using e by auto
  show "\<And>p. p < pgCount k \<Longrightarrow> pgUsed k p \<Longrightarrow> pgUsed k' p" using u by simp
  show free: "\<not> pgUsed k p" if "p \<in> pages_of (a, n)" for p
    using run that by (auto simp: pages_of_def free_run_iff)
  have lt: "p < pgCount k" if "p \<in> pages_of (a, n)" for p
    using run that by (auto simp: pages_of_def free_run_iff)
  have "unat a mod 4096 = 0" using a by (metis mod_mult_self2_is_0)
  moreover have "n \<noteq> 0" using al by (simp add: pmmAlloc_def res_simps word_neq_0_conv)
  moreover have "p \<noteq> 0" if "p \<in> pages_of (a, n)" for p
    using free [OF that] pmm_invD(4) [OF inv] by metis
  moreover have "page_rng k' p \<inter> bm_rng (pmmBitmap k') = {}" if "p \<in> pages_of (a, n)" for p
    using pmm_invD(5) [OF inv lt free, OF that that] e by (simp add: phys_rng_def vmmPhysToVirt_def)
  moreover have "pgUsed k' p" if "p \<in> pages_of (a, n)" for p
    using u [OF lt [OF that]] that by (auto simp: pages_of_def)
  ultimately show "block_ok k' (a, n)"
    using alloc_result_fits [OF r] e by (simp add: block_ok_def)
qed

lemma zero_alloc_block:
  assumes inv: "pmm_inv k" and al: "pmmZeroAlloc n k = Inr (a, k')"
  shows "block_ok k' (a, n)" and "\<And>p. p \<in> pages_of (a, n) \<Longrightarrow> \<not> pgUsed k p"
    and "\<And>p. p < pgCount k \<Longrightarrow> pgUsed k p \<Longrightarrow> pgUsed k' p"
    and "pmmBitmap k' = pmmBitmap k" and "hhdm k' = hhdm k"
proof -
  from pmmZeroAlloc_result [OF assms] obtain k1 where k1: "pmmAlloc n k = Inr (a, k1)"
    "k' = k1\<lparr>mem := mem k'\<rparr>" "\<forall>p < pgCount k. pgUsed k' p = pgUsed k1 p" by auto
  note b = alloc_block [OF inv k1(1)] and e = mem_update_eq [OF k1(2)]
  show "pmmBitmap k' = pmmBitmap k" "hhdm k' = hhdm k" using b e by auto
  show "\<And>p. p \<in> pages_of (a, n) \<Longrightarrow> \<not> pgUsed k p" by (rule b(2))
  show "\<And>p. p < pgCount k \<Longrightarrow> pgUsed k p \<Longrightarrow> pgUsed k' p" using b(3) k1(3) by simp
  show "block_ok k' (a, n)"
    using b(4) k1(3) e by (intro block_ok_mono [OF b(1)]) auto
qed

lemma free_block:
  assumes inv: "pmm_inv k" and b: "block_ok k (a, n)" and fr: "pmmFree a n k = Inr k'"
  shows "pmm_inv k'" and "pmmBitmap k' = pmmBitmap k" and "hhdm k' = hhdm k"
    and "\<And>p. p < pgCount k \<Longrightarrow> pgUsed k' p \<longleftrightarrow> pgUsed k p \<and> p \<notin> pages_of (a, n)"
proof -
  have "a \<noteq> 0" "n \<noteq> 0" "unat a div 4096 + unat n \<le> pgCount k"
    using b by (simp_all add: block_ok_def)
  from pmmFree_spec [OF inv this] fr
  have k': "k' = k\<lparr>mem := mem k'\<rparr>"
    and u: "\<And>p. p < pgCount k \<Longrightarrow> pgUsed k' p \<longleftrightarrow> pgUsed k p \<and>
          \<not> (unat a div 4096 \<le> p \<and> p < unat a div 4096 + unat n)" by auto
  note e = mem_update_eq [OF k']
  show "pmmBitmap k' = pmmBitmap k" "hhdm k' = hhdm k" using e by auto
  show v: "\<And>p. p < pgCount k \<Longrightarrow> pgUsed k' p \<longleftrightarrow> pgUsed k p \<and> p \<notin> pages_of (a, n)"
    using u by (auto simp: pages_of_def)
  have c0: "0 < pgCount k" using pmm_invD(1) [OF inv] by (simp add: bm_ok_def unat_gt_0)
  have "0 \<notin> pages_of (a, n)" using b unfolding block_ok_def by blast
  then have "pgUsed k' 0" using v [OF c0] pmm_invD(4) [OF inv] by simp
  moreover have "page_rng k' p \<inter> bm_rng (pmmBitmap k') = {}"
    if p: "p < pgCount k" "\<not> pgUsed k' p" for p
  proof -
    have "page_rng k p \<inter> bm_rng (pmmBitmap k) = {}"
      using b v [OF p(1)] p pmm_invD(5) [OF inv p(1)] unfolding block_ok_def by blast
    then show ?thesis using e by (simp add: phys_rng_def vmmPhysToVirt_def)
  qed
  ultimately show "pmm_inv k'" using inv e by (auto simp: pmm_inv_def)
qed

lemma ledger_inv_step:
  assumes "pmm_client c d" and "ledger_inv c"
  shows "ledger_inv d"
  using assms
proof (induction rule: pmm_client.induct)
  case (client_alloc n k a k' L)
  then have inv: "pmm_inv k" and ok: "\<And>b. b \<in> set L \<Longrightarrow> block_ok k b" by (auto simp: ledger_inv_def)
  note r = alloc_block [OF inv client_alloc.hyps]
  have "\<And>b. b \<in> set L \<Longrightarrow> block_ok k' b"
    using r(3-5) by (intro block_ok_mono [OF ok]) auto
  moreover have "pages_of (a, n) \<inter> pages_of b = {}" if "b \<in> set L" for b
    using ok [OF that] r(2) unfolding block_ok_def by blast
  ultimately show ?case
    using client_alloc r(1) pmmAlloc_inv [OF inv] by (auto simp: ledger_inv_def)
next
  case (client_zero n k a k' L)
  then have inv: "pmm_inv k" and ok: "\<And>b. b \<in> set L \<Longrightarrow> block_ok k b" by (auto simp: ledger_inv_def)
  note r = zero_alloc_block [OF inv client_zero.hyps]
  have "\<And>b. b \<in> set L \<Longrightarrow> block_ok k' b"
    using r(3-5) by (intro block_ok_mono [OF ok]) auto
  moreover have "pages_of (a, n) \<inter> pages_of b = {}" if "b \<in> set L" for b
    using ok [OF that] r(2) unfolding block_ok_def by blast
  ultimately show ?case
    using client_zero r(1) pmmZeroAlloc_inv [OF inv] by (auto simp: ledger_inv_def)
next
  case (client_free a n k k' xs ys)
  then have inv: "pmm_inv k" and ok: "\<And>b. b \<in> set (xs @ (a, n) # ys) \<Longrightarrow> block_ok k b"
    and so: "sorted_wrt (\<lambda>b c. pages_of b \<inter> pages_of c = {}) (xs @ (a, n) # ys)"
    by (auto simp: ledger_inv_def)
  have "block_ok k (a, n)" using ok by simp
  note r = free_block [OF inv this client_free.hyps]
  have "block_ok k' b" if b: "b \<in> set (xs @ ys)" for b
  proof -
    have "pages_of b \<inter> pages_of (a, n) = {}" using so b by (auto simp: sorted_wrt_append)
    then show ?thesis using r(2-4) b by (intro block_ok_mono [OF ok]) auto
  qed
  then show ?case using r(1) so by (auto simp: ledger_inv_def sorted_wrt_append)
next
  case (client_write a n L k m)
  then have inv: "pmm_inv k" and ok: "\<And>b. b \<in> set L \<Longrightarrow> block_ok k b" by (auto simp: ledger_inv_def)
  have "phys_rng k a (unat n) \<inter> bm_rng (pmmBitmap k) = {}"
    using block_off_bitmap [OF ok [OF client_write.hyps(1)]] by simp
  then have v: "\<And>p. p < pgCount k \<Longrightarrow> bmBit m (pmmBitmap k) p = pgUsed k p"
    using bmBit_same_outside [OF pmm_invD(1) [OF inv] _ client_write.hyps(2)] by simp
  have "\<And>b. b \<in> set L \<Longrightarrow> block_ok (k\<lparr>mem := m\<rparr>) b"
    using v by (intro block_ok_mono [OF ok]) auto
  then show ?case using pmm_inv_mem [OF inv v] client_write.prems by (auto simp: ledger_inv_def)
qed

lemma ledger_inv_reachable: "pmm_client\<^sup>*\<^sup>* c d \<Longrightarrow> ledger_inv c \<Longrightarrow> ledger_inv d"
  by (induction rule: rtranclp_induct) (auto intro: ledger_inv_step)

subsection \<open>Memory in use\<close>

text \<open>
  Bytes that no free page and no part of the bitmap contains: what the kernel's data
  structures stand in. An allocation keeps every such set so, and its pages are a new one.
\<close>

definition held :: "'a pmm_state_scheme \<Rightarrow> u64 set \<Rightarrow> bool" where
  "held k A \<longleftrightarrow> A \<inter> bm_rng (pmmBitmap k) = {}
     \<and> (\<forall>p < pgCount k. \<not> pgUsed k p \<longrightarrow> page_rng k p \<inter> A = {})"

text \<open>The direct map covers the managed pages without wrapping.\<close>

definition window_ok :: "'a pmm_state_scheme \<Rightarrow> bool" where
  "window_ok k \<longleftrightarrow> unat (hhdm k) + pgCount k * 4096 \<le> 2 ^ 64"

lemma held_subset: "held k A \<Longrightarrow> B \<subseteq> A \<Longrightarrow> held k B"
  unfolding held_def by blast

lemma held_Un: "held k A \<Longrightarrow> held k B \<Longrightarrow> held k (A \<union> B)"
  unfolding held_def by blast

lemma held_alloc:
  assumes inv: "pmm_inv k" and al: "pmmAlloc n k = Inr (a, k')" and h: "held k A"
  shows "held k' A" and "A \<inter> block_rng k (a, n) = {}"
proof -
  have r: "alloc_result k n a k'" by (rule pmmAlloc_result [OF inv al])
  note b = alloc_block [OF inv al]
  show "held k' A"
    using h b(3-5) by (auto simp: held_def phys_rng_def vmmPhysToVirt_def)
  have a: "a = of_nat (unat a div 4096 * 4096)" by (rule alloc_result_addr [OF r])
  have run: "free_run (pgUsed k) (pgCount k) (unat a div 4096) (unat n)"
    using r by (simp add: alloc_result_def Let_def)
  have "x \<notin> A" if x: "x \<in> block_rng k (a, n)" for x
  proof -
    from x obtain i where i: "i < unat n" "x \<in> page_rng k (unat a div 4096 + i)"
      using phys_rng_pages [of x k "unat a div 4096" "unat n"] a by auto
    then have "\<not> pgUsed k (unat a div 4096 + i)" "unat a div 4096 + i < pgCount k"
      using run by (auto simp: free_run_iff)
    then show ?thesis using h i(2) unfolding held_def by blast
  qed
  then show "A \<inter> block_rng k (a, n) = {}" by blast
qed

lemma page_bytes:
  assumes "pmm_inv k" and "p < pgCount k" and "x \<in> page_rng k p"
  shows "unat (x - hhdm k) div 4096 = p"
proof -
  have p: "p < 2 ^ 52" using assms(1,2) by (auto simp: pmm_inv_def)
  then have "unat (of_nat (p * 4096) :: u64) = p * 4096" by (intro unat_of_nat64) simp
  then show ?thesis
    using phys_rng_window [of "of_nat (p * 4096)" 1 x k] assms(3) p
    by (simp del: of_nat_mult) (intro div_nat_eqI, simp_all)
qed

lemma held_block:
  assumes inv: "pmm_inv k" and b: "block_ok k b"
  shows "held k (block_rng k b)"
proof -
  have "page_rng k p \<inter> block_rng k b = {}" if "p < pgCount k" "\<not> pgUsed k p" for p
    using page_bytes [OF inv that(1)] block_bytes [OF inv b] b that(2) unfolding block_ok_def by blast
  then show ?thesis using block_off_bitmap [OF b] by (simp add: held_def)
qed

text \<open>A write inside memory in use leaves the allocator's view.\<close>

lemma held_write:
  assumes inv: "pmm_inv k" and h: "held k A" and out: "same_outside A (mem k) m"
  shows "pmm_inv (k\<lparr>mem := m\<rparr>)" and "\<And>B. held k B \<Longrightarrow> held (k\<lparr>mem := m\<rparr>) B"
proof -
  have v: "\<And>p. p < pgCount k \<Longrightarrow> bmBit m (pmmBitmap k) p = pgUsed k p"
    using h by (intro bmBit_same_outside [OF pmm_invD(1) [OF inv] _ out]) (auto simp: held_def)
  then show "pmm_inv (k\<lparr>mem := m\<rparr>)" by (rule pmm_inv_mem [OF inv])
  show "\<And>B. held k B \<Longrightarrow> held (k\<lparr>mem := m\<rparr>) B"
    using v by (auto simp: held_def phys_rng_def vmmPhysToVirt_def)
qed

text \<open>Pages by their address in the direct map, as \<open>vmmAlloc\<close> returns them; then a single page.\<close>

lemma vmmAlloc_pages:
  assumes inv: "pmm_inv k" and w: "window_ok k" and al: "vmmAlloc n k = Inr (s, k')"
  shows "pmm_inv k'" and "window_ok k'" and "k' = k\<lparr>mem := mem k'\<rparr>"
    and "same_outside (bm_rng (pmmBitmap k)) (mem k) (mem k')"
    and "held k' (rng s (unat n * 4096))" and "s \<noteq> 0" and "unat s + unat n * 4096 \<le> 2 ^ 64"
    and "\<And>A. held k A \<Longrightarrow> held k' A \<and> A \<inter> rng s (unat n * 4096) = {}"
proof -
  from al obtain a where a: "pmmAlloc n k = Inr (a, k')" "s = a + hhdm k'"
    by (auto simp: vmmAlloc_def vmmPhysToVirt_def res_simps)
  note b = alloc_block [OF inv a(1)]
  have r: "alloc_result k n a k'" by (rule pmmAlloc_result [OF inv a(1)])
  show "pmm_inv k'" by (rule pmmAlloc_inv [OF inv a(1)])
  show "k' = k\<lparr>mem := mem k'\<rparr>" "same_outside (bm_rng (pmmBitmap k)) (mem k) (mem k')"
    using r by (simp_all add: alloc_result_def Let_def)
  show "window_ok k'" using w b(4,5) by (simp add: window_ok_def)
  have rs: "rng s (unat n * 4096) = block_rng k' (a, n)" "rng s (unat n * 4096) = block_rng k (a, n)"
    using a(2) b(5) by (simp_all add: phys_rng_def vmmPhysToVirt_def)
  show "held k' (rng s (unat n * 4096))"
    unfolding rs(1) by (rule held_block [OF pmmAlloc_inv [OF inv a(1)] b(1)])
  show "held k' A \<and> A \<inter> rng s (unat n * 4096) = {}" if "held k A" for A
    using held_alloc [OF inv a(1) that] unfolding rs(2) by simp
  have m: "unat a mod 4096 = 0" "unat a div 4096 + unat n \<le> pgCount k" "a \<noteq> 0" "n \<noteq> 0"
    using b(1,4) by (simp_all add: block_ok_def)
  have "unat a = unat a div 4096 * 4096" using m(1) by auto
  then have up: "unat a + unat n * 4096 \<le> pgCount k * 4096" "0 < unat a" "0 < unat n"
    using mult_le_mono1 [OF m(2), of 4096] m(3,4) by (simp_all add: algebra_simps unat_gt_0)
  have "unat s = unat a + unat (hhdm k)"
    unfolding a(2) b(5) using up w by (intro unat_add_no_wrap) (simp add: window_ok_def)
  then show "s \<noteq> 0" "unat s + unat n * 4096 \<le> 2 ^ 64"
    using up w by (auto simp: window_ok_def unat_eq_0 [symmetric])
qed

lemmas vmmAlloc_page = vmmAlloc_pages [where n = 1, unfolded unsigned_1 mult_1]

lemma vmmAlloc_aligned:
  assumes inv: "pmm_inv k" and w: "window_ok k" and h: "unat (hhdm k) mod 4096 = 0"
    and al: "vmmAlloc 1 k = Inr (s, k')"
  shows "unat s mod 4096 = 0"
proof -
  from al obtain a where a: "pmmAlloc 1 k = Inr (a, k')" "s = a + hhdm k'"
    by (auto simp: vmmAlloc_def vmmPhysToVirt_def res_simps)
  note b = alloc_block [OF inv a(1)]
  have m: "unat a mod 4096 = 0" "unat a div 4096 + 1 \<le> pgCount k"
    using b(1,4) by (simp_all add: block_ok_def)
  then have "unat a + 4096 \<le> pgCount k * 4096" by auto
  then have "unat s = unat a + unat (hhdm k)"
    unfolding a(2) b(5) using w by (intro unat_add_no_wrap) (simp add: window_ok_def)
  then show ?thesis using m(1) h by (simp add: mod_add_eq [symmetric])
qed

text \<open>How many pages are free.\<close>

text \<open>
  \<open>has_run k n\<close>: some \<open>n\<close> pages in a row are free. First fit takes one page from the front of the
  first run, so a longer run survives it.
\<close>

definition has_run :: "'a pmm_state_scheme \<Rightarrow> nat \<Rightarrow> bool" where
  "has_run k n \<longleftrightarrow> (\<exists>s. free_run (pgUsed k) (pgCount k) s n)"

lemma has_run_less: "has_run k n \<Longrightarrow> i \<le> n \<Longrightarrow> has_run k i"
  unfolding has_run_def free_run_iff by (elim exE, rule_tac x = s in exI) auto

lemma has_run_one: "has_run k 1 \<longleftrightarrow> (\<exists>p < pgCount k. \<not> pgUsed k p)"
  unfolding has_run_def free_run_one by auto

lemma has_run_write:
  assumes inv: "pmm_inv k" and h: "held k A" and out: "same_outside A (mem k) m"
  shows "has_run (k\<lparr>mem := m\<rparr>) n = has_run k n"
proof -
  have "\<And>p. p < pgCount k \<Longrightarrow> bmBit m (pmmBitmap k) p = pgUsed k p"
    using h by (intro bmBit_same_outside [OF pmm_invD(1) [OF inv] _ out]) (auto simp: held_def)
  then show ?thesis by (auto simp: has_run_def free_run_iff)
qed

lemma has_run_alloc:
  assumes inv: "pmm_inv k" and al: "vmmAlloc 1 k = Inr (s, k')" and run: "has_run k (Suc n)"
  shows "has_run k' n"
proof -
  from al obtain a where a: "pmmAlloc 1 k = Inr (a, k')" by (auto simp: vmmAlloc_def res_simps)
  define t where "t = unat a div 4096"
  have r: "alloc_result k 1 a k'" by (rule pmmAlloc_result [OF inv a])
  have "pmmBitmap k' = pmmBitmap k" using alloc_block(4) [OF inv a] by simp
  moreover have t: "\<forall>s' < t. \<not> free_run (pgUsed k) (pgCount k) s' 1"
    "\<forall>p < pgCount k. pgUsed k' p \<longleftrightarrow> pgUsed k p \<or> p = t"
    using r unfolding alloc_result_def Let_def t_def by auto
  obtain q where q: "free_run (pgUsed k) (pgCount k) q (Suc n)" using run by (auto simp: has_run_def)
  then have "free_run (pgUsed k) (pgCount k) q 1" by (auto simp: free_run_iff)
  then have "t \<le> q" using t(1) by (meson not_le)
  ultimately have "free_run (pgUsed k') (pgCount k') (Suc q) n" using q t(2) by (auto simp: free_run_iff)
  then show ?thesis by (auto simp: has_run_def)
qed

text \<open>The allocator looks at its own part of the state only.\<close>

lemma pmm_part:
  assumes "mem k' = mem k" and "hhdm k' = hhdm k" and "pmmBitmap k' = pmmBitmap k" and "pmmSpinlock k' = pmmSpinlock k"
  shows "pmm_inv k' = pmm_inv k" and "held k' A = held k A" and "window_ok k' = window_ok k" and "has_run k' n = has_run k n"
  using assms by (simp_all add: pmm_inv_def held_def window_ok_def has_run_def phys_rng_def vmmPhysToVirt_def)

definition freePages :: "'a pmm_state_scheme \<Rightarrow> nat" where
  "freePages k = card {p. p < pgCount k \<and> \<not> pgUsed k p}"

lemma freePages_pos: "freePages k = 0 \<longleftrightarrow> \<not> (\<exists>p < pgCount k. \<not> pgUsed k p)"
  by (auto simp: freePages_def)

lemma freePages_held_write:
  assumes inv: "pmm_inv k" and h: "held k A" and out: "same_outside A (mem k) m"
  shows "freePages (k\<lparr>mem := m\<rparr>) = freePages k"
proof -
  have "\<And>p. p < pgCount k \<Longrightarrow> bmBit m (pmmBitmap k) p = pgUsed k p"
    using h by (intro bmBit_same_outside [OF pmm_invD(1) [OF inv] _ out]) (auto simp: held_def)
  then have "{p. p < pgCount k \<and> \<not> bmBit m (pmmBitmap k) p} = {p. p < pgCount k \<and> \<not> pgUsed k p}" by auto
  then show ?thesis by (simp add: freePages_def)
qed

lemma freePages_zero_alloc:
  assumes inv: "pmm_inv k" and al: "pmmZeroAlloc 1 k = Inr (a, k')"
  shows "freePages k \<le> Suc (freePages k')"
proof -
  from pmmZeroAlloc_result [OF assms] obtain k1 where k1: "pmmAlloc 1 k = Inr (a, k1)"
    "k' = k1\<lparr>mem := mem k'\<rparr>" "\<forall>p < pgCount k. pgUsed k' p = pgUsed k1 p" by blast
  have r: "alloc_result k 1 a k1" by (rule pmmAlloc_result [OF inv k1(1)])
  have "pmmBitmap k' = pmmBitmap k" using zero_alloc_block(4) [OF assms] .
  then have c: "pgCount k' = pgCount k" by simp
  let ?F = "{p. p < pgCount k \<and> \<not> pgUsed k p}"
  have "?F - {unat a div 4096} \<subseteq> {p. p < pgCount k' \<and> \<not> pgUsed k' p}"
    using k1(3) r c by (auto simp: alloc_result_def Let_def)
  then have "card (?F - {unat a div 4096}) \<le> freePages k'"
    unfolding freePages_def by (intro card_mono) simp_all
  moreover have "card ?F \<le> Suc (card (?F - {unat a div 4096}))"
  proof -
    have "card ?F \<le> card (insert (unat a div 4096) (?F - {unat a div 4096}))" by (rule card_mono) auto
    also have "\<dots> \<le> Suc (card (?F - {unat a div 4096}))" by (rule card_insert_le_m1) simp_all
    finally show ?thesis .
  qed
  ultimately show ?thesis unfolding freePages_def by linarith
qed

text \<open>One zeroed page, for the page tables; \<open>s\<close> is its address in the direct map.\<close>

lemma zero_page:
  assumes inv: "pmm_inv k" and w: "window_ok k" and al: "pmmZeroAlloc 1 k = Inr (a, k')"
    and s: "s = a + hhdm k"
  shows "pmm_inv k'" and "window_ok k'" and "k' = k\<lparr>mem := mem k'\<rparr>"
    and "same_outside (bm_rng (pmmBitmap k) \<union> rng s 4096) (mem k) (mem k')"
    and "held k' (rng s 4096)" and "\<And>x. x \<in> rng s 4096 \<Longrightarrow> mem k' x = 0"
    and "s \<noteq> 0" and "unat s + 4096 \<le> 2 ^ 64"
    and "\<And>A. held k A \<Longrightarrow> held k' A \<and> A \<inter> rng s 4096 = {}"
    and "unat a mod 4096 = 0" and "unat a + 4096 \<le> pgCount k * 4096"
proof -
  from pmmZeroAlloc_result [OF inv al] obtain k1 where k1: "pmmAlloc 1 k = Inr (a, k1)"
    "k' = k1\<lparr>mem := mem k'\<rparr>" "same_outside (phys_rng k a (unat (1 :: u64))) (mem k1) (mem k')"
    "\<forall>x \<in> phys_rng k a (unat (1 :: u64)). mem k' x = 0" by blast
  have rs: "phys_rng k a (unat (1 :: u64)) = rng s 4096"
    by (simp add: s phys_rng_def vmmPhysToVirt_def)
  have r: "alloc_result k 1 a k1" by (rule pmmAlloc_result [OF inv k1(1)])
  then have e1: "k1 = k\<lparr>mem := mem k1\<rparr>" and o1: "same_outside (bm_rng (pmmBitmap k)) (mem k) (mem k1)"
    by (simp_all add: alloc_result_def Let_def)
  have h: "hhdm k1 = hhdm k" by (rule alloc_block(5) [OF inv k1(1)])
  then have v: "vmmAlloc 1 k = Inr (s, k1)" using k1(1) by (simp add: vmmAlloc_def s vmmPhysToVirt_def)
  note p = vmmAlloc_page [OF inv w v]
  have e: "k1\<lparr>mem := mem k'\<rparr> = k'" using k1(2) by simp
  note hw = held_write [OF p(1,5) k1(3) [unfolded rs], unfolded e]
  show "pmm_inv k'" by (rule hw(1))
  show "k' = k\<lparr>mem := mem k'\<rparr>" using k1(2) by (subst (asm) e1) simp
  show "window_ok k'" using p(2) unfolding window_ok_def by (subst k1(2), subst k1(2)) simp
  show "same_outside (bm_rng (pmmBitmap k) \<union> rng s 4096) (mem k) (mem k')"
    using o1 k1(3) [unfolded rs] by (simp add: same_outside_def)
  show "held k' (rng s 4096)" by (rule hw(2) [OF p(5)])
  show "mem k' x = 0" if "x \<in> rng s 4096" for x using k1(4) [unfolded rs] that by blast
  show "s \<noteq> 0" "unat s + 4096 \<le> 2 ^ 64" by (rule p(6), rule p(7))
  show "held k' A \<and> A \<inter> rng s 4096 = {}" if "held k A" for A using p(8) [OF that] hw(2) by blast
  have b: "block_ok k1 (a, 1)" "pmmBitmap k1 = pmmBitmap k"
    using alloc_block(1,4) [OF inv k1(1)] by auto
  then show "unat a mod 4096 = 0" by (simp add: block_ok_def)
  have "unat a div 4096 + 1 \<le> pgCount k" using b by (simp add: block_ok_def)
  then show "unat a + 4096 \<le> pgCount k * 4096" using b(1) by (auto simp: block_ok_def)
qed

lemma zero_page_cases:
  assumes "pmm_inv k" and "window_ok k"
  shows "if \<exists>p < pgCount k. \<not> pgUsed k p then \<exists>a k'. pmmZeroAlloc 1 k = Inr (a, k')
    else pmmZeroAlloc 1 k = Inl (PanicMsg ''OUT OF MEMORY'')"
proof (cases "\<exists>p < pgCount k. \<not> pgUsed k p")
  case True
  then obtain p where "p < pgCount k" "\<not> pgUsed k p" by blast
  then have "free_run (pgUsed k) (pgCount k) p (unat (1 :: u64))" by (simp add: free_run_def)
  from pmmAlloc_succeeds [OF assms(1) _ this] obtain a k1 where k1: "pmmAlloc 1 k = Inr (a, k1)" by auto
  then have "vmmAlloc 1 k = Inr (vmmPhysToVirt k1 a, k1)" by (simp add: vmmAlloc_def)
  from vmmAlloc_page(6) [OF assms this] have "vmmPhysToVirt k1 a \<noteq> 0" .
  then show ?thesis using True k1 by (auto simp: pmmZeroAlloc_def memset_filled PAGE_SIZE_def)
next
  case False
  then have "pmmAlloc 1 k = Inl (PanicMsg ''OUT OF MEMORY'')"
    by (intro pmmAlloc_oom [OF assms(1)]) (auto simp: free_run_def)
  with False show ?thesis by (auto simp: pmmZeroAlloc_def)
qed

lemma vmmAlloc_cases:
  assumes "pmm_inv k"
  shows "if \<exists>p < pgCount k. \<not> pgUsed k p then \<exists>s k'. vmmAlloc 1 k = Inr (s, k')
    else vmmAlloc 1 k = Inl (PanicMsg ''OUT OF MEMORY'')"
proof -
  have run: "free_run (pgUsed k) (pgCount k) p 1 \<longleftrightarrow> p < pgCount k \<and> \<not> pgUsed k p" for p
    by (auto simp: free_run_def)
  show ?thesis
  proof (cases "\<exists>p < pgCount k. \<not> pgUsed k p")
    case True
    then obtain p where "free_run (pgUsed k) (pgCount k) p (unat (1 :: u64))" using run by auto
    from pmmAlloc_succeeds [OF assms _ this] True show ?thesis by (auto simp: vmmAlloc_def)
  next
    case False
    then have "pmmAlloc 1 k = Inl (PanicMsg ''OUT OF MEMORY'')"
      using run by (intro pmmAlloc_oom [OF assms]) auto
    with False show ?thesis by (auto simp: vmmAlloc_def)
  qed
qed

subsection \<open>Fields of structs in the kernel's memory\<close>

text \<open>A write to a field of a struct.\<close>

definition put64 :: "u64 \<Rightarrow> u64 \<Rightarrow> u64 \<Rightarrow> 'a pmm_state_scheme \<Rightarrow> 'a pmm_state_scheme ores" where
  "put64 p off v k = Some (deref p (Inr (k\<lparr>mem := store64 (mem k) (p + off) v\<rparr>)))"

definition put32 :: "u64 \<Rightarrow> u64 \<Rightarrow> u32 \<Rightarrow> 'a pmm_state_scheme \<Rightarrow> 'a pmm_state_scheme ores" where
  "put32 p off v k = Some (deref p (Inr (k\<lparr>mem := store32 (mem k) (p + off) v\<rparr>)))"

text \<open>A function of the lower layers that works on memory alone, in the whole state.\<close>

definition onMem :: "(mem \<Rightarrow> mem res) \<Rightarrow> 'a pmm_state_scheme \<Rightarrow> 'a pmm_state_scheme ores" where
  "onMem f k = Some (bnd (f (mem k)) (\<lambda>m. Inr (k\<lparr>mem := m\<rparr>)))"

subsection \<open>Properties\<close>

text \<open>C1: start any run of allocations, frees and writes by the holders of blocks from a state
  that satisfies the invariant. At every point the blocks held are disjoint byte ranges, none
  of them meets the bitmap that records them, and the invariant holds.\<close>

theorem pmm_blocks_exclusive:
  assumes "pmm_inv k0" and "pmm_client\<^sup>*\<^sup>* (k0, []) (k, L)"
  shows "pmm_inv k \<and> (\<forall>b \<in> set L. block_rng k b \<inter> bm_rng (pmmBitmap k) = {})
    \<and> (\<forall>i < length L. \<forall>j < i. block_rng k (L ! i) \<inter> block_rng k (L ! j) = {})"
proof -
  have "ledger_inv (k0, [])" using assms(1) by (simp add: ledger_inv_def)
  from ledger_inv_reachable [OF assms(2) this] have inv: "pmm_inv k"
    and ok: "\<And>b. b \<in> set L \<Longrightarrow> block_ok k b"
    and so: "sorted_wrt (\<lambda>b c. pages_of b \<inter> pages_of c = {}) L" by (auto simp: ledger_inv_def)
  have "block_rng k (L ! i) \<inter> block_rng k (L ! j) = {}" if "i < length L" "j < i" for i j
  proof (rule blocks_disjoint [OF inv ok ok])
    show "pages_of (L ! i) \<inter> pages_of (L ! j) = {}"
      using sorted_wrt_nth_less [OF so that(2,1)] by blast
  qed (use that in simp_all)
  then show ?thesis using inv ok block_off_bitmap by blast
qed

text \<open>Sixty-four pages, of which page 0 and page 1, which holds the bitmap, are in use.\<close>

definition demoPmm :: pmm_state where
  "demoPmm = \<lparr>mem = store64 (\<lambda>_. 0) 0xffff800000001000 3, hhdm = 0xffff800000000000,
     pmmBitmap = \<lparr>bits = 64, dataSize = 8, data = 0xffff800000001000\<rparr>, pmmSpinlock = False\<rparr>"

lemma demo_used: "p < 64 \<Longrightarrow> pgUsed demoPmm p \<longleftrightarrow> p < 2"
proof -
  assume p: "p < 64"
  have "(3 :: u64) = mask 2" by (simp add: mask_eq_exp_minus_1)
  then have "bit (3 :: u64) p \<longleftrightarrow> p < 2"
    by (simp only: bit_mask_iff) (use p in simp)
  with p show "pgUsed demoPmm p \<longleftrightarrow> p < 2" by (simp add: bmBit_def demoPmm_def)
qed

lemma demo_pmm_inv: "pmm_inv demoPmm"
proof -
  have "page_rng demoPmm p \<inter> bm_rng (pmmBitmap demoPmm) = {}" if "p < 64" "\<not> p < 2" for p
    using page_off_words [of "0xffff800000000000" "64 * 4096" "0x1000" 1 8 p] that
    by (simp add: demoPmm_def phys_rng_def vmmPhysToVirt_def)
  moreover have "bm_ok (pmmBitmap demoPmm)"
    by (simp add: demoPmm_def bm_ok_def bitmapCalculateSize_def DIV_ROUND_UP_def)
  moreover have "pgCount demoPmm = 64" "\<not> pmmSpinlock demoPmm" by (simp_all add: demoPmm_def)
  ultimately show ?thesis using demo_used by (simp add: pmm_inv_def)
qed

lemma demo_count: "pgCount demoPmm = 64"
  by (simp add: demoPmm_def)

lemma demo_alloc: "\<exists>addr k'. pmmAlloc 2 demoPmm = Inr (addr, k')"
proof (rule pmmAlloc_succeeds [OF demo_pmm_inv])
  show "free_run (pgUsed demoPmm) (pgCount demoPmm) 2 (unat (2 :: u64))"
    by (auto simp: free_run_iff demo_used demo_count)
qed simp

theorem pmm_blocks_exclusive_witness:
  "\<exists>a k. pmmAlloc 2 demoPmm = Inr (a, k) \<and> block_rng k (a, 2) \<inter> bm_rng (pmmBitmap k) = {}"
proof -
  obtain a k where k: "pmmAlloc 2 demoPmm = Inr (a, k)" using demo_alloc by blast
  have "pmm_client\<^sup>*\<^sup>* (demoPmm, []) (k, [(a, 2)])"
    using client_alloc [OF k, of "[]"] by (rule r_into_rtranclp)
  from pmm_blocks_exclusive [OF demo_pmm_inv this] k show ?thesis by auto
qed

text \<open>C2: an allocation succeeds exactly when the map has a free run of that length; it then takes
  the first such run, marks it and nothing else, and keeps the invariant. Otherwise it ends in
  the out-of-memory panic.\<close>

theorem pmmAlloc_correct:
  assumes "pmm_inv k" and "pages \<noteq> 0"
  shows "if \<exists>s. free_run (pgUsed k) (pgCount k) s (unat pages)
    then \<exists>addr k'. pmmAlloc pages k = Inr (addr, k') \<and> alloc_result k pages addr k' \<and> pmm_inv k'
    else pmmAlloc pages k = Inl (PanicMsg ''OUT OF MEMORY'')"
  using pmmAlloc_succeeds [OF assms] pmmAlloc_result [OF assms(1)] pmmAlloc_inv [OF assms(1)]
    pmmAlloc_oom [OF assms] by metis

theorem pmmAlloc_correct_witness:
  "(\<exists>a k. pmmAlloc 62 demoPmm = Inr (a, k)) \<and> pmmAlloc 63 demoPmm = Inl (PanicMsg ''OUT OF MEMORY'')"
proof -
  have "free_run (pgUsed demoPmm) (pgCount demoPmm) 2 62"
    by (auto simp: free_run_iff demo_used demo_count)
  moreover have "\<not> free_run (pgUsed demoPmm) (pgCount demoPmm) s 63" for s
    by (auto simp: free_run_iff demo_used demo_count intro!: exI [of _ 1])
  ultimately show ?thesis
    using pmmAlloc_correct [OF demo_pmm_inv, of 62] pmmAlloc_correct [OF demo_pmm_inv, of 63]
    by (auto split: if_splits)
qed

text \<open>C4: freeing a block just allocated succeeds, keeps the invariant, and gives back the map of
  used pages there was before the allocation.\<close>

theorem pmm_alloc_free_roundtrip:
  assumes "pmm_inv k" and "pmmAlloc pages k = Inr (addr, k1)"
  shows "\<exists>k2. pmmFree addr pages k1 = Inr k2 \<and> pmm_inv k2
    \<and> (\<forall>p < pgCount k. pgUsed k2 p = pgUsed k p)"
proof -
  obtain k2 where k2: "pmmFree addr pages k1 = Inr k2" "\<forall>p < pgCount k. pgUsed k2 p = pgUsed k p"
    using alloc_free_view [OF assms] by blast
  have "pmm_inv k2"
    using free_block(1) [OF pmmAlloc_inv [OF assms] alloc_block(1) [OF assms] k2(1)] .
  with k2 show ?thesis by blast
qed

theorem pmm_alloc_free_roundtrip_witness:
  "\<exists>a k1 k2. pmmAlloc 2 demoPmm = Inr (a, k1) \<and> pmmFree a 2 k1 = Inr k2 \<and> \<not> pgUsed k2 2"
proof -
  obtain a k1 where k1: "pmmAlloc 2 demoPmm = Inr (a, k1)" using demo_alloc by blast
  from pmm_alloc_free_roundtrip [OF demo_pmm_inv k1] obtain k2 where
    "pmmFree a 2 k1 = Inr k2" "\<forall>p < 64. pgUsed k2 p = pgUsed demoPmm p" by (auto simp: demo_count)
  moreover have "\<not> pgUsed demoPmm 2" using demo_used [of 2] by simp
  ultimately show ?thesis using k1 by auto
qed

text \<open>a zeroed allocation gives pages that read as zero throughout, and the clearing changes
  neither the bitmap nor any byte outside the pages.\<close>

theorem pmmZeroAlloc_correct:
  assumes "pmm_inv k" and "pmmZeroAlloc pages k = Inr (addr, k')"
  shows "pmm_inv k' \<and> block_ok k' (addr, pages)
    \<and> (\<forall>x \<in> block_rng k' (addr, pages). mem k' x = 0)
    \<and> same_outside (block_rng k (addr, pages) \<union> bm_rng (pmmBitmap k)) (mem k) (mem k')
    \<and> (\<forall>p < pgCount k. pgUsed k' p \<longleftrightarrow> pgUsed k p \<or> p \<in> pages_of (addr, pages))"
proof -
  from pmmZeroAlloc_result [OF assms] obtain k1 where k1: "pmmAlloc pages k = Inr (addr, k1)"
    "k' = k1\<lparr>mem := mem k'\<rparr>" "same_outside (phys_rng k addr (unat pages)) (mem k1) (mem k')"
    "\<forall>x \<in> phys_rng k addr (unat pages). mem k' x = 0"
    "\<forall>p < pgCount k. pgUsed k' p = pgUsed k1 p" by blast
  have r: "alloc_result k pages addr k1" by (rule pmmAlloc_result [OF assms(1) k1(1)])
  have "same_outside (bm_rng (pmmBitmap k)) (mem k) (mem k1)"
    using r by (simp add: alloc_result_def Let_def)
  then have "same_outside (block_rng k (addr, pages) \<union> bm_rng (pmmBitmap k)) (mem k) (mem k')"
    using k1(3) by (auto simp: same_outside_def)
  moreover have "\<forall>p < pgCount k. pgUsed k' p \<longleftrightarrow> pgUsed k p \<or> p \<in> pages_of (addr, pages)"
    using k1(5) r by (auto simp: alloc_result_def Let_def pages_of_def)
  moreover have "block_rng k' (addr, pages) = phys_rng k addr (unat pages)"
    using zero_alloc_block(5) [OF assms] by (simp add: phys_rng_def vmmPhysToVirt_def)
  ultimately show ?thesis
    using pmmZeroAlloc_inv [OF assms] zero_alloc_block(1) [OF assms] k1(4) by simp
qed

theorem pmmZeroAlloc_correct_witness:
  "\<exists>a k. pmmZeroAlloc 2 demoPmm = Inr (a, k) \<and> (\<forall>x \<in> block_rng k (a, 2). mem k x = 0)"
proof -
  obtain a k1 where k1: "pmmAlloc 2 demoPmm = Inr (a, k1)" using demo_alloc by blast
  have r: "alloc_result demoPmm 2 a k1" by (rule pmmAlloc_result [OF demo_pmm_inv k1])
  then have a: "unat a = unat a div 4096 * 4096" "unat a div 4096 < 64"
    by (simp_all add: alloc_result_def Let_def free_run_iff demo_count)
  have "hhdm k1 = 0xffff800000000000" using alloc_block(5) [OF demo_pmm_inv k1] by (simp add: demoPmm_def)
  moreover have "unat (a + 0xffff800000000000) = unat a + unat (0xffff800000000000 :: u64)"
    using a by (intro unat_add_no_wrap) simp
  ultimately have "vmmPhysToVirt k1 a \<noteq> 0" by (auto simp: vmmPhysToVirt_def unat_eq_0 [symmetric])
  then have "\<exists>m. memset (vmmPhysToVirt k1 a) 0 (2 * PAGE_SIZE) (mem k1) = Inr m"
    by (simp add: memset_filled PAGE_SIZE_def)
  then have "\<exists>k. pmmZeroAlloc 2 demoPmm = Inr (a, k)"
    using k1 by (auto simp: pmmZeroAlloc_def)
  then show ?thesis using pmmZeroAlloc_correct [OF demo_pmm_inv, of 2 a] by blast
qed

text \<open>C3: on a memory map as the boot protocol promises it, \<open>pmmInit\<close> succeeds when some usable
  entry holds the bitmap. It establishes the invariant, and the free pages are exactly the
  pages of usable entries other than page 0 and those of the bitmap itself.\<close>

theorem pmmInit_correct:
  assumes "memmap_ok ents" and "unat (hhdm k) + unat (pmmLastUsable ents 0) \<le> 2 ^ 64"
    and "pmmBitmapPlace ents (bitmapCalculateSize (pmmLastUsable ents 0 div PAGE_SIZE)) \<noteq> 0"
    and "\<not> pmmSpinlock k"
  shows "\<exists>k'. pmmInit (Some ents) k = Inr k' \<and> pmm_inv k'
    \<and> (\<forall>p < pgCount k'. \<not> pgUsed k' p \<longleftrightarrow>
          (\<exists>e \<in> set ents. inEntry p e) \<and> \<not> inBitmapPages ents p \<and> p \<noteq> 0)"
  using pmmInit_spec [OF assms] by blast

definition demoMap :: "memmap_entry list" where
  "demoMap = [\<lparr>entBase = 0, entLength = 0x9f000, entType = 0\<rparr>,
     \<lparr>entBase = 0x9f000, entLength = 0x61000, entType = 1\<rparr>,
     \<lparr>entBase = 0x100000, entLength = 0x100000, entType = 0\<rparr>]"

lemma demo_last: "pmmLastUsable demoMap 0 = 0x200000"
  by (simp add: demoMap_def LIMINE_MEMMAP_USABLE_def)

lemma demo_place: "pmmBitmapPlace demoMap (bitmapCalculateSize (0x200000 div PAGE_SIZE)) = 0x100000"
  by (simp add: demoMap_def LIMINE_MEMMAP_USABLE_def bitmapCalculateSize_def DIV_ROUND_UP_def PAGE_SIZE_def)

theorem pmmInit_correct_witness:
  "\<exists>k'. pmmInit (Some demoMap) demoPmm = Inr k' \<and> pmm_inv k'"
proof -
  have "memmap_ok demoMap"
    by (simp add: memmap_ok_def demoMap_def usable_def LIMINE_MEMMAP_USABLE_def)
  moreover have "unat (hhdm demoPmm) + unat (0x200000 :: u64) \<le> 2 ^ 64" "\<not> pmmSpinlock demoPmm"
    by (simp_all add: demoPmm_def)
  ultimately show ?thesis
    using pmmInit_correct [of demoMap demoPmm] demo_place by (auto simp: demo_last)
qed

end
