(* ===== verification/Vmm.thy ===== *)
theory Vmm
  imports Pmm
begin

section \<open>Page tables (mem/vmm.c, include/paging.h)\<close>

text \<open>
  The four-level page tables. The state of \<open>vmm.c\<close> is the kernel's view of the root table
  (\<open>p4\<close>) and the lock of the walk; it extends the state of the page allocator, from which new
  tables come. Two fields record effects on the CPU: the value loaded into \<open>cr3\<close> and the pages
  given to \<open>invlpg\<close>, in order.

  The abstract view of the tables is \<open>leaf\<close>: the last-level entry at each path of four indices,
  0 where a table is missing. \<open>vm_inv\<close> says that the tables form a tree of disjoint pages that
  are in use. Tables are followed through entries that are not 0 and not huge pages; \<open>vmmWalk\<close>
  does not test for huge pages, so the statements require a path without them.
\<close>

definition PAGE_ADDR_MASK :: u64 where "PAGE_ADDR_MASK = 0x3FFFFFFFFFFFF000"
definition PTE_PRESENT :: u32 where "PTE_PRESENT = 1"
definition PTE_WRITABLE :: u32 where "PTE_WRITABLE = 2"
definition PTE_NOT_CACHEABLE :: u32 where "PTE_NOT_CACHEABLE = 0x10"
definition PTE_HUGE :: u32 where "PTE_HUGE = 0x80"

definition P1 :: "u64 \<Rightarrow> u64" where "P1 addr = drop_bit 12 addr AND 0x1FF"
definition P2 :: "u64 \<Rightarrow> u64" where "P2 addr = drop_bit 21 addr AND 0x1FF"
definition P3 :: "u64 \<Rightarrow> u64" where "P3 addr = drop_bit 30 addr AND 0x1FF"
definition P4 :: "u64 \<Rightarrow> u64" where "P4 addr = drop_bit 39 addr AND 0x1FF"

text \<open>\<open>flags\<close> is an \<open>int\<close>: it is extended with its sign.\<close>

definition PTE :: "u64 \<Rightarrow> u32 \<Rightarrow> u64" where
  "PTE frame flags = (frame AND PAGE_ADDR_MASK) OR scast (flags OR PTE_PRESENT)"

record vmm_state = pmm_state +
  p4 :: u64
  walkSpinlock :: Spinlock
  cr3 :: u64
  invalidated :: "u64 list"

subsection \<open>Operations\<close>

definition vmmInvalidatePage :: "u64 \<Rightarrow> 'a vmm_state_scheme \<Rightarrow> 'a vmm_state_scheme" where
  "vmmInvalidatePage virt k = k\<lparr>invalidated := invalidated k @ [virt]\<rparr>"

definition vmmGetPageTable :: "u64 \<Rightarrow> 'a vmm_state_scheme \<Rightarrow> u64" where
  "vmmGetPageTable ent k = (if ent = 0 then 0 else vmmPhysToVirt k (ent AND PAGE_ADDR_MASK))"

definition entAddr :: "u64 \<Rightarrow> u64 \<Rightarrow> u64" where
  "entAddr table idx = table + 8 * idx"

text \<open>
  One level of the walk: fill an empty entry when asked to, then follow it. The table pointer is
  0 when the entry above was 0; reading or writing through it then traps.
\<close>

definition vmmLevel ::
    "bool \<Rightarrow> u32 \<Rightarrow> u64 \<Rightarrow> u64 \<Rightarrow> 'a vmm_state_scheme \<Rightarrow> (u64 \<times> 'a vmm_state_scheme) res" where
  "vmmLevel allocate allocFlags table idx k =
     deref table
       (bnd (if allocate \<and> load64 (mem k) (entAddr table idx) = 0
             then bnd (pmmZeroAlloc 1 k) (\<lambda>(a, k).
                    Inr (k\<lparr>mem := store64 (mem k) (entAddr table idx) (PTE a allocFlags)\<rparr>))
             else Inr k) (\<lambda>k.
          Inr (vmmGetPageTable (load64 (mem k) (entAddr table idx)) k, k)))"

definition vmmWalk ::
    "u64 \<Rightarrow> bool \<Rightarrow> u32 \<Rightarrow> 'a vmm_state_scheme \<Rightarrow> (u64 \<times> 'a vmm_state_scheme) res" where
  "vmmWalk virt allocate allocFlags k =
     bnd (spinlockAcquire (walkSpinlock k)) (\<lambda>l.
     bnd (vmmLevel allocate allocFlags (p4 k) (P4 virt) (k\<lparr>walkSpinlock := l\<rparr>)) (\<lambda>(p3, k).
     bnd (vmmLevel allocate allocFlags p3 (P3 virt) k) (\<lambda>(p2, k).
     bnd (vmmLevel allocate allocFlags p2 (P2 virt) k) (\<lambda>(p1, k).
       Inr (p1, k\<lparr>walkSpinlock := spinlockDrop (walkSpinlock k)\<rparr>)))))"

definition vmmMap :: "u64 \<Rightarrow> u64 \<Rightarrow> u32 \<Rightarrow> 'a vmm_state_scheme \<Rightarrow> 'a vmm_state_scheme res" where
  "vmmMap virt phys flags k =
     bnd (vmmWalk virt True flags k) (\<lambda>(p1, k).
     deref p1
       (Inr (vmmInvalidatePage virt
               (k\<lparr>mem := store64 (mem k) (entAddr p1 (P1 virt)) (PTE phys flags)\<rparr>))))"

function vmmMapPages ::
    "u64 \<Rightarrow> u64 \<Rightarrow> u32 \<Rightarrow> u32 \<Rightarrow> 'a vmm_state_scheme \<Rightarrow> 'a vmm_state_scheme res" where
  "vmmMapPages currVirt phys flags n k =
     (if n \<noteq> 0
      then bnd (vmmMap currVirt phys flags k) (\<lambda>k.
             vmmMapPages (currVirt + PAGE_SIZE) (phys + PAGE_SIZE) flags (n - 1) k)
      else Inr k)"
  by pat_completeness auto
termination
  by (relation "measure (\<lambda>(v, p, f, n, k). unat n)") (auto simp: unat_minus_one unat_gt_0)

definition vmmUnmap :: "u64 \<Rightarrow> 'a vmm_state_scheme \<Rightarrow> 'a vmm_state_scheme res" where
  "vmmUnmap virt k =
     bnd (vmmWalk virt False 0 k) (\<lambda>(p1, k).
       if p1 = 0 then Inr k
       else Inr (vmmInvalidatePage virt (k\<lparr>mem := store64 (mem k) (entAddr p1 (P1 virt)) 0\<rparr>)))"

function vmmUnmapPages :: "u64 \<Rightarrow> u32 \<Rightarrow> 'a vmm_state_scheme \<Rightarrow> 'a vmm_state_scheme res" where
  "vmmUnmapPages cur n k =
     (if n \<noteq> 0 then bnd (vmmUnmap cur k) (\<lambda>k. vmmUnmapPages (cur + PAGE_SIZE) (n - 1) k)
      else Inr k)"
  by pat_completeness auto
termination
  by (relation "measure (\<lambda>(v, n, k). unat n)") (auto simp: unat_minus_one unat_gt_0)

declare vmmMapPages.simps [simp del] vmmUnmapPages.simps [simp del]

text \<open>The page count is a \<open>size_t\<close>, passed on as an \<open>int\<close>.\<close>

definition vmmMapMMIO :: "u64 \<Rightarrow> u64 \<Rightarrow> 'a vmm_state_scheme \<Rightarrow> 'a vmm_state_scheme res" where
  "vmmMapMMIO addr pages k =
     vmmMapPages (vmmPhysToVirt k addr) addr (PTE_WRITABLE OR PTE_NOT_CACHEABLE) (ucast pages) k"

definition vmmUnmapMMIO :: "u64 \<Rightarrow> u64 \<Rightarrow> 'a vmm_state_scheme \<Rightarrow> 'a vmm_state_scheme res" where
  "vmmUnmapMMIO addr pages k = vmmUnmapPages (vmmPhysToVirt k addr) (ucast pages) k"

text \<open>The root table stays the one the boot loader made; it is loaded again.\<close>

definition vmmInit :: "'a vmm_state_scheme \<Rightarrow> 'a vmm_state_scheme" where
  "vmmInit k = (let p4Phys = cr3 k in k\<lparr>p4 := vmmPhysToVirt k p4Phys, cr3 := p4Phys\<rparr>)"

subsection \<open>Entries\<close>

text \<open>A present entry that points to a table: not 0, and not a huge page.\<close>

definition is_table :: "u64 \<Rightarrow> bool" where
  "is_table e \<longleftrightarrow> e \<noteq> 0 \<and> \<not> bit e 7"

abbreviation entTable :: "u64 \<Rightarrow> u64 \<Rightarrow> u64" where
  "entTable h e \<equiv> (e AND PAGE_ADDR_MASK) + h"

text \<open>Flags that touch neither the address bits nor the huge bit.\<close>

definition flags_ok :: "u32 \<Rightarrow> bool" where
  "flags_ok flags \<longleftrightarrow> unat flags < 4096 \<and> \<not> bit flags 7"

lemma bit_PTE_PRESENT: "bit PTE_PRESENT i \<longleftrightarrow> i = 0"
  by (simp add: PTE_PRESENT_def bit_1_iff)

lemma small_bits:
  assumes "unat (w :: u32) < 4096" and "bit w i"
  shows "i < 12"
proof (rule ccontr)
  assume "\<not> i < 12"
  have "w = take_bit 12 w"
  proof (rule word_unat_eq_iff [THEN iffD2])
    show "unat w = unat (take_bit 12 w)" using assms(1) by (simp add: unsigned_take_bit_eq take_bit_nat_eq_self)
  qed
  then have "bit (take_bit 12 w) i" using assms(2) by simp
  then show False using \<open>\<not> i < 12\<close> by (simp add: bit_take_bit_iff)
qed

lemma PAGE_ADDR_MASK_bits: "bit PAGE_ADDR_MASK i \<longleftrightarrow> 12 \<le> i \<and> i < 62"
proof -
  have "PAGE_ADDR_MASK = push_bit 12 (mask 50)" by (simp add: PAGE_ADDR_MASK_def push_bit_eq_mult mask_eq_exp_minus_1)
  then have "bit PAGE_ADDR_MASK i = bit (push_bit 12 (mask 50) :: u64) i" by (simp only:)
  then show ?thesis by (auto simp: bit_simps)
qed

lemma scast_flags_bit:
  assumes "flags_ok flags"
  shows "bit (scast (flags OR PTE_PRESENT) :: u64) i \<longleftrightarrow> (i = 0 \<or> bit flags i)"
proof -
  have no: "\<not> bit (flags OR PTE_PRESENT) j" if "12 \<le> j" for j
    using small_bits [of flags j] assms that by (auto simp: flags_ok_def bit_or_iff bit_PTE_PRESENT)
  show ?thesis
  proof (cases "i < 12")
    case True
    then show ?thesis by (auto simp: bit_simps bit_PTE_PRESENT min_def)
  next
    case False
    then have "\<not> bit flags i" using small_bits [of flags i] assms by (auto simp: flags_ok_def)
    then show ?thesis using False no by (auto simp: bit_simps bit_PTE_PRESENT min_def)
  qed
qed

lemma PTE_table:
  assumes "flags_ok flags" and "unat a mod 4096 = 0" and "unat a < 2 ^ 62"
  shows "is_table (PTE a flags)" and "PTE a flags AND PAGE_ADDR_MASK = a"
proof -
  have "bit (PTE a flags) 0"
    using scast_flags_bit [OF assms(1), of 0] by (simp add: PTE_def bit_or_iff bit_and_iff)
  then have "PTE a flags \<noteq> 0" by auto
  moreover have "\<not> bit (PTE a flags) 7"
    using scast_flags_bit [OF assms(1), of 7] assms(1)
    by (simp add: PTE_def bit_or_iff bit_and_iff PAGE_ADDR_MASK_bits flags_ok_def)
  ultimately show "is_table (PTE a flags)" by (simp add: is_table_def)
  have lo: "\<not> bit a i" if "i < 12" for i
  proof -
    have "take_bit 12 (unat a) = 0" using assms(2) by (simp add: take_bit_eq_mod)
    then have "\<not> bit (take_bit 12 (unat a)) i" by simp
    then show ?thesis using that by (simp add: bit_take_bit_iff bit_unsigned_iff)
  qed
  have hi: "\<not> bit a i" if "62 \<le> i" for i
  proof -
    have "take_bit 62 (unat a) = unat a" using assms(3) by (rule take_bit_nat_eq_self)
    then have "\<not> bit (unat a) i" using that bit_take_bit_iff [of 62 "unat a" i] by auto
    then show ?thesis by (auto simp: bit_unsigned_iff dest: bit_imp_le_length)
  qed
  show "PTE a flags AND PAGE_ADDR_MASK = a"
  proof (rule bit_word_eqI)
    fix i assume "i < LENGTH(64)"
    have "bit flags i \<Longrightarrow> i < 12" using small_bits assms(1) by (auto simp: flags_ok_def)
    moreover have "bit a i \<Longrightarrow> 12 \<le> i \<and> i < 62" using lo [of i] hi [of i] by (meson not_less)
    ultimately show "bit (PTE a flags AND PAGE_ADDR_MASK) i = bit a i"
      using scast_flags_bit [OF assms(1), of i]
      by (auto simp: PTE_def bit_or_iff bit_and_iff PAGE_ADDR_MASK_bits)
  qed
qed

subsection \<open>The tree of tables\<close>

abbreviation slotOf :: "u64 \<Rightarrow> nat \<Rightarrow> u64" where
  "slotOf t i \<equiv> t + of_nat (8 * i)"

fun tab :: "mem \<Rightarrow> u64 \<Rightarrow> u64 \<Rightarrow> nat list \<Rightarrow> u64 option" where
  "tab m h t [] = Some t"
| "tab m h t (i # p) =
     (let e = load64 m (slotOf t i) in if is_table e then tab m h (entTable h e) p else None)"

text \<open>The entry at index \<open>i\<close> of the table at path \<open>p\<close>; 0 when there is no such table.\<close>

definition ent :: "mem \<Rightarrow> u64 \<Rightarrow> u64 \<Rightarrow> nat list \<Rightarrow> nat \<Rightarrow> u64" where
  "ent m h root p i = (case tab m h root p of None \<Rightarrow> 0 | Some t \<Rightarrow> load64 m (slotOf t i))"

definition path_ok :: "nat list \<Rightarrow> bool" where
  "path_ok p \<longleftrightarrow> length p \<le> 3 \<and> (\<forall>i \<in> set p. i < 512)"

lemma tab_snoc:
  "tab m h t (p @ [i]) =
     (if is_table (ent m h t p i) then Some (entTable h (ent m h t p i)) else None)"
proof (induction p arbitrary: t)
  case (Cons j p)
  then show ?case by (simp add: ent_def Let_def) (simp add: is_table_def)
qed (simp add: ent_def Let_def)

lemma tab_append: "tab m h t (p @ q) = (case tab m h t p of None \<Rightarrow> None | Some u \<Rightarrow> tab m h u q)"
  by (induction p arbitrary: t) (simp_all add: Let_def)

lemma path_ok_snoc: "path_ok (p @ [i]) \<longleftrightarrow> length p < 3 \<and> i < 512 \<and> (\<forall>j \<in> set p. j < 512)"
  by (auto simp: path_ok_def)

lemma path_ok_prefix: "path_ok (p @ q) \<Longrightarrow> path_ok p"
  by (auto simp: path_ok_def)

definition vm_tree :: "'a pmm_state_scheme \<Rightarrow> u64 \<Rightarrow> bool" where
  "vm_tree k root \<longleftrightarrow>
     (\<forall>p t. path_ok p \<and> tab (mem k) (hhdm k) root p = Some t \<longrightarrow>
        t \<noteq> 0 \<and> unat t + 4096 \<le> 2 ^ 64 \<and> held k (rng t 4096))
     \<and> (\<forall>p q t u. path_ok p \<and> path_ok q \<and> p \<noteq> q \<and> tab (mem k) (hhdm k) root p = Some t
        \<and> tab (mem k) (hhdm k) root q = Some u \<longrightarrow> rng t 4096 \<inter> rng u 4096 = {})"

definition vm_core :: "'a vmm_state_scheme \<Rightarrow> bool" where
  "vm_core k \<longleftrightarrow> pmm_inv k \<and> window_ok k \<and> pgCount k \<le> 2 ^ 50 \<and> vm_tree k (p4 k)"

definition vm_inv :: "'a vmm_state_scheme \<Rightarrow> bool" where
  "vm_inv k \<longleftrightarrow> vm_core k \<and> \<not> walkSpinlock k"

text \<open>Table and entry at a path, in a state.\<close>

abbreviation tabOf :: "'a vmm_state_scheme \<Rightarrow> nat list \<Rightarrow> u64 option" where
  "tabOf k \<equiv> tab (mem k) (hhdm k) (p4 k)"

abbreviation entOf :: "'a vmm_state_scheme \<Rightarrow> nat list \<Rightarrow> nat \<Rightarrow> u64" where
  "entOf k \<equiv> ent (mem k) (hhdm k) (p4 k)"

lemma vm_coreD:
  assumes "vm_core k"
  shows "pmm_inv k" and "window_ok k" and "pgCount k \<le> 2 ^ 50"
    and "path_ok p \<Longrightarrow> tabOf k p = Some t \<Longrightarrow> t \<noteq> 0 \<and> unat t + 4096 \<le> 2 ^ 64 \<and> held k (rng t 4096)"
    and "path_ok p \<Longrightarrow> path_ok q \<Longrightarrow> p \<noteq> q \<Longrightarrow> tabOf k p = Some t \<Longrightarrow> tabOf k q = Some u \<Longrightarrow>
      rng t 4096 \<inter> rng u 4096 = {}"
  using assms unfolding vm_core_def vm_tree_def by blast+

lemma slotOf_rng: "i < 512 \<Longrightarrow> rng (slotOf t i) 8 \<subseteq> rng t 4096"
proof (rule rng_sub)
  assume "i < 512"
  then have "unat (of_nat (8 * i) :: u64) = 8 * i" by (intro unat_of_nat64) simp
  then show "unat (of_nat (8 * i) :: u64) + 8 \<le> 4096" using \<open>i < 512\<close> by simp
qed

lemma slotOf_apart:
  assumes "i \<noteq> j" and "i < 512" and "j < 512"
  shows "apart (slotOf t i) 8 (slotOf t j) 8"
proof -
  have u: "unat (of_nat (8 * i) :: u64) = 8 * i" "unat (of_nat (8 * j) :: u64) = 8 * j"
    using assms(2,3) by (intro unat_of_nat64; simp)+
  show ?thesis
  proof (cases "i < j")
    case True
    then show ?thesis using u assms(3) by (intro apart_base) simp_all
  next
    case False
    then show ?thesis using u assms by (intro apart_sym [OF apart_base]) simp_all
  qed
qed

lemma slotOf_entAddr: "entAddr t (of_nat i) = slotOf t i"
  by (simp add: entAddr_def)

text \<open>Writes outside all tables change no table and no entry.\<close>

lemma tab_frame:
  assumes out: "same_outside A m m'"
    and off: "\<And>q t. path_ok q \<Longrightarrow> tab m h root q = Some t \<Longrightarrow> rng t 4096 \<inter> A = {}"
    and p: "path_ok p"
  shows "tab m' h root p = tab m h root p" and "i < 512 \<Longrightarrow> ent m' h root p i = ent m h root p i"
proof -
  have ent_eq: "ent m' h root q i = ent m h root q i"
    if q: "path_ok q" "tab m' h root q = tab m h root q" "i < 512" for q i
  proof (cases "tab m h root q")
    case (Some t)
    then have "rng (slotOf t i) 8 \<inter> A = {}" using off [OF q(1) Some] slotOf_rng [OF q(3)] by blast
    then show ?thesis using q(2) Some load_same_outside [OF out] by (simp add: ent_def)
  qed (use q in \<open>simp add: ent_def\<close>)
  show t: "tab m' h root p = tab m h root p"
    using p
  proof (induction p rule: rev_induct)
    case (snoc i p)
    then have "path_ok p" "i < 512" by (auto simp: path_ok_def)
    with snoc.IH ent_eq [of p i] show ?case by (simp add: tab_snoc)
  qed simp
  show "i < 512 \<Longrightarrow> ent m' h root p i = ent m h root p i" using ent_eq [OF p t] .
qed

text \<open>A store into one entry of one table: the paths that do not go through it stay.\<close>

abbreviation through :: "nat list \<Rightarrow> nat \<Rightarrow> nat list \<Rightarrow> bool" where
  "through p i q \<equiv> \<exists>r. q = p @ i # r"

lemma tab_store:
  assumes core: "vm_core k" and p: "path_ok p" "tabOf k p = Some t" "i < 512"
    and m': "m' = store64 (mem k) (slotOf t i) e"
  shows "path_ok q \<Longrightarrow> \<not> through p i q \<Longrightarrow> tab m' (hhdm k) (p4 k) q = tabOf k q"
    and "path_ok q \<Longrightarrow> \<not> through p i q \<Longrightarrow> j < 512 \<Longrightarrow>
      ent m' (hhdm k) (p4 k) q j = (if q = p \<and> j = i then e else entOf k q j)"
proof -
  have ent_eq: "ent m' (hhdm k) (p4 k) q j = (if q = p \<and> j = i then e else entOf k q j)"
    if q: "path_ok q" "tab m' (hhdm k) (p4 k) q = tabOf k q" "j < 512" for q j
  proof (cases "tabOf k q")
    case (Some u)
    show ?thesis
    proof (cases "q = p")
      case True
      then have "u = t" using Some p(2) by simp
      then show ?thesis
        using True Some q p(2) slotOf_apart [of i j t] p(3)
        by (auto simp: ent_def m' load_store_apart simp del: of_nat_mult)
    next
      case False
      then have "rng u 4096 \<inter> rng t 4096 = {}" using vm_coreD(5) [OF core q(1) p(1) _ Some p(2)] by blast
      then have "rng (slotOf u j) 8 \<inter> rng (slotOf t i) 8 = {}"
        using slotOf_rng [OF q(3)] slotOf_rng [OF p(3)] by blast
      then have "load64 m' (slotOf u j) = load64 (mem k) (slotOf u j)"
        unfolding m' by (rule load_same_outside [OF store_same_outside])
      then show ?thesis using False Some q(2) by (auto simp: ent_def)
    qed
  next
    case None
    then show ?thesis using q(2) p(2) by (auto simp: ent_def)
  qed
  have tab_eq: "tab m' (hhdm k) (p4 k) q = tabOf k q" if "path_ok q" "\<not> through p i q" for q
    using that
  proof (induction q rule: rev_induct)
    case (snoc j q)
    have ok: "path_ok q" "j < 512" using snoc.prems(1) by (auto simp: path_ok_def)
    have "\<not> through p i q" and ne: "\<not> (q = p \<and> j = i)" using snoc.prems(2) by auto
    with snoc.IH ok(1) have "tab m' (hhdm k) (p4 k) q = tabOf k q" by blast
    from ent_eq [OF ok(1) this ok(2)] ne show ?case by (simp add: tab_snoc)
  qed simp
  show "path_ok q \<Longrightarrow> \<not> through p i q \<Longrightarrow> tab m' (hhdm k) (p4 k) q = tabOf k q" by (rule tab_eq)
  show "path_ok q \<Longrightarrow> \<not> through p i q \<Longrightarrow> j < 512 \<Longrightarrow>
      ent m' (hhdm k) (p4 k) q j = (if q = p \<and> j = i then e else entOf k q j)"
    using ent_eq tab_eq by blast
qed

lemma vm_mem_update:
  "k' = k\<lparr>mem := m\<rparr> \<Longrightarrow> pmmBitmap k' = pmmBitmap k \<and> hhdm k' = hhdm k \<and> p4 k' = p4 k
      \<and> walkSpinlock k' = walkSpinlock k \<and> cr3 k' = cr3 k \<and> invalidated k' = invalidated k \<and> mem k' = m"
  by simp

text \<open>
  Filling an empty entry with a fresh table. The new table is empty, so the entries of all
  tables are as before, but for the one filled.
\<close>

lemma fill_entry:
  assumes core: "vm_core k" and p: "path_ok (p @ [i])" "tabOf k p = Some t" and e0: "entOf k p i = 0"
    and fl: "flags_ok flags" and al: "pmmZeroAlloc 1 k = Inr (a, k1)"
    and k2: "k2 = k1\<lparr>mem := store64 (mem k1) (slotOf t i) (PTE a flags)\<rparr>"
  shows "vm_core k2" and "tabOf k2 (p @ [i]) = Some (a + hhdm k)" and "k2 = k\<lparr>mem := mem k2\<rparr>"
    and "is_table (PTE a flags)"
    and "path_ok q \<Longrightarrow> j < 512 \<Longrightarrow> entOf k2 q j = (if q = p \<and> j = i then PTE a flags else entOf k q j)"
    and "freePages k2 = freePages k1"
proof -
  define s where "s = a + hhdm k"
  note c = vm_coreD [OF core]
  have pi: "path_ok p" "i < 512" using p(1) by (auto simp: path_ok_def)
  note z = zero_page [OF c(1,2) al s_def]
  note e1 = vm_mem_update [OF z(3)]
  show u2: "k2 = k\<lparr>mem := mem k2\<rparr>" unfolding k2 by (subst z(3)) simp
  note e2 = vm_mem_update [OF u2]
  have a62: "unat a < 2 ^ 62" using z(11) mult_le_mono1 [OF c(3), of 4096] by simp
  note pt = PTE_table [OF fl z(10) a62]
  show "is_table (PTE a flags)" by (rule pt(1))
  have oldtab: "rng u 4096 \<inter> rng s 4096 = {}" "held k1 (rng u 4096)"
    if "path_ok q" "tabOf k q = Some u" for q u
    using z(9) c(4) [OF that] by blast+
  \<comment> \<open>the allocation changes no table\<close>
  have off: "rng u 4096 \<inter> (bm_rng (pmmBitmap k) \<union> rng s 4096) = {}"
    if "path_ok q" "tabOf k q = Some u" for q u
    using oldtab(1) [OF that] c(4) [OF that] by (auto simp: held_def)
  have t1: "tabOf k1 q = tabOf k q" "j < 512 \<Longrightarrow> entOf k1 q j = entOf k q j" if "path_ok q" for q j
    using tab_frame [OF z(4) off that] e1 by auto
  have core1: "vm_core k1"
  proof -
    have tr: "path_ok q \<Longrightarrow> tab (mem k1) (hhdm k1) (p4 k1) q = tabOf k q" for q
      using t1(1) by simp
    have "vm_tree k1 (p4 k1)" unfolding vm_tree_def
    proof (intro conjI allI impI)
      fix q u assume "path_ok q \<and> tab (mem k1) (hhdm k1) (p4 k1) q = Some u"
      then have "path_ok q" "tabOf k q = Some u" using tr by auto
      then show "u \<noteq> 0" "unat u + 4096 \<le> 2 ^ 64" "held k1 (rng u 4096)"
        using c(4) oldtab(2) by blast+
    next
      fix q r u v assume "path_ok q \<and> path_ok r \<and> q \<noteq> r \<and> tab (mem k1) (hhdm k1) (p4 k1) q = Some u
        \<and> tab (mem k1) (hhdm k1) (p4 k1) r = Some v"
      then have "path_ok q" "path_ok r" "q \<noteq> r" "tabOf k q = Some u" "tabOf k r = Some v"
        using tr by auto
      then show "rng u 4096 \<inter> rng v 4096 = {}" by (rule c(5))
    qed
    then show ?thesis using z(1,2) c(3) e1 by (simp add: vm_core_def)
  qed
  \<comment> \<open>the store changes the one entry\<close>
  have p1: "tabOf k1 p = Some t" using t1(1) [OF pi(1)] p(2) by simp
  note st = tab_store [OF core1 pi(1) p1 pi(2), of "mem k2" "PTE a flags"]
  have m2: "mem k2 = store64 (mem k1) (slotOf t i) (PTE a flags)" by (simp add: k2)
  have sel: "hhdm k1 = hhdm k" "p4 k1 = p4 k" "hhdm k2 = hhdm k" "p4 k2 = p4 k" using e1 e2 by auto
  have np: "\<not> through p i p" by simp
  have ep: "entOf k2 p i = PTE a flags"
    using st(2) [OF m2 pi(1) np pi(2)] sel by simp
  show new: "tabOf k2 (p @ [i]) = Some (a + hhdm k)"
    using tab_snoc [of "mem k2" "hhdm k2" "p4 k2" p i] ep pt sel by simp
  have tz: "load64 (mem k2) (slotOf s j) = 0" if "j < 512" for j
  proof -
    have "rng t 4096 \<inter> rng s 4096 = {}" by (rule oldtab(1) [OF pi(1) p(2)])
    then have "rng (slotOf s j) 8 \<inter> rng (slotOf t i) 8 = {}"
      using slotOf_rng [OF that, of s] slotOf_rng [OF pi(2), of t] by blast
    then have "load64 (mem k2) (slotOf s j) = load64 (mem k1) (slotOf s j)"
      unfolding m2 by (rule load_same_outside [OF store_same_outside])
    moreover have "load64 (mem k1) (slotOf s j) = 0"
      by (rule load_zero) (use z(6) slotOf_rng [OF that, of s] in blast)
    ultimately show ?thesis by simp
  qed
  have deep: "tabOf k2 (p @ i # j # r) = None" if "path_ok (p @ i # j # r)" for j r
  proof -
    have "j < 512" using that by (auto simp: path_ok_def)
    then have "tab (mem k2) (hhdm k2) s (j # r) = None" using tz by (simp add: Let_def is_table_def)
    then show ?thesis
      using new tab_append [of "mem k2" "hhdm k2" "p4 k2" "p @ [i]" "j # r"] by (simp add: s_def)
  qed
  have old_deep: "tabOf k (p @ i # r) = None" for r
  proof -
    have "tabOf k (p @ [i]) = None" using e0 by (simp add: tab_snoc is_table_def)
    then show ?thesis using tab_append [of "mem k" "hhdm k" "p4 k" "p @ [i]" r] by simp
  qed
  show ents: "entOf k2 q j = (if q = p \<and> j = i then PTE a flags else entOf k q j)"
    if q: "path_ok q" "j < 512" for q j
  proof (cases "through p i q")
    case False
    then show ?thesis using st(2) [OF m2 q(1) False q(2)] t1(2) [OF q] sel by simp
  next
    case True
    then obtain r where r: "q = p @ i # r" by blast
    then have "entOf k q j = 0" using old_deep by (simp add: ent_def)
    moreover have "entOf k2 q j = 0"
    proof (cases r)
      case Nil
      then show ?thesis using new tz [OF q(2)] r by (simp add: ent_def s_def)
    next
      case (Cons x y)
      then show ?thesis using deep q(1) r by (simp add: ent_def)
    qed
    ultimately show ?thesis using r by simp
  qed
  have tabs2: "tabOf k2 q = (if q = p @ [i] then Some s else tabOf k q)" if q: "path_ok q" for q
  proof (cases "through p i q")
    case False
    then show ?thesis using st(1) [OF m2 q False] t1(1) [OF q] sel by auto
  next
    case True
    then obtain r where r: "q = p @ i # r" by blast
    then show ?thesis using new deep q old_deep by (cases r) (simp_all add: s_def)
  qed
  have w: "same_outside (rng t 4096) (mem k1) (mem k2)"
    unfolding m2 by (rule store_same_outside' [OF slotOf_rng [OF pi(2)]])
  have k2e: "k1\<lparr>mem := mem k2\<rparr> = k2" by (simp add: k2)
  note hw = held_write [OF z(1) oldtab(2) [OF pi(1) p(2)] w, unfolded k2e]
  show "freePages k2 = freePages k1"
    using freePages_held_write [OF z(1) oldtab(2) [OF pi(1) p(2)] w, unfolded k2e] .
  have "vm_tree k2 (p4 k2)" unfolding vm_tree_def
  proof (intro conjI allI impI)
    fix q u assume qu: "path_ok q \<and> tab (mem k2) (hhdm k2) (p4 k2) q = Some u"
    then have "(q = p @ [i] \<and> u = s) \<or> tabOf k q = Some u" using tabs2 [of q] by (auto split: if_splits)
    then show "u \<noteq> 0" "unat u + 4096 \<le> 2 ^ 64" "held k2 (rng u 4096)"
      using z(5,7,8) c(4) oldtab(2) hw(2) qu by blast+
  next
    fix q r u v assume qr: "path_ok q \<and> path_ok r \<and> q \<noteq> r \<and> tab (mem k2) (hhdm k2) (p4 k2) q = Some u
        \<and> tab (mem k2) (hhdm k2) (p4 k2) r = Some v"
    then have "(q = p @ [i] \<and> u = s) \<or> (q \<noteq> p @ [i] \<and> tabOf k q = Some u)"
      "(r = p @ [i] \<and> v = s) \<or> (r \<noteq> p @ [i] \<and> tabOf k r = Some v)"
      using tabs2 by (auto split: if_splits)
    then show "rng u 4096 \<inter> rng v 4096 = {}"
      using qr oldtab(1) [of q u] oldtab(1) [of r v] c(5) [of q r u v] by (elim disjE) auto
  qed
  moreover have "window_ok k2" using z(2) e1 e2 by (simp add: window_ok_def)
  ultimately show "vm_core k2" using hw(1) c(3) e2 by (simp add: vm_core_def)
qed

subsection \<open>The walk\<close>

definition idx :: "u64 \<Rightarrow> nat list" where
  "idx virt = [unat (P4 virt), unat (P3 virt), unat (P2 virt)]"

definition idx1 :: "u64 \<Rightarrow> nat" where
  "idx1 virt = unat (P1 virt)"

lemma nine_bits: "unat (w AND 0x1FF :: u64) < 512"
proof -
  have "w AND 0x1FF = take_bit 9 w" by (simp add: take_bit_eq_mask mask_eq_exp_minus_1)
  moreover have "unat (take_bit 9 w) < 2 ^ 9"
    using take_bit_nat_less_exp [of 9 "unat w"] by (simp add: unsigned_take_bit_eq)
  ultimately show ?thesis by simp
qed

lemma P_bounds: "unat (P4 v) < 512" "unat (P3 v) < 512" "unat (P2 v) < 512" "unat (P1 v) < 512"
  by (simp_all add: P4_def P3_def P2_def P1_def nine_bits)

lemma idx_ok: "path_ok (idx v)" "length (idx v) = 3" "idx1 v < 512"
  by (simp_all add: idx_def idx1_def path_ok_def P_bounds)

lemma idx_prefix_ok: "path_ok ([] @ [unat (P4 v)])" "path_ok ([unat (P4 v)] @ [unat (P3 v)])"
    "path_ok ([unat (P4 v), unat (P3 v)] @ [unat (P2 v)])"
  by (simp_all add: path_ok_def P_bounds)

text \<open>No huge page on the way: each of the three entries is 0 or leads to a table.\<close>

definition clearEnt :: "u64 \<Rightarrow> bool" where
  "clearEnt e \<longleftrightarrow> e = 0 \<or> is_table e"

definition clear :: "'a vmm_state_scheme \<Rightarrow> u64 \<Rightarrow> bool" where
  "clear k v \<longleftrightarrow> clearEnt (entOf k [] (unat (P4 v))) \<and> clearEnt (entOf k [unat (P4 v)] (unat (P3 v)))
     \<and> clearEnt (entOf k [unat (P4 v), unat (P3 v)] (unat (P2 v)))"

text \<open>What adding tables does: empty entries above the last level may now lead to tables.\<close>

definition extends :: "'a vmm_state_scheme \<Rightarrow> 'a vmm_state_scheme \<Rightarrow> bool" where
  "extends k k' \<longleftrightarrow> vm_core k' \<and> k' = k\<lparr>mem := mem k'\<rparr>
     \<and> (\<forall>q j. path_ok q \<longrightarrow> j < 512 \<longrightarrow> entOf k' q j = entOf k q j
          \<or> (length q < 3 \<and> entOf k q j = 0 \<and> is_table (entOf k' q j)))"

lemma extendsD:
  assumes "extends k k'" and "path_ok q" and "j < 512"
  shows "entOf k' q j = entOf k q j \<or> (length q < 3 \<and> entOf k q j = 0 \<and> is_table (entOf k' q j))"
  using assms by (simp add: extends_def)

lemma extends_refl: "vm_core k \<Longrightarrow> extends k k"
  by (simp add: extends_def)

lemma is_table_0 [simp]: "\<not> is_table 0"
  by (simp add: is_table_def)

lemma extends_trans:
  assumes "extends k k1" and "extends k1 k2"
  shows "extends k k2"
  unfolding extends_def
proof (intro conjI allI impI)
  show "vm_core k2" using assms(2) by (simp add: extends_def)
  have "k1 = k\<lparr>mem := mem k1\<rparr>" "k2 = k1\<lparr>mem := mem k2\<rparr>" using assms by (simp_all add: extends_def)
  then have "k2 = k\<lparr>mem := mem k1\<rparr>\<lparr>mem := mem k2\<rparr>" by metis
  then show "k2 = k\<lparr>mem := mem k2\<rparr>" by simp
  show "entOf k2 q j = entOf k q j \<or> (length q < 3 \<and> entOf k q j = 0 \<and> is_table (entOf k2 q j))"
    if "path_ok q" "j < 512" for q j
    using extendsD [OF assms(1) that] extendsD [OF assms(2) that] by auto
qed

lemma extends_clear: "extends k k' \<Longrightarrow> path_ok q \<Longrightarrow> j < 512 \<Longrightarrow> clearEnt (entOf k q j) \<Longrightarrow> clearEnt (entOf k' q j)"
  using extendsD [of k k' q j] by (auto simp: clearEnt_def)

lemma extends_table:
  "extends k k' \<Longrightarrow> path_ok q \<Longrightarrow> j < 512 \<Longrightarrow> is_table (entOf k q j) \<Longrightarrow> entOf k' q j = entOf k q j"
  using extendsD [of k k' q j] by (auto simp: is_table_def)

lemma level_alloc:
  assumes core: "vm_core k" and p: "path_ok (p @ [unat w])" "tabOf k p = Some t"
    and cl: "clearEnt (entOf k p (unat w))" and fl: "flags_ok flags"
  shows "(vmmLevel True flags t w k = Inl (PanicMsg ''OUT OF MEMORY'') \<and> entOf k p (unat w) = 0 \<and> freePages k = 0)
    \<or> (\<exists>t' k'. vmmLevel True flags t w k = Inr (t', k') \<and> extends k k' \<and> tabOf k' (p @ [unat w]) = Some t'
          \<and> freePages k \<le> Suc (freePages k'))"
proof -
  let ?i = "unat w"
  have pi: "path_ok p" "length p < 3" "?i < 512" using p(1) by (auto simp: path_ok_def)
  have t0: "t \<noteq> 0" using vm_coreD(4) [OF core pi(1) p(2)] by simp
  have ea: "entAddr t w = slotOf t ?i" by (simp add: entAddr_def)
  have e: "entOf k p ?i = load64 (mem k) (slotOf t ?i)" using p(2) by (simp add: ent_def)
  show ?thesis
  proof (cases "entOf k p ?i = 0")
    case False
    then have it: "is_table (entOf k p ?i)" using cl by (simp add: clearEnt_def)
    have "vmmLevel True flags t w k = Inr (entTable (hhdm k) (entOf k p ?i), k)"
      using t0 False by (simp add: vmmLevel_def ea e vmmGetPageTable_def vmmPhysToVirt_def)
    moreover have "tabOf k (p @ [?i]) = Some (entTable (hhdm k) (entOf k p ?i))" using it by (simp add: tab_snoc)
    ultimately show ?thesis using extends_refl [OF core] by auto
  next
    case True
    show ?thesis
    proof (cases "pmmZeroAlloc 1 k")
      case (Inl x)
      then have "x = PanicMsg ''OUT OF MEMORY''" "freePages k = 0"
        using zero_page_cases [OF vm_coreD(1,2) [OF core]] by (auto simp: freePages_pos split: if_splits)
      then show ?thesis using Inl True t0 by (simp add: vmmLevel_def ea e)
    next
      case (Inr r)
      obtain a k1 where r: "r = (a, k1)" by (cases r)
      define k2 where "k2 = k1\<lparr>mem := store64 (mem k1) (slotOf t ?i) (PTE a flags)\<rparr>"
      note f = fill_entry [OF core p True fl Inr [unfolded r] k2_def]
      have lev: "vmmLevel True flags t w k = Inr (vmmGetPageTable (load64 (mem k2) (slotOf t ?i)) k2, k2)"
        using t0 True Inr r by (simp add: vmmLevel_def ea e k2_def)
      have "load64 (mem k2) (slotOf t ?i) = PTE a flags" by (simp add: k2_def)
      moreover have "PTE a flags \<noteq> 0" using f(4) by (auto simp: is_table_def)
      moreover have "entTable (hhdm k2) (PTE a flags) = a + hhdm k"
      proof -
        have "entOf k2 p ?i = PTE a flags" using f(5) [OF pi(1,3)] by simp
        then show ?thesis using f(2,4) by (simp add: tab_snoc)
      qed
      ultimately have "vmmLevel True flags t w k = Inr (a + hhdm k, k2)"
        using lev by (simp add: vmmGetPageTable_def vmmPhysToVirt_def)
      moreover have "extends k k2"
        using f(1,3,4,5) True pi(2) unfolding extends_def by auto
      moreover have "freePages k \<le> Suc (freePages k2)"
        using freePages_zero_alloc [OF vm_coreD(1) [OF core] Inr [unfolded r]] f(6) by simp
      ultimately show ?thesis using f(2) by blast
    qed
  qed
qed

lemma level_table:
  assumes core: "vm_core k" and p: "path_ok (p @ [unat w])" "tabOf k p = Some t"
    and it: "is_table (entOf k p (unat w))"
  shows "vmmLevel alloc flags t w k = Inr (entTable (hhdm k) (entOf k p (unat w)), k)
    \<and> tabOf k (p @ [unat w]) = Some (entTable (hhdm k) (entOf k p (unat w)))"
proof -
  have "path_ok p" using p(1) by (auto simp: path_ok_def)
  then have t0: "t \<noteq> 0" using vm_coreD(4) [OF core _ p(2)] by simp
  have ea: "entAddr t w = slotOf t (unat w)" by (simp add: entAddr_def)
  have "entOf k p (unat w) = load64 (mem k) (slotOf t (unat w))" using p(2) by (simp add: ent_def)
  then show ?thesis
    using it t0 by (simp add: vmmLevel_def ea vmmGetPageTable_def vmmPhysToVirt_def is_table_def tab_snoc)
qed

lemma level_missing:
  assumes core: "vm_core k" and p: "path_ok (p @ [unat w])" "tabOf k p = Some t"
    and e: "entOf k p (unat w) = 0"
  shows "vmmLevel False flags t w k = Inr (0, k)"
proof -
  have "path_ok p" using p(1) by (auto simp: path_ok_def)
  then have t0: "t \<noteq> 0" using vm_coreD(4) [OF core _ p(2)] by simp
  have ea: "entAddr t w = slotOf t (unat w)" by (simp add: entAddr_def)
  have "entOf k p (unat w) = load64 (mem k) (slotOf t (unat w))" using p(2) by (simp add: ent_def)
  then show ?thesis using e t0 by (simp add: vmmLevel_def ea vmmGetPageTable_def)
qed

lemma lock_simps [simp]:
  "vm_core (k\<lparr>walkSpinlock := l\<rparr>) = vm_core k"
  by (simp add: vm_core_def pmm_inv_def window_ok_def vm_tree_def held_def phys_rng_def vmmPhysToVirt_def)

lemma vm_lock: "\<not> walkSpinlock k \<Longrightarrow> k\<lparr>walkSpinlock := False\<rparr> = k"
  by (cases k) simp

lemma walk_alloc:
  assumes inv: "vm_inv k" and cl: "clear k v" and fl: "flags_ok flags"
  shows "(vmmWalk v True flags k = Inl (PanicMsg ''OUT OF MEMORY'') \<and> tabOf k (idx v) = None \<and> freePages k < 3)
    \<or> (\<exists>t k'. vmmWalk v True flags k = Inr (t, k') \<and> extends k k' \<and> tabOf k' (idx v) = Some t)"
proof -
  define kl where "kl = k\<lparr>walkSpinlock := True\<rparr>"
  have core: "vm_core kl" and un: "\<not> walkSpinlock k" using inv by (simp_all add: vm_inv_def kl_def)
  have sel: "mem kl = mem k" "hhdm kl = hhdm k" "p4 kl = p4 k" "freePages kl = freePages k"
    by (simp_all add: kl_def freePages_def)
  note ok = idx_prefix_ok [of v]
  have root: "tabOf kl [] = Some (p4 k)" by (simp add: sel)
  have cl0: "clearEnt (entOf kl [] (unat (P4 v)))" using cl by (simp add: clear_def sel)
  have miss: "tabOf k (idx v) = None" if "\<not> (is_table (entOf k [] (unat (P4 v)))
      \<and> is_table (entOf k [unat (P4 v)] (unat (P3 v)))
      \<and> is_table (entOf k [unat (P4 v), unat (P3 v)] (unat (P2 v))))"
  proof -
    have i: "idx v = ([unat (P4 v), unat (P3 v)]) @ [unat (P2 v)]" by (simp add: idx_def)
    have 1: "entOf k [a] j = 0" if "\<not> is_table (entOf k [] a)" for a j
      using that by (simp add: ent_def Let_def)
    have 2: "entOf k [a, b] j = 0" if "\<not> is_table (entOf k [a] b)" for a b j
      using that tab_snoc [of "mem k" "hhdm k" "p4 k" "[a]" b] by (simp add: ent_def [of _ _ _ "[a, b]"])
    have "\<not> is_table (entOf k [unat (P4 v), unat (P3 v)] (unat (P2 v)))"
    proof
      assume t: "is_table (entOf k [unat (P4 v), unat (P3 v)] (unat (P2 v)))"
      then have t3: "is_table (entOf k [unat (P4 v)] (unat (P3 v)))" using 2 is_table_0 by metis
      then have "is_table (entOf k [] (unat (P4 v)))" using 1 is_table_0 by metis
      then show False using that t t3 by blast
    qed
    then show ?thesis unfolding i tab_snoc by simp
  qed
  from level_alloc [OF core ok(1) root cl0 fl]
  show ?thesis
  proof (elim disjE exE conjE)
    assume "vmmLevel True flags (p4 k) (P4 v) kl = Inl (PanicMsg ''OUT OF MEMORY'')" "entOf kl [] (unat (P4 v)) = 0"
      "freePages kl = 0"
    then show ?thesis using un miss sel by (simp add: vmmWalk_def flip: kl_def)
  next
    fix t3 k3 assume l3: "vmmLevel True flags (p4 k) (P4 v) kl = Inr (t3, k3)" "extends kl k3"
      "tabOf k3 ([] @ [unat (P4 v)]) = Some t3" "freePages kl \<le> Suc (freePages k3)"
    have c3: "vm_core k3" using l3(2) by (simp add: extends_def)
    have cl3: "clearEnt (entOf k3 [unat (P4 v)] (unat (P3 v)))"
      by (rule extends_clear [OF l3(2)]) (use cl in \<open>simp_all add: clear_def sel path_ok_def P_bounds\<close>)
    have t3: "tabOf k3 [unat (P4 v)] = Some t3" using l3(3) by simp
    from level_alloc [OF c3 ok(2) t3 cl3 fl]
    show ?thesis
    proof (elim disjE exE conjE)
      assume "vmmLevel True flags t3 (P3 v) k3 = Inl (PanicMsg ''OUT OF MEMORY'')"
        "entOf k3 [unat (P4 v)] (unat (P3 v)) = 0" "freePages k3 = 0"
      moreover have "entOf k [unat (P4 v)] (unat (P3 v)) = 0"
        using extendsD [OF l3(2), of "[unat (P4 v)]" "unat (P3 v)"] calculation(2) sel
        by (simp add: path_ok_def P_bounds)
      moreover have "freePages k < 3" using l3(4) sel(4) calculation(3) by simp
      ultimately show ?thesis using un miss l3(1) by (simp add: vmmWalk_def flip: kl_def)
    next
      fix t2 k2 assume l2: "vmmLevel True flags t3 (P3 v) k3 = Inr (t2, k2)" "extends k3 k2"
        "tabOf k2 ([unat (P4 v)] @ [unat (P3 v)]) = Some t2" "freePages k3 \<le> Suc (freePages k2)"
      have c2: "vm_core k2" using l2(2) by (simp add: extends_def)
      have e2: "extends kl k2" by (rule extends_trans [OF l3(2) l2(2)])
      have cl2: "clearEnt (entOf k2 [unat (P4 v), unat (P3 v)] (unat (P2 v)))"
        by (rule extends_clear [OF e2]) (use cl in \<open>simp_all add: clear_def sel path_ok_def P_bounds\<close>)
      have t2: "tabOf k2 [unat (P4 v), unat (P3 v)] = Some t2" using l2(3) by simp
      from level_alloc [OF c2 ok(3) t2 cl2 fl]
      show ?thesis
      proof (elim disjE exE conjE)
        assume "vmmLevel True flags t2 (P2 v) k2 = Inl (PanicMsg ''OUT OF MEMORY'')"
          "entOf k2 [unat (P4 v), unat (P3 v)] (unat (P2 v)) = 0" "freePages k2 = 0"
        moreover have "entOf k [unat (P4 v), unat (P3 v)] (unat (P2 v)) = 0"
          using extendsD [OF e2, of "[unat (P4 v), unat (P3 v)]" "unat (P2 v)"] calculation(2) sel
          by (simp add: path_ok_def P_bounds)
        moreover have "freePages k < 3" using l3(4) l2(4) sel(4) calculation(3) by simp
        ultimately show ?thesis using un miss l3(1) l2(1) by (simp add: vmmWalk_def flip: kl_def)
      next
        fix t1 k1 assume l1: "vmmLevel True flags t2 (P2 v) k2 = Inr (t1, k1)" "extends k2 k1"
          "tabOf k1 ([unat (P4 v), unat (P3 v)] @ [unat (P2 v)]) = Some t1"
        have e1: "extends kl k1" by (rule extends_trans [OF e2 l1(2)])
        let ?k = "k1\<lparr>walkSpinlock := False\<rparr>"
        have run: "vmmWalk v True flags k = Inr (t1, ?k)"
          using un l3(1) l2(1) l1(1) by (simp add: vmmWalk_def flip: kl_def)
        have m1: "k1 = kl\<lparr>mem := mem k1\<rparr>" using e1 by (simp add: extends_def)
        have "?k = k\<lparr>walkSpinlock := False\<rparr>\<lparr>mem := mem k1\<rparr>" by (subst m1) (simp add: kl_def)
        then have k1: "?k = k\<lparr>mem := mem ?k\<rparr>" using vm_lock [OF un] by simp
        have "extends k ?k"
          unfolding extends_def
        proof (intro conjI allI impI)
          show "vm_core ?k" using e1 by (simp add: extends_def)
          show "?k = k\<lparr>mem := mem ?k\<rparr>" by (rule k1)
          show "entOf ?k q j = entOf k q j \<or> (length q < 3 \<and> entOf k q j = 0 \<and> is_table (entOf ?k q j))"
            if "path_ok q" "j < 512" for q j
            using extendsD [OF e1 that] by (simp add: sel)
        qed
        moreover have "tabOf ?k (idx v) = Some t1" using l1(3) by (simp add: idx_def del: tab.simps)
        ultimately show ?thesis using run by blast
      qed
    qed
  qed
qed

subsection \<open>Mapping and unmapping\<close>

text \<open>The leaf entries: the abstract address space.\<close>

definition leaf :: "'a vmm_state_scheme \<Rightarrow> nat list \<times> nat \<Rightarrow> u64" where
  "leaf k = (\<lambda>(p, i). entOf k p i)"

definition leaf_ok :: "nat list \<times> nat \<Rightarrow> bool" where
  "leaf_ok a \<longleftrightarrow> path_ok (fst a) \<and> length (fst a) = 3 \<and> snd a < 512"

definition leafOf :: "u64 \<Rightarrow> nat list \<times> nat" where
  "leafOf v = (idx v, idx1 v)"

lemma leafOf_ok: "leaf_ok (leafOf v)"
  by (simp add: leaf_ok_def leafOf_def idx_ok)

lemma leaf_store:
  fixes k :: "'a vmm_state_scheme" and e :: u64
  assumes core: "vm_core k" and t: "tabOf k p = Some t" and p: "path_ok p" "length p = 3" "i < 512"
  defines "k' \<equiv> k\<lparr>mem := store64 (mem k) (slotOf t i) e\<rparr>"
  shows "vm_core k'" and "path_ok q \<Longrightarrow> j < 512 \<Longrightarrow> entOf k' q j = (if q = p \<and> j = i then e else entOf k q j)"
    and "path_ok q \<Longrightarrow> tabOf k' q = tabOf k q"
proof -
  have nt: "\<not> through p i q" if "path_ok q" for q using that p(2) by (auto simp: path_ok_def)
  note st = tab_store [where e = e, OF core p(1) t p(3) refl]
  show ents: "entOf k' q j = (if q = p \<and> j = i then e else entOf k q j)" if "path_ok q" "j < 512" for q j
    using st(2) [OF that(1) nt [OF that(1)] that(2)] by (simp add: k'_def)
  show tabs: "tabOf k' q = tabOf k q" if "path_ok q" for q
    using st(1) [OF that nt [OF that]] by (simp add: k'_def)
  have h: "held k (rng t 4096)" using vm_coreD(4) [OF core p(1) t] by simp
  have "same_outside (rng t 4096) (mem k) (store64 (mem k) (slotOf t i) e)"
    by (rule store_same_outside' [OF slotOf_rng [OF p(3)]])
  note hw = held_write [OF vm_coreD(1) [OF core] h this, folded k'_def]
  have "vm_tree k' (p4 k')" unfolding vm_tree_def
  proof (intro conjI allI impI)
    fix q u assume "path_ok q \<and> tab (mem k') (hhdm k') (p4 k') q = Some u"
    then have "path_ok q" "tabOf k q = Some u" using tabs by auto
    then show "u \<noteq> 0" "unat u + 4096 \<le> 2 ^ 64" "held k' (rng u 4096)"
      using vm_coreD(4) [OF core] hw(2) by blast+
  next
    fix q r u v assume "path_ok q \<and> path_ok r \<and> q \<noteq> r \<and> tab (mem k') (hhdm k') (p4 k') q = Some u
        \<and> tab (mem k') (hhdm k') (p4 k') r = Some v"
    then have "path_ok q" "path_ok r" "q \<noteq> r" "tabOf k q = Some u" "tabOf k r = Some v" using tabs by auto
    then show "rng u 4096 \<inter> rng v 4096 = {}" by (rule vm_coreD(5) [OF core])
  qed
  moreover have "window_ok k'" "pgCount k' \<le> 2 ^ 50"
    using vm_coreD(2,3) [OF core] by (simp_all add: k'_def window_ok_def)
  ultimately show "vm_core k'" using hw(1) by (simp add: vm_core_def)
qed

lemma inval_simps [simp]:
  "vm_core (k\<lparr>invalidated := l\<rparr>) = vm_core k" "vm_inv (k\<lparr>invalidated := l\<rparr>) = vm_inv k"
  by (simp_all add: vm_inv_def vm_core_def pmm_inv_def window_ok_def vm_tree_def held_def phys_rng_def vmmPhysToVirt_def)

text \<open>What a successful \<open>vmmMap\<close> leaves.\<close>

definition map_result :: "'a vmm_state_scheme \<Rightarrow> u64 \<Rightarrow> u64 \<Rightarrow> 'a vmm_state_scheme \<Rightarrow> bool" where
  "map_result k v e k' \<longleftrightarrow> vm_inv k' \<and> invalidated k' = invalidated k @ [v]
     \<and> pmmBitmap k' = pmmBitmap k \<and> hhdm k' = hhdm k \<and> p4 k' = p4 k
     \<and> (\<forall>a. leaf_ok a \<longrightarrow> leaf k' a = (if a = leafOf v then e else leaf k a))
     \<and> (\<forall>w. clear k w \<longrightarrow> clear k' w) \<and> tabOf k' (idx v) \<noteq> None"

lemma clear_iff:
  "clear k v \<longleftrightarrow> (\<forall>(q, j) \<in> {([], unat (P4 v)), ([unat (P4 v)], unat (P3 v)),
     ([unat (P4 v), unat (P3 v)], unat (P2 v))}. clearEnt (entOf k q j))"
  by (auto simp: clear_def)

lemma clear_mono:
  assumes "\<And>q j. path_ok q \<Longrightarrow> length q < 3 \<Longrightarrow> j < 512 \<Longrightarrow> clearEnt (entOf k q j) \<Longrightarrow> clearEnt (entOf k' q j)"
    and "clear k w"
  shows "clear k' w"
proof -
  have "path_ok []" "path_ok [unat (P4 w)]" "path_ok [unat (P4 w), unat (P3 w)]"
    by (simp_all add: path_ok_def P_bounds)
  then show ?thesis using assms by (simp add: clear_def P_bounds)
qed

lemma vmmMap_spec:
  assumes inv: "vm_inv k" and cl: "clear k v" and fl: "flags_ok flags"
  shows "(vmmMap v phys flags k = Inl (PanicMsg ''OUT OF MEMORY'') \<and> tabOf k (idx v) = None \<and> freePages k < 3)
    \<or> (\<exists>k'. vmmMap v phys flags k = Inr k' \<and> map_result k v (PTE phys flags) k')"
  using walk_alloc [OF assms]
proof (elim disjE exE conjE)
  assume "vmmWalk v True flags k = Inl (PanicMsg ''OUT OF MEMORY'')" "tabOf k (idx v) = None" "freePages k < 3"
  then show ?thesis by (simp add: vmmMap_def)
next
  fix t k1 assume w: "vmmWalk v True flags k = Inr (t, k1)" "extends k k1" "tabOf k1 (idx v) = Some t"
  have core: "vm_core k1" and k1: "k1 = k\<lparr>mem := mem k1\<rparr>" using w(2) by (simp_all add: extends_def)
  note e1 = vm_mem_update [OF k1]
  define k2 where "k2 = k1\<lparr>mem := store64 (mem k1) (slotOf t (idx1 v)) (PTE phys flags)\<rparr>"
  note ls = leaf_store [where e = "PTE phys flags", OF core w(3) idx_ok(1,2) idx_ok(3) [of v], folded k2_def]
  have t0: "t \<noteq> 0" using vm_coreD(4) [OF core idx_ok(1) w(3)] by simp
  have ea: "entAddr t (P1 v) = slotOf t (idx1 v)" by (simp add: entAddr_def idx1_def)
  have run: "vmmMap v phys flags k = Inr (vmmInvalidatePage v k2)"
    using w(1) t0 by (simp add: vmmMap_def k2_def ea)
  have "leaf k2 a = (if a = leafOf v then PTE phys flags else leaf k a)" if "leaf_ok a" for a
  proof -
    obtain q j where a: "a = (q, j)" by (cases a)
    have q: "path_ok q" "length q = 3" "j < 512" using that a by (simp_all add: leaf_ok_def)
    then have "entOf k1 q j = entOf k q j" using extendsD [OF w(2) q(1,3)] by simp
    then show ?thesis using ls(2) [OF q(1,3)] a by (auto simp: leaf_def leafOf_def)
  qed
  moreover have "clear k2 x" if "clear k x" for x
  proof (rule clear_mono [OF _ that])
    fix q j assume q: "path_ok q" "length q < 3" "j < 512" and c: "clearEnt (entOf k q j)"
    have "q \<noteq> idx v" using q(2) idx_ok(2) by auto
    then show "clearEnt (entOf k2 q j)" using ls(2) [OF q(1,3)] extends_clear [OF w(2) q(1,3) c] by simp
  qed
  moreover have "vm_inv k2" using ls(1) e1 inv by (simp add: vm_inv_def k2_def)
  moreover have "tabOf k2 (idx v) \<noteq> None" using ls(3) [OF idx_ok(1)] w(3) by simp
  moreover have "pmmBitmap k2 = pmmBitmap k" "hhdm k2 = hhdm k" "p4 k2 = p4 k" "invalidated k2 = invalidated k"
    using e1 by (simp_all add: k2_def)
  ultimately have "map_result k v (PTE phys flags) (vmmInvalidatePage v k2)"
    by (simp add: map_result_def vmmInvalidatePage_def leaf_def clear_def)
  then show ?thesis using run by blast
qed

text \<open>Unmapping, in the three cases of the walk.\<close>

lemma vmmUnmap_spec:
  assumes inv: "vm_inv k" and cl: "clear k v"
  shows "if tabOf k (idx v) \<noteq> None then \<exists>k'. vmmUnmap v k = Inr k' \<and> map_result k v 0 k'
    else if tabOf k [unat (P4 v), unat (P3 v)] \<noteq> None then vmmUnmap v k = Inr k
    else vmmUnmap v k = Inl NullDeref"
proof -
  define kl where "kl = k\<lparr>walkSpinlock := True\<rparr>"
  have core: "vm_core kl" and un: "\<not> walkSpinlock k" using inv by (simp_all add: vm_inv_def kl_def)
  have sel: "mem kl = mem k" "hhdm kl = hhdm k" "p4 kl = p4 k" by (simp_all add: kl_def)
  note ok = idx_prefix_ok [of v]
  let ?e4 = "entOf k [] (unat (P4 v))" and ?e3 = "entOf k [unat (P4 v)] (unat (P3 v))"
    and ?e2 = "entOf k [unat (P4 v), unat (P3 v)] (unat (P2 v))"
  have t3: "tabOf k [unat (P4 v)] = (if is_table ?e4 then Some (entTable (hhdm k) ?e4) else None)"
    using tab_snoc [of "mem k" "hhdm k" "p4 k" "[]"] by (simp del: tab.simps)
  have t2: "tabOf k [unat (P4 v), unat (P3 v)] = (if is_table ?e3 then Some (entTable (hhdm k) ?e3) else None)"
    using tab_snoc [of "mem k" "hhdm k" "p4 k" "[unat (P4 v)]"] by (simp del: tab.simps)
  have t1: "tabOf k (idx v) = (if is_table ?e2 then Some (entTable (hhdm k) ?e2) else None)"
    using tab_snoc [of "mem k" "hhdm k" "p4 k" "[unat (P4 v), unat (P3 v)]"] by (simp add: idx_def del: tab.simps)
  have root: "tabOf kl [] = Some (p4 k)" by (simp add: sel)
  have m: "vmmLevel alloc f t w k' = Inl NullDeref" if "t = 0" for alloc f t w and k' :: "'a vmm_state_scheme"
    using that by (simp add: vmmLevel_def)
  consider (e4) "?e4 = 0" | (e3) "is_table ?e4" "?e3 = 0" | (e2) "is_table ?e4" "is_table ?e3" "?e2 = 0"
    | (all) "is_table ?e4" "is_table ?e3" "is_table ?e2"
    using cl by (auto simp: clear_def clearEnt_def)
  then show ?thesis
  proof cases
    case e4
    then have l: "vmmLevel False 0 (p4 k) (P4 v) kl = Inr (0, kl)"
      using level_missing [OF core ok(1) root] sel by simp
    have "tabOf k [unat (P4 v)] = None" using e4 t3 by simp
    then have "?e3 = 0" by (simp add: ent_def)
    then have n2: "tabOf k [unat (P4 v), unat (P3 v)] = None" using t2 by simp
    then have "?e2 = 0" by (simp add: ent_def)
    then have n1: "tabOf k (idx v) = None" using t1 by simp
    have "vmmUnmap v k = Inl NullDeref"
      using un l m by (simp add: vmmUnmap_def vmmWalk_def flip: kl_def)
    then show ?thesis using n1 n2 by simp
  next
    case e3
    have l4: "vmmLevel False 0 (p4 k) (P4 v) kl = Inr (entTable (hhdm k) ?e4, kl)"
      and t: "tabOf kl [unat (P4 v)] = Some (entTable (hhdm k) ?e4)"
      using level_table [OF core ok(1) root] e3(1) sel by simp_all
    have l3: "vmmLevel False 0 (entTable (hhdm k) ?e4) (P3 v) kl = Inr (0, kl)"
      using level_missing [OF core ok(2) t] e3(2) sel by simp
    have n2: "tabOf k [unat (P4 v), unat (P3 v)] = None" using t2 e3(2) by simp
    then have "?e2 = 0" by (simp add: ent_def)
    then have n1: "tabOf k (idx v) = None" using t1 by simp
    have "vmmUnmap v k = Inl NullDeref"
      using un l4 l3 m by (simp add: vmmUnmap_def vmmWalk_def flip: kl_def)
    then show ?thesis using n1 n2 by simp
  next
    case e2
    have l4: "vmmLevel False 0 (p4 k) (P4 v) kl = Inr (entTable (hhdm k) ?e4, kl)"
      and t: "tabOf kl [unat (P4 v)] = Some (entTable (hhdm k) ?e4)"
      using level_table [OF core ok(1) root] e2(1) sel by simp_all
    have l3: "vmmLevel False 0 (entTable (hhdm k) ?e4) (P3 v) kl = Inr (entTable (hhdm k) ?e3, kl)"
      and t': "tabOf kl [unat (P4 v), unat (P3 v)] = Some (entTable (hhdm k) ?e3)"
      using level_table [OF core ok(2) t] e2(2) sel by (simp_all del: tab.simps)
    have l2: "vmmLevel False 0 (entTable (hhdm k) ?e3) (P2 v) kl = Inr (0, kl)"
      using level_missing [OF core ok(3) t'] e2(3) sel by simp
    have "vmmUnmap v k = Inr k"
      using un l4 l3 l2 vm_lock [OF un] by (simp add: vmmUnmap_def vmmWalk_def kl_def)
    then show ?thesis using t1 t2 e2 by simp
  next
    case all
    have l4: "vmmLevel False 0 (p4 k) (P4 v) kl = Inr (entTable (hhdm k) ?e4, kl)"
      and t: "tabOf kl [unat (P4 v)] = Some (entTable (hhdm k) ?e4)"
      using level_table [OF core ok(1) root] all(1) sel by simp_all
    have l3: "vmmLevel False 0 (entTable (hhdm k) ?e4) (P3 v) kl = Inr (entTable (hhdm k) ?e3, kl)"
      and t': "tabOf kl [unat (P4 v), unat (P3 v)] = Some (entTable (hhdm k) ?e3)"
      using level_table [OF core ok(2) t] all(2) sel by (simp_all del: tab.simps)
    let ?t = "entTable (hhdm k) ?e2"
    have l2: "vmmLevel False 0 (entTable (hhdm k) ?e3) (P2 v) kl = Inr (?t, kl)"
      using level_table [OF core ok(3) t'] all(3) sel by simp
    have tt: "tabOf k (idx v) = Some ?t" using t1 all by simp
    have core0: "vm_core k" using inv by (simp add: vm_inv_def)
    have t0: "?t \<noteq> 0" using vm_coreD(4) [OF core0 idx_ok(1) tt] by simp
    have ea: "entAddr ?t (P1 v) = slotOf ?t (idx1 v)" by (simp add: entAddr_def idx1_def)
    define k2 where "k2 = k\<lparr>mem := store64 (mem k) (slotOf ?t (idx1 v)) 0\<rparr>"
    note ls = leaf_store [where e = 0, OF core0 tt idx_ok(1,2) idx_ok(3) [of v], folded k2_def]
    have "vmmWalk v False 0 k = Inr (?t, k)"
      using un l4 l3 l2 vm_lock [OF un] by (simp add: vmmWalk_def kl_def)
    then have run: "vmmUnmap v k = Inr (vmmInvalidatePage v k2)"
      using t0 by (simp add: vmmUnmap_def k2_def ea)
    have "leaf k2 a = (if a = leafOf v then 0 else leaf k a)" if "leaf_ok a" for a
    proof -
      obtain q j where a: "a = (q, j)" by (cases a)
      then have q: "path_ok q" "j < 512" using that by (simp_all add: leaf_ok_def)
      show ?thesis using ls(2) [OF q] a by (auto simp: leaf_def leafOf_def)
    qed
    moreover have "clear k2 x" if "clear k x" for x
    proof (rule clear_mono [OF _ that])
      fix q j assume q: "path_ok q" "length q < 3" "j < 512" and c: "clearEnt (entOf k q j)"
      have "q \<noteq> idx v" using q(2) idx_ok(2) by auto
      then show "clearEnt (entOf k2 q j)" using ls(2) [OF q(1,3)] c by simp
    qed
    moreover have "tabOf k2 (idx v) \<noteq> None" using ls(3) [OF idx_ok(1)] tt by simp
    moreover have "vm_inv k2" using ls(1) inv by (simp add: vm_inv_def k2_def)
    ultimately have "map_result k v 0 (vmmInvalidatePage v k2)"
      by (simp add: map_result_def vmmInvalidatePage_def leaf_def clear_def k2_def)
    then show ?thesis using run tt by simp
  qed
qed

subsection \<open>Ranges of pages\<close>

text \<open>Two pages less than \<open>2\<^sup>36\<close> pages apart have different leaf entries.\<close>

definition pageNo :: "u64 \<Rightarrow> nat" where
  "pageNo v = unat v div 4096 mod 2 ^ 36"

lemma P_bits:
  assumes "i < 9"
  shows "bit (P1 v) i \<longleftrightarrow> bit v (12 + i)" and "bit (P2 v) i \<longleftrightarrow> bit v (21 + i)"
    and "bit (P3 v) i \<longleftrightarrow> bit v (30 + i)" and "bit (P4 v) i \<longleftrightarrow> bit v (39 + i)"
proof -
  have m: "(0x1FF :: u64) = mask 9" by (simp add: mask_eq_exp_minus_1)
  have "bit (w AND 0x1FF :: u64) i \<longleftrightarrow> bit w i" for w using assms by (simp only: m) (simp add: bit_simps)
  then show "bit (P1 v) i \<longleftrightarrow> bit v (12 + i)" "bit (P2 v) i \<longleftrightarrow> bit v (21 + i)"
    "bit (P3 v) i \<longleftrightarrow> bit v (30 + i)" "bit (P4 v) i \<longleftrightarrow> bit v (39 + i)"
    by (simp_all add: P1_def P2_def P3_def P4_def bit_drop_bit_eq)
qed

lemma leafOf_pageNo: "leafOf v = leafOf w \<Longrightarrow> pageNo v = pageNo w"
proof -
  assume "leafOf v = leafOf w"
  then have P: "P4 v = P4 w" "P3 v = P3 w" "P2 v = P2 w" "P1 v = P1 w"
    by (simp_all add: leafOf_def idx_def idx1_def word_unat_eq_iff)
  have b: "bit v (12 + i) = bit w (12 + i)" if i: "i < 36" for i
  proof -
    consider "i < 9" | "9 \<le> i" "i - 9 < 9" | "18 \<le> i" "i - 18 < 9" | "27 \<le> i" "i - 27 < 9"
      using i by linarith
    then show ?thesis
      using P P_bits [of i v] P_bits [of i w] P_bits [of "i - 9" v] P_bits [of "i - 9" w]
        P_bits [of "i - 18" v] P_bits [of "i - 18" w] P_bits [of "i - 27" v] P_bits [of "i - 27" w]
      by cases (simp_all add: add.commute)
  qed
  have "take_bit 36 (drop_bit 12 (unat v)) = take_bit 36 (drop_bit 12 (unat w))"
    by (rule bit_eqI) (use b in \<open>auto simp: bit_simps bit_unsigned_iff\<close>)
  then show "pageNo v = pageNo w" by (simp add: pageNo_def take_bit_eq_mod drop_bit_eq_div)
qed

lemma pageNo_add: "pageNo (v + of_nat (i * 4096)) = (unat v div 4096 + i) mod 2 ^ 36"
proof -
  have "unat (v + of_nat (i * 4096)) = (unat v + i * 4096) mod 2 ^ 64"
    by (simp add: unat_word_ariths unat_of_nat mod_add_right_eq del: of_nat_mult)
  then have "pageNo (v + of_nat (i * 4096)) = (unat v + i * 4096) mod (4096 * 2 ^ 52) div 4096 mod 2 ^ 36"
    by (simp add: pageNo_def)
  also have "\<dots> = (unat v + i * 4096) div 4096 mod 2 ^ 52 mod 2 ^ 36"
    by (simp only: mod_mult2_eq div_mult2_eq) (simp add: div_add1_eq [of _ _ 4096])
  also have "\<dots> = (unat v div 4096 + i) mod 2 ^ 36"
    by (simp add: mod_mod_cancel add.commute)
  finally show ?thesis .
qed

lemma near_mod:
  assumes "a mod m = b mod (m :: nat)" and "a \<le> b" and "b - a < m"
  shows "a = b"
proof -
  have "m dvd b - a" using assms(1,2) mod_eq_dvd_iff_nat [of a b m] by simp
  then have "b - a = 0" using assms(3) nat_dvd_not_less by blast
  then show ?thesis using assms(2) by simp
qed

lemma leafOf_inj:
  assumes "leafOf (v + of_nat (i * 4096)) = leafOf (v + of_nat (j * 4096))" and "i < 2 ^ 36" and "j < 2 ^ 36"
  shows "i = j"
proof -
  have "(unat v div 4096 + i) mod 2 ^ 36 = (unat v div 4096 + j) mod 2 ^ 36"
    using leafOf_pageNo [OF assms(1)] unfolding pageNo_add .
  moreover have "a = b" if "(x + a) mod 2 ^ 36 = (x + b) mod 2 ^ 36" "a \<le> b" "b < 2 ^ 36" for a b x :: nat
    using near_mod [OF that(1)] that(2,3) by simp
  ultimately show ?thesis using assms(2,3) by (metis nat_le_linear)
qed

text \<open>
  The interface of an operation on one page, from which the loops over ranges of pages follow:
  a success sets the leaf entry of the page and no other, and a failure is one of a set of
  errors. It is instantiated by mapping and by unmapping.
\<close>

locale page_operation =
  fixes wf :: "'s \<Rightarrow> bool"
    and usable :: "'s \<Rightarrow> u64 \<Rightarrow> bool"
    and look :: "'s \<Rightarrow> nat list \<times> nat \<Rightarrow> u64"
    and act :: "u64 \<Rightarrow> u64 \<Rightarrow> 's \<Rightarrow> 's res"
    and val :: "u64 \<Rightarrow> u64"
    and errs :: "err set"
  assumes act_ok: "wf k \<Longrightarrow> usable k v \<Longrightarrow> act v p k = Inr k' \<Longrightarrow>
      wf k' \<and> (\<forall>a. leaf_ok a \<longrightarrow> look k' a = (if a = leafOf v then val p else look k a))
        \<and> (\<forall>w. usable k w \<longrightarrow> usable k' w)"
    and act_err: "wf k \<Longrightarrow> usable k v \<Longrightarrow> act v p k = Inl e \<Longrightarrow> e \<in> errs"
begin

fun acts :: "u64 \<Rightarrow> u64 \<Rightarrow> nat \<Rightarrow> 's \<Rightarrow> 's res" where
  "acts v p 0 k = Inr k"
| "acts v p (Suc n) k = bnd (act v p k) (acts (v + PAGE_SIZE) (p + PAGE_SIZE) n)"

lemma shift_page: "v + PAGE_SIZE + of_nat (i * 4096) = v + of_nat (Suc i * 4096)"
  by (simp add: PAGE_SIZE_def algebra_simps)

lemma acts_range:
  assumes "wf k" and "\<And>i. i < n \<Longrightarrow> usable k (v + of_nat (i * 4096))" and "n \<le> 2 ^ 36"
    and "acts v p n k = Inr k'"
  shows "wf k' \<and> (\<forall>i < n. look k' (leafOf (v + of_nat (i * 4096))) = val (p + of_nat (i * 4096)))
    \<and> (\<forall>a. leaf_ok a \<longrightarrow> (\<forall>i < n. a \<noteq> leafOf (v + of_nat (i * 4096))) \<longrightarrow> look k' a = look k a)"
  using assms
proof (induction n arbitrary: k v p)
  case (Suc n)
  from Suc.prems(4) obtain k1 where k1: "act v p k = Inr k1"
    "acts (v + PAGE_SIZE) (p + PAGE_SIZE) n k1 = Inr k'" by (auto simp: bnd_eq_Inr)
  have "usable k v" using Suc.prems(2) [of 0] by simp
  note a = act_ok [OF Suc.prems(1) this k1(1)]
  have us: "usable k1 (v + PAGE_SIZE + of_nat (i * 4096))" if "i < n" for i
    unfolding shift_page using a Suc.prems(2) [of "Suc i"] that by simp
  have "n \<le> 2 ^ 36" using Suc.prems(3) by simp
  from Suc.IH [OF conjunct1 [OF a] us this k1(2), unfolded shift_page]
  have r: "wf k'"
    "\<And>i. i < n \<Longrightarrow> look k' (leafOf (v + of_nat (Suc i * 4096))) = val (p + of_nat (Suc i * 4096))"
    "\<And>a. leaf_ok a \<Longrightarrow> (\<And>i. i < n \<Longrightarrow> a \<noteq> leafOf (v + of_nat (Suc i * 4096))) \<Longrightarrow> look k' a = look k1 a"
    by blast+
  have first: "look k' (leafOf v) = val p"
  proof -
    have "leafOf v \<noteq> leafOf (v + of_nat (Suc i * 4096))" if "i < n" for i
    proof
      assume "leafOf v = leafOf (v + of_nat (Suc i * 4096))"
      then have "leafOf (v + of_nat (0 * 4096)) = leafOf (v + of_nat (Suc i * 4096))" by simp
      moreover have "Suc i < 2 ^ 36" using that Suc.prems(3) by simp
      ultimately show False using leafOf_inj [of v 0 "Suc i"] by simp
    qed
    then have "look k' (leafOf v) = look k1 (leafOf v)" by (rule r(3) [OF leafOf_ok])
    then show ?thesis using a leafOf_ok by simp
  qed
  show ?case
  proof (intro conjI allI impI)
    show "wf k'" by (rule r(1))
    show "look k' (leafOf (v + of_nat (i * 4096))) = val (p + of_nat (i * 4096))" if "i < Suc n" for i
      using first r(2) that by (cases i) auto
    fix b assume b: "leaf_ok b" "\<forall>i < Suc n. b \<noteq> leafOf (v + of_nat (i * 4096))"
    have "look k' b = look k1 b" by (rule r(3) [OF b(1)]) (use b(2) in blast)
    moreover have "b \<noteq> leafOf v" using b(2) [rule_format, of 0] by simp
    ultimately show "look k' b = look k b" using a b(1) by simp
  qed
qed simp

lemma acts_err:
  "wf k \<Longrightarrow> (\<And>i. i < n \<Longrightarrow> usable k (v + of_nat (i * 4096))) \<Longrightarrow> acts v p n k = Inl e \<Longrightarrow> e \<in> errs"
proof (induction n arbitrary: k v p)
  case (Suc n)
  have u: "usable k v" using Suc.prems(2) [of 0] by simp
  from Suc.prems(3) consider "act v p k = Inl e"
    | k1 where "act v p k = Inr k1" "acts (v + PAGE_SIZE) (p + PAGE_SIZE) n k1 = Inl e"
    by (auto simp: bnd_eq_Inl)
  then show ?case
  proof cases
    case 1
    then show ?thesis using act_err [OF Suc.prems(1) u] by blast
  next
    case (2 k1)
    note a = act_ok [OF Suc.prems(1) u 2(1)]
    have "usable k1 (v + PAGE_SIZE + of_nat (i * 4096))" if "i < n" for i
      unfolding shift_page using a Suc.prems(2) [of "Suc i"] that by simp
    from Suc.IH [OF conjunct1 [OF a] this 2(2)] show ?thesis .
  qed
qed simp

end

lemma leaf_missing: "tabOf k (idx v) = None \<Longrightarrow> leaf k (leafOf v) = 0"
  by (simp add: leaf_def leafOf_def ent_def)

interpretation mp: page_operation
  "\<lambda>k. vm_inv k \<and> flags_ok flags" clear leaf "\<lambda>v p. vmmMap v p flags" "\<lambda>p. PTE p flags"
  "{PanicMsg ''OUT OF MEMORY''}" for flags
proof
  fix k :: "'a vmm_state_scheme" and v p k' e
  assume k: "vm_inv k \<and> flags_ok flags" "clear k v"
  note sp = vmmMap_spec [OF conjunct1 [OF k(1)] k(2) conjunct2 [OF k(1)], of p]
  show "(vm_inv k' \<and> flags_ok flags) \<and> (\<forall>a. leaf_ok a \<longrightarrow> leaf k' a = (if a = leafOf v then PTE p flags else leaf k a))
      \<and> (\<forall>w. clear k w \<longrightarrow> clear k' w)" if "vmmMap v p flags k = Inr k'"
    using sp that k(1) by (auto simp: map_result_def)
  show "e \<in> {PanicMsg ''OUT OF MEMORY''}" if "vmmMap v p flags k = Inl e" using sp that by auto
qed

interpretation um: page_operation
  vm_inv clear leaf "\<lambda>v p. vmmUnmap v" "\<lambda>p. 0" "{NullDeref}"
proof
  fix k :: "'a vmm_state_scheme" and v :: u64 and k' e
  assume k: "vm_inv k" "clear k v"
  note sp = vmmUnmap_spec [OF k]
  show "vm_inv k' \<and> (\<forall>a. leaf_ok a \<longrightarrow> leaf k' a = (if a = leafOf v then 0 else leaf k a))
      \<and> (\<forall>w. clear k w \<longrightarrow> clear k' w)" if ok: "vmmUnmap v k = Inr k'"
  proof (cases "tabOf k (idx v) = None")
    case True
    then have "k' = k" using sp ok by (auto split: if_splits)
    then show ?thesis using k(1) leaf_missing [OF True] by simp
  next
    case False
    then have "map_result k v 0 k'" using sp ok by auto
    then show ?thesis by (simp add: map_result_def)
  qed
  show "e \<in> {NullDeref}" if "vmmUnmap v k = Inl e" using sp that by (auto split: if_splits)
qed

lemma vmmMapPages_acts: "vmmMapPages v p flags n k = mp.acts flags v p (unat n) k"
proof (induction v p flags n k rule: vmmMapPages.induct)
  case (1 v p flags n k)
  show ?case
  proof (cases "n = 0")
    case False
    then have "unat n = Suc (unat (n - 1))" by (simp add: unat_minus_one unat_gt_0)
    with False show ?thesis
      by (subst vmmMapPages.simps) (cases "vmmMap v p flags k"; simp add: 1)
  qed (subst vmmMapPages.simps, simp)
qed

lemma vmmUnmapPages_acts: "vmmUnmapPages v n k = um.acts v p (unat n) k"
proof (induction v n k arbitrary: p rule: vmmUnmapPages.induct)
  case (1 v n k)
  show ?case
  proof (cases "n = 0")
    case False
    then have "unat n = Suc (unat (n - 1))" by (simp add: unat_minus_one unat_gt_0)
    with False show ?thesis
      by (subst vmmUnmapPages.simps) (cases "vmmUnmap v k"; simp add: 1)
  qed (subst vmmUnmapPages.simps, simp)
qed

subsection \<open>A state for the witnesses\<close>

text \<open>
  Sixty-four pages; page 1 holds the bitmap, page 2 the root table, which is empty.
\<close>

definition demoVmm :: vmm_state where
  "demoVmm = \<lparr>mem = store64 (\<lambda>_. 0) 0xffff800000001000 7, hhdm = 0xffff800000000000,
     pmmBitmap = \<lparr>bits = 64, dataSize = 8, data = 0xffff800000001000\<rparr>, pmmSpinlock = False,
     p4 = 0xffff800000002000, walkSpinlock = False, cr3 = 0x2000, invalidated = []\<rparr>"

lemma demoVmm_used: "p < 64 \<Longrightarrow> pgUsed demoVmm p \<longleftrightarrow> p < 3"
proof -
  assume p: "p < 64"
  have "(7 :: u64) = mask 3" by (simp add: mask_eq_exp_minus_1)
  then have "bit (7 :: u64) p \<longleftrightarrow> p < 3"
    by (simp only: bit_mask_iff) (use p in simp)
  with p show "pgUsed demoVmm p \<longleftrightarrow> p < 3" by (simp add: bmBit_def demoVmm_def)
qed

lemma demoVmm_pmm: "pmm_inv demoVmm"
proof -
  have "page_rng demoVmm p \<inter> bm_rng (pmmBitmap demoVmm) = {}" if "p < 64" "\<not> p < 3" for p
    using page_off_words [of "0xffff800000000000" "64 * 4096" "0x1000" 1 8 p] that
    by (simp add: demoVmm_def phys_rng_def vmmPhysToVirt_def)
  moreover have "bm_ok (pmmBitmap demoVmm)"
    by (simp add: demoVmm_def bm_ok_def bitmapCalculateSize_def DIV_ROUND_UP_def)
  moreover have "pgCount demoVmm = 64" "\<not> pmmSpinlock demoVmm" by (simp_all add: demoVmm_def)
  ultimately show ?thesis using demoVmm_used by (simp add: pmm_inv_def)
qed

lemma demoVmm_entry: "i < 512 \<Longrightarrow> load64 (mem demoVmm) (slotOf (p4 demoVmm) i) = 0"
proof -
  assume i: "i < 512"
  have "apart (0xffff800000001000 :: u64) 8 (0xffff800000002000) 4096" by (simp add: apart_def)
  then have "rng (0xffff800000001000 :: u64) 8 \<inter> rng (0xffff800000002000) 4096 = {}" by (rule apart_disjoint)
  then have "rng (slotOf (0xffff800000002000) i) 8 \<inter> rng (0xffff800000001000) 8 = {}"
    using slotOf_rng [OF i, of "0xffff800000002000"] by blast
  then have "load64 (mem demoVmm) (slotOf (p4 demoVmm) i) = load64 (\<lambda>_. 0) (slotOf (p4 demoVmm) i)"
    unfolding demoVmm_def by (simp del: of_nat_mult add: load_same_outside [OF store_same_outside])
  also have "\<dots> = 0" by (rule load_zero) simp
  finally show ?thesis .
qed

lemma demoVmm_tab: "path_ok p \<Longrightarrow> tabOf demoVmm p = (if p = [] then Some (p4 demoVmm) else None)"
  using demoVmm_entry by (cases p) (auto simp: path_ok_def Let_def)

lemma demoVmm_inv: "vm_inv demoVmm"
proof -
  have "page_rng demoVmm p \<inter> rng (p4 demoVmm) 4096 = {}" if p: "p < 64" "\<not> pgUsed demoVmm p" for p
  proof -
    have e: "rng (p4 demoVmm) 4096 = page_rng demoVmm 2"
      by (simp add: phys_rng_def vmmPhysToVirt_def demoVmm_def)
    have "p \<noteq> 2" "(2 :: nat) < 64" using p demoVmm_used by auto
    moreover have c: "pgCount demoVmm = 64" by (simp add: demoVmm_def)
    ultimately show ?thesis
      unfolding e using page_bytes [OF demoVmm_pmm, of p] page_bytes [OF demoVmm_pmm, of 2] p(1) by fastforce
  qed
  moreover have "rng (p4 demoVmm) 4096 \<inter> bm_rng (pmmBitmap demoVmm) = {}"
    by (rule apart_disjoint) (simp add: apart_def demoVmm_def)
  moreover have "pgCount demoVmm = 64" by (simp add: demoVmm_def)
  ultimately have "held demoVmm (rng (p4 demoVmm) 4096)" by (simp add: held_def)
  then have "vm_tree demoVmm (p4 demoVmm)"
    using demoVmm_tab unfolding vm_tree_def by (auto simp: demoVmm_def split: if_splits)
  then show ?thesis
    using demoVmm_pmm by (simp add: vm_inv_def vm_core_def window_ok_def) (simp add: demoVmm_def)
qed

lemma demoVmm_clear: "clear demoVmm v"
proof -
  have "entOf demoVmm q j = 0" if "path_ok q" "j < 512" for q j
    using demoVmm_tab [OF that(1)] demoVmm_entry [OF that(2)] by (simp add: ent_def split: if_splits)
  then show ?thesis using idx_prefix_ok [of v] by (simp add: clear_def clearEnt_def path_ok_def P_bounds)
qed

lemma demo_flags: "flags_ok PTE_WRITABLE"
  by (simp add: flags_ok_def PTE_WRITABLE_def bit_numeral_rec)

text \<open>Room for the three tables a first mapping needs.\<close>

lemma demoVmm_free: "3 \<le> freePages demoVmm"
proof -
  have c: "pgCount demoVmm = 64" by (simp add: demoVmm_def)
  have "{3, 4, 5} \<subseteq> {p. p < pgCount demoVmm \<and> \<not> pgUsed demoVmm p}" using demoVmm_used by (simp add: c)
  then have "card {3, 4, 5 :: nat} \<le> freePages demoVmm"
    unfolding freePages_def by (intro card_mono) (simp_all add: c)
  then show ?thesis by simp
qed

subsection \<open>Properties\<close>

text \<open>C12: mapping a page, on a path without huge pages and with flags below the address bits, sets
  its leaf entry, leaves every other leaf entry as it was even where tables were added, keeps
  the tree of tables well-formed, and flushes the page. It can only fail for lack of memory,
  when the last-level table was missing and fewer than three pages were free.\<close>

theorem vmmMap_correct:
  assumes "vm_inv k" and "clear k v" and "flags_ok flags"
  shows "(vmmMap v phys flags k = Inl (PanicMsg ''OUT OF MEMORY'') \<and> tabOf k (idx v) = None \<and> freePages k < 3)
    \<or> (\<exists>k'. vmmMap v phys flags k = Inr k' \<and> vm_inv k' \<and> invalidated k' = invalidated k @ [v]
         \<and> (\<forall>a. leaf_ok a \<longrightarrow> leaf k' a = (if a = leafOf v then PTE phys flags else leaf k a)))"
  using vmmMap_spec [OF assms, of phys] unfolding map_result_def by blast

theorem vmmMap_correct_witness:
  "\<exists>k'. vmmMap 0x400000 0x5000 PTE_WRITABLE demoVmm = Inr k' \<and> leaf k' (leafOf 0x400000) = PTE 0x5000 PTE_WRITABLE"
  using vmmMap_correct [OF demoVmm_inv demoVmm_clear demo_flags, of "0x400000" "0x5000"]
proof (elim disjE exE conjE)
  fix k' assume k': "vmmMap 0x400000 0x5000 PTE_WRITABLE demoVmm = Inr k'"
    "\<forall>a. leaf_ok a \<longrightarrow> leaf k' a = (if a = leafOf 0x400000 then PTE 0x5000 PTE_WRITABLE else leaf demoVmm a)"
  have "leaf k' (leafOf 0x400000) = PTE 0x5000 PTE_WRITABLE"
    using k'(2) [THEN spec, THEN mp, OF leafOf_ok, of "0x400000"] by simp
  with k'(1) show ?thesis by (intro exI conjI)
qed (use demoVmm_free in simp)

text \<open>C13: unmapping a page whose tables exist clears its leaf entry and no other. When only the
  last-level table is missing nothing happens. When a table further up is missing the walk
  dereferences a null table, although the caller tests the result of the walk for 0.\<close>

theorem vmmUnmap_correct:
  assumes "vm_inv k" and "clear k v"
  shows "if tabOf k (idx v) \<noteq> None
    then \<exists>k'. vmmUnmap v k = Inr k' \<and> vm_inv k' \<and> invalidated k' = invalidated k @ [v]
      \<and> (\<forall>a. leaf_ok a \<longrightarrow> leaf k' a = (if a = leafOf v then 0 else leaf k a))
    else if tabOf k [unat (P4 v), unat (P3 v)] \<noteq> None then vmmUnmap v k = Inr k
    else vmmUnmap v k = Inl NullDeref"
proof (cases "tabOf k (idx v) = None")
  case True
  with vmmUnmap_spec [OF assms] show ?thesis by simp
next
  case False
  with vmmUnmap_spec [OF assms] obtain k' where "vmmUnmap v k = Inr k'" "map_result k v 0 k'" by auto
  with False show ?thesis by (simp add: map_result_def)
qed

theorem vmmUnmap_correct_witness: "vmmUnmap 0x400000 demoVmm = Inl NullDeref"
proof -
  have "tabOf demoVmm (idx 0x400000) = None" using demoVmm_tab [OF idx_ok(1)] by (simp add: idx_def)
  moreover have "tabOf demoVmm [unat (P4 0x400000), unat (P3 0x400000)] = None"
    using demoVmm_tab [of "[unat (P4 0x400000), unat (P3 0x400000)]"] by (simp add: path_ok_def P_bounds)
  ultimately show ?thesis using vmmUnmap_correct [OF demoVmm_inv demoVmm_clear, of "0x400000"] by simp
qed

text \<open>when mapping a range of pages succeeds, each page of the range maps to the frame at the
  same offset, every leaf entry outside the range is as it was, and the tables are well-formed;
  otherwise it ended in the out-of-memory panic.\<close>

theorem vmmMapPages_correct:
  assumes "vm_inv k" and "flags_ok flags" and "unat n \<le> 2 ^ 36"
    and "\<forall>i < unat n. clear k (v + of_nat (i * 4096))"
  shows "vmmMapPages v phys flags n k = Inl (PanicMsg ''OUT OF MEMORY'')
    \<or> (\<exists>k'. vmmMapPages v phys flags n k = Inr k' \<and> vm_inv k'
      \<and> (\<forall>i < unat n. leaf k' (leafOf (v + of_nat (i * 4096))) = PTE (phys + of_nat (i * 4096)) flags)
      \<and> (\<forall>a. leaf_ok a \<longrightarrow> (\<forall>i < unat n. a \<noteq> leafOf (v + of_nat (i * 4096))) \<longrightarrow> leaf k' a = leaf k a))"
proof (cases "vmmMapPages v phys flags n k")
  case (Inl e)
  have "e \<in> {PanicMsg ''OUT OF MEMORY''}"
  proof (rule mp.acts_err)
    show "mp.acts flags v phys (unat n) k = Inl e" using Inl by (simp only: vmmMapPages_acts)
  qed (use assms in simp_all)
  then show ?thesis using Inl by simp
next
  case (Inr k')
  have run: "mp.acts flags v phys (unat n) k = Inr k'" using Inr by (simp only: vmmMapPages_acts)
  have "vm_inv k \<and> flags_ok flags" using assms by simp
  from mp.acts_range [OF this _ assms(3) run] assms(4) Inr show ?thesis by simp
qed

theorem vmmMapPages_correct_witness:
  "vmmMapPages 0x400000 0x5000 PTE_WRITABLE 2 demoVmm = Inl (PanicMsg ''OUT OF MEMORY'')
    \<or> (\<exists>k'. vmmMapPages 0x400000 0x5000 PTE_WRITABLE 2 demoVmm = Inr k'
         \<and> leaf k' (leafOf 0x401000) = PTE 0x6000 PTE_WRITABLE)"
proof -
  have two: "unat (2 :: u32) = 2" by simp
  have "\<forall>i < unat (2 :: u32). clear demoVmm (0x400000 + of_nat (i * 4096))" using demoVmm_clear by simp
  note clr = this
  have "unat (2 :: u32) \<le> 2 ^ 36" by simp
  from vmmMapPages_correct [OF demoVmm_inv demo_flags this clr, of "0x5000"] show ?thesis
  proof (elim disjE exE conjE)
    fix k' assume k': "vmmMapPages 0x400000 0x5000 PTE_WRITABLE 2 demoVmm = Inr k'"
      "\<forall>i < unat (2 :: u32). leaf k' (leafOf (0x400000 + of_nat (i * 4096))) = PTE (0x5000 + of_nat (i * 4096)) PTE_WRITABLE"
    from k'(2) [unfolded two, rule_format, of 1] k'(1) show ?thesis by simp
  qed simp_all
qed

text \<open>C14: mapping a page and unmapping it again gives an address space with the page unmapped and
  every other page as it was before; this never dereferences a null table.\<close>

theorem vmm_map_unmap:
  assumes "vm_inv k" and "clear k v" and "flags_ok flags" and "vmmMap v phys flags k = Inr k1"
  shows "\<exists>k2. vmmUnmap v k1 = Inr k2 \<and> vm_inv k2
    \<and> (\<forall>a. leaf_ok a \<longrightarrow> leaf k2 a = (if a = leafOf v then 0 else leaf k a))"
proof -
  have m: "map_result k v (PTE phys flags) k1" using vmmMap_spec [OF assms(1-3), of phys] assms(4) by auto
  have k1: "vm_inv k1" "clear k1 v" "tabOf k1 (idx v) \<noteq> None"
    using m assms(2) unfolding map_result_def by blast+
  from vmmUnmap_spec [OF k1(1,2)] k1(3) obtain k2 where "vmmUnmap v k1 = Inr k2" "map_result k1 v 0 k2" by auto
  with m show ?thesis by (simp add: map_result_def)
qed

theorem vmm_map_unmap_witness:
  "\<exists>k1 k2. vmmMap 0x400000 0x5000 PTE_WRITABLE demoVmm = Inr k1 \<and> vmmUnmap 0x400000 k1 = Inr k2
     \<and> leaf k2 (leafOf 0x400000) = 0"
proof -
  obtain k1 where k1: "vmmMap 0x400000 0x5000 PTE_WRITABLE demoVmm = Inr k1"
    using vmmMap_spec [OF demoVmm_inv demoVmm_clear demo_flags, of "0x400000" "0x5000"] demoVmm_free by auto
  from vmm_map_unmap [OF demoVmm_inv demoVmm_clear demo_flags k1]
  obtain k2 where k2: "vmmUnmap 0x400000 k1 = Inr k2"
    "\<forall>a. leaf_ok a \<longrightarrow> leaf k2 a = (if a = leafOf 0x400000 then 0 else leaf demoVmm a)" by (elim exE conjE)
  have "leaf k2 (leafOf 0x400000) = 0"
    using k2(2) [THEN spec, THEN mp, OF leafOf_ok, of "0x400000"] by simp
  with k1 k2(1) show ?thesis by (intro exI conjI)
qed

end
