(* ===== verification/LinkedList.thy ===== *)
theory LinkedList
  imports Prelude
begin

section \<open>Intrusive circular lists (util/datastructures/ll.c)\<close>

text \<open>
  An \<open>LLHead\<close> is 16 bytes: \<open>prev\<close> at offset 0, \<open>next\<close> at offset 8. List heads and the nodes
  embedded in structs have the same type; an empty list is a head that points to itself.
  The abstract view \<open>llist m h ns\<close> says that from the head \<open>h\<close> the nodes are \<open>ns\<close>, in this
  order, with both directions of links right and no two of the 16-byte records overlapping.
\<close>

definition llNext :: "mem \<Rightarrow> u64 \<Rightarrow> u64" where "llNext m p = load64 m (p + 8)"
definition llPrev :: "mem \<Rightarrow> u64 \<Rightarrow> u64" where "llPrev m p = load64 m p"
definition setNext :: "u64 \<Rightarrow> u64 \<Rightarrow> mem \<Rightarrow> mem" where "setNext p v m = store64 m (p + 8) v"
definition setPrev :: "u64 \<Rightarrow> u64 \<Rightarrow> mem \<Rightarrow> mem" where "setPrev p v m = store64 m p v"

definition llInitHead :: "u64 \<Rightarrow> mem \<Rightarrow> mem res" where
  "llInitHead head m = ASSERT (head \<noteq> 0) (Inr (setNext head head (setPrev head head m)))"

definition llInsertFront :: "u64 \<Rightarrow> u64 \<Rightarrow> mem \<Rightarrow> mem res" where
  "llInsertFront head node m =
     ASSERT (head \<noteq> 0) (ASSERT (node \<noteq> 0)
       (let nxt = llNext m head;
            m = setNext node nxt m
        in deref nxt
            (let m = setPrev nxt node m;
                 m = setNext head node m
             in Inr (setPrev node head m))))"

definition llDelete :: "u64 \<Rightarrow> mem \<Rightarrow> mem res" where
  "llDelete node m =
     ASSERT (node \<noteq> 0)
       (deref (llPrev m node)
         (let m = setNext (llPrev m node) (llNext m node) m
          in deref (llNext m node) (Inr (setPrev (llNext m node) (llPrev m node) m))))"

definition llEmpty :: "u64 \<Rightarrow> mem \<Rightarrow> bool res" where
  "llEmpty head m = ASSERT (head \<noteq> 0) (Inr (llNext m head = head))"

text \<open>
  The loop of the macro \<open>LL_TRAVERSE\<close>. The body gets the current node and the loop's local
  state; it ends the traversal with a result (\<^term>\<open>Inl\<close>) or goes on with a new local state
  (\<^term>\<open>Inr\<close>). \<^term>\<open>None\<close> is a traversal that never comes back to the head.
\<close>

partial_function (option) llTraverse ::
    "(u64 \<Rightarrow> 's \<Rightarrow> ('r + 's) res option) \<Rightarrow> mem \<Rightarrow> u64 \<Rightarrow> u64 \<Rightarrow> 's \<Rightarrow> ('r + 's) res option" where
  "llTraverse body m head cur s =
     (if cur = head then Some (Inr (Inr s))
      else case body cur s of
        None \<Rightarrow> None
      | Some (Inl e) \<Rightarrow> Some (Inl e)
      | Some (Inr (Inl r)) \<Rightarrow> Some (Inr (Inl r))
      | Some (Inr (Inr s')) \<Rightarrow> llTraverse body m head (llNext m cur) s')"

definition LL_TRAVERSE ::
    "(u64 \<Rightarrow> 's \<Rightarrow> ('r + 's) res option) \<Rightarrow> mem \<Rightarrow> u64 \<Rightarrow> 's \<Rightarrow> ('r + 's) res option" where
  "LL_TRAVERSE body m head s = llTraverse body m head (llNext m head) s"

definition LIST_ENTRY :: "u64 \<Rightarrow> u64 \<Rightarrow> u64" where
  "LIST_ENTRY ptr offset = ptr - offset"

subsection \<open>The abstract view\<close>

abbreviation node_rng :: "u64 \<Rightarrow> u64 set" where
  "node_rng p \<equiv> rng p 16"

abbreviation napart :: "u64 \<Rightarrow> u64 \<Rightarrow> bool" where
  "napart a b \<equiv> apart a 16 b 16"

fun links :: "mem \<Rightarrow> u64 list \<Rightarrow> bool" where
  "links m (x # y # r) \<longleftrightarrow> llNext m x = y \<and> llPrev m y = x \<and> links m (y # r)"
| "links m r \<longleftrightarrow> True"

definition llist :: "mem \<Rightarrow> u64 \<Rightarrow> u64 list \<Rightarrow> bool" where
  "llist m h ns \<longleftrightarrow> links m (h # ns @ [h]) \<and> sorted_wrt napart (h # ns) \<and> 0 \<notin> set (h # ns)"

lemma napart_ne: "napart a b \<Longrightarrow> a \<noteq> b"
  by (auto simp: apart_def)

text \<open>Links are read at offsets 0 and 8 of a node; a write to one field of a node is seen by
  that field of that node only.\<close>

lemma llNext_setNext [simp]: "llNext (setNext p v m) p = v"
  and llPrev_setPrev [simp]: "llPrev (setPrev p v m) p = v"
  by (simp_all add: llNext_def llPrev_def setNext_def setPrev_def)

lemma llNext_setPrev_same [simp]: "llNext (setPrev p v m) p = llNext m p"
  and llPrev_setNext_same [simp]: "llPrev (setNext p v m) p = llPrev m p"
  by (simp_all add: llNext_def llPrev_def setNext_def setPrev_def load64_store64_dist)

lemma napart_fields:
  assumes "napart a b"
  shows "apart a 8 b 8" "apart (a + 8) 8 b 8" "apart a 8 (b + 8) 8" "apart (a + 8) 8 (b + 8) 8"
  using apart_sub [OF assms, of 0 8 0 8] apart_sub [OF assms, of 8 8 0 8]
    apart_sub [OF assms, of 0 8 8 8] apart_sub [OF assms, of 8 8 8 8] by simp_all

lemma links_other [simp]:
  assumes "napart p q"
  shows "llNext (setNext p v m) q = llNext m q" "llPrev (setNext p v m) q = llPrev m q"
    "llNext (setPrev p v m) q = llNext m q" "llPrev (setPrev p v m) q = llPrev m q"
  using napart_fields [OF assms]
  by (simp_all add: llNext_def llPrev_def setNext_def setPrev_def load_store_apart)

lemma setNext_outside: "same_outside (node_rng p) m (setNext p v m)"
  and setPrev_outside: "same_outside (node_rng p) m (setPrev p v m)"
proof -
  show "same_outside (node_rng p) m (setNext p v m)"
    unfolding setNext_def by (rule store_same_outside', rule rng_sub) simp
  show "same_outside (node_rng p) m (setPrev p v m)"
    unfolding setPrev_def by (rule store_same_outside', rule rng_mono) simp
qed

lemma set_node_outside:
  "node_rng p \<subseteq> A \<Longrightarrow> same_outside A m (setNext p v m)"
  "node_rng p \<subseteq> A \<Longrightarrow> same_outside A m (setPrev p v m)"
  using setNext_outside setPrev_outside same_outside_mono by blast+

lemma links_cong:
  assumes "\<And>x. x \<in> set xs \<Longrightarrow> llNext m' x = llNext m x \<and> llPrev m' x = llPrev m x"
  shows "links m' xs = links m xs"
  using assms by (induction m xs rule: links.induct) auto

lemma llNext_frame:
  assumes "same_outside A m m'" and "node_rng p \<inter> A = {}"
  shows "llNext m' p = llNext m p" and "llPrev m' p = llPrev m p"
proof -
  have "rng (p + 8) 8 \<subseteq> node_rng p" by (rule rng_sub) simp
  then show "llNext m' p = llNext m p"
    using assms(2) unfolding llNext_def by (intro load_same_outside [OF assms(1)]) blast
  have "rng p 8 \<subseteq> node_rng p" by (rule rng_mono) simp
  then show "llPrev m' p = llPrev m p"
    using assms(2) unfolding llPrev_def by (intro load_same_outside [OF assms(1)]) blast
qed

text \<open>A list is unchanged by writes outside its records.\<close>

lemma llist_frame:
  assumes "llist m h ns" and "same_outside A m m'"
    and "\<And>x. x \<in> set (h # ns) \<Longrightarrow> node_rng x \<inter> A = {}"
  shows "llist m' h ns"
proof -
  have "links m' (h # ns @ [h]) = links m (h # ns @ [h])"
    using assms(3) by (intro links_cong) (auto simp: llNext_frame [OF assms(2)])
  then show ?thesis using assms(1) by (simp add: llist_def)
qed

lemma links_append:
  "links m (xs @ a # ys) \<longleftrightarrow> links m (xs @ [a]) \<and> links m (a # ys)"
proof (induction xs)
  case (Cons x xs)
  then show ?case by (cases xs) auto
qed simp

lemma links_cong':
  assumes "\<And>a. a \<in> set (butlast (x # xs)) \<Longrightarrow> llNext m' a = llNext m a"
    and "\<And>a. a \<in> set xs \<Longrightarrow> llPrev m' a = llPrev m a"
  shows "links m' (x # xs) = links m (x # xs)"
  using assms
proof (induction xs arbitrary: x)
  case (Cons y ys)
  then show ?case by auto
qed simp

lemma same_or_apart:
  "x = p \<or> napart p x \<Longrightarrow> llPrev (setNext p v m) x = llPrev m x"
  "x = p \<or> napart p x \<Longrightarrow> llNext (setPrev p v m) x = llNext m x"
  by auto

lemma sorted_wrt_napart_ne:
  assumes "sorted_wrt napart (xs @ ys)" and "a \<in> set xs" and "b \<in> set ys"
  shows "napart a b" and "napart b a"
  using assms by (auto simp: sorted_wrt_append apart_sym)

subsection \<open>The operations on the view\<close>

lemma llInitHead_list:
  assumes "h \<noteq> 0"
  shows "\<exists>m'. llInitHead h m = Inr m' \<and> llist m' h [] \<and> same_outside (node_rng h) m m'"
proof -
  let ?m = "setNext h h (setPrev h h m)"
  have "same_outside (node_rng h) m ?m"
    by (rule same_outside_trans [OF setPrev_outside setNext_outside])
  then show ?thesis using assms by (simp add: llInitHead_def llist_def)
qed

lemma llist_empty: "llist m h ns \<Longrightarrow> llEmpty h m = Inr (ns = [])"
  by (cases ns) (auto simp: llEmpty_def llist_def dest: napart_ne)

lemma llist_next: "llist m h ns \<Longrightarrow> llNext m h = hd (ns @ [h])"
  by (cases ns) (auto simp: llist_def)

lemma llInsertFront_list:
  assumes l: "llist m h ns" and n0: "n \<noteq> 0" and ap: "\<And>x. x \<in> set (h # ns) \<Longrightarrow> napart n x"
  shows "\<exists>m'. llInsertFront h n m = Inr m' \<and> llist m' h (n # ns)
    \<and> same_outside (node_rng n \<union> node_rng h \<union> node_rng (hd (ns @ [h]))) m m'"
proof -
  define y where "y = hd (ns @ [h])"
  have y: "llNext m h = y" using llist_next [OF l] by (simp add: y_def)
  have yin: "y \<in> set (h # ns)" unfolding y_def by (cases ns) auto
  have h0: "h \<noteq> 0" "y \<noteq> 0" using l yin by (auto simp: llist_def)
  let ?m = "setPrev n h (setNext h n (setPrev y n (setNext n y m)))"
  have run: "llInsertFront h n m = Inr ?m"
    using n0 h0 y by (simp add: llInsertFront_def Let_def)
  have apn: "napart n h" "napart n y" "napart h n" "napart y n"
    using ap yin by (auto intro: apart_sym)
  have hy: "h = y \<or> napart h y" using yin l by (auto simp: llist_def)
  have front: "llNext ?m h = n" "llPrev ?m n = h" "llNext ?m n = y" "llPrev ?m y = n"
    using apn hy by (auto simp: same_or_apart)
  have "links ?m (h # n # ns @ [h])"
  proof (cases ns)
    case Nil
    then show ?thesis using front y_def by simp
  next
    case (Cons z r)
    then have zy: "z = y" by (simp add: y_def)
    have "links m (z # r @ [h])" using l Cons by (simp add: llist_def)
    moreover have "links ?m (z # r @ [h]) = links m (z # r @ [h])"
    proof (rule links_cong')
      fix a assume "a \<in> set (butlast (z # r @ [h]))"
      then have a: "a \<in> set ns" unfolding Cons by (auto simp: butlast_append split: if_splits)
      then have "napart n a" "napart h a" "a = y \<or> napart y a"
        using ap l Cons zy by (auto simp: llist_def)
      then show "llNext ?m a = llNext m a" by (auto simp: same_or_apart)
    next
      fix a assume "a \<in> set (r @ [h])"
      then have "napart n a" "a = h \<or> napart h a" "napart y a"
        using ap l Cons zy by (auto simp: llist_def intro: apart_sym)
      then show "llPrev ?m a = llPrev m a" by (auto simp: same_or_apart)
    qed
    ultimately show ?thesis using front Cons zy by simp
  qed
  then have "llist ?m h (n # ns)"
    using l n0 ap by (auto simp: llist_def intro: apart_sym)
  moreover have "same_outside (node_rng n \<union> node_rng h \<union> node_rng y) m ?m"
    by (intro same_outside_trans [OF set_node_outside(1) same_outside_trans [OF set_node_outside(2)
          same_outside_trans [OF set_node_outside(1) set_node_outside(2)]]]) auto
  ultimately show ?thesis using run unfolding y_def by blast
qed

lemma llist_distinct: "llist m h ns \<Longrightarrow> distinct (h # ns)"
proof -
  have "sorted_wrt napart xs \<Longrightarrow> distinct xs" for xs
    by (induction xs) (auto dest: napart_ne)
  then show "llist m h ns \<Longrightarrow> distinct (h # ns)" by (simp only: llist_def)
qed

lemma llist_apart:
  assumes "llist m h ns" and "a \<in> set (h # ns)" and "b \<in> set (h # ns)"
  shows "b = a \<or> napart a b"
proof -
  have "sorted_wrt napart xs \<Longrightarrow> a \<in> set xs \<Longrightarrow> b \<in> set xs \<Longrightarrow> b = a \<or> napart a b" for xs
    by (induction xs) (auto intro: apart_sym)
  then show ?thesis using assms unfolding llist_def by blast
qed

lemma llDelete_list:
  assumes l: "llist m h (xs @ n # ys)"
  shows "\<exists>m'. llDelete n m = Inr m' \<and> llist m' h (xs @ ys)
    \<and> same_outside (node_rng (last (h # xs)) \<union> node_rng (hd (ys @ [h]))) m m'"
proof -
  define p where "p = last (h # xs)"
  define q where "q = hd (ys @ [h])"
  define A where "A = butlast (h # xs)"
  define B where "B = tl (ys @ [h])"
  have A: "h # xs = A @ [p]" by (simp add: A_def p_def)
  have B: "ys @ [h] = q # B" by (cases ys) (simp_all add: B_def q_def)
  have "h # (xs @ n # ys) @ [h] = A @ p # n # q # B" using A B by simp
  then have lk: "links m (A @ [p])" "llNext m p = n" "llPrev m n = p" "llNext m n = q"
      "llPrev m q = n" "links m (q # B)"
    using l links_append [of m A p "n # q # B"] by (simp_all add: llist_def)
  have pin: "p \<in> set (h # xs)" unfolding A by simp
  have qin: "q \<in> set (h # ys)" unfolding q_def by (cases ys) auto
  have nz: "n \<noteq> 0" "p \<noteq> 0" "q \<noteq> 0" using l pin qin by (auto simp: llist_def)
  have dist: "distinct (h # xs @ n # ys)" by (rule llist_distinct [OF l])
  have ap: "x = p \<or> napart p x" "x = q \<or> napart q x" if "x \<in> set (h # xs @ n # ys)" for x
    using llist_apart [OF l] pin qin that by auto
  have "p \<noteq> n" "q \<noteq> n" using dist pin qin by auto
  then have apn: "napart p n" "napart q n" using ap [of n] by auto
  let ?m = "setPrev q p (setNext p q m)"
  have run: "llDelete n m = Inr ?m"
    using nz lk apn by (simp add: llDelete_def Let_def)
  have 1: "links ?m (h # xs)"
  proof -
    have "llNext ?m a = llNext m a" if "a \<in> set (butlast (h # xs))" for a
    proof -
      have "a \<in> set A" using that by (simp add: A_def)
      moreover have "distinct (A @ [p])" using dist unfolding A [symmetric] by simp
      ultimately have "a \<noteq> p" by auto
      then show ?thesis using ap [of a] in_set_butlastD [OF that] by (auto simp: same_or_apart)
    qed
    moreover have "llPrev ?m a = llPrev m a" if "a \<in> set xs" for a
    proof -
      have "a \<noteq> q" using that qin dist by auto
      then show ?thesis using ap [of a] that by (auto simp: same_or_apart)
    qed
    ultimately show ?thesis using links_cong' [of h xs ?m m] lk(1) A by simp
  qed
  have 2: "links ?m (q # B)"
  proof -
    have "butlast (q # B) = ys" unfolding B [symmetric] by simp
    then have "llNext ?m a = llNext m a" if "a \<in> set (butlast (q # B))" for a
      using that ap [of a] pin dist by (auto simp: same_or_apart)
    moreover have "llPrev ?m b = llPrev m b" if "b \<in> set B" for b
    proof -
      have "distinct (q # B)" using dist unfolding B [symmetric] by simp
      moreover have "b \<in> set (ys @ [h])" using that unfolding B by simp
      ultimately show ?thesis using ap [of b] that by (auto simp: same_or_apart)
    qed
    ultimately show ?thesis using links_cong' [of q B ?m m] lk(6) by blast
  qed
  have "llNext ?m p = q" "llPrev ?m q = p"
    using ap [of p] pin by (auto simp: same_or_apart)
  with 1 2 have "links ?m (A @ p # q # B)" using links_append [of ?m A p "q # B"] A by simp
  moreover have "h # (xs @ ys) @ [h] = A @ p # q # B" using A B by simp
  ultimately have "llist ?m h (xs @ ys)"
    using l by (auto simp: llist_def sorted_wrt_append)
  moreover have "same_outside (node_rng p \<union> node_rng q) m ?m"
    by (intro same_outside_trans [OF set_node_outside(1) set_node_outside(2)]) auto
  ultimately show ?thesis using run unfolding p_def q_def by blast
qed

text \<open>Moving a node from one list to the front of another.\<close>

lemma node_range_napart: "node_rng a \<inter> node_rng b = {} \<Longrightarrow> napart a b"
  by (rule apartI) simp_all

lemma move_node:
  assumes l1: "llist m h1 (xs @ x # ys)" and l2: "llist m h2 zs"
    and dis: "\<And>a b. a \<in> set (h1 # xs @ x # ys) \<Longrightarrow> b \<in> set (h2 # zs) \<Longrightarrow> node_rng a \<inter> node_rng b = {}"
  shows "\<exists>m1 m2. llDelete x m = Inr m1 \<and> llInsertFront h2 x m1 = Inr m2
    \<and> llist m2 h1 (xs @ ys) \<and> llist m2 h2 (x # zs)
    \<and> same_outside (\<Union>a \<in> set (h1 # xs @ x # ys @ h2 # zs). node_rng a) m m2"
proof -
  let ?A = "node_rng (last (h1 # xs)) \<union> node_rng (hd (ys @ [h1]))"
  let ?B = "node_rng x \<union> node_rng h2 \<union> node_rng (hd (zs @ [h2]))"
  have p: "last (h1 # xs) \<in> set (h1 # xs @ x # ys)" "hd (ys @ [h1]) \<in> set (h1 # xs @ x # ys)"
    using last_in_set [of "h1 # xs"] by (auto simp: hd_append)
  have q: "hd (zs @ [h2]) \<in> set (h2 # zs)" by (cases zs) auto
  have x: "x \<in> set (h1 # xs @ x # ys)" by simp
  from llDelete_list [OF l1] obtain m1 where m1: "llDelete x m = Inr m1" "llist m1 h1 (xs @ ys)"
    "same_outside ?A m m1" by blast
  have l2': "llist m1 h2 zs"
    by (rule llist_frame [OF l2 m1(3)]) (use dis [OF p(1)] dis [OF p(2)] in blast)
  have "x \<noteq> 0" using l1 by (simp add: llist_def)
  from llInsertFront_list [OF l2' this node_range_napart [OF dis [OF x]]]
  obtain m2 where m2: "llInsertFront h2 x m1 = Inr m2" "llist m2 h2 (x # zs)" "same_outside ?B m1 m2"
    by blast
  have off: "node_rng a \<inter> ?B = {}" if a: "a \<in> set (h1 # xs @ ys)" for a
  proof -
    have ain: "a \<in> set (h1 # xs @ x # ys)" using a by auto
    have "a \<noteq> x" using llist_distinct [OF l1] a by auto
    then have "napart a x" using llist_apart [OF l1 x ain] by (auto intro: apart_sym)
    then have "node_rng a \<inter> node_rng x = {}" by (rule apart_disjoint)
    moreover have "node_rng a \<inter> node_rng h2 = {}" by (rule dis [OF ain]) simp
    moreover have "node_rng a \<inter> node_rng (hd (zs @ [h2])) = {}" by (rule dis [OF ain q])
    ultimately show ?thesis by blast
  qed
  have l1': "llist m2 h1 (xs @ ys)" by (rule llist_frame [OF m1(2) m2(3) off])
  let ?U = "\<Union>a \<in> set (h1 # xs @ x # ys @ h2 # zs). node_rng a"
  have "?A \<subseteq> ?U" using p by fastforce
  moreover have "?B \<subseteq> ?U" using q by fastforce
  ultimately have "same_outside ?U m m2"
    by (rule same_outside_trans [OF same_outside_mono [OF m1(3)] same_outside_mono [OF m2(3)]])
  with m1(1) m2(1,2) l1' show ?thesis by blast
qed

subsection \<open>Traversal\<close>

text \<open>The same traversal over the abstract list.\<close>

fun traverse ::
    "(u64 \<Rightarrow> 's \<Rightarrow> ('r + 's) res option) \<Rightarrow> u64 list \<Rightarrow> 's \<Rightarrow> ('r + 's) res option" where
  "traverse body [] s = Some (Inr (Inr s))"
| "traverse body (n # ns) s =
     (case body n s of
        None \<Rightarrow> None
      | Some (Inl e) \<Rightarrow> Some (Inl e)
      | Some (Inr (Inl r)) \<Rightarrow> Some (Inr (Inl r))
      | Some (Inr (Inr s')) \<Rightarrow> traverse body ns s')"

lemma llTraverse_links:
  "links m (c # cs @ [h]) \<Longrightarrow> h \<notin> set (c # cs) \<Longrightarrow>
    llTraverse body m h c s = traverse body (c # cs) s"
proof (induction cs arbitrary: c s)
  case Nil
  then show ?case
    by (subst llTraverse.simps, auto split: option.splits sum.splits)
      (subst llTraverse.simps, simp)
next
  case (Cons d ds)
  then show ?case
    by (subst llTraverse.simps) (auto split: option.splits sum.splits)
qed

text \<open>On a well-formed list every traversal comes back to the head.\<close>

lemma LL_TRAVERSE_list:
  assumes "llist m h ns"
  shows "LL_TRAVERSE body m h s = traverse body ns s"
proof (cases ns)
  case Nil
  then show ?thesis
    using llist_next [OF assms] by (subst LL_TRAVERSE_def, subst llTraverse.simps) simp
next
  case (Cons c cs)
  then have "llNext m h = c" "links m (c # cs @ [h])" "h \<notin> set (c # cs)"
    using assms llist_distinct [OF assms] by (auto simp: llist_def)
  then show ?thesis using llTraverse_links Cons by (simp add: LL_TRAVERSE_def)
qed

lemma traverse_append:
  "traverse body (xs @ ys) s =
     (case traverse body xs s of
        None \<Rightarrow> None
      | Some (Inl e) \<Rightarrow> Some (Inl e)
      | Some (Inr (Inl r)) \<Rightarrow> Some (Inr (Inl r))
      | Some (Inr (Inr s')) \<Rightarrow> traverse body ys s')"
  by (induction xs arbitrary: s) (auto split: option.splits sum.splits)

subsection \<open>The interface: a list of nodes with insertion in front and deletion\<close>

text \<open>
  What the users of \<open>ll.c\<close> (slab caches, directories of the tmpfs) rely on. \<open>fresh n h ns\<close> says
  that the record of \<open>n\<close> may be linked into the list.
\<close>

locale node_list =
  fixes lst :: "'m \<Rightarrow> u64 \<Rightarrow> u64 list \<Rightarrow> bool"
    and fresh :: "u64 \<Rightarrow> u64 list \<Rightarrow> bool"
    and front :: "u64 \<Rightarrow> u64 \<Rightarrow> 'm \<Rightarrow> 'm res"
    and del :: "u64 \<Rightarrow> 'm \<Rightarrow> 'm res"
    and emp :: "u64 \<Rightarrow> 'm \<Rightarrow> bool res"
  assumes front_list: "lst m h ns \<Longrightarrow> fresh n (h # ns) \<Longrightarrow> \<exists>m'. front h n m = Inr m' \<and> lst m' h (n # ns)"
    and del_list: "lst m h (xs @ n # ys) \<Longrightarrow> \<exists>m'. del n m = Inr m' \<and> lst m' h (xs @ ys)"
    and emp_list: "lst m h ns \<Longrightarrow> emp h m = Inr (ns = [])"
begin

fun pushes :: "u64 \<Rightarrow> u64 list \<Rightarrow> 'm \<Rightarrow> 'm res" where
  "pushes h [] m = Inr m"
| "pushes h (n # ns) m = bnd (front h n m) (pushes h ns)"

lemma push_then_delete:
  assumes "lst m h ns" and "fresh n (h # ns)"
  shows "\<exists>m'. bnd (front h n m) (del n) = Inr m' \<and> lst m' h ns"
  using front_list [OF assms] del_list [of _ h "[]" n ns] by auto

lemma push_not_empty:
  "lst m h ns \<Longrightarrow> fresh n (h # ns) \<Longrightarrow> \<exists>m'. front h n m = Inr m' \<and> emp h m' = Inr False"
  using front_list emp_list by fastforce

lemma pushes_list:
  assumes "lst m h ns"
    and "\<And>xs n ys. ps = xs @ n # ys \<Longrightarrow> fresh n (h # rev xs @ ns)"
  shows "\<exists>m'. pushes h ps m = Inr m' \<and> lst m' h (rev ps @ ns)"
  using assms
proof (induction ps arbitrary: m ns)
  case (Cons p ps)
  obtain m1 where m1: "front h p m = Inr m1" "lst m1 h (p # ns)"
    using front_list [OF Cons.prems(1)] Cons.prems(2) [of "[]" p ps] by auto
  have "fresh n (h # rev xs @ p # ns)" if "ps = xs @ n # ys" for xs n ys
    using Cons.prems(2) [of "p # xs" n ys] that by simp
  from Cons.IH [OF m1(2) this] m1(1) show ?case by auto
qed simp

end

definition nodeFresh :: "u64 \<Rightarrow> u64 list \<Rightarrow> bool" where
  "nodeFresh n ns \<longleftrightarrow> n \<noteq> 0 \<and> (\<forall>x \<in> set ns. napart n x)"

interpretation nl: node_list llist nodeFresh llInsertFront llDelete llEmpty
proof
  fix m h ns n
  assume "llist m h ns" and "nodeFresh n (h # ns)"
  then show "\<exists>m'. llInsertFront h n m = Inr m' \<and> llist m' h (n # ns)"
    using llInsertFront_list [of m h ns n] by (auto simp: nodeFresh_def)
next
  fix m h xs n ys
  assume "llist m h (xs @ n # ys)"
  then show "\<exists>m'. llDelete n m = Inr m' \<and> llist m' h (xs @ ys)"
    using llDelete_list by blast
qed (rule llist_empty)

subsection \<open>Properties\<close>

text \<open>\<open>llInsertFront\<close> puts the node in front of the abstract list, and writes only the node, the
  head and the node that was first.\<close>

theorem llInsertFront_correct:
  assumes "llist m h ns" and "nodeFresh n (h # ns)"
  shows "\<exists>m'. llInsertFront h n m = Inr m' \<and> llist m' h (n # ns) \<and> llEmpty h m' = Inr False
    \<and> same_outside (node_rng n \<union> node_rng h \<union> node_rng (hd (ns @ [h]))) m m'"
  using llInsertFront_list [OF assms(1), of n] assms(2) llist_empty
  by (fastforce simp: nodeFresh_def)

definition demoHead :: mem where
  "demoHead = setNext 0x1000 0x1000 (setPrev 0x1000 0x1000 (\<lambda>_. 0))"

lemma demo_llist: "llist demoHead 0x1000 []"
  by (simp add: demoHead_def llist_def)

lemma demo_fresh: "nodeFresh 0x2000 [0x1000]" "nodeFresh 0x3000 [0x1000, 0x2000]"
  by (simp_all add: nodeFresh_def apart_def)

theorem llInsertFront_correct_witness:
  "\<exists>m'. llInsertFront 0x1000 0x2000 demoHead = Inr m' \<and> llist m' 0x1000 [0x2000]"
  using llInsertFront_correct [OF demo_llist demo_fresh(1)] by auto

text \<open>C7: \<open>llDelete\<close> removes exactly the given node, wherever it stands in the list, and writes only
  its two neighbours.\<close>

theorem llDelete_correct:
  assumes "llist m h (xs @ n # ys)"
  shows "\<exists>m'. llDelete n m = Inr m' \<and> llist m' h (xs @ ys) \<and> llEmpty h m' = Inr (xs = [] \<and> ys = [])
    \<and> same_outside (node_rng (last (h # xs)) \<union> node_rng (hd (ys @ [h]))) m m'"
  using llDelete_list [OF assms] llist_empty by fastforce

theorem llDelete_correct_witness:
  "\<exists>m m'. llInsertFront 0x1000 0x2000 demoHead = Inr m \<and> llDelete 0x2000 m = Inr m' \<and> llist m' 0x1000 []"
proof -
  obtain m where m: "llInsertFront 0x1000 0x2000 demoHead = Inr m" "llist m 0x1000 ([] @ 0x2000 # [])"
    using nl.front_list [OF demo_llist demo_fresh(1)] by auto
  from llDelete_correct [OF m(2)] m(1) show ?thesis by auto
qed

text \<open>inserting nodes one after the other and then running the loop of \<open>LL_TRAVERSE\<close> visits
  exactly those nodes, the last one first, and then the nodes that were there before.\<close>

theorem insert_then_traverse:
  assumes "llist m h ns"
    and "\<forall>xs n ys. ps = xs @ n # ys \<longrightarrow> nodeFresh n (h # rev xs @ ns)"
  shows "\<exists>m'. nl.pushes h ps m = Inr m' \<and> LL_TRAVERSE body m' h s = traverse body (rev ps @ ns) s"
proof -
  have "\<exists>m'. nl.pushes h ps m = Inr m' \<and> llist m' h (rev ps @ ns)"
    by (rule nl.pushes_list [OF assms(1)]) (use assms(2) in simp)
  then show ?thesis using LL_TRAVERSE_list by metis
qed

theorem insert_then_traverse_witness:
  "\<exists>m'. nl.pushes 0x1000 [0x2000, 0x3000] demoHead = Inr m'
    \<and> LL_TRAVERSE (\<lambda>n s. Some (Inr (Inr (s @ [n])))) m' 0x1000 []
      = Some (Inr (Inr [0x3000, 0x2000]))"
proof -
  have f: "\<forall>xs n ys. [0x2000, 0x3000] = xs @ n # ys \<longrightarrow> nodeFresh n (0x1000 # rev xs @ [])"
    using demo_fresh by (auto simp: Cons_eq_append_conv nodeFresh_def)
  show ?thesis
    using insert_then_traverse [OF demo_llist f, where body = "\<lambda>n s. Some (Inr (Inr (s @ [n])))" and s = "[]"]
    by auto
qed

end
