(* ===== verification/Slab.thy ===== *)
theory Slab
  imports Pmm LinkedList
begin

section \<open>The slab allocator (mem/slab.c)\<close>

text \<open>
  A cache hands out objects of one size from slabs of one page. Cache and slab headers are C
  structs in the byte memory; the constants below are the offsets of their fields in the
  x86-64 layout. A slab is its 40-byte header followed by \<open>objPerSlab\<close> slots of \<open>objSize\<close>
  bytes. A slot begins with the 8-byte pointer to the next free slot, and the object the
  caller gets is what follows that pointer.
\<close>

subsection \<open>Layout\<close>

definition SLAB_SIZE_PAGES :: u64 where "SLAB_SIZE_PAGES = 1"
definition sizeofSlab :: u64 where "sizeofSlab = 40"

text \<open>\<open>Slab\<close>: \<open>start\<close> 0, \<open>firstFree\<close> 8, \<open>head\<close> 16, \<open>usedObj\<close> 32.\<close>

definition slabStart :: "mem \<Rightarrow> u64 \<Rightarrow> u64" where "slabStart m s = load64 m s"
definition firstFree :: "mem \<Rightarrow> u64 \<Rightarrow> u64" where "firstFree m s = load64 m (s + 8)"
definition slabHead :: "u64 \<Rightarrow> u64" where "slabHead s = s + 16"
definition usedObj :: "mem \<Rightarrow> u64 \<Rightarrow> u64" where "usedObj m s = load64 m (s + 32)"

text \<open>\<open>SlabCache\<close>: \<open>name\<close> 0 (65 bytes), \<open>full\<close> 72, \<open>partial\<close> 88, \<open>empty\<close> 104, \<open>objSize\<close> 120,
  \<open>objPerSlab\<close> 128, \<open>lock\<close> 136.\<close>

definition cacheFull :: "u64 \<Rightarrow> u64" where "cacheFull c = c + 72"
definition cachePartial :: "u64 \<Rightarrow> u64" where "cachePartial c = c + 88"
definition cacheEmpty :: "u64 \<Rightarrow> u64" where "cacheEmpty c = c + 104"
definition objSize :: "mem \<Rightarrow> u64 \<Rightarrow> u64" where "objSize m c = load64 m (c + 120)"
definition objPerSlab :: "mem \<Rightarrow> u64 \<Rightarrow> u64" where "objPerSlab m c = load64 m (c + 128)"

definition cacheAcquire :: "u64 \<Rightarrow> mem \<Rightarrow> mem res" where
  "cacheAcquire c m =
     bnd (spinlockAcquire (m (c + 136) \<noteq> 0)) (\<lambda>l. Inr (m(c + 136 := of_bool l)))"

definition cacheDrop :: "u64 \<Rightarrow> mem \<Rightarrow> mem" where
  "cacheDrop c m = m(c + 136 := of_bool (spinlockDrop (m (c + 136) \<noteq> 0)))"

subsection \<open>Operations\<close>

text \<open>The loop that chains the slots of a new slab.\<close>

partial_function (option) slabLinkLoop :: "u64 \<Rightarrow> u64 \<Rightarrow> u64 \<Rightarrow> mem \<Rightarrow> mem option" where
  "slabLinkLoop c header i m =
     (if i < objPerSlab m c - 1
      then slabLinkLoop c header (i + 1)
             (store64 m (slabStart m header + i * objSize m c)
                (slabStart m header + (i + 1) * objSize m c))
      else Some m)"

definition slabAllocSlab :: "u64 \<Rightarrow> 'a pmm_state_scheme \<Rightarrow> 'a pmm_state_scheme ores" where
  "slabAllocSlab c k =
     bndO (Some (ASSERT (c \<noteq> 0) (vmmAlloc SLAB_SIZE_PAGES k))) (\<lambda>(header, k).
     if header = 0 then Some (Inl NullDeref) else
     let m = store64 (mem k) header (header + sizeofSlab);
         m = store64 m (header + 8) (slabStart m header)
     in bndO (Some (llInitHead (slabHead header) m)) (\<lambda>m.
        let m = store64 m (header + 32) 0
        in bndO (map_option Inr (slabLinkLoop c header 0 m)) (\<lambda>m.
           bndO (Some (llInsertFront (cacheEmpty c) (slabHead header) m)) (\<lambda>m.
             Some (Inr (k\<lparr>mem := m\<rparr>))))))"

text \<open>The part of \<open>slabAlloc\<close> after a list has been selected: take the first free slot.\<close>

definition slabTake :: "u64 \<Rightarrow> u64 \<Rightarrow> mem \<Rightarrow> (u64 \<times> mem) res" where
  "slabTake c selected m =
     (let slab = LIST_ENTRY (llNext m selected) 16;
          result = firstFree m slab
      in deref result
          (let m = store64 m (slab + 8) (load64 m result);
               m = store64 m (slab + 32) (usedObj m slab + 1)
           in bnd (if usedObj m slab = objPerSlab m c
                   then bnd (llDelete (slabHead slab) m) (\<lambda>m.
                          llInsertFront (cacheFull c) (slabHead slab) m)
                   else Inr m)
               (\<lambda>m. Inr (result + 8, cacheDrop c m))))"

partial_function (option) slabAlloc ::
    "u64 \<Rightarrow> 'a pmm_state_scheme \<Rightarrow> (u64 \<times> 'a pmm_state_scheme) ores" where
  "slabAlloc c k =
     bndO (Some (ASSERT (c \<noteq> 0) (cacheAcquire c (mem k)))) (\<lambda>m.
     bndO (Some (llEmpty (cachePartial c) m)) (\<lambda>noPartial.
     bndO (Some (llEmpty (cacheEmpty c) m)) (\<lambda>noEmpty.
       if noPartial \<and> noEmpty
       then bndO (slabAllocSlab c (k\<lparr>mem := m\<rparr>)) (\<lambda>k.
              slabAlloc c (k\<lparr>mem := cacheDrop c (mem k)\<rparr>))
       else bndO (Some (slabTake c (if noEmpty then cachePartial c else cacheEmpty c) m)) (\<lambda>(r, m).
              Some (Inr (r, k\<lparr>mem := m\<rparr>))))))"

definition slabFree :: "u64 \<Rightarrow> u64 \<Rightarrow> 'a pmm_state_scheme \<Rightarrow> 'a pmm_state_scheme res" where
  "slabFree c addr k =
     ASSERT (c \<noteq> 0) (ASSERT (addr \<noteq> 0)
       (bnd (cacheAcquire c (mem k)) (\<lambda>m.
        let slab = ALIGN_DOWN addr (SLAB_SIZE_PAGES * PAGE_SIZE);
            m = store64 m addr (firstFree m slab);
            m = store64 m (slab + 8) addr;
            m = store64 m (slab + 32) (usedObj m slab - 1)
        in bnd (llDelete (slabHead slab) m) (\<lambda>m.
           bnd (if usedObj m slab = 0
                then llInsertFront (cacheEmpty c) (slabHead slab) m
                else llInsertFront (cachePartial c) (slabHead slab) m) (\<lambda>m.
             Inr (k\<lparr>mem := cacheDrop c m\<rparr>))))))"

definition slabInitCache ::
    "u64 \<Rightarrow> u64 \<Rightarrow> u64 \<Rightarrow> 'a pmm_state_scheme \<Rightarrow> 'a pmm_state_scheme res" where
  "slabInitCache c name osz k =
     ASSERT (c \<noteq> 0) (ASSERT (osz > 0)
       (let osz = ALIGN_UP osz 8 + 8 in
        bnd (strncpy c name 64 (mem k)) (\<lambda>m.
        bnd (llInitHead (cacheFull c) m) (\<lambda>m.
        bnd (llInitHead (cachePartial c) m) (\<lambda>m.
        bnd (llInitHead (cacheEmpty c) m) (\<lambda>m.
        let m = store64 m (c + 120) osz;
            m = store64 m (c + 128) ((SLAB_SIZE_PAGES * PAGE_SIZE - sizeofSlab) div osz)
        in ASSERT (objPerSlab m c \<ge> 1)
            (Inr (k\<lparr>mem := m(c + 136 := of_bool spinlockInit)\<rparr>))))))))"

subsection \<open>Geometry of a slab\<close>

text \<open>Slot \<open>j\<close> of the slab at \<open>s\<close> with slots of \<open>os\<close> bytes; a usable slot count fits the page.\<close>

definition slot :: "u64 \<Rightarrow> nat \<Rightarrow> nat \<Rightarrow> u64" where
  "slot s os j = s + (40 + of_nat (j * os))"

definition geom :: "nat \<Rightarrow> nat \<Rightarrow> bool" where
  "geom os n \<longleftrightarrow> 16 \<le> os \<and> 1 \<le> n \<and> 40 + n * os \<le> 4096"

lemma slot_offset:
  assumes "geom os n" and "j \<le> n"
  shows "unat (40 + of_nat (j * os) :: u64) = 40 + j * os" and "40 + j * os \<le> 4096"
proof -
  have "j * os \<le> n * os" using assms(2) by (rule mult_le_mono1)
  then show le: "40 + j * os \<le> 4096" using assms(1) unfolding geom_def by linarith
  then have "unat (of_nat (j * os) :: u64) = j * os" by (intro unat_of_nat64) simp
  then show "unat (40 + of_nat (j * os) :: u64) = 40 + j * os"
    using le unat_add_no_wrap [of 40 "of_nat (j * os)"] by (simp del: of_nat_mult)
qed

lemma slot_Suc: "slot s os (Suc j) = slot s os j + of_nat os"
  by (simp add: slot_def algebra_simps)

lemma slots_from:
  assumes "geom os n" and "j \<le> n"
  shows "rng (slot s os j) ((n - j) * os) \<subseteq> rng s 4096"
    and "rng (slot s os j) ((n - j) * os) \<subseteq> rng (s + 40) (n * os)"
proof -
  have e: "(n - j) * os = n * os - j * os" by (simp add: diff_mult_distrib)
  have le: "j * os \<le> n * os" using assms(2) by (rule mult_le_mono1)
  have n: "40 + n * os \<le> 4096" using assms(1) by (simp add: geom_def)
  show "rng (slot s os j) ((n - j) * os) \<subseteq> rng s 4096"
    unfolding slot_def using slot_offset [OF assms] n le e by (intro rng_sub) linarith
  have "unat (of_nat (j * os) :: u64) = j * os"
    using slot_offset(2) [OF assms] by (intro unat_of_nat64) simp
  moreover have "slot s os j = s + 40 + of_nat (j * os)" by (simp add: slot_def)
  ultimately show "rng (slot s os j) ((n - j) * os) \<subseteq> rng (s + 40) (n * os)"
    using le e by (simp only:) (intro rng_sub, linarith)
qed

lemma slot_rng:
  assumes "geom os n" and "j < n" and "u \<le> j"
  shows "rng (slot s os j) os \<subseteq> rng (slot s os u) ((n - u) * os)"
proof -
  obtain d where j: "j = u + d" using assms(3) le_Suc_ex by blast
  have "slot s os j = slot s os u + of_nat (d * os)" by (simp add: j slot_def algebra_simps)
  moreover have "d * os \<le> j * os" using j by simp
  then have "d * os \<le> 4096"
    using slot_offset(2) [OF assms(1) less_imp_le [OF assms(2)]] by linarith
  then have "unat (of_nat (d * os) :: u64) = d * os" by (intro unat_of_nat64) simp
  moreover have "(d + 1) * os \<le> (n - u) * os" using j assms(2) by (intro mult_le_mono1) simp
  then have "d * os + os \<le> (n - u) * os" by simp
  ultimately show ?thesis by (simp only:) (intro rng_sub, simp)
qed

lemma slots_apart:
  assumes "geom os n" and "i < j" and "j < n"
  shows "apart (slot s os i) os (slot s os j) os"
  unfolding slot_def
proof (rule apart_base)
  have "(i + 1) * os \<le> j * os" using assms(2) by (intro mult_le_mono1) simp
  then show "unat (40 + of_nat (i * os) :: u64) + os \<le> unat (40 + of_nat (j * os) :: u64)"
    using slot_offset(1) [OF assms(1), of i] slot_offset(1) [OF assms(1), of j] assms(2,3) by simp
  have "(j + 1) * os \<le> n * os" using assms(3) by (intro mult_le_mono1) simp
  then show "unat (40 + of_nat (j * os) :: u64) + os \<le> 2 ^ 64"
    using slot_offset(1) [OF assms(1), of j] assms by (simp add: geom_def)
qed (use assms(1) in \<open>simp add: geom_def\<close>)

text \<open>The link of each slot below \<open>n - 1\<close> points to the next slot.\<close>

definition linked :: "mem \<Rightarrow> u64 \<Rightarrow> nat \<Rightarrow> nat \<Rightarrow> nat \<Rightarrow> bool" where
  "linked m s os u w \<longleftrightarrow> (\<forall>j. u \<le> j \<and> j < w \<longrightarrow> load64 m (slot s os j) = slot s os (Suc j))"

lemma link_rng: "geom os n \<Longrightarrow> rng (slot s os j) 8 \<subseteq> rng (slot s os j) os"
  by (rule rng_mono) (simp add: geom_def)

lemma linked_frame:
  assumes "linked m s os u (n - 1)" and "geom os n" and "same_outside A m m'"
    and "rng (slot s os u) ((n - u) * os) \<inter> A = {}"
  shows "linked m' s os u (n - 1)"
  unfolding linked_def
proof (intro allI impI)
  fix j assume j: "u \<le> j \<and> j < n - 1"
  then have "rng (slot s os j) 8 \<inter> A = {}"
    using link_rng [OF assms(2)] slot_rng [OF assms(2), of j u] assms(4) by fastforce
  then show "load64 m' (slot s os j) = slot s os (Suc j)"
    using load_same_outside [OF assms(3)] assms(1) j by (simp add: linked_def)
qed

lemma slabLinkLoop_spec:
  assumes g: "geom os n" and sep: "rng s 4096 \<inter> rng c 144 = {}"
    and "objSize m c = of_nat os" and "objPerSlab m c = of_nat n"
    and "slabStart m s = s + 40" and "linked m s os 0 i" and "i < n"
  shows "\<exists>m'. slabLinkLoop c s (of_nat i) m = Some m' \<and> linked m' s os 0 (n - 1)
    \<and> same_outside (rng (s + 40) (n * os)) m m'"
  using assms(3-)
proof (induction "n - 1 - i" arbitrary: i m)
  case 0
  then have "i = n - 1" by simp
  moreover have "1 \<le> n" using g by (simp add: geom_def)
  ultimately show ?case using 0 by (subst slabLinkLoop.simps) simp
next
  case (Suc d)
  have n12: "n \<le> 2 ^ 12" "i < n - 1"
  proof -
    have "n * 1 \<le> n * os" using g by (intro mult_le_mono2) (simp add: geom_def)
    moreover have "40 + n * os \<le> 4096" using g by (simp only: geom_def)
    ultimately have "n \<le> 4096" by linarith
    then show "n \<le> 2 ^ 12" by simp
  qed (use Suc.hyps(2) in simp)
  have lt: "(of_nat i :: u64) < of_nat n - 1"
  proof -
    have "of_nat n - 1 = (of_nat (n - 1) :: u64)" using n12 by (simp add: of_nat_diff)
    moreover have "(of_nat i :: u64) < of_nat (n - 1)"
      using n12 unat_of_nat64 [of i] unat_of_nat64 [of "n - 1"] by (simp add: word_less_nat_alt)
    ultimately show ?thesis by simp
  qed
  let ?m = "store64 m (slot s os i) (slot s os (Suc i))"
  have step: "slabLinkLoop c s (of_nat i) m = slabLinkLoop c s (of_nat (Suc i)) ?m"
    using lt Suc.prems(1-3)
    by (subst slabLinkLoop.simps) (simp add: slot_def algebra_simps)
  have sub: "rng (slot s os i) 8 \<subseteq> rng (s + 40) (n * os)" "rng (slot s os i) 8 \<subseteq> rng s 4096"
    using link_rng [OF g] slot_rng [OF g, of i 0] slots_from [OF g, of 0] n12 by fastforce+
  have out: "same_outside (rng (s + 40) (n * os)) m ?m"
    by (rule store_same_outside' [OF sub(1)])
  have out': "same_outside (rng s 4096) m ?m" by (rule store_same_outside' [OF sub(2)])
  have cfields: "rng (c + 120) 8 \<subseteq> rng c 144" "rng (c + 128) 8 \<subseteq> rng c 144"
    by (rule rng_sub, simp)+
  have cs: "objSize ?m c = of_nat os" "objPerSlab ?m c = of_nat n"
    using load_same_outside [OF out', of "c + 120" 8] load_same_outside [OF out', of "c + 128" 8]
      cfields sep Suc.prems(1,2) by (auto simp: objSize_def objPerSlab_def)
  have "apart (s + 0) 8 (slot s os i) 8"
    unfolding slot_def using slot_offset [OF g, of i] n12 by (intro apart_base) (simp_all del: of_nat_mult, linarith)
  then have st: "slabStart ?m s = s + 40"
    using Suc.prems(3) by (simp add: slabStart_def load_store_apart apart_sym)
  have lk: "linked ?m s os 0 (Suc i)"
    unfolding linked_def
  proof (intro allI impI)
    fix j assume j: "0 \<le> j \<and> j < Suc i"
    show "load64 ?m (slot s os j) = slot s os (Suc j)"
    proof (cases "j = i")
      case False
      then have "apart (slot s os j) os (slot s os i) os"
        using j n12 by (intro slots_apart [OF g]) auto
      then have "apart (slot s os i) 8 (slot s os j) 8"
        using g by (auto simp: geom_def intro: apart_sym apart_shrink)
      with False j Suc.prems(4) show ?thesis by (simp add: load_store_apart linked_def)
    qed simp
  qed
  have "d = n - 1 - Suc i" "Suc i < n" using Suc.hyps(2) n12(2) by auto
  from Suc.hyps(1) [OF this(1) cs st lk this(2)]
  obtain m' where "slabLinkLoop c s (of_nat (Suc i)) ?m = Some m'" "linked m' s os 0 (n - 1)"
    "same_outside (rng (s + 40) (n * os)) ?m m'" by blast
  then show ?case using step same_outside_trans [OF out] by auto
qed

subsection \<open>What a cache looks like in memory\<close>

text \<open>
  The view of a cache from which nothing has been freed: the slabs that are used up, and the
  slab being filled with the number of its slots already taken. (It sits on the list the code
  calls \<open>empty\<close>; the list \<open>partial\<close> gets slabs from \<open>slabFree\<close> only.)
\<close>

record slab_view =
  vFull :: "u64 list"
  vCur :: "(u64 \<times> nat) option"

definition curSlabs :: "slab_view \<Rightarrow> u64 list" where
  "curSlabs v = (case vCur v of None \<Rightarrow> [] | Some (s, u) \<Rightarrow> [s])"

definition slabs :: "slab_view \<Rightarrow> u64 list" where
  "slabs v = curSlabs v @ vFull v"

definition cur_ok :: "mem \<Rightarrow> nat \<Rightarrow> nat \<Rightarrow> u64 \<Rightarrow> nat \<Rightarrow> bool" where
  "cur_ok m os n s u \<longleftrightarrow> u < n \<and> usedObj m s = of_nat u \<and> firstFree m s = slot s os u
     \<and> linked m s os u (n - 1)"

text \<open>Slabs lie in pages of their own, off the cache and off each other.\<close>

definition pages_ok :: "u64 \<Rightarrow> u64 list \<Rightarrow> bool" where
  "pages_ok c ss \<longleftrightarrow> (\<forall>s \<in> set ss. s \<noteq> 0 \<and> unat s + 4096 \<le> 2 ^ 64 \<and> rng s 4096 \<inter> rng c 144 = {})
     \<and> sorted_wrt (\<lambda>s t. rng s 4096 \<inter> rng t 4096 = {}) ss"

definition cache_ok :: "mem \<Rightarrow> u64 \<Rightarrow> nat \<Rightarrow> nat \<Rightarrow> bool" where
  "cache_ok m c os n \<longleftrightarrow> c \<noteq> 0 \<and> geom os n \<and> objSize m c = of_nat os \<and> objPerSlab m c = of_nat n
     \<and> llist m (cachePartial c) []"

definition cache_lists ::
    "mem \<Rightarrow> u64 \<Rightarrow> nat \<Rightarrow> nat \<Rightarrow> u64 list \<Rightarrow> u64 list \<Rightarrow> bool" where
  "cache_lists m c os n es fs \<longleftrightarrow> cache_ok m c os n
     \<and> llist m (cacheFull c) (map slabHead fs) \<and> llist m (cacheEmpty c) (map slabHead es)"

definition slab_rep :: "mem \<Rightarrow> u64 \<Rightarrow> nat \<Rightarrow> nat \<Rightarrow> slab_view \<Rightarrow> bool" where
  "slab_rep m c os n v \<longleftrightarrow> cache_lists m c os n (curSlabs v) (vFull v) \<and> pages_ok c (slabs v)
     \<and> (case vCur v of None \<Rightarrow> True | Some (s, u) \<Rightarrow> cur_ok m os n s u)"

text \<open>The bytes this depends on: the cache but for its lock, the headers, the slots not yet taken.\<close>

definition freeSlots :: "nat \<Rightarrow> nat \<Rightarrow> slab_view \<Rightarrow> u64 set" where
  "freeSlots os n v =
     (case vCur v of None \<Rightarrow> {} | Some (s, u) \<Rightarrow> rng (slot s os u) ((n - u) * os))"

definition headers :: "slab_view \<Rightarrow> u64 set" where
  "headers v = (\<Union>s \<in> set (slabs v). rng s 40)"

text \<open>The parts of a cache struct and of a slab header, as byte ranges.\<close>

lemma cache_parts:
  "node_rng (cacheFull c) \<subseteq> rng c 136" "node_rng (cachePartial c) \<subseteq> rng c 136"
  "node_rng (cacheEmpty c) \<subseteq> rng c 136" "rng (c + 120) 8 \<subseteq> rng c 136" "rng (c + 128) 8 \<subseteq> rng c 136"
  "rng c 136 \<subseteq> rng c 144" "rng (c + 136) 1 \<subseteq> rng c 144"
  unfolding cacheFull_def cachePartial_def cacheEmpty_def
  by (intro rng_sub rng_mono; simp)+

lemma cache_parts_disjoint:
  "node_rng (cacheFull c) \<inter> node_rng (cachePartial c) = {}"
  "node_rng (cacheFull c) \<inter> node_rng (cacheEmpty c) = {}"
  "node_rng (cachePartial c) \<inter> node_rng (cacheEmpty c) = {}"
  "node_rng (cacheFull c) \<inter> rng (c + 120) 16 = {}"
  "node_rng (cachePartial c) \<inter> rng (c + 120) 16 = {}"
  "node_rng (cacheEmpty c) \<inter> rng (c + 120) 16 = {}"
  "rng c 136 \<inter> rng (c + 136) 1 = {}"
  unfolding cacheFull_def cachePartial_def cacheEmpty_def
  using rng_disjoint_base [of 0 136 136 1 c] by (intro rng_disjoint_base | simp)+

lemma cache_size_parts: "rng (c + 120) 8 \<subseteq> rng (c + 120) 16" "rng (c + 128) 8 \<subseteq> rng (c + 120) 16"
  using rng_sub [of 8 8 16 "c + 120"] rng_mono [of 8 16 "c + 120"] by (simp_all add: add.assoc)

lemma header_parts:
  "node_rng (slabHead s) \<subseteq> rng s 40" "rng (s + 8) 8 \<subseteq> rng s 40" "rng (s + 32) 8 \<subseteq> rng s 40"
  "rng s 8 \<subseteq> rng s 40" "rng s 40 \<subseteq> rng s 4096"
  unfolding slabHead_def by (intro rng_sub rng_mono; simp)+

lemma header_parts_disjoint:
  "node_rng (slabHead s) \<inter> rng (s + 8) 8 = {}" "node_rng (slabHead s) \<inter> rng (s + 32) 8 = {}"
  "rng (s + 8) 8 \<inter> rng (s + 32) 8 = {}" "rng s 40 \<inter> rng (s + 40) k = {}" if "k \<le> 4096"
proof -
  show "node_rng (slabHead s) \<inter> rng (s + 8) 8 = {}"
    unfolding slabHead_def using rng_disjoint_base [of 8 8 16 16 s] by (simp add: Int_commute)
  show "node_rng (slabHead s) \<inter> rng (s + 32) 8 = {}"
    unfolding slabHead_def by (rule rng_disjoint_base) simp_all
  show "rng (s + 8) 8 \<inter> rng (s + 32) 8 = {}" by (rule rng_disjoint_base) simp_all
  show "rng s 40 \<inter> rng (s + 40) k = {}"
    using rng_disjoint_base [of 0 40 40 k s] that by simp
qed

lemma slots_off_header:
  assumes "geom os n" and "u \<le> n"
  shows "rng s 40 \<inter> rng (slot s os u) ((n - u) * os) = {}"
proof -
  have "n * os \<le> 4096" using assms(1) unfolding geom_def by linarith
  then show ?thesis using header_parts_disjoint(4) slots_from(2) [OF assms] by blast
qed

lemma cache_lists_frame:
  assumes l: "cache_lists m c os n es fs" and out: "same_outside A m m'"
    and dis: "rng c 136 \<inter> A = {}"
    and nodes: "\<And>t. t \<in> set (es @ fs) \<Longrightarrow> node_rng (slabHead t) \<inter> A = {}"
  shows "cache_lists m' c os n es fs"
proof -
  have ch: "node_rng (cacheFull c) \<inter> A = {}" "node_rng (cachePartial c) \<inter> A = {}"
    "node_rng (cacheEmpty c) \<inter> A = {}" "rng (c + 120) 8 \<inter> A = {}" "rng (c + 128) 8 \<inter> A = {}"
    using dis cache_parts [of c] by blast+
  have off: "node_rng x \<inter> A = {}"
    if "x \<in> set (h # map slabHead ss)" "set ss \<subseteq> set (es @ fs)" "node_rng h \<inter> A = {}" for x h ss
    using that nodes by (metis (no_types, lifting) imageE list.set_map set_ConsD subsetD)
  have "llist m' (cacheFull c) (map slabHead fs)"
    by (rule llist_frame [OF _ out off]) (use l ch(1) in \<open>auto simp: cache_lists_def\<close>)
  moreover have "llist m' (cacheEmpty c) (map slabHead es)"
    by (rule llist_frame [OF _ out off]) (use l ch(3) in \<open>auto simp: cache_lists_def\<close>)
  moreover have "llist m' (cachePartial c) []"
    by (rule llist_frame [OF _ out]) (use l ch(2) in \<open>auto simp: cache_lists_def cache_ok_def\<close>)
  ultimately show ?thesis
    using l load_same_outside [OF out ch(4)] load_same_outside [OF out ch(5)]
    by (simp add: cache_lists_def cache_ok_def objSize_def objPerSlab_def)
qed

lemma slab_rep_frame:
  assumes rep: "slab_rep m c os n v" and out: "same_outside A m m'"
    and dis: "rng c 136 \<inter> A = {}" "headers v \<inter> A = {}" "freeSlots os n v \<inter> A = {}"
  shows "slab_rep m' c os n v"
proof -
  have hd: "rng s 40 \<inter> A = {}" if "s \<in> set (slabs v)" for s
    using dis(2) that by (auto simp: headers_def)
  have nodes: "node_rng (slabHead s) \<inter> A = {}" if "s \<in> set (curSlabs v @ vFull v)" for s
    using hd [of s] that header_parts(1) [of s] unfolding slabs_def by blast
  have "cache_lists m' c os n (curSlabs v) (vFull v)"
    using cache_lists_frame [OF _ out dis(1) nodes] rep by (simp add: slab_rep_def)
  moreover have "cur_ok m' os n s u" if cur: "vCur v = Some (s, u)" for s u
  proof -
    have s: "s \<in> set (slabs v)" using cur by (simp add: slabs_def curSlabs_def)
    have ok: "cur_ok m os n s u" "geom os n"
      using rep cur by (simp_all add: slab_rep_def cache_lists_def cache_ok_def)
    have h: "rng (s + 8) 8 \<inter> A = {}" "rng (s + 32) 8 \<inter> A = {}"
      using hd [OF s] header_parts [of s] by blast+
    have "linked m' s os u (n - 1)"
      using linked_frame [OF _ ok(2) out] ok(1) dis(3) cur by (simp add: cur_ok_def freeSlots_def)
    then show ?thesis
      using ok(1) load_same_outside [OF out h(1)] load_same_outside [OF out h(2)]
      by (simp add: cur_ok_def usedObj_def firstFree_def)
  qed
  ultimately show ?thesis using rep by (auto simp: slab_rep_def split: option.splits)
qed

text \<open>Nodes of the lists, and the list heads in the cache, do not overlap.\<close>

lemma nodes_napart:
  assumes "node_rng a \<inter> node_rng b = {}"
  shows "napart a b"
  using assms by (intro apartI) simp_all

lemma cache_lists_retire:
  assumes l: "cache_lists m c os n [s] fs"
    and c: "\<And>t. t \<in> set (s # fs) \<Longrightarrow> node_rng (slabHead t) \<inter> rng c 136 = {}"
    and d: "\<And>t. t \<in> set fs \<Longrightarrow> node_rng (slabHead s) \<inter> node_rng (slabHead t) = {}"
    and s0: "slabHead s \<noteq> 0"
  shows "\<exists>m1 m2. llDelete (slabHead s) m = Inr m1 \<and> llInsertFront (cacheFull c) (slabHead s) m1 = Inr m2
    \<and> cache_lists m2 c os n [] (s # fs)
    \<and> same_outside (rng c 136 \<union> (\<Union>t \<in> set (s # fs). node_rng (slabHead t))) m m2"
proof -
  have "llist m (cacheEmpty c) ([] @ slabHead s # [])" using l by (simp add: cache_lists_def)
  from llDelete_list [OF this] obtain m1 where m1: "llDelete (slabHead s) m = Inr m1"
    "llist m1 (cacheEmpty c) []" "same_outside (node_rng (cacheEmpty c)) m m1" by auto
  note cp = cache_parts [of c] and cd = cache_parts_disjoint [of c] cache_size_parts [of c]
  have part1: "llist m1 (cachePartial c) []"
    by (rule llist_frame [OF _ m1(3)]) (use l cd(3) in \<open>auto simp: cache_lists_def cache_ok_def\<close>)
  have full1: "llist m1 (cacheFull c) (map slabHead fs)"
  proof (rule llist_frame [OF _ m1(3)])
    show "node_rng x \<inter> node_rng (cacheEmpty c) = {}" if x: "x \<in> set (cacheFull c # map slabHead fs)" for x
    proof (cases "x = cacheFull c")
      case False
      then obtain t where "t \<in> set fs" "x = slabHead t" using x by auto
      then show ?thesis using c [of t] cp(3) by (simp only: list.set) blast
    qed (use cd(2) in simp)
  qed (use l in \<open>simp add: cache_lists_def\<close>)
  have ap: "napart (slabHead s) x" if x: "x \<in> set (cacheFull c # map slabHead fs)" for x
  proof (rule nodes_napart, cases "x = cacheFull c")
    case True
    then show "node_rng (slabHead s) \<inter> node_rng x = {}" using c [of s] cp(1) by (simp only: list.set) blast
  next
    case False
    then obtain t where "t \<in> set fs" "x = slabHead t" using x by auto
    then show "node_rng (slabHead s) \<inter> node_rng x = {}" using d [of t] by simp
  qed
  let ?B = "node_rng (slabHead s) \<union> node_rng (cacheFull c) \<union> node_rng (hd (map slabHead fs @ [cacheFull c]))"
  from llInsertFront_list [OF full1 s0 ap] obtain m2 where m2:
    "llInsertFront (cacheFull c) (slabHead s) m1 = Inr m2"
    "llist m2 (cacheFull c) (map slabHead (s # fs))" "same_outside ?B m1 m2" by auto
  have B: "?B \<subseteq> node_rng (cacheFull c) \<union> (\<Union>t \<in> set (s # fs). node_rng (slabHead t))"
    by (cases fs) auto
  have offB: "X \<inter> ?B = {}" if X: "X \<subseteq> rng c 136" "X \<inter> node_rng (cacheFull c) = {}" for X
  proof -
    have "X \<inter> node_rng (slabHead t) = {}" if "t \<in> set (s # fs)" for t using c [OF that] X(1) by blast
    then show ?thesis using B X(2) by blast
  qed
  have e2: "llist m2 (cacheEmpty c) []"
    by (rule llist_frame [OF m1(2) m2(3)]) (use offB [OF cp(3)] cd(2) in auto)
  have p2: "llist m2 (cachePartial c) []"
    by (rule llist_frame [OF part1 m2(3)]) (use offB [OF cp(2)] cd(1) in auto)
  have sz: "rng (c + 120) 8 \<inter> node_rng (cacheFull c) = {}" "rng (c + 128) 8 \<inter> node_rng (cacheFull c) = {}"
    "rng (c + 120) 8 \<inter> node_rng (cacheEmpty c) = {}" "rng (c + 128) 8 \<inter> node_rng (cacheEmpty c) = {}"
    using cd by blast+
  have "load64 m2 (c + 120) = load64 m (c + 120)" "load64 m2 (c + 128) = load64 m (c + 128)"
    using load_same_outside [OF m2(3) offB [OF cp(4) sz(1)]] load_same_outside [OF m1(3) sz(3)]
      load_same_outside [OF m2(3) offB [OF cp(5) sz(2)]] load_same_outside [OF m1(3) sz(4)] by simp_all
  then have "cache_lists m2 c os n [] (s # fs)"
    using l m2(2) e2 p2 by (simp add: cache_lists_def cache_ok_def objSize_def objPerSlab_def)
  moreover have "same_outside (rng c 136 \<union> (\<Union>t \<in> set (s # fs). node_rng (slabHead t))) m m2"
  proof (rule same_outside_trans)
    show "same_outside (rng c 136 \<union> (\<Union>t \<in> set (s # fs). node_rng (slabHead t))) m m1"
      by (rule same_outside_mono [OF m1(3)]) (use cp(3) in blast)
    show "same_outside (rng c 136 \<union> (\<Union>t \<in> set (s # fs). node_rng (slabHead t))) m1 m2"
      by (rule same_outside_mono [OF m2(3) order_trans [OF B]]) (use cp(1) in blast)
  qed
  ultimately show ?thesis using m1(1) m2(1) by blast
qed

subsection \<open>Taking a slot\<close>

definition takeView :: "nat \<Rightarrow> slab_view \<Rightarrow> u64 \<Rightarrow> nat \<Rightarrow> slab_view" where
  "takeView n v s u =
     (if u + 1 < n then v\<lparr>vCur := Some (s, u + 1)\<rparr> else v\<lparr>vFull := s # vFull v, vCur := None\<rparr>)"

lemma slabs_takeView: "vCur v = Some (s, u) \<Longrightarrow> slabs (takeView n v s u) = slabs v"
  by (simp add: slabs_def curSlabs_def takeView_def)

lemma headers_takeView: "vCur v = Some (s, u) \<Longrightarrow> headers (takeView n v s u) = headers v"
  by (simp add: headers_def slabs_takeView)

lemma slab_LIST_ENTRY: "LIST_ENTRY (slabHead s) 16 = s"
  by (simp add: LIST_ENTRY_def slabHead_def)

lemma slot_window:
  assumes "geom os n" and "u < n" and "unat s + 4096 \<le> 2 ^ 64"
  shows "unat (slot s os u) = unat s + (40 + u * os)" and "40 + u * os + os \<le> 4096" and "slot s os u \<noteq> 0"
    and "slot s os u + 8 \<noteq> 0" and "unat (slot s os u + 8) + (os - 8) \<le> 2 ^ 64"
proof -
  have "(u + 1) * os \<le> n * os" using assms(2) by (intro mult_le_mono1) simp
  then show le: "40 + u * os + os \<le> 4096" using assms(1) by (simp add: geom_def)
  have o: "unat (40 + of_nat (u * os) :: u64) = 40 + u * os"
    using slot_offset [OF assms(1), of u] assms(2) by simp
  have os: "16 \<le> os" using assms(1) by (simp add: geom_def)
  show w: "unat (slot s os u) = unat s + (40 + u * os)"
    unfolding slot_def using o le assms(3) os by (subst unat_add_no_wrap) (simp_all del: of_nat_mult)
  then show "slot s os u \<noteq> 0" by (auto simp: unat_eq_0 [symmetric])
  have w8: "unat (slot s os u + 8) = unat s + (40 + u * os) + 8"
    using w le assms(3) os by (subst unat_add_no_wrap) simp_all
  then show "slot s os u + 8 \<noteq> 0" by (auto simp: unat_eq_0 [symmetric])
  show "unat (slot s os u + 8) + (os - 8) \<le> 2 ^ 64" unfolding w8 using le assms(3) os by linarith
qed

lemmas slot_nonzero = slot_window(3)

text \<open>The two stores into the header: bump the first free slot and the count.\<close>

lemma header_bump:
  fixes m s x
  defines "m2 \<equiv> store64 (store64 m (s + 8) x) (s + 32) (usedObj (store64 m (s + 8) x) s + 1)"
  shows "usedObj m2 s = usedObj m s + 1" and "firstFree m2 s = x"
    and "same_outside (rng (s + 8) 8 \<union> rng (s + 32) 8) m m2"
proof -
  have "apart (s + 8) 8 (s + 32) 8" by (rule apart_base) simp_all
  then show "usedObj m2 s = usedObj m s + 1" "firstFree m2 s = x"
    by (simp_all add: m2_def usedObj_def firstFree_def load_store_apart apart_sym)
  show "same_outside (rng (s + 8) 8 \<union> rng (s + 32) 8) m m2"
    unfolding m2_def by (rule same_outside_trans; rule store_same_outside') auto
qed

text \<open>What \<open>pages_ok\<close> gives for one slab and for two.\<close>

lemma pages_okD:
  assumes "pages_ok c ss" and "s \<in> set ss"
  shows "s \<noteq> 0" and "unat s + 4096 \<le> 2 ^ 64" and "rng s 4096 \<inter> rng c 144 = {}"
    and "rng s 40 \<inter> rng c 144 = {}" and "slabHead s \<noteq> 0"
proof -
  show a: "s \<noteq> 0" "unat s + 4096 \<le> 2 ^ 64" "rng s 4096 \<inter> rng c 144 = {}"
    using assms by (auto simp: pages_ok_def)
  then show "rng s 40 \<inter> rng c 144 = {}" using header_parts(5) [of s] by blast
  have "unat (slabHead s) = unat s + 16"
    unfolding slabHead_def using a(2) by (subst unat_add_no_wrap) simp_all
  then show "slabHead s \<noteq> 0" by (auto simp: unat_eq_0 [symmetric])
qed

lemma pages_ok_two:
  assumes "pages_ok c (s # ss)" and "t \<in> set ss"
  shows "rng s 4096 \<inter> rng t 4096 = {}" and "rng s 40 \<inter> rng t 40 = {}"
    and "node_rng (slabHead s) \<inter> node_rng (slabHead t) = {}"
proof -
  show a: "rng s 4096 \<inter> rng t 4096 = {}" using assms by (simp add: pages_ok_def)
  then show "rng s 40 \<inter> rng t 40 = {}" using header_parts(5) by blast
  then show "node_rng (slabHead s) \<inter> node_rng (slabHead t) = {}" using header_parts(1) by blast
qed

text \<open>Bumping the header of the current slab disturbs neither the lists nor the free slots.\<close>

lemma bump_frame:
  assumes l: "cache_lists m c os n [s] fs" and po: "pages_ok c (s # fs)"
    and lk: "linked m s os u (n - 1)" and u: "u \<le> n"
    and out: "same_outside (rng (s + 8) 8 \<union> rng (s + 32) 8) m m2"
  shows "cache_lists m2 c os n [s] fs" and "linked m2 s os u (n - 1)"
proof -
  let ?A = "rng (s + 8) 8 \<union> rng (s + 32) 8"
  have A: "?A \<subseteq> rng s 40" using header_parts [of s] by blast
  have g: "geom os n" using l by (simp add: cache_lists_def cache_ok_def)
  have "rng c 136 \<inter> ?A = {}" using A pages_okD(4) [OF po, of s] cache_parts(6) [of c] by auto
  moreover have "node_rng (slabHead t) \<inter> ?A = {}" if "t \<in> set ([s] @ fs)" for t
  proof (cases "t = s")
    case True
    then show ?thesis using header_parts_disjoint(1,2) [of 0 s] by blast
  next
    case False
    then have "t \<in> set fs" using that by simp
    then show ?thesis using pages_ok_two(2) [OF po] A header_parts(1) [of t] by blast
  qed
  ultimately show "cache_lists m2 c os n [s] fs" by (rule cache_lists_frame [OF l out])
  show "linked m2 s os u (n - 1)"
    by (rule linked_frame [OF lk g out]) (use slots_off_header [OF g u, of s] A in blast)
qed

lemma n_small: "geom os n \<Longrightarrow> n \<le> 4096"
proof -
  assume g: "geom os n"
  then have "n * 1 \<le> n * os" by (intro mult_le_mono2) (simp add: geom_def)
  then show "n \<le> 4096" using g unfolding geom_def by linarith
qed

lemma used_eq_count: "geom os n \<Longrightarrow> u < n \<Longrightarrow> (of_nat u + 1 = (of_nat n :: u64)) \<longleftrightarrow> u + 1 = n"
proof -
  assume g: "geom os n" and u: "u < n"
  have "unat (of_nat (u + 1) :: u64) = u + 1" "unat (of_nat n :: u64) = n"
    using n_small [OF g] u by (intro unat_of_nat64; simp)+
  then have "(of_nat (u + 1) :: u64) = of_nat n \<longleftrightarrow> u + 1 = n" by metis
  then show ?thesis by (simp add: add.commute)
qed

lemma cacheDrop_outside: "same_outside (rng (c + 136) 1) m (cacheDrop c m)"
  and cacheDrop_lock: "cacheDrop c m (c + 136) = 0"
  by (auto simp: cacheDrop_def same_outside_def in_rng unat_eq_0)

text \<open>A view stays true when the lock byte changes.\<close>

lemma headers_off_cache: "pages_ok c (slabs v) \<Longrightarrow> headers v \<inter> rng c 144 = {}"
  using pages_okD(4) by (fastforce simp: headers_def)

lemma slots_off_cache:
  assumes "pages_ok c (slabs v)" and "geom os n" and "\<And>s u. vCur v = Some (s, u) \<Longrightarrow> u \<le> n"
  shows "freeSlots os n v \<inter> rng c 144 = {}"
proof (cases "vCur v")
  case (Some p)
  obtain s u where p: "p = (s, u)" by (cases p)
  then have "s \<in> set (slabs v)" using Some by (simp add: slabs_def curSlabs_def)
  from pages_okD(3) [OF assms(1) this] slots_from(1) [OF assms(2), of u s] assms(3)
  show ?thesis using Some p by (auto simp: freeSlots_def)
qed (simp add: freeSlots_def)

lemma slab_rep_lock:
  assumes rep: "slab_rep m c os n v" and out: "same_outside (rng (c + 136) 1) m m'"
  shows "slab_rep m' c os n v"
proof -
  have po: "pages_ok c (slabs v)" and g: "geom os n"
    and u: "\<And>s u. vCur v = Some (s, u) \<Longrightarrow> u \<le> n"
    using rep by (auto simp: slab_rep_def cache_lists_def cache_ok_def cur_ok_def)
  have "rng (c + 136) 1 \<subseteq> rng c 144" using cache_parts(7) .
  moreover have "freeSlots os n v \<inter> rng c 144 = {}" by (rule slots_off_cache [OF po g u])
  ultimately have "headers v \<inter> rng (c + 136) 1 = {}" "freeSlots os n v \<inter> rng (c + 136) 1 = {}"
    using headers_off_cache [OF po] by blast+
  with cache_parts_disjoint(7) show ?thesis by (rule slab_rep_frame [OF rep out])
qed

lemma slabTake_spec:
  assumes rep: "slab_rep m c os n v" and cur: "vCur v = Some (s, u)"
  shows "\<exists>m'. slabTake c (cacheEmpty c) m = Inr (slot s os u + 8, m')
    \<and> slab_rep m' c os n (takeView n v s u) \<and> m' (c + 136) = 0
    \<and> same_outside (rng c 144 \<union> headers v) m m'"
proof -
  have sl: "slabs v = s # vFull v" "curSlabs v = [s]" using cur by (simp_all add: slabs_def curSlabs_def)
  have l: "cache_lists m c os n [s] (vFull v)" and po: "pages_ok c (s # vFull v)"
    and ok: "cur_ok m os n s u"
    using rep cur sl by (simp_all add: slab_rep_def)
  have g: "geom os n" using l by (simp add: cache_lists_def cache_ok_def)
  have un: "u < n" "usedObj m s = of_nat u" "firstFree m s = slot s os u" "linked m s os u (n - 1)"
    using ok by (simp_all add: cur_ok_def)
  have "s \<in> set (s # vFull v)" by simp
  note s = pages_okD [OF po this]
  have "llist m (cacheEmpty c) [slabHead s]" using l by (simp add: cache_lists_def)
  from llist_next [OF this] have sel: "LIST_ENTRY (llNext m (cacheEmpty c)) 16 = s"
    by (simp add: slab_LIST_ENTRY)
  define x where "x = load64 m (slot s os u)"
  define m2 where "m2 = store64 (store64 m (s + 8) x) (s + 32) (usedObj (store64 m (s + 8) x) s + 1)"
  note hb = header_bump [where m = m and s = s and x = x, folded m2_def]
  note bf = bump_frame [OF l po un(4) less_imp_le [OF un(1)] hb(3)]
  have per: "objPerSlab m2 c = of_nat n" using bf(1) by (simp add: cache_lists_def cache_ok_def)
  have used: "usedObj m2 s = of_nat (u + 1)" using hb(1) un(2) by simp
  have full: "usedObj m2 s = objPerSlab m2 c \<longleftrightarrow> u + 1 = n"
    using used_eq_count [OF g un(1)] by (simp add: hb(1) un(2) per)
  have "slabTake c (cacheEmpty c) m =
      bnd (if usedObj m2 s = objPerSlab m2 c then bnd (llDelete (slabHead s) m2) (\<lambda>m. llInsertFront (cacheFull c) (slabHead s) m)
           else Inr m2) (\<lambda>m. Inr (slot s os u + 8, cacheDrop c m))"
    using slot_nonzero [OF g un(1) s(2)]
    by (simp add: slabTake_def Let_def sel un(3) m2_def x_def)
  note run = this [unfolded full]
  have hd: "rng (s + 8) 8 \<union> rng (s + 32) 8 \<subseteq> headers v"
    using header_parts [of s] sl by (auto simp: headers_def)
  have o2: "same_outside (rng c 144 \<union> headers v) m m2"
    by (rule same_outside_mono [OF hb(3)]) (use hd in blast)
  have drop: "same_outside (rng c 144 \<union> headers v) m' (cacheDrop c m')" for m'
    by (rule same_outside_mono [OF cacheDrop_outside]) (use cache_parts(7) in blast)
  show ?thesis
  proof (cases "u + 1 = n")
    case False
    then have lt: "u + 1 < n" using un(1) by simp
    then have "firstFree m2 s = slot s os (u + 1)"
      using un(1,4) hb(2) by (simp add: x_def linked_def)
    moreover have "linked m2 s os (u + 1) (n - 1)" using bf(2) by (auto simp: linked_def)
    ultimately have "slab_rep m2 c os n (takeView n v s u)"
      using bf(1) po lt used sl by (simp add: slab_rep_def takeView_def cur_ok_def slabs_def curSlabs_def)
    from slab_rep_lock [OF this cacheDrop_outside] run False same_outside_trans [OF o2 drop [of m2]]
    show ?thesis by (simp add: cacheDrop_lock)
  next
    case True
    have cs: "node_rng (slabHead t) \<inter> rng c 136 = {}" if "t \<in> set (s # vFull v)" for t
      using pages_okD(4) [OF po that] header_parts(1) [of t] cache_parts(6) [of c] by blast
    from cache_lists_retire [OF bf(1) cs pages_ok_two(3) [OF po] s(5)]
    obtain m3 m4 where m: "llDelete (slabHead s) m2 = Inr m3"
      "llInsertFront (cacheFull c) (slabHead s) m3 = Inr m4" "cache_lists m4 c os n [] (s # vFull v)"
      "same_outside (rng c 136 \<union> (\<Union>t \<in> set (s # vFull v). node_rng (slabHead t))) m2 m4" by auto
    have "(\<Union>t \<in> set (s # vFull v). node_rng (slabHead t)) \<subseteq> headers v"
      unfolding headers_def sl by (rule UN_mono) (simp_all only: header_parts(1) subset_refl)
    then have "same_outside (rng c 144 \<union> headers v) m2 m4"
      by (intro same_outside_mono [OF m(4)]) (use cache_parts(6) [of c] in blast)
    with o2 have o4: "same_outside (rng c 144 \<union> headers v) m m4" by (rule same_outside_trans)
    have "slab_rep m4 c os n (takeView n v s u)"
      using m(3) po True by (simp add: slab_rep_def takeView_def slabs_def curSlabs_def)
    from slab_rep_lock [OF this cacheDrop_outside] run True m(1,2) same_outside_trans [OF o4 drop [of m4]]
    show ?thesis by (simp add: cacheDrop_lock)
  qed
qed

subsection \<open>A new slab\<close>

text \<open>The pages of the cache, and the part of them that is the allocator's own.\<close>

definition slabPages :: "u64 \<Rightarrow> slab_view \<Rightarrow> u64 set" where
  "slabPages c v = rng c 144 \<union> (\<Union>s \<in> set (slabs v). rng s 4096)"

definition slabOwn :: "u64 \<Rightarrow> nat \<Rightarrow> nat \<Rightarrow> slab_view \<Rightarrow> u64 set" where
  "slabOwn c os n v = rng c 144 \<union> headers v \<union> freeSlots os n v"

definition slab_inv :: "'a pmm_state_scheme \<Rightarrow> u64 \<Rightarrow> nat \<Rightarrow> nat \<Rightarrow> slab_view \<Rightarrow> bool" where
  "slab_inv k c os n v \<longleftrightarrow> pmm_inv k \<and> window_ok k \<and> slab_rep (mem k) c os n v
     \<and> held k (slabPages c v)"

lemma slab_repD:
  assumes "slab_rep m c os n v"
  shows "c \<noteq> 0" and "geom os n" and "pages_ok c (slabs v)"
    and "vCur v = Some (s, u) \<Longrightarrow> u < n"
    and "cache_lists m c os n (curSlabs v) (vFull v)"
  using assms by (auto simp: slab_rep_def cache_lists_def cache_ok_def cur_ok_def)

lemma slabOwn_pages:
  assumes "slab_rep m c os n v"
  shows "slabOwn c os n v \<subseteq> slabPages c v"
proof -
  have "freeSlots os n v \<subseteq> (\<Union>s \<in> set (slabs v). rng s 4096)"
  proof (cases "vCur v")
    case (Some p)
    obtain s u where p: "p = (s, u)" by (cases p)
    then have "rng (slot s os u) ((n - u) * os) \<subseteq> rng s 4096"
      using slab_repD(2,4) [OF assms] Some by (intro slots_from(1)) (auto intro: less_imp_le)
    then show ?thesis using Some p by (auto simp: freeSlots_def slabs_def curSlabs_def)
  qed (simp add: freeSlots_def)
  moreover have "headers v \<subseteq> (\<Union>s \<in> set (slabs v). rng s 4096)"
    unfolding headers_def using header_parts(5) by (rule UN_mono [OF subset_refl])
  ultimately show ?thesis unfolding slabOwn_def slabPages_def by blast
qed

lemma slab_rep_own:
  assumes rep: "slab_rep m c os n v" and out: "same_outside A m m'" and "slabOwn c os n v \<inter> A = {}"
  shows "slab_rep m' c os n v"
  by (rule slab_rep_frame [OF rep out])
    (use assms(3) cache_parts(6) [of c] in \<open>unfold slabOwn_def, blast+\<close>)

text \<open>The header of a new slab.\<close>

lemma new_header:
  fixes m :: mem and s :: u64
  assumes s: "unat s + 4096 \<le> 2 ^ 64" "s \<noteq> 0"
  defines "m2 \<equiv> store64 (store64 m s (s + 40)) (s + 8) (slabStart (store64 m s (s + 40)) s)"
  shows "\<exists>m3. llInitHead (slabHead s) m2 = Inr m3
    \<and> slabStart (store64 m3 (s + 32) 0) s = s + 40 \<and> firstFree (store64 m3 (s + 32) 0) s = s + 40
    \<and> usedObj (store64 m3 (s + 32) 0) s = 0 \<and> same_outside (rng s 40) m (store64 m3 (s + 32) 0)"
proof -
  note hp = header_parts [of s] and hd = header_parts_disjoint [of 0 s]
  have "unat (slabHead s) = unat s + 16"
    unfolding slabHead_def using s by (subst unat_add_no_wrap) simp_all
  then have "slabHead s \<noteq> 0" by (auto simp: unat_eq_0 [symmetric])
  from llInitHead_list [OF this, of m2] obtain m3 where m3: "llInitHead (slabHead s) m2 = Inr m3"
    "same_outside (node_rng (slabHead s)) m2 m3" by blast
  let ?m4 = "store64 m3 (s + 32) 0"
  have o4: "same_outside (node_rng (slabHead s) \<union> rng (s + 32) 8) m2 ?m4"
    by (rule same_outside_trans [OF same_outside_mono [OF m3(2)] store_same_outside']) simp_all
  have a: "rng s 8 \<inter> rng (s + 8) 8 = {}" "rng s 8 \<inter> rng (s + 32) 8 = {}" "rng s 8 \<inter> rng (s + 16) 16 = {}"
    using rng_disjoint_base [of 0 8 8 8 s] rng_disjoint_base [of 0 8 32 8 s] rng_disjoint_base [of 0 8 16 16 s]
    by simp_all
  have "apart s 8 (s + 8) 8" using apart_base [of 0 8 8 8 s] by simp
  then have m2: "slabStart m2 s = s + 40" "firstFree m2 s = s + 40"
    by (simp_all add: m2_def slabStart_def firstFree_def load_store_apart apart_sym)
  have "rng s 8 \<inter> (node_rng (slabHead s) \<union> rng (s + 32) 8) = {}" using a by (simp add: slabHead_def Int_Un_distrib)
  moreover have "rng (s + 8) 8 \<inter> (node_rng (slabHead s) \<union> rng (s + 32) 8) = {}" using hd(1,3) by blast
  ultimately have "slabStart ?m4 s = s + 40" "firstFree ?m4 s = s + 40"
    using load_same_outside [OF o4] m2 by (simp_all add: slabStart_def firstFree_def)
  moreover have "same_outside (rng s 40) m ?m4"
  proof (rule same_outside_trans)
    show "same_outside (rng s 40) m m2"
      unfolding m2_def by (rule same_outside_trans; rule store_same_outside' [OF hp(4)] store_same_outside' [OF hp(2)])
    show "same_outside (rng s 40) m2 ?m4" by (rule same_outside_mono [OF o4]) (use hp in blast)
  qed
  ultimately show ?thesis using m3(1) by (auto simp: usedObj_def)
qed

lemma cache_lists_add:
  assumes l: "cache_lists m c os n [] fs"
    and c: "\<And>t. t \<in> set (s # fs) \<Longrightarrow> node_rng (slabHead t) \<inter> rng c 136 = {}"
    and d: "\<And>t. t \<in> set fs \<Longrightarrow> node_rng (slabHead s) \<inter> node_rng (slabHead t) = {}"
    and s0: "slabHead s \<noteq> 0"
  shows "\<exists>m1. llInsertFront (cacheEmpty c) (slabHead s) m = Inr m1 \<and> cache_lists m1 c os n [s] fs
    \<and> same_outside (node_rng (slabHead s) \<union> node_rng (cacheEmpty c)) m m1"
proof -
  note cp = cache_parts [of c] and cd = cache_parts_disjoint [of c] cache_size_parts [of c]
  let ?B = "node_rng (slabHead s) \<union> node_rng (cacheEmpty c)"
  have "llist m (cacheEmpty c) []" using l by (simp add: cache_lists_def)
  moreover have "napart (slabHead s) (cacheEmpty c)"
    using c [of s] cp(3) by (intro nodes_napart) (simp only: list.set, blast)
  ultimately obtain m1 where m1: "llInsertFront (cacheEmpty c) (slabHead s) m = Inr m1"
    "llist m1 (cacheEmpty c) [slabHead s]" "same_outside ?B m m1"
    using llInsertFront_list [of m "cacheEmpty c" "[]" "slabHead s"] s0 by auto
  have off: "X \<inter> ?B = {}" if "X \<subseteq> rng c 136" "X \<inter> node_rng (cacheEmpty c) = {}" for X
    using c [of s] that by (simp only: list.set) blast
  have "llist m1 (cachePartial c) []"
    by (rule llist_frame [OF _ m1(3)]) (use l off [OF cp(2) cd(3)] in \<open>auto simp: cache_lists_def cache_ok_def\<close>)
  moreover have "llist m1 (cacheFull c) (map slabHead fs)"
  proof (rule llist_frame [OF _ m1(3)])
    show "node_rng x \<inter> ?B = {}" if x: "x \<in> set (cacheFull c # map slabHead fs)" for x
    proof (cases "x = cacheFull c")
      case False
      then obtain t where t: "t \<in> set fs" "x = slabHead t" using x by auto
      then have "node_rng x \<inter> rng c 136 = {}" using c [of t] by simp
      then show ?thesis using cp(3) d [OF t(1)] t(2) by blast
    qed (use off [OF cp(1) cd(2)] in simp)
  qed (use l in \<open>simp add: cache_lists_def\<close>)
  moreover have "rng (c + 120) 8 \<inter> node_rng (cacheEmpty c) = {}" "rng (c + 128) 8 \<inter> node_rng (cacheEmpty c) = {}"
    using cd by blast+
  ultimately have "cache_lists m1 c os n [s] fs"
    using l m1(2) load_same_outside [OF m1(3) off [OF cp(4)]] load_same_outside [OF m1(3) off [OF cp(5)]]
    by (simp add: cache_lists_def cache_ok_def objSize_def objPerSlab_def)
  with m1 show ?thesis by blast
qed

lemma slabPages_cur: "vCur v = None \<Longrightarrow> slabPages c (v\<lparr>vCur := Some (s, u)\<rparr>) = slabPages c v \<union> rng s 4096"
  by (auto simp: slabPages_def slabs_def curSlabs_def)

lemma page_off_slabs:
  assumes "slabPages c v \<inter> rng s 4096 = {}" and "pages_ok c (slabs v)" and "vCur v = None"
    and "s \<noteq> 0" and "unat s + 4096 \<le> 2 ^ 64"
  shows "pages_ok c (s # vFull v)" and "rng c 144 \<inter> rng s 4096 = {}"
    and "\<And>t. t \<in> set (vFull v) \<Longrightarrow> rng t 4096 \<inter> rng s 4096 = {}"
proof -
  have sl: "slabs v = vFull v" using assms(3) by (simp add: slabs_def curSlabs_def)
  show c: "rng c 144 \<inter> rng s 4096 = {}" using assms(1) unfolding slabPages_def by blast
  show t: "rng t 4096 \<inter> rng s 4096 = {}" if "t \<in> set (vFull v)" for t
    using assms(1) that unfolding slabPages_def sl by blast
  have "rng s 4096 \<inter> rng t 4096 = {}" if "t \<in> set (vFull v)" for t using t [OF that] by blast
  moreover have "rng s 4096 \<inter> rng c 144 = {}" using c by blast
  ultimately show "pages_ok c (s # vFull v)"
    using assms(2,4,5) unfolding pages_ok_def sl by simp
qed

text \<open>The memory side of \<open>slabAllocSlab\<close>: from a fresh page to a cache with a current slab.\<close>

lemma slabAllocSlab_mem:
  assumes rep: "slab_rep m1 c os n v" and cur: "vCur v = None"
    and s: "s \<noteq> 0" "unat s + 4096 \<le> 2 ^ 64" and sep: "slabPages c v \<inter> rng s 4096 = {}"
  shows "\<exists>m3 m5 m6. llInitHead (slabHead s)
        (store64 (store64 m1 s (s + sizeofSlab)) (s + 8) (slabStart (store64 m1 s (s + sizeofSlab)) s)) = Inr m3
    \<and> slabLinkLoop c s 0 (store64 m3 (s + 32) 0) = Some m5
    \<and> llInsertFront (cacheEmpty c) (slabHead s) m5 = Inr m6
    \<and> slab_rep m6 c os n (v\<lparr>vCur := Some (s, 0)\<rparr>) \<and> same_outside (rng s 4096 \<union> rng c 144) m1 m6"
proof -
  note d = slab_repD [OF rep]
  note po = page_off_slabs [OF sep d(3) cur s]
  have l1: "cache_lists m1 c os n [] (vFull v)" using d(5) cur by (simp add: curSlabs_def)
  from new_header [OF s(2,1), of m1] obtain m3 where m3: "llInitHead (slabHead s)
        (store64 (store64 m1 s (s + sizeofSlab)) (s + 8) (slabStart (store64 m1 s (s + sizeofSlab)) s)) = Inr m3"
      "slabStart (store64 m3 (s + 32) 0) s = s + 40" "firstFree (store64 m3 (s + 32) 0) s = s + 40"
      "usedObj (store64 m3 (s + 32) 0) s = 0" "same_outside (rng s 40) m1 (store64 m3 (s + 32) 0)"
    unfolding sizeofSlab_def by blast
  define m4 where "m4 = store64 m3 (s + 32) 0"
  note m4 = m3(2-5) [folded m4_def]
  have cs: "rng c 136 \<inter> rng s 4096 = {}" using po(2) cache_parts(6) [of c] by blast
  have nodes: "node_rng (slabHead t) \<inter> rng s 4096 = {}" if "t \<in> set ([] @ vFull v)" for t
    using po(3) [of t] that header_parts(1,5) [of t] by fastforce
  have o4: "same_outside (rng s 4096) m1 m4" by (rule same_outside_mono [OF m4(4) header_parts(5)])
  have l4: "cache_lists m4 c os n [] (vFull v)" by (rule cache_lists_frame [OF l1 o4 cs nodes])
  then have sz: "objSize m4 c = of_nat os" "objPerSlab m4 c = of_nat n"
    by (simp_all add: cache_lists_def cache_ok_def)
  have n0: "0 < n" "n * os \<le> 4096" using d(2) by (simp_all add: geom_def)
  have "rng s 4096 \<inter> rng c 144 = {}" using po(2) by blast
  from slabLinkLoop_spec [OF d(2) this sz m4(1) _ n0(1)] obtain m5 where
    m5: "slabLinkLoop c s 0 m4 = Some m5" "linked m5 s os 0 (n - 1)"
      "same_outside (rng (s + 40) (n * os)) m4 m5" by (auto simp: linked_def)
  have body: "rng (s + 40) (n * os) \<subseteq> rng s 4096"
    using slots_from(1) [OF d(2), of 0 s] by (simp add: slot_def)
  have o5: "same_outside (rng s 4096) m4 m5" by (rule same_outside_mono [OF m5(3) body])
  have l5: "cache_lists m5 c os n [] (vFull v)" by (rule cache_lists_frame [OF l4 o5 cs nodes])
  have hc: "node_rng (slabHead t) \<inter> rng c 136 = {}" if "t \<in> set (s # vFull v)" for t
    using pages_okD(4) [OF po(1) that] header_parts(1) [of t] cache_parts(6) [of c] by blast
  have "s \<in> set (s # vFull v)" by simp
  note s0 = pages_okD(5) [OF po(1) this]
  from cache_lists_add [OF l5 hc pages_ok_two(3) [OF po(1)] s0] obtain m6 where
    m6: "llInsertFront (cacheEmpty c) (slabHead s) m5 = Inr m6" "cache_lists m6 c os n [s] (vFull v)"
      "same_outside (node_rng (slabHead s) \<union> node_rng (cacheEmpty c)) m5 m6" by auto
  let ?B = "node_rng (slabHead s) \<union> node_rng (cacheEmpty c)"
  have Bs: "rng (s + 8) 8 \<inter> ?B = {}" "rng (s + 32) 8 \<inter> ?B = {}"
  proof -
    have "rng s 40 \<inter> node_rng (cacheEmpty c) = {}"
      using cs header_parts(5) [of s] cache_parts(3) [of c] by blast
    then show "rng (s + 8) 8 \<inter> ?B = {}" "rng (s + 32) 8 \<inter> ?B = {}"
      using header_parts_disjoint(1,2) [of 0 s] header_parts(2,3) [of s] by blast+
  qed
  have h5: "rng (s + 8) 8 \<inter> rng (s + 40) (n * os) = {}" "rng (s + 32) 8 \<inter> rng (s + 40) (n * os) = {}"
    using header_parts_disjoint(4) [OF n0(2), of s] header_parts(2,3) [of s] by blast+
  have "usedObj m6 s = 0" "firstFree m6 s = slot s os 0"
    using m4(2,3) load_same_outside [OF m6(3) Bs(1)] load_same_outside [OF m6(3) Bs(2)]
      load_same_outside [OF m5(3) h5(1)] load_same_outside [OF m5(3) h5(2)]
    by (simp_all add: usedObj_def firstFree_def slot_def)
  moreover have "linked m6 s os 0 (n - 1)"
  proof (rule linked_frame [OF m5(2) d(2) m6(3)])
    have "rng (slot s os 0) ((n - 0) * os) = rng (s + 40) (n * os)" by (simp add: slot_def)
    moreover have "rng (s + 40) (n * os) \<inter> node_rng (slabHead s) = {}"
      using header_parts_disjoint(4) [OF n0(2), of s] header_parts(1) [of s] by blast
    moreover have "rng (s + 40) (n * os) \<inter> node_rng (cacheEmpty c) = {}"
      using body cs cache_parts(3) [of c] by blast
    ultimately show "rng (slot s os 0) ((n - 0) * os) \<inter> ?B = {}" by blast
  qed
  ultimately have "slab_rep m6 c os n (v\<lparr>vCur := Some (s, 0)\<rparr>)"
    using m6(2) po(1) n0(1) by (simp add: slab_rep_def cur_ok_def slabs_def curSlabs_def)
  moreover have "same_outside (rng s 4096 \<union> rng c 144) m1 m6"
  proof (rule same_outside_trans [OF same_outside_mono [OF same_outside_trans [OF o4 o5]]])
    show "same_outside (rng s 4096 \<union> rng c 144) m5 m6"
      by (rule same_outside_mono [OF m6(3)])
        (use header_parts(1,5) [of s] cache_parts(3,6) [of c] in blast)
  qed simp
  ultimately show ?thesis using m3(1) m5(1) m6(1) unfolding m4_def by blast
qed

lemma slabAllocSlab_spec:
  assumes inv: "slab_inv k c os n v" and cur: "vCur v = None" and al: "vmmAlloc 1 k = Inr (s, k1)"
  shows "\<exists>k'. slabAllocSlab c k = Some (Inr k') \<and> slab_inv k' c os n (v\<lparr>vCur := Some (s, 0)\<rparr>)
    \<and> k' = k\<lparr>mem := mem k'\<rparr> \<and> (\<forall>A. held k A \<longrightarrow> held k' A \<and> A \<inter> rng s 4096 = {})
    \<and> same_outside (rng s 4096 \<union> rng c 144 \<union> bm_rng (pmmBitmap k)) (mem k) (mem k')
    \<and> (\<forall>i. has_run k (Suc i) \<longrightarrow> has_run k' i)"
proof -
  have i: "pmm_inv k" "window_ok k" "slab_rep (mem k) c os n v" "held k (slabPages c v)"
    using inv by (auto simp: slab_inv_def)
  note d = slab_repD [OF i(3)]
  note pg = vmmAlloc_page [OF i(1,2) al]
  have own: "slabOwn c os n v \<inter> bm_rng (pmmBitmap k) = {}"
    using i(4) slabOwn_pages [OF i(3)] by (auto simp: held_def)
  have rep1: "slab_rep (mem k1) c os n v" by (rule slab_rep_own [OF i(3) pg(4) own])
  have sep: "slabPages c v \<inter> rng s 4096 = {}" using pg(8) [OF i(4)] by blast
  from slabAllocSlab_mem [OF rep1 cur pg(6,7) sep] obtain m3 m5 m6 where m:
    "llInitHead (slabHead s) (store64 (store64 (mem k1) s (s + sizeofSlab)) (s + 8)
        (slabStart (store64 (mem k1) s (s + sizeofSlab)) s)) = Inr m3"
    "slabLinkLoop c s 0 (store64 m3 (s + 32) 0) = Some m5"
    "llInsertFront (cacheEmpty c) (slabHead s) m5 = Inr m6"
    "slab_rep m6 c os n (v\<lparr>vCur := Some (s, 0)\<rparr>)" "same_outside (rng s 4096 \<union> rng c 144) (mem k1) m6"
    by blast
  let ?k = "k1\<lparr>mem := m6\<rparr>"
  have run: "slabAllocSlab c k = Some (Inr ?k)"
    using d(1) al m(1-3) pg(6) by (simp add: slabAllocSlab_def SLAB_SIZE_PAGES_def Let_def)
  have hp: "held k1 (slabPages c v)" "rng c 144 \<subseteq> slabPages c v"
    using pg(8) [OF i(4)] by (auto simp: slabPages_def)
  have h: "held k1 (rng s 4096 \<union> rng c 144)"
    by (rule held_Un [OF pg(5) held_subset [OF hp]])
  note hw = held_write [OF pg(1) h m(5)]
  have "held ?k (slabPages c (v\<lparr>vCur := Some (s, 0)\<rparr>))"
    unfolding slabPages_cur [OF cur] by (intro hw(2) held_Un [OF hp(1) pg(5)])
  then have "slab_inv ?k c os n (v\<lparr>vCur := Some (s, 0)\<rparr>)"
    using hw(1) m(4) pg(2) by (simp add: slab_inv_def window_ok_def)
  moreover have "\<forall>A. held k A \<longrightarrow> held ?k A \<and> A \<inter> rng s 4096 = {}" using pg(8) hw(2) by blast
  moreover have "?k = k\<lparr>mem := mem ?k\<rparr>" by (subst pg(3)) simp
  moreover have "same_outside (rng s 4096 \<union> rng c 144 \<union> bm_rng (pmmBitmap k)) (mem k) (mem ?k)"
    using m(5) pg(4) by (auto simp: same_outside_def)
  moreover have "\<forall>i. has_run k (Suc i) \<longrightarrow> has_run ?k i"
    using has_run_alloc [OF i(1) al] has_run_write [OF pg(1) h m(5)] by simp
  ultimately show ?thesis using run by blast
qed

subsection \<open>Allocation\<close>

text \<open>The bytes of the object in slot \<open>u\<close>: what the caller of \<open>slabAlloc\<close> gets.\<close>

abbreviation obj_rng :: "nat \<Rightarrow> u64 \<Rightarrow> u64 set" where
  "obj_rng os r \<equiv> rng r (os - 8)"

lemma object_taken:
  assumes rep: "slab_rep m c os n v" and cur: "vCur v = Some (s, u)"
  shows "obj_rng os (slot s os u + 8) \<subseteq> slabOwn c os n v"
    and "obj_rng os (slot s os u + 8) \<inter> slabOwn c os n (takeView n v s u) = {}"
    and "slabOwn c os n (takeView n v s u) \<subseteq> slabOwn c os n v"
proof -
  note d = slab_repD [OF rep]
  have u: "u < n" using d(4) cur by simp
  have s: "s \<in> set (slabs v)" "slabs v = s # vFull v" using cur by (simp_all add: slabs_def curSlabs_def)
  let ?O = "obj_rng os (slot s os u + 8)"
  have os: "16 \<le> os" "os \<le> 4096"
  proof -
    have "1 * os \<le> n * os" using u by (intro mult_le_mono1) simp
    then show "16 \<le> os" "os \<le> 4096" using d(2) unfolding geom_def by linarith+
  qed
  have O: "?O \<subseteq> rng (slot s os u) os" using os by (intro rng_sub) simp
  have fs: "freeSlots os n v = rng (slot s os u) ((n - u) * os)" by (simp add: freeSlots_def cur)
  have slot_in: "rng (slot s os u) os \<subseteq> freeSlots os n v"
    unfolding fs by (rule slot_rng [OF d(2) u order_refl])
  then show "?O \<subseteq> slabOwn c os n v" using O by (auto simp: slabOwn_def)
  have page: "freeSlots os n v \<subseteq> rng s 4096"
    unfolding fs using slots_from(1) [OF d(2) less_imp_le [OF u]] .
  have off_headers: "freeSlots os n v \<inter> headers v = {}"
  proof -
    have "freeSlots os n v \<inter> rng t 40 = {}" if t: "t \<in> set (slabs v)" for t
    proof (cases "t = s")
      case True
      then show ?thesis using slots_off_header [OF d(2) less_imp_le [OF u], of s] fs by blast
    next
      case False
      then have "t \<in> set (vFull v)" using t s(2) by simp
      from pages_ok_two(1) [OF d(3) [unfolded s(2)] this] show ?thesis
        using page header_parts(5) [of t] by blast
    qed
    then show ?thesis unfolding headers_def by blast
  qed
  have off_cache: "freeSlots os n v \<inter> rng c 144 = {}"
    using page pages_okD(3) [OF d(3) s(1)] by blast
  have next_off: "rng (slot s os u) os \<inter> freeSlots os n (takeView n v s u) = {}"
  proof (cases "u + 1 < n")
    case True
    have e: "slot s os (u + 1) = slot s os u + of_nat os" using slot_Suc [of s os u] by simp
    have "n * os \<le> 4096" using d(2) unfolding geom_def by linarith
    moreover have "(n - (u + 1)) * os \<le> n * os" by (rule mult_le_mono1) simp
    ultimately have "(n - (u + 1)) * os \<le> 4096" by (rule order_trans [rotated])
    from add_mono [OF os(2) this] have "os + (n - (u + 1)) * os \<le> 2 ^ 64" by (rule order_trans) simp
    moreover have "unat (of_nat os :: u64) = os" using os by (intro unat_of_nat64) simp
    ultimately have "rng (slot s os u + 0) os \<inter> rng (slot s os u + of_nat os) ((n - (u + 1)) * os) = {}"
      by (intro rng_disjoint_base) simp_all
    then show ?thesis using True e by (simp add: takeView_def freeSlots_def)
  qed (simp add: takeView_def freeSlots_def)
  show "?O \<inter> slabOwn c os n (takeView n v s u) = {}"
    using O slot_in off_headers off_cache next_off
    unfolding slabOwn_def headers_takeView [OF cur] by blast
  have "freeSlots os n (takeView n v s u) \<subseteq> freeSlots os n v"
  proof (cases "u + 1 < n")
    case True
    have e: "slot s os (u + 1) = slot s os u + of_nat os" using slot_Suc [of s os u] by simp
    have "(n - u) * os = os + (n - (u + 1)) * os"
    proof -
      have "n - u = Suc (n - (u + 1))" using True by simp
      then show ?thesis by (simp only: mult_Suc)
    qed
    then have "rng (slot s os (u + 1)) ((n - (u + 1)) * os) \<subseteq> rng (slot s os u) ((n - u) * os)"
      unfolding e using os unat_of_nat64 [of os] by (intro rng_sub) simp
    then show ?thesis using True by (simp add: takeView_def freeSlots_def cur)
  qed (simp add: takeView_def freeSlots_def)
  then show "slabOwn c os n (takeView n v s u) \<subseteq> slabOwn c os n v"
    by (auto simp: slabOwn_def headers_takeView [OF cur])
qed

text \<open>A kernel state whose cache lock is free. The caches that \<open>slab_inv\<close> and \<open>slab_ready\<close> describe
  are those that come from \<open>slabInitCache\<close> by allocations alone: nothing has been freed, so the
  list of partial slabs is empty, at most one slab (\<open>vCur\<close>) has room, on the list of empty slabs
  and with its free slots at the end, and every other slab is full. \<open>slabFree\<close> leaves this class.\<close>

definition slab_ready :: "'a pmm_state_scheme \<Rightarrow> u64 \<Rightarrow> nat \<Rightarrow> nat \<Rightarrow> slab_view \<Rightarrow> bool" where
  "slab_ready k c os n v \<longleftrightarrow> slab_inv k c os n v \<and> mem k (c + 136) = 0"

lemma slab_inv_write:
  assumes inv: "slab_inv k c os n v" and out: "same_outside A (mem k) m"
    and rep: "slab_rep m c os n v'" and A: "A \<subseteq> slabPages c v" and sl: "slabs v' = slabs v"
  shows "slab_inv (k\<lparr>mem := m\<rparr>) c os n v'"
proof -
  have h: "pmm_inv k" "held k (slabPages c v)" "window_ok k" using inv by (auto simp: slab_inv_def)
  note hw = held_write [OF h(1) held_subset [OF h(2) A] out]
  have "slabPages c v' = slabPages c v" by (simp add: slabPages_def sl)
  then show ?thesis using hw(1) hw(2) [OF h(2)] rep h(3) by (simp add: slab_inv_def window_ok_def)
qed

lemma acquire_cache:
  assumes "slab_ready k c os n v"
  shows "cacheAcquire c (mem k) = Inr ((mem k)(c + 136 := 1))"
    and "slab_inv (k\<lparr>mem := (mem k)(c + 136 := 1)\<rparr>) c os n v"
    and "same_outside (rng (c + 136) 1) (mem k) ((mem k)(c + 136 := 1))"
proof -
  have inv: "slab_inv k c os n v" and l: "mem k (c + 136) = 0" using assms by (auto simp: slab_ready_def)
  show "cacheAcquire c (mem k) = Inr ((mem k)(c + 136 := 1))" by (simp add: cacheAcquire_def l)
  show o: "same_outside (rng (c + 136) 1) (mem k) ((mem k)(c + 136 := 1))"
    by (auto simp: same_outside_def in_rng)
  have "slab_rep (mem k) c os n v" using inv by (simp add: slab_inv_def)
  from slab_inv_write [OF inv o slab_rep_lock [OF this o]]
  show "slab_inv (k\<lparr>mem := (mem k)(c + 136 := 1)\<rparr>) c os n v"
    using cache_parts(7) [of c] by (auto simp: slabPages_def)
qed

lemma lists_empty:
  assumes "slab_rep m c os n v"
  shows "llEmpty (cachePartial c) m = Inr True" and "llEmpty (cacheEmpty c) m = Inr (vCur v = None)"
proof -
  have l: "llist m (cachePartial c) []" "llist m (cacheEmpty c) (map slabHead (curSlabs v))"
    using assms by (simp_all add: slab_rep_def cache_lists_def cache_ok_def)
  from llist_empty [OF l(1)] llist_empty [OF l(2)]
  show "llEmpty (cachePartial c) m = Inr True" "llEmpty (cacheEmpty c) m = Inr (vCur v = None)"
    by (simp_all add: curSlabs_def split: option.splits)
qed

lemma slabAlloc_cur:
  assumes rdy: "slab_ready k c os n v" and cur: "vCur v = Some (s, u)"
  shows "\<exists>k'. slabAlloc c k = Some (Inr (slot s os u + 8, k'))
    \<and> slab_ready k' c os n (takeView n v s u) \<and> k' = k\<lparr>mem := mem k'\<rparr>
    \<and> same_outside (rng c 144 \<union> headers v) (mem k) (mem k') \<and> (\<forall>A. held k A \<longrightarrow> held k' A)"
proof -
  note a = acquire_cache [OF rdy]
  let ?m = "(mem k)(c + 136 := 1)"
  have inv: "slab_inv k c os n v" using rdy by (simp add: slab_ready_def)
  have i: "slab_rep ?m c os n v" "pmm_inv k" "held k (slabPages c v)"
    using a(2) inv by (simp_all add: slab_inv_def)
  from slabTake_spec [OF i(1) cur] obtain m' where m':
    "slabTake c (cacheEmpty c) ?m = Inr (slot s os u + 8, m')"
    "slab_rep m' c os n (takeView n v s u)" "m' (c + 136) = 0"
    "same_outside (rng c 144 \<union> headers v) ?m m'" by blast
  have run: "slabAlloc c k = Some (Inr (slot s os u + 8, k\<lparr>mem := m'\<rparr>))"
    using slab_repD(1) [OF i(1)] a(1) lists_empty [OF i(1)] cur m'(1)
    by (subst slabAlloc.simps) simp
  have o: "same_outside (rng c 144 \<union> headers v) (mem k) m'"
    by (rule same_outside_trans [OF same_outside_mono [OF a(3)] m'(4)])
      (use cache_parts(7) [of c] in blast)
  have sub: "rng c 144 \<union> headers v \<subseteq> slabPages c v"
    using slabOwn_pages [OF i(1)] by (auto simp: slabOwn_def)
  have "slab_inv (k\<lparr>mem := m'\<rparr>) c os n (takeView n v s u)"
    by (rule slab_inv_write [OF inv o m'(2) sub slabs_takeView [OF cur]])
  moreover have "\<forall>A. held k A \<longrightarrow> held (k\<lparr>mem := m'\<rparr>) A"
    using held_write(2) [OF i(2) held_subset [OF i(3) sub] o] by blast
  ultimately show ?thesis
    using run m'(3) o by (intro exI [of _ "k\<lparr>mem := m'\<rparr>"]) (simp add: slab_ready_def)
qed

text \<open>
  The whole of \<open>slabAlloc\<close>: it always returns. It ends in the out-of-memory panic when it needs a
  page and there is none, and otherwise hands out an object that was the cache's (or on a
  fresh page) and no longer is.
\<close>

definition slab_alloc_post ::
    "'a pmm_state_scheme \<Rightarrow> u64 \<Rightarrow> nat \<Rightarrow> nat \<Rightarrow> slab_view \<Rightarrow> u64 \<Rightarrow> 'a pmm_state_scheme \<Rightarrow> slab_view \<Rightarrow> bool" where
  "slab_alloc_post k c os n v r k' v' \<longleftrightarrow> slab_ready k' c os n v' \<and> k' = k\<lparr>mem := mem k'\<rparr>
     \<and> r \<noteq> 0 \<and> unat r + (os - 8) \<le> 2 ^ 64
     \<and> held k' (obj_rng os r) \<and> obj_rng os r \<inter> slabOwn c os n v' = {}
     \<and> (\<forall>A. held k A \<longrightarrow> held k' A) \<and> (\<forall>i. has_run k (Suc i) \<longrightarrow> has_run k' i)
     \<and> (\<forall>A. held k A \<longrightarrow> A \<inter> slabPages c v = {} \<longrightarrow> A \<inter> slabPages c v' = {})
     \<and> (\<forall>A. held k A \<longrightarrow> A \<inter> slabOwn c os n v = {} \<longrightarrow>
          A \<inter> slabOwn c os n v' = {} \<and> A \<inter> obj_rng os r = {} \<and> (\<forall>x \<in> A. mem k' x = mem k x))"

lemma slab_alloc_postD:
  assumes "slab_alloc_post k c os n v r k' v'" and "held k A"
  shows "held k' A" and "A \<inter> slabPages c v = {} \<Longrightarrow> A \<inter> slabPages c v' = {}"
    and "A \<inter> slabOwn c os n v = {} \<Longrightarrow> A \<inter> slabOwn c os n v' = {} \<and> A \<inter> obj_rng os r = {} \<and> (\<forall>x \<in> A. mem k' x = mem k x)"
  using assms by (simp_all add: slab_alloc_post_def)

lemma slabAlloc_cur_post:
  assumes rdy: "slab_ready k c os n v" and cur: "vCur v = Some (s, u)"
  shows "\<exists>r k' v'. slabAlloc c k = Some (Inr (r, k')) \<and> slab_alloc_post k c os n v r k' v'
    \<and> (\<forall>i. has_run k' i = has_run k i)"
proof -
  from slabAlloc_cur [OF assms] obtain k' where k':
    "slabAlloc c k = Some (Inr (slot s os u + 8, k'))" "slab_ready k' c os n (takeView n v s u)"
    "k' = k\<lparr>mem := mem k'\<rparr>" "same_outside (rng c 144 \<union> headers v) (mem k) (mem k')"
    "\<forall>A. held k A \<longrightarrow> held k' A" by blast
  have rep: "slab_rep (mem k) c os n v" "held k (slabPages c v)"
    using rdy by (simp_all add: slab_ready_def slab_inv_def)
  note ob = object_taken [OF rep(1) cur]
  have "held k' (obj_rng os (slot s os u + 8))"
    using k'(5) held_subset [OF rep(2)] ob(1) slabOwn_pages [OF rep(1)] by blast
  moreover have "A \<inter> slabOwn c os n (takeView n v s u) = {} \<and> A \<inter> obj_rng os (slot s os u + 8) = {}
      \<and> (\<forall>x \<in> A. mem k' x = mem k x)" if "A \<inter> slabOwn c os n v = {}" for A
  proof -
    have "A \<inter> (rng c 144 \<union> headers v) = {}" using that by (auto simp: slabOwn_def)
    then have "\<forall>x \<in> A. mem k' x = mem k x" using same_outsideD [OF k'(4)] by blast
    then show ?thesis using that ob(1,3) by blast
  qed
  moreover have "slot s os u + 8 \<noteq> 0" "unat (slot s os u + 8) + (os - 8) \<le> 2 ^ 64"
    using slot_window(4,5) [OF slab_repD(2) [OF rep(1)] slab_repD(4) [OF rep(1) cur]] pages_okD(2) [OF slab_repD(3) [OF rep(1)], of s] cur
    by (simp_all add: slabs_def curSlabs_def)
  moreover have runs: "\<forall>i. has_run k' i = has_run k i"
  proof
    fix i
    have "rng c 144 \<union> headers v \<subseteq> slabOwn c os n v" by (auto simp: slabOwn_def)
    then have "held k (rng c 144 \<union> headers v)"
      using held_subset [OF rep(2)] slabOwn_pages [OF rep(1)] by blast
    moreover have "pmm_inv k" using rdy by (simp add: slab_ready_def slab_inv_def)
    ultimately show "has_run k' i = has_run k i"
      using has_run_write [OF _ _ k'(4)] k'(3) by metis
  qed
  moreover have "slabPages c (takeView n v s u) = slabPages c v" using slabs_takeView [OF cur] by (simp add: slabPages_def)
  ultimately have "slab_alloc_post k c os n v (slot s os u + 8) k' (takeView n v s u)"
    using k'(2,3,5) ob(2) has_run_less [of k] by (simp add: slab_alloc_post_def)
  with k'(1) runs show ?thesis by blast
qed

lemma slabAlloc_new:
  assumes rdy: "slab_ready k c os n v" and cur: "vCur v = None" and al: "vmmAlloc 1 (k\<lparr>mem := (mem k)(c + 136 := 1)\<rparr>) = Inr (s, k1)"
  shows "\<exists>r k' v'. slabAlloc c k = Some (Inr (r, k')) \<and> slab_alloc_post k c os n v r k' v'"
proof -
  note a = acquire_cache [OF rdy]
  let ?k = "k\<lparr>mem := (mem k)(c + 136 := 1)\<rparr>" and ?v = "v\<lparr>vCur := Some (s, 0)\<rparr>"
  from slabAllocSlab_spec [OF a(2) cur al] obtain k2 where k2: "slabAllocSlab c ?k = Some (Inr k2)"
    "slab_inv k2 c os n ?v" "k2 = ?k\<lparr>mem := mem k2\<rparr>" "\<forall>A. held ?k A \<longrightarrow> held k2 A \<and> A \<inter> rng s 4096 = {}"
    "\<forall>i. has_run ?k (Suc i) \<longrightarrow> has_run k2 i"
    "same_outside (rng s 4096 \<union> rng c 144 \<union> bm_rng (pmmBitmap ?k)) (mem ?k) (mem k2)" by blast
  let ?k3 = "k2\<lparr>mem := cacheDrop c (mem k2)\<rparr>"
  have inv: "slab_rep (mem k) c os n v" "slab_rep (mem ?k) c os n v" "slab_rep (mem k2) c os n ?v"
    "held k (slabPages c v)" "pmm_inv k"
    using rdy a(2) k2(2) by (simp_all add: slab_ready_def slab_inv_def)
  have "slab_inv ?k3 c os n ?v"
    using cache_parts(7) [of c]
    by (intro slab_inv_write [OF k2(2) cacheDrop_outside slab_rep_lock [OF inv(3) cacheDrop_outside]])
      (auto simp: slabPages_def)
  then have rdy3: "slab_ready ?k3 c os n ?v" by (simp add: slab_ready_def cacheDrop_lock)
  have "slabAlloc c k = slabAlloc c ?k3"
    using slab_repD(1) [OF inv(2)] a(1) lists_empty [OF inv(2)] cur k2(1)
    by (subst slabAlloc.simps) simp
  with slabAlloc_cur_post [OF rdy3, of s 0] obtain r k' v' where
    k': "slabAlloc c k = Some (Inr (r, k'))" "slab_alloc_post ?k3 c os n ?v r k' v'"
    "\<forall>i. has_run k' i = has_run ?k3 i" by auto
  have hk: "held ?k A" if "held k A" for A
    using held_write(2) [OF inv(5) held_subset [OF inv(4)] a(3) that] cache_parts(7) [of c]
    by (auto simp: slabPages_def)
  have hk3: "held ?k3 A" if "held k2 A" for A
  proof -
    have "pmm_inv k2" "held k2 (slabPages c ?v)" using k2(2) by (simp_all add: slab_inv_def)
    then show ?thesis
      using held_write(2) [OF _ held_subset cacheDrop_outside that] cache_parts(7) [of c]
      by (auto simp: slabPages_def)
  qed
  have own: "slabOwn c os n ?v \<subseteq> slabOwn c os n v \<union> rng s 4096"
  proof -
    have "freeSlots os n ?v \<subseteq> rng s 4096"
      using slots_from(1) [OF slab_repD(2) [OF inv(2)], of 0 s] by (simp add: freeSlots_def)
    moreover have "headers ?v \<subseteq> headers v \<union> rng s 4096"
      using header_parts(5) [of s] cur by (auto simp: headers_def slabs_def curSlabs_def)
    ultimately show ?thesis by (auto simp: slabOwn_def)
  qed
  have frame: "\<forall>x \<in> A. mem ?k3 x = mem k x" if "held k A" "A \<inter> slabOwn c os n v = {}" for A
  proof
    fix x assume x: "x \<in> A"
    have bm: "pmmBitmap ?k = pmmBitmap k" by simp
    have "A \<inter> bm_rng (pmmBitmap k) = {}" using that(1) by (simp add: held_def)
    moreover have "A \<inter> rng s 4096 = {}" using k2(4) hk [OF that(1)] by simp
    moreover have "A \<inter> rng c 144 = {}" using that(2) unfolding slabOwn_def by blast
    ultimately have off: "x \<notin> rng s 4096 \<union> rng c 144 \<union> bm_rng (pmmBitmap ?k)" "x \<notin> rng (c + 136) 1"
      using x cache_parts(7) [of c] unfolding bm by blast+
    have "mem ?k3 x = mem k2 x" using same_outsideD [OF cacheDrop_outside off(2)] by simp
    also have "\<dots> = mem ?k x" by (rule same_outsideD [OF k2(6) off(1)])
    also have "\<dots> = mem k x" using same_outsideD [OF a(3) off(2)] by simp
    finally show "mem ?k3 x = mem k x" .
  qed
  have "slab_alloc_post k c os n v r k' v'"
    unfolding slab_alloc_post_def
  proof (intro conjI allI impI)
    show "slab_ready k' c os n v'" "held k' (obj_rng os r)" "obj_rng os r \<inter> slabOwn c os n v' = {}"
      "r \<noteq> 0" "unat r + (os - 8) \<le> 2 ^ 64"
      using k'(2) by (simp_all add: slab_alloc_post_def)
    have "k' = ?k3\<lparr>mem := mem k'\<rparr>" using k'(2) by (simp add: slab_alloc_post_def)
    then show "k' = k\<lparr>mem := mem k'\<rparr>" using k2(3) by simp (metis pmm_state.surjective pmm_state.update_convs(1))
    show "held k' A" if "held k A" for A
      using k'(2) hk [OF that] k2(4) hk3 by (auto simp: slab_alloc_post_def)
    show "has_run k' i" if "has_run k (Suc i)" for i
    proof -
      have "rng (c + 136) 1 \<subseteq> slabPages c v" using cache_parts(7) [of c] unfolding slabPages_def by blast
      from held_subset [OF inv(4) this] have c: "held k (rng (c + 136) 1)" .
      moreover have "pmm_inv k2" using k2(2) by (simp add: slab_inv_def)
      ultimately have c: "held k (rng (c + 136) 1)" "held k2 (rng (c + 136) 1)" "pmm_inv k2"
        using hk k2(4) by blast+
      have "has_run ?k (Suc i)" using that has_run_write [OF inv(5) c(1) a(3)] by simp
      then have "has_run k2 i" using k2(5) by simp
      then show ?thesis using k'(3) has_run_write [OF c(3,2) cacheDrop_outside] by simp
    qed
    show "A \<inter> slabPages c v' = {}" if A: "held k A" "A \<inter> slabPages c v = {}" for A
    proof -
      have "held ?k3 A" "A \<inter> rng s 4096 = {}" using hk [OF A(1)] k2(4) hk3 by blast+
      moreover have "A \<inter> slabPages c ?v = {}" using A(2) calculation(2) unfolding slabPages_cur [OF cur] by blast
      ultimately show ?thesis using slab_alloc_postD(2) [OF k'(2)] by blast
    qed
    fix A assume A: "held k A" "A \<inter> slabOwn c os n v = {}"
    then have "held ?k3 A" "A \<inter> slabOwn c os n ?v = {}"
      using hk [OF A(1)] k2(4) hk3 own by blast+
    then have post: "A \<inter> slabOwn c os n v' = {}" "A \<inter> obj_rng os r = {}" "\<forall>x \<in> A. mem k' x = mem ?k3 x"
      using slab_alloc_postD(3) [OF k'(2)] by blast+
    then show "A \<inter> slabOwn c os n v' = {}" "A \<inter> obj_rng os r = {}" by auto
    show "\<forall>x \<in> A. mem k' x = mem k x" using post(3) frame [OF A] by simp
  qed
  with k'(1) show ?thesis by blast
qed

lemma acquire_used:
  assumes "slab_ready k c os n v" and "p < pgCount k"
  shows "pgUsed (k\<lparr>mem := (mem k)(c + 136 := 1)\<rparr>) p = pgUsed k p"
proof -
  have i: "pmm_inv k" "held k (slabPages c v)" using assms(1) by (auto simp: slab_ready_def slab_inv_def)
  have "rng (c + 136) 1 \<inter> bm_rng (pmmBitmap k) = {}"
    using i(2) cache_parts(7) [of c] by (auto simp: held_def slabPages_def)
  then show ?thesis
    using bmBit_same_outside [OF pmm_invD(1) [OF i(1)] assms(2) acquire_cache(3) [OF assms(1)]] by simp
qed

lemma slabAlloc_total:
  assumes rdy: "slab_ready k c os n v"
  shows "if vCur v = None \<and> \<not> (\<exists>p < pgCount k. \<not> pgUsed k p)
    then slabAlloc c k = Some (Inl (PanicMsg ''OUT OF MEMORY''))
    else \<exists>r k' v'. slabAlloc c k = Some (Inr (r, k')) \<and> slab_alloc_post k c os n v r k' v'"
proof (cases "vCur v")
  case (Some p)
  then show ?thesis using slabAlloc_cur_post [OF rdy] by (cases p) auto
next
  case None
  note a = acquire_cache [OF rdy]
  let ?k = "k\<lparr>mem := (mem k)(c + 136 := 1)\<rparr>"
  have inv: "pmm_inv ?k" "slab_rep (mem ?k) c os n v" using a(2) by (simp_all add: slab_inv_def)
  have ex: "(\<exists>p < pgCount ?k. \<not> pgUsed ?k p) \<longleftrightarrow> (\<exists>p < pgCount k. \<not> pgUsed k p)"
    using acquire_used [OF rdy] by auto
  show ?thesis
  proof (cases "\<exists>p < pgCount k. \<not> pgUsed k p")
    case True
    then obtain s k1 where "vmmAlloc 1 ?k = Inr (s, k1)" using vmmAlloc_cases [OF inv(1)] ex by auto
    from slabAlloc_new [OF rdy None this] True show ?thesis by auto
  next
    case False
    then have "vmmAlloc 1 ?k = Inl (PanicMsg ''OUT OF MEMORY'')"
      using vmmAlloc_cases [OF inv(1)] ex by (simp split: if_splits)
    then have "slabAlloc c k = Some (Inl (PanicMsg ''OUT OF MEMORY''))"
      using slab_repD(1) [OF inv(2)] a(1) lists_empty [OF inv(2)] None
      by (subst slabAlloc.simps) (simp add: slabAllocSlab_def SLAB_SIZE_PAGES_def)
    then show ?thesis using False None by simp
  qed
qed

subsection \<open>Runs of allocations\<close>

text \<open>
  Allocations from one cache, arbitrary writes of the callers into the objects they hold, and
  page allocations by the rest of the kernel. (\<open>slabFree\<close> is not among the steps: see the
  property about it below.) The list holds the objects handed out.
\<close>

inductive slab_client ::
    "u64 \<Rightarrow> nat \<Rightarrow> 'a pmm_state_scheme \<times> u64 list \<Rightarrow> 'a pmm_state_scheme \<times> u64 list \<Rightarrow> bool"
  for c os where
  object_alloc: "slabAlloc c k = Some (Inr (r, k')) \<Longrightarrow> slab_client c os (k, L) (k', r # L)"
| object_write: "r \<in> set L \<Longrightarrow> same_outside (obj_rng os r) (mem k) m \<Longrightarrow>
    slab_client c os (k, L) (k\<lparr>mem := m\<rparr>, L)"
| page_alloc: "pmmAlloc p k = Inr (a, k') \<Longrightarrow> slab_client c os (k, L) (k', L)"

definition objects_ok :: "u64 \<Rightarrow> nat \<Rightarrow> nat \<Rightarrow> 'a pmm_state_scheme \<times> u64 list \<Rightarrow> bool" where
  "objects_ok c os n kL \<longleftrightarrow> (case kL of (k, L) \<Rightarrow> \<exists>v. slab_ready k c os n v
     \<and> (\<forall>r \<in> set L. held k (obj_rng os r) \<and> obj_rng os r \<inter> slabOwn c os n v = {})
     \<and> sorted_wrt (\<lambda>r s. obj_rng os r \<inter> obj_rng os s = {}) L)"

lemma slab_ready_write:
  assumes rdy: "slab_ready k c os n v" and h: "held k A" and off: "A \<inter> slabOwn c os n v = {}"
    and out: "same_outside A (mem k) m"
  shows "slab_ready (k\<lparr>mem := m\<rparr>) c os n v"
proof -
  have i: "pmm_inv k" "window_ok k" "slab_rep (mem k) c os n v" "held k (slabPages c v)" "mem k (c + 136) = 0"
    using rdy by (simp_all add: slab_ready_def slab_inv_def)
  have "c + 136 \<in> rng c 144" by (simp add: in_rng)
  then have "c + 136 \<notin> A" using off unfolding slabOwn_def by blast
  then have "m (c + 136) = 0" using same_outsideD [OF out] i(5) by simp
  moreover have "slab_rep m c os n v" using off by (intro slab_rep_own [OF i(3) out]) blast
  ultimately show ?thesis
    using held_write [OF i(1) h out] i by (simp add: slab_ready_def slab_inv_def window_ok_def)
qed

lemma slab_ready_pmmAlloc:
  assumes rdy: "slab_ready k c os n v" and al: "pmmAlloc p k = Inr (a, k')"
  shows "slab_ready k' c os n v"
proof -
  have i: "pmm_inv k" "window_ok k" "slab_rep (mem k) c os n v" "held k (slabPages c v)" "mem k (c + 136) = 0"
    using rdy by (simp_all add: slab_ready_def slab_inv_def)
  have r: "same_outside (bm_rng (pmmBitmap k)) (mem k) (mem k')"
    using pmmAlloc_result [OF i(1) al] by (simp add: alloc_result_def Let_def)
  have off: "slabOwn c os n v \<inter> bm_rng (pmmBitmap k) = {}"
    using i(4) slabOwn_pages [OF i(3)] by (auto simp: held_def)
  have "c + 136 \<in> slabOwn c os n v" by (simp add: in_rng slabOwn_def)
  then have "c + 136 \<notin> bm_rng (pmmBitmap k)" using off by blast
  then have "mem k' (c + 136) = 0" using same_outsideD [OF r] i(5) by simp
  then show ?thesis
    using slab_rep_own [OF i(3) r off] pmmAlloc_inv [OF i(1) al] held_alloc(1) [OF i(1) al i(4)]
      alloc_block(4,5) [OF i(1) al] i(2)
    by (simp add: slab_ready_def slab_inv_def window_ok_def)
qed

lemma objects_ok_step:
  assumes "slab_client c os x y" and "objects_ok c os n x"
  shows "objects_ok c os n y"
  using assms
proof (induction rule: slab_client.induct)
  case (object_alloc k r k' L)
  from object_alloc.prems obtain v where v: "slab_ready k c os n v"
    "\<And>r. r \<in> set L \<Longrightarrow> held k (obj_rng os r) \<and> obj_rng os r \<inter> slabOwn c os n v = {}"
    "sorted_wrt (\<lambda>r s. obj_rng os r \<inter> obj_rng os s = {}) L" by (auto simp: objects_ok_def)
  obtain v' where post: "slab_alloc_post k c os n v r k' v'"
    using slabAlloc_total [OF v(1)] object_alloc.hyps by (auto split: if_splits)
  have old: "held k' (obj_rng os s) \<and> obj_rng os s \<inter> slabOwn c os n v' = {} \<and> obj_rng os s \<inter> obj_rng os r = {}"
    if "s \<in> set L" for s
    using slab_alloc_postD(1,3) [OF post] v(2) [OF that] by blast
  moreover have "obj_rng os r \<inter> obj_rng os s = {}" if "s \<in> set L" for s using old [OF that] by blast
  moreover have "slab_ready k' c os n v'" "held k' (obj_rng os r)" "obj_rng os r \<inter> slabOwn c os n v' = {}"
    using post by (simp_all add: slab_alloc_post_def)
  ultimately show ?case using v(3) unfolding objects_ok_def by (auto intro!: exI [of _ v'])
next
  case (object_write r L k m)
  from object_write.prems obtain v where v: "slab_ready k c os n v"
    "\<And>r. r \<in> set L \<Longrightarrow> held k (obj_rng os r) \<and> obj_rng os r \<inter> slabOwn c os n v = {}"
    "sorted_wrt (\<lambda>r s. obj_rng os r \<inter> obj_rng os s = {}) L" by (auto simp: objects_ok_def)
  have r: "held k (obj_rng os r)" "obj_rng os r \<inter> slabOwn c os n v = {}"
    using v(2) object_write.hyps(1) by auto
  have "pmm_inv k" using v(1) by (simp add: slab_ready_def slab_inv_def)
  from held_write(2) [OF this r(1) object_write.hyps(2)]
  show ?case
    using slab_ready_write [OF v(1) r object_write.hyps(2)] v(2,3)
    unfolding objects_ok_def by (auto intro!: exI [of _ v])
next
  case (page_alloc p k a k' L)
  from page_alloc.prems obtain v where v: "slab_ready k c os n v"
    "\<And>r. r \<in> set L \<Longrightarrow> held k (obj_rng os r) \<and> obj_rng os r \<inter> slabOwn c os n v = {}"
    "sorted_wrt (\<lambda>r s. obj_rng os r \<inter> obj_rng os s = {}) L" by (auto simp: objects_ok_def)
  have "pmm_inv k" using v(1) by (simp add: slab_ready_def slab_inv_def)
  from held_alloc(1) [OF this page_alloc.hyps]
  show ?case
    using slab_ready_pmmAlloc [OF v(1) page_alloc.hyps] v(2,3)
    unfolding objects_ok_def by (auto intro!: exI [of _ v])
qed

lemma objects_ok_reachable:
  "(slab_client c os)\<^sup>*\<^sup>* x y \<Longrightarrow> objects_ok c os n x \<Longrightarrow> objects_ok c os n y"
  by (induction rule: rtranclp_induct) (auto intro: objects_ok_step)

subsection \<open>Setting up a cache\<close>

definition slotBytes :: "nat \<Rightarrow> nat" where
  "slotBytes sz = (sz + 7) div 8 * 8 + 8"

abbreviation slotsPerSlab :: "nat \<Rightarrow> nat" where
  "slotsPerSlab sz \<equiv> 4056 div slotBytes sz"

definition newCache :: slab_view where
  "newCache = \<lparr>vFull = [], vCur = None\<rparr>"

lemma unat_ALIGN_UP8:
  assumes "unat x + 7 < 2 ^ 64"
  shows "unat (ALIGN_UP x 8) = (unat x + 7) div 8 * 8"
proof -
  define y where "y = x + 7"
  have y: "unat y = unat x + 7" unfolding y_def using assms by (subst unat_add_no_wrap) simp_all
  have "y AND NOT (mask 3) = push_bit 3 (drop_bit 3 y)"
    by (rule bit_word_eqI) (auto simp: bit_simps)
  also have "\<dots> = drop_bit 3 y * 8" by (simp add: push_bit_eq_mult)
  finally have e: "y AND NOT (mask 3) = drop_bit 3 y * 8" .
  have d: "unat (drop_bit 3 y) = unat y div 8" by (simp add: drop_bit_eq_div unat_div)
  have "unat (drop_bit 3 y) * unat (8 :: u64) < 2 ^ LENGTH(64)" using d unat_less_max [of y] by simp
  then have "unat (drop_bit 3 y * 8) = unat y div 8 * 8" using unat_mult_lem [of "drop_bit 3 y" 8] d by simp
  moreover have "(8 :: u64) - 1 = mask 3" by (simp add: mask_eq_exp_minus_1)
  ultimately show ?thesis using e y by (simp add: ALIGN_UP_def y_def)
qed

lemma slot_geometry:
  assumes "0 < sz" and "sz \<le> 4048"
  shows "geom (slotBytes sz) (slotsPerSlab sz)" and "slotBytes sz \<le> 4056"
proof -
  have a: "8 \<le> (sz + 7) div 8 * 8" using assms(1) by simp
  have "(sz + 7) div 8 \<le> (4048 + 7) div 8" using assms(2) by (intro div_le_mono) simp
  then show le: "slotBytes sz \<le> 4056" by (simp add: slotBytes_def)
  have os: "16 \<le> slotBytes sz" using a by (simp add: slotBytes_def)
  have "1 \<le> slotsPerSlab sz" using le os div_le_mono [of "slotBytes sz" 4056 "slotBytes sz"] by simp
  moreover have "slotsPerSlab sz * slotBytes sz \<le> 4056" by simp
  ultimately show "geom (slotBytes sz) (slotsPerSlab sz)" using os unfolding geom_def by linarith
qed

text \<open>Three empty lists in the cache.\<close>

lemma init_lists:
  assumes "c \<noteq> 0" and "unat c + 144 \<le> 2 ^ 64"
  shows "\<exists>m1 m2 m3. llInitHead (cacheFull c) m = Inr m1 \<and> llInitHead (cachePartial c) m1 = Inr m2
    \<and> llInitHead (cacheEmpty c) m2 = Inr m3
    \<and> llist m3 (cacheFull c) [] \<and> llist m3 (cachePartial c) [] \<and> llist m3 (cacheEmpty c) []
    \<and> same_outside (rng (c + 72) 48) m m3"
proof -
  have nz: "c + i \<noteq> 0" if "i \<in> {72, 88, 104}" for i
  proof -
    have "unat (c + i) = unat c + unat i" using that assms(2) by (intro unat_add_no_wrap) auto
    then show ?thesis using that by (auto simp: unat_eq_0 [symmetric])
  qed
  have h: "cacheFull c \<noteq> 0" "cachePartial c \<noteq> 0" "cacheEmpty c \<noteq> 0"
    using nz by (simp_all add: cacheFull_def cachePartial_def cacheEmpty_def)
  note cd = cache_parts_disjoint [of c]
  from llInitHead_list [OF h(1), of m] obtain m1 where m1: "llInitHead (cacheFull c) m = Inr m1"
    "llist m1 (cacheFull c) []" "same_outside (node_rng (cacheFull c)) m m1" by blast
  from llInitHead_list [OF h(2), of m1] obtain m2 where m2: "llInitHead (cachePartial c) m1 = Inr m2"
    "llist m2 (cachePartial c) []" "same_outside (node_rng (cachePartial c)) m1 m2" by blast
  from llInitHead_list [OF h(3), of m2] obtain m3 where m3: "llInitHead (cacheEmpty c) m2 = Inr m3"
    "llist m3 (cacheEmpty c) []" "same_outside (node_rng (cacheEmpty c)) m2 m3" by blast
  have "llist m2 (cacheFull c) []" by (rule llist_frame [OF m1(2) m2(3)]) (use cd(1) in simp)
  then have "llist m3 (cacheFull c) []" by (rule llist_frame [OF _ m3(3)]) (use cd(2) in simp)
  moreover have "llist m3 (cachePartial c) []" by (rule llist_frame [OF m2(2) m3(3)]) (use cd(3) in simp)
  moreover have "same_outside (rng (c + 72) 48) m m3"
  proof -
    have "node_rng (c + 72) \<subseteq> rng (c + 72) 48" by (rule rng_mono) simp
    moreover have "node_rng (c + 72 + 16) \<subseteq> rng (c + 72) 48" "node_rng (c + 72 + 32) \<subseteq> rng (c + 72) 48"
      by (rule rng_sub, simp)+
    ultimately have sub: "node_rng (cacheFull c) \<subseteq> rng (c + 72) 48" "node_rng (cachePartial c) \<subseteq> rng (c + 72) 48"
      "node_rng (cacheEmpty c) \<subseteq> rng (c + 72) 48"
      by (simp_all add: cacheFull_def cachePartial_def cacheEmpty_def add.assoc)
    show ?thesis
      by (rule same_outside_trans [OF same_outside_mono [OF m1(3) sub(1)]
            same_outside_trans [OF same_outside_mono [OF m2(3) sub(2)] same_outside_mono [OF m3(3) sub(3)]]])
  qed
  ultimately show ?thesis using m1(1) m2(1) m3(1,2) by blast
qed

lemma slabInitCache_spec:
  assumes c: "c \<noteq> 0" "unat c + 144 \<le> 2 ^ 64" and sz: "0 < unat osz" "unat osz \<le> 4048"
    and name: "name \<noteq> 0" "cstr (mem k) name s" "rng c 64 \<inter> rng name (min 64 (Suc (length s))) = {}"
  shows "\<exists>k'. slabInitCache c name osz k = Inr k' \<and> k' = k\<lparr>mem := mem k'\<rparr> \<and> mem k' (c + 136) = 0
    \<and> slab_rep (mem k') c (slotBytes (unat osz)) (slotsPerSlab (unat osz)) newCache
    \<and> bytes_at (mem k') c (strncpy_spec s 64) \<and> same_outside (rng c 144) (mem k) (mem k')"
proof -
  let ?os = "slotBytes (unat osz)" and ?n = "slotsPerSlab (unat osz)"
  note g = slot_geometry [OF sz]
  have os: "ALIGN_UP osz 8 + 8 = of_nat ?os"
  proof -
    have "unat (ALIGN_UP osz 8) + 8 = ?os" using unat_ALIGN_UP8 [of osz] sz by (simp add: slotBytes_def)
    moreover have "unat (ALIGN_UP osz 8 + 8) = unat (ALIGN_UP osz 8) + 8"
      using calculation g(2) by (subst unat_add_no_wrap) simp_all
    ultimately show ?thesis by (intro unat_eqD) simp
  qed
  have uos: "unat (of_nat ?os :: u64) = ?os" using g(2) by (intro unat_of_nat64) simp
  have per: "(SLAB_SIZE_PAGES * PAGE_SIZE - sizeofSlab) div of_nat ?os = of_nat ?n"
    by (rule unat_eqD) (simp only: unat_div uos, simp add: SLAB_SIZE_PAGES_def PAGE_SIZE_def sizeofSlab_def)
  have one: "of_nat ?n \<ge> (1 :: u64)"
  proof -
    have "?n \<le> 4056" by simp
    from le_less_trans [OF this] have "unat (of_nat ?n :: u64) = ?n" by (intro unat_of_nat64) simp
    then show ?thesis using g(1) by (simp add: word_le_nat_alt geom_def)
  qed
  have n64: "unat (64 :: u64) = 64" by simp
  have "(64 :: u64) \<noteq> 0" by simp
  from strncpy_cstr [OF c(1) name(1) this name(2), unfolded n64, OF name(3)]
  obtain m0 where m0: "strncpy c name 64 (mem k) = Inr m0" "bytes_at m0 c (strncpy_spec s 64)"
    "same_outside (rng c 64) (mem k) m0" by blast
  from init_lists [OF c, of m0] obtain m1 m2 m3 where m: "llInitHead (cacheFull c) m0 = Inr m1"
    "llInitHead (cachePartial c) m1 = Inr m2" "llInitHead (cacheEmpty c) m2 = Inr m3"
    and l3: "llist m3 (cacheFull c) []" "llist m3 (cachePartial c) []" "llist m3 (cacheEmpty c) []"
    and o3: "same_outside (rng (c + 72) 48) m0 m3" by blast
  define m5 where "m5 = store64 (store64 m3 (c + 120) (of_nat ?os)) (c + 128) (of_nat ?n)"
  define m6 where "m6 = m5(c + 136 := 0)"
  have "(SLAB_SIZE_PAGES * PAGE_SIZE - sizeofSlab) div (ALIGN_UP osz 8 + 8) = of_nat ?n" using os per by simp
  moreover have "objPerSlab m5 c = of_nat ?n" by (simp add: objPerSlab_def m5_def)
  ultimately have run: "slabInitCache c name osz k = Inr (k\<lparr>mem := m6\<rparr>)"
    using c(1) sz(1) m0(1) m one os
    by (simp add: slabInitCache_def Let_def m5_def m6_def word_neq_0_conv unat_gt_0 spinlockInit_def)
  have cs: "rng (c + 120) 8 \<subseteq> rng (c + 120) 17" "rng (c + 128) 8 \<subseteq> rng (c + 120) 17" "c + 136 \<in> rng (c + 120) 17"
    using rng_sub [of 8 8 17 "c + 120"] rng_mono [of 8 17 "c + 120"] by (simp_all add: in_rng add.assoc)
  have o6: "same_outside (rng (c + 120) 17) m3 m6"
  proof -
    have "same_outside (rng (c + 120) 17) m3 m5" unfolding m5_def
      by (rule same_outside_trans [OF store_same_outside' [OF cs(1)] store_same_outside' [OF cs(2)]])
    then show ?thesis using cs(3) by (auto simp: same_outside_def m6_def)
  qed
  have dis: "rng (c + 72) 48 \<inter> rng (c + 120) 17 = {}" "rng c 64 \<inter> rng (c + 72) 48 = {}"
    "rng c 64 \<inter> rng (c + 120) 17 = {}"
    using rng_disjoint_base [of 72 48 120 17 c] rng_disjoint_base [of 0 64 72 48 c]
      rng_disjoint_base [of 0 64 120 17 c] by simp_all
  have nd: "node_rng (c + 72) \<inter> rng (c + 120) 17 = {}" "node_rng (c + 88) \<inter> rng (c + 120) 17 = {}"
    "node_rng (c + 104) \<inter> rng (c + 120) 17 = {}" by (rule rng_disjoint_base; simp)+
  have l6: "llist m6 (cacheFull c) []" "llist m6 (cachePartial c) []" "llist m6 (cacheEmpty c) []"
    by (rule llist_frame [OF l3(1) o6] llist_frame [OF l3(2) o6] llist_frame [OF l3(3) o6],
      use nd in \<open>simp add: cacheFull_def cachePartial_def cacheEmpty_def\<close>)+
  have "apart (c + 120) 8 (c + 128) 8" by (rule apart_base) simp_all
  then have sz5: "load64 m5 (c + 120) = of_nat ?os" "load64 m5 (c + 128) = of_nat ?n"
    by (simp_all add: m5_def load_store_apart apart_sym)
  have "load64 m6 (c + 120) = load64 m5 (c + 120)" "load64 m6 (c + 128) = load64 m5 (c + 128)"
    by (rule load_cong; auto simp: m6_def in_rng)+
  then have "cache_ok m6 c ?os ?n"
    using c(1) g(1) l6(2) sz5 by (simp add: cache_ok_def objSize_def objPerSlab_def)
  then have rep: "slab_rep m6 c ?os ?n newCache"
    using l6 by (simp add: slab_rep_def cache_lists_def newCache_def slabs_def curSlabs_def pages_ok_def)
  have o: "same_outside (rng c 144) (mem k) m6"
  proof -
    have sub: "rng c 64 \<subseteq> rng c 144" "rng (c + 72) 48 \<subseteq> rng c 144" "rng (c + 120) 17 \<subseteq> rng c 144"
      by (rule rng_mono rng_sub; simp)+
    show ?thesis
      by (rule same_outside_trans [OF same_outside_mono [OF m0(3) sub(1)]
            same_outside_trans [OF same_outside_mono [OF o3 sub(2)] same_outside_mono [OF o6 sub(3)]]])
  qed
  have "m6 x = m0 x" if "x \<in> rng c 64" for x
  proof -
    have "x \<notin> rng (c + 72) 48" "x \<notin> rng (c + 120) 17" using that dis(2,3) by auto
    then show ?thesis using same_outsideD [OF o3] same_outsideD [OF o6] by simp
  qed
  then have "bytes_at m6 c (strncpy_spec s 64)"
    using m0(2) by (auto simp: bytes_at_def in_rng unat_of_nat64)
  with run rep o show ?thesis by (intro exI [of _ "k\<lparr>mem := m6\<rparr>"]) (simp add: m6_def)
qed

subsection \<open>Freeing\<close>

lemma ALIGN_DOWN_page:
  assumes "unat s mod 4096 = 0" and "unat i < 4096"
  shows "ALIGN_DOWN (s + i) (SLAB_SIZE_PAGES * PAGE_SIZE) = s"
proof -
  have "unat s + unat i < 2 ^ 64"
    using assms unat_less_max [of s] by (auto elim!: dvdE simp: mod_eq_0_iff_dvd)
  then have u: "unat (s + i) = unat s + unat i" by (rule unat_add_no_wrap)
  define y where "y = s + i"
  have "y AND NOT (mask 12) = push_bit 12 (drop_bit 12 y)"
    by (rule bit_word_eqI) (auto simp: bit_simps)
  also have "\<dots> = drop_bit 12 y * 4096" by (simp add: push_bit_eq_mult)
  finally have e: "y AND NOT (mask 12) = drop_bit 12 y * 4096" .
  have d: "unat (drop_bit 12 y) = unat y div 4096" by (simp add: drop_bit_eq_div unat_div)
  have dv: "unat y div 4096 * 4096 = unat s" using assms u unfolding y_def by auto
  have "unat (drop_bit 12 y) * unat (4096 :: u64) < 2 ^ LENGTH(64)" using d dv unat_less_max [of s] by simp
  then have "unat (drop_bit 12 y * 4096) = unat s" using unat_mult_lem [of "drop_bit 12 y" 4096] d dv by simp
  then have "y AND NOT (mask 12) = s" using e by (simp add: word_unat_eq_iff)
  moreover have "SLAB_SIZE_PAGES * PAGE_SIZE - 1 = mask 12"
    by (simp add: SLAB_SIZE_PAGES_def PAGE_SIZE_def mask_eq_exp_minus_1)
  ultimately show ?thesis by (simp add: ALIGN_DOWN_def y_def)
qed

text \<open>The lists of a cache, with the nodes and the list heads apart from each other.\<close>

lemma cache_nodes_apart:
  assumes "pages_ok c ss"
    and "a \<in> {cacheFull c, cachePartial c, cacheEmpty c} \<union> slabHead ` set ss"
    and "b \<in> {cacheFull c, cachePartial c, cacheEmpty c} \<union> slabHead ` set ss" and "a \<noteq> b"
  shows "node_rng a \<inter> node_rng b = {}"
proof -
  have hs: "node_rng (slabHead t) \<inter> rng c 136 = {}" if "t \<in> set ss" for t
    using pages_okD(4) [OF assms(1) that] header_parts(1) [of t] cache_parts(6) [of c] by blast
  have pair: "node_rng (slabHead t) \<inter> node_rng (slabHead u) = {}" if "t \<in> set ss" "u \<in> set ss" "t \<noteq> u" for t u
  proof -
    have "sorted_wrt (\<lambda>s t. rng s 4096 \<inter> rng t 4096 = {}) ss" using assms(1) by (simp add: pages_ok_def)
    then have "rng t 4096 \<inter> rng u 4096 = {}" using that
      by (induction ss) (auto simp: Int_commute)
    then show ?thesis using header_parts(1,5) [of t] header_parts(1,5) [of u] by blast
  qed
  have hd: "node_rng h \<subseteq> rng c 136" if "h \<in> {cacheFull c, cachePartial c, cacheEmpty c}" for h
    using that cache_parts(1-3) [of c] by blast
  have hh: "node_rng h \<inter> node_rng g = {}" if "h \<in> {cacheFull c, cachePartial c, cacheEmpty c}"
    "g \<in> {cacheFull c, cachePartial c, cacheEmpty c}" "h \<noteq> g" for h g
    using that cache_parts_disjoint(1-3) [of c] by (elim insertE emptyE; simp add: Int_commute)
  from assms(2,3) consider
      "a \<in> {cacheFull c, cachePartial c, cacheEmpty c}" "b \<in> {cacheFull c, cachePartial c, cacheEmpty c}"
    | t where "a \<in> {cacheFull c, cachePartial c, cacheEmpty c}" "t \<in> set ss" "b = slabHead t"
    | t where "b \<in> {cacheFull c, cachePartial c, cacheEmpty c}" "t \<in> set ss" "a = slabHead t"
    | t u where "t \<in> set ss" "a = slabHead t" "u \<in> set ss" "b = slabHead u" by blast
  then show ?thesis
  proof cases
    case 1
    then show ?thesis using hh assms(4) by blast
  next
    case (2 t)
    then show ?thesis using hs [of t] hd [of a] by blast
  next
    case (3 t)
    then show ?thesis using hs [of t] hd [of b] by blast
  next
    case (4 t u)
    then show ?thesis using pair [of t u] assms(4) by auto
  qed
qed

text \<open>All three lists of a cache, for the states in which \<open>partial\<close> is in use.\<close>

definition lists3 :: "mem \<Rightarrow> u64 \<Rightarrow> u64 list \<Rightarrow> u64 list \<Rightarrow> u64 list \<Rightarrow> bool" where
  "lists3 m c ps es fs \<longleftrightarrow> llist m (cachePartial c) (map slabHead ps)
     \<and> llist m (cacheEmpty c) (map slabHead es) \<and> llist m (cacheFull c) (map slabHead fs)"

lemma lists3_frame:
  assumes l: "lists3 m c ps es fs" and out: "same_outside A m m'" and dis: "rng c 136 \<inter> A = {}"
    and nodes: "\<And>t. t \<in> set (ps @ es @ fs) \<Longrightarrow> node_rng (slabHead t) \<inter> A = {}"
  shows "lists3 m' c ps es fs"
proof -
  have fr: "llist m' h (map slabHead ss)"
    if "llist m h (map slabHead ss)" "node_rng h \<subseteq> rng c 136" "set ss \<subseteq> set (ps @ es @ fs)" for h ss
  proof (rule llist_frame [OF that(1) out])
    show "node_rng x \<inter> A = {}" if x: "x \<in> set (h # map slabHead ss)" for x
    proof (cases "x = h")
      case False
      then obtain t where "t \<in> set ss" "x = slabHead t" using x by auto
      then show ?thesis using nodes [of t] that(1) \<open>set ss \<subseteq> set (ps @ es @ fs)\<close> by blast
    qed (use dis \<open>node_rng h \<subseteq> rng c 136\<close> in blast)
  qed
  show ?thesis
    using l fr [of "cachePartial c" ps] fr [of "cacheEmpty c" es] fr [of "cacheFull c" fs] cache_parts(1-3) [of c]
    by (auto simp: lists3_def)
qed

text \<open>Moving a slab from the full list to another one, and from another list to the full list.\<close>

lemma header_off_nodes:
  assumes po: "pages_ok c ss" and s: "s \<in> set ss"
    and a: "a \<in> {cacheFull c, cachePartial c, cacheEmpty c} \<union> slabHead ` set ss"
  shows "(rng (s + 8) 8 \<union> rng (s + 32) 8) \<inter> node_rng a = {}"
proof -
  have h: "rng (s + 8) 8 \<union> rng (s + 32) 8 \<subseteq> rng s 40" using header_parts [of s] by blast
  from a consider "a \<in> {cacheFull c, cachePartial c, cacheEmpty c}" | "a = slabHead s"
    | t where "t \<in> set ss" "t \<noteq> s" "a = slabHead t" by blast
  then show ?thesis
  proof cases
    case 1
    then have "node_rng a \<subseteq> rng c 144" using cache_parts(1-3,6) [of c] by blast
    then show ?thesis using pages_okD(4) [OF po s] h by blast
  next
    case 2
    then show ?thesis using header_parts_disjoint(1,2) [of 0 s] by blast
  next
    case (3 t)
    have "sorted_wrt (\<lambda>s t. rng s 4096 \<inter> rng t 4096 = {}) ss" using po by (simp add: pages_ok_def)
    then have "rng t 4096 \<inter> rng s 4096 = {}" using 3(1,2) s
      by (induction ss) (auto simp: Int_commute)
    then show ?thesis using h header_parts(1,5) [of t] header_parts(5) [of s] 3(3) by blast
  qed
qed

lemma free_then_alloc:
  assumes rdy: "slab_ready k c os n v" and cur: "vCur v = None" and s: "s \<in> set (vFull v)"
    and j: "j < n" and page: "unat s mod 4096 = 0" and r: "r = slot s os j + 8"
  shows "\<exists>k1 k2. slabFree c r k = Inr k1 \<and> slabAlloc c k1 = Some (Inr (r + 8, k2))"
proof -
  note a = acquire_cache [OF rdy]
  define ma where "ma = (mem k)(c + 136 := 1)"
  have rep: "slab_rep ma c os n v" using a(2) by (simp add: slab_inv_def ma_def)
  note d = slab_repD [OF rep]
  define ss where "ss = vFull v"
  have sl: "slabs v = ss" "curSlabs v = []" using cur by (simp_all add: slabs_def curSlabs_def ss_def)
  have po: "pages_ok c ss" and sin: "s \<in> set ss" using d(3) sl s by (simp_all add: ss_def)
  obtain xs ys where ss: "ss = xs @ s # ys" using split_list [OF sin] by blast
  let ?N = "{cacheFull c, cachePartial c, cacheEmpty c} \<union> slabHead ` set ss"
  let ?H = "rng (s + 8) 8 \<union> rng (s + 32) 8"
  have H: "?H \<subseteq> rng s 40" using header_parts [of s] by blast
  \<comment> \<open>the address of the object lies in the slab's page, past the header\<close>
  have os: "16 \<le> os" using d(2) by (simp add: geom_def)
  have off: "unat (48 + of_nat (j * os) :: u64) = 48 + j * os" "48 + j * os + 8 \<le> 4096"
  proof -
    have "(j + 1) * os \<le> n * os" using j by (intro mult_le_mono1) simp
    then show le: "48 + j * os + 8 \<le> 4096" using d(2) os unfolding geom_def by simp
    then have "unat (of_nat (j * os) :: u64) = j * os" by (intro unat_of_nat64) simp
    then show "unat (48 + of_nat (j * os) :: u64) = 48 + j * os"
      using le unat_add_no_wrap [of 48 "of_nat (j * os)"] by (simp del: of_nat_mult)
  qed
  have rs: "r = s + (48 + of_nat (j * os))" by (simp add: r slot_def algebra_simps)
  have ad: "ALIGN_DOWN r (SLAB_SIZE_PAGES * PAGE_SIZE) = s"
    unfolding rs using off by (intro ALIGN_DOWN_page [OF page]) linarith
  have r0: "r \<noteq> 0"
  proof -
    have "unat r = unat s + (48 + j * os)"
      unfolding rs using off pages_okD(2) [OF po sin] by (subst unat_add_no_wrap) linarith+
    then show ?thesis by (auto simp: unat_eq_0 [symmetric])
  qed
  have rr: "rng r 8 \<inter> rng s 40 = {}" "rng r 8 \<subseteq> rng s 4096"
  proof -
    have "rng (s + 0) 40 \<inter> rng (s + (48 + of_nat (j * os))) 8 = {}"
      using off by (intro rng_disjoint_base) (simp_all del: of_nat_mult)
    then show "rng r 8 \<inter> rng s 40 = {}" unfolding rs by auto
    show "rng r 8 \<subseteq> rng s 4096" unfolding rs using off by (intro rng_sub) linarith
  qed
  \<comment> \<open>the stores of \<open>slabFree\<close>\<close>
  define m2 where "m2 = store64 (store64 ma r (firstFree ma s)) (s + 8) r"
  define m3 where "m3 = store64 m2 (s + 32) (usedObj m2 s - 1)"
  let ?A = "rng r 8 \<union> ?H"
  have o3: "same_outside ?A ma m3" unfolding m3_def m2_def
    by (rule same_outside_trans [OF same_outside_trans [OF store_same_outside' store_same_outside'] store_same_outside']) auto
  have A: "?A \<subseteq> rng s 4096" using rr(2) H header_parts(5) [of s] by blast
  have cA: "rng c 136 \<inter> ?A = {}" using A pages_okD(3) [OF po sin] cache_parts(6) [of c] by blast
  have nA: "node_rng (slabHead t) \<inter> ?A = {}" if t: "t \<in> set ([] @ [] @ ss)" for t
  proof -
    have tin: "t \<in> set ss" using t by simp
    have 1: "node_rng (slabHead t) \<inter> ?H = {}" using header_off_nodes [OF po sin, of "slabHead t"] tin by blast
    have 2: "node_rng (slabHead t) \<inter> rng r 8 = {}"
    proof (cases "t = s")
      case True
      then show ?thesis using rr(1) header_parts(1) [of s] by blast
    next
      case False
      have "sorted_wrt (\<lambda>s t. rng s 4096 \<inter> rng t 4096 = {}) ss" using po by (simp add: pages_ok_def)
      then have "rng t 4096 \<inter> rng s 4096 = {}" using False tin sin by (induction ss) (auto simp: Int_commute)
      then show ?thesis using rr(2) header_parts(1,5) [of t] by blast
    qed
    show ?thesis using 1 2 by blast
  qed
  have l0: "lists3 ma c [] [] ss"
    using d(5) sl by (simp add: lists3_def cache_lists_def cache_ok_def ss_def)
  have l3: "lists3 m3 c [] [] ss" by (rule lists3_frame [OF l0 o3 cA nA])
  have ff3: "firstFree m3 s = r"
  proof -
    have "apart (s + 8) 8 (s + 32) 8" by (rule apart_base) simp_all
    then show ?thesis by (simp add: m3_def m2_def firstFree_def load_store_apart apart_sym)
  qed
  \<comment> \<open>moving the slab off the full list\<close>
  have full3: "llist m3 (cacheFull c) (map slabHead xs @ slabHead s # map slabHead ys)"
    using l3 by (simp add: lists3_def ss)
  from llDelete_list [OF full3] obtain m4 where del: "llDelete (slabHead s) m3 = Inr m4" by blast
  define L where "L = (if usedObj m4 s = 0 then cacheEmpty c else cachePartial c)"
  have L: "L \<in> {cachePartial c, cacheEmpty c}" by (simp add: L_def)
  have hne: "cacheFull c \<noteq> cachePartial c" "cacheFull c \<noteq> cacheEmpty c" "cachePartial c \<noteq> cacheEmpty c"
    by (simp_all add: cacheFull_def cachePartial_def cacheEmpty_def)
  have Lne: "cacheFull c \<noteq> L" using L hne by auto
  have node_ne: "slabHead t \<noteq> h" if "t \<in> set ss" "h \<in> {cacheFull c, cachePartial c, cacheEmpty c}" for t h
  proof
    assume e: "slabHead t = h"
    have "h \<in> node_rng h" by (simp add: in_rng)
    then have "h \<in> rng c 144" using that(2) cache_parts(1-3,6) [of c] by blast
    moreover have "h \<in> rng t 40" using e header_parts(1) [of t] \<open>h \<in> node_rng h\<close> by blast
    ultimately show False using pages_okD(4) [OF po that(1)] by blast
  qed
  have L3: "llist m3 L []" using l3 L by (auto simp: lists3_def)
  have dis3: "node_rng x \<inter> node_rng y = {}"
    if "x \<in> set (cacheFull c # map slabHead xs @ slabHead s # map slabHead ys)" "y \<in> set (L # [])" for x y
  proof (rule cache_nodes_apart [OF po])
    show "x \<in> ?N" "y \<in> ?N" using that ss L by auto
    have y: "y = L" using that(2) by simp
    note xin = that(1)
    show "x \<noteq> y"
    proof (cases "x = cacheFull c")
      case False
      then obtain t where "t \<in> set ss" "x = slabHead t" using xin ss by auto
      then show ?thesis using node_ne [of t L] L y by auto
    qed (use Lne y in simp)
  qed
  from move_node [OF full3 L3 dis3] del obtain m5 where m5: "llInsertFront L (slabHead s) m4 = Inr m5"
    "llist m5 (cacheFull c) (map slabHead (xs @ ys))" "llist m5 L [slabHead s]"
    and U: "same_outside (\<Union>a \<in> set (cacheFull c # map slabHead xs @ slabHead s # map slabHead ys @ L # []). node_rng a) m3 m5"
    by auto
  have Usub: "(\<Union>a \<in> set (cacheFull c # map slabHead xs @ slabHead s # map slabHead ys @ L # []). node_rng a)
      \<subseteq> (\<Union>a \<in> ?N. node_rng a)" using ss L by (intro UN_mono) auto
  note U' = same_outside_mono [OF U Usub]
  define L' where "L' = (if usedObj m4 s = 0 then cachePartial c else cacheEmpty c)"
  have L': "llist m5 L' []"
  proof (rule llist_frame [OF _ U])
    show "llist m3 L' []" using l3 by (auto simp: lists3_def L'_def)
    have offL: "node_rng L' \<inter> node_rng b = {}"
      if b: "b \<in> set (cacheFull c # map slabHead xs @ slabHead s # map slabHead ys @ L # [])" for b
    proof (rule cache_nodes_apart [OF po])
      show "L' \<in> ?N" "b \<in> ?N" using b ss L by (auto simp: L'_def)
      have bc: "b = cacheFull c \<or> b = L \<or> b \<in> slabHead ` set ss" using b ss by auto
      have ne: "L' \<noteq> cacheFull c" "L' \<noteq> L" using hne by (auto simp: L'_def L_def)
      have in3: "L' \<in> {cacheFull c, cachePartial c, cacheEmpty c}" by (simp add: L'_def)
      have "L' \<notin> slabHead ` set ss"
      proof
        assume "L' \<in> slabHead ` set ss"
        then obtain t where "t \<in> set ss" "L' = slabHead t" by (rule imageE)
        then show False using node_ne [of t L'] in3 by simp
      qed
      then show "L' \<noteq> b" using bc ne by (elim disjE) (simp_all, metis)
    qed
    show "node_rng x \<inter> (\<Union>a \<in> set (cacheFull c # map slabHead xs @ slabHead s # map slabHead ys @ L # []). node_rng a) = {}"
      if x: "x \<in> set (L' # [])" for x
    proof -
      have "x = L'" using x by simp
      then show ?thesis unfolding Int_UN_distrib using offL by (simp only: SUP_bot_conv) simp
    qed
  qed
  have ff5: "firstFree m5 s = r"
  proof -
    have "rng (s + 8) 8 \<inter> (\<Union>a \<in> ?N. node_rng a) = {}" using header_off_nodes [OF po sin] by blast
    then show ?thesis using ff3 load_same_outside [OF U'] by (simp add: firstFree_def)
  qed
  define k1 where "k1 = k\<lparr>mem := cacheDrop c m5\<rparr>"
  have run1: "slabFree c r k = Inr k1"
    using d(1) r0 a(1) del m5(1)
    by (simp add: slabFree_def Let_def ad k1_def L_def split: if_splits flip: ma_def m2_def m3_def)
  \<comment> \<open>the next allocation\<close>
  have es: "(if usedObj m4 s = 0 then [s] else []) = (if L = cacheEmpty c then [s] else [])"
    using hne by (simp add: L_def)
  let ?ps = "if usedObj m4 s = 0 then [] else [s]" and ?es = "if usedObj m4 s = 0 then [s] else []"
  have l5: "lists3 m5 c ?ps ?es (xs @ ys)"
    using m5(2,3) L' by (simp add: lists3_def L_def L'_def split: if_splits)
  define m6 where "m6 = (cacheDrop c m5)(c + 136 := 1)"
  have o6: "same_outside (rng (c + 136) 1) m5 m6"
    by (auto simp: m6_def cacheDrop_def same_outside_def in_rng unat_eq_0)
  have nodes_in: "t \<in> set ss" if "t \<in> set (?ps @ ?es @ xs @ ys)" for t
    using that sin ss by (auto split: if_splits)
  have l6: "lists3 m6 c ?ps ?es (xs @ ys)"
  proof (rule lists3_frame [OF l5 o6 cache_parts_disjoint(7)])
    show "node_rng (slabHead t) \<inter> rng (c + 136) 1 = {}" if "t \<in> set (?ps @ ?es @ xs @ ys)" for t
      using pages_okD(4) [OF po nodes_in [OF that]] header_parts(1) [of t] cache_parts(7) [of c] by blast
  qed
  have acq: "cacheAcquire c (mem k1) = Inr m6"
    by (simp add: cacheAcquire_def k1_def m6_def cacheDrop_lock)
  have emp: "llEmpty (cachePartial c) m6 = Inr (usedObj m4 s = 0)" "llEmpty (cacheEmpty c) m6 = Inr (usedObj m4 s \<noteq> 0)"
    using l6 llist_empty [of m6 "cachePartial c"] llist_empty [of m6 "cacheEmpty c"]
    by (auto simp: lists3_def split: if_splits)
  have L6: "llist m6 L [slabHead s]" using l6 by (simp add: lists3_def L_def split: if_splits)
  have sel: "LIST_ENTRY (llNext m6 L) 16 = s"
    using llist_next [OF L6] by (simp add: slab_LIST_ENTRY)
  have ff6: "firstFree m6 s = r"
  proof -
    have "rng (s + 8) 8 \<inter> rng (c + 136) 1 = {}"
      using pages_okD(4) [OF po sin] H cache_parts(7) [of c] by blast
    then show ?thesis using ff5 load_same_outside [OF o6] by (simp add: firstFree_def)
  qed
  define x where "x = load64 m6 r"
  define m8 where "m8 = store64 (store64 m6 (s + 8) x) (s + 32) (usedObj (store64 m6 (s + 8) x) s + 1)"
  note hb = header_bump [where m = m6 and s = s and x = x, folded m8_def]
  have l8: "lists3 m8 c ?ps ?es (xs @ ys)"
  proof (rule lists3_frame [OF l6 hb(3)])
    show "rng c 136 \<inter> ?H = {}" using cA by blast
    show "node_rng (slabHead t) \<inter> ?H = {}" if "t \<in> set (?ps @ ?es @ xs @ ys)" for t
      using header_off_nodes [OF po sin, of "slabHead t"] nodes_in [OF that] by blast
  qed
  have L8: "llist m8 L ([] @ slabHead s # [])" "llist m8 (cacheFull c) (map slabHead (xs @ ys))"
    using l8 by (simp_all add: lists3_def L_def split: if_splits)
  have dis8: "node_rng p \<inter> node_rng q = {}"
    if "p \<in> set (L # [] @ slabHead s # [])" "q \<in> set (cacheFull c # map slabHead (xs @ ys))" for p q
  proof (rule cache_nodes_apart [OF po])
    show "p \<in> ?N" "q \<in> ?N" using that ss L by auto
    have sd: "slabHead s \<notin> slabHead ` set (xs @ ys)"
      using llist_distinct [OF full3] by auto
    have pc: "p = L \<or> p = slabHead s" using that(1) by auto
    show "p \<noteq> q"
    proof (cases "q = cacheFull c")
      case True
      then show ?thesis using pc Lne node_ne [OF sin, of "cacheFull c"] by auto
    next
      case False
      then have qs: "q \<in> slabHead ` set (xs @ ys)" using that(2) by auto
      then obtain t where "t \<in> set ss" "q = slabHead t" using ss by auto
      then have "q \<noteq> L" using node_ne [of t L] L by auto
      then show ?thesis using pc sd qs by metis
    qed
  qed
  from move_node [OF L8 dis8] obtain m9 m10 where mv: "llDelete (slabHead s) m8 = Inr m9"
    "llInsertFront (cacheFull c) (slabHead s) m9 = Inr m10" by blast
  have "\<exists>m'. slabTake c L m6 = Inr (r + 8, m')"
    using r0 mv by (simp add: slabTake_def Let_def sel ff6 flip: x_def m8_def)
  then obtain m' where take: "slabTake c L m6 = Inr (r + 8, m')" by blast
  have "slabAlloc c k1 = Some (Inr (r + 8, k1\<lparr>mem := m'\<rparr>))"
    using d(1) acq emp take by (subst slabAlloc.simps) (auto simp: L_def split: if_splits)
  with run1 show ?thesis by blast
qed

lemma slabInitCache_ready:
  assumes inv: "pmm_inv k" "window_ok k" "held k (rng c 144)"
    and c: "c \<noteq> 0" "unat c + 144 \<le> 2 ^ 64" and sz: "0 < unat osz" "unat osz \<le> 4048"
    and name: "name \<noteq> 0" "cstr (mem k) name s" "rng c 64 \<inter> rng name (min 64 (Suc (length s))) = {}"
  shows "\<exists>k'. slabInitCache c name osz k = Inr k' \<and> k' = k\<lparr>mem := mem k'\<rparr>
    \<and> slab_ready k' c (slotBytes (unat osz)) (slotsPerSlab (unat osz)) newCache
    \<and> bytes_at (mem k') c (strncpy_spec s 64) \<and> same_outside (rng c 144) (mem k) (mem k')
    \<and> (\<forall>A. held k A \<longrightarrow> held k' A)"
proof -
  from slabInitCache_spec [where k = k, OF c sz name] obtain k' where k': "slabInitCache c name osz k = Inr k'"
    "k' = k\<lparr>mem := mem k'\<rparr>" "mem k' (c + 136) = 0"
    "slab_rep (mem k') c (slotBytes (unat osz)) (slotsPerSlab (unat osz)) newCache"
    "bytes_at (mem k') c (strncpy_spec s 64)" "same_outside (rng c 144) (mem k) (mem k')" by blast
  have e: "k\<lparr>mem := mem k'\<rparr> = k'" using k'(2) by simp
  note hw = held_write [OF inv(1,3) k'(6), unfolded e]
  have "slabPages c newCache = rng c 144"
    by (simp add: slabPages_def slabs_def curSlabs_def newCache_def)
  moreover have "window_ok k'" using inv(2) unfolding window_ok_def by (subst k'(2), subst k'(2)) simp
  ultimately have "slab_ready k' c (slotBytes (unat osz)) (slotsPerSlab (unat osz)) newCache"
    using hw(1) hw(2) [OF inv(3)] k'(3,4) by (simp add: slab_ready_def slab_inv_def)
  with k' hw(2) show ?thesis by blast
qed

subsection \<open>The interface to the users of a cache\<close>

text \<open>
  What the users of a cache (\<open>vfs.c\<close>, \<open>tmpfs.c\<close>) rely on. \<open>meta v\<close> are the bytes the allocator
  keeps for itself in a state with view \<open>v\<close>, and \<open>live k A\<close> says that the set \<open>A\<close> of bytes is in
  use. Allocation returns, and gives bytes that are neither the allocator's nor in use.
\<close>

locale object_allocator =
  fixes ready :: "'k \<Rightarrow> 'v \<Rightarrow> bool"
    and alloc :: "'k \<Rightarrow> (u64 \<times> 'k) ores"
    and meta :: "'v \<Rightarrow> u64 set"
    and obj :: "u64 \<Rightarrow> u64 set"
    and live :: "'k \<Rightarrow> u64 set \<Rightarrow> bool"
  assumes alloc_returns: "ready k v \<Longrightarrow> \<exists>x. alloc k = Some x"
    and alloc_fresh: "ready k v \<Longrightarrow> alloc k = Some (Inr (r, k')) \<Longrightarrow>
      \<exists>v'. ready k' v' \<and> live k' (obj r) \<and> obj r \<inter> meta v' = {}
        \<and> (\<forall>A. live k A \<longrightarrow> A \<inter> meta v = {} \<longrightarrow> live k' A \<and> A \<inter> meta v' = {} \<and> A \<inter> obj r = {})"
begin

text \<open>Two objects, whatever is allocated after the first.\<close>

fun allocs :: "nat \<Rightarrow> 'k \<Rightarrow> (u64 list \<times> 'k) ores" where
  "allocs 0 k = Some (Inr ([], k))"
| "allocs (Suc i) k = bndO (alloc k) (\<lambda>(r, k). bndO (allocs i k) (\<lambda>(rs, k). Some (Inr (r # rs, k))))"

lemma allocs_return: "ready k v \<Longrightarrow> \<exists>x. allocs i k = Some x"
proof (induction i arbitrary: k v)
  case (Suc i)
  obtain x where x: "alloc k = Some x" using alloc_returns [OF Suc.prems] by blast
  show ?case
  proof (cases x)
    case (Inr p)
    obtain r k' where p: "p = (r, k')" by (cases p)
    obtain v' where "ready k' v'" using alloc_fresh [OF Suc.prems] x Inr p by blast
    from Suc.IH [OF this] obtain y where "allocs i k' = Some y" by blast
    then show ?thesis using x Inr p by (cases y) auto
  qed (simp add: x)
qed simp

lemma allocs_apart:
  assumes "ready k v" and "allocs i k = Some (Inr (rs, k'))"
  shows "\<exists>v'. ready k' v' \<and> sorted_wrt (\<lambda>r s. obj r \<inter> obj s = {}) rs
    \<and> (\<forall>r \<in> set rs. live k' (obj r) \<and> obj r \<inter> meta v' = {})
    \<and> (\<forall>A. live k A \<longrightarrow> A \<inter> meta v = {} \<longrightarrow>
         live k' A \<and> A \<inter> meta v' = {} \<and> (\<forall>r \<in> set rs. A \<inter> obj r = {}))"
  using assms
proof (induction i arbitrary: k v rs)
  case 0
  then show ?case by (auto intro!: exI [of _ v])
next
  case (Suc i)
  from Suc.prems(2) obtain r k1 rs1 where a: "alloc k = Some (Inr (r, k1))"
    "allocs i k1 = Some (Inr (rs1, k'))" "rs = r # rs1" by (auto simp: bndO_eq_Inr)
  from alloc_fresh [OF Suc.prems(1) a(1)] obtain v1 where
    w1: "ready k1 v1 \<and> live k1 (obj r) \<and> obj r \<inter> meta v1 = {}
      \<and> (\<forall>A. live k A \<longrightarrow> A \<inter> meta v = {} \<longrightarrow> live k1 A \<and> A \<inter> meta v1 = {} \<and> A \<inter> obj r = {})" ..
  then have v1: "ready k1 v1" "live k1 (obj r)" "obj r \<inter> meta v1 = {}"
    "\<And>A. live k A \<Longrightarrow> A \<inter> meta v = {} \<Longrightarrow> live k1 A \<and> A \<inter> meta v1 = {} \<and> A \<inter> obj r = {}"
    by simp_all
  from Suc.IH [OF v1(1) a(2)] obtain v2 where
    w2: "ready k' v2 \<and> sorted_wrt (\<lambda>r s. obj r \<inter> obj s = {}) rs1
      \<and> (\<forall>r \<in> set rs1. live k' (obj r) \<and> obj r \<inter> meta v2 = {})
      \<and> (\<forall>A. live k1 A \<longrightarrow> A \<inter> meta v1 = {} \<longrightarrow>
           live k' A \<and> A \<inter> meta v2 = {} \<and> (\<forall>r \<in> set rs1. A \<inter> obj r = {}))" ..
  then have v2: "ready k' v2" "sorted_wrt (\<lambda>r s. obj r \<inter> obj s = {}) rs1"
    "\<And>s. s \<in> set rs1 \<Longrightarrow> live k' (obj s) \<and> obj s \<inter> meta v2 = {}"
    "\<And>A. live k1 A \<Longrightarrow> A \<inter> meta v1 = {} \<Longrightarrow>
       live k' A \<and> A \<inter> meta v2 = {} \<and> (\<forall>r \<in> set rs1. A \<inter> obj r = {})"
    by simp_all
  note r = v2(4) [OF v1(2,3)]
  show ?case
  proof (intro exI [of _ v2] conjI allI impI ballI)
    show "ready k' v2" by (rule v2(1))
    show "sorted_wrt (\<lambda>r s. obj r \<inter> obj s = {}) rs" using v2(2) r a(3) by simp
    show "live k' (obj s)" "obj s \<inter> meta v2 = {}" if "s \<in> set rs" for s
      using that a(3) v2(3) r by auto
    fix A assume A: "live k A" "A \<inter> meta v = {}"
    note A1 = v1(4) [OF A]
    then have A2: "live k' A \<and> A \<inter> meta v2 = {} \<and> (\<forall>r \<in> set rs1. A \<inter> obj r = {})"
      by (intro v2(4)) simp_all
    then show "live k' A" "A \<inter> meta v2 = {}" by auto
    show "A \<inter> obj s = {}" if "s \<in> set rs" for s using that a(3) A1 A2 by auto
  qed
qed

end

interpretation sa: object_allocator
  "\<lambda>k v. slab_ready k c os n v" "slabAlloc c" "slabOwn c os n" "obj_rng os" held for c os n
proof
  fix k :: "'a pmm_state_scheme" and v
  assume rdy: "slab_ready k c os n v"
  show "\<exists>x. slabAlloc c k = Some x" using slabAlloc_total [OF rdy] by (auto split: if_splits)
  fix r k' assume "slabAlloc c k = Some (Inr (r, k'))"
  then obtain v' where "slab_alloc_post k c os n v r k' v'"
    using slabAlloc_total [OF rdy] by (auto split: if_splits)
  then show "\<exists>v'. slab_ready k' c os n v' \<and> held k' (obj_rng os r) \<and> obj_rng os r \<inter> slabOwn c os n v' = {}
    \<and> (\<forall>A. held k A \<longrightarrow> A \<inter> slabOwn c os n v = {} \<longrightarrow>
         held k' A \<and> A \<inter> slabOwn c os n v' = {} \<and> A \<inter> obj_rng os r = {})"
    by (intro exI [of _ v']) (simp add: slab_alloc_post_def)
qed

subsection \<open>A cache for the witnesses\<close>

definition demoCache :: u64 where "demoCache = 0xffff800000001040"
definition demoName :: u64 where "demoName = 0xffff800000001200"

lemma demo_window: "window_ok demoPmm"
  by (simp add: window_ok_def demoPmm_def)

text \<open>The rest of the page that holds the bitmap is in use.\<close>

lemma demo_page_held: "held demoPmm (rng demoCache 4032)"
proof -
  have "rng demoCache 4032 \<inter> bm_rng (pmmBitmap demoPmm) = {}"
    by (rule apart_disjoint) (simp add: apart_def demoCache_def demoPmm_def)
  moreover have "page_rng demoPmm p \<inter> rng demoCache 4032 = {}" if p: "p < 64" "\<not> pgUsed demoPmm p" for p
  proof -
    have "unat (x - hhdm demoPmm) div 4096 = 1" if "x \<in> rng demoCache 4032" for x
    proof -
      define d where "d = x - demoCache"
      have d: "unat d < 4032" using that by (simp add: in_rng d_def)
      have "x - hhdm demoPmm = d + 0x1040" by (simp add: d_def demoCache_def demoPmm_def)
      moreover have "unat (d + 0x1040) = unat d + 0x1040" using d by (subst unat_add_no_wrap) simp_all
      ultimately show ?thesis using d by simp
    qed
    moreover have "p \<noteq> 1" using p demo_used by auto
    ultimately show ?thesis using page_bytes [OF demo_pmm_inv, of p] p(1) demo_count by fastforce
  qed
  ultimately show ?thesis using demo_count by (simp add: held_def)
qed

lemma demo_held: "held demoPmm (rng demoCache 144)"
  by (rule held_subset [OF demo_page_held rng_mono]) simp

lemma demo_name: "cstr (mem demoPmm) demoName []" "demoName \<noteq> 0"
    "rng demoCache 64 \<inter> rng demoName (min 64 (Suc (length ([] :: u8 list)))) = {}"
  by (simp add: demoPmm_def demoName_def store_def, simp add: demoName_def,
    rule apart_disjoint, simp add: apart_def demoCache_def demoName_def)

lemma demo_cache_ready:
  assumes "0 < unat osz" and "unat osz \<le> 4048"
  shows "\<exists>k. slabInitCache demoCache demoName osz demoPmm = Inr k \<and> pgCount k = 64 \<and> \<not> pgUsed k 2
    \<and> slab_ready k demoCache (slotBytes (unat osz)) (slotsPerSlab (unat osz)) newCache
    \<and> unat (hhdm k) mod 4096 = 0"
proof -
  have "demoCache \<noteq> 0" "unat demoCache + 144 \<le> 2 ^ 64" by (simp_all add: demoCache_def)
  from slabInitCache_ready [OF demo_pmm_inv demo_window demo_held this assms demo_name(2,1,3)]
  obtain k where k: "slabInitCache demoCache demoName osz demoPmm = Inr k" "k = demoPmm\<lparr>mem := mem k\<rparr>"
    "slab_ready k demoCache (slotBytes (unat osz)) (slotsPerSlab (unat osz)) newCache"
    "same_outside (rng demoCache 144) (mem demoPmm) (mem k)" by blast
  note e = mem_update_eq [OF k(2)]
  have "rng demoCache 144 \<inter> bm_rng (pmmBitmap demoPmm) = {}" using demo_held by (simp add: held_def)
  then have "pgUsed k 2 = pgUsed demoPmm 2"
    using bmBit_same_outside [OF pmm_invD(1) [OF demo_pmm_inv] _ k(4), of 2] e demo_count by simp
  then have "\<not> pgUsed k 2" using demo_used [of 2] by simp
  moreover have "unat (hhdm k) mod 4096 = 0" using e by (simp add: demoPmm_def)
  ultimately show ?thesis using k(1,3) e demo_count by auto
qed

text \<open>A cache of the largest objects has one slot per slab, so one object fills a slab.\<close>

lemma demo_full_slab:
  "\<exists>(k :: pmm_state) v s. slab_ready k demoCache 4056 1 v \<and> vCur v = None \<and> s \<in> set (vFull v) \<and> unat s mod 4096 = 0"
proof -
  have sz: "slotBytes 4048 = 4056" by (simp add: slotBytes_def)
  obtain k :: pmm_state where k: "pgCount k = 64" "\<not> pgUsed k 2" "slab_ready k demoCache 4056 1 newCache"
    "unat (hhdm k) mod 4096 = 0" using demo_cache_ready [of 4048] sz by auto
  have inv: "slab_inv k demoCache 4056 1 newCache" "pmm_inv k" "window_ok k"
    using k(3) by (simp_all add: slab_ready_def slab_inv_def)
  have "\<exists>p < pgCount k. \<not> pgUsed k p" using k(1,2) by (intro exI [of _ 2]) simp
  then obtain s k1 where s: "vmmAlloc 1 k = Inr (s, k1)" using vmmAlloc_cases [OF inv(2)] by auto
  have al: "unat s mod 4096 = 0" by (rule vmmAlloc_aligned [OF inv(2,3) k(4) s])
  have "vCur newCache = None" by (simp add: newCache_def)
  from slabAllocSlab_spec [OF inv(1) this s] obtain k2 :: pmm_state where
    k2: "slab_inv k2 demoCache 4056 1 (newCache\<lparr>vCur := Some (s, 0)\<rparr>)" by (elim exE conjE) (rule that)
  let ?k3 = "k2\<lparr>mem := cacheDrop demoCache (mem k2)\<rparr>" and ?v = "newCache\<lparr>vCur := Some (s, 0)\<rparr>"
  have rep: "slab_rep (mem k2) demoCache 4056 1 ?v" using k2 by (simp add: slab_inv_def)
  have "slab_inv ?k3 demoCache 4056 1 ?v"
    using cache_parts(7) [of demoCache]
    by (intro slab_inv_write [OF k2 cacheDrop_outside slab_rep_lock [OF rep cacheDrop_outside]])
      (auto simp: slabPages_def)
  then have "slab_ready ?k3 demoCache 4056 1 ?v" by (simp add: slab_ready_def cacheDrop_lock)
  from slabAlloc_cur [OF this, of s 0] obtain k4 :: pmm_state where
    "slab_ready k4 demoCache 4056 1 (takeView 1 ?v s 0)" by auto
  then show ?thesis using al by (intro exI [of _ k4]) (auto simp: takeView_def newCache_def intro!: exI)
qed

subsection \<open>Properties\<close>

text \<open>C9: start from a cache without objects, and let any number of allocations, writes of the
  callers into their objects, and page allocations by the rest of the kernel follow. The
  objects handed out are then disjoint byte ranges, none of them meets the allocator's own
  data or the page bitmap, and the cache is still well-formed.\<close>

theorem slab_objects_exclusive:
  assumes "slab_ready k0 c os n v0" and "(slab_client c os)\<^sup>*\<^sup>* (k0, []) (k, L)"
  shows "\<exists>v. slab_ready k c os n v
    \<and> (\<forall>r \<in> set L. held k (obj_rng os r) \<and> obj_rng os r \<inter> slabOwn c os n v = {})
    \<and> (\<forall>i < length L. \<forall>j < i. obj_rng os (L ! i) \<inter> obj_rng os (L ! j) = {})"
proof -
  have "objects_ok c os n (k0, [])" using assms(1) by (auto simp: objects_ok_def)
  from objects_ok_reachable [OF assms(2) this] obtain v where v: "slab_ready k c os n v"
    "\<forall>r \<in> set L. held k (obj_rng os r) \<and> obj_rng os r \<inter> slabOwn c os n v = {}"
    "sorted_wrt (\<lambda>r s. obj_rng os r \<inter> obj_rng os s = {}) L" by (auto simp: objects_ok_def)
  have "obj_rng os (L ! i) \<inter> obj_rng os (L ! j) = {}" if "i < length L" "j < i" for i j
    using sorted_wrt_nth_less [OF v(3) that(2,1)] by blast
  with v(1,2) show ?thesis by blast
qed

lemma demo_slab_alloc:
  "\<exists>k r k'. slab_ready (k :: pmm_state) demoCache 64 63 newCache \<and> slabAlloc demoCache k = Some (Inr (r, k'))"
proof -
  have "slotBytes 56 = 64" by (simp add: slotBytes_def)
  then obtain k :: pmm_state where k: "pgCount k = 64" "\<not> pgUsed k 2" "slab_ready k demoCache 64 63 newCache"
    using demo_cache_ready [of 56] by auto
  have "\<exists>p < pgCount k. \<not> pgUsed k p" using k(1,2) by (intro exI [of _ 2]) simp
  with slabAlloc_total [OF k(3)] k(3) show ?thesis by auto
qed

theorem slab_objects_exclusive_witness:
  "\<exists>(k :: pmm_state) r k'. slabAlloc demoCache k = Some (Inr (r, k')) \<and> held k' (obj_rng 64 r)"
proof -
  obtain k :: pmm_state and r k' where k: "slab_ready k demoCache 64 63 newCache"
    "slabAlloc demoCache k = Some (Inr (r, k'))" using demo_slab_alloc by blast
  have "(slab_client demoCache 64)\<^sup>*\<^sup>* (k, []) (k', [r])"
    using object_alloc [OF k(2), of 64 "[]"] by (rule r_into_rtranclp)
  from slab_objects_exclusive [OF k(1) this] k(2) show ?thesis by auto
qed

text \<open>C10: on a cache from which nothing has been freed \<open>slabAlloc\<close> always returns. Such a cache has
  no slab on its partial list and at most one slab with room; \<open>slabInitCache\<close> sets one up, and it
  is one again after the call. (After \<open>slabFree\<close> the claim fails: see the freeing of an object of
  a full slab below.) The allocation panics for lack of memory exactly when no slab has room
  and no page is free. Otherwise the object it returns is in no memory that was in use by
  others, is not the allocator's afterwards, and no byte in use by others has changed.\<close>

theorem slabAlloc_correct:
  assumes "slab_ready k c os n v"
  shows "if vCur v = None \<and> \<not> (\<exists>p < pgCount k. \<not> pgUsed k p)
    then slabAlloc c k = Some (Inl (PanicMsg ''OUT OF MEMORY''))
    else \<exists>r k' v'. slabAlloc c k = Some (Inr (r, k')) \<and> slab_ready k' c os n v'
      \<and> held k' (obj_rng os r) \<and> obj_rng os r \<inter> slabOwn c os n v' = {}
      \<and> (\<forall>A. held k A \<longrightarrow> A \<inter> slabOwn c os n v = {} \<longrightarrow>
           A \<inter> obj_rng os r = {} \<and> A \<inter> slabOwn c os n v' = {} \<and> (\<forall>x \<in> A. mem k' x = mem k x))"
  using slabAlloc_total [OF assms] by (simp add: slab_alloc_post_def split: if_splits) metis

theorem slabAlloc_correct_witness:
  "\<exists>(k :: pmm_state) r k'. slabAlloc demoCache k = Some (Inr (r, k')) \<and> held k' (obj_rng 64 r)"
proof -
  obtain k :: pmm_state and r k' where k: "slab_ready k demoCache 64 63 newCache"
    "slabAlloc demoCache k = Some (Inr (r, k'))" using demo_slab_alloc by blast
  from slabAlloc_correct [OF k(1)] k(2) show ?thesis by (auto split: if_splits)
qed

text \<open>\<open>slabInitCache\<close> on an object size up to 4048 bytes sets up a well-formed cache without
  slabs: a slot is the size rounded up to 8 plus the link, the slots of a slab fit in its page
  behind the header, and the name is copied, cut to 64 bytes.\<close>

theorem slabInitCache_correct:
  assumes "pmm_inv k" and "window_ok k" and "held k (rng c 144)"
    and "c \<noteq> 0" and "unat c + 144 \<le> 2 ^ 64" and "0 < unat osz" and "unat osz \<le> 4048"
    and "name \<noteq> 0" and "cstr (mem k) name s" and "rng c 64 \<inter> rng name (min 64 (Suc (length s))) = {}"
  shows "\<exists>k'. slabInitCache c name osz k = Inr k'
    \<and> slab_ready k' c (slotBytes (unat osz)) (slotsPerSlab (unat osz)) newCache
    \<and> unat osz + 8 \<le> slotBytes (unat osz) \<and> 40 + slotsPerSlab (unat osz) * slotBytes (unat osz) \<le> 4096
    \<and> bytes_at (mem k') c (strncpy_spec s 64) \<and> same_outside (rng c 144) (mem k) (mem k')"
proof -
  have "unat osz + 8 \<le> slotBytes (unat osz)" unfolding slotBytes_def by linarith
  moreover have "40 + slotsPerSlab (unat osz) * slotBytes (unat osz) \<le> 4096"
    using slot_geometry(1) [OF assms(6,7)] by (simp only: geom_def)
  ultimately show ?thesis using slabInitCache_ready [OF assms] by blast
qed

theorem slabInitCache_correct_witness:
  "\<exists>k. slabInitCache demoCache demoName 56 demoPmm = Inr k \<and> slab_ready k demoCache 64 63 newCache"
proof -
  have d: "demoCache \<noteq> 0" "unat demoCache + 144 \<le> 2 ^ 64" "0 < unat (56 :: u64)" "unat (56 :: u64) \<le> 4048"
    by (simp_all add: demoCache_def)
  have "slotBytes (unat (56 :: u64)) = 64" by (simp add: slotBytes_def)
  then show ?thesis
    using slabInitCache_correct [OF demo_pmm_inv demo_window demo_held d demo_name(2,1,3)] by auto
qed

text \<open>C11: \<open>slabFree\<close> links the object's own address into the free list, not the address of its
  slot, which is 8 bytes lower. After an object is freed, the next allocation
  therefore returns the object's address plus 8, and the object it returns reaches into the
  slot that follows. This is stated for a cache all of whose slabs are full and from which
  nothing was freed before (\<open>vCur v = None\<close>): with a slab on the list of empty slabs the code
  would allocate from that slab first.\<close>

theorem slabFree_shifts_object:
  assumes "slab_ready k c os n v" and "vCur v = None" and "s \<in> set (vFull v)" and "j < n"
    and "unat s mod 4096 = 0"
  shows "\<exists>k1 k2. slabFree c (slot s os j + 8) k = Inr k1
    \<and> slabAlloc c k1 = Some (Inr (slot s os j + 16, k2))
    \<and> slot s os (Suc j) \<in> obj_rng os (slot s os j + 16)"
proof -
  have "geom os n" using assms(1) slab_repD(2) by (auto simp: slab_ready_def slab_inv_def)
  then have os: "16 \<le> os" "os \<le> 4096"
    using mult_le_mono1 [of 1 n os] unfolding geom_def by linarith+
  have "unat (of_nat os - 16 :: u64) = os - 16"
  proof -
    have "unat (of_nat os :: u64) = os" using os by (intro unat_of_nat64) simp
    then show ?thesis using os by (simp add: unat_sub_if')
  qed
  then have "slot s os (Suc j) \<in> obj_rng os (slot s os j + 16)"
    using os by (simp add: in_rng slot_Suc)
  moreover have "slot s os j + 8 + 8 = slot s os j + 16" by simp
  ultimately show ?thesis using free_then_alloc [OF assms refl] by metis
qed

theorem slabFree_shifts_object_witness:
  "\<exists>(k :: pmm_state) k1 k2 r. slabFree demoCache r k = Inr k1 \<and> slabAlloc demoCache k1 = Some (Inr (r + 8, k2))"
proof -
  obtain k :: pmm_state and v s where k: "slab_ready k demoCache 4056 1 v" "vCur v = None"
    "s \<in> set (vFull v)" "unat s mod 4096 = 0" using demo_full_slab by (elim exE conjE) (rule that)
  from slabFree_shifts_object [OF k(1-3) _ k(4), of 0] obtain k1 k2 where
    "slabFree demoCache (slot s 4056 0 + 8) k = Inr k1"
    "slabAlloc demoCache k1 = Some (Inr (slot s 4056 0 + 16, k2))" by auto
  moreover have "slot s 4056 0 + 16 = (slot s 4056 0 + 8) + 8" by simp
  ultimately show ?thesis by metis
qed

end
