(* ===== verification/FsNodes.thy ===== *)
theory FsNodes
  imports Slab
begin

section \<open>Nodes of the file system (include/vfs.h, include/tmpfs.h, filesystem/vfs.c)\<close>

text \<open>
  The structs \<open>FsNode\<close>, \<open>FsMnt\<close>, \<open>FsHandler\<close> and \<open>TmpfsNode\<close> live in byte memory, at the offsets
  the x86-64 ABI gives their fields. The state of the file system extends that of the page
  allocator by the addresses of the static variables of \<open>vfs.c\<close> and \<open>tmpfs.c\<close>, the value of
  \<open>root\<close>, and what the linker and the stack provide: the addresses of string literals, of the
  functions that handlers point to, and of the buffer \<open>sp\<close> of \<open>vfsLookup\<close>.

  What the functions print is not part of the model.
\<close>

datatype fs_fn =
    tmpfsReadFn
  | tmpfsWriteFn
  | tmpfsCreateFn
  | tmpfsLookupFn
  | tmpfsMkdirFn
  | tmpfsReaddirFn

record fs_state = pmm_state +
  mnts :: u64
  root :: u64
  nodeCache :: u64
  mntCache :: u64
  tmpfsNodeCache :: u64
  tmpfsHandler :: u64
  lit :: "string \<Rightarrow> u64"
  code :: "fs_fn \<Rightarrow> u64"
  spBuf :: u64

definition TYPE_DIR :: u32 where "TYPE_DIR = 1"
definition TYPE_FILE :: u32 where "TYPE_FILE = 2"

subsection \<open>Fields\<close>

definition sizeofFsNode :: u64 where "sizeofFsNode = 48"
definition nodeType :: "mem \<Rightarrow> u64 \<Rightarrow> u32" where "nodeType m n = load32 m n"
definition nodeMnt :: "mem \<Rightarrow> u64 \<Rightarrow> u64" where "nodeMnt m n = load64 m (n + 8)"
definition fsData :: "mem \<Rightarrow> u64 \<Rightarrow> u64" where "fsData m n = load64 m (n + 16)"
definition nodeOps :: "mem \<Rightarrow> u64 \<Rightarrow> u64" where "nodeOps m n = load64 m (n + 24)"
definition nodeHead :: "u64 \<Rightarrow> u64" where "nodeHead n = n + 32"

definition sizeofFsMnt :: u64 where "sizeofFsMnt = 216"
definition mntType :: "u64 \<Rightarrow> u64" where "mntType mnt = mnt"
definition mntDev :: "u64 \<Rightarrow> u64" where "mntDev mnt = mnt + 33"
definition mntPath :: "u64 \<Rightarrow> u64" where "mntPath mnt = mnt + 98"
definition mountpoint :: "mem \<Rightarrow> u64 \<Rightarrow> u64" where "mountpoint m mnt = load64 m (mnt + 168)"
definition mntRoot :: "mem \<Rightarrow> u64 \<Rightarrow> u64" where "mntRoot m mnt = load64 m (mnt + 176)"
definition mntHead :: "u64 \<Rightarrow> u64" where "mntHead mnt = mnt + 184"
definition mntNodes :: "u64 \<Rightarrow> u64" where "mntNodes mnt = mnt + 200"

definition opRead :: "mem \<Rightarrow> u64 \<Rightarrow> u64" where "opRead m h = load64 m (h + 8)"
definition opWrite :: "mem \<Rightarrow> u64 \<Rightarrow> u64" where "opWrite m h = load64 m (h + 16)"
definition opCreate :: "mem \<Rightarrow> u64 \<Rightarrow> u64" where "opCreate m h = load64 m (h + 24)"
definition opReaddir :: "mem \<Rightarrow> u64 \<Rightarrow> u64" where "opReaddir m h = load64 m (h + 40)"
definition opLookup :: "mem \<Rightarrow> u64 \<Rightarrow> u64" where "opLookup m h = load64 m (h + 48)"

definition sizeofTmpfsNode :: u64 where "sizeofTmpfsNode = 88"
definition tmpName :: "u64 \<Rightarrow> u64" where "tmpName t = t"
definition tmpNode :: "mem \<Rightarrow> u64 \<Rightarrow> u64" where "tmpNode m t = load64 m (t + 40)"
definition childHead :: "u64 \<Rightarrow> u64" where "childHead t = t + 48"
definition children :: "u64 \<Rightarrow> u64" where "children t = t + 64"
definition tmpData :: "mem \<Rightarrow> u64 \<Rightarrow> u64" where "tmpData m t = load64 m (t + 80)"

text \<open>A call through a function pointer that is meant for \<open>target\<close>.\<close>

definition callFn :: "u64 \<Rightarrow> u64 \<Rightarrow> 'r ores \<Rightarrow> 'r ores" where
  "callFn f target run = (if f = 0 then Some (Inl NullDeref) else if f = target then run else Some (Inl WildCall))"

subsection \<open>vfsAllocNode\<close>

definition vfsAllocNode :: "u64 \<Rightarrow> 'a fs_state_scheme \<Rightarrow> (u64 \<times> 'a fs_state_scheme) ores" where
  "vfsAllocNode mnt k =
     bndO (slabAlloc (nodeCache k) k) (\<lambda>(node, k).
     bndO (put64 node 8 mnt k) (\<lambda>k.
     bndO (onMem (llInitHead (nodeHead node)) k) (\<lambda>k.
     bndO (Some (deref mnt (Inr ()))) (\<lambda>_.
     bndO (onMem (llInsertFront (mntNodes mnt) (nodeHead node)) k) (\<lambda>k.
       Some (Inr (node, k)))))))"

end
