(* ===== verification/Tmpfs.thy ===== *)
theory Tmpfs
  imports FsNodes
begin

section \<open>The memory file system (filesystem/tmpfs/tmpfs.c)\<close>

text \<open>
  A directory is a \<open>TmpfsNode\<close> whose \<open>children\<close> list links the \<open>childHead\<close> of its entries; a file
  has two pages of data. The abstract view of a directory is the list of its entries, each a
  name and a node, newest first.
\<close>

definition FILE_SIZE_PAGES :: u64 where "FILE_SIZE_PAGES = 2"

subsection \<open>Operations\<close>

text \<open>The static table \<open>tmpfsHandler\<close>; \<open>open\<close> is not set.\<close>

definition tmpfsHandlerData :: "u64 \<Rightarrow> (fs_fn \<Rightarrow> u64) \<Rightarrow> mem \<Rightarrow> mem" where
  "tmpfsHandlerData h cd m =
     (let m = store64 m h 0;
          m = store64 m (h + 8) (cd tmpfsReadFn);
          m = store64 m (h + 16) (cd tmpfsWriteFn);
          m = store64 m (h + 24) (cd tmpfsCreateFn);
          m = store64 m (h + 48) (cd tmpfsLookupFn);
          m = store64 m (h + 32) (cd tmpfsMkdirFn)
      in store64 m (h + 40) (cd tmpfsReaddirFn))"

definition tmpfsAllocNode ::
    "u64 \<Rightarrow> u64 \<Rightarrow> u32 \<Rightarrow> 'a fs_state_scheme \<Rightarrow> (u64 \<times> 'a fs_state_scheme) ores" where
  "tmpfsAllocNode mnt name type k =
     bndO (vfsAllocNode mnt k) (\<lambda>(node, k).
     bndO (put64 node 24 (tmpfsHandler k) k) (\<lambda>k.
     bndO (put32 node 0 type k) (\<lambda>k.
     bndO (slabAlloc (tmpfsNodeCache k) k) (\<lambda>(tmpfsNode, k).
     bndO (onMem (strncpy (tmpName tmpfsNode) name 32) k) (\<lambda>k.
     bndO (if type = TYPE_FILE
           then bndO (Some (vmmAlloc FILE_SIZE_PAGES k)) (\<lambda>(d, k).
                bndO (put64 tmpfsNode 80 d k) (\<lambda>k.
                  onMem (memset (tmpData (mem k) tmpfsNode) 0 (FILE_SIZE_PAGES * PAGE_SIZE)) k))
           else Some (Inr k)) (\<lambda>k.
     bndO (put64 tmpfsNode 40 node k) (\<lambda>k.
     bndO (onMem (llInitHead (children tmpfsNode)) k) (\<lambda>k.
     bndO (onMem (llInitHead (childHead tmpfsNode)) k) (\<lambda>k.
     bndO (put64 node 16 tmpfsNode k) (\<lambda>k.
       Some (Inr (node, k))))))))))))"

definition tmpfsAddChild :: "u64 \<Rightarrow> u64 \<Rightarrow> 'a fs_state_scheme \<Rightarrow> (u32 \<times> 'a fs_state_scheme) ores" where
  "tmpfsAddChild n child k =
     bndO (Some (deref n (Inr (fsData (mem k) n)))) (\<lambda>tmpfsNode.
     bndO (Some (deref child (Inr (fsData (mem k) child)))) (\<lambda>tmpfsChild.
     bndO (Some (deref tmpfsNode (Inr ()))) (\<lambda>_.
     bndO (onMem (llInsertFront (children tmpfsNode) (childHead tmpfsChild)) k) (\<lambda>k.
       Some (Inr (0, k))))))"

definition tmpfsReadWrite ::
    "u64 \<Rightarrow> u64 \<Rightarrow> u64 \<Rightarrow> u64 \<Rightarrow> bool \<Rightarrow> 'a fs_state_scheme \<Rightarrow> (u64 \<times> 'a fs_state_scheme) ores" where
  "tmpfsReadWrite n pos buf sz write k =
     bndO (Some (deref n (Inr (nodeType (mem k) n)))) (\<lambda>type.
       if type = TYPE_DIR then Some (Inr (0, k))
       else if pos + sz \<ge> FILE_SIZE_PAGES * PAGE_SIZE then Some (Inr (0, k))
       else let tmpfsNode = fsData (mem k) n in
         bndO (Some (deref tmpfsNode (Inr (tmpData (mem k) tmpfsNode)))) (\<lambda>data.
         bndO (if write then onMem (memcpy (data + pos) buf sz) k
               else onMem (memcpy buf (data + pos) sz) k) (\<lambda>k.
           Some (Inr (sz, k)))))"

definition tmpfsRead ::
    "u64 \<Rightarrow> u64 \<Rightarrow> u64 \<Rightarrow> u64 \<Rightarrow> 'a fs_state_scheme \<Rightarrow> (u64 \<times> 'a fs_state_scheme) ores" where
  "tmpfsRead n pos buf sz k = tmpfsReadWrite n pos buf sz False k"

definition tmpfsWrite ::
    "u64 \<Rightarrow> u64 \<Rightarrow> u64 \<Rightarrow> u64 \<Rightarrow> 'a fs_state_scheme \<Rightarrow> (u64 \<times> 'a fs_state_scheme) ores" where
  "tmpfsWrite n pos buf sz k = tmpfsReadWrite n pos buf sz True k"

text \<open>
  The body of the loop of \<open>tmpfsReaddir\<close>: at entry number \<open>pos\<close> it fills the record \<open>buf\<close>
  (\<open>d_name\<close> at 15, \<open>d_type\<close> at 14, \<open>d_reclen\<close> at 12; the struct has 16 bytes) and returns.
\<close>

definition readdirBody :: "u64 \<Rightarrow> mem \<Rightarrow> u64 \<Rightarrow> u64 \<Rightarrow> (mem + u64) ores" where
  "readdirBody buf m current pos =
     (let child = LIST_ENTRY current 48 in
      if pos = 0
      then bndO (Some (deref buf (Inr ()))) (\<lambda>_.
           bndO (strcpy (buf + 15) (tmpName child) m) (\<lambda>m.
           bndO (Some (deref (tmpNode m child) (Inr (nodeType m (tmpNode m child))))) (\<lambda>type.
           let m = m(buf + 14 := ucast type) in
           bndO (strlen (buf + 15) m) (\<lambda>len.
             Some (Inr (Inl (store 2 m (buf + 12) (16 + len + 1))))))))
      else Some (Inr (Inr (pos - 1))))"

definition tmpfsReaddir :: "u64 \<Rightarrow> u64 \<Rightarrow> u64 \<Rightarrow> 'a fs_state_scheme \<Rightarrow> (bool \<times> 'a fs_state_scheme) ores" where
  "tmpfsReaddir n pos buf k =
     bndO (Some (deref n (Inr (fsData (mem k) n)))) (\<lambda>tmpfsNode.
     bndO (Some (deref tmpfsNode (Inr ()))) (\<lambda>_.
     bndO (LL_TRAVERSE (readdirBody buf (mem k)) (mem k) (children tmpfsNode) pos) (\<lambda>r.
       case r of Inl m \<Rightarrow> Some (Inr (True, k\<lparr>mem := m\<rparr>)) | Inr _ \<Rightarrow> Some (Inr (False, k)))))"

definition tmpfsCreate :: "u64 \<Rightarrow> u64 \<Rightarrow> 'a fs_state_scheme \<Rightarrow> (u32 \<times> 'a fs_state_scheme) ores" where
  "tmpfsCreate n name k =
     bndO (Some (deref n (Inr (nodeMnt (mem k) n)))) (\<lambda>mnt.
     bndO (tmpfsAllocNode mnt name TYPE_FILE k) (\<lambda>(child, k).
       tmpfsAddChild n child k))"

definition tmpfsMkdir :: "u64 \<Rightarrow> u64 \<Rightarrow> 'a fs_state_scheme \<Rightarrow> (u32 \<times> 'a fs_state_scheme) ores" where
  "tmpfsMkdir n name k =
     bndO (Some (deref n (Inr (nodeMnt (mem k) n)))) (\<lambda>mnt.
     bndO (tmpfsAllocNode mnt name TYPE_DIR k) (\<lambda>(child, k).
       tmpfsAddChild n child k))"

definition lookupBody :: "u64 \<Rightarrow> mem \<Rightarrow> u64 \<Rightarrow> unit \<Rightarrow> (u64 + unit) ores" where
  "lookupBody name m current _ =
     (let child = LIST_ENTRY current 48 in
      bndO (strcmp (tmpName child) name m) (\<lambda>c.
        if c = 0 then Some (Inr (Inl (tmpNode m child))) else Some (Inr (Inr ()))))"

definition tmpfsLookup :: "u64 \<Rightarrow> u64 \<Rightarrow> 'a fs_state_scheme \<Rightarrow> u64 ores" where
  "tmpfsLookup n name k =
     bndO (Some (deref n (Inr (fsData (mem k) n)))) (\<lambda>tmpfsNode.
     bndO (Some (deref tmpfsNode (Inr ()))) (\<lambda>_.
     bndO (LL_TRAVERSE (lookupBody name (mem k)) (mem k) (children tmpfsNode) ()) (\<lambda>r.
       case r of Inl node \<Rightarrow> Some (Inr node) | Inr _ \<Rightarrow> Some (Inr 0))))"

definition tmpfsMount :: "u64 \<Rightarrow> 'a fs_state_scheme \<Rightarrow> 'a fs_state_scheme ores" where
  "tmpfsMount mnt k =
     bndO (tmpfsAllocNode mnt (lit k '''') TYPE_DIR k) (\<lambda>(r, k).
     bndO (put64 mnt 176 r k) (\<lambda>k.
     bndO (tmpfsMkdir (mntRoot (mem k) mnt) (lit k ''dev'') k) (\<lambda>(_, k).
       Some (Inr k))))"

definition tmpfsInit :: "'a fs_state_scheme \<Rightarrow> 'a fs_state_scheme ores" where
  "tmpfsInit k = Some (slabInitCache (tmpfsNodeCache k) (lit k ''tmpfs nodes'') sizeofTmpfsNode k)"

subsection \<open>Directories\<close>

text \<open>
  The directory of the tmpfs node \<open>t\<close> with entries \<open>es\<close>, each the tmpfs node of the entry and
  its name.
\<close>

definition dir_rep :: "mem \<Rightarrow> u64 \<Rightarrow> (u64 \<times> u8 list) list \<Rightarrow> bool" where
  "dir_rep m t es \<longleftrightarrow> llist m (children t) (map (\<lambda>e. childHead (fst e)) es)
     \<and> (\<forall>e \<in> set es. fst e \<noteq> 0 \<and> cstr m (fst e) (snd e))"

text \<open>What looking a name up in such a directory gives: the node of its first entry, or 0.\<close>

definition dir_find :: "mem \<Rightarrow> (u64 \<times> u8 list) list \<Rightarrow> u8 list \<Rightarrow> u64" where
  "dir_find m es s = (case find (\<lambda>e. snd e = s) es of None \<Rightarrow> 0 | Some e \<Rightarrow> tmpNode m (fst e))"

lemma entry_of_childHead [simp]: "LIST_ENTRY (childHead c) 48 = c"
  by (simp add: LIST_ENTRY_def childHead_def)

lemma lookup_traverse:
  assumes "\<forall>e \<in> set es. fst e \<noteq> 0 \<and> cstr m (fst e) (snd e)" and "name \<noteq> 0" and "cstr m name s"
  shows "traverse (lookupBody name m) (map (\<lambda>e. childHead (fst e)) es) () =
    Some (Inr (case find (\<lambda>e. snd e = s) es of None \<Rightarrow> Inr () | Some e \<Rightarrow> Inl (tmpNode m (fst e))))"
  using assms(1)
proof (induction es)
  case (Cons e es)
  then have c: "fst e \<noteq> 0" "cstr m (fst e) (snd e)" by simp_all
  from strcmp_cstr [OF c(1) assms(2) c(2) assms(3)]
    strcmp_spec_eq_0 [OF cstr_nonzero [OF c(2)] cstr_nonzero [OF assms(3)]]
  show ?case using Cons by (simp add: lookupBody_def tmpName_def)
qed simp

lemma tmpfsLookup_dir:
  assumes "n \<noteq> 0" and "fsData (mem k) n = t" and "t \<noteq> 0" and "dir_rep (mem k) t es"
    and "name \<noteq> 0" and "cstr (mem k) name s"
  shows "tmpfsLookup n name k = Some (Inr (dir_find (mem k) es s))"
proof -
  have "LL_TRAVERSE (lookupBody name (mem k)) (mem k) (children t) () =
      Some (Inr (case find (\<lambda>e. snd e = s) es of None \<Rightarrow> Inr () | Some e \<Rightarrow> Inl (tmpNode (mem k) (fst e))))"
  proof -
    have d: "llist (mem k) (children t) (map (\<lambda>e. childHead (fst e)) es)"
      "\<forall>e \<in> set es. fst e \<noteq> 0 \<and> cstr (mem k) (fst e) (snd e)"
      using assms(4) unfolding dir_rep_def by (rule conjunct1, rule conjunct2)
    show ?thesis by (simp only: LL_TRAVERSE_list [OF d(1)] lookup_traverse [OF d(2) assms(5,6)])
  qed
  with assms(1-3) show ?thesis by (simp add: tmpfsLookup_def dir_find_def split: option.splits)
qed

text \<open>The loop of \<open>tmpfsReaddir\<close> counts down to the entry it was asked for.\<close>

lemma readdir_traverse:
  "unat pos < length es \<Longrightarrow> readdirBody buf m (childHead (fst (es ! unat pos))) 0 = Some (Inr (Inl r)) \<Longrightarrow>
    traverse (readdirBody buf m) (map (\<lambda>e. childHead (fst e)) es) pos = Some (Inr (Inl r))"
proof (induction es arbitrary: pos)
  case (Cons e es)
  show ?case
  proof (cases "pos = 0")
    case False
    then have u: "unat pos = Suc (unat (pos - 1))" by (simp add: unat_minus_one unat_gt_0)
    have "readdirBody buf m (childHead (fst e)) pos = Some (Inr (Inr (pos - 1)))"
      using False by (simp add: readdirBody_def)
    then show ?thesis using Cons u by simp
  qed (use Cons.prems in simp)
qed simp

lemma readdir_past:
  "length es \<le> unat pos \<Longrightarrow> \<exists>s. traverse (readdirBody buf m) (map (\<lambda>e. childHead (fst e)) es) pos = Some (Inr (Inr s))"
proof (induction es arbitrary: pos)
  case (Cons e es)
  then have p: "pos \<noteq> 0" by auto
  then have u: "unat pos = Suc (unat (pos - 1))" by (simp add: unat_minus_one unat_gt_0)
  have "readdirBody buf m (childHead (fst e)) pos = Some (Inr (Inr (pos - 1)))"
    using p by (simp add: readdirBody_def)
  then show ?case using Cons u by simp
qed simp

text \<open>What a directory record holds.\<close>

definition dirent_rep :: "mem \<Rightarrow> u64 \<Rightarrow> u8 list \<Rightarrow> u32 \<Rightarrow> bool" where
  "dirent_rep m buf s type \<longleftrightarrow> cstr m (buf + 15) s \<and> m (buf + 14) = ucast type
     \<and> load 2 m (buf + 12) = of_nat (17 + length s)"

lemma readdir_entry:
  assumes buf: "buf \<noteq> 0" "unat buf + 16 + length s < 2 ^ 64" and s: "length s \<le> 1000"
    and c: "c \<noteq> 0" "cstr m c s" "tmpNode m c = node" "node \<noteq> 0"
    and off: "rng buf (16 + length s) \<inter> (rng c 88 \<union> rng c (Suc (length s)) \<union> rng node 48) = {}"
  shows "\<exists>m'. readdirBody buf m (childHead c) 0 = Some (Inr (Inl m'))
    \<and> dirent_rep m' buf s (nodeType m node) \<and> same_outside (rng buf (16 + length s)) m m'"
proof -
  have b15: "unat (buf + 15) = unat buf + 15" using buf(2) by (simp add: unat_add_no_wrap)
  then have n15: "buf + 15 \<noteq> 0" by (auto simp: unat_eq_0 [symmetric])
  have sub: "rng (buf + 15) (Suc (length s)) \<subseteq> rng buf (16 + length s)" by (rule rng_sub) simp
  have "rng (buf + 15) (Suc (length s)) \<inter> rng c (Suc (length s)) = {}" using sub off by blast
  from strcpy_cstr [OF n15 c(1,2) _ this] s obtain m1 where m1: "strcpy (buf + 15) c m = Some (Inr m1)"
    "cstr m1 (buf + 15) s" "same_outside (rng (buf + 15) (Suc (length s))) m m1" by auto
  have o1: "same_outside (rng buf (16 + length s)) m m1" by (rule same_outside_mono [OF m1(3) sub])
  have "rng (c + 40) 8 \<subseteq> rng c 88" "rng node 4 \<subseteq> rng node 48" by (rule rng_sub, simp) (rule rng_mono, simp)
  then have "rng (c + 40) 8 \<inter> rng buf (16 + length s) = {}" "rng node 4 \<inter> rng buf (16 + length s) = {}"
    using off by blast+
  from this [THEN load_same_outside [OF o1]]
  have r: "tmpNode m1 c = node" "nodeType m1 node = nodeType m node"
    using c(3) by (simp_all add: tmpNode_def nodeType_def load32_def)
  define m2 where "m2 = m1(buf + 14 := ucast (nodeType m node))"
  have far: "unat ((x :: u64) + 15 + y - (x + 14)) = unat (y + 1)" for x y by (simp add: algebra_simps)
  have c2: "cstr m2 (buf + 15) s"
  proof (rule cstr_cong [OF m1(2)])
    fix x assume "x \<in> rng (buf + 15) (Suc (length s))"
    moreover have "unat (buf + 14 - (buf + 15)) = 2 ^ 64 - 1" by simp (simp add: unat_uminus)
    then have "buf + 14 \<notin> rng (buf + 15) (Suc (length s))" using s by (simp only: in_rng) simp
    ultimately show "m2 x = m1 x" by (auto simp: m2_def)
  qed
  have len: "strlen (buf + 15) m2 = Some (Inr (of_nat (length s)))" by (rule strlen_cstr [OF n15 c2])
  define m3 where "m3 = store 2 m2 (buf + 12) (16 + of_nat (length s) + 1)"
  have o3: "same_outside (rng (buf + 12) 2) m2 m3" unfolding m3_def by (rule store_same_outside)
  have "cstr m3 (buf + 15) s"
  proof (rule cstr_cong [OF c2])
    fix x assume "x \<in> rng (buf + 15) (Suc (length s))"
    moreover have "apart (buf + 15) (Suc (length s)) (buf + 12) 2" using s by (simp add: apart_def)
    ultimately show "m3 x = m2 x" using apart_notin same_outsideD [OF o3] by blast
  qed
  moreover have "m3 (buf + 14) = ucast (nodeType m node)"
    using same_outsideD [OF o3, of "buf + 14"] by (simp add: m2_def in_rng)
  moreover have "load 2 m3 (buf + 12) = of_nat (17 + length s)"
  proof -
    have "unat (of_nat (17 + length s) :: u64) = 17 + length s" using s by (intro unat_of_nat64) simp
    then have "take_bit 16 (of_nat (17 + length s) :: u64) = of_nat (17 + length s)"
      using s by (intro word_unat_eq_iff [THEN iffD2]) (simp add: unsigned_take_bit_eq take_bit_nat_eq_self del: of_nat_add)
    then show ?thesis by (simp add: m3_def load_store_same)
  qed
  ultimately have "dirent_rep m3 buf s (nodeType m node)" by (simp add: dirent_rep_def)
  moreover have "same_outside (rng buf (16 + length s)) m m3"
  proof -
    have "buf + 14 \<in> rng buf (16 + length s)" by (simp add: in_rng)
    then have "same_outside (rng buf (16 + length s)) m1 m2" by (auto simp: same_outside_def m2_def)
    moreover have "same_outside (rng buf (16 + length s)) m2 m3"
      by (rule same_outside_mono [OF o3], rule rng_sub) simp
    ultimately show ?thesis using o1 same_outside_trans by blast
  qed
  moreover have "readdirBody buf m (childHead c) 0 = Some (Inr (Inl m3))"
    using buf(1) m1(1) r c(4) len by (simp add: readdirBody_def tmpName_def m3_def Let_def flip: m2_def)
  ultimately show ?thesis by blast
qed

subsection \<open>Files\<close>

text \<open>The node \<open>n\<close> of a file with tmpfs node \<open>t\<close> and the 8192 bytes of data at \<open>d\<close>.\<close>

definition file_rep :: "mem \<Rightarrow> u64 \<Rightarrow> u64 \<Rightarrow> u64 \<Rightarrow> bool" where
  "file_rep m n t d \<longleftrightarrow> n \<noteq> 0 \<and> nodeType m n = TYPE_FILE \<and> fsData m n = t \<and> t \<noteq> 0
     \<and> tmpData m t = d \<and> d \<noteq> 0 \<and> unat d + 8192 \<le> 2 ^ 64"

lemma file_rep_frame:
  assumes f: "file_rep m n t d" and out: "same_outside A m m'"
    and off: "(rng n 48 \<union> rng t 88) \<inter> A = {}"
  shows "file_rep m' n t d"
proof -
  have "rng n 4 \<subseteq> rng n 48" by (rule rng_mono) simp
  moreover have "rng (n + 16) 8 \<subseteq> rng n 48" "rng (t + 80) 8 \<subseteq> rng t 88" by (rule rng_sub; simp)+
  ultimately have "rng n 4 \<inter> A = {}" "rng (n + 16) 8 \<inter> A = {}" "rng (t + 80) 8 \<inter> A = {}" using off by blast+
  from this [THEN load_same_outside [OF out]] show ?thesis
    using f by (simp add: file_rep_def nodeType_def load32_def fsData_def tmpData_def)
qed

lemma file_size: "FILE_SIZE_PAGES * PAGE_SIZE = 8192"
  by (simp add: FILE_SIZE_PAGES_def PAGE_SIZE_def)

text \<open>The bound that is tested, on the sum as the machine computes it.\<close>

lemma tmpfsReadWrite_file:
  assumes "file_rep (mem k) n t d"
  shows "tmpfsReadWrite n pos buf sz w k =
    (if 8192 \<le> pos + sz then Some (Inr (0, k))
     else bndO (if w then onMem (memcpy (d + pos) buf sz) k else onMem (memcpy buf (d + pos) sz) k)
            (\<lambda>k. Some (Inr (sz, k))))"
  using assms by (simp add: tmpfsReadWrite_def file_rep_def file_size TYPE_DIR_def TYPE_FILE_def Let_def)

lemma copy_bytes:
  assumes "dst \<noteq> 0" and "src \<noteq> 0" and "sz \<noteq> 0" and "apart dst (unat sz) src (unat sz)"
  shows "\<exists>m'. memcpy dst src sz m = Inr m' \<and> same_outside (rng dst (unat sz)) m m'
    \<and> (\<forall>i < unat sz. m' (dst + of_nat i) = m (src + of_nat i))"
proof (intro exI conjI allI impI)
  show "memcpy dst src sz m = Inr (copied dst src (unat sz) m)" by (rule memcpy_copied [OF assms])
  show "same_outside (rng dst (unat sz)) m (copied dst src (unat sz) m)" by (rule copied_same_outside)
  fix i assume "i < unat sz"
  moreover have "unat (of_nat i :: u64) = i" using \<open>i < unat sz\<close> unat_less_max [of sz] by (intro unat_of_nat64) simp
  ultimately show "copied dst src (unat sz) m (dst + of_nat i) = m (src + of_nat i)"
    by (simp add: copied_def in_rng)
qed

text \<open>Of ranges that overlap it is only said where the copy goes.\<close>

lemma copy_bytes_any:
  assumes "dst \<noteq> 0" and "src \<noteq> 0" and "sz \<noteq> 0"
  shows "\<exists>m'. memcpy dst src sz m = Inr m' \<and> same_outside (rng dst (unat sz)) m m'
    \<and> (apart dst (unat sz) src (unat sz) \<longrightarrow> (\<forall>i < unat sz. m' (dst + of_nat i) = m (src + of_nat i)))"
proof (cases "apart dst (unat sz) src (unat sz)")
  case False
  then show ?thesis using assms rep_movsb_outside by (simp add: memcpy_def word_neq_0_conv)
qed (use copy_bytes [OF assms] in blast)

lemma file_offset:
  assumes "file_rep m n t d" and "unat pos < 8192"
  shows "d + pos \<noteq> 0" and "unat (d + pos) = unat d + unat pos"
proof -
  have "0 < unat d" "unat d + 8192 \<le> 2 ^ 64" using assms(1) by (auto simp: file_rep_def unat_gt_0)
  then show "unat (d + pos) = unat d + unat pos" using assms(2) by (intro unat_add_no_wrap) simp
  with \<open>0 < unat d\<close> show "d + pos \<noteq> 0" by (auto simp: unat_eq_0 [symmetric])
qed

subsection \<open>Properties\<close>

text \<open>C22: on offsets whose sum with the length does not wrap, reading and writing a file refuses
  every access that is not strictly inside its 8192 bytes (so the last byte can never be
  accessed), panics on an empty access or a null buffer, and otherwise writes to no other bytes than
  those asked for, of the file or of the buffer; when the buffer and the bytes of the file do not
  overlap, these are copied exactly.\<close>

theorem tmpfsReadWrite_correct:
  assumes "file_rep (mem k) n t d" and "unat pos + unat sz < 2 ^ 64"
  shows "if 8192 \<le> unat pos + unat sz then tmpfsReadWrite n pos buf sz w k = Some (Inr (0, k))
    else if sz = 0 \<or> buf = 0 then tmpfsReadWrite n pos buf sz w k = Some (Inl AssertFail)
    else \<exists>m'. tmpfsReadWrite n pos buf sz w k = Some (Inr (sz, k\<lparr>mem := m'\<rparr>))
      \<and> rng (d + pos) (unat sz) \<subseteq> rng d 8191
      \<and> same_outside (rng (if w then d + pos else buf) (unat sz)) (mem k) m'
      \<and> (apart (d + pos) (unat sz) buf (unat sz) \<longrightarrow>
           (\<forall>i < unat sz. m' ((if w then d + pos else buf) + of_nat i)
              = mem k ((if w then buf else d + pos) + of_nat i)))"
proof -
  have sum: "8192 \<le> pos + sz \<longleftrightarrow> 8192 \<le> unat pos + unat sz"
    using unat_add_no_wrap [OF assms(2)] by (simp add: word_le_nat_alt)
  show ?thesis
  proof (cases "8192 \<le> unat pos + unat sz \<or> sz = 0 \<or> buf = 0")
    case True
    then show ?thesis
      using sum tmpfsReadWrite_file [OF assms(1), of pos buf sz w] file_offset(1) [OF assms(1), of pos]
      by (auto simp: onMem_def memcpy_def ASSERT_def)
  next
    case False
    then have nz: "d + pos \<noteq> 0" "sz \<noteq> 0" "buf \<noteq> 0" using file_offset(1) [OF assms(1), of pos] by auto
    have sub: "rng (d + pos) (unat sz) \<subseteq> rng d 8191" using False by (intro rng_sub) simp
    let ?dst = "if w then d + pos else buf" and ?src = "if w then buf else d + pos"
    have "?dst \<noteq> 0" "?src \<noteq> 0" using nz by simp_all
    from copy_bytes_any [OF this nz(2)] obtain m' where m': "memcpy ?dst ?src sz (mem k) = Inr m'"
      "same_outside (rng ?dst (unat sz)) (mem k) m'"
      "apart ?dst (unat sz) ?src (unat sz) \<longrightarrow> (\<forall>i < unat sz. m' (?dst + of_nat i) = mem k (?src + of_nat i))" by blast
    have "tmpfsReadWrite n pos buf sz w k = Some (Inr (sz, k\<lparr>mem := m'\<rparr>))"
      using m'(1) False sum by (cases w) (simp_all add: tmpfsReadWrite_file [OF assms(1)] onMem_def)
    moreover have "apart ?dst (unat sz) ?src (unat sz)" if "apart (d + pos) (unat sz) buf (unat sz)"
      using that apart_sym [OF that] by simp
    ultimately have copied: "tmpfsReadWrite n pos buf sz w k = Some (Inr (sz, k\<lparr>mem := m'\<rparr>))
      \<and> rng (d + pos) (unat sz) \<subseteq> rng d 8191 \<and> same_outside (rng ?dst (unat sz)) (mem k) m'
      \<and> (apart (d + pos) (unat sz) buf (unat sz) \<longrightarrow> (\<forall>i < unat sz. m' (?dst + of_nat i) = mem k (?src + of_nat i)))"
      using sub m'(2,3) by blast
    have "\<not> 8192 \<le> unat pos + unat sz" "\<not> (sz = 0 \<or> buf = 0)" using False by blast+
    then show ?thesis unfolding if_not_P [OF \<open>\<not> 8192 \<le> unat pos + unat sz\<close>] if_not_P [OF \<open>\<not> (sz = 0 \<or> buf = 0)\<close>]
      using copied by (rule_tac exI [of _ m'])
  qed
qed

text \<open>A file at \<open>0x1000\<close> with its data at \<open>0x4000\<close>.\<close>

definition demoFile :: mem where
  "demoFile = store64 (store64 (store32 (\<lambda>_. 0) 0x1000 TYPE_FILE) 0x1010 0x2000) 0x2050 0x4000"

lemma demo_file: "file_rep demoFile 0x1000 0x2000 0x4000"
proof -
  have "load 4 demoFile 0x1000 = load 4 (store 4 (\<lambda>_. 0) 0x1000 2) 0x1000"
    unfolding demoFile_def by (simp add: load_store_apart apart_def store32_def TYPE_FILE_def)
  then have "nodeType demoFile 0x1000 = TYPE_FILE"
    by (simp add: nodeType_def load32_def load_store_same TYPE_FILE_def take_bit_eq_mod)
  moreover have "fsData demoFile 0x1000 = 0x2000" "tmpData demoFile 0x2000 = 0x4000"
    by (simp_all add: demoFile_def fsData_def tmpData_def mem_simps)
  ultimately show ?thesis by (simp add: file_rep_def)
qed

definition demoFs :: fs_state where
  "demoFs = \<lparr>mem = demoFile, hhdm = 0, pmmBitmap = \<lparr>bits = 0, dataSize = 0, data = 0\<rparr>, pmmSpinlock = False,
     mnts = 0x100, root = 0, nodeCache = 0x200, mntCache = 0x300, tmpfsNodeCache = 0x400,
     tmpfsHandler = 0x500, lit = (\<lambda>_. 0x600), code = (\<lambda>_. 0x700), spBuf = 0x800\<rparr>"

theorem tmpfsReadWrite_correct_witness:
  "\<exists>m'. tmpfsReadWrite 0x1000 8 0x9000 16 True demoFs = Some (Inr (16, demoFs\<lparr>mem := m'\<rparr>))"
proof -
  have f: "file_rep (mem demoFs) 0x1000 0x2000 0x4000" using demo_file by (simp add: demoFs_def)
  from tmpfsReadWrite_correct [OF f, of 8 16 "0x9000" True] show ?thesis by (auto simp: apart_def)
qed

text \<open>what is written to a file and then read back at the same offset are the same bytes.\<close>

theorem tmpfs_write_read:
  assumes "file_rep (mem k) n t d" and "sz \<noteq> 0" and "unat pos + unat sz < 8192"
    and "src \<noteq> 0" and "dst \<noteq> 0" and "apart (d + pos) (unat sz) src (unat sz)"
    and "apart (d + pos) (unat sz) dst (unat sz)"
    and "(rng n 48 \<union> rng t 88) \<inter> rng d 8192 = {}"
  shows "\<exists>m1 m2. tmpfsWrite n pos src sz k = Some (Inr (sz, k\<lparr>mem := m1\<rparr>))
    \<and> tmpfsRead n pos dst sz (k\<lparr>mem := m1\<rparr>) = Some (Inr (sz, k\<lparr>mem := m2\<rparr>))
    \<and> (\<forall>i < unat sz. m2 (dst + of_nat i) = mem k (src + of_nat i))"
proof -
  have p: "d + pos \<noteq> 0" using file_offset(1) [OF assms(1), of pos] assms(3) by simp
  from copy_bytes [OF p assms(4,2,6)] obtain m1 where m1: "memcpy (d + pos) src sz (mem k) = Inr m1"
    "same_outside (rng (d + pos) (unat sz)) (mem k) m1"
    "\<forall>i < unat sz. m1 (d + pos + of_nat i) = mem k (src + of_nat i)" by blast
  have "rng (d + pos) (unat sz) \<subseteq> rng d 8192" using assms(3) by (intro rng_sub) simp
  then have "file_rep m1 n t d" using assms(8) by (intro file_rep_frame [OF assms(1) m1(2)]) blast
  then have f1: "file_rep (mem (k\<lparr>mem := m1\<rparr>)) n t d" by simp
  from copy_bytes [OF assms(5) p assms(2) apart_sym [OF assms(7)]] obtain m2 where m2:
    "memcpy dst (d + pos) sz m1 = Inr m2" "\<forall>i < unat sz. m2 (dst + of_nat i) = m1 (d + pos + of_nat i)" by blast
  have sum: "\<not> 8192 \<le> pos + sz" using assms(3) by (simp add: word_le_nat_alt unat_add_no_wrap)
  have "tmpfsWrite n pos src sz k = Some (Inr (sz, k\<lparr>mem := m1\<rparr>))"
    "tmpfsRead n pos dst sz (k\<lparr>mem := m1\<rparr>) = Some (Inr (sz, k\<lparr>mem := m2\<rparr>))"
    using sum m1(1) m2(1) tmpfsReadWrite_file [OF assms(1), of pos src sz True]
      tmpfsReadWrite_file [OF f1, of pos dst sz False]
    by (simp_all add: tmpfsWrite_def tmpfsRead_def onMem_def)
  moreover have "\<forall>i < unat sz. m2 (dst + of_nat i) = mem k (src + of_nat i)" using m1(3) m2(2) by simp
  ultimately show ?thesis by blast
qed

theorem tmpfs_write_read_witness:
  "\<exists>m1 m2. tmpfsWrite 0x1000 1 0x9000 13 demoFs = Some (Inr (13, demoFs\<lparr>mem := m1\<rparr>))
    \<and> tmpfsRead 0x1000 1 0xa000 13 (demoFs\<lparr>mem := m1\<rparr>) = Some (Inr (13, demoFs\<lparr>mem := m2\<rparr>))"
proof -
  have f: "file_rep (mem demoFs) 0x1000 0x2000 0x4000" using demo_file by (simp add: demoFs_def)
  have "rng 0x1000 48 \<inter> rng 0x4000 8192 = {}" "rng 0x2000 88 \<inter> rng 0x4000 8192 = {}"
    by (rule apart_disjoint, simp add: apart_def)+
  then have "(rng 0x1000 48 \<union> rng 0x2000 88) \<inter> rng 0x4000 8192 = {}" by blast
  from tmpfs_write_read [OF f _ _ _ _ _ _ this, of 13 1 "0x9000" "0xa000"] show ?thesis
    by (auto simp: apart_def)
qed

text \<open>C23: the bound is tested on \<open>pos + size\<close> as a 64-bit sum. When that sum wraps to a small
  number, a write far outside the file is accepted: it stores the whole of the buffer, which is beside its
  destination, from \<open>data + pos\<close> on, and all bytes up to where the offset wraps are not in the file.\<close>

theorem tmpfsWrite_wraps:
  assumes "file_rep (mem k) n t d" and "8192 \<le> unat pos" and "2 ^ 64 \<le> unat pos + unat sz"
    and "unat (pos + sz) < 8192" and "buf \<noteq> 0" and "d + pos \<noteq> 0"
    and "apart (d + pos) (unat sz) buf (unat sz)"
  shows "\<exists>m'. tmpfsWrite n pos buf sz k = Some (Inr (sz, k\<lparr>mem := m'\<rparr>))
    \<and> (\<forall>i < unat sz. m' (d + pos + of_nat i) = mem k (buf + of_nat i))
    \<and> same_outside (rng (d + pos) (unat sz)) (mem k) m'
    \<and> (\<forall>i < 2 ^ 64 - unat pos. d + pos + of_nat i \<notin> rng d 8192) \<and> 0 < 2 ^ 64 - unat pos \<and> 2 ^ 64 - unat pos \<le> unat sz"
proof -
  have s0: "sz \<noteq> 0" using assms(3) unat_less_max [of pos] by auto
  from copy_bytes [OF assms(6,5) s0 assms(7)] obtain m' where m': "memcpy (d + pos) buf sz (mem k) = Inr m'"
    "same_outside (rng (d + pos) (unat sz)) (mem k) m'"
    "\<forall>i < unat sz. m' (d + pos + of_nat i) = mem k (buf + of_nat i)" by blast
  have "d + pos + of_nat i \<notin> rng d 8192" if i: "i < 2 ^ 64 - unat pos" for i
  proof -
    have "unat (of_nat i :: u64) = i" using i by (intro unat_of_nat64) simp
    then have "unat (pos + of_nat i) = unat pos + i" using i by (subst unat_add_no_wrap) simp_all
    moreover have "d + pos + of_nat i - d = pos + of_nat i" by simp
    ultimately show ?thesis using assms(2) by (simp add: in_rng)
  qed
  moreover have "\<not> 8192 \<le> pos + sz" using assms(4) by (simp add: word_le_nat_alt)
  moreover have "tmpfsWrite n pos buf sz k = Some (Inr (sz, k\<lparr>mem := m'\<rparr>))"
    using calculation(2) m'(1) by (simp add: tmpfsWrite_def tmpfsReadWrite_file [OF assms(1)] onMem_def)
  moreover have "0 < 2 ^ 64 - unat pos" "2 ^ 64 - unat pos \<le> unat sz"
    using assms(3) unat_less_max [of pos] by linarith+
  ultimately show ?thesis using m'(2,3) by (intro exI [of _ m']) blast
qed

theorem tmpfsWrite_wraps_witness:
  "\<exists>m'. tmpfsWrite 0x1000 0xfffffffffffffff0 0x9000 20 demoFs = Some (Inr (20, demoFs\<lparr>mem := m'\<rparr>))
    \<and> (\<forall>i < 20. m' (0x3ff0 + of_nat i) = mem demoFs (0x9000 + of_nat i))"
proof -
  have f: "file_rep (mem demoFs) 0x1000 0x2000 0x4000" using demo_file by (simp add: demoFs_def)
  have e: "(0x4000 :: u64) + 0xfffffffffffffff0 = 0x3ff0" by simp
  from tmpfsWrite_wraps [OF f, of "0xfffffffffffffff0" 20 "0x9000", unfolded e]
  obtain m' where "tmpfsWrite 0x1000 0xfffffffffffffff0 0x9000 20 demoFs = Some (Inr (20, demoFs\<lparr>mem := m'\<rparr>))"
    "\<forall>i < 20. m' (0x3ff0 + of_nat i) = mem demoFs (0x9000 + of_nat i)" by (auto simp: apart_def)
  then show ?thesis by (intro exI conjI)
qed

text \<open>looking a name up in a directory gives the node of the newest entry with that name, and
  0 when there is none; it always returns.\<close>

theorem tmpfsLookup_correct:
  assumes "n \<noteq> 0" and "fsData (mem k) n = t" and "t \<noteq> 0" and "dir_rep (mem k) t es"
    and "name \<noteq> 0" and "cstr (mem k) name s"
  shows "tmpfsLookup n name k = Some (Inr (case find (\<lambda>e. snd e = s) es of
      None \<Rightarrow> 0 | Some e \<Rightarrow> tmpNode (mem k) (fst e)))"
  using tmpfsLookup_dir [OF assms] by (simp add: dir_find_def)

text \<open>A directory at \<open>0x1000\<close> with one entry \<open>"ab"\<close>, the node at \<open>0x5000\<close>; the name also stands at
  \<open>0x6000\<close>.\<close>

definition demoDir :: mem where
  "demoDir = (store64 (store64 (store64 (store64 (store64 (store64 (store64 (\<lambda>_. 0)
     0x1010 0x2000) 0x2040 0x3030) 0x2048 0x3030) 0x3030 0x2040) 0x3038 0x2040) 0x3028 0x5000) 0x5000 2)
     (0x3000 := 0x61, 0x3001 := 0x62, 0x6000 := 0x61, 0x6001 := 0x62)"

lemma demo_dir: "dir_rep demoDir 0x2000 [(0x3000, [0x61, 0x62])]"
  by (simp add: dir_rep_def llist_def llNext_def llPrev_def children_def childHead_def demoDir_def
      mem_simps apart_def)

lemma demo_dir_fields: "fsData demoDir 0x1000 = 0x2000" "tmpNode demoDir 0x3000 = 0x5000"
  "cstr demoDir 0x6000 [0x61, 0x62]"
  by (simp_all add: fsData_def tmpNode_def demoDir_def mem_simps)

theorem tmpfsLookup_correct_witness:
  "tmpfsLookup 0x1000 0x6000 (demoFs\<lparr>mem := demoDir\<rparr>) = Some (Inr 0x5000)"
  using tmpfsLookup_correct [of "0x1000" "demoFs\<lparr>mem := demoDir\<rparr>" "0x2000" "[(0x3000, [0x61, 0x62])]" "0x6000"
    "[0x61, 0x62]"] demo_dir demo_dir_fields by simp

text \<open>\<open>tmpfsReaddir\<close> reports the entry at position \<open>pos\<close> (name, type and record length) and
  writes only the record; past the last entry it reports the end and changes nothing.\<close>

theorem tmpfsReaddir_correct:
  assumes "n \<noteq> 0" and "fsData (mem k) n = t" and "t \<noteq> 0" and "dir_rep (mem k) t es"
    and "buf \<noteq> 0" and "unat buf + 2000 < 2 ^ 64"
    and "\<forall>e \<in> set es. length (snd e) \<le> 32 \<and> tmpNode (mem k) (fst e) \<noteq> 0
      \<and> rng buf 48 \<inter> (rng (fst e) 88 \<union> rng (tmpNode (mem k) (fst e)) 48) = {}"
  shows "if unat pos < length es
    then \<exists>m'. tmpfsReaddir n pos buf k = Some (Inr (True, k\<lparr>mem := m'\<rparr>))
      \<and> dirent_rep m' buf (snd (es ! unat pos)) (nodeType (mem k) (tmpNode (mem k) (fst (es ! unat pos))))
      \<and> same_outside (rng buf 48) (mem k) m'
    else tmpfsReaddir n pos buf k = Some (Inr (False, k))"
proof -
  let ?cs = "map (\<lambda>e. childHead (fst e)) es"
  have ll: "LL_TRAVERSE (readdirBody buf (mem k)) (mem k) (children t) pos =
      traverse (readdirBody buf (mem k)) ?cs pos"
    using assms(4) unfolding dir_rep_def by (intro LL_TRAVERSE_list) simp
  show ?thesis
  proof (cases "unat pos < length es")
    case True
    define e where "e = es ! unat pos"
    have e: "e \<in> set es" using True by (simp add: e_def)
    then have c: "fst e \<noteq> 0" "cstr (mem k) (fst e) (snd e)" using assms(4) by (simp_all add: dir_rep_def)
    have x: "length (snd e) \<le> 32" "tmpNode (mem k) (fst e) \<noteq> 0"
      "rng buf 48 \<inter> (rng (fst e) 88 \<union> rng (tmpNode (mem k) (fst e)) 48) = {}"
      using assms(7) e by blast+
    have sub: "rng buf (16 + length (snd e)) \<subseteq> rng buf 48"
      "rng (fst e) (Suc (length (snd e))) \<subseteq> rng (fst e) 88" using x(1) by (intro rng_mono; simp)+
    have "rng buf (16 + length (snd e)) \<inter> (rng (fst e) 88 \<union> rng (fst e) (Suc (length (snd e)))
        \<union> rng (tmpNode (mem k) (fst e)) 48) = {}" using sub x(3) by blast
    with readdir_entry [OF assms(5) _ _ c refl x(2)] assms(6) x(1) obtain m' where m':
      "readdirBody buf (mem k) (childHead (fst e)) 0 = Some (Inr (Inl m'))"
      "dirent_rep m' buf (snd e) (nodeType (mem k) (tmpNode (mem k) (fst e)))"
      "same_outside (rng buf (16 + length (snd e))) (mem k) m'" by auto
    have "traverse (readdirBody buf (mem k)) ?cs pos = Some (Inr (Inl m'))"
      using m'(1) by (intro readdir_traverse [OF True]) (simp add: e_def)
    then have "tmpfsReaddir n pos buf k = Some (Inr (True, k\<lparr>mem := m'\<rparr>))"
      using ll assms(1-3) by (simp add: tmpfsReaddir_def)
    moreover have "same_outside (rng buf 48) (mem k) m'" by (rule same_outside_mono [OF m'(3) sub(1)])
    ultimately show ?thesis using True m'(2) unfolding e_def [symmetric] by (simp only: if_True) blast
  next
    case False
    then obtain s where "traverse (readdirBody buf (mem k)) ?cs pos = Some (Inr (Inr s))"
      using readdir_past [of es pos] by auto
    then show ?thesis using ll assms(1-3) False by (simp add: tmpfsReaddir_def)
  qed
qed

theorem tmpfsReaddir_correct_witness:
  "\<exists>m'. tmpfsReaddir 0x1000 0 0x8000 (demoFs\<lparr>mem := demoDir\<rparr>) = Some (Inr (True, demoFs\<lparr>mem := m'\<rparr>))
    \<and> cstr m' 0x800f [0x61, 0x62]"
proof -
  let ?k = "demoFs\<lparr>mem := demoDir\<rparr>"
  have "rng 0x8000 48 \<inter> rng 0x3000 88 = {}" "rng 0x8000 48 \<inter> rng 0x5000 48 = {}"
    by (rule apart_disjoint, simp add: apart_def)+
  then have "\<forall>e \<in> set [(0x3000, [0x61, 0x62])]. length (snd e) \<le> 32 \<and> tmpNode (mem ?k) (fst e) \<noteq> 0
      \<and> rng 0x8000 48 \<inter> (rng (fst e) 88 \<union> rng (tmpNode (mem ?k) (fst e)) 48) = {}"
    using demo_dir_fields by (simp add: Int_Un_distrib)
  from tmpfsReaddir_correct [OF _ _ _ _ _ _ this, of "0x1000" "0x2000" 0] demo_dir demo_dir_fields
  show ?thesis by (auto simp: dirent_rep_def)
qed

end
