(* ===== verification/Vfs.thy ===== *)
theory Vfs
  imports Tmpfs
begin

section \<open>The virtual file system (filesystem/vfs.c, filesystem/vfsops.c)\<close>

text \<open>
  Path lookup across mounts, mounting, and the operations on paths, which call the handler of
  the node they find. \<open>vfsLookup\<close> collects a component in its buffer \<open>sp\<close>, an array of 64 bytes on
  the stack; its index \<open>i\<close> stays between 0 and 63 and is a natural number here. The loop is a
  partial function: at a component that does not fit the buffer it runs for ever.
\<close>

subsection \<open>Operations\<close>

definition findMntBody :: "u64 \<Rightarrow> mem \<Rightarrow> u64 \<Rightarrow> unit \<Rightarrow> (u64 + unit) ores" where
  "findMntBody n m current _ =
     (let mnt = LIST_ENTRY current 184 in
      if mountpoint m mnt = n then Some (Inr (Inl mnt)) else Some (Inr (Inr ())))"

definition vfsFindMnt :: "u64 \<Rightarrow> 'a fs_state_scheme \<Rightarrow> u64 ores" where
  "vfsFindMnt n k =
     (if n = 0 then Some (Inr 0)
      else bndO (LL_TRAVERSE (findMntBody n (mem k)) (mem k) (mnts k) ()) (\<lambda>r.
        case r of Inl mnt \<Rightarrow> Some (Inr mnt) | Inr _ \<Rightarrow> Some (Inr 0)))"

definition vfsLook :: "u64 \<Rightarrow> u64 \<Rightarrow> 'a fs_state_scheme \<Rightarrow> u64 ores" where
  "vfsLook current name k =
     (if current = 0 then Some (Inr 0)
      else if nodeType (mem k) current = TYPE_FILE then Some (Inr 0)
      else if nodeOps (mem k) current = 0 \<or> opLookup (mem k) (nodeOps (mem k) current) = 0 then Some (Inr 0)
      else bndO (callFn (opLookup (mem k) (nodeOps (mem k) current)) (code k tmpfsLookupFn)
                  (tmpfsLookup current name k)) (\<lambda>currNode.
           bndO (vfsFindMnt currNode k) (\<lambda>mnt.
             Some (Inr (if mnt \<noteq> 0 then mntRoot (mem k) mnt else currNode)))))"

partial_function (option) vfsLookupLoop ::
    "u64 \<Rightarrow> nat \<Rightarrow> u64 \<Rightarrow> 'a fs_state_scheme \<Rightarrow> ((u64 + u64) \<times> 'a fs_state_scheme) ores" where
  "vfsLookupLoop p i current k =
     (if mem k p = 0 then Some (Inr (Inr current, k))
      else if mem k p = 0x2F
      then if i > 0
           then bndO (vfsLook current (spBuf k) k) (\<lambda>current.
                  if current = 0 \<or> nodeType (mem k) current = TYPE_FILE then Some (Inr (Inl 0, k))
                  else vfsLookupLoop (p + 1) 0 current (k\<lparr>mem := (mem k)(spBuf k := 0)\<rparr>))
           else vfsLookupLoop (p + 1) 0 current (k\<lparr>mem := (mem k)(spBuf k := 0)\<rparr>)
      else if i \<ge> 63 then vfsLookupLoop p i current k
      else vfsLookupLoop (p + 1) (i + 1) current
             (k\<lparr>mem := (mem k)(spBuf k + of_nat i := mem k p, spBuf k + of_nat (i + 1) := 0)\<rparr>))"

definition vfsLookup :: "u64 \<Rightarrow> 'a fs_state_scheme \<Rightarrow> (u64 \<times> 'a fs_state_scheme) ores" where
  "vfsLookup path k =
     (if path = 0 then Some (Inr (0, k))
      else bndO (vfsFindMnt (root k) k) (\<lambda>mnt.
           let current = (if mnt \<noteq> 0 then mntRoot (mem k) mnt else root k) in
           bndO (vfsLookupLoop path 0 current (k\<lparr>mem := (mem k)(spBuf k := 0)\<rparr>)) (\<lambda>(r, k).
             case r of
               Inl n \<Rightarrow> Some (Inr (n, k))
             | Inr current \<Rightarrow>
                 if mem k (spBuf k) \<noteq> 0
                 then bndO (vfsLook current (spBuf k) k) (\<lambda>n. Some (Inr (n, k)))
                 else Some (Inr (current, k)))))"

definition vfsMount :: "u64 \<Rightarrow> u64 \<Rightarrow> u64 \<Rightarrow> 'a fs_state_scheme \<Rightarrow> (bool \<times> 'a fs_state_scheme) ores" where
  "vfsMount path dev type k =
     bndO (vfsLookup path k) (\<lambda>(lookedUp, k).
       if lookedUp = 0 then Some (Inr (False, k))
       else
         bndO (slabAlloc (mntCache k) k) (\<lambda>(mnt, k).
         bndO (onMem (strncpy (mntType mnt) type 32) k) (\<lambda>k.
         bndO (onMem (strncpy (mntDev mnt) dev 64) k) (\<lambda>k.
         bndO (onMem (strncpy (mntPath mnt) path 64) k) (\<lambda>k.
         bndO (put64 mnt 168 lookedUp k) (\<lambda>k.
         bndO (put64 mnt 176 0 k) (\<lambda>k.
         bndO (onMem (llInitHead (mntHead mnt)) k) (\<lambda>k.
         bndO (onMem (llInitHead (mntNodes mnt)) k) (\<lambda>k.
         bndO (strcmp type (lit k ''tmp'') (mem k)) (\<lambda>c.
         bndO (if c = 0 then tmpfsMount mnt k else Some (Inr k)) (\<lambda>k.
         bndO (onMem (llInsertFront (mnts k) (mntHead mnt)) k) (\<lambda>k.
           Some (Inr (True, k))))))))))))))"

definition vfsDoMounts :: "'a fs_state_scheme \<Rightarrow> 'a fs_state_scheme ores" where
  "vfsDoMounts k =
     bndO (vfsMount (lit k ''/'') (lit k '''') (lit k ''tmp'') k) (\<lambda>(_, k).
     bndO (vfsMount (lit k ''/dev'') (lit k '''') (lit k ''dev'') k) (\<lambda>(_, k).
       Some (Inr k)))"

definition vfsInit :: "'a fs_state_scheme \<Rightarrow> 'a fs_state_scheme ores" where
  "vfsInit k =
     bndO (Some (slabInitCache (nodeCache k) (lit k ''vfs nodes'') sizeofFsNode k)) (\<lambda>k.
     bndO (Some (slabInitCache (mntCache k) (lit k ''vfs mounts'') sizeofFsMnt k)) (\<lambda>k.
     bndO (onMem (llInitHead (mnts k)) k) (\<lambda>k.
     bndO (slabAlloc (nodeCache k) k) (\<lambda>(r, k).
     bndO (tmpfsInit (k\<lparr>root := r\<rparr>)) (\<lambda>k.
       vfsDoMounts k)))))"

text \<open>The functions of \<open>vfsops.c\<close>. Each tests the entry of the handler it is about to call.\<close>

definition vfsWrite ::
    "u64 \<Rightarrow> u64 \<Rightarrow> u64 \<Rightarrow> u64 \<Rightarrow> 'a fs_state_scheme \<Rightarrow> (u64 \<times> 'a fs_state_scheme) ores" where
  "vfsWrite path pos buf sz k =
     bndO (vfsLookup path k) (\<lambda>(node, k).
       if node = 0 then Some (Inr (0, k))
       else bndO (Some (deref (nodeOps (mem k) node) (Inr (opWrite (mem k) (nodeOps (mem k) node))))) (\<lambda>f.
         if f = 0 then Some (Inr (0, k))
         else callFn f (code k tmpfsWriteFn) (tmpfsWrite node pos buf sz k)))"

definition vfsRead ::
    "u64 \<Rightarrow> u64 \<Rightarrow> u64 \<Rightarrow> u64 \<Rightarrow> 'a fs_state_scheme \<Rightarrow> (u64 \<times> 'a fs_state_scheme) ores" where
  "vfsRead path pos buf sz k =
     bndO (vfsLookup path k) (\<lambda>(node, k).
       if node = 0 then Some (Inr (0, k))
       else bndO (Some (deref (nodeOps (mem k) node) (Inr (opRead (mem k) (nodeOps (mem k) node))))) (\<lambda>f.
         if f = 0 then Some (Inr (0, k))
         else callFn f (code k tmpfsReadFn) (tmpfsRead node pos buf sz k)))"

definition vfsReadDir ::
    "u64 \<Rightarrow> u64 \<Rightarrow> u64 \<Rightarrow> 'a fs_state_scheme \<Rightarrow> (bool \<times> 'a fs_state_scheme) ores" where
  "vfsReadDir path pos buf k =
     bndO (vfsLookup path k) (\<lambda>(node, k).
       if node = 0 then Some (Inr (False, k))
       else bndO (Some (deref (nodeOps (mem k) node) (Inr (opReaddir (mem k) (nodeOps (mem k) node))))) (\<lambda>f.
         if f = 0 then Some (Inr (False, k))
         else callFn f (code k tmpfsReaddirFn) (tmpfsReaddir node pos buf k)))"

definition vfsCreate :: "u64 \<Rightarrow> u64 \<Rightarrow> 'a fs_state_scheme \<Rightarrow> (u32 \<times> 'a fs_state_scheme) ores" where
  "vfsCreate path name k =
     bndO (vfsLookup path k) (\<lambda>(node, k).
       if node = 0 then Some (Inr (0, k))
       else bndO (Some (deref (nodeOps (mem k) node) (Inr (opCreate (mem k) (nodeOps (mem k) node))))) (\<lambda>f.
         if f = 0 then Some (Inr (0, k))
         else callFn f (code k tmpfsCreateFn) (tmpfsCreate node name k)))"

subsection \<open>The tree of nodes and mounts\<close>

text \<open>
  \<open>fs_rep k V kids ms\<close>: the nodes \<open>V\<close> of the file systems, of which \<open>n\<close> has the entries \<open>kids n\<close>
  when it is a directory, and the mounts \<open>ms\<close>, newest first. A mount without a root (its file
  system type is unknown to the kernel) has root 0.
\<close>

definition node_ok :: "'a fs_state_scheme \<Rightarrow> u64 set \<Rightarrow> (u64 \<Rightarrow> (u64 \<times> u8 list) list) \<Rightarrow> u64 \<Rightarrow> bool" where
  "node_ok k V kids n \<longleftrightarrow> n \<noteq> 0 \<and> (nodeType (mem k) n \<noteq> TYPE_FILE \<longrightarrow>
     nodeOps (mem k) n \<noteq> 0 \<and> opLookup (mem k) (nodeOps (mem k) n) = code k tmpfsLookupFn
     \<and> fsData (mem k) n \<noteq> 0 \<and> dir_rep (mem k) (fsData (mem k) n) (kids n)
     \<and> (\<forall>e \<in> set (kids n). length (snd e) \<le> 32 \<and> tmpNode (mem k) (fst e) \<in> insert 0 V))"

definition fs_rep :: "'a fs_state_scheme \<Rightarrow> u64 set \<Rightarrow> (u64 \<Rightarrow> (u64 \<times> u8 list) list) \<Rightarrow> u64 list \<Rightarrow> bool" where
  "fs_rep k V kids ms \<longleftrightarrow> code k tmpfsLookupFn \<noteq> 0 \<and> (\<forall>n \<in> V. node_ok k V kids n)
     \<and> llist (mem k) (mnts k) (map mntHead ms)
     \<and> (\<forall>mnt \<in> set ms. mnt \<noteq> 0 \<and> mntRoot (mem k) mnt \<in> insert 0 V)"

text \<open>The bytes that the tree is made of.\<close>

definition node_foot :: "mem \<Rightarrow> (u64 \<Rightarrow> (u64 \<times> u8 list) list) \<Rightarrow> u64 \<Rightarrow> u64 set" where
  "node_foot m kids n = rng n 48 \<union> rng (nodeOps m n) 56 \<union> rng (fsData m n) 88
     \<union> (\<Union>e \<in> set (kids n). rng (fst e) 88)"

definition fs_foot :: "'a fs_state_scheme \<Rightarrow> u64 set \<Rightarrow> (u64 \<Rightarrow> (u64 \<times> u8 list) list) \<Rightarrow> u64 list \<Rightarrow> u64 set" where
  "fs_foot k V kids ms = (\<Union>n \<in> V. node_foot (mem k) kids n) \<union> node_rng (mnts k)
     \<union> (\<Union>mnt \<in> set ms. rng mnt 216)"

text \<open>
  What looking up means on the tree: \<open>fs_through\<close> goes to the root of the newest mount on a node,
  \<open>fs_step\<close> takes one component.
\<close>

definition fs_through :: "mem \<Rightarrow> u64 list \<Rightarrow> u64 \<Rightarrow> u64" where
  "fs_through m ms n = (case find (\<lambda>mnt. mountpoint m mnt = n) ms of None \<Rightarrow> n | Some mnt \<Rightarrow> mntRoot m mnt)"

definition fs_step :: "mem \<Rightarrow> (u64 \<Rightarrow> (u64 \<times> u8 list) list) \<Rightarrow> u64 list \<Rightarrow> u64 \<Rightarrow> u8 list \<Rightarrow> u64" where
  "fs_step m kids ms n s =
     (if n = 0 \<or> nodeType m n = TYPE_FILE then 0
      else let c = dir_find m (kids n) s in if c = 0 then 0 else fs_through m ms c)"

lemma find_mnt_traverse:
  assumes "0 \<notin> set ms"
  shows "traverse (findMntBody n m) (map mntHead ms) () =
    Some (Inr (case find (\<lambda>mnt. mountpoint m mnt = n) ms of None \<Rightarrow> Inr () | Some mnt \<Rightarrow> Inl mnt))"
proof (induction ms)
  case (Cons mnt ms)
  have "LIST_ENTRY (mntHead mnt) 184 = mnt" by (simp add: LIST_ENTRY_def mntHead_def)
  with Cons show ?case by (simp add: findMntBody_def)
qed simp

lemma vfsFindMnt_find:
  assumes "llist (mem k) (mnts k) (map mntHead ms)" and "0 \<notin> set ms" and "n \<noteq> 0"
  shows "vfsFindMnt n k = Some (Inr (case find (\<lambda>mnt. mountpoint (mem k) mnt = n) ms of None \<Rightarrow> 0 | Some mnt \<Rightarrow> mnt))"
  using assms(3) unfolding vfsFindMnt_def LL_TRAVERSE_list [OF assms(1)] find_mnt_traverse [OF assms(2)]
  by (simp split: option.splits)

lemma fs_repD:
  assumes "fs_rep k V kids ms"
  shows "code k tmpfsLookupFn \<noteq> 0" and "n \<in> V \<Longrightarrow> node_ok k V kids n"
    and "llist (mem k) (mnts k) (map mntHead ms)" and "0 \<notin> set ms"
    and "mnt \<in> set ms \<Longrightarrow> mntRoot (mem k) mnt \<in> insert 0 V"
  using assms unfolding fs_rep_def by blast+

lemma fs_through_in: "fs_rep k V kids ms \<Longrightarrow> n \<in> insert 0 V \<Longrightarrow> fs_through (mem k) ms n \<in> insert 0 V"
proof (cases "find (\<lambda>mnt. mountpoint (mem k) mnt = n) ms")
  case (Some mnt)
  assume "fs_rep k V kids ms"
  moreover have "mnt \<in> set ms" using Some by (auto simp: find_Some_iff)
  ultimately show ?thesis using fs_repD(5) Some by (simp add: fs_through_def)
qed (simp add: fs_through_def)

lemma through_mount:
  assumes "fs_rep k V kids ms" and "n \<noteq> 0"
  shows "\<exists>mnt. vfsFindMnt n k = Some (Inr mnt)
    \<and> (if mnt \<noteq> 0 then mntRoot (mem k) mnt else n) = fs_through (mem k) ms n"
proof -
  have "mnt \<noteq> 0" if "find (\<lambda>mnt. mountpoint (mem k) mnt = n) ms = Some mnt" for mnt
    using that fs_repD(4) [OF assms(1)] find_Some_iff [of _ ms] by (metis nth_mem)
  then show ?thesis
    using vfsFindMnt_find [OF fs_repD(3,4) [OF assms(1)] assms(2)]
    by (cases "find (\<lambda>mnt. mountpoint (mem k) mnt = n) ms") (auto simp: fs_through_def)
qed

lemma dir_find_in:
  assumes "node_ok k V kids n" and "nodeType (mem k) n \<noteq> TYPE_FILE"
  shows "dir_find (mem k) (kids n) s \<in> insert 0 V"
proof (cases "find (\<lambda>e. snd e = s) (kids n)")
  case (Some e)
  then have "e \<in> set (kids n)" by (auto simp: find_Some_iff)
  then show ?thesis using assms Some by (simp add: node_ok_def dir_find_def)
qed (simp add: dir_find_def)

text \<open>One component.\<close>

lemma vfsLook_step:
  assumes r: "fs_rep k V kids ms" and n: "n \<in> insert 0 V" and name: "name \<noteq> 0" "cstr (mem k) name s"
  shows "vfsLook n name k = Some (Inr (fs_step (mem k) kids ms n s))"
    and "fs_step (mem k) kids ms n s \<in> insert 0 V"
proof -
  have "vfsLook n name k = Some (Inr (fs_step (mem k) kids ms n s)) \<and> fs_step (mem k) kids ms n s \<in> insert 0 V"
  proof (cases "n = 0 \<or> nodeType (mem k) n = TYPE_FILE")
    case True
    then show ?thesis by (auto simp: vfsLook_def fs_step_def)
  next
    case False
    then have ok: "node_ok k V kids n" using n fs_repD(2) [OF r] by blast
    have dir: "nodeOps (mem k) n \<noteq> 0" "opLookup (mem k) (nodeOps (mem k) n) = code k tmpfsLookupFn"
      "fsData (mem k) n \<noteq> 0" "dir_rep (mem k) (fsData (mem k) n) (kids n)"
      using ok False by (simp_all add: node_ok_def)
    let ?c = "dir_find (mem k) (kids n) s"
    have lk: "tmpfsLookup n name k = Some (Inr ?c)"
      using False by (intro tmpfsLookup_dir [OF _ refl dir(3,4) name]) simp
    have c: "?c \<in> insert 0 V" using False by (intro dir_find_in [OF ok]) simp
    have look: "vfsLook n name k = bndO (vfsFindMnt ?c k) (\<lambda>mnt.
        Some (Inr (if mnt \<noteq> 0 then mntRoot (mem k) mnt else ?c)))"
      using False dir(1,2) fs_repD(1) [OF r] lk by (simp add: vfsLook_def callFn_def)
    show ?thesis
    proof (cases "?c = 0")
      case True
      then show ?thesis using look False by (simp add: vfsFindMnt_def fs_step_def)
    next
      case c0: False
      with through_mount [OF r c0] look False fs_through_in [OF r c] show ?thesis
        by (auto simp: fs_step_def)
    qed
  qed
  then show "vfsLook n name k = Some (Inr (fs_step (mem k) kids ms n s))"
    "fs_step (mem k) kids ms n s \<in> insert 0 V" by simp_all
qed

subsection \<open>Writes beside the tree\<close>

lemma dir_rep_frame:
  assumes d: "dir_rep m t es" and out: "same_outside A m m'" and len: "\<forall>e \<in> set es. length (snd e) \<le> 32"
    and off: "(rng t 88 \<union> (\<Union>e \<in> set es. rng (fst e) 88)) \<inter> A = {}"
  shows "dir_rep m' t es"
proof -
  have sub: "node_rng (children t) \<subseteq> rng t 88" "\<And>c. node_rng (childHead c) \<subseteq> rng c 88"
    unfolding children_def childHead_def by (rule rng_sub; simp)+
  have "llist m' (children t) (map (\<lambda>e. childHead (fst e)) es)"
  proof (rule llist_frame [OF _ out])
    show "llist m (children t) (map (\<lambda>e. childHead (fst e)) es)" using d unfolding dir_rep_def by (rule conjunct1)
    fix x assume "x \<in> set (children t # map (\<lambda>e. childHead (fst e)) es)"
    then show "node_rng x \<inter> A = {}" using sub off by fastforce
  qed
  moreover have "cstr m' (fst e) (snd e)" if e: "e \<in> set es" for e
  proof (rule cstr_cong)
    show "cstr m (fst e) (snd e)" using d e by (simp add: dir_rep_def)
    fix x assume "x \<in> rng (fst e) (Suc (length (snd e)))"
    moreover have "rng (fst e) (Suc (length (snd e))) \<subseteq> rng (fst e) 88"
      using len e by (intro rng_mono) fastforce
    ultimately show "m' x = m x" using off e same_outsideD [OF out] by fastforce
  qed
  ultimately show ?thesis using d by (simp add: dir_rep_def)
qed

lemma node_ok_frame:
  assumes ok: "node_ok k V kids n" and out: "same_outside A (mem k) m'"
    and off: "node_foot (mem k) kids n \<inter> A = {}"
  shows "node_ok (k\<lparr>mem := m'\<rparr>) V kids n" and "nodeType m' n = nodeType (mem k) n"
    and "nodeType (mem k) n \<noteq> TYPE_FILE \<Longrightarrow> dir_find m' (kids n) s = dir_find (mem k) (kids n) s"
proof -
  have "rng n 4 \<subseteq> rng n 48" by (rule rng_mono) simp
  moreover have "rng (n + 16) 8 \<subseteq> rng n 48" "rng (n + 24) 8 \<subseteq> rng n 48"
    "rng (nodeOps (mem k) n + 48) 8 \<subseteq> rng (nodeOps (mem k) n) 56" by (rule rng_sub; simp)+
  ultimately have "rng n 4 \<inter> A = {}" "rng (n + 16) 8 \<inter> A = {}" "rng (n + 24) 8 \<inter> A = {}"
    "rng (nodeOps (mem k) n + 48) 8 \<inter> A = {}" using off unfolding node_foot_def by blast+
  from this [THEN load_same_outside [OF out]]
  show ty: "nodeType m' n = nodeType (mem k) n"
    and "node_ok (k\<lparr>mem := m'\<rparr>) V kids n"
    and "nodeType (mem k) n \<noteq> TYPE_FILE \<Longrightarrow> dir_find m' (kids n) s = dir_find (mem k) (kids n) s"
  proof -
    assume l: "load 4 m' n = load 4 (mem k) n" "load64 m' (n + 16) = load64 (mem k) (n + 16)"
      "load64 m' (n + 24) = load64 (mem k) (n + 24)"
      "load64 m' (nodeOps (mem k) n + 48) = load64 (mem k) (nodeOps (mem k) n + 48)"
    then show ty: "nodeType m' n = nodeType (mem k) n" by (simp add: nodeType_def load32_def)
    have tn: "tmpNode m' (fst e) = tmpNode (mem k) (fst e)" if "e \<in> set (kids n)" for e
    proof -
      have "rng (fst e + 40) 8 \<subseteq> rng (fst e) 88" by (rule rng_sub) simp
      then have "rng (fst e + 40) 8 \<inter> A = {}" using off that unfolding node_foot_def by blast
      from load_same_outside [OF out this] show ?thesis by (simp add: tmpNode_def)
    qed
    show "dir_find m' (kids n) s = dir_find (mem k) (kids n) s"
    proof (cases "find (\<lambda>e. snd e = s) (kids n)")
      case (Some e)
      then have "e \<in> set (kids n)" by (auto simp: find_Some_iff)
      with Some show ?thesis by (simp add: dir_find_def tn)
    qed (simp add: dir_find_def)
    have "dir_rep m' (fsData (mem k) n) (kids n)" if nf: "nodeType (mem k) n \<noteq> TYPE_FILE"
    proof (rule dir_rep_frame [OF _ out])
      show "dir_rep (mem k) (fsData (mem k) n) (kids n)" "\<forall>e \<in> set (kids n). length (snd e) \<le> 32"
        using ok nf by (simp_all add: node_ok_def)
      show "(rng (fsData (mem k) n) 88 \<union> (\<Union>e \<in> set (kids n). rng (fst e) 88)) \<inter> A = {}"
        using off unfolding node_foot_def by blast
    qed
    then show "node_ok (k\<lparr>mem := m'\<rparr>) V kids n"
      using ok l ty tn by (simp add: node_ok_def nodeOps_def fsData_def opLookup_def)
  qed
qed

lemma fs_rep_frame:
  assumes r: "fs_rep k V kids ms" and out: "same_outside A (mem k) m'"
    and off: "fs_foot k V kids ms \<inter> A = {}"
  shows "fs_rep (k\<lparr>mem := m'\<rparr>) V kids ms"
    and "\<And>n. fs_through m' ms n = fs_through (mem k) ms n"
    and "\<And>n s. n \<in> insert 0 V \<Longrightarrow> fs_step m' kids ms n s = fs_step (mem k) kids ms n s"
    and "\<And>n. n \<in> V \<Longrightarrow> nodeType m' n = nodeType (mem k) n"
proof -
  have nf: "node_foot (mem k) kids n \<inter> A = {}" if "n \<in> V" for n using off that unfolding fs_foot_def by blast
  have mf: "rng mnt 216 \<inter> A = {}" if "mnt \<in> set ms" for mnt using off that unfolding fs_foot_def by blast
  have mnt: "mountpoint m' mnt = mountpoint (mem k) mnt" "mntRoot m' mnt = mntRoot (mem k) mnt"
    if "mnt \<in> set ms" for mnt
  proof -
    have "rng (mnt + 168) 8 \<subseteq> rng mnt 216" "rng (mnt + 176) 8 \<subseteq> rng mnt 216" by (rule rng_sub; simp)+
    then have "rng (mnt + 168) 8 \<inter> A = {}" "rng (mnt + 176) 8 \<inter> A = {}" using mf [OF that] by blast+
    from this [THEN load_same_outside [OF out]]
    show "mountpoint m' mnt = mountpoint (mem k) mnt" "mntRoot m' mnt = mntRoot (mem k) mnt"
      by (simp_all add: mountpoint_def mntRoot_def)
  qed
  have nodes: "node_ok k V kids n" if "n \<in> V" for n by (rule fs_repD(2) [OF r that])
  have "llist m' (mnts k) (map mntHead ms)"
  proof (rule llist_frame [OF fs_repD(3) [OF r] out])
    fix x assume "x \<in> set (mnts k # map mntHead ms)"
    then consider "x = mnts k" | mnt where "mnt \<in> set ms" "x = mntHead mnt" by auto
    then show "node_rng x \<inter> A = {}"
    proof cases
      case 1
      then show ?thesis using off unfolding fs_foot_def by blast
    next
      case (2 mnt)
      have "node_rng (mntHead mnt) \<subseteq> rng mnt 216" unfolding mntHead_def by (rule rng_sub) simp
      then show ?thesis using mf [OF 2(1)] 2(2) by blast
    qed
  qed
  moreover have "\<forall>n \<in> V. node_ok (k\<lparr>mem := m'\<rparr>) V kids n"
    using node_ok_frame(1) [OF nodes out nf] by blast
  moreover have "mnt \<noteq> 0 \<and> mntRoot m' mnt \<in> insert 0 V" if "mnt \<in> set ms" for mnt
    using fs_repD(4,5) [OF r] mnt(2) [OF that] that by metis
  ultimately show "fs_rep (k\<lparr>mem := m'\<rparr>) V kids ms"
    using fs_repD(1) [OF r] unfolding fs_rep_def by simp
  have fnd: "find (\<lambda>mnt. mountpoint m' mnt = n) ms = find (\<lambda>mnt. mountpoint (mem k) mnt = n) ms" for n
    using mnt(1) by (intro find_cong) simp_all
  have fin: "mnt \<in> set ms" if "find (\<lambda>mnt. mountpoint (mem k) mnt = n) ms = Some mnt" for mnt n
    using that by (auto simp: find_Some_iff)
  show th: "fs_through m' ms n = fs_through (mem k) ms n" for n
    using fin [THEN mnt(2)] by (simp add: fs_through_def fnd split: option.splits)
  show ty: "nodeType m' n = nodeType (mem k) n" if "n \<in> V" for n
    by (rule node_ok_frame(2) [OF nodes [OF that] out nf [OF that]])
  show "fs_step m' kids ms n s = fs_step (mem k) kids ms n s" if "n \<in> insert 0 V" for n s
  proof (cases "n = 0 \<or> nodeType (mem k) n = TYPE_FILE")
    case False
    then have "n \<in> V" using that by simp
    then have "dir_find m' (kids n) s = dir_find (mem k) (kids n) s"
      using False by (intro node_ok_frame(3) [OF nodes out nf]) simp_all
    then show ?thesis using ty [OF \<open>n \<in> V\<close>] th by (simp add: fs_step_def Let_def)
  next
    case True
    then show ?thesis using ty that by (auto simp: fs_step_def)
  qed
qed

subsection \<open>Paths\<close>

text \<open>The pieces of a path between its slashes; some may be empty.\<close>

fun pieces :: "u8 list \<Rightarrow> u8 list list" where
  "pieces [] = [[]]"
| "pieces (c # s) = (if c = 0x2F then [] # pieces s else (c # hd (pieces s)) # tl (pieces s))"

text \<open>
  The walk along the pieces: empty ones are skipped, one that is followed by a slash has to be a
  directory, the last one may be a file.
\<close>

fun fs_walk :: "(u64 \<Rightarrow> u8 list \<Rightarrow> u64) \<Rightarrow> (u64 \<Rightarrow> bool) \<Rightarrow> u64 \<Rightarrow> u8 list list \<Rightarrow> u64" where
  "fs_walk step file n [] = n"
| "fs_walk step file n [s] = (if s = [] then n else step n s)"
| "fs_walk step file n (s # t # r) =
     (if s = [] then fs_walk step file n (t # r)
      else let n' = step n s in if n' = 0 \<or> file n' then 0 else fs_walk step file n' (t # r))"

lemma pieces_ne [simp]: "pieces s \<noteq> []"
  by (cases s) simp_all

lemma pieces_cons: "pieces s = hd (pieces s) # tl (pieces s)"
  by simp

text \<open>The pieces that remain when \<open>acc\<close> has been read of the first one.\<close>

abbreviation rest_pieces :: "u8 list \<Rightarrow> u8 list \<Rightarrow> u8 list list" where
  "rest_pieces acc s \<equiv> (acc @ hd (pieces s)) # tl (pieces s)"

lemma rest_slash: "rest_pieces acc (0x2F # s) = acc # rest_pieces [] s"
  by simp

lemma rest_char: "c \<noteq> 0x2F \<Longrightarrow> rest_pieces acc (c # s) = rest_pieces (acc @ [c]) s"
  by simp

text \<open>What \<open>vfsLookup\<close> does after its loop.\<close>

definition lookupEnd :: "(u64 + u64) \<times> 'a fs_state_scheme \<Rightarrow> (u64 \<times> 'a fs_state_scheme) ores" where
  "lookupEnd rk = (case rk of (r, k) \<Rightarrow>
     case r of
       Inl n \<Rightarrow> Some (Inr (n, k))
     | Inr current \<Rightarrow>
         if mem k (spBuf k) \<noteq> 0
         then bndO (vfsLook current (spBuf k) k) (\<lambda>n. Some (Inr (n, k)))
         else Some (Inr (current, k)))"

text \<open>
  The states the loop runs in: those that differ from the one at its start in the buffer only.
  The buffer is apart from the tree and from the path.
\<close>

definition in_loop :: "'a fs_state_scheme \<Rightarrow> 'a fs_state_scheme \<Rightarrow> bool" where
  "in_loop k0 k \<longleftrightarrow> (\<exists>m. k = k0\<lparr>mem := m\<rparr> \<and> same_outside (rng (spBuf k0) 64) (mem k0) m)"

lemma in_loop_write:
  assumes "in_loop k0 k" and "same_outside (rng (spBuf k0) 64) (mem k) m"
  shows "in_loop k0 (k\<lparr>mem := m\<rparr>)"
proof -
  from assms(1) obtain m1 where m1: "k = k0\<lparr>mem := m1\<rparr>" "same_outside (rng (spBuf k0) 64) (mem k0) m1"
    by (auto simp: in_loop_def)
  have "same_outside (rng (spBuf k0) 64) (mem k0) m" using same_outside_trans [OF m1(2)] assms(2) m1(1) by simp
  then show ?thesis unfolding in_loop_def using m1(1) by (intro exI [of _ m]) simp
qed

lemma in_loopD:
  assumes "in_loop k0 k"
  shows "same_outside (rng (spBuf k0) 64) (mem k0) (mem k)" and "spBuf k = spBuf k0"
    and "k = k0\<lparr>mem := mem k\<rparr>"
  using assms by (auto simp: in_loop_def)

lemma buffer_off: "i < 64 \<Longrightarrow> sp + of_nat i \<in> rng sp 64"
  using unat_of_nat_le [of i] by (simp add: in_rng)

text \<open>Appending a character to the string in the buffer.\<close>

lemma cstr_snoc:
  assumes "cstr m a acc" and "c \<noteq> 0" and "length acc < 2 ^ 63"
  shows "cstr (m(a + of_nat (length acc) := c, a + of_nat (length acc + 1) := 0)) a (acc @ [c])"
proof (rule cstrI)
  let ?m = "m(a + of_nat (length acc) := c, a + of_nat (length acc + 1) := 0)"
  have ne: "a + of_nat i \<noteq> a + of_nat j" if "i < j" "j \<le> length acc + 1" for i j
  proof -
    have "unat (of_nat i :: u64) = i" "unat (of_nat j :: u64) = j" using that assms(3) by (intro unat_of_nat64; simp)+
    then show ?thesis using that(1) by (metis add_left_cancel nat_neq_iff)
  qed
  show "0 \<notin> set (acc @ [c])" using cstr_nonzero [OF assms(1)] assms(2) by simp
  show "?m (a + of_nat (length (acc @ [c]))) = 0" by simp
  show "?m (a + of_nat i) = (acc @ [c]) ! i" if "i < length (acc @ [c])" for i
  proof (cases "i = length acc")
    case True
    then show ?thesis using ne [of "length acc" "length acc + 1"] by (simp add: nth_append del: of_nat_Suc of_nat_add)
  next
    case False
    then have "i < length acc" using that by simp
    then have "a + of_nat i \<noteq> a + of_nat (length acc)" "a + of_nat i \<noteq> a + of_nat (length acc + 1)"
      by (intro ne; simp)+
    then have "?m (a + of_nat i) = m (a + of_nat i)" by (simp del: of_nat_Suc of_nat_add)
    then show ?thesis using cstr_char [OF assms(1) \<open>i < length acc\<close>] \<open>i < length acc\<close> by (simp add: nth_append)
  qed
qed

lemma fs_walk_cons:
  "q \<noteq> [] \<Longrightarrow> fs_walk step file n (s # q) =
     (if s = [] then fs_walk step file n q
      else let n' = step n s in if n' = 0 \<or> file n' then 0 else fs_walk step file n' q)"
  by (cases q) (simp_all add: Let_def)

lemma vfsLookupLoop_walk:
  fixes k0 k :: "'a fs_state_scheme"
  assumes rep: "fs_rep k0 V kids ms" and off: "fs_foot k0 V kids ms \<inter> rng (spBuf k0) 64 = {}"
    and sp: "spBuf k0 \<noteq> 0"
  shows "in_loop k0 k \<Longrightarrow> cstr (mem k) p s \<Longrightarrow> rng p (Suc (length s)) \<inter> rng (spBuf k0) 64 = {} \<Longrightarrow>
    cstr (mem k) (spBuf k) acc \<Longrightarrow> i = length acc \<Longrightarrow> n \<in> insert 0 V \<Longrightarrow>
    (\<forall>q \<in> set (rest_pieces acc s). length q \<le> 63) \<Longrightarrow>
    \<exists>k'. bndO (vfsLookupLoop p i n k) lookupEnd = Some (Inr (fs_walk (fs_step (mem k0) kids ms)
        (\<lambda>n. nodeType (mem k0) n = TYPE_FILE) n (rest_pieces acc s), k')) \<and> in_loop k0 k'"
proof (induction s arbitrary: p k acc i n)
  case Nil
  note l = in_loopD [OF Nil.prems(1)]
  have r: "fs_rep k V kids ms" using fs_rep_frame(1) [OF rep l(1) off] l(3) by simp
  have end1: "vfsLookupLoop p i n k = Some (Inr (Inr n, k))" using Nil.prems(2) by (subst vfsLookupLoop.simps) simp
  have spk: "spBuf k \<noteq> 0" using sp l(2) by simp
  note st = vfsLook_step(1) [OF r Nil.prems(6) spk Nil.prems(4)]
  have "mem k (spBuf k) = 0 \<longleftrightarrow> acc = []"
    using Nil.prems(4) by (cases acc) auto
  then show ?case
    using end1 st fs_rep_frame(3) [OF rep l(1) off Nil.prems(6)] Nil.prems(1) by (simp add: lookupEnd_def)
next
  case (Cons c s)
  note l = in_loopD [OF Cons.prems(1)]
  have r: "fs_rep k V kids ms" using fs_rep_frame(1) [OF rep l(1) off] l(3) by simp
  have spk: "spBuf k \<noteq> 0" using sp l(2) by simp
  have c: "mem k p = c" "c \<noteq> 0" "cstr (mem k) (p + 1) s" using Cons.prems(2) by simp_all
  have tail: "rng (p + 1) (Suc (length s)) \<subseteq> rng p (Suc (length (c # s)))" by (rule rng_sub) simp
  then have pdis: "rng (p + 1) (Suc (length s)) \<inter> rng (spBuf k0) 64 = {}" using Cons.prems(3) by blast
  have keep: "cstr m (p + 1) s" if "same_outside (rng (spBuf k0) 64) (mem k) m" for m
    by (rule cstr_cong [OF c(3)]) (use same_outsideD [OF that] pdis in blast)
  have zero: "same_outside (rng (spBuf k0) 64) (mem k) ((mem k)(spBuf k := 0))"
    using buffer_off [of 0] l(2) by (auto simp: same_outside_def)
  have next0: "\<exists>k'. bndO (vfsLookupLoop (p + 1) 0 n' (k\<lparr>mem := (mem k)(spBuf k := 0)\<rparr>)) lookupEnd =
      Some (Inr (fs_walk (fs_step (mem k0) kids ms) (\<lambda>n. nodeType (mem k0) n = TYPE_FILE) n' (rest_pieces [] s), k'))
      \<and> in_loop k0 k'" if n': "n' \<in> insert 0 V" and c2: "c = 0x2F" for n'
  proof (rule Cons.IH [OF in_loop_write [OF Cons.prems(1) zero] _ pdis _ _ n'])
    show "cstr (mem (k\<lparr>mem := (mem k)(spBuf k := 0)\<rparr>)) (p + 1) s" using keep [OF zero] by simp
    show "\<forall>q \<in> set (rest_pieces [] s). length q \<le> 63"
      using Cons.prems(7) unfolding c2 rest_slash by (simp only: list.set ball_simps) simp
  qed simp_all
  show ?case
  proof (cases "c = 0x2F")
    case True
    show ?thesis
    proof (cases "acc = []")
      case True
      with \<open>c = 0x2F\<close> c Cons.prems(5) next0 [OF Cons.prems(6)] show ?thesis
        by (subst vfsLookupLoop.simps) (simp add: fs_walk_cons)
    next
      case False
      let ?n = "fs_step (mem k0) kids ms n acc"
      have st: "vfsLook n (spBuf k) k = Some (Inr ?n)" "?n \<in> insert 0 V"
        using vfsLook_step [OF r Cons.prems(6) spk Cons.prems(4)] fs_rep_frame(3) [OF rep l(1) off Cons.prems(6)]
        by simp_all
      have run: "vfsLookupLoop p i n k = (if ?n = 0 \<or> nodeType (mem k) ?n = TYPE_FILE then Some (Inr (Inl 0, k))
          else vfsLookupLoop (p + 1) 0 ?n (k\<lparr>mem := (mem k)(spBuf k := 0)\<rparr>))"
        using True False c Cons.prems(5) st(1) by (subst vfsLookupLoop.simps) simp
      have walk: "fs_walk (fs_step (mem k0) kids ms) (\<lambda>n. nodeType (mem k0) n = TYPE_FILE) n
            (rest_pieces acc (c # s)) = (if ?n = 0 \<or> nodeType (mem k0) ?n = TYPE_FILE then 0
          else fs_walk (fs_step (mem k0) kids ms) (\<lambda>n. nodeType (mem k0) n = TYPE_FILE) ?n (rest_pieces [] s))"
        unfolding True rest_slash using False by (simp add: fs_walk_cons Let_def)
      show ?thesis
      proof (cases "?n = 0 \<or> nodeType (mem k0) ?n = TYPE_FILE")
        case True
        then have "?n = 0 \<or> nodeType (mem k) ?n = TYPE_FILE" using fs_rep_frame(4) [OF rep l(1) off] st(2) by auto
        then show ?thesis using True run walk Cons.prems(1) by (auto simp: lookupEnd_def)
      next
        case False
        then have "\<not> (?n = 0 \<or> nodeType (mem k) ?n = TYPE_FILE)"
          using fs_rep_frame(4) [OF rep l(1) off] st(2) by auto
        then show ?thesis using False run walk next0 [OF st(2) \<open>c = 0x2F\<close>] by simp
      qed
    qed
  next
    case False
    have len: "length acc < 63"
      using Cons.prems(7) unfolding rest_char [OF False] by (simp only: list.set ball_simps) simp
    let ?m = "(mem k)(spBuf k + of_nat i := c, spBuf k + of_nat (i + 1) := 0)"
    have "spBuf k + of_nat i \<in> rng (spBuf k0) 64" "spBuf k + of_nat (i + 1) \<in> rng (spBuf k0) 64"
      using buffer_off [of i] buffer_off [of "i + 1"] len Cons.prems(5) l(2) by simp_all
    then have out: "same_outside (rng (spBuf k0) 64) (mem k) ?m" by (auto simp: same_outside_def)
    have "vfsLookupLoop p i n k = vfsLookupLoop (p + 1) (i + 1) n (k\<lparr>mem := ?m\<rparr>)"
      using False c len Cons.prems(5) by (subst vfsLookupLoop.simps) simp
    moreover have "\<exists>k'. bndO (vfsLookupLoop (p + 1) (i + 1) n (k\<lparr>mem := ?m\<rparr>)) lookupEnd =
        Some (Inr (fs_walk (fs_step (mem k0) kids ms) (\<lambda>n. nodeType (mem k0) n = TYPE_FILE) n
          (rest_pieces (acc @ [c]) s), k')) \<and> in_loop k0 k'"
    proof (rule Cons.IH [OF in_loop_write [OF Cons.prems(1) out] _ pdis _ _ Cons.prems(6)])
      show "cstr (mem (k\<lparr>mem := ?m\<rparr>)) (p + 1) s" using keep [OF out] by simp
      show "cstr (mem (k\<lparr>mem := ?m\<rparr>)) (spBuf (k\<lparr>mem := ?m\<rparr>)) (acc @ [c])"
        using cstr_snoc [OF Cons.prems(4) c(2)] len Cons.prems(5) by simp
      show "\<forall>q \<in> set (rest_pieces (acc @ [c]) s). length q \<le> 63"
        using Cons.prems(7) unfolding rest_char [OF False] .
    qed (use Cons.prems(5) in simp_all)
    ultimately show ?thesis unfolding rest_char [OF False] by simp
  qed
qed

lemma in_loop_start: "in_loop k (k\<lparr>mem := (mem k)(spBuf k := 0)\<rparr>)"
  unfolding in_loop_def
proof (intro exI conjI)
  show "same_outside (rng (spBuf k) 64) (mem k) ((mem k)(spBuf k := 0))"
    using buffer_off [of 0] by (auto simp: same_outside_def)
qed simp

lemma vfsLookup_start:
  assumes "llist (mem k) (mnts k) (map mntHead ms)" and "0 \<notin> set ms" and "root k \<noteq> 0" and "path \<noteq> 0"
  shows "vfsLookup path k = bndO (vfsLookupLoop path 0 (fs_through (mem k) ms (root k))
      (k\<lparr>mem := (mem k)(spBuf k := 0)\<rparr>)) lookupEnd"
proof -
  have "mnt \<noteq> 0" if "find (\<lambda>mnt. mountpoint (mem k) mnt = root k) ms = Some mnt" for mnt
    using that assms(2) find_Some_iff [of _ ms] by (metis nth_mem)
  then show ?thesis
    using vfsFindMnt_find [OF assms(1-3)] assms(4)
    by (cases "find (\<lambda>mnt. mountpoint (mem k) mnt = root k) ms")
      (auto simp: vfsLookup_def fs_through_def lookupEnd_def [abs_def] split_def)
qed

text \<open>
  A component that fills the buffer: the loop does not advance any more. \<open>pre\<close> are the pieces before
  it; those that are not empty lead to a directory.
\<close>

definition leads_on :: "(u64 \<Rightarrow> u8 list \<Rightarrow> u64) \<Rightarrow> (u64 \<Rightarrow> bool) \<Rightarrow> u64 \<Rightarrow> u8 list list \<Rightarrow> bool" where
  "leads_on step file n pre \<longleftrightarrow> set pre \<subseteq> {[]} \<or> fs_walk step file n (pre @ [[]]) \<noteq> 0"

lemma leads_on_cons:
  assumes "leads_on step file n (q # pre)"
  shows "if q = [] then leads_on step file n pre
    else step n q \<noteq> 0 \<and> \<not> file (step n q) \<and> leads_on step file (step n q) pre"
  using assms by (auto simp: leads_on_def fs_walk_cons Let_def split: if_splits)

lemma loop_not_stuck:
  "vfsLookupLoop p i n k = Some r \<Longrightarrow> \<not> (mem k p \<noteq> 0 \<and> mem k p \<noteq> 0x2F \<and> 63 \<le> i)"
proof (rule vfsLookupLoop.raw_induct [where P = "\<lambda>p i n k r. \<not> (mem k p \<noteq> 0 \<and> mem k p \<noteq> 0x2F \<and> 63 \<le> i)"])
qed (auto, blast)

lemma stuck: "mem k p \<noteq> 0 \<Longrightarrow> mem k p \<noteq> 0x2F \<Longrightarrow> 63 \<le> i \<Longrightarrow> vfsLookupLoop p i n k = None"
  using loop_not_stuck by (cases "vfsLookupLoop p i n k") blast+

lemma vfsLookupLoop_long:
  fixes k0 k :: "'a fs_state_scheme"
  assumes rep: "fs_rep k0 V kids ms" and off: "fs_foot k0 V kids ms \<inter> rng (spBuf k0) 64 = {}"
    and sp: "spBuf k0 \<noteq> 0"
  defines "step \<equiv> fs_step (mem k0) kids ms" and "isf \<equiv> \<lambda>n. nodeType (mem k0) n = TYPE_FILE"
  shows "in_loop k0 k \<Longrightarrow> cstr (mem k) p s \<Longrightarrow> rng p (Suc (length s)) \<inter> rng (spBuf k0) 64 = {} \<Longrightarrow>
    cstr (mem k) (spBuf k) acc \<Longrightarrow> i = length acc \<Longrightarrow> i \<le> 63 \<Longrightarrow> n \<in> insert 0 V \<Longrightarrow>
    rest_pieces acc s = pre @ q # post \<Longrightarrow> 63 < length q \<Longrightarrow> leads_on step isf n pre \<Longrightarrow>
    vfsLookupLoop p i n k = None"
proof (induction s arbitrary: p k acc i n pre)
  case Nil
  then show ?case by (cases pre) auto
next
  case (Cons c s)
  note l = in_loopD [OF Cons.prems(1)]
  have r: "fs_rep k V kids ms" using fs_rep_frame(1) [OF rep l(1) off] l(3) by simp
  have spk: "spBuf k \<noteq> 0" using sp l(2) by simp
  have c: "mem k p = c" "c \<noteq> 0" "cstr (mem k) (p + 1) s" using Cons.prems(2) by simp_all
  have tail: "rng (p + 1) (Suc (length s)) \<subseteq> rng p (Suc (length (c # s)))" by (rule rng_sub) simp
  then have pdis: "rng (p + 1) (Suc (length s)) \<inter> rng (spBuf k0) 64 = {}" using Cons.prems(3) by blast
  have keep: "cstr m (p + 1) s" if "same_outside (rng (spBuf k0) 64) (mem k) m" for m
    by (rule cstr_cong [OF c(3)]) (use same_outsideD [OF that] pdis in blast)
  show ?case
  proof (cases "c = 0x2F")
    case slash: True
    have "q \<noteq> acc" using Cons.prems(5,6,9) by auto
    then obtain pre' where pre: "pre = acc # pre'" "rest_pieces [] s = pre' @ q # post"
      using Cons.prems(8) unfolding slash rest_slash by (cases pre) simp_all
    note lead = leads_on_cons [OF Cons.prems(10) [unfolded pre(1)]]
    have zero: "same_outside (rng (spBuf k0) 64) (mem k) ((mem k)(spBuf k := 0))"
      using buffer_off [of 0] l(2) by (auto simp: same_outside_def)
    have next0: "vfsLookupLoop (p + 1) 0 n' (k\<lparr>mem := (mem k)(spBuf k := 0)\<rparr>) = None"
      if "n' \<in> insert 0 V" "leads_on step isf n' pre'" for n'
    proof (rule Cons.IH [OF in_loop_write [OF Cons.prems(1) zero] _ pdis _ _ _ that(1) pre(2) Cons.prems(9) that(2)])
      show "cstr (mem (k\<lparr>mem := (mem k)(spBuf k := 0)\<rparr>)) (p + 1) s" using keep [OF zero] by simp
    qed simp_all
    show ?thesis
    proof (cases "acc = []")
      case True
      then show ?thesis using next0 [OF Cons.prems(7)] lead slash c Cons.prems(5) by (subst vfsLookupLoop.simps) simp
    next
      case False
      have st: "vfsLook n (spBuf k) k = Some (Inr (step n acc))" "step n acc \<in> insert 0 V"
        using vfsLook_step [OF r Cons.prems(7) spk Cons.prems(4)] fs_rep_frame(3) [OF rep l(1) off Cons.prems(7)]
        unfolding step_def by simp_all
      have d: "step n acc \<noteq> 0" "\<not> isf (step n acc)" "leads_on step isf (step n acc) pre'"
        using lead unfolding if_not_P [OF False] by simp_all
      have "nodeType (mem k) (step n acc) \<noteq> TYPE_FILE"
        using fs_rep_frame(4) [OF rep l(1) off] st(2) d(1,2) unfolding isf_def by auto
      then show ?thesis
        using next0 [OF st(2) d(3)] st(1) d(1) slash c Cons.prems(5) False by (subst vfsLookupLoop.simps) simp
    qed
  next
    case False
    show ?thesis
    proof (cases "i = 63")
      case True
      then show ?thesis using c False by (intro stuck) simp_all
    next
      case i: False
      let ?m = "(mem k)(spBuf k + of_nat i := c, spBuf k + of_nat (i + 1) := 0)"
      have len: "length acc < 63" using i Cons.prems(5,6) by simp
      have "spBuf k + of_nat i \<in> rng (spBuf k0) 64" "spBuf k + of_nat (i + 1) \<in> rng (spBuf k0) 64"
        using buffer_off [of i] buffer_off [of "i + 1"] len Cons.prems(5) l(2) by simp_all
      then have out: "same_outside (rng (spBuf k0) 64) (mem k) ?m" by (auto simp: same_outside_def)
      have "vfsLookupLoop (p + 1) (i + 1) n (k\<lparr>mem := ?m\<rparr>) = None"
      proof (rule Cons.IH [OF in_loop_write [OF Cons.prems(1) out] _ pdis _ _ _ Cons.prems(7) _ Cons.prems(9,10)])
        show "cstr (mem (k\<lparr>mem := ?m\<rparr>)) (p + 1) s" using keep [OF out] by simp
        show "cstr (mem (k\<lparr>mem := ?m\<rparr>)) (spBuf (k\<lparr>mem := ?m\<rparr>)) (acc @ [c])"
          using cstr_snoc [OF Cons.prems(4) c(2)] len Cons.prems(5) by simp
        show "rest_pieces (acc @ [c]) s = pre @ q # post" using Cons.prems(8) unfolding rest_char [OF False] .
      qed (use Cons.prems(5) len in simp_all)
      then show ?thesis using False c len Cons.prems(5) by (subst vfsLookupLoop.simps) simp
    qed
  qed
qed

lemma vfsLookup_walk:
  assumes "fs_rep k V kids ms" and "fs_foot k V kids ms \<inter> rng (spBuf k) 64 = {}" and "spBuf k \<noteq> 0"
    and "root k \<noteq> 0" and "fs_through (mem k) ms (root k) \<in> insert 0 V"
    and "path \<noteq> 0" and "cstr (mem k) path s" and "rng path (Suc (length s)) \<inter> rng (spBuf k) 64 = {}"
    and "\<forall>q \<in> set (pieces s). length q \<le> 63"
  shows "\<exists>m. vfsLookup path k = Some (Inr (fs_walk (fs_step (mem k) kids ms)
        (\<lambda>n. nodeType (mem k) n = TYPE_FILE) (fs_through (mem k) ms (root k)) (pieces s), k\<lparr>mem := m\<rparr>))
    \<and> same_outside (rng (spBuf k) 64) (mem k) m"
proof -
  let ?k = "k\<lparr>mem := (mem k)(spBuf k := 0)\<rparr>"
  have l: "in_loop k ?k" by (rule in_loop_start)
  have "cstr (mem ?k) path s"
    using same_outsideD [OF in_loopD(1) [OF l]] assms(8) by (intro cstr_cong [OF assms(7)]) blast
  moreover have "cstr (mem ?k) (spBuf ?k) []" by simp
  ultimately obtain k' where "bndO (vfsLookupLoop path 0 (fs_through (mem k) ms (root k)) ?k) lookupEnd =
      Some (Inr (fs_walk (fs_step (mem k) kids ms) (\<lambda>n. nodeType (mem k) n = TYPE_FILE)
        (fs_through (mem k) ms (root k)) (rest_pieces [] s), k'))" "in_loop k k'"
    using vfsLookupLoop_walk [OF assms(1-3) l _ assms(8) _ _ assms(5), of "[]" 0] assms(9) by auto
  moreover have "rest_pieces [] s = pieces s" using pieces_cons [of s] by simp
  ultimately show ?thesis
    using vfsLookup_start [OF fs_repD(3,4) [OF assms(1)] assms(4,6)] by (auto simp: in_loop_def)
qed

subsection \<open>Properties\<close>

text \<open>C16: looking a path up returns. On a well-formed tree, with every component of the path at most
  63 bytes long, the result is that of the walk over the components: repeated slashes are
  skipped, at every step a node with a mount on it is replaced by the root of the newest such
  mount, a component followed by a slash has to name a directory, and a missing component
  gives 0. Nothing but the buffer on the stack is written.\<close>

theorem vfsLookup_correct:
  assumes "fs_rep k V kids ms" and "fs_foot k V kids ms \<inter> rng (spBuf k) 64 = {}" and "spBuf k \<noteq> 0"
    and "root k \<noteq> 0" and "fs_through (mem k) ms (root k) \<in> insert 0 V"
    and "path \<noteq> 0" and "cstr (mem k) path s" and "rng path (Suc (length s)) \<inter> rng (spBuf k) 64 = {}"
    and "\<forall>q \<in> set (pieces s). length q \<le> 63"
  shows "\<exists>m. vfsLookup path k = Some (Inr (fs_walk (fs_step (mem k) kids ms)
        (\<lambda>n. nodeType (mem k) n = TYPE_FILE) (fs_through (mem k) ms (root k)) (pieces s), k\<lparr>mem := m\<rparr>))
    \<and> same_outside (rng (spBuf k) 64) (mem k) m"
  by (rule vfsLookup_walk [OF assms])

text \<open>
  A root node at \<open>0x9000\<close>, covered by a mount at \<open>0xa000\<close> whose root is the directory at \<open>0x1000\<close>;
  its entry \<open>"ab"\<close> is the file node at \<open>0x5000\<close>. The path \<open>"/ab"\<close> stands at \<open>0x7000\<close>.
\<close>

definition demoMounts :: mem where
  "demoMounts = (store64 (store64 (store64 (store64 (store64 (store64 (store64 (store64 demoDir
     0x1018 0x500) 0x530 0x700) 0xa0a8 0x9000) 0xa0b0 0x1000) 0x100 0xa0b8) 0x108 0xa0b8) 0xa0b8 0x100) 0xa0c0 0x100)
     (0x7000 := 0x2f, 0x7001 := 0x61, 0x7002 := 0x62)"

definition demoVfs :: fs_state where
  "demoVfs = demoFs\<lparr>mem := demoMounts, root := 0x9000\<rparr>"

definition demoKids :: "u64 \<Rightarrow> (u64 \<times> u8 list) list" where
  "demoKids n = (if n = 0x1000 then [(0x3000, [0x61, 0x62])] else [])"

lemma demoVfs_fields [simp]: "mem demoVfs = demoMounts" "root demoVfs = 0x9000" "mnts demoVfs = 0x100"
  "code demoVfs f = 0x700" "spBuf demoVfs = 0x800"
  by (simp_all add: demoVfs_def demoFs_def)

lemma demo_mount_words:
  "nodeOps demoMounts 0x1000 = 0x500" "opLookup demoMounts 0x500 = 0x700" "fsData demoMounts 0x1000 = 0x2000"
  "tmpNode demoMounts 0x3000 = 0x5000" "mountpoint demoMounts 0xa000 = 0x9000" "mntRoot demoMounts 0xa000 = 0x1000"
  by (simp_all add: nodeOps_def opLookup_def fsData_def tmpNode_def mountpoint_def mntRoot_def demoMounts_def
      demoDir_def mem_simps)

lemma demo_mount_types: "nodeType demoMounts 0x1000 = 0" "nodeType demoMounts 0x5000 = TYPE_FILE"
  "nodeOps demoMounts 0x5000 = 0" "fsData demoMounts 0x5000 = 0"
  by (simp_all add: nodeType_def load32_load64 nodeOps_def fsData_def TYPE_FILE_def demoMounts_def demoDir_def
      mem_simps)

lemma demo_mount_lists: "dir_rep demoMounts 0x2000 [(0x3000, [0x61, 0x62])]"
  "llist demoMounts 0x100 (map mntHead [0xa000])" "cstr demoMounts 0x7000 [0x2f, 0x61, 0x62]"
  by (simp_all add: dir_rep_def llist_def llNext_def llPrev_def children_def childHead_def mntHead_def
      demoMounts_def demoDir_def mem_simps apart_def)

lemma demo_tree: "fs_rep demoVfs {0x1000, 0x5000} demoKids [0xa000]"
  using demo_mount_words demo_mount_types demo_mount_lists
  by (simp add: fs_rep_def node_ok_def demoKids_def)

lemma demo_tree_foot: "fs_foot demoVfs {0x1000, 0x5000} demoKids [0xa000] \<inter> rng (spBuf demoVfs) 64 = {}"
proof -
  have "rng a n \<inter> rng 0x800 64 = {}"
    if "(a, n) \<in> {(0x1000, 48), (0x500, 56), (0x2000, 88), (0x3000, 88), (0x5000, 48), (0, 56), (0, 88),
      (0x100, 16), (0xa000, 216)}" for a n
    using that by (intro apart_disjoint) (auto simp: apart_def)
  then show ?thesis
    by (simp add: fs_foot_def node_foot_def demo_mount_words demo_mount_types demoKids_def Int_Un_distrib2)
qed

theorem vfsLookup_correct_witness: "\<exists>m. vfsLookup 0x7000 demoVfs = Some (Inr (0x5000, demoVfs\<lparr>mem := m\<rparr>))"
proof -
  have "rng 0x7000 (Suc (length [0x2f, 0x61, 0x62 :: u8])) \<inter> rng (spBuf demoVfs) 64 = {}"
    by (rule apart_disjoint) (simp add: apart_def)
  moreover have "fs_through (mem demoVfs) [0xa000] (root demoVfs) = 0x1000"
    by (simp add: fs_through_def demo_mount_words)
  ultimately have "\<exists>m. vfsLookup 0x7000 demoVfs = Some (Inr (fs_walk (fs_step (mem demoVfs) demoKids [0xa000])
      (\<lambda>n. nodeType (mem demoVfs) n = TYPE_FILE) 0x1000 (pieces [0x2f, 0x61, 0x62]), demoVfs\<lparr>mem := m\<rparr>))"
    using vfsLookup_correct [OF demo_tree demo_tree_foot, of "0x7000" "[0x2f, 0x61, 0x62]"] demo_mount_lists(3) by auto
  moreover have "fs_walk (fs_step (mem demoVfs) demoKids [0xa000])
      (\<lambda>n. nodeType (mem demoVfs) n = TYPE_FILE) 0x1000 (pieces [0x2f, 0x61, 0x62]) = 0x5000"
    by (simp add: fs_step_def fs_through_def dir_find_def demoKids_def demo_mount_words demo_mount_types TYPE_FILE_def)
  ultimately show ?thesis by simp
qed

text \<open>C20: a path with a component longer than 63 bytes makes \<open>vfsLookup\<close> run for ever once the walk gets to that
  component, that is, when the components before it, if any, lead to a directory: the loop goes on without
  advancing. It does not matter how many slashes the path begins with.\<close>

theorem vfsLookup_hangs:
  assumes "fs_rep k V kids ms" and "fs_foot k V kids ms \<inter> rng (spBuf k) 64 = {}" and "spBuf k \<noteq> 0"
    and "root k \<noteq> 0" and "fs_through (mem k) ms (root k) \<in> insert 0 V"
    and "path \<noteq> 0" and "cstr (mem k) path s" and "rng path (Suc (length s)) \<inter> rng (spBuf k) 64 = {}"
    and "pieces s = pre @ q # post" and "63 < length q"
    and "set pre \<subseteq> {[]} \<or> fs_walk (fs_step (mem k) kids ms) (\<lambda>n. nodeType (mem k) n = TYPE_FILE)
      (fs_through (mem k) ms (root k)) (pre @ [[]]) \<noteq> 0"
  shows "vfsLookup path k = None"
proof -
  let ?k = "k\<lparr>mem := (mem k)(spBuf k := 0)\<rparr>"
  have l: "in_loop k ?k" by (rule in_loop_start)
  have s: "cstr (mem ?k) path s"
    using same_outsideD [OF in_loopD(1) [OF l]] assms(8) by (intro cstr_cong [OF assms(7)]) blast
  have b: "cstr (mem ?k) (spBuf ?k) []" by simp
  have "rest_pieces [] s = pre @ q # post" using pieces_cons [of s] assms(9) by simp
  from vfsLookupLoop_long [OF assms(1-3) l s assms(8) b refl _ assms(5) this assms(10)]
  have "vfsLookupLoop path 0 (fs_through (mem k) ms (root k)) ?k = None"
    using assms(11) by (simp add: leads_on_def)
  then show ?thesis using vfsLookup_start [OF fs_repD(3,4) [OF assms(1)] assms(4,6)] by simp
qed

text \<open>The mount and directory from above, and at \<open>0x7000\<close> a slash and 64 letters.\<close>

definition demoLong :: fs_state where
  "demoLong = demoVfs\<lparr>mem := (\<lambda>x. if x \<in> rng 0x7000 66 then if x = 0x7000 then 0x2f else if x = 0x7041 then 0 else 0x61
     else demoMounts x)\<rparr>"

lemma demo_long_tree: "fs_rep demoLong {0x1000, 0x5000} demoKids [0xa000]"
  "fs_foot demoLong {0x1000, 0x5000} demoKids [0xa000] \<inter> rng (spBuf demoLong) 64 = {}"
  "fs_through (mem demoLong) [0xa000] (root demoLong) = 0x1000"
proof -
  have out: "same_outside (rng 0x7000 66) (mem demoVfs) (mem demoLong)" by (simp add: same_outside_def demoLong_def)
  have "rng a n \<inter> rng 0x7000 66 = {}"
    if "(a, n) \<in> {(0x1000, 48), (0x500, 56), (0x2000, 88), (0x3000, 88), (0x5000, 48), (0, 56), (0, 88),
      (0x100, 16), (0xa000, 216)}" for a n
    using that by (intro apart_disjoint) (auto simp: apart_def)
  then have off: "fs_foot demoVfs {0x1000, 0x5000} demoKids [0xa000] \<inter> rng 0x7000 66 = {}"
    by (simp add: fs_foot_def node_foot_def demo_mount_words demo_mount_types demoKids_def Int_Un_distrib2)
  have e: "demoVfs\<lparr>mem := mem demoLong\<rparr> = demoLong" by (simp add: demoLong_def)
  note f = fs_rep_frame [OF demo_tree out off, unfolded e]
  show "fs_rep demoLong {0x1000, 0x5000} demoKids [0xa000]" by (rule f(1))
  show "fs_through (mem demoLong) [0xa000] (root demoLong) = 0x1000"
    using f(2) [of "0x9000"] by (simp add: fs_through_def demo_mount_words demoLong_def)
  have "load64 (mem demoLong) a = load64 demoMounts a" if "apart a 8 0x7000 66" for a
    using load_same_outside [OF out apart_disjoint [OF that]] by simp
  then have "nodeOps (mem demoLong) n = nodeOps demoMounts n" "fsData (mem demoLong) n = fsData demoMounts n" if "n \<in> {0x1000, 0x5000}" for n
    using that by (auto simp: nodeOps_def fsData_def apart_def)
  then have "fs_foot demoLong {0x1000, 0x5000} demoKids [0xa000] = fs_foot demoVfs {0x1000, 0x5000} demoKids [0xa000]"
    by (simp add: fs_foot_def node_foot_def demoLong_def)
  then show "fs_foot demoLong {0x1000, 0x5000} demoKids [0xa000] \<inter> rng (spBuf demoLong) 64 = {}"
    using demo_tree_foot by (simp add: demoLong_def)
qed

lemma demo_long_path: "cstr (mem demoLong) 0x7000 (0x2f # replicate 64 0x61)"
proof (rule cstrI)
  fix i assume i: "i < length (0x2f # replicate 64 (0x61 :: u8))"
  then have "unat (of_nat i :: u64) = i" by (intro unat_of_nat64) simp
  then show "mem demoLong (0x7000 + of_nat i) = (0x2f # replicate 64 0x61) ! i"
    using i by (cases i) (auto simp: demoLong_def in_rng)
qed (simp_all add: demoLong_def in_rng)

theorem vfsLookup_hangs_witness: "vfsLookup 0x7000 demoLong = None"
proof (rule vfsLookup_hangs [OF demo_long_tree(1,2) _ _ _ _ demo_long_path])
  show "rng 0x7000 (Suc (length (0x2f # replicate 64 (0x61 :: u8)))) \<inter> rng (spBuf demoLong) 64 = {}"
    by (rule apart_disjoint) (simp add: apart_def demoLong_def)
  have "pieces (replicate n 0x61) = [replicate n 0x61]" for n by (induction n) simp_all
  then show "pieces (0x2f # replicate 64 0x61) = [[]] @ replicate 64 0x61 # []" by simp
qed (simp_all add: demo_long_tree(3), simp_all add: demoLong_def)

end
