(* ===== verification/Paths.thy ===== *)
theory Paths
  imports Vfs
begin

section \<open>Files by their paths (filesystem/vfsops.c over vfs.c and tmpfs.c)\<close>

text \<open>
  The functions that user code calls, from the path to the bytes: lookup across mounts, the call
  through the node's handler, and the memory file system, on one memory.
\<close>

subsection \<open>Where a path leads\<close>

definition fs_at :: "'a fs_state_scheme \<Rightarrow> (u64 \<Rightarrow> (u64 \<times> u8 list) list) \<Rightarrow> u64 list \<Rightarrow> u8 list \<Rightarrow> u64" where
  "fs_at k kids ms s = fs_walk (fs_step (mem k) kids ms) (\<lambda>n. nodeType (mem k) n = TYPE_FILE)
     (fs_through (mem k) ms (root k)) (pieces s)"

text \<open>A tree, and a path to look up in it, both beside the buffer of the lookup.\<close>

definition path_ok ::
    "'a fs_state_scheme \<Rightarrow> u64 set \<Rightarrow> (u64 \<Rightarrow> (u64 \<times> u8 list) list) \<Rightarrow> u64 list \<Rightarrow> u64 \<Rightarrow> u8 list \<Rightarrow> bool" where
  "path_ok k V kids ms path s \<longleftrightarrow> fs_rep k V kids ms \<and> fs_foot k V kids ms \<inter> rng (spBuf k) 64 = {} \<and> spBuf k \<noteq> 0
     \<and> root k \<noteq> 0 \<and> fs_through (mem k) ms (root k) \<in> insert 0 V
     \<and> path \<noteq> 0 \<and> cstr (mem k) path s \<and> rng path (Suc (length s)) \<inter> rng (spBuf k) 64 = {}
     \<and> (\<forall>q \<in> set (pieces s). length q \<le> 63)"

lemma path_lookup:
  assumes "path_ok k V kids ms path s"
  shows "\<exists>m. vfsLookup path k = Some (Inr (fs_at k kids ms s, k\<lparr>mem := m\<rparr>)) \<and> same_outside (rng (spBuf k) 64) (mem k) m"
  using assms unfolding path_ok_def fs_at_def by (intro vfsLookup_walk) blast+

lemma fs_walk_cong:
  assumes "n \<in> insert 0 V"
    and step: "\<And>n s. n \<in> insert 0 V \<Longrightarrow> step' n s = step n s \<and> step n s \<in> insert 0 V"
    and "\<And>n. n \<in> V \<Longrightarrow> file' n = file n"
  shows "fs_walk step' file' n ps = fs_walk step file n ps"
  using assms(1)
proof (induction ps arbitrary: n rule: induct_list012)
  case (3 s t r)
  have "step' n s = step n s" "step n s \<in> insert 0 V" using step [OF "3.prems"] by blast+
  then show ?case using 3 assms(3) by (auto simp: Let_def)
qed (use step in auto)

lemma fs_step_in:
  assumes "fs_rep k V kids ms" and "n \<in> insert 0 V"
  shows "fs_step (mem k) kids ms n s \<in> insert 0 V"
proof (cases "n = 0 \<or> nodeType (mem k) n = TYPE_FILE")
  case False
  then have "node_ok k V kids n" using assms(2) fs_repD(2) [OF assms(1)] by blast
  then have c: "dir_find (mem k) (kids n) s \<in> insert 0 V" using False by (intro dir_find_in) simp_all
  show ?thesis using False fs_through_in [OF assms(1) c] by (simp add: fs_step_def Let_def)
qed (simp add: fs_step_def)

lemma fs_foot_frame:
  assumes "same_outside A (mem k) m'" and "fs_foot k V kids ms \<inter> A = {}"
  shows "fs_foot (k\<lparr>mem := m'\<rparr>) V kids ms = fs_foot k V kids ms"
proof -
  have "node_foot m' kids n = node_foot (mem k) kids n" if "n \<in> V" for n
  proof -
    have "rng (n + 16) 8 \<subseteq> rng n 48" "rng (n + 24) 8 \<subseteq> rng n 48" by (rule rng_sub; simp)+
    moreover have "rng n 48 \<subseteq> fs_foot k V kids ms" using that unfolding fs_foot_def node_foot_def by blast
    ultimately have "rng (n + 16) 8 \<inter> A = {}" "rng (n + 24) 8 \<inter> A = {}" using assms(2) by blast+
    from this [THEN load_same_outside [OF assms(1)]] show ?thesis by (simp add: node_foot_def nodeOps_def fsData_def)
  qed
  then show ?thesis by (simp add: fs_foot_def)
qed

text \<open>Writes beside the tree and the path do not change where the path leads.\<close>

lemma path_ok_frame:
  assumes p: "path_ok k V kids ms path s" and out: "same_outside A (mem k) m'"
    and off: "fs_foot k V kids ms \<inter> A = {}" "rng path (Suc (length s)) \<inter> A = {}"
  shows "path_ok (k\<lparr>mem := m'\<rparr>) V kids ms path s" and "fs_at (k\<lparr>mem := m'\<rparr>) kids ms s = fs_at k kids ms s"
proof -
  have rep: "fs_rep k V kids ms" and start: "fs_through (mem k) ms (root k) \<in> insert 0 V"
    using p unfolding path_ok_def by blast+
  note f = fs_rep_frame [OF rep out off(1)]
  have "cstr m' path s"
  proof (rule cstr_cong)
    show "cstr (mem k) path s" using p unfolding path_ok_def by blast
    show "m' x = mem k x" if "x \<in> rng path (Suc (length s))" for x using same_outsideD [OF out] off(2) that by blast
  qed
  then show "path_ok (k\<lparr>mem := m'\<rparr>) V kids ms path s"
    using p f(1) unfolding path_ok_def fs_foot_frame [OF out off(1)] by (simp add: f(2))
  show "fs_at (k\<lparr>mem := m'\<rparr>) kids ms s = fs_at k kids ms s"
    using fs_walk_cong [OF start, of "fs_step m' kids ms" "fs_step (mem k) kids ms"
        "\<lambda>n. nodeType m' n = TYPE_FILE" "\<lambda>n. nodeType (mem k) n = TYPE_FILE" "pieces s"] f(2-4) fs_step_in [OF rep]
    by (simp add: fs_at_def)
qed

subsection \<open>Files of the memory file system\<close>

text \<open>
  The path leads to the file \<open>n\<close> with tmpfs node \<open>t\<close> and data at \<open>d\<close>; the data is beside the tree, the
  path and the buffer of the lookup.
\<close>

definition file_at ::
    "'a fs_state_scheme \<Rightarrow> u64 set \<Rightarrow> (u64 \<Rightarrow> (u64 \<times> u8 list) list) \<Rightarrow> u64 list \<Rightarrow> u64 \<Rightarrow> u8 list \<Rightarrow> u64 \<Rightarrow> u64 \<Rightarrow> bool" where
  "file_at k V kids ms path s t d \<longleftrightarrow> path_ok k V kids ms path s
     \<and> (let n = fs_at k kids ms s in n \<in> V \<and> file_rep (mem k) n t d \<and> nodeOps (mem k) n \<noteq> 0
         \<and> opWrite (mem k) (nodeOps (mem k) n) = code k tmpfsWriteFn \<and> opRead (mem k) (nodeOps (mem k) n) = code k tmpfsReadFn)
     \<and> code k tmpfsWriteFn \<noteq> 0 \<and> code k tmpfsReadFn \<noteq> 0
     \<and> (fs_foot k V kids ms \<union> rng path (Suc (length s)) \<union> rng (spBuf k) 64) \<inter> rng d 8192 = {}"

lemma file_at_frame:
  assumes f: "file_at k V kids ms path s t d" and out: "same_outside A (mem k) m'"
    and off: "fs_foot k V kids ms \<inter> A = {}" "rng path (Suc (length s)) \<inter> A = {}"
  shows "file_at (k\<lparr>mem := m'\<rparr>) V kids ms path s t d" and "fs_at (k\<lparr>mem := m'\<rparr>) kids ms s = fs_at k kids ms s"
proof -
  have p: "path_ok k V kids ms path s" using f unfolding file_at_def by blast
  show at: "fs_at (k\<lparr>mem := m'\<rparr>) kids ms s = fs_at k kids ms s" by (rule path_ok_frame(2) [OF p out off])
  let ?n = "fs_at k kids ms s" and ?h = "nodeOps (mem k) (fs_at k kids ms s)"
  have n: "?n \<in> V" "file_rep (mem k) ?n t d" using f unfolding file_at_def Let_def by blast+
  then have t: "fsData (mem k) ?n = t" by (simp add: file_rep_def)
  have foot: "rng ?n 48 \<inter> A = {}" "rng t 88 \<inter> A = {}" "rng ?h 56 \<inter> A = {}"
    using off(1) n(1) t unfolding fs_foot_def node_foot_def by blast+
  have r: "file_rep m' ?n t d" by (rule file_rep_frame [OF n(2) out]) (use foot in blast)
  have "rng (?n + 24) 8 \<subseteq> rng ?n 48" "rng (?h + 8) 8 \<subseteq> rng ?h 56" "rng (?h + 16) 8 \<subseteq> rng ?h 56" by (rule rng_sub; simp)+
  then have "rng (?n + 24) 8 \<inter> A = {}" "rng (?h + 8) 8 \<inter> A = {}" "rng (?h + 16) 8 \<inter> A = {}" using foot by blast+
  from this [THEN load_same_outside [OF out]]
  have l: "nodeOps m' ?n = ?h" "opRead m' ?h = opRead (mem k) ?h" "opWrite m' ?h = opWrite (mem k) ?h"
    by (simp_all add: nodeOps_def opRead_def opWrite_def)
  show "file_at (k\<lparr>mem := m'\<rparr>) V kids ms path s t d"
    using f path_ok_frame(1) [OF p out off] r
    unfolding file_at_def Let_def at fs_foot_frame [OF out off(1)] by (simp add: l)
qed

lemma path_lookup_file:
  assumes "file_at k V kids ms path s t d"
  shows "\<exists>m. vfsLookup path k = Some (Inr (fs_at k kids ms s, k\<lparr>mem := m\<rparr>)) \<and> same_outside (rng (spBuf k) 64) (mem k) m
    \<and> file_at (k\<lparr>mem := m\<rparr>) V kids ms path s t d \<and> fs_at (k\<lparr>mem := m\<rparr>) kids ms s = fs_at k kids ms s"
proof -
  have p: "path_ok k V kids ms path s" using assms unfolding file_at_def by blast
  obtain m where m: "vfsLookup path k = Some (Inr (fs_at k kids ms s, k\<lparr>mem := m\<rparr>))" "same_outside (rng (spBuf k) 64) (mem k) m"
    using path_lookup [OF p] by blast
  have "fs_foot k V kids ms \<inter> rng (spBuf k) 64 = {}" "rng path (Suc (length s)) \<inter> rng (spBuf k) 64 = {}"
    using p unfolding path_ok_def by blast+
  from file_at_frame [OF assms m(2) this] m show ?thesis by blast
qed

lemma file_atD:
  assumes "file_at k V kids ms path s t d"
  shows "file_rep (mem k) (fs_at k kids ms s) t d" and "nodeOps (mem k) (fs_at k kids ms s) \<noteq> 0" and "fs_at k kids ms s \<noteq> 0"
    and "opWrite (mem k) (nodeOps (mem k) (fs_at k kids ms s)) = code k tmpfsWriteFn" and "code k tmpfsWriteFn \<noteq> 0"
    and "opRead (mem k) (nodeOps (mem k) (fs_at k kids ms s)) = code k tmpfsReadFn" and "code k tmpfsReadFn \<noteq> 0"
    and "fs_foot k V kids ms \<inter> rng d 8192 = {}" and "rng path (Suc (length s)) \<inter> rng d 8192 = {}" and "rng (spBuf k) 64 \<inter> rng d 8192 = {}"
    and "fs_foot k V kids ms \<inter> rng (spBuf k) 64 = {}" and "rng path (Suc (length s)) \<inter> rng (spBuf k) 64 = {}"
  using assms unfolding file_at_def path_ok_def Let_def file_rep_def by blast+

text \<open>Offset and length inside a file, and a buffer beside it and the lookup's.\<close>

definition io_ok :: "'a fs_state_scheme \<Rightarrow> u64 \<Rightarrow> u64 \<Rightarrow> u64 \<Rightarrow> u64 \<Rightarrow> bool" where
  "io_ok k d pos buf sz \<longleftrightarrow> sz \<noteq> 0 \<and> unat pos + unat sz < 8192 \<and> buf \<noteq> 0 \<and> apart (d + pos) (unat sz) buf (unat sz)
     \<and> rng buf (unat sz) \<inter> rng (spBuf k) 64 = {}"

lemma in_bound: "unat pos + unat sz < 8192 \<Longrightarrow> \<not> 8192 \<le> pos + (sz :: u64)"
  by (simp add: word_le_nat_alt unat_add_no_wrap)

lemma vfsWrite_file:
  assumes f: "file_at k V kids ms path s t d" and io: "io_ok k d pos src sz"
  shows "\<exists>m. vfsWrite path pos src sz k = Some (Inr (sz, k\<lparr>mem := m\<rparr>))
    \<and> same_outside (rng (spBuf k) 64 \<union> rng (d + pos) (unat sz)) (mem k) m
    \<and> (\<forall>i < unat sz. m (d + pos + of_nat i) = mem k (src + of_nat i))"
proof -
  obtain m0 where m0: "vfsLookup path k = Some (Inr (fs_at k kids ms s, k\<lparr>mem := m0\<rparr>))"
      "same_outside (rng (spBuf k) 64) (mem k) m0" "file_at (k\<lparr>mem := m0\<rparr>) V kids ms path s t d"
      "fs_at (k\<lparr>mem := m0\<rparr>) kids ms s = fs_at k kids ms s"
    using path_lookup_file [OF f] by blast
  note D = file_atD [OF m0(3), unfolded m0(4)]
  have i: "sz \<noteq> 0" "unat pos + unat sz < 8192" "src \<noteq> 0" "apart (d + pos) (unat sz) src (unat sz)"
    "rng src (unat sz) \<inter> rng (spBuf k) 64 = {}" using io unfolding io_ok_def by blast+
  have "d + pos \<noteq> 0" using file_offset(1) [OF D(1)] i(2) by simp
  from copy_bytes [OF this i(3,1,4)] obtain m where m: "memcpy (d + pos) src sz m0 = Inr m"
    "same_outside (rng (d + pos) (unat sz)) m0 m" "\<forall>j < unat sz. m (d + pos + of_nat j) = m0 (src + of_nat j)" by blast
  have "vfsWrite path pos src sz k = Some (Inr (sz, k\<lparr>mem := m\<rparr>))"
    using m0(1) D(2-5) m(1) in_bound [OF i(2)] tmpfsReadWrite_file [OF D(1), of pos src sz True]
    by (simp add: vfsWrite_def callFn_def tmpfsWrite_def onMem_def)
  moreover have "same_outside (rng (spBuf k) 64 \<union> rng (d + pos) (unat sz)) (mem k) m"
    by (rule same_outside_trans [OF same_outside_mono [OF m0(2)] same_outside_mono [OF m(2)]]) auto
  moreover have "m0 (src + of_nat j) = mem k (src + of_nat j)" if "j < unat sz" for j
  proof (rule same_outsideD [OF m0(2)])
    have "unat (of_nat j :: u64) = j" using that unat_less_max [of sz] by (intro unat_of_nat64) simp
    then have "src + of_nat j \<in> rng src (unat sz)" using that by (simp add: in_rng)
    then show "src + of_nat j \<notin> rng (spBuf k) 64" using i(5) by blast
  qed
  ultimately show ?thesis using m(3) by auto
qed

lemma vfsRead_file:
  assumes f: "file_at k V kids ms path s t d" and io: "io_ok k d pos dst sz"
  shows "\<exists>m. vfsRead path pos dst sz k = Some (Inr (sz, k\<lparr>mem := m\<rparr>))
    \<and> same_outside (rng (spBuf k) 64 \<union> rng dst (unat sz)) (mem k) m
    \<and> (\<forall>i < unat sz. m (dst + of_nat i) = mem k (d + pos + of_nat i))"
proof -
  obtain m0 where m0: "vfsLookup path k = Some (Inr (fs_at k kids ms s, k\<lparr>mem := m0\<rparr>))"
      "same_outside (rng (spBuf k) 64) (mem k) m0" "file_at (k\<lparr>mem := m0\<rparr>) V kids ms path s t d"
      "fs_at (k\<lparr>mem := m0\<rparr>) kids ms s = fs_at k kids ms s"
    using path_lookup_file [OF f] by blast
  note D = file_atD [OF m0(3), unfolded m0(4)]
  have i: "sz \<noteq> 0" "unat pos + unat sz < 8192" "dst \<noteq> 0" "apart (d + pos) (unat sz) dst (unat sz)"
    using io unfolding io_ok_def by blast+
  have p: "d + pos \<noteq> 0" using file_offset(1) [OF D(1)] i(2) by simp
  from copy_bytes [OF i(3) p i(1) apart_sym [OF i(4)]] obtain m where m: "memcpy dst (d + pos) sz m0 = Inr m"
    "same_outside (rng dst (unat sz)) m0 m" "\<forall>j < unat sz. m (dst + of_nat j) = m0 (d + pos + of_nat j)" by blast
  have "vfsRead path pos dst sz k = Some (Inr (sz, k\<lparr>mem := m\<rparr>))"
    using m0(1) D(2,3,6,7) m(1) in_bound [OF i(2)] tmpfsReadWrite_file [OF D(1), of pos dst sz False]
    by (simp add: vfsRead_def callFn_def tmpfsRead_def onMem_def)
  moreover have "same_outside (rng (spBuf k) 64 \<union> rng dst (unat sz)) (mem k) m"
    by (rule same_outside_trans [OF same_outside_mono [OF m0(2)] same_outside_mono [OF m(2)]]) auto
  moreover have "m0 (d + pos + of_nat j) = mem k (d + pos + of_nat j)" if "j < unat sz" for j
  proof (rule same_outsideD [OF m0(2)])
    have "unat (of_nat j :: u64) = j" using that unat_less_max [of sz] by (intro unat_of_nat64) simp
    then have "d + pos + of_nat j \<in> rng (d + pos) (unat sz)" using that by (simp add: in_rng)
    moreover have "rng (d + pos) (unat sz) \<subseteq> rng d 8192" using i(2) by (intro rng_sub) simp
    ultimately show "d + pos + of_nat j \<notin> rng (spBuf k) 64" using D(10) by auto
  qed
  ultimately show ?thesis using m(3) by auto
qed

lemma file_byte:
  assumes "unat pos + unat sz < 8192" and "unat pos' + i < 8192"
  shows "d + pos' + of_nat i \<in> rng (d + pos) (unat sz) \<longleftrightarrow> unat pos \<le> unat pos' + i \<and> unat pos' + i < unat pos + unat sz"
    and "unat pos \<le> unat pos' + i \<Longrightarrow> d + pos' + of_nat i = d + pos + of_nat (unat pos' + i - unat pos)"
proof -
  let ?x = "of_nat (unat pos' + i) :: u64"
  have x: "unat ?x = unat pos' + i" using assms(2) by (intro unat_of_nat64) simp
  have e: "pos' + of_nat i = ?x" by simp
  have "unat (?x - pos) = (if unat pos \<le> unat pos' + i then unat pos' + i - unat pos else unat pos' + i + 2 ^ 64 - unat pos)"
    using unat_sub_if' [of ?x pos] x by (simp add: word_le_nat_alt)
  moreover have "d + pos' + of_nat i - (d + pos) = ?x - pos" unfolding e [symmetric] by (simp only: algebra_simps)
  ultimately have "unat (d + pos' + of_nat i - (d + pos))
      = (if unat pos \<le> unat pos' + i then unat pos' + i - unat pos else unat pos' + i + 2 ^ 64 - unat pos)" by metis
  then show "d + pos' + of_nat i \<in> rng (d + pos) (unat sz) \<longleftrightarrow> unat pos \<le> unat pos' + i \<and> unat pos' + i < unat pos + unat sz"
    unfolding in_rng using assms by (auto simp del: diff_add_eq_diff_diff_swap)
  show "d + pos' + of_nat i = d + pos + of_nat (unat pos' + i - unat pos)" if "unat pos \<le> unat pos' + i"
    using that by (simp add: of_nat_diff)
qed

lemma write_then_read:
  assumes "file_at k V kids ms path s t d" and "file_at k V kids ms path' s' t' d'"
    and "d' = d \<or> rng d 8192 \<inter> rng d' 8192 = {}" and "rng path' (Suc (length s')) \<inter> rng d 8192 = {}"
    and "io_ok k d pos src sz" and "io_ok k d' pos' dst sz'"
  shows "\<exists>m1 m2. vfsWrite path pos src sz k = Some (Inr (sz, k\<lparr>mem := m1\<rparr>))
    \<and> vfsRead path' pos' dst sz' (k\<lparr>mem := m1\<rparr>) = Some (Inr (sz', k\<lparr>mem := m2\<rparr>))
    \<and> (\<forall>i < unat sz'. m2 (dst + of_nat i) =
         (if d' = d \<and> unat pos \<le> unat pos' + i \<and> unat pos' + i < unat pos + unat sz
          then mem k (src + of_nat (unat pos' + i - unat pos)) else mem k (d' + pos' + of_nat i)))"
proof -
  let ?A = "rng (spBuf k) 64 \<union> rng (d + pos) (unat sz)"
  have p: "unat pos + unat sz < 8192" "unat pos' + unat sz' < 8192" using assms(5,6) unfolding io_ok_def by blast+
  obtain m1 where m1: "vfsWrite path pos src sz k = Some (Inr (sz, k\<lparr>mem := m1\<rparr>))" "same_outside ?A (mem k) m1"
      "\<forall>i < unat sz. m1 (d + pos + of_nat i) = mem k (src + of_nat i)"
    using vfsWrite_file [OF assms(1,5)] by blast
  have sub: "rng (d + pos) (unat sz) \<subseteq> rng d 8192" using p(1) by (intro rng_sub) simp
  have "fs_foot k V kids ms \<inter> ?A = {}" "rng path' (Suc (length s')) \<inter> ?A = {}"
    using file_atD(8,11) [OF assms(1)] file_atD(12) [OF assms(2)] assms(4) sub by blast+
  from file_at_frame(1) [OF assms(2) m1(2) this] have g: "file_at (k\<lparr>mem := m1\<rparr>) V kids ms path' s' t' d'" .
  have "io_ok (k\<lparr>mem := m1\<rparr>) d' pos' dst sz'" using assms(6) unfolding io_ok_def by simp
  from vfsRead_file [OF g this] obtain m2 where m2: "vfsRead path' pos' dst sz' (k\<lparr>mem := m1\<rparr>) = Some (Inr (sz', k\<lparr>mem := m2\<rparr>))"
      "\<forall>i < unat sz'. m2 (dst + of_nat i) = m1 (d' + pos' + of_nat i)" by auto
  have "m1 (d' + pos' + of_nat i) =
         (if d' = d \<and> unat pos \<le> unat pos' + i \<and> unat pos' + i < unat pos + unat sz
          then mem k (src + of_nat (unat pos' + i - unat pos)) else mem k (d' + pos' + of_nat i))" if i: "i < unat sz'" for i
  proof (cases "d' = d \<and> unat pos \<le> unat pos' + i \<and> unat pos' + i < unat pos + unat sz")
    case True
    then have "d' + pos' + of_nat i = d + pos + of_nat (unat pos' + i - unat pos)"
      using file_byte(2) [OF p(1), of pos' i d] p(2) i by simp
    moreover have "unat pos' + i - unat pos < unat sz" using True by linarith
    ultimately show ?thesis unfolding if_P [OF True] using m1(3) by presburger
  next
    case False
    have "d' + pos' + of_nat i \<in> rng (d' + pos') (unat sz')"
    proof -
      have "unat (of_nat i :: u64) = i" using i unat_less_max [of sz'] by (intro unat_of_nat64) simp
      then show ?thesis using i by (simp add: in_rng)
    qed
    moreover have "rng (d' + pos') (unat sz') \<subseteq> rng d' 8192" using p(2) by (intro rng_sub) simp
    ultimately have x: "d' + pos' + of_nat i \<in> rng d' 8192" by blast
    have "d' + pos' + of_nat i \<notin> rng (d + pos) (unat sz)"
    proof (cases "d' = d")
      case True
      then show ?thesis using False file_byte(1) [OF p(1), of pos' i d] p(2) i by simp
    next
      case d: False
      then show ?thesis using x sub assms(3) by blast
    qed
    then have "d' + pos' + of_nat i \<notin> ?A" using x file_atD(10) [OF assms(2)] by blast
    from same_outsideD [OF m1(2) this] show ?thesis unfolding if_not_P [OF False] .
  qed
  then have "\<forall>i < unat sz'. m2 (dst + of_nat i) =
         (if d' = d \<and> unat pos \<le> unat pos' + i \<and> unat pos' + i < unat pos + unat sz
          then mem k (src + of_nat (unat pos' + i - unat pos)) else mem k (d' + pos' + of_nat i))"
    using m2(2) by presburger
  with m1(1) m2(1) show ?thesis by blast
qed

subsection \<open>Properties\<close>

text \<open>C18: What is read from a path after a write to a path. The write and the read return the number of
  bytes asked for. When both paths lead to the same file, whatever the paths are, the
  bytes read are the file's with those of the write put over them; the bytes of a
  file are not changed by writes to another one.\<close>

theorem vfs_write_then_read:
  assumes "file_at k V kids ms path s t d" and "file_at k V kids ms path' s' t' d'"
    and "d' = d \<or> rng d 8192 \<inter> rng d' 8192 = {}" and "rng path' (Suc (length s')) \<inter> rng d 8192 = {}"
    and "io_ok k d pos src sz" and "io_ok k d' pos' dst sz'"
  shows "\<exists>m1 m2. vfsWrite path pos src sz k = Some (Inr (sz, k\<lparr>mem := m1\<rparr>))
    \<and> vfsRead path' pos' dst sz' (k\<lparr>mem := m1\<rparr>) = Some (Inr (sz', k\<lparr>mem := m2\<rparr>))
    \<and> (\<forall>i < unat sz'. m2 (dst + of_nat i) =
         (if d' = d \<and> unat pos \<le> unat pos' + i \<and> unat pos' + i < unat pos + unat sz
          then mem k (src + of_nat (unat pos' + i - unat pos)) else mem k (d' + pos' + of_nat i)))"
  using assms by (rule write_then_read)

text \<open>
  The tree of \<open>demoVfs\<close>, whose file \<open>"/ab"\<close> at \<open>0x5000\<close> now has the handler of its directory, a tmpfs node
  at \<open>0x6000\<close> and its data at \<open>0x20000\<close>.
\<close>

definition demoPathMem :: mem where
  "demoPathMem = store64 (store64 (store64 (store64 (store64 demoMounts 0x5010 0x6000) 0x5018 0x500) 0x510 0x700) 0x508 0x700) 0x6050 0x20000"

definition demoPath :: fs_state where
  "demoPath = demoVfs\<lparr>mem := demoPathMem\<rparr>"

lemma demoPath_fields [simp]: "mem demoPath = demoPathMem" "root demoPath = 0x9000" "mnts demoPath = 0x100"
  "code demoPath f = 0x700" "spBuf demoPath = 0x800"
  by (simp_all add: demoPath_def)

lemma demo_path_words:
  "nodeOps demoPathMem 0x1000 = 0x500" "opLookup demoPathMem 0x500 = 0x700" "fsData demoPathMem 0x1000 = 0x2000"
  "tmpNode demoPathMem 0x3000 = 0x5000" "mountpoint demoPathMem 0xa000 = 0x9000" "mntRoot demoPathMem 0xa000 = 0x1000"
  "nodeOps demoPathMem 0x5000 = 0x500" "fsData demoPathMem 0x5000 = 0x6000" "tmpData demoPathMem 0x6000 = 0x20000"
  "opWrite demoPathMem 0x500 = 0x700" "opRead demoPathMem 0x500 = 0x700"
  by (simp_all add: nodeOps_def opLookup_def fsData_def tmpNode_def mountpoint_def mntRoot_def tmpData_def opWrite_def
      opRead_def demoPathMem_def demoMounts_def demoDir_def mem_simps)

lemma demo_path_types: "nodeType demoPathMem 0x1000 = 0" "nodeType demoPathMem 0x5000 = TYPE_FILE"
  by (simp_all add: nodeType_def load32_load64 TYPE_FILE_def demoPathMem_def demoMounts_def demoDir_def mem_simps)

lemma demo_path_lists: "dir_rep demoPathMem 0x2000 [(0x3000, [0x61, 0x62])]"
  "llist demoPathMem 0x100 (map mntHead [0xa000])" "cstr demoPathMem 0x7000 [0x2f, 0x61, 0x62]"
  by (simp_all add: dir_rep_def llist_def llNext_def llPrev_def children_def childHead_def mntHead_def
      demoPathMem_def demoMounts_def demoDir_def mem_simps apart_def)

lemma demo_path_tree: "fs_rep demoPath {0x1000, 0x5000} demoKids [0xa000]"
  using demo_path_words demo_path_types demo_path_lists
  by (simp add: fs_rep_def node_ok_def demoKids_def)

lemma demo_path_foot:
  assumes "\<forall>(a, n) \<in> {(0x1000, 48), (0x500, 56), (0x2000, 88), (0x3000, 88), (0x5000, 48), (0x6000, 88), (0x100, 16), (0xa000, 216)}.
    apart a n b k"
  shows "fs_foot demoPath {0x1000, 0x5000} demoKids [0xa000] \<inter> rng b k = {}"
proof -
  have "rng a n \<inter> rng b k = {}"
    if "(a, n) \<in> {(0x1000, 48), (0x500, 56), (0x2000, 88), (0x3000, 88), (0x5000, 48), (0x6000, 88), (0x100, 16), (0xa000, 216)}" for a n
    using assms that by (intro apart_disjoint) blast
  then show ?thesis
    by (simp add: fs_foot_def node_foot_def demo_path_words demoKids_def Int_Un_distrib2)
qed

lemma demo_file_at: "file_at demoPath {0x1000, 0x5000} demoKids [0xa000] 0x7000 [0x2f, 0x61, 0x62] 0x6000 0x20000"
proof -
  have f: "fs_foot demoPath {0x1000, 0x5000} demoKids [0xa000] \<inter> rng 0x800 64 = {}"
    "fs_foot demoPath {0x1000, 0x5000} demoKids [0xa000] \<inter> rng 0x20000 8192 = {}"
    by (rule demo_path_foot, simp add: apart_def)+
  have d: "rng 0x7000 (Suc (length [0x2f, 0x61, 0x62 :: u8])) \<inter> rng 0x800 64 = {}"
    "rng 0x7000 (Suc (length [0x2f, 0x61, 0x62 :: u8])) \<inter> rng 0x20000 8192 = {}" "rng 0x800 64 \<inter> rng 0x20000 8192 = {}"
    by (rule apart_disjoint, simp add: apart_def)+
  have start: "fs_through demoPathMem [0xa000] 0x9000 = 0x1000" by (simp add: fs_through_def demo_path_words)
  have at: "fs_at demoPath demoKids [0xa000] [0x2f, 0x61, 0x62] = 0x5000"
    unfolding fs_at_def
    by (simp add: start) (simp add: fs_step_def fs_through_def dir_find_def demoKids_def demo_path_words demo_path_types TYPE_FILE_def)
  have "path_ok demoPath {0x1000, 0x5000} demoKids [0xa000] 0x7000 [0x2f, 0x61, 0x62]"
    unfolding path_ok_def using demo_path_tree f(1) d(1) start demo_path_lists(3) by simp
  moreover have "file_rep demoPathMem 0x5000 0x6000 0x20000" by (simp add: file_rep_def demo_path_types demo_path_words)
  ultimately show ?thesis
    unfolding file_at_def Let_def at using f(2) d(2,3) demo_path_words by (auto simp: Int_Un_distrib2)
qed

theorem vfs_write_then_read_witness:
  "\<exists>m1 m2. vfsWrite 0x7000 1 0x9100 2 demoPath = Some (Inr (2, demoPath\<lparr>mem := m1\<rparr>))
     \<and> vfsRead 0x7000 0 0x9200 4 (demoPath\<lparr>mem := m1\<rparr>) = Some (Inr (4, demoPath\<lparr>mem := m2\<rparr>))
     \<and> m2 0x9200 = demoPathMem 0x20000 \<and> m2 0x9201 = demoPathMem 0x9100"
proof -
  have "rng 0x9100 2 \<inter> rng 0x800 64 = {}" "rng 0x9200 4 \<inter> rng 0x800 64 = {}" by (rule apart_disjoint, simp add: apart_def)+
  then have "io_ok demoPath 0x20000 1 0x9100 2" "io_ok demoPath 0x20000 0 0x9200 4" by (simp_all add: io_ok_def apart_def)
  from vfs_write_then_read [OF demo_file_at demo_file_at _ file_atD(9) [OF demo_file_at] this]
  obtain m1 m2 where m: "vfsWrite 0x7000 1 0x9100 2 demoPath = Some (Inr (2, demoPath\<lparr>mem := m1\<rparr>))"
    "vfsRead 0x7000 0 0x9200 4 (demoPath\<lparr>mem := m1\<rparr>) = Some (Inr (4, demoPath\<lparr>mem := m2\<rparr>))"
    "\<forall>i < 4. m2 (0x9200 + of_nat i) = (if 1 \<le> i \<and> i < 3 then demoPathMem (0x9100 + of_nat (i - 1)) else demoPathMem (0x20000 + of_nat i))"
    by auto
  have "m2 0x9200 = demoPathMem 0x20000" "m2 0x9201 = demoPathMem 0x9100"
    using m(3) [THEN spec, of 0] m(3) [THEN spec, of 1] by simp_all
  with m show ?thesis by blast
qed

end
