(* ===== verification/FsHeap.thy ===== *)
theory FsHeap
  imports Tmpfs
begin

section \<open>New nodes: the file system and its allocators together\<close>

text \<open>
  A new entry of a directory takes an object from each of two slab caches, pages from the page
  allocator, and is linked into two lists. \<open>fs_heap k U\<close> says that both caches are well-formed
  and apart, and that the bytes of \<open>U\<close> (everything the file system has in use) are free for
  neither the caches nor the page allocator. The lemmas follow the code: what comes from an
  allocator is apart from \<open>U\<close> and becomes part of it, and \<open>U\<close> keeps its contents.
\<close>

subsection \<open>Two caches and the memory in use\<close>

definition two_caches ::
    "'a pmm_state_scheme \<Rightarrow> u64 \<Rightarrow> nat \<Rightarrow> u64 \<Rightarrow> nat \<Rightarrow> u64 set \<Rightarrow> bool" where
  "two_caches k c os d ot U \<longleftrightarrow> (\<exists>n v n' v'. slab_ready k c os n v \<and> slab_ready k d ot n' v'
     \<and> slabOwn c os n v \<inter> slabOwn d ot n' v' = {}
     \<and> held k U \<and> U \<inter> slabOwn c os n v = {} \<and> U \<inter> slabOwn d ot n' v' = {})"

definition fs_heap :: "'a fs_state_scheme \<Rightarrow> u64 set \<Rightarrow> bool" where
  "fs_heap k U \<longleftrightarrow> two_caches k (nodeCache k) 56 (tmpfsNodeCache k) 96 U"

lemma two_caches_swap: "two_caches k c os d ot U = two_caches k d ot c os U"
  unfolding two_caches_def by (auto simp: Int_commute)

lemma two_cachesI:
  assumes "slab_ready k c os n v" and "slab_ready k d ot n' v'" and "slabOwn c os n v \<inter> slabOwn d ot n' v' = {}"
    and "held k U" and "U \<inter> slabOwn c os n v = {}" and "U \<inter> slabOwn d ot n' v' = {}"
    and "held k R" and "R \<inter> slabOwn c os n v = {}" and "R \<inter> slabOwn d ot n' v' = {}"
  shows "two_caches k c os d ot (U \<union> R)"
proof -
  have "(U \<union> R) \<inter> slabOwn c os n v = {}" "(U \<union> R) \<inter> slabOwn d ot n' v' = {}"
    unfolding Int_Un_distrib2 using assms(5,6,8,9) by simp_all
  then show ?thesis unfolding two_caches_def using assms(1-3) held_Un [OF assms(4,7)] by meson
qed

lemma slab_readyD:
  assumes "slab_ready k c os n v"
  shows "pmm_inv k" and "window_ok k" and "held k (slabPages c v)" and "held k (slabOwn c os n v)"
proof -
  have i: "slab_rep (mem k) c os n v" "pmm_inv k" "window_ok k" "held k (slabPages c v)"
    using assms by (simp_all add: slab_ready_def slab_inv_def)
  then show "pmm_inv k" "window_ok k" "held k (slabPages c v)" by simp_all
  show "held k (slabOwn c os n v)" by (rule held_subset [OF i(4) slabOwn_pages [OF i(1)]])
qed

text \<open>A cache stays ready in any later state that keeps its bytes and takes no memory in use.\<close>

lemma slab_ready_held:
  assumes rdy: "slab_ready k c os n v" and inv: "pmm_inv k'" "window_ok k'"
    and h: "held k' (slabPages c v)" and own: "\<forall>x \<in> slabOwn c os n v. mem k' x = mem k x"
  shows "slab_ready k' c os n v"
proof -
  have i: "slab_rep (mem k) c os n v" "mem k (c + 136) = 0"
    using rdy by (simp_all add: slab_ready_def slab_inv_def)
  have "same_outside (- slabOwn c os n v) (mem k) (mem k')" using own by (simp add: same_outside_def)
  from slab_rep_own [OF i(1) this] have "slab_rep (mem k') c os n v" by simp
  moreover have "c + 136 \<in> slabOwn c os n v" by (simp add: in_rng slabOwn_def)
  then have "mem k' (c + 136) = 0" using own i(2) by simp
  ultimately show ?thesis using inv h by (simp add: slab_ready_def slab_inv_def)
qed

lemma slab_ready_keep:
  assumes "slab_ready k c os n v" and "pmm_inv k'" "window_ok k'"
    and "\<And>A. held k A \<Longrightarrow> held k' A" and "\<forall>x \<in> slabOwn c os n v. mem k' x = mem k x"
  shows "slab_ready k' c os n v"
  by (rule slab_ready_held [OF assms(1-3) assms(4) [OF slab_readyD(3) [OF assms(1)]] assms(5)])

text \<open>\<open>spends j k m\<close>: a run of free pages of \<open>k\<close> is, with memory \<open>m\<close>, at most \<open>j\<close> pages shorter.\<close>

definition spends :: "nat \<Rightarrow> 'a pmm_state_scheme \<Rightarrow> mem \<Rightarrow> bool" where
  "spends j k m \<longleftrightarrow> (\<forall>i. has_run k (i + j) \<longrightarrow> has_run (k\<lparr>mem := m\<rparr>) i)"

lemma spends_trans: "spends i k m \<Longrightarrow> spends j (k\<lparr>mem := m\<rparr>) m' \<Longrightarrow> spends (i + j) k m'"
  unfolding spends_def by (simp add: add.assoc [symmetric] add.commute [of i])

lemma spends_run: "spends j k m \<Longrightarrow> \<not> has_run (k\<lparr>mem := m\<rparr>) i \<Longrightarrow> \<not> has_run k (i + j)"
  unfolding spends_def by blast

definition fresh_object ::
    "nat \<Rightarrow> 'a pmm_state_scheme \<Rightarrow> u64 set \<Rightarrow> u64 \<Rightarrow> mem \<Rightarrow> bool" where
  "fresh_object len k U r m \<longleftrightarrow> U \<inter> rng r len = {} \<and> r \<noteq> 0 \<and> unat r + len \<le> 2 ^ 64 \<and> (\<forall>x \<in> U. m x = mem k x)"

lemma two_caches_alloc:
  assumes "two_caches k c os d ot U"
  shows "slabAlloc c k = Some (Inl (PanicMsg ''OUT OF MEMORY'')) \<and> \<not> has_run k 1
    \<or> (\<exists>r m. slabAlloc c k = Some (Inr (r, k\<lparr>mem := m\<rparr>)) \<and> fresh_object (os - 8) k U r m \<and> spends 1 k m
         \<and> two_caches (k\<lparr>mem := m\<rparr>) c os d ot (U \<union> obj_rng os r))"
proof -
  from assms obtain n v n' v' where c: "slab_ready k c os n v" and d: "slab_ready k d ot n' v'"
    and apart: "slabOwn c os n v \<inter> slabOwn d ot n' v' = {}"
    and U: "held k U" "U \<inter> slabOwn c os n v = {}" "U \<inter> slabOwn d ot n' v' = {}"
    by (auto simp: two_caches_def)
  show ?thesis
  proof (cases "vCur v = None \<and> \<not> (\<exists>p < pgCount k. \<not> pgUsed k p)")
    case True
    then show ?thesis using slabAlloc_total [OF c] has_run_one [of k] by simp
  next
    case False
    then obtain r k' w where run: "slabAlloc c k = Some (Inr (r, k'))" and post: "slab_alloc_post k c os n v r k' w"
      using slabAlloc_total [OF c] unfolding if_not_P [OF False] by blast
    have rdy: "slab_ready k' c os n w" and eq: "k' = k\<lparr>mem := mem k'\<rparr>" and r: "r \<noteq> 0" "unat r + (os - 8) \<le> 2 ^ 64"
      and obj: "held k' (obj_rng os r)" "obj_rng os r \<inter> slabOwn c os n w = {}" and keep: "\<And>A. held k A \<Longrightarrow> held k' A"
      and runs: "\<And>i. has_run k (Suc i) \<Longrightarrow> has_run k' i"
      using post by (auto simp: slab_alloc_post_def)
    have other: "A \<inter> slabOwn c os n w = {} \<and> A \<inter> obj_rng os r = {} \<and> (\<forall>x \<in> A. mem k' x = mem k x)"
      if "held k A" "A \<inter> slabOwn c os n v = {}" for A
      using slab_alloc_postD(3) [OF post that] .
    note dk = other [OF slab_readyD(4) [OF d]]
    have od: "slabOwn d ot n' v' \<inter> slabOwn c os n w = {}" "slabOwn d ot n' v' \<inter> obj_rng os r = {}"
      "\<forall>x \<in> slabOwn d ot n' v'. mem k' x = mem k x"
      using dk apart by blast+
    have oU: "U \<inter> slabOwn c os n w = {}" "U \<inter> obj_rng os r = {}" "\<forall>x \<in> U. mem k' x = mem k x"
      using other [OF U(1,2)] by blast+
    have dr: "slab_ready k' d ot n' v'"
      using slab_ready_keep [OF d slab_readyD(1,2) [OF rdy] keep od(3)] .
    have tc: "two_caches k' c os d ot (U \<union> obj_rng os r)"
      by (rule two_cachesI [OF rdy dr _ keep [OF U(1)] oU(1) U(3) obj]) (use od in blast)+
    have fr: "fresh_object (os - 8) k U r (mem k')" using oU r by (simp add: fresh_object_def)
    have "slabAlloc c k = Some (Inr (r, k\<lparr>mem := mem k'\<rparr>)) \<and> two_caches (k\<lparr>mem := mem k'\<rparr>) c os d ot (U \<union> obj_rng os r)"
      using run tc unfolding eq [symmetric] by simp
    moreover have "spends 1 k (mem k')" using runs unfolding spends_def eq [symmetric] by simp
    ultimately show ?thesis using fr by blast
  qed
qed

lemma two_caches_write:
  assumes "two_caches k c os d ot U" and "same_outside A (mem k) m" and "A \<subseteq> U"
  shows "two_caches (k\<lparr>mem := m\<rparr>) c os d ot U"
proof -
  from assms(1) obtain n v n' v' where c: "slab_ready k c os n v" and d: "slab_ready k d ot n' v'"
    and apart: "slabOwn c os n v \<inter> slabOwn d ot n' v' = {}"
    and U: "held k U" "U \<inter> slabOwn c os n v = {}" "U \<inter> slabOwn d ot n' v' = {}"
    by (auto simp: two_caches_def)
  have hA: "held k A" "A \<inter> slabOwn c os n v = {}" "A \<inter> slabOwn d ot n' v' = {}"
    using U assms(3) held_subset by blast+
  have "slab_ready (k\<lparr>mem := m\<rparr>) c os n v" "slab_ready (k\<lparr>mem := m\<rparr>) d ot n' v'"
    using slab_ready_write [OF c hA(1,2) assms(2)] slab_ready_write [OF d hA(1,3) assms(2)] by simp_all
  moreover have "held (k\<lparr>mem := m\<rparr>) U" by (rule held_write(2) [OF slab_readyD(1) [OF c] hA(1) assms(2) U(1)])
  ultimately show ?thesis using apart U unfolding two_caches_def by blast
qed

lemma two_caches_pages:
  assumes tc: "two_caches k c os d ot U" and pg: "pg \<noteq> 0"
  shows "vmmAlloc pg k = Inl (PanicMsg ''OUT OF MEMORY'') \<and> \<not> has_run k (unat pg)
    \<or> (\<exists>r m. vmmAlloc pg k = Inr (r, k\<lparr>mem := m\<rparr>) \<and> fresh_object (unat pg * 4096) k U r m
         \<and> two_caches (k\<lparr>mem := m\<rparr>) c os d ot (U \<union> rng r (unat pg * 4096)))"
proof -
  from tc obtain n v n' v' where c: "slab_ready k c os n v" and d: "slab_ready k d ot n' v'"
    and apart: "slabOwn c os n v \<inter> slabOwn d ot n' v' = {}"
    and U: "held k U" "U \<inter> slabOwn c os n v = {}" "U \<inter> slabOwn d ot n' v' = {}"
    by (auto simp: two_caches_def)
  note inv = slab_readyD(1,2) [OF c]
  show ?thesis
  proof (cases "vmmAlloc pg k")
    case (Inl e)
    then have "pmmAlloc pg k = Inl e" by (auto simp: vmmAlloc_def bnd_eq_Inl)
    then have "e = PanicMsg ''OUT OF MEMORY'' \<and> \<not> has_run k (unat pg)"
      using pmmAlloc_succeeds [OF inv(1) pg] pmmAlloc_oom [OF inv(1) pg] unfolding has_run_def
      by (metis Inl_Inr_False sum.inject(1))
    then show ?thesis using Inl by simp
  next
    case (Inr p)
    then obtain r k' where al: "vmmAlloc pg k = Inr (r, k')" by (cases p) auto
    note v = vmmAlloc_pages [OF inv al]
    have same: "\<forall>x \<in> A. mem k' x = mem k x" if "held k A" for A
      using that same_outsideD [OF v(4)] unfolding held_def by blast
    have keep: "\<And>A. held k A \<Longrightarrow> held k' A" using v(8) by blast
    note rdy = slab_ready_keep [OF c v(1,2) keep same [OF slab_readyD(4) [OF c]]]
      slab_ready_keep [OF d v(1,2) keep same [OF slab_readyD(4) [OF d]]]
    have off: "slabOwn c os n v \<inter> rng r (unat pg * 4096) = {}" "slabOwn d ot n' v' \<inter> rng r (unat pg * 4096) = {}"
      "U \<inter> rng r (unat pg * 4096) = {}"
      using v(8) [OF slab_readyD(4) [OF c]] v(8) [OF slab_readyD(4) [OF d]] v(8) [OF U(1)] by simp_all
    have tc: "two_caches k' c os d ot (U \<union> rng r (unat pg * 4096))"
      by (rule two_cachesI [OF rdy apart keep [OF U(1)] U(2,3) v(5)]) (use off in blast)+
    have "vmmAlloc pg k = Inr (r, k\<lparr>mem := mem k'\<rparr>) \<and> two_caches (k\<lparr>mem := mem k'\<rparr>) c os d ot (U \<union> rng r (unat pg * 4096))"
      using al tc unfolding v(3) [symmetric] by simp
    then show ?thesis using off(3) v(6,7) same [OF U(1)] unfolding fresh_object_def by blast
  qed
qed

subsection \<open>A node of the file system\<close>

lemma fs_heap_alloc:
  assumes "fs_heap k U"
  shows "slabAlloc (nodeCache k) k = Some (Inl (PanicMsg ''OUT OF MEMORY'')) \<and> \<not> has_run k 1
    \<or> (\<exists>r m. slabAlloc (nodeCache k) k = Some (Inr (r, k\<lparr>mem := m\<rparr>)) \<and> fresh_object 48 k U r m \<and> spends 1 k m
         \<and> fs_heap (k\<lparr>mem := m\<rparr>) (U \<union> rng r 48))"
    and "slabAlloc (tmpfsNodeCache k) k = Some (Inl (PanicMsg ''OUT OF MEMORY'')) \<and> \<not> has_run k 1
    \<or> (\<exists>r m. slabAlloc (tmpfsNodeCache k) k = Some (Inr (r, k\<lparr>mem := m\<rparr>)) \<and> fresh_object 88 k U r m \<and> spends 1 k m
         \<and> fs_heap (k\<lparr>mem := m\<rparr>) (U \<union> rng r 88))"
    and "vmmAlloc FILE_SIZE_PAGES k = Inl (PanicMsg ''OUT OF MEMORY'') \<and> \<not> has_run k 2
    \<or> (\<exists>r m. vmmAlloc FILE_SIZE_PAGES k = Inr (r, k\<lparr>mem := m\<rparr>) \<and> fresh_object 8192 k U r m
         \<and> fs_heap (k\<lparr>mem := m\<rparr>) (U \<union> rng r 8192))"
proof -
  note tc = assms [unfolded fs_heap_def]
  show "slabAlloc (nodeCache k) k = Some (Inl (PanicMsg ''OUT OF MEMORY'')) \<and> \<not> has_run k 1
    \<or> (\<exists>r m. slabAlloc (nodeCache k) k = Some (Inr (r, k\<lparr>mem := m\<rparr>)) \<and> fresh_object 48 k U r m \<and> spends 1 k m
         \<and> fs_heap (k\<lparr>mem := m\<rparr>) (U \<union> rng r 48))"
    using two_caches_alloc [OF tc] by (simp add: fs_heap_def)
  show "slabAlloc (tmpfsNodeCache k) k = Some (Inl (PanicMsg ''OUT OF MEMORY'')) \<and> \<not> has_run k 1
    \<or> (\<exists>r m. slabAlloc (tmpfsNodeCache k) k = Some (Inr (r, k\<lparr>mem := m\<rparr>)) \<and> fresh_object 88 k U r m \<and> spends 1 k m
         \<and> fs_heap (k\<lparr>mem := m\<rparr>) (U \<union> rng r 88))"
    using two_caches_alloc [OF two_caches_swap [THEN iffD1, OF tc]]
    by (simp add: fs_heap_def two_caches_swap [of _ "nodeCache k"])
  have "unat FILE_SIZE_PAGES * 4096 = 8192" "FILE_SIZE_PAGES \<noteq> 0" "unat FILE_SIZE_PAGES = 2" by (simp_all add: FILE_SIZE_PAGES_def)
  then show "vmmAlloc FILE_SIZE_PAGES k = Inl (PanicMsg ''OUT OF MEMORY'') \<and> \<not> has_run k 2
    \<or> (\<exists>r m. vmmAlloc FILE_SIZE_PAGES k = Inr (r, k\<lparr>mem := m\<rparr>) \<and> fresh_object 8192 k U r m
         \<and> fs_heap (k\<lparr>mem := m\<rparr>) (U \<union> rng r 8192))"
    using two_caches_pages [OF tc, of FILE_SIZE_PAGES] by (simp add: fs_heap_def)
qed

lemma fs_heap_write:
  "fs_heap (k\<lparr>mem := m\<rparr>) U \<Longrightarrow> same_outside U m m' \<Longrightarrow> fs_heap (k\<lparr>mem := m'\<rparr>) U"
  using two_caches_write [of "k\<lparr>mem := m\<rparr>" "nodeCache k" 56 "tmpfsNodeCache k" 96 U U m'] by (simp add: fs_heap_def)

lemma fs_heap_runs:
  assumes "fs_heap (k\<lparr>mem := m\<rparr>) U" and "same_outside U m m'"
  shows "has_run (k\<lparr>mem := m'\<rparr>) i = has_run (k\<lparr>mem := m\<rparr>) i"
proof -
  obtain n v where h: "slab_ready (k\<lparr>mem := m\<rparr>) (nodeCache k) 56 n v" "held (k\<lparr>mem := m\<rparr>) U"
    using assms(1) unfolding fs_heap_def two_caches_def by auto
  have "same_outside U (mem (k\<lparr>mem := m\<rparr>)) m'" using assms(2) by simp
  from has_run_write [OF slab_readyD(1) [OF h(1)] h(2) this] show ?thesis by simp
qed

lemma spends_write: "spends j k m \<Longrightarrow> fs_heap (k\<lparr>mem := m\<rparr>) U \<Longrightarrow> same_outside U m m' \<Longrightarrow> spends j k m'"
  unfolding spends_def using fs_heap_runs by blast

lemma fresh_objectD:
  assumes "fresh_object len k U r m"
  shows "U \<inter> rng r len = {}" and "r \<noteq> 0" and "unat r + len \<le> 2 ^ 64" and "same_outside (- U) (mem k) m"
    and "unat i + n \<le> len \<Longrightarrow> rng (r + i) n \<subseteq> rng r len"
    and "unat i + n \<le> len \<Longrightarrow> rng (r + i) n \<inter> U = {}" and "unat i < len \<Longrightarrow> r + i \<noteq> 0"
proof -
  show a: "U \<inter> rng r len = {}" "r \<noteq> 0" "unat r + len \<le> 2 ^ 64" "same_outside (- U) (mem k) m"
    using assms by (simp_all add: fresh_object_def same_outside_def)
  show "rng (r + i) n \<subseteq> rng r len" if "unat i + n \<le> len" using rng_sub [OF that] .
  then show "rng (r + i) n \<inter> U = {}" if "unat i + n \<le> len" using that a(1) by blast
  show "r + i \<noteq> 0" if "unat i < len"
  proof -
    have "unat (r + i) = unat r + unat i" using that a(3) by (intro unat_add_no_wrap) linarith
    moreover have "unat r \<noteq> 0" using a(2) by (simp add: unat_eq_0)
    ultimately show ?thesis by (auto simp: unat_eq_0 [symmetric])
  qed
qed

lemma hd_in: "hd (ns @ [h]) \<in> set (h # ns)"
  by (cases ns) simp_all

text \<open>What changes in the list of a mount when a node is added: its head and its first node.\<close>

definition link_ends :: "u64 \<Rightarrow> u64 list \<Rightarrow> u64 set" where
  "link_ends h ns = node_rng h \<union> node_rng (hd (ns @ [h]))"

lemma vfsAllocNode_ok:
  assumes heap: "fs_heap k U" and mnt: "mnt \<noteq> 0" and l: "llist (mem k) (mntNodes mnt) ns"
    and lU0: "\<forall>x \<in> set (mntNodes mnt # ns). node_rng x \<subseteq> U"
  shows "vfsAllocNode mnt k = Some (Inl (PanicMsg ''OUT OF MEMORY'')) \<and> \<not> has_run k 1
    \<or> (\<exists>r m0 m. vfsAllocNode mnt k = Some (Inr (r, k\<lparr>mem := m\<rparr>)) \<and> fresh_object 48 k U r m0 \<and> spends 1 k m
         \<and> fs_heap (k\<lparr>mem := m\<rparr>) (U \<union> rng r 48) \<and> nodeMnt m r = mnt
         \<and> llist m (mntNodes mnt) (nodeHead r # ns) \<and> (\<forall>x \<in> U - link_ends (mntNodes mnt) ns. m x = mem k x))"
  using fs_heap_alloc(1) [OF heap]
proof (elim disjE exE conjE)
  fix r m1 assume r: "slabAlloc (nodeCache k) k = Some (Inr (r, k\<lparr>mem := m1\<rparr>))"
    and fr: "fresh_object 48 k U r m1" and sp: "spends 1 k m1" and h1: "fs_heap (k\<lparr>mem := m1\<rparr>) (U \<union> rng r 48)"
  note f = fresh_objectD [OF fr] and lU = bspec [OF lU0]
  define m2 where "m2 = store64 m1 (r + 8) mnt"
  have nh: "nodeHead r = r + 32" by (simp add: nodeHead_def)
  obtain m3 where m3: "llInitHead (nodeHead r) m2 = Inr m3" "same_outside (node_rng (r + 32)) m2 m3"
    using llInitHead_list [of "nodeHead r" m2] f(7) [of 32] by (auto simp: nh)
  have s2: "same_outside (rng (r + 8) 8) m1 m2" unfolding m2_def by (rule store_same_outside)
  have in48: "rng (r + 8) 8 \<subseteq> rng r 48" "node_rng (r + 32) \<subseteq> rng r 48" by (rule f(5), simp)+
  have s13: "same_outside (rng r 48) m1 m3"
    using same_outside_trans [OF same_outside_mono [OF s2 in48(1)] same_outside_mono [OF m3(2) in48(2)]] .
  have s03: "same_outside (- U) (mem k) m3"
    by (rule same_outside_trans [OF f(4) same_outside_mono [OF s13]]) (use f(1) in blast)
  have off: "node_rng (r + 32) \<inter> node_rng x = {}" if "x \<in> set (mntNodes mnt # ns)" for x
    using lU [OF that] in48(2) f(1) by blast
  have l3: "llist m3 (mntNodes mnt) ns"
    by (rule llist_frame [OF l s03]) (use lU in blast)
  obtain m4 where m4: "llInsertFront (mntNodes mnt) (nodeHead r) m3 = Inr m4" "llist m4 (mntNodes mnt) (nodeHead r # ns)"
    "same_outside (node_rng (nodeHead r) \<union> node_rng (mntNodes mnt) \<union> node_rng (hd (ns @ [mntNodes mnt]))) m3 m4"
    using llInsertFront_list [OF l3, of "nodeHead r"] f(7) [of 32] node_range_napart [OF off] by (auto simp: nh)
  have s34: "same_outside (node_rng (r + 32) \<union> link_ends (mntNodes mnt) ns) m3 m4"
    using m4(3) by (simp add: nh link_ends_def Un_assoc)
  have lends: "link_ends (mntNodes mnt) ns \<subseteq> U"
    using lU [of "mntNodes mnt"] lU [OF hd_in] by (simp add: link_ends_def)
  have run: "vfsAllocNode mnt k = Some (Inr (r, k\<lparr>mem := m4\<rparr>))"
    using r f(2) m3(1) m4(1) mnt by (simp add: vfsAllocNode_def put64_def onMem_def m2_def)
  have "same_outside (U \<union> rng r 48) m1 m4"
    by (rule same_outside_trans [OF same_outside_mono [OF s13] same_outside_mono [OF s34]])
      (use in48 lends in blast)+
  from fs_heap_write [OF h1 this] spends_write [OF sp h1 this]
  have h4: "fs_heap (k\<lparr>mem := m4\<rparr>) (U \<union> rng r 48)" "spends 1 k m4" .
  have "rng (r + 8) 8 \<inter> node_rng (r + 32) = {}" using rng_disjoint_base [of 8 8 32 16 r] by simp
  moreover have "rng (r + 8) 8 \<inter> link_ends (mntNodes mnt) ns = {}" using in48(1) lends f(1) by blast
  ultimately have "load64 m4 (r + 8) = load64 m2 (r + 8)"
    using load_same_outside [OF m3(2), of "r + 8" 8] load_same_outside [OF s34, of "r + 8" 8] by (simp add: Int_Un_distrib)
  then have nm: "nodeMnt m4 r = mnt" by (simp add: nodeMnt_def m2_def)
  have "m4 x = mem k x" if "x \<in> U - link_ends (mntNodes mnt) ns" for x
  proof -
    have "x \<notin> node_rng (r + 32) \<union> link_ends (mntNodes mnt) ns" using that in48(2) f(1) by blast
    then have "m4 x = m3 x" by (rule same_outsideD [OF s34])
    also have "\<dots> = mem k x" using that by (intro same_outsideD [OF s03]) simp
    finally show ?thesis .
  qed
  then show ?thesis using run fr h4 nm m4(2) by blast
qed (simp add: vfsAllocNode_def)

subsection \<open>A node of the memory file system\<close>

text \<open>
  The two steps of \<open>tmpfsAllocNode\<close> between its allocations: the pages of a file, and filling the
  new \<open>TmpfsNode\<close>.
\<close>

definition tmpfsPages :: "u32 \<Rightarrow> u64 \<Rightarrow> 'a fs_state_scheme \<Rightarrow> 'a fs_state_scheme ores" where
  "tmpfsPages type t k =
     (if type = TYPE_FILE
      then bndO (Some (vmmAlloc FILE_SIZE_PAGES k)) (\<lambda>(d, k).
           bndO (put64 t 80 d k) (\<lambda>k. onMem (memset (tmpData (mem k) t) 0 (FILE_SIZE_PAGES * PAGE_SIZE)) k))
      else Some (Inr k))"

definition tmpfsFill :: "u64 \<Rightarrow> u64 \<Rightarrow> u32 \<Rightarrow> u64 \<Rightarrow> 'a fs_state_scheme \<Rightarrow> 'a fs_state_scheme ores" where
  "tmpfsFill node name type t k =
     bndO (onMem (strncpy (tmpName t) name 32) k) (\<lambda>k.
     bndO (tmpfsPages type t k) (\<lambda>k.
     bndO (put64 t 40 node k) (\<lambda>k.
     bndO (onMem (llInitHead (children t)) k) (\<lambda>k. onMem (llInitHead (childHead t)) k))))"

lemma tmpfsAllocNode_steps:
  "tmpfsAllocNode mnt name type k =
     bndO (vfsAllocNode mnt k) (\<lambda>(node, k).
     bndO (put64 node 24 (tmpfsHandler k) k) (\<lambda>k.
     bndO (put32 node 0 type k) (\<lambda>k.
     bndO (slabAlloc (tmpfsNodeCache k) k) (\<lambda>(t, k).
     bndO (tmpfsFill node name type t k) (\<lambda>k.
     bndO (put64 node 16 t k) (\<lambda>k. Some (Inr (node, k))))))))"
  by (simp add: tmpfsAllocNode_def tmpfsFill_def tmpfsPages_def bndO_assoc)

text \<open>How many of the pages a new node needs are its data.\<close>

definition dataPages :: "u32 \<Rightarrow> nat" where
  "dataPages type = (if type = TYPE_FILE then 2 else 0)"

lemma dataPages_simps [simp]: "dataPages TYPE_DIR = 0" "dataPages TYPE_FILE = 2" "TYPE_DIR \<noteq> TYPE_FILE"
  by (simp_all add: dataPages_def TYPE_DIR_def TYPE_FILE_def)

text \<open>The data of a new file: two zeroed pages apart from \<open>V\<close>.\<close>

definition blank_data :: "mem \<Rightarrow> u64 set \<Rightarrow> u64 set \<Rightarrow> u64 \<Rightarrow> bool" where
  "blank_data m V V' t \<longleftrightarrow> tmpData m t \<noteq> 0 \<and> unat (tmpData m t) + 8192 \<le> 2 ^ 64
     \<and> rng (tmpData m t) 8192 \<inter> V = {} \<and> rng (tmpData m t) 8192 \<subseteq> V' \<and> (\<forall>x \<in> rng (tmpData m t) 8192. m x = 0)"

lemma blank_data_keep:
  assumes "blank_data m V V' t" and "same_outside A m m'" and "A \<subseteq> V" and "rng (t + 80) 8 \<inter> A = {}"
  shows "blank_data m' V V' t"
proof -
  have "tmpData m' t = tmpData m t" using load_same_outside [OF assms(2,4)] by (simp add: tmpData_def)
  moreover have "m' x = m x" if "x \<in> rng (tmpData m t) 8192" for x
    using same_outsideD [OF assms(2)] assms(1,3) that unfolding blank_data_def by blast
  ultimately show ?thesis using assms(1) by (simp add: blank_data_def)
qed

lemma tmpfsPages_ok:
  assumes heap: "fs_heap k V" and t: "t \<noteq> 0" "rng (t + 80) 8 \<subseteq> V"
  shows "tmpfsPages type t k = Some (Inl (PanicMsg ''OUT OF MEMORY'')) \<and> \<not> has_run k (dataPages type)
    \<or> (\<exists>m V'. tmpfsPages type t k = Some (Inr (k\<lparr>mem := m\<rparr>)) \<and> fs_heap (k\<lparr>mem := m\<rparr>) V' \<and> V \<subseteq> V'
         \<and> (\<forall>x \<in> V - rng (t + 80) 8. m x = mem k x) \<and> (type = TYPE_FILE \<longrightarrow> blank_data m V V' t)
         \<and> (type \<noteq> TYPE_FILE \<longrightarrow> spends 0 k m))"
proof (cases "type = TYPE_FILE")
  case False
  then have "tmpfsPages type t k = Some (Inr (k\<lparr>mem := mem k\<rparr>))" by (simp add: tmpfsPages_def)
  moreover have "fs_heap (k\<lparr>mem := mem k\<rparr>) V" "spends 0 k (mem k)" using heap by (simp_all add: spends_def)
  ultimately show ?thesis using False by blast
next
  case tf: True
  show ?thesis
    using fs_heap_alloc(3) [OF heap]
  proof (elim disjE exE conjE)
    fix d m1 assume d: "vmmAlloc FILE_SIZE_PAGES k = Inr (d, k\<lparr>mem := m1\<rparr>)"
      and fr: "fresh_object 8192 k V d m1" and h1: "fs_heap (k\<lparr>mem := m1\<rparr>) (V \<union> rng d 8192)"
    note f = fresh_objectD [OF fr]
    define m2 where "m2 = store64 m1 (t + 80) d"
    define m3 where "m3 = filled d 8192 0 m2"
    have s2: "same_outside (rng (t + 80) 8) m1 m2" unfolding m2_def by (rule store_same_outside)
    have s3: "same_outside (rng d 8192) m2 m3" unfolding m3_def by (rule filled_same_outside)
    have td: "tmpData m2 t = d" by (simp add: m2_def tmpData_def)
    have "memset d 0 (FILE_SIZE_PAGES * PAGE_SIZE) m2 = Inr m3"
      using f(2) by (simp add: file_size memset_filled m3_def)
    then have run: "tmpfsPages type t k = Some (Inr (k\<lparr>mem := m3\<rparr>))"
      using d t(1) tf td by (simp add: tmpfsPages_def put64_def onMem_def m2_def [symmetric])
    have "rng (t + 80) 8 \<inter> rng d 8192 = {}" using f(1) t(2) by blast
    then have td3: "tmpData m3 t = d" using load_same_outside [OF s3] td by (simp add: tmpData_def)
    have "same_outside (V \<union> rng d 8192) m1 m3"
      by (rule same_outside_trans [OF same_outside_mono [OF s2] same_outside_mono [OF s3]]) (use t(2) in blast)+
    from fs_heap_write [OF h1 this] have h3: "fs_heap (k\<lparr>mem := m3\<rparr>) (V \<union> rng d 8192)" .
    have "\<forall>x \<in> rng d 8192. m3 x = 0" by (simp add: m3_def filled_def)
    then have "blank_data m3 V (V \<union> rng d 8192) t" using td3 f(1-3) by (auto simp: blank_data_def)
    moreover have "m3 x = mem k x" if "x \<in> V - rng (t + 80) 8" for x
      using that f(1) same_outsideD [OF s3, of x] same_outsideD [OF s2, of x] same_outsideD [OF f(4), of x] by auto
    ultimately show ?thesis using run h3 tf by blast
  qed (use tf in \<open>simp add: tmpfsPages_def dataPages_def\<close>)
qed

text \<open>The fields of a new \<open>TmpfsNode\<close>: its name, its node, an empty list of children.\<close>

definition tmp_fields :: "mem \<Rightarrow> u64 \<Rightarrow> u8 list \<Rightarrow> u64 \<Rightarrow> bool" where
  "tmp_fields m t s node \<longleftrightarrow> cstr m t s \<and> tmpNode m t = node \<and> llist m (children t) []"

lemma tmp_fields_frame:
  assumes "tmp_fields m t s node" and "same_outside A m m'" and "rng t 88 \<inter> A = {}" and "length s < 32"
  shows "tmp_fields m' t s node"
proof -
  have sub: "rng t (Suc (length s)) \<subseteq> rng t 88" "rng (t + 40) 8 \<subseteq> rng t 88" "node_rng (t + 64) \<subseteq> rng t 88"
    using assms(4) by (intro rng_mono, simp) (rule rng_sub, simp)+
  then have off: "rng (t + 40) 8 \<inter> A = {}" "node_rng (t + 64) \<inter> A = {}" using assms(3) by blast+
  have "m' x = m x" if "x \<in> rng t (Suc (length s))" for x
    using that sub(1) assms(3) by (intro same_outsideD [OF assms(2)]) blast
  then have "cstr m' t s" using assms(1) unfolding tmp_fields_def by (blast intro: cstr_cong)
  moreover have "llist m' (children t) []"
    using assms(1) llist_frame [OF _ assms(2), of "t + 64" "[]"] off(2) by (simp add: tmp_fields_def children_def)
  ultimately show ?thesis
    using assms(1) load_same_outside [OF assms(2) off(1)] by (simp add: tmp_fields_def tmpNode_def)
qed

lemma tmpfsFill_ok:
  assumes heap: "fs_heap k V" and t: "rng t 88 \<subseteq> V" "t \<noteq> 0" "unat t + 88 \<le> 2 ^ 64"
    and name: "name \<noteq> 0" "cstr (mem k) name s" "length s < 32" "rng t 88 \<inter> rng name (Suc (length s)) = {}"
  shows "tmpfsFill node name type t k = Some (Inl (PanicMsg ''OUT OF MEMORY'')) \<and> \<not> has_run k (dataPages type)
    \<or> (\<exists>m V'. tmpfsFill node name type t k = Some (Inr (k\<lparr>mem := m\<rparr>)) \<and> fs_heap (k\<lparr>mem := m\<rparr>) V' \<and> V \<subseteq> V'
         \<and> (\<forall>x \<in> V - rng t 88. m x = mem k x) \<and> tmp_fields m t s node
         \<and> (type = TYPE_FILE \<longrightarrow> blank_data m V V' t) \<and> (type \<noteq> TYPE_FILE \<longrightarrow> spends 0 k m))"
proof -
  have sub: "rng t 32 \<subseteq> rng t 88" by (rule rng_mono) simp
  have sub': "rng (t + 40) 8 \<subseteq> rng t 88" "node_rng (t + 48) \<subseteq> rng t 88" "node_rng (t + 64) \<subseteq> rng t 88"
    "rng (t + 80) 8 \<subseteq> rng t 88" by (rule rng_sub, simp)+
  have dis: "rng (t + 40) 8 \<inter> rng t 32 = {}" "node_rng (t + 48) \<inter> rng t 32 = {}" "node_rng (t + 64) \<inter> rng t 32 = {}"
    "rng (t + 80) 8 \<inter> rng t 32 = {}"
    using rng_disjoint_base [of 0 32 40 8 t] rng_disjoint_base [of 0 32 48 16 t]
      rng_disjoint_base [of 0 32 64 16 t] rng_disjoint_base [of 0 32 80 8 t] by (simp_all add: Int_commute)
  have dis2: "rng (t + 40) 8 \<inter> node_rng (t + 48) = {}" "rng (t + 40) 8 \<inter> node_rng (t + 64) = {}"
    "node_rng (t + 48) \<inter> node_rng (t + 64) = {}"
    "rng (t + 80) 8 \<inter> (rng (t + 40) 8 \<union> node_rng (t + 48) \<union> node_rng (t + 64)) = {}"
    using rng_disjoint_base [of 40 8 48 16 t] rng_disjoint_base [of 40 8 64 16 t] rng_disjoint_base [of 48 16 64 16 t]
      rng_disjoint_base [of 40 8 80 8 t] rng_disjoint_base [of 48 16 80 8 t] rng_disjoint_base [of 64 16 80 8 t]
    by (simp_all add: Int_commute Int_Un_distrib)
  have nz: "t + 48 \<noteq> 0" "t + 64 \<noteq> 0"
    using t(2,3) by (auto simp: unat_eq_0 [symmetric] unat_add_no_wrap)
  have "rng t (unat (32 :: u64)) \<inter> rng name (Suc (length s)) = {}" using sub name(4) by auto
  from strncpy_cstr_short [OF t(2) name(1,2) _ this] name(3) obtain m1 where
    m1: "strncpy t name 32 (mem k) = Inr m1" "cstr m1 t s" "same_outside (rng t 32) (mem k) m1" by auto
  have s1: "same_outside V (mem k) m1" by (rule same_outside_mono [OF m1(3)]) (use sub t(1) in blast)
  have h1: "fs_heap (k\<lparr>mem := m1\<rparr>) V" using fs_heap_write [of "mem k" k V m1] heap s1 by simp
  have run1: "has_run (k\<lparr>mem := m1\<rparr>) i = has_run k i" for i
    using fs_heap_runs [of "mem k" k V m1] heap s1 by simp
  have step1: "tmpfsFill node name type t k = bndO (tmpfsPages type t (k\<lparr>mem := m1\<rparr>)) (\<lambda>k.
     bndO (put64 t 40 node k) (\<lambda>k.
     bndO (onMem (llInitHead (children t)) k) (\<lambda>k. onMem (llInitHead (childHead t)) k)))"
    using m1(1) by (simp add: tmpfsFill_def onMem_def tmpName_def)
  have "rng (t + 80) 8 \<subseteq> V" using sub'(4) t(1) by blast
  from tmpfsPages_ok [OF h1 t(2) this, of type] show ?thesis
  proof (elim disjE exE conjE)
    fix m2 V' assume run2: "tmpfsPages type t (k\<lparr>mem := m1\<rparr>) = Some (Inr (k\<lparr>mem := m1, mem := m2\<rparr>))"
      and h2: "fs_heap (k\<lparr>mem := m1, mem := m2\<rparr>) V'" and V': "V \<subseteq> V'"
      and same2: "\<forall>x \<in> V - rng (t + 80) 8. m2 x = mem (k\<lparr>mem := m1\<rparr>) x"
      and bl: "type = TYPE_FILE \<longrightarrow> blank_data m2 V V' t" and sp: "type \<noteq> TYPE_FILE \<longrightarrow> spends 0 (k\<lparr>mem := m1\<rparr>) m2"
    define m3 where "m3 = store64 m2 (t + 40) node"
    have s3: "same_outside (rng (t + 40) 8) m2 m3" unfolding m3_def by (rule store_same_outside)
    obtain m4 where m4: "llInitHead (t + 64) m3 = Inr m4" "llist m4 (t + 64) []" "same_outside (node_rng (t + 64)) m3 m4"
      using llInitHead_list [OF nz(2)] by blast
    obtain m5 where m5: "llInitHead (t + 48) m4 = Inr m5" "same_outside (node_rng (t + 48)) m4 m5"
      using llInitHead_list [OF nz(1)] by blast
    let ?A = "rng (t + 40) 8 \<union> node_rng (t + 48) \<union> node_rng (t + 64)"
    have s25: "same_outside ?A m2 m5"
      by (rule same_outside_trans [OF same_outside_trans [OF same_outside_mono [OF s3] same_outside_mono [OF m4(3)]]
            same_outside_mono [OF m5(2)]]) blast+
    have A: "?A \<subseteq> rng t 88" "?A \<inter> rng t 32 = {}"
      unfolding Int_Un_distrib2 using sub' dis by simp_all
    have run: "tmpfsFill node name type t k = Some (Inr (k\<lparr>mem := m5\<rparr>))"
      using run2 m4(1) m5(1) t(2) by (simp add: step1 put64_def onMem_def m3_def [symmetric] children_def childHead_def)
    have s25': "same_outside V' m2 m5" using A(1) t(1) V' by (intro same_outside_mono [OF s25]) blast
    then have h5: "fs_heap (k\<lparr>mem := m5\<rparr>) V'" using fs_heap_write [of m2 "k\<lparr>mem := m1\<rparr>" V' m5] h2 by simp
    have sp5: "type \<noteq> TYPE_FILE \<longrightarrow> spends 0 k m5"
      using sp fs_heap_runs [OF h2 s25'] run1 by (simp add: spends_def)
    have keep: "m5 x = mem k x" if "x \<in> V - rng t 88" for x
    proof -
      have "x \<notin> ?A" "x \<in> V - rng (t + 80) 8" "x \<notin> rng t 32" using that A(1) sub sub'(4) by blast+
      then show ?thesis using same_outsideD [OF s25] same2 same_outsideD [OF m1(3)] by simp
    qed
    have "m5 x = m1 x" if "x \<in> rng t (Suc (length s))" for x
    proof -
      have "rng t (Suc (length s)) \<subseteq> rng t 32" using name(3) by (intro rng_mono) simp
      then have "x \<in> rng t 32" using that by blast
      then have "x \<notin> ?A" "x \<in> V - rng (t + 80) 8" using A(2) dis(4) sub t(1) by blast+
      then show ?thesis using same_outsideD [OF s25] same2 by simp
    qed
    then have c: "cstr m5 t s" by (rule cstr_cong [OF m1(2)])
    have "tmpNode m5 t = node"
      using load_same_outside [OF m5(2) dis2(1)] load_same_outside [OF m4(3) dis2(2)] by (simp add: tmpNode_def m3_def)
    moreover have "llist m5 (t + 64) []"
      by (rule llist_frame [OF m4(2) m5(2)]) (use dis2(3) in auto)
    ultimately have tf: "tmp_fields m5 t s node" using c by (simp add: tmp_fields_def children_def)
    have "type = TYPE_FILE \<longrightarrow> blank_data m5 V V' t"
      using bl blank_data_keep [OF _ s25 _ dis2(4)] A(1) t(1) by blast
    then show ?thesis using run h5 V' keep tf sp5 by blast
  qed (simp add: step1 run1)
qed

text \<open>What \<open>tmpfsAllocNode\<close> makes: the node \<open>r\<close> of the mount and its \<open>TmpfsNode\<close> \<open>t\<close>.\<close>

definition node_made ::
    "'a fs_state_scheme \<Rightarrow> u64 set \<Rightarrow> u64 \<Rightarrow> u32 \<Rightarrow> u8 list \<Rightarrow> u64 \<Rightarrow> u64 \<Rightarrow> mem \<Rightarrow> u64 set \<Rightarrow> bool" where
  "node_made k U mnt type s r t m U' \<longleftrightarrow> fs_heap (k\<lparr>mem := m\<rparr>) U' \<and> U \<union> rng r 48 \<union> rng t 88 \<subseteq> U'
     \<and> U \<inter> rng r 48 = {} \<and> (U \<union> rng r 48) \<inter> rng t 88 = {} \<and> r \<noteq> 0 \<and> t \<noteq> 0 \<and> unat t + 88 \<le> 2 ^ 64
     \<and> nodeMnt m r = mnt \<and> nodeType m r = type \<and> nodeOps m r = tmpfsHandler k \<and> fsData m r = t
     \<and> tmp_fields m t s r \<and> (type = TYPE_FILE \<longrightarrow> blank_data m (U \<union> rng r 48 \<union> rng t 88) U' t)"

lemma node_fields_apart:
  "apart (r + 8) 8 (r + 24) 8" "apart (r + 8) 8 r 4" "apart (r + 24) 8 r 4"
  "apart (r + 16) 8 (r + 8) 8" "apart (r + 16) 8 (r + 24) 8" "apart (r + 16) 8 r 4"
  for r :: u64
  by (simp_all add: apart_def)

lemma tmpfsAllocNode_ok:
  assumes heap: "fs_heap k U" and mnt: "mnt \<noteq> 0" and l: "llist (mem k) (mntNodes mnt) ns"
    and lU0: "\<forall>x \<in> set (mntNodes mnt # ns). node_rng x \<subseteq> U"
    and name: "name \<noteq> 0" "cstr (mem k) name s" "length s < 32" "rng name (Suc (length s)) \<subseteq> U - link_ends (mntNodes mnt) ns"
  shows "tmpfsAllocNode mnt name type k = Some (Inl (PanicMsg ''OUT OF MEMORY'')) \<and> \<not> has_run k (dataPages type + 2)
    \<or> (\<exists>r t m U'. tmpfsAllocNode mnt name type k = Some (Inr (r, k\<lparr>mem := m\<rparr>))
         \<and> node_made k U mnt type s r t m U' \<and> llist m (mntNodes mnt) (nodeHead r # ns)
         \<and> (\<forall>x \<in> U - link_ends (mntNodes mnt) ns. m x = mem k x) \<and> (type \<noteq> TYPE_FILE \<longrightarrow> spends 2 k m))"
  using vfsAllocNode_ok [OF heap mnt l lU0]
proof (elim disjE exE conjE)
  fix r m0 m1 assume run1: "vfsAllocNode mnt k = Some (Inr (r, k\<lparr>mem := m1\<rparr>))"
    and fr: "fresh_object 48 k U r m0" and sp1: "spends 1 k m1" and h1: "fs_heap (k\<lparr>mem := m1\<rparr>) (U \<union> rng r 48)"
    and n1: "nodeMnt m1 r = mnt" and l1: "llist m1 (mntNodes mnt) (nodeHead r # ns)"
    and keep1: "\<forall>x \<in> U - link_ends (mntNodes mnt) ns. m1 x = mem k x"
  note f = fresh_objectD [OF fr] and lU = bspec [OF lU0]
  let ?U = "U \<union> rng r 48"
  define m3 where "m3 = store32 (store64 m1 (r + 24) (tmpfsHandler k)) r type"
  have in32: "rng (r + 24) 8 \<subseteq> rng r 32" "rng r 4 \<subseteq> rng r 32" "rng (r + 16) 8 \<subseteq> rng r 32"
    using rng_sub [of 24 8 32 r] rng_sub [of 16 8 32 r] rng_mono [of 4 32 r] by simp_all
  have in48: "rng r 32 \<subseteq> rng r 48" by (rule rng_mono) simp
  have s13: "same_outside (rng r 32) m1 m3"
    unfolding m3_def store32_def by (rule same_outside_trans) (rule store_same_outside', rule in32)+
  have n3: "nodeMnt m3 r = mnt" "nodeOps m3 r = tmpfsHandler k" "nodeType m3 r = type"
    using n1 node_fields_apart [THEN apart_sym]
    by (simp_all add: nodeMnt_def nodeOps_def nodeType_def m3_def store32_def [of _ r] load_store_apart node_fields_apart,
        simp add: store32_def [symmetric])
  have s13': "same_outside ?U m1 m3" by (rule same_outside_mono [OF s13]) (use in48 in blast)
  note h3 = fs_heap_write [OF h1 s13'] and sp3 = spends_write [OF sp1 h1 s13']
  have step: "tmpfsAllocNode mnt name type k =
     bndO (slabAlloc (tmpfsNodeCache k) (k\<lparr>mem := m3\<rparr>)) (\<lambda>(t, k).
     bndO (tmpfsFill r name type t k) (\<lambda>k.
     bndO (put64 r 16 t k) (\<lambda>k. Some (Inr (r, k)))))"
    using run1 f(2) by (simp add: tmpfsAllocNode_steps put64_def put32_def m3_def)
  have heads: "node_rng x \<inter> rng r 32 = {}" if "x \<in> set (mntNodes mnt # nodeHead r # ns)" for x
  proof (cases "x = nodeHead r")
    case True
    then show ?thesis using rng_disjoint_base [of 0 32 32 16 r] by (simp add: nodeHead_def Int_commute)
  next
    case False
    then show ?thesis using that lU [of x] f(1) in48 by auto
  qed
  show ?thesis
    using fs_heap_alloc(2) [OF h3]
  proof (elim disjE exE conjE)
    fix t m4 assume run4: "slabAlloc (tmpfsNodeCache (k\<lparr>mem := m3\<rparr>)) (k\<lparr>mem := m3\<rparr>) = Some (Inr (t, k\<lparr>mem := m3, mem := m4\<rparr>))"
      and fr4: "fresh_object 88 (k\<lparr>mem := m3\<rparr>) ?U t m4" and sp: "spends 1 (k\<lparr>mem := m3\<rparr>) m4" and h4: "fs_heap (k\<lparr>mem := m3, mem := m4\<rparr>) (?U \<union> rng t 88)"
    note g = fresh_objectD [OF fr4]
    let ?V = "?U \<union> rng t 88"
    have sp4: "spends 2 k m4" using spends_trans [OF sp3 sp] by (simp add: numeral_2_eq_2)
    have nm: "rng name (Suc (length s)) \<subseteq> U - link_ends (mntNodes mnt) ns" by (rule name(4))
    have c4: "cstr m4 name s"
    proof (rule cstr_cong [OF name(2)])
      fix x assume "x \<in> rng name (Suc (length s))"
      then have x: "x \<in> U - link_ends (mntNodes mnt) ns" using nm by blast
      then have "x \<notin> rng r 32" "x \<notin> - ?U" using f(1) in48 by blast+
      then show "m4 x = mem k x"
        using x keep1 same_outsideD [OF s13] same_outsideD [OF g(4)] by simp
    qed
    have "rng t 88 \<inter> rng name (Suc (length s)) = {}" using nm g(1) by blast
    with tmpfsFill_ok [OF h4 _ g(2,3) name(1), of s r type] c4 name(3)
    have "tmpfsFill r name type t (k\<lparr>mem := m4\<rparr>) = Some (Inl (PanicMsg ''OUT OF MEMORY''))
          \<and> \<not> has_run (k\<lparr>mem := m4\<rparr>) (dataPages type)
      \<or> (\<exists>m V'. tmpfsFill r name type t (k\<lparr>mem := m4\<rparr>) = Some (Inr (k\<lparr>mem := m\<rparr>)) \<and> fs_heap (k\<lparr>mem := m\<rparr>) V' \<and> ?V \<subseteq> V'
         \<and> (\<forall>x \<in> ?V - rng t 88. m x = m4 x) \<and> tmp_fields m t s r \<and> (type = TYPE_FILE \<longrightarrow> blank_data m ?V V' t)
         \<and> (type \<noteq> TYPE_FILE \<longrightarrow> spends 0 (k\<lparr>mem := m4\<rparr>) m))" by simp
    then show ?thesis
    proof (elim disjE exE conjE)
      fix m5 V' assume run5: "tmpfsFill r name type t (k\<lparr>mem := m4\<rparr>) = Some (Inr (k\<lparr>mem := m5\<rparr>))"
        and h5: "fs_heap (k\<lparr>mem := m5\<rparr>) V'" and V': "?V \<subseteq> V'" and keep5: "\<forall>x \<in> ?V - rng t 88. m5 x = m4 x"
        and tf: "tmp_fields m5 t s r" and bl: "type = TYPE_FILE \<longrightarrow> blank_data m5 ?V V' t"
        and sp5: "type \<noteq> TYPE_FILE \<longrightarrow> spends 0 (k\<lparr>mem := m4\<rparr>) m5"
      define m6 where "m6 = store64 m5 (r + 16) t"
      have s6: "same_outside (rng r 32) m5 m6" unfolding m6_def by (rule store_same_outside' [OF in32(3)])
      have s35: "same_outside (- ?U) m3 m5"
      proof (unfold same_outside_def, intro allI impI)
        fix x assume "x \<notin> - ?U"
        then have "x \<in> ?V - rng t 88" "x \<notin> - ?U" using g(1) by blast+
        then show "m5 x = m3 x" using keep5 same_outsideD [OF g(4), of x] by simp
      qed
      have off: "rng (r + 8) 8 \<inter> - ?U = {}" "rng (r + 24) 8 \<inter> - ?U = {}" "rng r 4 \<inter> - ?U = {}"
        using f(5) [of 8 8] f(5) [of 24 8] f(5) [of 0 4] by auto
      have n6: "nodeMnt m6 r = mnt" "nodeOps m6 r = tmpfsHandler k" "nodeType m6 r = type" "fsData m6 r = t"
        using n3 off [THEN load_same_outside [OF s35]]
        by (simp_all add: nodeMnt_def nodeOps_def nodeType_def fsData_def load32_def m6_def load_store_apart node_fields_apart)
      have tU: "rng t 88 \<inter> rng r 32 = {}" using g(1) in48 by blast
      have "rng (t + 80) 8 \<inter> rng r 32 = {}" using g(5) [of 80 8] tU by auto
      with bl blank_data_keep [OF _ s6] in48 have bl6: "type = TYPE_FILE \<longrightarrow> blank_data m6 ?V V' t" by blast
      have s6': "same_outside V' m5 m6" by (rule same_outside_mono [OF s6]) (use in48 V' in blast)
      note h6 = fs_heap_write [OF h5 s6']
      have sp6: "type \<noteq> TYPE_FILE \<longrightarrow> spends 2 k m6"
        using spends_trans [OF sp4, of 0 m5] sp5 spends_write [OF _ h5 s6'] by simp
      have made: "node_made k U mnt type s r t m6 V'"
        unfolding node_made_def using h6 V' f(1,2) g(1-3) n6 tmp_fields_frame [OF tf s6 tU name(3)] bl6 by simp
      have "llist m3 (mntNodes mnt) (nodeHead r # ns)" by (rule llist_frame [OF l1 s13 heads])
      moreover have "node_rng x \<inter> - ?U = {}" if "x \<in> set (mntNodes mnt # nodeHead r # ns)" for x
        using that lU [of x] f(5) [of 32 16] by (auto simp: nodeHead_def)
      ultimately have "llist m5 (mntNodes mnt) (nodeHead r # ns)" using llist_frame [OF _ s35] by blast
      then have l6: "llist m6 (mntNodes mnt) (nodeHead r # ns)" using llist_frame [OF _ s6 heads] by blast
      have "m6 x = mem k x" if "x \<in> U - link_ends (mntNodes mnt) ns" for x
      proof -
        have "x \<notin> rng r 32" "x \<notin> - ?U" using that f(1) in48 by blast+
        then show ?thesis using that keep1 same_outsideD [OF s6] same_outsideD [OF s35] same_outsideD [OF s13] by simp
      qed
      moreover have "tmpfsAllocNode mnt name type k = Some (Inr (r, k\<lparr>mem := m6\<rparr>))"
        using run4 run5 f(2) by (simp add: step put64_def m6_def)
      ultimately show ?thesis using made l6 sp6 by blast
    qed (use run4 spends_run [OF sp4] in \<open>simp add: step\<close>)
  qed (use spends_run [OF sp3, of 1] has_run_less [of k "dataPages type + 2" 2] in \<open>auto simp: step numeral_2_eq_2\<close>)
qed (use has_run_less [of k "dataPages type + 2" 1] in \<open>auto simp: tmpfsAllocNode_steps\<close>)

end
