(* ===== verification/Files.thy ===== *)
theory Files
  imports Vfs FsHeap "HOL-Library.Disjoint_Sets"
begin

section \<open>Directories that grow\<close>

text \<open>
  \<open>tmpfsCreate\<close>, \<open>tmpfsMkdir\<close> and \<open>tmpfsMount\<close> on top of the allocators: \<open>dir_ready\<close> is what a
  directory in use satisfies, and each operation extends the list of its entries by one.
\<close>

subsection \<open>Adding an entry to a directory\<close>

text \<open>The tmpfs nodes of a directory and its entries, the bytes they take, and the links in them.\<close>

definition dirObjs :: "u64 \<Rightarrow> (u64 \<times> u8 list) list \<Rightarrow> u64 set" where
  "dirObjs t es = insert t (fst ` set es)"

definition objBytes :: "u64 set \<Rightarrow> u64 set" where
  "objBytes T = (\<Union>c \<in> T. rng c 88)"

definition objLinks :: "u64 set \<Rightarrow> u64 set" where
  "objLinks T = (\<Union>c \<in> T. rng (c + 48) 32)"

definition mntLinks :: "u64 \<Rightarrow> u64 list \<Rightarrow> u64 set" where
  "mntLinks h ns = (\<Union>x \<in> set (h # ns). node_rng x)"

text \<open>The links that an insertion into the directory may change.\<close>

definition dirLinks :: "u64 \<Rightarrow> (u64 \<times> u8 list) list \<Rightarrow> u64 set" where
  "dirLinks t es = node_rng (children t) \<union> (\<Union>e \<in> set es. node_rng (childHead (fst e)))"

lemma objLinks_sub: "objLinks T \<subseteq> objBytes T"
proof -
  have "rng (c + 48) 32 \<subseteq> rng c 88" for c by (rule rng_sub) simp
  then show ?thesis unfolding objLinks_def objBytes_def by blast
qed

lemma dir_links_sub:
  "c \<in> T \<Longrightarrow> node_rng (childHead c) \<subseteq> objLinks T" "c \<in> T \<Longrightarrow> node_rng (children c) \<subseteq> objLinks T"
proof -
  have "rng (c + 48 + 16) 16 \<subseteq> rng (c + 48) 32" by (rule rng_sub) simp
  then have "node_rng (childHead c) \<subseteq> rng (c + 48) 32" "node_rng (children c) \<subseteq> rng (c + 48) 32"
    by (simp_all add: childHead_def children_def rng_mono algebra_simps)
  then show "c \<in> T \<Longrightarrow> node_rng (childHead c) \<subseteq> objLinks T" "c \<in> T \<Longrightarrow> node_rng (children c) \<subseteq> objLinks T"
    unfolding objLinks_def by blast+
qed

lemma dirLinks_sub: "dirLinks t es \<subseteq> objLinks (dirObjs t es)"
  using dir_links_sub [of _ "dirObjs t es"] unfolding dirLinks_def by (auto simp: dirObjs_def)

text \<open>Name, node and data pointer of a tmpfs node are not links.\<close>

lemma off_links:
  assumes "disjoint_family_on (\<lambda>c. rng c 88) T" and "x \<in> T"
  shows "rng x 48 \<inter> objLinks T = {}" and "rng (x + 80) 8 \<inter> objLinks T = {}"
proof -
  have in88: "rng x 48 \<subseteq> rng x 88" "rng (x + 80) 8 \<subseteq> rng x 88" by (rule rng_mono, simp) (rule rng_sub, simp)
  have "rng x 48 \<inter> rng (c + 48) 32 = {} \<and> rng (x + 80) 8 \<inter> rng (c + 48) 32 = {}" if c: "c \<in> T" for c
  proof (cases "c = x")
    case True
    then show ?thesis using rng_disjoint_base [of 0 48 48 32 x] rng_disjoint_base [of 48 32 80 8 x] by auto
  next
    case False
    then have "rng x 88 \<inter> rng c 88 = {}" using disjoint_family_onD [OF assms(1,2) c] by simp
    moreover have "rng (c + 48) 32 \<subseteq> rng c 88" by (rule rng_sub) simp
    ultimately show ?thesis using in88 by blast
  qed
  then show "rng x 48 \<inter> objLinks T = {}" "rng (x + 80) 8 \<inter> objLinks T = {}" unfolding objLinks_def by blast+
qed

lemma name_rng: "length s < 32 \<Longrightarrow> rng a (Suc (length s)) \<subseteq> rng a 48"
  by (rule rng_mono) simp

text \<open>Changes to links of tmpfs nodes leave the names and the nodes of all entries.\<close>

lemma links_only:
  assumes "disjoint_family_on (\<lambda>c. rng c 88) T" and "same_outside (objLinks T) m m'" and "c \<in> T"
  shows "cstr m c s \<Longrightarrow> length s < 32 \<Longrightarrow> cstr m' c s" and "tmpNode m' c = tmpNode m c" and "tmpData m' c = tmpData m c"
proof -
  note off = off_links [OF assms(1,3)]
  show "cstr m' c s" if "cstr m c s" "length s < 32"
    using cstr_cong [OF that(1)] off(1) name_rng [OF that(2), of c] same_outsideD [OF assms(2)] by blast
  have "rng (c + 40) 8 \<subseteq> rng c 48" by (rule rng_sub) simp
  then have "rng (c + 40) 8 \<inter> objLinks T = {}" using off(1) by blast
  then show "tmpNode m' c = tmpNode m c" "tmpData m' c = tmpData m c"
    using load_same_outside [OF assms(2)] off(2) by (simp_all add: tmpNode_def tmpData_def)
qed

lemma insert_child:
  assumes d: "dir_rep m t es" and len: "\<forall>e \<in> set es. length (snd e) < 32"
    and dis: "disjoint_family_on (\<lambda>c. rng c 88) (insert c (dirObjs t es))" and new: "c \<notin> dirObjs t es"
    and c: "c \<noteq> 0" "unat c + 88 \<le> 2 ^ 64" "cstr m c s" "length s < 32"
  shows "\<exists>m'. llInsertFront (children t) (childHead c) m = Inr m' \<and> dir_rep m' t ((c, s) # es)
    \<and> same_outside (objLinks (insert c (dirObjs t es))) m m'
    \<and> same_outside (node_rng (childHead c) \<union> dirLinks t es) m m' \<and> (llist m (children c) [] \<longrightarrow> llist m' (children c) [])"
proof -
  let ?T = "insert c (dirObjs t es)" and ?hs = "map (\<lambda>e. childHead (fst e)) es"
  have l: "llist m (children t) ?hs" using d unfolding dir_rep_def by (rule conjunct1)
  have "unat (childHead c) = unat c + 48" using c(2) by (simp add: childHead_def unat_add_no_wrap)
  then have c0: "childHead c \<noteq> 0" by (auto simp: unat_eq_0 [symmetric])
  have sub88: "node_rng (childHead a) \<subseteq> rng a 88" "node_rng (children a) \<subseteq> rng a 88" for a
    unfolding children_def childHead_def by (rule rng_sub; simp)+
  have apart_c: "rng c 88 \<inter> node_rng x = {}" if "x \<in> set (children t # ?hs)" for x
  proof -
    have "x = children t \<or> (\<exists>e \<in> set es. x = childHead (fst e))" using that by auto
    then obtain a where a: "a \<in> dirObjs t es" "node_rng x \<subseteq> rng a 88"
      using sub88 unfolding dirObjs_def by blast
    then have "rng c 88 \<inter> rng a 88 = {}" using new by (intro disjoint_family_onD [OF dis]) auto
    then show ?thesis using a(2) by blast
  qed
  have ap: "napart (childHead c) x" if "x \<in> set (children t # ?hs)" for x
  proof -
    have "rng c 88 \<inter> node_rng x = {}" by (rule apart_c [OF that])
    then show ?thesis using sub88(1) [of c] by (intro node_range_napart) blast
  qed
  obtain m' where m': "llInsertFront (children t) (childHead c) m = Inr m'" "llist m' (children t) (childHead c # ?hs)"
    "same_outside (node_rng (childHead c) \<union> node_rng (children t) \<union> node_rng (hd (?hs @ [children t]))) m m'"
    using llInsertFront_list [OF l c0 ap] by blast
  have "node_rng x \<subseteq> objLinks ?T" if "x \<in> set (children t # ?hs)" for x
    using that dir_links_sub [of _ ?T] by (auto simp: dirObjs_def)
  from this [OF hd_in] this [of "children t"] dir_links_sub(1) [of c ?T]
  have out: "same_outside (objLinks ?T) m m'" by (intro same_outside_mono [OF m'(3)]) auto
  have "fst e \<noteq> 0 \<and> cstr m' (fst e) (snd e)" if "e \<in> set ((c, s) # es)" for e
    using that d c len links_only(1) [OF dis out, of "fst e" "snd e"] by (auto simp: dir_rep_def dirObjs_def)
  then have "dir_rep m' t ((c, s) # es)" using m'(2) by (simp add: dir_rep_def)
  moreover have "node_rng (children c) \<inter> (node_rng (childHead c) \<union> node_rng (children t) \<union> node_rng (hd (?hs @ [children t]))) = {}"
    using rng_disjoint_base [of 48 16 64 16 c] apart_c [of "children t"] apart_c [OF hd_in] sub88(2) [of c]
    unfolding Int_Un_distrib by (auto simp: children_def childHead_def)
  then have "llist m (children c) [] \<longrightarrow> llist m' (children c) []"
    using llist_frame [OF _ m'(3), of "children c" "[]"] by auto
  moreover have "node_rng x \<subseteq> dirLinks t es" if "x \<in> set (children t # ?hs)" for x
    using that by (auto simp: dirLinks_def)
  from this [OF hd_in] this [of "children t"]
  have "same_outside (node_rng (childHead c) \<union> dirLinks t es) m m'" by (intro same_outside_mono [OF m'(3)]) auto
  ultimately show ?thesis using m'(1) out by blast
qed

text \<open>
  A directory node \<open>n\<close> with entries \<open>es\<close>, in a mount with nodes \<open>ns\<close>: everything it rests on is in
  use, the nodes of the mount's list are apart from it, and its tmpfs nodes are apart from each
  other.
\<close>

definition dir_ready :: "'a fs_state_scheme \<Rightarrow> u64 set \<Rightarrow> u64 \<Rightarrow> (u64 \<times> u8 list) list \<Rightarrow> u64 list \<Rightarrow> bool" where
  "dir_ready k U n es ns \<longleftrightarrow>
     (let t = fsData (mem k) n; mnt = nodeMnt (mem k) n; L = mntLinks (mntNodes mnt) ns; B = objBytes (dirObjs t es) in
      n \<noteq> 0 \<and> t \<noteq> 0 \<and> mnt \<noteq> 0 \<and> dir_rep (mem k) t es \<and> (\<forall>e \<in> set es. length (snd e) < 32)
      \<and> disjoint_family_on (\<lambda>c. rng c 88) (dirObjs t es) \<and> llist (mem k) (mntNodes mnt) ns
      \<and> L \<subseteq> U \<and> rng n 32 \<union> B \<subseteq> U - L \<and> rng n 32 \<inter> B = {})"

lemma dir_readyD:
  assumes "dir_ready k U n es ns" and "fsData (mem k) n = t" and "nodeMnt (mem k) n = mnt"
  shows "n \<noteq> 0" and "t \<noteq> 0" and "mnt \<noteq> 0" and "dir_rep (mem k) t es" and "\<forall>e \<in> set es. length (snd e) < 32"
    and "disjoint_family_on (\<lambda>c. rng c 88) (dirObjs t es)" and "llist (mem k) (mntNodes mnt) ns"
    and "mntLinks (mntNodes mnt) ns \<subseteq> U" and "rng n 32 \<subseteq> U - mntLinks (mntNodes mnt) ns"
    and "objBytes (dirObjs t es) \<subseteq> U - mntLinks (mntNodes mnt) ns" and "rng n 32 \<inter> objBytes (dirObjs t es) = {}"
  using assms by (simp_all add: dir_ready_def Let_def)

lemma dir_readyI:
  assumes "fsData (mem k) n = t" and "nodeMnt (mem k) n = mnt" and "n \<noteq> 0" and "t \<noteq> 0" and "mnt \<noteq> 0"
    and "dir_rep (mem k) t es" and "\<forall>e \<in> set es. length (snd e) < 32"
    and "disjoint_family_on (\<lambda>c. rng c 88) (dirObjs t es)" and "llist (mem k) (mntNodes mnt) ns"
    and "mntLinks (mntNodes mnt) ns \<subseteq> U" and "rng n 32 \<subseteq> U - mntLinks (mntNodes mnt) ns"
    and "objBytes (dirObjs t es) \<subseteq> U - mntLinks (mntNodes mnt) ns" and "rng n 32 \<inter> objBytes (dirObjs t es) = {}"
  shows "dir_ready k U n es ns"
  using assms by (simp add: dir_ready_def)

lemma link_ends_sub: "link_ends h ns \<subseteq> mntLinks h ns"
proof -
  have "node_rng x \<subseteq> mntLinks h ns" if "x \<in> set (h # ns)" for x using that unfolding mntLinks_def by blast
  from this [of h] this [OF hd_in] show ?thesis by (simp add: link_ends_def)
qed

lemma node_fields_in: "rng (n + 8) 8 \<subseteq> rng n 32" "rng (n + 16) 8 \<subseteq> rng n 32"
  by (rule rng_sub, simp)+

text \<open>What \<open>tmpfsCreate\<close> and \<open>tmpfsMkdir\<close> have in common.\<close>

definition tmpfsMake :: "u32 \<Rightarrow> u64 \<Rightarrow> u64 \<Rightarrow> 'a fs_state_scheme \<Rightarrow> (u32 \<times> 'a fs_state_scheme) ores" where
  "tmpfsMake type n name k =
     bndO (Some (deref n (Inr (nodeMnt (mem k) n)))) (\<lambda>mnt.
     bndO (tmpfsAllocNode mnt name type k) (\<lambda>(child, k). tmpfsAddChild n child k))"

lemma make_steps: "tmpfsCreate = tmpfsMake TYPE_FILE" "tmpfsMkdir = tmpfsMake TYPE_DIR"
  by (intro ext; simp add: tmpfsCreate_def tmpfsMkdir_def tmpfsMake_def)+

text \<open>The new entry: node \<open>r\<close> of the given type with tmpfs node \<open>t\<close>, first in the directory.\<close>

definition entry_made ::
    "'a fs_state_scheme \<Rightarrow> u64 set \<Rightarrow> u64 \<Rightarrow> (u64 \<times> u8 list) list \<Rightarrow> u64 list \<Rightarrow> u32 \<Rightarrow> u8 list \<Rightarrow>
      'a fs_state_scheme \<Rightarrow> u64 \<Rightarrow> u64 \<Rightarrow> u64 set \<Rightarrow> bool" where
  "entry_made k U n es ns type s k' r t U' \<longleftrightarrow>
     dir_ready k' U' n ((t, s) # es) (nodeHead r # ns) \<and> fs_heap k' U' \<and> U \<subseteq> U'
     \<and> r \<noteq> 0 \<and> t \<noteq> 0 \<and> nodeType (mem k') r = type \<and> fsData (mem k') r = t \<and> nodeOps (mem k') r = tmpfsHandler k
     \<and> nodeMnt (mem k') r = nodeMnt (mem k) n \<and> tmpNode (mem k') t = r
     \<and> nodeMnt (mem k') n = nodeMnt (mem k) n \<and> fsData (mem k') n = fsData (mem k) n
     \<and> U \<inter> (rng r 48 \<union> rng t 88) = {} \<and> rng r 48 \<union> rng t 88 \<subseteq> U' \<and> rng r 48 \<inter> rng t 88 = {}
     \<and> (\<forall>e \<in> set es. tmpNode (mem k') (fst e) = tmpNode (mem k) (fst e))
     \<and> (if type = TYPE_FILE then blank_data (mem k') (U \<union> rng r 48 \<union> rng t 88) U' t else dir_rep (mem k') t [])"

lemma node_fields_frame:
  assumes "same_outside A m m'" and "rng r 48 \<inter> A = {}"
  shows "nodeType m' r = nodeType m r" and "nodeMnt m' r = nodeMnt m r" and "fsData m' r = fsData m r"
    and "nodeOps m' r = nodeOps m r"
proof -
  have "rng r 4 \<subseteq> rng r 48" "rng (r + 8) 8 \<subseteq> rng r 48" "rng (r + 16) 8 \<subseteq> rng r 48" "rng (r + 24) 8 \<subseteq> rng r 48"
    by (rule rng_mono, simp) (rule rng_sub, simp)+
  then have "rng r 4 \<inter> A = {}" "rng (r + 8) 8 \<inter> A = {}" "rng (r + 16) 8 \<inter> A = {}" "rng (r + 24) 8 \<inter> A = {}"
    using assms(2) by blast+
  from this [THEN load_same_outside [OF assms(1)]]
  show "nodeType m' r = nodeType m r" "nodeMnt m' r = nodeMnt m r" "fsData m' r = fsData m r" "nodeOps m' r = nodeOps m r"
    by (simp_all add: nodeType_def nodeMnt_def fsData_def nodeOps_def load32_def)
qed

lemma node_madeD:
  assumes "node_made k U mnt type s r t m U'"
  shows "fs_heap (k\<lparr>mem := m\<rparr>) U'" and "U \<union> rng r 48 \<union> rng t 88 \<subseteq> U'" and "U \<inter> rng r 48 = {}"
    and "(U \<union> rng r 48) \<inter> rng t 88 = {}" and "r \<noteq> 0" and "t \<noteq> 0" and "unat t + 88 \<le> 2 ^ 64"
    and "nodeMnt m r = mnt" and "nodeType m r = type" and "nodeOps m r = tmpfsHandler k" and "fsData m r = t"
    and "tmp_fields m t s r" and "type = TYPE_FILE \<Longrightarrow> blank_data m (U \<union> rng r 48 \<union> rng t 88) U' t"
  using assms by (simp_all add: node_made_def)

lemma tmpfsMake_ok:
  assumes heap: "fs_heap k U" and d: "dir_ready k U n es ns"
    and t0: "fsData (mem k) n = t0" and mn: "nodeMnt (mem k) n = mnt"
    and name: "name \<noteq> 0" "cstr (mem k) name s" "length s < 32" "rng name (Suc (length s)) \<subseteq> U - mntLinks (mntNodes mnt) ns"
  shows "tmpfsMake type n name k = Some (Inl (PanicMsg ''OUT OF MEMORY'')) \<and> \<not> has_run k (dataPages type + 2)
    \<or> (\<exists>m' r t U'. tmpfsMake type n name k = Some (Inr (0, k\<lparr>mem := m'\<rparr>))
         \<and> entry_made k U n es ns type s (k\<lparr>mem := m'\<rparr>) r t U'
         \<and> (\<forall>x \<in> U - mntLinks (mntNodes mnt) ns - dirLinks t0 es. m' x = mem k x)
         \<and> (type \<noteq> TYPE_FILE \<longrightarrow> spends 2 k m'))"
proof -
  note dD = dir_readyD [OF d t0 mn]
  let ?h = "mntNodes mnt" and ?T = "dirObjs t0 es"
  have lU: "\<forall>x \<in> set (?h # ns). node_rng x \<subseteq> U" using dD(8) unfolding mntLinks_def by blast
  have nm: "rng name (Suc (length s)) \<subseteq> U - link_ends ?h ns" using name(4) link_ends_sub [of ?h ns] by blast
  have start: "tmpfsMake type n name k = bndO (tmpfsAllocNode mnt name type k) (\<lambda>(child, k). tmpfsAddChild n child k)"
    using dD(1) mn by (simp add: tmpfsMake_def)
  show ?thesis
    using tmpfsAllocNode_ok [OF heap dD(3,7) lU name(1-3) nm, of type]
  proof (elim disjE exE conjE)
    fix r t m U' assume run: "tmpfsAllocNode mnt name type k = Some (Inr (r, k\<lparr>mem := m\<rparr>))"
      and made: "node_made k U mnt type s r t m U'" and l: "llist m ?h (nodeHead r # ns)"
      and keep: "\<forall>x \<in> U - link_ends ?h ns. m x = mem k x" and sp: "type \<noteq> TYPE_FILE \<longrightarrow> spends 2 k m"
    note f = node_madeD [OF made]
    let ?L = "mntLinks ?h ns" and ?T' = "insert t ?T"
    have s1: "same_outside (- (U - ?L)) (mem k) m"
      using keep link_ends_sub [of ?h ns] unfolding same_outside_def by blast
    have n1: "fsData m n = t0" "nodeMnt m n = mnt"
      using load_same_outside [OF s1, of "n + 8" 8] load_same_outside [OF s1, of "n + 16" 8] dD(9) node_fields_in [of n] t0 mn
      by (simp_all add: fsData_def nodeMnt_def) blast+
    have "(rng t0 88 \<union> (\<Union>e \<in> set es. rng (fst e) 88)) = objBytes ?T" by (auto simp: objBytes_def dirObjs_def)
    then have d1: "dir_rep m t0 es" using dD(5,10) by (intro dir_rep_frame [OF dD(4) s1]) (force, blast)
    have tT: "rng t 88 \<inter> objBytes ?T = {}" using f(4) dD(10) by blast
    moreover have "t \<in> rng t 88" by (simp add: in_rng)
    ultimately have new: "t \<notin> ?T" unfolding objBytes_def by blast
    have dis: "disjoint_family_on (\<lambda>c. rng c 88) ?T'"
      using disjoint_family_on_insert [OF new, of "\<lambda>c. rng c 88"] dD(6) tT by (simp add: objBytes_def Int_commute)
    obtain m' where m': "llInsertFront (children t0) (childHead t) m = Inr m'" "dir_rep m' t0 ((t, s) # es)"
      "same_outside (objLinks ?T') m m'" "llist m (children t) [] \<longrightarrow> llist m' (children t) []"
      "same_outside (node_rng (childHead t) \<union> dirLinks t0 es) m m'"
      using insert_child [OF d1 dD(5) dis new f(6,7) _ name(3)] f(12) unfolding tmp_fields_def by blast
    have run': "tmpfsMake type n name k = Some (Inr (0, k\<lparr>mem := m'\<rparr>))"
      using run m'(1) dD(1,2) f(5,11) n1 by (simp add: start tmpfsAddChild_def onMem_def)
    have oT: "dirObjs t0 ((t, s) # es) = ?T'" by (auto simp: dirObjs_def)
    have B: "objBytes ?T' = rng t 88 \<union> objBytes ?T" by (auto simp: objBytes_def)
    have L: "mntLinks ?h (nodeHead r # ns) = ?L \<union> node_rng (r + 32)" by (auto simp: mntLinks_def nodeHead_def)
    have r32: "node_rng (r + 32) \<subseteq> rng r 48" by (rule rng_sub) simp
    have AB: "objLinks ?T' \<subseteq> rng t 88 \<union> objBytes ?T" using objLinks_sub [of ?T'] B by simp
    have U: "?L \<subseteq> U'" "rng n 32 \<subseteq> U'" "objBytes ?T \<subseteq> U'" "rng t 88 \<subseteq> U'" "node_rng (r + 32) \<subseteq> U'"
      using f(2) dD(8-10) r32 by blast+
    have off: "?L \<inter> rng t 88 = {}" "?L \<inter> objBytes ?T = {}" "rng n 32 \<inter> ?L = {}" "rng n 32 \<inter> rng t 88 = {}"
      "rng r 48 \<inter> objBytes ?T = {}" "rng r 48 \<inter> rng n 32 = {}" "rng r 48 \<inter> rng t 88 = {}"
      using f(3,4) dD(8-10) by blast+
    have off': "node_rng (r + 32) \<inter> rng t 88 = {}" "node_rng (r + 32) \<inter> objBytes ?T = {}" "node_rng (r + 32) \<inter> rng n 32 = {}"
      using r32 off(5-7) by blast+
    have A: "rng r 48 \<inter> objLinks ?T' = {}" "rng n 32 \<inter> objLinks ?T' = {}" "objLinks ?T' \<subseteq> U'"
      "(?L \<union> node_rng (r + 32)) \<inter> objLinks ?T' = {}"
      using AB off(5,7) by (blast, use AB off(4) dD(11) in blast, use AB U(3,4) in blast, use AB off(1,2) off' in blast)
    have n2: "fsData m' n = t0" "nodeMnt m' n = mnt"
      using n1 load_same_outside [OF m'(3), of "n + 8" 8] load_same_outside [OF m'(3), of "n + 16" 8] A(2) node_fields_in [of n]
      by (simp_all add: fsData_def nodeMnt_def) blast+
    note r2 = node_fields_frame [OF m'(3) A(1)]
    have h2: "fs_heap (k\<lparr>mem := m'\<rparr>) U'" by (rule fs_heap_write [OF f(1) same_outside_mono [OF m'(3) A(3)]])
    have "llist m' ?h (nodeHead r # ns)"
    proof (rule llist_frame [OF l m'(3)])
      fix x assume "x \<in> set (?h # nodeHead r # ns)"
      then have "node_rng x \<subseteq> mntLinks ?h (nodeHead r # ns)" unfolding mntLinks_def by (rule UN_upper)
      then show "node_rng x \<inter> objLinks ?T' = {}" using A(4) L by blast
    qed
    moreover have "?L \<union> node_rng (r + 32) \<subseteq> U'" "rng n 32 \<subseteq> U' - (?L \<union> node_rng (r + 32))"
      "rng t 88 \<union> objBytes ?T \<subseteq> U' - (?L \<union> node_rng (r + 32))" "rng n 32 \<inter> (rng t 88 \<union> objBytes ?T) = {}"
      using U(1,5) by (simp, use U(2) off(3) off'(3) in blast, use U(3,4) off(1,2) off'(1,2) in blast, use off(4) dD(11) in blast)
    ultimately have ready: "dir_ready (k\<lparr>mem := m'\<rparr>) U' n ((t, s) # es) (nodeHead r # ns)"
      using dD(1-3,5) name(3) m'(2) dis n2 f(6)
      by (intro dir_readyI [where t = t0 and mnt = mnt]) (simp_all add: oT B L)
    have "tmpNode m' t = r" using links_only(2) [OF dis m'(3), of t] f(12) by (simp add: tmp_fields_def)
    moreover have "tmpNode m' (fst e) = tmpNode (mem k) (fst e)" if e: "e \<in> set es" for e
    proof -
      have "rng (fst e + 40) 8 \<subseteq> rng (fst e) 88" by (rule rng_sub) simp
      moreover have "fst e \<in> ?T" using e by (simp add: dirObjs_def)
      ultimately have "rng (fst e + 40) 8 \<inter> - (U - ?L) = {}" using dD(10) unfolding objBytes_def by blast
      then show ?thesis
        using load_same_outside [OF s1] links_only(2) [OF dis m'(3), of "fst e"] \<open>fst e \<in> ?T\<close> by (simp add: tmpNode_def)
    qed
    moreover have "blank_data m' (U \<union> rng r 48 \<union> rng t 88) U' t" if "type = TYPE_FILE"
      using blank_data_keep [OF f(13) [OF that] m'(3)] off_links(2) [OF dis, of t] AB dD(10) by blast
    moreover have "dir_rep m' t []" using m'(4) f(12) by (simp add: dir_rep_def tmp_fields_def)
    ultimately have made': "entry_made k U n es ns type s (k\<lparr>mem := m'\<rparr>) r t U'"
      using ready h2 f(2-6,8-11) r2 n2 mn t0 off(7) by (simp add: entry_made_def Int_Un_distrib Int_Un_distrib2)
    have "m' x = mem k x" if "x \<in> U - ?L - dirLinks t0 es" for x
    proof -
      have "node_rng (childHead t) \<subseteq> rng t 88" unfolding childHead_def by (rule rng_sub) simp
      then have "x \<notin> node_rng (childHead t) \<union> dirLinks t0 es" using that f(4) by blast
      then show ?thesis using that same_outsideD [OF m'(5)] same_outsideD [OF s1, of x] by simp
    qed

    moreover have "type \<noteq> TYPE_FILE \<longrightarrow> spends 2 k m'"
      using sp spends_write [OF _ f(1) same_outside_mono [OF m'(3) A(3)]] by blast
    ultimately show ?thesis using run' made' by (intro disjI2 exI [of _ m'] exI [of _ r] exI [of _ t] exI [of _ U']) simp
  qed (simp add: start)
qed

subsection \<open>Mounting\<close>

lemma dirObjs_Nil [simp]: "dirObjs t [] = {t}" and objBytes_single [simp]: "objBytes {t} = rng t 88"
  by (simp_all add: dirObjs_def objBytes_def)

text \<open>A new node of type \<open>TYPE_DIR\<close> is an empty directory.\<close>

lemma made_dir_ready:
  assumes made: "node_made k U mnt type s r t m U'" and l: "llist m (mntNodes mnt) (nodeHead r # ns)"
    and mnt: "mnt \<noteq> 0" "mntLinks (mntNodes mnt) ns \<subseteq> U"
  shows "dir_ready (k\<lparr>mem := m\<rparr>) U' r [] (nodeHead r # ns)"
proof -
  note f = node_madeD [OF made]
  let ?L = "mntLinks (mntNodes mnt) ns"
  have L: "mntLinks (mntNodes mnt) (nodeHead r # ns) = ?L \<union> node_rng (r + 32)" by (auto simp: mntLinks_def nodeHead_def)
  have r48: "node_rng (r + 32) \<subseteq> rng r 48" "rng r 32 \<subseteq> rng r 48" by (rule rng_sub, simp) (rule rng_mono, simp)
  have "rng r 32 \<inter> node_rng (r + 32) = {}" using rng_disjoint_base [of 0 32 32 16 r] by simp
  moreover have "?L \<union> node_rng (r + 32) \<subseteq> U'" "rng r 32 \<inter> ?L = {}" "rng t 88 \<inter> ?L = {}" "rng t 88 \<inter> node_rng (r + 32) = {}"
    using f(2-4) mnt(2) r48 by blast+
  moreover have "rng r 32 \<subseteq> U'" "rng t 88 \<subseteq> U'" "rng r 32 \<inter> rng t 88 = {}" using f(2,4) r48 by blast+
  ultimately show ?thesis
    using f(5,6,8,11,12) l mnt(1)
    by (intro dir_readyI [where t = t and mnt = mnt])
      (simp_all add: L dir_rep_def tmp_fields_def disjoint_family_on_def, blast+)
qed

lemma dir_ready_write:
  assumes d: "dir_ready k U n es ns" and out: "same_outside A (mem k) m"
    and off: "A \<inter> (rng n 32 \<union> objBytes (dirObjs (fsData (mem k) n) es)) = {}" "A \<inter> mntLinks (mntNodes (nodeMnt (mem k) n)) ns = {}"
  shows "dir_ready (k\<lparr>mem := m\<rparr>) U n es ns" and "fsData m n = fsData (mem k) n" and "nodeMnt m n = nodeMnt (mem k) n"
proof -
  note dD = dir_readyD [OF d refl refl]
  have "rng (n + 8) 8 \<inter> A = {}" "rng (n + 16) 8 \<inter> A = {}" using off(1) node_fields_in [of n] by blast+
  from this [THEN load_same_outside [OF out]]
  show e: "fsData m n = fsData (mem k) n" "nodeMnt m n = nodeMnt (mem k) n" by (simp_all add: fsData_def nodeMnt_def)
  have "rng (fsData (mem k) n) 88 \<union> (\<Union>e \<in> set es. rng (fst e) 88) = objBytes (dirObjs (fsData (mem k) n) es)"
    by (auto simp: objBytes_def dirObjs_def)
  then have "dir_rep m (fsData (mem k) n) es"
    using dD(5) off(1) by (intro dir_rep_frame [OF dD(4) out]) (force, blast)
  moreover have "node_rng x \<inter> A = {}" if "x \<in> set (mntNodes (nodeMnt (mem k) n) # ns)" for x
  proof -
    have "node_rng x \<subseteq> mntLinks (mntNodes (nodeMnt (mem k) n)) ns" using that unfolding mntLinks_def by (rule UN_upper)
    then show ?thesis using off(2) by blast
  qed
  then have "llist m (mntNodes (nodeMnt (mem k) n)) ns" using llist_frame [OF dD(7) out] by blast
  ultimately show "dir_ready (k\<lparr>mem := m\<rparr>) U n es ns"
    using dD e by (intro dir_readyI [where t = "fsData (mem k) n" and mnt = "nodeMnt (mem k) n"]) simp_all
qed

lemma made_lookup:
  assumes made: "entry_made k U n es ns type s k' r t U'" and q: "q \<noteq> 0" "cstr (mem k') q s'"
  shows "tmpfsLookup n q k' = Some (Inr (if s' = s then r else dir_find (mem k) es s'))"
proof -
  have m: "dir_ready k' U' n ((t, s) # es) (nodeHead r # ns)" "tmpNode (mem k') t = r"
    "\<forall>e \<in> set es. tmpNode (mem k') (fst e) = tmpNode (mem k) (fst e)"
    using made by (simp_all add: entry_made_def)
  note dD = dir_readyD [OF m(1) refl refl]
  have "dir_find (mem k') es s' = dir_find (mem k) es s'"
  proof (cases "find (\<lambda>e. snd e = s') es")
    case (Some e)
    then have "e \<in> set es" by (auto simp: find_Some_iff)
    then show ?thesis using m(3) Some by (simp add: dir_find_def)
  qed (simp add: dir_find_def)
  then show ?thesis
    using tmpfsLookup_dir [OF dD(1) refl dD(2,4) q] m(2) by (simp add: dir_find_def eq_commute)
qed

text \<open>A node of the memory file system and its tmpfs node, which point to each other.\<close>

definition tmp_node :: "mem \<Rightarrow> u64 \<Rightarrow> u64 \<Rightarrow> u32 \<Rightarrow> u64 \<Rightarrow> u64 \<Rightarrow> bool" where
  "tmp_node m h mnt type n t \<longleftrightarrow> n \<noteq> 0 \<and> t \<noteq> 0 \<and> nodeType m n = type \<and> nodeMnt m n = mnt \<and> nodeOps m n = h
     \<and> fsData m n = t \<and> tmpNode m t = n"

lemma tmp_node_frame:
  assumes "tmp_node m h mnt type n t" and "same_outside A m m'" and "rng n 32 \<inter> A = {}" and "rng (t + 40) 8 \<inter> A = {}"
  shows "tmp_node m' h mnt type n t"
proof -
  have "rng n 4 \<subseteq> rng n 32" "rng (n + 8) 8 \<subseteq> rng n 32" "rng (n + 16) 8 \<subseteq> rng n 32" "rng (n + 24) 8 \<subseteq> rng n 32"
    by (rule rng_mono, simp) (rule rng_sub, simp)+
  then have "rng n 4 \<inter> A = {}" "rng (n + 8) 8 \<inter> A = {}" "rng (n + 16) 8 \<inter> A = {}" "rng (n + 24) 8 \<inter> A = {}"
    using assms(3) by blast+
  from this [THEN load_same_outside [OF assms(2)]] load_same_outside [OF assms(2,4)] assms(1)
  show ?thesis by (simp add: tmp_node_def nodeType_def nodeMnt_def fsData_def nodeOps_def load32_def tmpNode_def)
qed

text \<open>Two nodes with their tmpfs nodes, in memory that was free before.\<close>

definition fresh_nodes :: "u64 set \<Rightarrow> u64 set \<Rightarrow> u64 \<Rightarrow> u64 \<Rightarrow> u64 \<Rightarrow> u64 \<Rightarrow> bool" where
  "fresh_nodes U U' n t c t' \<longleftrightarrow> (rng n 48 \<union> rng t 88 \<union> rng c 48 \<union> rng t' 88) \<subseteq> U' - U
     \<and> rng n 48 \<inter> rng t 88 = {} \<and> rng c 48 \<inter> rng t' 88 = {} \<and> (rng n 48 \<union> rng t 88) \<inter> (rng c 48 \<union> rng t' 88) = {}"

lemma mem_of_upd: "mem (k\<lparr>mem := m\<rparr>) = m"
  by simp

lemma tmpfsMount_ok:
  assumes heap: "fs_heap k U" and mnt: "mnt \<noteq> 0" "llist (mem k) (mntNodes mnt) []"
      "node_rng (mntNodes mnt) \<union> rng (mnt + 176) 8 \<subseteq> U"
    and rname: "lit k '''' \<noteq> 0" "cstr (mem k) (lit k '''') []" "rng (lit k '''') 1 \<subseteq> U - node_rng (mntNodes mnt)"
    and dname: "lit k ''dev'' \<noteq> 0" "cstr (mem k) (lit k ''dev'') dev" "length dev < 32"
      "rng (lit k ''dev'') (Suc (length dev)) \<subseteq> U - node_rng (mntNodes mnt) - rng (mnt + 176) 8"
  shows "tmpfsMount mnt k = Some (Inl (PanicMsg ''OUT OF MEMORY'')) \<and> \<not> has_run k 4
    \<or> (\<exists>r m' t U' ns. tmpfsMount mnt k = Some (Inr (k\<lparr>mem := m'\<rparr>)) \<and> fs_heap (k\<lparr>mem := m'\<rparr>) U' \<and> U \<subseteq> U'
         \<and> mntRoot m' mnt = r \<and> nodeType m' r = TYPE_DIR \<and> nodeMnt m' r = mnt
         \<and> dir_ready (k\<lparr>mem := m'\<rparr>) U' r [(t, dev)] ns \<and> nodeType m' (tmpNode m' t) = TYPE_DIR
         \<and> tmpNode m' t \<noteq> 0 \<and> dir_rep m' t []
         \<and> U \<inter> mntLinks (mntNodes mnt) ns \<subseteq> node_rng (mntNodes mnt)
         \<and> (\<forall>x \<in> U - node_rng (mntNodes mnt) - rng (mnt + 176) 8. m' x = mem k x) \<and> spends 4 k m'
         \<and> tmp_node m' (tmpfsHandler k) mnt TYPE_DIR r (fsData m' r) \<and> tmp_node m' (tmpfsHandler k) mnt TYPE_DIR (tmpNode m' t) t
         \<and> fresh_nodes U U' r (fsData m' r) (tmpNode m' t) t \<and> ns = [nodeHead (tmpNode m' t), nodeHead r])"
proof -
  let ?h = "mntNodes mnt" and ?R = "rng (mnt + 176) 8"
  have lU: "\<forall>x \<in> set (?h # []). node_rng x \<subseteq> U" using mnt(3) by simp
  have ends: "link_ends ?h [] = node_rng ?h" by (simp add: link_ends_def)
  have rn: "rng (lit k '''') (Suc (length [])) \<subseteq> U - link_ends ?h []" using rname(3) by (simp add: ends)
  have hR: "node_rng ?h \<inter> ?R = {}"
    using rng_disjoint_base [of 176 8 200 16 mnt] by (simp add: mntNodes_def Int_commute)
  have "length ([] :: u8 list) < 32" by simp
  from tmpfsAllocNode_ok [OF heap mnt(1,2) lU rname(1,2) this rn, of TYPE_DIR] show ?thesis
  proof (elim disjE exE conjE)
    fix r t m U1 assume run: "tmpfsAllocNode mnt (lit k '''') TYPE_DIR k = Some (Inr (r, k\<lparr>mem := m\<rparr>))"
      and made: "node_made k U mnt TYPE_DIR [] r t m U1" and l: "llist m ?h [nodeHead r]"
      and keep: "\<forall>x \<in> U - link_ends ?h []. m x = mem k x" and sp: "TYPE_DIR \<noteq> TYPE_FILE \<longrightarrow> spends 2 k m"
    note f = node_madeD [OF made]
    define m2 where "m2 = store64 m (mnt + 176) r"
    have s2: "same_outside ?R m m2" unfolding m2_def by (rule store_same_outside)
    have R: "?R \<subseteq> U" "?R \<subseteq> U1" using mnt(3) f(2) by blast+
    have s2': "same_outside U1 m m2" by (rule same_outside_mono [OF s2 R(2)])
    note h2 = fs_heap_write [OF f(1) s2']
    have sp2: "spends 2 k m2" by (rule spends_write [OF _ f(1) s2']) (use sp in simp)
    have r48: "node_rng (r + 32) \<subseteq> rng r 48" "rng r 32 \<subseteq> rng r 48" by (rule rng_sub, simp) (rule rng_mono, simp)
    have L1: "mntLinks ?h [nodeHead r] = node_rng ?h \<union> node_rng (r + 32)" by (simp add: mntLinks_def nodeHead_def)
    have dr: "dir_ready (k\<lparr>mem := m\<rparr>) U1 r [] [nodeHead r]"
      by (rule made_dir_ready [OF made l mnt(1)]) (use mnt(3) in \<open>simp add: mntLinks_def\<close>)
    have off2: "?R \<inter> (rng r 32 \<union> rng t 88) = {}" "?R \<inter> mntLinks ?h [nodeHead r] = {}"
      unfolding L1 using R(1) hR f(3,4) r48 by blast+
    have dr2: "dir_ready (k\<lparr>mem := m2\<rparr>) U1 r [] [nodeHead r]" "fsData m2 r = t" "nodeMnt m2 r = mnt"
      using dir_ready_write [OF dr, of ?R m2] s2 off2 f(8,11) by simp_all
    have same: "m2 x = mem k x" if "x \<in> U - node_rng ?h - ?R" for x
      using that keep same_outsideD [OF s2, of x] by (simp add: ends)
    have c2: "cstr m2 (lit k ''dev'') dev" using cstr_cong [OF dname(2)] same dname(4) by blast
    have dn: "rng (lit k ''dev'') (Suc (length dev)) \<subseteq> U1 - mntLinks ?h [nodeHead r]"
      unfolding L1 using dname(4) f(2,3) r48 by blast
    have root2: "mntRoot m2 mnt = r" by (simp add: m2_def mntRoot_def)
    have step: "tmpfsMount mnt k = bndO (tmpfsMake TYPE_DIR r (lit k ''dev'') (k\<lparr>mem := m2\<rparr>)) (\<lambda>(_, k). Some (Inr k))"
      using run mnt(1) root2 by (simp add: tmpfsMount_def put64_def make_steps m2_def)
    from tmpfsMake_ok [OF h2 dr2(1), of t mnt "lit k ''dev''" dev TYPE_DIR, unfolded dataPages_simps add_0] dr2(2,3) dname(1,3) c2 dn
    have "tmpfsMake TYPE_DIR r (lit k ''dev'') (k\<lparr>mem := m2\<rparr>) = Some (Inl (PanicMsg ''OUT OF MEMORY'')) \<and> \<not> has_run (k\<lparr>mem := m2\<rparr>) 2
      \<or> (\<exists>m' c t' U'. tmpfsMake TYPE_DIR r (lit k ''dev'') (k\<lparr>mem := m2\<rparr>) = Some (Inr (0, k\<lparr>mem := m'\<rparr>))
         \<and> entry_made (k\<lparr>mem := m2\<rparr>) U1 r [] [nodeHead r] TYPE_DIR dev (k\<lparr>mem := m'\<rparr>) c t' U'
         \<and> (\<forall>x \<in> U1 - mntLinks ?h [nodeHead r] - node_rng (children t). m' x = m2 x) \<and> spends 2 (k\<lparr>mem := m2\<rparr>) m')"
      by (simp add: dirLinks_def)
    then show ?thesis
    proof (elim disjE exE conjE)
      fix m' c t' U' assume run2: "tmpfsMake TYPE_DIR r (lit k ''dev'') (k\<lparr>mem := m2\<rparr>) = Some (Inr (0, k\<lparr>mem := m'\<rparr>))"
        and made2: "entry_made (k\<lparr>mem := m2\<rparr>) U1 r [] [nodeHead r] TYPE_DIR dev (k\<lparr>mem := m'\<rparr>) c t' U'"
        and keep2: "\<forall>x \<in> U1 - mntLinks ?h [nodeHead r] - node_rng (children t). m' x = m2 x"
        and sp3: "spends 2 (k\<lparr>mem := m2\<rparr>) m'"
      note e = made2 [unfolded entry_made_def mem_of_upd]
      have t88: "node_rng (children t) \<subseteq> rng t 88" unfolding children_def by (rule rng_sub) simp
      have "rng r 32 \<subseteq> U1 - mntLinks ?h [nodeHead r]" "rng r 32 \<inter> rng t 88 = {}"
        using dir_readyD(9,11) [OF dr, of t mnt] f(8,11) by simp_all
      then have "?R \<subseteq> U1 - mntLinks ?h [nodeHead r] - node_rng (children t)" "rng r 32 \<subseteq> U1 - mntLinks ?h [nodeHead r] - node_rng (children t)"
        using t88 off2 R(2) by blast+
      then have "\<forall>x \<in> ?R. m' x = m2 x" "\<forall>x \<in> rng r 32. m' x = m2 x" using keep2 by blast+
      moreover have "rng r 4 \<subseteq> rng r 32" by (rule rng_mono) simp
      ultimately have "load64 m' (mnt + 176) = load64 m2 (mnt + 176)" "load 4 m' r = load 4 m2 r"
        by (intro load_cong; blast)+
      moreover have "load 4 m2 r = load 4 m r"
        using off2(1) \<open>rng r 4 \<subseteq> rng r 32\<close> by (intro load_same_outside [OF s2]) blast
      ultimately have "mntRoot m' mnt = r" "nodeType m' r = TYPE_DIR"
        using root2 f(9) by (simp_all add: mntRoot_def nodeType_def load32_def)
      moreover have "tmpfsMount mnt k = Some (Inr (k\<lparr>mem := m'\<rparr>))" using run2 by (simp add: step)
      moreover have "U \<subseteq> U'" using e f(2) by blast
      moreover have "U \<inter> mntLinks ?h [nodeHead c, nodeHead r] \<subseteq> node_rng ?h"
      proof -
        have "node_rng (c + 32) \<subseteq> rng c 48" by (rule rng_sub) simp
        then have "U \<inter> node_rng (c + 32) = {}" using e f(2) by blast
        then show ?thesis using f(3) r48 by (auto simp: mntLinks_def nodeHead_def)
      qed
      moreover have "m' x = mem k x" if "x \<in> U - node_rng ?h - ?R" for x
      proof -
        have "x \<in> U1 - mntLinks ?h [nodeHead r] - node_rng (children t)" unfolding L1 using that f(2-4) r48 t88 by blast
        then show ?thesis using keep2 same [OF that] by simp
      qed
      moreover have "spends 4 k m'" using spends_trans [OF sp2 sp3] by simp
      moreover have "tmp_node m' (tmpfsHandler k) mnt TYPE_DIR r t"
      proof (rule tmp_node_frame)
        show "tmp_node m2 (tmpfsHandler k) mnt TYPE_DIR r t"
        proof (rule tmp_node_frame [OF _ s2])
          show "tmp_node m (tmpfsHandler k) mnt TYPE_DIR r t" using f(5,6,8-12) by (simp add: tmp_node_def tmp_fields_def)
          have "rng (t + 40) 8 \<subseteq> rng t 88" by (rule rng_sub) simp
          then show "rng r 32 \<inter> ?R = {}" "rng (t + 40) 8 \<inter> ?R = {}" using off2(1) by blast+
        qed
        show "same_outside (- (U1 - mntLinks ?h [nodeHead r] - node_rng (children t))) m2 m'"
          using keep2 unfolding same_outside_def by blast
        have "rng (t + 40) 8 \<inter> node_rng (children t) = {}" unfolding children_def by (rule rng_disjoint_base) simp_all
        moreover have "rng (t + 40) 8 \<subseteq> rng t 88" by (rule rng_sub) simp
        moreover have "rng t 88 \<subseteq> U1 - mntLinks ?h [nodeHead r]" using dir_readyD(10) [OF dr, of t mnt] f(8,11) by simp
        ultimately show "rng (t + 40) 8 \<inter> - (U1 - mntLinks ?h [nodeHead r] - node_rng (children t)) = {}" by blast
        show "rng r 32 \<inter> - (U1 - mntLinks ?h [nodeHead r] - node_rng (children t)) = {}"
          using \<open>rng r 32 \<subseteq> U1 - mntLinks ?h [nodeHead r] - node_rng (children t)\<close> by blast
      qed
      moreover have "tmp_node m' (tmpfsHandler k) mnt TYPE_DIR c t'" using e dr2(3) by (simp add: tmp_node_def)
      moreover have "fresh_nodes U U' r t c t'" using e f(2-4) unfolding fresh_nodes_def by blast
      ultimately show ?thesis using e dr2(3)
        by (intro disjI2 exI [of _ r] exI [of _ m'] exI [of _ t'] exI [of _ U'] exI [of _ "[nodeHead c, nodeHead r]"])
          (simp add: tmp_node_def)
    qed (use spends_run [OF sp2, of 2] in \<open>simp add: step\<close>)
  qed (use has_run_less [of k 4 2] in \<open>auto simp: tmpfsMount_def numeral_2_eq_2\<close>)
qed

subsection \<open>A machine for the witnesses\<close>

text \<open>
  The page that holds the page bitmap also holds two caches, the strings, and a mount without
  nodes at \<open>0xffff800000001300\<close>; pages 2 to 63 are free.
\<close>

definition demoArea :: u64 where "demoArea = 0xffff800000001200"
definition demoMnt :: u64 where "demoMnt = demoArea + 0x100"
definition demoTmpCache :: u64 where "demoTmpCache = 0xffff800000001100"

definition demoBootMem :: mem where
  "demoBootMem = store 4 (store 3 (store64 (store64 (mem demoPmm) (demoArea + 0x1c8) (demoArea + 0x1c8))
     (demoArea + 0x1d0) (demoArea + 0x1c8)) (demoArea + 0x10) 0x766564) (demoArea + 0x20) 0x74736574"

definition demoBoot :: fs_state where
  "demoBoot = demoFs\<lparr>mem := demoBootMem, hhdm := hhdm demoPmm, pmmBitmap := pmmBitmap demoPmm,
     nodeCache := demoCache, tmpfsNodeCache := demoTmpCache,
     lit := (\<lambda>s. if s = ''dev'' then demoArea + 0x10 else if s = ''test'' then demoArea + 0x20 else demoArea)\<rparr>"

lemma demo_boot_mem: "same_outside (rng demoArea 0xe00) (mem demoPmm) demoBootMem"
proof -
  have "rng (demoArea + 0x1c8) 8 \<subseteq> rng demoArea 0xe00" "rng (demoArea + 0x1d0) 8 \<subseteq> rng demoArea 0xe00"
    "rng (demoArea + 0x10) 3 \<subseteq> rng demoArea 0xe00" "rng (demoArea + 0x20) 4 \<subseteq> rng demoArea 0xe00"
    by (rule rng_sub, simp)+
  from this [THEN store_same_outside'] show ?thesis
    unfolding demoBootMem_def by (meson same_outside_trans)
qed

lemma demo_boot_strings: "cstr demoBootMem demoArea []" "cstr demoBootMem (demoArea + 0x10) [0x64, 0x65, 0x76]"
  "cstr demoBootMem (demoArea + 0x20) [0x74, 0x65, 0x73, 0x74]"
  by (simp_all add: demoBootMem_def demoArea_def demoPmm_def store_def)

lemma demo_boot_list: "llist demoBootMem (mntNodes demoMnt) []"
proof -
  have "load64 demoBootMem (demoArea + 0x1c8) = demoArea + 0x1c8" "load64 demoBootMem (demoArea + 0x1d0) = demoArea + 0x1c8"
    by (simp_all add: demoBootMem_def load_store_apart apart_def)
  then show ?thesis
    by (simp add: llist_def llNext_def llPrev_def mntNodes_def demoMnt_def demoArea_def)
qed

lemma demo_areas: "rng demoArea 0xe00 \<subseteq> rng demoCache 4032" "rng demoTmpCache 144 \<subseteq> rng demoCache 4032"
  "rng demoArea 0xe00 \<inter> rng demoCache 144 = {}" "rng demoArea 0xe00 \<inter> rng demoTmpCache 144 = {}"
  "rng demoTmpCache 144 \<inter> rng demoCache 144 = {}"
proof -
  have e: "demoArea = demoCache + 0x1c0" "demoTmpCache = demoCache + 0xc0"
    by (simp_all add: demoArea_def demoCache_def demoTmpCache_def)
  show "rng demoArea 0xe00 \<subseteq> rng demoCache 4032" "rng demoTmpCache 144 \<subseteq> rng demoCache 4032"
    unfolding e by (rule rng_sub, simp)+
  show "rng demoArea 0xe00 \<inter> rng demoCache 144 = {}" "rng demoTmpCache 144 \<inter> rng demoCache 144 = {}"
    "rng demoArea 0xe00 \<inter> rng demoTmpCache 144 = {}"
    by (rule apart_disjoint, simp add: apart_def demoArea_def demoCache_def demoTmpCache_def)+
qed

lemma demo_pmm_like:
  assumes "hhdm k = hhdm demoPmm" "pmmBitmap k = pmmBitmap demoPmm" "pmmSpinlock k = pmmSpinlock demoPmm"
    and out: "same_outside (rng demoArea 0xe00) (mem demoPmm) (mem k)"
  shows "pmm_inv k" "window_ok k" "held k (rng demoCache 4032)" "has_run k 62"
proof -
  define b where "b = k\<lparr>mem := mem demoPmm\<rparr>"
  have p: "mem b = mem demoPmm" "hhdm b = hhdm demoPmm" "pmmBitmap b = pmmBitmap demoPmm"
    "pmmSpinlock b = pmmSpinlock demoPmm"
    using assms(1-3) by (simp_all add: b_def)
  have run: "has_run demoPmm 62"
    unfolding has_run_def free_run_iff by (intro exI [of _ 2]) (simp add: demo_used demo_count)
  have b: "pmm_inv b" "window_ok b" "held b (rng demoCache 4032)" "has_run b 62"
    using pmm_part [OF p] demo_pmm_inv demo_window demo_page_held run by simp_all
  have e: "b\<lparr>mem := mem k\<rparr> = k" by (simp add: b_def)
  have s: "same_outside (rng demoArea 0xe00) (mem b) (mem k)" using out p(1) by simp
  note h = held_subset [OF b(3) demo_areas(1)]
  show "pmm_inv k" "held k (rng demoCache 4032)"
    using held_write [OF b(1) h s] b(3) unfolding e by simp_all
  show "has_run k 62" using has_run_write [OF b(1) h s] b(4) unfolding e by simp
  show "window_ok k" using b(2) by (simp add: window_ok_def b_def)
qed

lemma demo_boot_pmm: "pmm_inv demoBoot" "window_ok demoBoot" "held demoBoot (rng demoCache 4032)" "has_run demoBoot 62"
proof -
  have e: "hhdm demoBoot = hhdm demoPmm" "pmmBitmap demoBoot = pmmBitmap demoPmm" "pmmSpinlock demoBoot = pmmSpinlock demoPmm"
    "mem demoBoot = demoBootMem" by (simp_all add: demoBoot_def demoFs_def demoPmm_def)
  show "pmm_inv demoBoot" "window_ok demoBoot" "held demoBoot (rng demoCache 4032)" "has_run demoBoot 62"
    by (rule demo_pmm_like [OF e(1-3)]; simp add: e(4) demo_boot_mem)+
qed

lemma newCache_own: "slabOwn c os n newCache = rng c 144"
  by (simp add: slabOwn_def headers_def slabs_def curSlabs_def freeSlots_def newCache_def)

text \<open>Both caches set up, as \<open>vfsInit\<close> and \<open>tmpfsInit\<close> do it.\<close>

lemma demo_boot_heap:
  "\<exists>k :: fs_state. fs_heap k (rng demoArea 0xe00) \<and> has_run k 62 \<and> k = demoBoot\<lparr>mem := mem k\<rparr>
    \<and> (\<forall>x \<in> rng demoArea 0xe00. mem k x = demoBootMem x)"
proof -
  have cs: "demoCache \<noteq> 0" "unat demoCache + 144 \<le> 2 ^ 64" "demoTmpCache \<noteq> 0" "unat demoTmpCache + 144 \<le> 2 ^ 64"
    "demoArea \<noteq> 0"
    by (simp_all add: demoCache_def demoTmpCache_def demoArea_def)
  have h: "held demoBoot (rng demoCache 144)" by (rule held_subset [OF demo_boot_pmm(3) rng_mono]) simp
  have m0: "mem demoBoot = demoBootMem" by (simp add: demoBoot_def)
  have arm: "rng demoArea 1 \<subseteq> rng demoArea 0xe00" "rng c 64 \<subseteq> rng c 144" for c by (rule rng_mono, simp)+
  have nm: "rng demoCache 64 \<inter> rng demoArea (min 64 (Suc (length ([] :: u8 list)))) = {}"
    "rng demoTmpCache 64 \<inter> rng demoArea (min 64 (Suc (length ([] :: u8 list)))) = {}"
  proof -
    have one: "min 64 (Suc (length ([] :: u8 list))) = 1" by simp
    show "rng demoCache 64 \<inter> rng demoArea (min 64 (Suc (length ([] :: u8 list)))) = {}"
      "rng demoTmpCache 64 \<inter> rng demoArea (min 64 (Suc (length ([] :: u8 list)))) = {}"
      unfolding one using demo_areas(3,4) arm(1) arm(2) [of demoCache] arm(2) [of demoTmpCache] by blast+
  qed
  have c0: "cstr (mem demoBoot) demoArea []" using demo_boot_strings(1) m0 by simp
  have sz: "slotBytes 48 = 56" "slotBytes 88 = 96" "unat (48 :: u64) = 48" "unat (88 :: u64) = 88" by (simp_all add: slotBytes_def)
  obtain k1 where k1: "k1 = demoBoot\<lparr>mem := mem k1\<rparr>" "slab_ready k1 demoCache 56 (slotsPerSlab 48) newCache"
    "same_outside (rng demoCache 144) (mem demoBoot) (mem k1)" "\<forall>A. held demoBoot A \<longrightarrow> held k1 A"
    using slabInitCache_ready [OF demo_boot_pmm(1,2) h cs(1,2) _ _ cs(5) c0 nm(1), of 48] sz by auto
  note p1 = slab_readyD(1,2) [OF k1(2)]
  have h1: "held k1 (rng demoTmpCache 144)" using k1(4) held_subset [OF demo_boot_pmm(3) demo_areas(2)] by blast
  have "demoArea \<notin> rng demoCache 144" by (simp add: in_rng demoArea_def demoCache_def)
  then have c1: "cstr (mem k1) demoArea []" using same_outsideD [OF k1(3)] c0 by simp
  obtain k2 where k2: "k2 = k1\<lparr>mem := mem k2\<rparr>" "slab_ready k2 demoTmpCache 96 (slotsPerSlab 88) newCache"
    "same_outside (rng demoTmpCache 144) (mem k1) (mem k2)" "\<forall>A. held k1 A \<longrightarrow> held k2 A"
    using slabInitCache_ready [OF p1 h1 cs(3,4) _ _ cs(5) c1 nm(2), of 88] sz by auto
  have "slab_ready (k1\<lparr>mem := mem k2\<rparr>) demoCache 56 (slotsPerSlab 48) newCache"
    by (rule slab_ready_write [OF k1(2) h1 _ k2(3)]) (simp add: newCache_own demo_areas(5))
  then have r: "slab_ready k2 demoCache 56 (slotsPerSlab 48) newCache" using k2(1) by simp
  have "held k2 (rng demoArea 0xe00)"
    using k1(4) k2(4) held_subset [OF demo_boot_pmm(3) demo_areas(1)] by blast
  then have "two_caches k2 demoCache 56 demoTmpCache 96 (rng demoArea 0xe00)"
    unfolding two_caches_def using r k2(2) demo_areas(3-5)
    by (intro exI [of _ newCache] exI [of _ "slotsPerSlab 48"] exI [of _ "slotsPerSlab 88"]) (auto simp: newCache_own)
  moreover have caches: "nodeCache k2 = demoCache" "tmpfsNodeCache k2 = demoTmpCache"
    by (subst k2(1), subst k1(1), simp add: demoBoot_def)+
  ultimately have "fs_heap k2 (rng demoArea 0xe00)" by (simp add: fs_heap_def)
  moreover have "has_run k2 62"
  proof -
    have "has_run (demoBoot\<lparr>mem := mem k1\<rparr>) 62" using has_run_write [OF demo_boot_pmm(1) h k1(3)] demo_boot_pmm(4) by simp
    then have "has_run k1 62" using k1(1) by simp
    then have "has_run (k1\<lparr>mem := mem k2\<rparr>) 62" using has_run_write [OF p1(1) h1 k2(3)] by simp
    then show ?thesis using k2(1) by simp
  qed
  moreover have "k2 = demoBoot\<lparr>mem := mem k2\<rparr>" by (subst k2(1), subst k1(1)) simp
  moreover have "mem k2 x = demoBootMem x" if "x \<in> rng demoArea 0xe00" for x
  proof -
    have "x \<notin> rng demoCache 144" "x \<notin> rng demoTmpCache 144" using that demo_areas(3,4) by blast+
    then show ?thesis using same_outsideD [OF k1(3), of x] same_outsideD [OF k2(3), of x] m0 by simp
  qed
  ultimately show ?thesis by blast
qed

subsection \<open>Properties\<close>

text \<open>Creating a file in a directory whose memory is set up, with a name of fewer than 32
  characters, fails only when there is no run of four free pages. Otherwise the directory then
  has the new entry in front of the old ones, the new node is a file of 8192 zero bytes of its
  own, looking the name up finds it and any other name finds what it found before; allocators,
  directory and lists are again as they were required to be, with everything new in use, and
  the rest of the memory in use has not changed.\<close>

theorem tmpfsCreate_correct:
  assumes "fs_heap k U" and "dir_ready k U n es ns" and "name \<noteq> 0" and "cstr (mem k) name s" and "length s < 32"
    and "rng name (Suc (length s)) \<subseteq> U - mntLinks (mntNodes (nodeMnt (mem k) n)) ns"
  shows "tmpfsCreate n name k = Some (Inl (PanicMsg ''OUT OF MEMORY'')) \<and> \<not> has_run k 4
    \<or> (\<exists>k' r t d U'. tmpfsCreate n name k = Some (Inr (0, k')) \<and> fs_heap k' U' \<and> U \<subseteq> U'
         \<and> dir_ready k' U' n ((t, s) # es) (nodeHead r # ns)
         \<and> file_rep (mem k') r t d \<and> rng d 8192 \<subseteq> U' - U \<and> (\<forall>x \<in> rng d 8192. mem k' x = 0)
         \<and> (\<forall>q u. q \<noteq> 0 \<longrightarrow> cstr (mem k') q u \<longrightarrow>
              tmpfsLookup n q k' = Some (Inr (if u = s then r else dir_find (mem k) es u)))
         \<and> (\<forall>x \<in> U - mntLinks (mntNodes (nodeMnt (mem k) n)) ns - dirLinks (fsData (mem k) n) es.
              mem k' x = mem k x))"
  using tmpfsMake_ok [OF assms(1,2) refl refl assms(3-6), of TYPE_FILE]
proof (elim disjE exE conjE)
  fix m' r t U' assume run: "tmpfsMake TYPE_FILE n name k = Some (Inr (0, k\<lparr>mem := m'\<rparr>))"
    and made: "entry_made k U n es ns TYPE_FILE s (k\<lparr>mem := m'\<rparr>) r t U'"
    and keep: "\<forall>x \<in> U - mntLinks (mntNodes (nodeMnt (mem k) n)) ns - dirLinks (fsData (mem k) n) es. m' x = mem k x"
  note e = made [unfolded entry_made_def mem_of_upd]
  have b: "blank_data m' (U \<union> rng r 48 \<union> rng t 88) U' t" using e by simp
  then have "file_rep m' r t (tmpData m' t)" using e by (simp add: file_rep_def blank_data_def)
  moreover have "rng (tmpData m' t) 8192 \<subseteq> U' - U" "\<forall>x \<in> rng (tmpData m' t) 8192. m' x = 0"
    using b unfolding blank_data_def by blast+
  moreover have "\<forall>q u. q \<noteq> 0 \<longrightarrow> cstr m' q u \<longrightarrow>
      tmpfsLookup n q (k\<lparr>mem := m'\<rparr>) = Some (Inr (if u = s then r else dir_find (mem k) es u))"
    using made_lookup [OF made] by simp
  ultimately show ?thesis using run e keep
    by (intro disjI2 exI [of _ "k\<lparr>mem := m'\<rparr>"] exI [of _ r] exI [of _ t] exI [of _ "tmpData m' t"] exI [of _ U'])
      (simp add: make_steps)
qed (simp add: make_steps)

text \<open>C21: mounting a memory file system on a mount without nodes fails only when there is no run of
  four free pages. Otherwise the mount has a root directory with the one entry \<open>dev\<close>, itself
  an empty directory, and the rest of the memory in use is unchanged but for the mount's list
  of nodes and its root pointer.\<close>

theorem tmpfsMount_correct:
  assumes "fs_heap k U" and "mnt \<noteq> 0" and "llist (mem k) (mntNodes mnt) []"
    and "node_rng (mntNodes mnt) \<union> rng (mnt + 176) 8 \<subseteq> U"
    and "lit k '''' \<noteq> 0" and "cstr (mem k) (lit k '''') []" and "rng (lit k '''') 1 \<subseteq> U - node_rng (mntNodes mnt)"
    and "lit k ''dev'' \<noteq> 0" and "cstr (mem k) (lit k ''dev'') [0x64, 0x65, 0x76]"
    and "rng (lit k ''dev'') 4 \<subseteq> U - node_rng (mntNodes mnt) - rng (mnt + 176) 8"
  shows "tmpfsMount mnt k = Some (Inl (PanicMsg ''OUT OF MEMORY'')) \<and> \<not> has_run k 4
    \<or> (\<exists>k' r t dev U' ns. tmpfsMount mnt k = Some (Inr k') \<and> fs_heap k' U' \<and> U \<subseteq> U'
         \<and> mntRoot (mem k') mnt = r \<and> nodeType (mem k') r = TYPE_DIR \<and> nodeMnt (mem k') r = mnt
         \<and> dir_ready k' U' r [(t, [0x64, 0x65, 0x76])] ns
         \<and> tmpNode (mem k') t = dev \<and> dev \<noteq> 0 \<and> nodeType (mem k') dev = TYPE_DIR \<and> dir_rep (mem k') t []
         \<and> tmpfsLookup r (lit k ''dev'') k' = Some (Inr dev)
         \<and> (\<forall>x \<in> U - node_rng (mntNodes mnt) - rng (mnt + 176) 8. mem k' x = mem k x))"
proof -
  have four: "Suc (length [0x64 :: u8, 0x65, 0x76]) = 4" by simp
  have "rng (lit k ''dev'') (Suc (length [0x64 :: u8, 0x65, 0x76])) \<subseteq> U - node_rng (mntNodes mnt) - rng (mnt + 176) 8"
    unfolding four by (rule assms(10))
  moreover have "length [0x64 :: u8, 0x65, 0x76] < 32" by simp
  ultimately have "rng (lit k ''dev'') (Suc (length [0x64 :: u8, 0x65, 0x76])) \<subseteq> U - node_rng (mntNodes mnt) - rng (mnt + 176) 8"
    "length [0x64 :: u8, 0x65, 0x76] < 32" by simp_all
  from tmpfsMount_ok [OF assms(1-9) this(2,1)] show ?thesis
  proof (elim disjE exE conjE)
    fix r m' t U' ns assume run: "tmpfsMount mnt k = Some (Inr (k\<lparr>mem := m'\<rparr>))"
      and h: "fs_heap (k\<lparr>mem := m'\<rparr>) U'" "U \<subseteq> U'"
      and r: "mntRoot m' mnt = r" "nodeType m' r = TYPE_DIR" "nodeMnt m' r = mnt"
      and d: "dir_ready (k\<lparr>mem := m'\<rparr>) U' r [(t, [0x64, 0x65, 0x76])] ns"
      and dev: "nodeType m' (tmpNode m' t) = TYPE_DIR" "tmpNode m' t \<noteq> 0" "dir_rep m' t []"
      and keep: "\<forall>x \<in> U - node_rng (mntNodes mnt) - rng (mnt + 176) 8. m' x = mem k x"
    note dD = dir_readyD [OF d refl refl]
    have "cstr m' (lit k ''dev'') [0x64, 0x65, 0x76]"
    proof (rule cstr_cong [OF assms(9)])
      fix x assume "x \<in> rng (lit k ''dev'') (Suc (length [0x64 :: u8, 0x65, 0x76]))"
      then have "x \<in> rng (lit k ''dev'') 4" unfolding four .
      then show "m' x = mem k x" using keep assms(10) by blast
    qed
    then have "tmpfsLookup r (lit k ''dev'') (k\<lparr>mem := m'\<rparr>) = Some (Inr (tmpNode m' t))"
      using tmpfsLookup_dir [OF dD(1) refl dD(2,4) assms(8), of "[0x64, 0x65, 0x76]"] by (simp add: dir_find_def)
    then show ?thesis using run h r d dev keep
      by (intro disjI2 exI [of _ "k\<lparr>mem := m'\<rparr>"] exI [of _ r] exI [of _ t] exI [of _ "tmpNode m' t"] exI [of _ U'] exI [of _ ns])
        simp
  qed simp_all
qed

lemma demo_boot_lits:
  assumes "k = demoBoot\<lparr>mem := mem k\<rparr>"
  shows "lit k '''' = demoArea" "lit k ''dev'' = demoArea + 0x10" "lit k ''test'' = demoArea + 0x20"
  by (subst assms, simp add: demoBoot_def)+

lemma demo_regions:
  "node_rng (mntNodes demoMnt) \<subseteq> rng demoArea 0xe00" "rng (demoMnt + 176) 8 \<subseteq> rng demoArea 0xe00"
  "rng demoArea 0x30 \<subseteq> rng demoArea 0xe00 - node_rng (mntNodes demoMnt) - rng (demoMnt + 176) 8"
  "rng demoArea 1 \<subseteq> rng demoArea 0x30" "rng (demoArea + 0x10) 4 \<subseteq> rng demoArea 0x30" "rng (demoArea + 0x20) 5 \<subseteq> rng demoArea 0x30"
proof -
  have e: "mntNodes demoMnt = demoArea + 0x1c8" "demoMnt + 176 = demoArea + 0x1b0" by (simp_all add: mntNodes_def demoMnt_def)
  show "node_rng (mntNodes demoMnt) \<subseteq> rng demoArea 0xe00" "rng (demoMnt + 176) 8 \<subseteq> rng demoArea 0xe00"
    unfolding e by (rule rng_sub, simp)+
  have "rng demoArea 0x30 \<inter> rng (demoArea + 0x1c8) 16 = {}" "rng demoArea 0x30 \<inter> rng (demoArea + 0x1b0) 8 = {}"
    using rng_disjoint_base [of 0 "0x30" "0x1c8" 16 demoArea] rng_disjoint_base [of 0 "0x30" "0x1b0" 8 demoArea] by simp_all
  moreover have "rng demoArea 0x30 \<subseteq> rng demoArea 0xe00" by (rule rng_mono) simp
  ultimately show "rng demoArea 0x30 \<subseteq> rng demoArea 0xe00 - node_rng (mntNodes demoMnt) - rng (demoMnt + 176) 8"
    unfolding e by blast
  show "rng demoArea 1 \<subseteq> rng demoArea 0x30" by (rule rng_mono) simp
  show "rng (demoArea + 0x10) 4 \<subseteq> rng demoArea 0x30" "rng (demoArea + 0x20) 5 \<subseteq> rng demoArea 0x30" by (rule rng_sub, simp)+
qed

lemma demo_boot_ready:
  "\<exists>k :: fs_state. fs_heap k (rng demoArea 0xe00) \<and> has_run k 62 \<and> k = demoBoot\<lparr>mem := mem k\<rparr>
    \<and> llist (mem k) (mntNodes demoMnt) [] \<and> cstr (mem k) demoArea [] \<and> cstr (mem k) (demoArea + 0x10) [0x64, 0x65, 0x76]
    \<and> cstr (mem k) (demoArea + 0x20) [0x74, 0x65, 0x73, 0x74]"
proof -
  obtain k :: fs_state where k: "fs_heap k (rng demoArea 0xe00)" "has_run k 62" "k = demoBoot\<lparr>mem := mem k\<rparr>"
    "\<forall>x \<in> rng demoArea 0xe00. mem k x = demoBootMem x" using demo_boot_heap by blast
  have s: "same_outside (- rng demoArea 0xe00) demoBootMem (mem k)" using k(4) by (simp add: same_outside_def)
  have "llist (mem k) (mntNodes demoMnt) []" by (rule llist_frame [OF demo_boot_list s]) (use demo_regions(1) in auto)
  moreover have area: "rng demoArea 0x30 \<subseteq> rng demoArea 0xe00" using demo_regions(3) by blast
  have "\<And>x. x \<in> rng demoArea 0x30 \<Longrightarrow> mem k x = demoBootMem x" using k(4) area by blast
  note same = subsetD [THEN this]
  have "cstr (mem k) demoArea []"
    by (rule cstr_cong [OF demo_boot_strings(1)], rule same [OF demo_regions(4)]) simp
  moreover have "cstr (mem k) (demoArea + 0x10) [0x64, 0x65, 0x76]"
    by (rule cstr_cong [OF demo_boot_strings(2)], rule same [OF demo_regions(5)]) (simp add: numeral_eq_Suc)
  moreover have "cstr (mem k) (demoArea + 0x20) [0x74, 0x65, 0x73, 0x74]"
    by (rule cstr_cong [OF demo_boot_strings(3)], rule same [OF demo_regions(6)]) (simp add: numeral_eq_Suc)
  ultimately show ?thesis using k by blast
qed

theorem tmpfsMount_correct_witness:
  "\<exists>(k :: fs_state) k' dev. tmpfsMount demoMnt k = Some (Inr k') \<and> dev \<noteq> 0
    \<and> tmpfsLookup (mntRoot (mem k') demoMnt) (lit k ''dev'') k' = Some (Inr dev)"
proof -
  obtain k :: fs_state where k: "fs_heap k (rng demoArea 0xe00)" "has_run k 62" "k = demoBoot\<lparr>mem := mem k\<rparr>"
    "llist (mem k) (mntNodes demoMnt) []" "cstr (mem k) demoArea []" "cstr (mem k) (demoArea + 0x10) [0x64, 0x65, 0x76]"
    using demo_boot_ready by blast
  have "has_run k 4" by (rule has_run_less [OF k(2)]) simp
  moreover have "demoMnt \<noteq> 0" "demoArea \<noteq> 0" "demoArea + 0x10 \<noteq> 0" by (simp_all add: demoMnt_def demoArea_def)
  moreover have "node_rng (mntNodes demoMnt) \<union> rng (demoMnt + 176) 8 \<subseteq> rng demoArea 0xe00"
    "rng demoArea 1 \<subseteq> rng demoArea 0xe00 - node_rng (mntNodes demoMnt)"
    "rng (demoArea + 0x10) 4 \<subseteq> rng demoArea 0xe00 - node_rng (mntNodes demoMnt) - rng (demoMnt + 176) 8"
    using demo_regions by blast+
  ultimately obtain k' dev where "tmpfsMount demoMnt k = Some (Inr k')" "dev \<noteq> 0"
    "tmpfsLookup (mntRoot (mem k') demoMnt) (lit k ''dev'') k' = Some (Inr dev)"
    using tmpfsMount_correct [OF k(1) _ k(4)] k(5,6) demo_boot_lits(1,2) [OF k(3)] by auto
  then show ?thesis by (intro exI conjI)
qed

text \<open>The root of that mount, where the witness then creates a file \<open>test\<close>.\<close>

lemma demo_root:
  "\<exists>(k :: fs_state) U n t ns. fs_heap k U \<and> dir_ready k U n [(t, [0x64, 0x65, 0x76])] ns \<and> has_run k 4
    \<and> cstr (mem k) (demoArea + 0x20) [0x74, 0x65, 0x73, 0x74]
    \<and> rng (demoArea + 0x20) 5 \<subseteq> U - mntLinks (mntNodes (nodeMnt (mem k) n)) ns"
proof -
  obtain k :: fs_state where k: "fs_heap k (rng demoArea 0xe00)" "has_run k 62" "k = demoBoot\<lparr>mem := mem k\<rparr>"
    "llist (mem k) (mntNodes demoMnt) []" "cstr (mem k) demoArea []" "cstr (mem k) (demoArea + 0x10) [0x64, 0x65, 0x76]"
    "cstr (mem k) (demoArea + 0x20) [0x74, 0x65, 0x73, 0x74]"
    using demo_boot_ready by blast
  note lits = demo_boot_lits [OF k(3)]
  have nz: "demoMnt \<noteq> 0" "lit k '''' \<noteq> 0" "lit k ''dev'' \<noteq> 0" by (simp_all add: lits demoMnt_def demoArea_def)
  have strs: "cstr (mem k) (lit k '''') []" "cstr (mem k) (lit k ''dev'') [0x64, 0x65, 0x76]"
    unfolding lits by (rule k(5), rule k(6))
  have reg: "node_rng (mntNodes demoMnt) \<union> rng (demoMnt + 176) 8 \<subseteq> rng demoArea 0xe00"
    "rng (lit k '''') 1 \<subseteq> rng demoArea 0xe00 - node_rng (mntNodes demoMnt)"
    "rng (lit k ''dev'') 4 \<subseteq> rng demoArea 0xe00 - node_rng (mntNodes demoMnt) - rng (demoMnt + 176) 8"
    unfolding lits using demo_regions by blast+
  have four: "Suc (length [0x64 :: u8, 0x65, 0x76]) = 4" "length [0x64 :: u8, 0x65, 0x76] < 32" by simp_all
  note mount = tmpfsMount_ok [OF k(1) nz(1) k(4) reg(1) nz(2) strs(1) reg(2) nz(3) strs(2) four(2), unfolded four(1), OF reg(3)]
  have "has_run k (58 + 4)" using k(2) by simp
  with mount has_run_less [OF k(2), of 4] obtain r m' t U' ns where
    c: "fs_heap (k\<lparr>mem := m'\<rparr>) U'" "rng demoArea 0xe00 \<subseteq> U'" "nodeMnt m' r = demoMnt"
      "dir_ready (k\<lparr>mem := m'\<rparr>) U' r [(t, [0x64, 0x65, 0x76])] ns"
      "rng demoArea 0xe00 \<inter> mntLinks (mntNodes demoMnt) ns \<subseteq> node_rng (mntNodes demoMnt)"
      "\<forall>x \<in> rng demoArea 0xe00 - node_rng (mntNodes demoMnt) - rng (demoMnt + 176) 8. m' x = mem k x" "spends 4 k m'"
    by auto
  have name: "rng (demoArea + 0x20) 5 \<subseteq> rng demoArea 0xe00 - node_rng (mntNodes demoMnt) - rng (demoMnt + 176) 8"
    using demo_regions(3,6) by blast
  have five: "Suc (length [0x74 :: u8, 0x65, 0x73, 0x74]) = 5" by simp
  have "cstr m' (demoArea + 0x20) [0x74, 0x65, 0x73, 0x74]"
  proof (rule cstr_cong [OF k(7)], unfold five)
    show "m' x = mem k x" if "x \<in> rng (demoArea + 0x20) 5" for x using c(6) name that by blast
  qed
  moreover have "rng (demoArea + 0x20) 5 \<subseteq> U' - mntLinks (mntNodes (nodeMnt m' r)) ns"
    unfolding c(3) using name c(2,5) by blast
  moreover have "has_run (k\<lparr>mem := m'\<rparr>) 4"
    using c(7) \<open>has_run k (58 + 4)\<close> has_run_less [of "k\<lparr>mem := m'\<rparr>" 58 4] unfolding spends_def by simp
  ultimately show ?thesis using c(1,4)
    by (intro exI [of _ "k\<lparr>mem := m'\<rparr>"] exI [of _ U'] exI [of _ r] exI [of _ t] exI [of _ ns]) simp
qed

theorem tmpfsCreate_correct_witness:
  "\<exists>(k :: fs_state) n k' r t d. tmpfsCreate n (demoArea + 0x20) k = Some (Inr (0, k'))
    \<and> file_rep (mem k') r t d \<and> mem k' d = 0"
proof -
  obtain k :: fs_state and U n t ns where k: "fs_heap k U" "dir_ready k U n [(t, [0x64, 0x65, 0x76])] ns" "has_run k 4"
    "cstr (mem k) (demoArea + 0x20) [0x74, 0x65, 0x73, 0x74]"
    "rng (demoArea + 0x20) 5 \<subseteq> U - mntLinks (mntNodes (nodeMnt (mem k) n)) ns"
    using demo_root by blast
  have nz: "demoArea + 0x20 \<noteq> 0" by (simp add: demoArea_def)
  have len: "length [0x74 :: u8, 0x65, 0x73, 0x74] < 32" "Suc (length [0x74 :: u8, 0x65, 0x73, 0x74]) = 5" by simp_all
  from tmpfsCreate_correct [OF k(1,2) nz k(4) len(1), unfolded len(2), OF k(5)] k(3)
  obtain k' r t' d where "tmpfsCreate n (demoArea + 0x20) k = Some (Inr (0, k'))" "file_rep (mem k') r t' d"
    "\<forall>x \<in> rng d 8192. mem k' x = 0" by blast
  moreover have "d \<in> rng d 8192" by (simp add: in_rng)
  ultimately show ?thesis by blast
qed

end
