(* ===== verification/FsTree.thy ===== *)
theory FsTree
  imports Paths Files
begin

section \<open>The whole tree of files\<close>

text \<open>
  Nodes, directories, files, mounts and allocators as one structure. \<open>fs_tree\<close> is its abstract
  shape; \<open>tree_inv k U T\<close> says that memory holds the tree \<open>T\<close>, that the objects it is made of are
  apart from each other and in use, and that the allocators are in order. Paths can be used on
  such a tree, and creating a file leads to such a tree again.
\<close>

subsection \<open>The shape of a tree\<close>

text \<open>
  A node has a tmpfs node and belongs to a mount; a directory has entries, a file the address of
  its data. Mounts, and the nodes of a mount, are listed newest first.
\<close>

record fs_tree =
  nodes :: "u64 set"
  files :: "u64 set"
  tmpOf :: "u64 \<Rightarrow> u64"
  mntOf :: "u64 \<Rightarrow> u64"
  kidsOf :: "u64 \<Rightarrow> (u64 \<times> u8 list) list"
  dataOf :: "u64 \<Rightarrow> u64"
  mountsOf :: "u64 list"
  listOf :: "u64 \<Rightarrow> u64 list"

text \<open>Its objects: address and number of bytes. The data of files and the lookup's buffer come apart.\<close>

definition tree_objs :: "'a fs_state_scheme \<Rightarrow> fs_tree \<Rightarrow> (u64 \<times> nat) set" where
  "tree_objs k T = (\<lambda>n. (n, 48)) ` nodes T \<union> (\<lambda>n. (tmpOf T n, 88)) ` nodes T \<union> (\<lambda>mnt. (mnt, 216)) ` set (mountsOf T)
     \<union> {(root k, 48), (tmpfsHandler k, 56), (mnts k, 16)}"

definition data_objs :: "'a fs_state_scheme \<Rightarrow> fs_tree \<Rightarrow> (u64 \<times> nat) set" where
  "data_objs k T = (\<lambda>n. (dataOf T n, 8192)) ` files T \<union> {(spBuf k, 64)}"

definition bytes_of :: "(u64 \<times> nat) set \<Rightarrow> u64 set" where
  "bytes_of R = (\<Union>p \<in> R. rng (fst p) (snd p))"

definition apart_objs :: "(u64 \<times> nat) set \<Rightarrow> bool" where
  "apart_objs R \<longleftrightarrow> disjoint_family_on (\<lambda>p. rng (fst p) (snd p)) R"

abbreviation all_objs :: "'a fs_state_scheme \<Rightarrow> fs_tree \<Rightarrow> (u64 \<times> nat) set" where
  "all_objs k T \<equiv> tree_objs k T \<union> data_objs k T"

lemma bytes_of_Un [simp]: "bytes_of (R \<union> S) = bytes_of R \<union> bytes_of S"
  and bytes_of_insert [simp]: "bytes_of (insert p R) = rng (fst p) (snd p) \<union> bytes_of R"
  and bytes_of_empty [simp]: "bytes_of {} = {}"
  by (auto simp: bytes_of_def)

lemma obj_bytes: "p \<in> R \<Longrightarrow> rng (fst p) (snd p) \<subseteq> bytes_of R"
  unfolding bytes_of_def by blast

text \<open>Fields of objects that are apart: of two objects, or at different places of one.\<close>

lemma field_in:
  assumes "(a, l) \<in> R" and "unat i + n \<le> l"
  shows "rng (a + i) n \<subseteq> bytes_of R"
  using rng_sub [OF assms(2), of a] obj_bytes [OF assms(1)] by auto

lemma field_apart:
  assumes R: "apart_objs R" and p: "(a, l) \<in> R" "unat i + n \<le> l" and q: "(b, l') \<in> R" "unat j + n' \<le> l'"
    and ne: "a \<noteq> b \<or> l \<noteq> l' \<or> (unat i + n \<le> unat j \<and> l' \<le> 2 ^ 64) \<or> (unat j + n' \<le> unat i \<and> l \<le> 2 ^ 64)"
  shows "rng (a + i) n \<inter> rng (b + j) n' = {}"
proof (cases "(a, l) = (b, l')")
  case True
  then consider "unat i + n \<le> unat j" "l' \<le> 2 ^ 64" | "unat j + n' \<le> unat i" "l \<le> 2 ^ 64" using ne by auto
  then show ?thesis
  proof cases
    case 1
    then have "unat j + n' \<le> 2 ^ 64" using q(2) by linarith
    then show ?thesis using True rng_disjoint_base [OF 1(1), of n' a] by simp
  next
    case 2
    then have "unat i + n \<le> 2 ^ 64" using p(2) by linarith
    then show ?thesis using True rng_disjoint_base [OF 2(1), of n a] by (simp add: Int_commute)
  qed
next
  case False
  from disjoint_family_onD [OF R [unfolded apart_objs_def] p(1) q(1) this]
  have "rng a l \<inter> rng b l' = {}" by simp
  then show ?thesis using rng_sub [OF p(2), of a] rng_sub [OF q(2), of b] by blast
qed

lemma obj_apart:
  assumes "apart_objs (R \<union> S)" and "R \<inter> S = {}"
  shows "bytes_of R \<inter> bytes_of S = {}"
proof -
  have "rng (fst p) (snd p) \<inter> rng (fst q) (snd q) = {}" if "p \<in> R" "q \<in> S" for p q
    using that assms(2) by (intro disjoint_family_onD [OF assms(1) [unfolded apart_objs_def]]) auto
  then show ?thesis unfolding bytes_of_def by blast
qed

subsection \<open>The invariant\<close>

definition node_inv :: "mem \<Rightarrow> u64 \<Rightarrow> fs_tree \<Rightarrow> u64 \<Rightarrow> bool" where
  "node_inv m h T n \<longleftrightarrow> tmp_node m h (mntOf T n) (if n \<in> files T then TYPE_FILE else TYPE_DIR) n (tmpOf T n)
     \<and> mntOf T n \<in> set (mountsOf T)
     \<and> (if n \<in> files T then tmpData m (tmpOf T n) = dataOf T n \<and> dataOf T n \<noteq> 0 \<and> unat (dataOf T n) + 8192 \<le> 2 ^ 64
        else dir_rep m (tmpOf T n) (kidsOf T n)
          \<and> (\<forall>e \<in> set (kidsOf T n). length (snd e) < 32 \<and> (\<exists>c \<in> nodes T. fst e = tmpOf T c)))"

definition mnt_inv :: "'a fs_state_scheme \<Rightarrow> fs_tree \<Rightarrow> u64 \<Rightarrow> bool" where
  "mnt_inv k T mnt \<longleftrightarrow> mnt \<noteq> 0 \<and> mntRoot (mem k) mnt \<in> insert 0 (nodes T) \<and> mountpoint (mem k) mnt \<in> insert (root k) (nodes T)
     \<and> llist (mem k) (mntNodes mnt) (map nodeHead (listOf T mnt))
     \<and> set (listOf T mnt) \<subseteq> {n \<in> nodes T. mntOf T n = mnt}"

definition handler_inv :: "'a fs_state_scheme \<Rightarrow> bool" where
  "handler_inv k \<longleftrightarrow> tmpfsHandler k \<noteq> 0 \<and> (\<forall>f. code k f \<noteq> 0)
     \<and> opRead (mem k) (tmpfsHandler k) = code k tmpfsReadFn \<and> opWrite (mem k) (tmpfsHandler k) = code k tmpfsWriteFn
     \<and> opCreate (mem k) (tmpfsHandler k) = code k tmpfsCreateFn \<and> opLookup (mem k) (tmpfsHandler k) = code k tmpfsLookupFn"

definition shape_inv :: "'a fs_state_scheme \<Rightarrow> fs_tree \<Rightarrow> bool" where
  "shape_inv k T \<longleftrightarrow> apart_objs (all_objs k T) \<and> files T \<subseteq> nodes T \<and> inj_on (dataOf T) (files T) \<and> root k \<noteq> 0 \<and> spBuf k \<noteq> 0
     \<and> (\<forall>n \<in> files T. kidsOf T n = [])
     \<and> (\<forall>n \<in> nodes T - files T. \<forall>n' \<in> nodes T - files T. n \<noteq> n' \<longrightarrow> fst ` set (kidsOf T n) \<inter> fst ` set (kidsOf T n') = {})"

definition tree_inv :: "'a fs_state_scheme \<Rightarrow> u64 set \<Rightarrow> fs_tree \<Rightarrow> bool" where
  "tree_inv k U T \<longleftrightarrow> fs_heap k U \<and> bytes_of (all_objs k T) \<subseteq> U \<and> shape_inv k T \<and> handler_inv k
     \<and> (\<forall>n \<in> nodes T. node_inv (mem k) (tmpfsHandler k) T n)
     \<and> llist (mem k) (mnts k) (map mntHead (mountsOf T)) \<and> (\<forall>mnt \<in> set (mountsOf T). mnt_inv k T mnt)
     \<and> fs_through (mem k) (mountsOf T) (root k) \<in> insert 0 (nodes T)"

lemma tree_invD:
  assumes "tree_inv k U T"
  shows "fs_heap k U" and "bytes_of (all_objs k T) \<subseteq> U" and "shape_inv k T" and "handler_inv k"
    and "n \<in> nodes T \<Longrightarrow> node_inv (mem k) (tmpfsHandler k) T n"
    and "llist (mem k) (mnts k) (map mntHead (mountsOf T))" and "mnt \<in> set (mountsOf T) \<Longrightarrow> mnt_inv k T mnt"
    and "fs_through (mem k) (mountsOf T) (root k) \<in> insert 0 (nodes T)"
  using assms unfolding tree_inv_def by blast+

lemma objs_in:
  "n \<in> nodes T \<Longrightarrow> (n, 48) \<in> all_objs k T" "n \<in> nodes T \<Longrightarrow> (tmpOf T n, 88) \<in> all_objs k T"
  "mnt \<in> set (mountsOf T) \<Longrightarrow> (mnt, 216) \<in> all_objs k T" "n \<in> files T \<Longrightarrow> (dataOf T n, 8192) \<in> all_objs k T"
  "(root k, 48) \<in> all_objs k T" "(tmpfsHandler k, 56) \<in> all_objs k T" "(mnts k, 16) \<in> all_objs k T" "(spBuf k, 64) \<in> all_objs k T"
  by (auto simp: tree_objs_def data_objs_def)

lemma tree_bytes:
  "n \<in> nodes T \<Longrightarrow> rng n 48 \<subseteq> bytes_of (tree_objs k T)" "n \<in> nodes T \<Longrightarrow> rng (tmpOf T n) 88 \<subseteq> bytes_of (tree_objs k T)"
  "mnt \<in> set (mountsOf T) \<Longrightarrow> rng mnt 216 \<subseteq> bytes_of (tree_objs k T)"
  "rng (tmpfsHandler k) 56 \<subseteq> bytes_of (tree_objs k T)" "node_rng (mnts k) \<subseteq> bytes_of (tree_objs k T)"
  unfolding bytes_of_def tree_objs_def by force+

lemma tree_data_apart:
  assumes "shape_inv k T"
  shows "bytes_of (tree_objs k T) \<inter> bytes_of (data_objs k T) = {}"
proof -
  have "tree_objs k T \<inter> data_objs k T = {}" by (auto simp: tree_objs_def data_objs_def)
  then show ?thesis using assms obj_apart unfolding shape_inv_def by blast
qed

text \<open>The view of lookup on such a tree.\<close>

lemma node_inv_ok:
  assumes T: "tree_inv k U T" and n: "n \<in> nodes T"
  shows "node_ok k (nodes T) (kidsOf T) n"
proof -
  note i = tree_invD(5) [OF T n, unfolded node_inv_def tmp_node_def] and h = tree_invD(4) [OF T, unfolded handler_inv_def]
  show ?thesis
  proof (cases "n \<in> files T")
    case False
    have "length (snd e) \<le> 32 \<and> tmpNode (mem k) (fst e) \<in> insert 0 (nodes T)" if e: "e \<in> set (kidsOf T n)" for e
    proof -
      obtain c where c: "c \<in> nodes T" "fst e = tmpOf T c" "length (snd e) < 32" using i False e by auto
      have "tmpNode (mem k) (tmpOf T c) = c" using tree_invD(5) [OF T c(1)] by (simp add: node_inv_def tmp_node_def)
      then show ?thesis using c by simp
    qed
    then show ?thesis using i h False by (simp add: node_ok_def)
  qed (use i in \<open>simp add: node_ok_def\<close>)
qed

lemma tree_rep: "tree_inv k U T \<Longrightarrow> fs_rep k (nodes T) (kidsOf T) (mountsOf T)"
  using tree_invD [of k U T] node_inv_ok [of k U T] unfolding fs_rep_def handler_inv_def mnt_inv_def by blast

lemma tree_foot:
  assumes T: "tree_inv k U T"
  shows "fs_foot k (nodes T) (kidsOf T) (mountsOf T) \<subseteq> bytes_of (tree_objs k T)"
proof -
  have "node_foot (mem k) (kidsOf T) n \<subseteq> bytes_of (tree_objs k T)" if n: "n \<in> nodes T" for n
  proof -
    note i = tree_invD(5) [OF T n, unfolded node_inv_def tmp_node_def]
    have "rng (fst e) 88 \<subseteq> bytes_of (tree_objs k T)" if "e \<in> set (kidsOf T n)" for e
      using that i tree_invD(3) [OF T, unfolded shape_inv_def] tree_bytes(2) by (cases "n \<in> files T") fastforce+
    then show ?thesis using i tree_bytes(1,2) [of n T k] tree_bytes(4) [of k T] n unfolding node_foot_def by auto
  qed
  then show ?thesis using tree_bytes(3,5) unfolding fs_foot_def by blast
qed

subsection \<open>Writes beside the tree\<close>

lemma node_inv_frame:
  assumes "node_inv m h T n" and out: "same_outside A m m'" and n: "n \<in> nodes T"
    and off: "\<And>c. c \<in> nodes T \<Longrightarrow> (rng c 32 \<union> rng (tmpOf T c) 48 \<union> rng (tmpOf T c + 80) 8) \<inter> A = {}"
    and dir: "n \<notin> files T \<Longrightarrow> dir_rep m (tmpOf T n) (kidsOf T n) \<Longrightarrow> dir_rep m' (tmpOf T n) (kidsOf T n)"
  shows "node_inv m' h T n"
proof -
  have "rng (tmpOf T n + 40) 8 \<subseteq> rng (tmpOf T n) 48" by (rule rng_sub) simp
  then have "rng n 32 \<inter> A = {}" "rng (tmpOf T n + 40) 8 \<inter> A = {}" "rng (tmpOf T n + 80) 8 \<inter> A = {}" using off [OF n] by blast+
  with assms(1) show ?thesis
    using tmp_node_frame [OF _ out, of h "mntOf T n" _ n "tmpOf T n"] load_same_outside [OF out, of "tmpOf T n + 80" 8] dir
    unfolding node_inv_def tmpData_def by (auto split: if_splits)
qed

lemma tree_inv_frame:
  assumes T: "tree_inv k U T" and out: "same_outside A (mem k) m'" and A: "A \<subseteq> U" "bytes_of (tree_objs k T) \<inter> A = {}"
  shows "tree_inv (k\<lparr>mem := m'\<rparr>) U T"
proof -
  note D = tree_invD [OF T]
  let ?k = "k\<lparr>mem := m'\<rparr>"
  have objs: "all_objs ?k T = all_objs k T" by (simp add: tree_objs_def data_objs_def)
  have heap: "fs_heap ?k U" using fs_heap_write [of "mem k" k U m'] D(1) same_outside_mono [OF out A(1)] by simp
  have shape: "shape_inv ?k T" using D(3) unfolding shape_inv_def objs by simp
  have off: "rng a n \<inter> A = {}" if "rng a n \<subseteq> bytes_of (tree_objs k T)" for a n using that A(2) by blast
  have field: "rng (a + i) n \<inter> A = {}" if "rng a l \<subseteq> bytes_of (tree_objs k T)" "unat i + n \<le> l" for a i n l
    using rng_sub [OF that(2), of a] that(1) A(2) by blast
  note h4 = field [OF tree_bytes(4), THEN load_same_outside [OF out]]
  have h: "handler_inv ?k"
    using D(4) h4 [of 8 8] h4 [of 16 8] h4 [of 24 8] h4 [of 48 8]
    by (simp add: handler_inv_def opRead_def opWrite_def opCreate_def opLookup_def)
  have foot: "fs_foot k (nodes T) (kidsOf T) (mountsOf T) \<inter> A = {}" using tree_foot [OF T] A(2) by blast
  note f = fs_rep_frame [OF tree_rep [OF T] out foot]
  have nodes: "node_inv m' (tmpfsHandler k) T n" if n: "n \<in> nodes T" for n
  proof (rule node_inv_frame [OF D(5) [OF n] out n])
    show "(rng c 32 \<union> rng (tmpOf T c) 48 \<union> rng (tmpOf T c + 80) 8) \<inter> A = {}" if "c \<in> nodes T" for c
      using field [OF tree_bytes(1) [OF that], of 0 32] field [OF tree_bytes(2) [OF that], of 0 48]
        field [OF tree_bytes(2) [OF that], of 80 8] by (simp add: Int_Un_distrib2)
    have "node_ok ?k (nodes T) (kidsOf T) n" by (rule fs_repD(2) [OF f(1) n])
    moreover have "nodeType m' n = nodeType (mem k) n" "fsData m' n = fsData (mem k) n"
      using f(4) [OF n] load_same_outside [OF out field [OF tree_bytes(1) [OF n]], of 16 8] by (simp_all add: fsData_def)
    ultimately show "dir_rep m' (tmpOf T n) (kidsOf T n)" if "n \<notin> files T"
      using D(5) [OF n] that by (simp add: node_inv_def tmp_node_def node_ok_def)
  qed
  have mnts: "mnt_inv ?k T mnt" if mnt: "mnt \<in> set (mountsOf T)" for mnt
  proof -
    note i = D(7) [OF mnt, unfolded mnt_inv_def]
    have "llist m' (mntNodes mnt) (map nodeHead (listOf T mnt))"
    proof (rule llist_frame [OF _ out])
      show "llist (mem k) (mntNodes mnt) (map nodeHead (listOf T mnt))" using i by blast
      fix x assume "x \<in> set (mntNodes mnt # map nodeHead (listOf T mnt))"
      then consider "x = mnt + 200" | n where "n \<in> nodes T" "x = n + 32" using i by (auto simp: mntNodes_def nodeHead_def)
      then show "node_rng x \<inter> A = {}"
        using field [OF tree_bytes(3) [OF mnt], of 200 16] field [OF tree_bytes(1), of _ 32 16] by cases simp_all
    qed
    moreover have "mountpoint m' mnt = mountpoint (mem k) mnt" "mntRoot m' mnt = mntRoot (mem k) mnt"
      using field [OF tree_bytes(3) [OF mnt], THEN load_same_outside [OF out], of 168 8]
        field [OF tree_bytes(3) [OF mnt], THEN load_same_outside [OF out], of 176 8]
      by (simp_all add: mountpoint_def mntRoot_def)
    ultimately show ?thesis using i by (simp add: mnt_inv_def)
  qed
  have "llist m' (mnts k) (map mntHead (mountsOf T))" using fs_repD(3) [OF f(1)] by simp
  then show ?thesis
    using heap D(2,8) shape h nodes mnts f(2) unfolding tree_inv_def objs by simp
qed

subsection \<open>Paths on the tree\<close>

text \<open>A string of the caller, beside everything that the tree is made of.\<close>

definition own_str :: "'a fs_state_scheme \<Rightarrow> u64 set \<Rightarrow> fs_tree \<Rightarrow> u64 \<Rightarrow> u8 list \<Rightarrow> bool" where
  "own_str k U T p s \<longleftrightarrow> p \<noteq> 0 \<and> cstr (mem k) p s \<and> rng p (Suc (length s)) \<subseteq> U - bytes_of (all_objs k T)"

definition own_path :: "'a fs_state_scheme \<Rightarrow> u64 set \<Rightarrow> fs_tree \<Rightarrow> u64 \<Rightarrow> u8 list \<Rightarrow> bool" where
  "own_path k U T p s \<longleftrightarrow> own_str k U T p s \<and> (\<forall>q \<in> set (pieces s). length q \<le> 63)"

lemma own_str_keep:
  assumes "own_str k U T p s" and "\<forall>x \<in> U - bytes_of (all_objs k T). m x = mem k x" and "U \<subseteq> U'"
    and "bytes_of (all_objs (k\<lparr>mem := m\<rparr>) T') \<inter> U \<subseteq> bytes_of (all_objs k T)"
  shows "own_str (k\<lparr>mem := m\<rparr>) U' T' p s"
proof -
  have s: "p \<noteq> 0" "cstr (mem k) p s" "rng p (Suc (length s)) \<subseteq> U - bytes_of (all_objs k T)"
    using assms(1) by (simp_all add: own_str_def)
  have "cstr m p s" by (rule cstr_cong [OF s(2)]) (use s(3) assms(2) in blast)
  moreover have "rng p (Suc (length s)) \<subseteq> U' - bytes_of (all_objs (k\<lparr>mem := m\<rparr>) T')" using s(3) assms(3,4) by blast
  ultimately show ?thesis using s(1) by (simp add: own_str_def)
qed

lemma data_bytes: "rng (spBuf k) 64 \<subseteq> bytes_of (data_objs k T)" "n \<in> files T \<Longrightarrow> rng (dataOf T n) 8192 \<subseteq> bytes_of (data_objs k T)"
  unfolding bytes_of_def data_objs_def by force+

lemma tree_path:
  assumes T: "tree_inv k U T" and p: "own_path k U T path s"
  shows "path_ok k (nodes T) (kidsOf T) (mountsOf T) path s"
proof -
  have s: "shape_inv k T" and sp: "spBuf k \<noteq> 0" "root k \<noteq> 0" using tree_invD(3) [OF T] by (simp_all add: shape_inv_def)
  have "fs_foot k (nodes T) (kidsOf T) (mountsOf T) \<inter> rng (spBuf k) 64 = {}"
    using tree_foot [OF T] tree_data_apart [OF s] data_bytes(1) [of k T] by blast
  moreover have "rng path (Suc (length s)) \<inter> rng (spBuf k) 64 = {}"
    using p data_bytes(1) [of k T] unfolding own_path_def own_str_def by auto
  ultimately show ?thesis
    using tree_rep [OF T] tree_invD(8) [OF T] sp p unfolding path_ok_def own_path_def own_str_def by blast
qed

lemma tree_file:
  assumes T: "tree_inv k U T" and p: "own_path k U T path s"
    and n: "fs_at k (kidsOf T) (mountsOf T) s = n" "n \<in> files T"
  shows "file_at k (nodes T) (kidsOf T) (mountsOf T) path s (tmpOf T n) (dataOf T n)"
proof -
  have s: "shape_inv k T" by (rule tree_invD(3) [OF T])
  then have nn: "n \<in> nodes T" using n(2) by (auto simp: shape_inv_def)
  note i = tree_invD(5) [OF T nn, unfolded node_inv_def tmp_node_def] and h = tree_invD(4) [OF T, unfolded handler_inv_def]
  have "apart_objs (all_objs k T)" using s by (simp add: shape_inv_def)
  from field_apart [OF this objs_in(8) _ objs_in(4) [OF n(2)], of 0 64 0 8192]
  have "rng (spBuf k) 64 \<inter> rng (dataOf T n) 8192 = {}" by simp
  moreover have "fs_foot k (nodes T) (kidsOf T) (mountsOf T) \<inter> rng (dataOf T n) 8192 = {}"
    using tree_foot [OF T] tree_data_apart [OF s] data_bytes(2) [OF n(2), of k] by blast
  moreover have "rng path (Suc (length s)) \<inter> rng (dataOf T n) 8192 = {}"
    using p data_bytes(2) [OF n(2), of k] unfolding own_path_def own_str_def by auto
  ultimately have "(fs_foot k (nodes T) (kidsOf T) (mountsOf T) \<union> rng path (Suc (length s)) \<union> rng (spBuf k) 64) \<inter> rng (dataOf T n) 8192 = {}"
    by blast
  moreover have "file_rep (mem k) n (tmpOf T n) (dataOf T n)" using i n(2) by (simp add: file_rep_def)
  ultimately show ?thesis
    using tree_path [OF T p] nn i h unfolding file_at_def Let_def n(1) by simp
qed

subsection \<open>A directory of the tree\<close>

text \<open>Fields that an insertion into the list of a mount, or of a directory, does not reach.\<close>

lemma mntLinks_apart:
  assumes R: "apart_objs (all_objs k T)" and mnt: "mnt \<in> set (mountsOf T)" and ns: "set ns \<subseteq> nodes T"
    and a: "(a, l) \<in> all_objs k T" "unat i + n \<le> l"
    and node: "a \<notin> set ns \<or> l \<noteq> 48 \<or> unat i + n \<le> 32" and mount: "a \<noteq> mnt \<or> l \<noteq> 216 \<or> unat i + n \<le> 200"
  shows "rng (a + i) n \<inter> mntLinks (mntNodes mnt) (map nodeHead ns) = {}"
proof -
  have "rng (a + i) n \<inter> node_rng (mnt + 200) = {}"
    by (rule field_apart [OF R a objs_in(3) [OF mnt]]) (use mount in auto)
  moreover have "rng (a + i) n \<inter> node_rng (q + 32) = {}" if "q \<in> set ns" for q
    by (rule field_apart [OF R a objs_in(1)]) (use that ns node in auto)
  ultimately show ?thesis unfolding mntLinks_def by (auto simp: mntNodes_def nodeHead_def)
qed

lemma dirLinks_apart:
  assumes R: "apart_objs (all_objs k T)" and p: "p \<in> nodes T" and es: "fst ` set es \<subseteq> tmpOf T ` nodes T"
    and a: "(a, l) \<in> all_objs k T" "unat i + n \<le> l"
    and dir: "a \<noteq> tmpOf T p \<or> l \<noteq> 88 \<or> unat i + n \<le> 64 \<or> 80 \<le> unat i"
    and entry: "a \<notin> fst ` set es \<or> l \<noteq> 88 \<or> unat i + n \<le> 48 \<or> 64 \<le> unat i"
  shows "rng (a + i) n \<inter> dirLinks (tmpOf T p) es = {}"
proof -
  have "rng (a + i) n \<inter> node_rng (tmpOf T p + 64) = {}"
    by (rule field_apart [OF R a objs_in(2) [OF p]]) (use dir in auto)
  moreover have "rng (a + i) n \<inter> node_rng (fst e + 48) = {}" if e: "e \<in> set es" for e
  proof -
    obtain c where c: "c \<in> nodes T" "fst e = tmpOf T c" using e es by blast
    show ?thesis unfolding c(2)
      by (rule field_apart [OF R a objs_in(2) [OF c(1)]]) (use entry imageI [OF e, of fst] c(2) in auto)
  qed
  ultimately show ?thesis unfolding dirLinks_def by (auto simp: children_def childHead_def)
qed

lemma mntLinks_in:
  assumes "mnt \<in> set (mountsOf T)" and "set ns \<subseteq> nodes T"
  shows "mntLinks (mntNodes mnt) (map nodeHead ns) \<subseteq> bytes_of (tree_objs k T)"
proof -
  have "node_rng (mnt + 200) \<subseteq> rng mnt 216" "\<And>q. node_rng (q + 32) \<subseteq> rng q 48" by (rule rng_sub; simp)+
  then have "node_rng (mnt + 200) \<subseteq> bytes_of (tree_objs k T)" "\<And>q. q \<in> nodes T \<Longrightarrow> node_rng (q + 32) \<subseteq> bytes_of (tree_objs k T)"
    using tree_bytes(3) [OF assms(1)] tree_bytes(1) by blast+
  then show ?thesis using assms(2) unfolding mntLinks_def by (auto simp: mntNodes_def nodeHead_def)
qed

lemma dirLinks_in:
  assumes "p \<in> nodes T" and "fst ` set es \<subseteq> tmpOf T ` nodes T"
  shows "dirLinks (tmpOf T p) es \<subseteq> bytes_of (tree_objs k T)"
proof -
  have part: "node_rng (t + 64) \<subseteq> rng t 88" "node_rng (t + 48) \<subseteq> rng t 88" for t by (rule rng_sub; simp)+
  have "node_rng (fst e + 48) \<subseteq> bytes_of (tree_objs k T)" if e: "e \<in> set es" for e
  proof -
    obtain c where c: "c \<in> nodes T" "fst e = tmpOf T c" using assms(2) e by blast
    show ?thesis unfolding c(2) by (rule subset_trans [OF part(2) tree_bytes(2) [OF c(1)]])
  qed
  moreover have "node_rng (tmpOf T p + 64) \<subseteq> bytes_of (tree_objs k T)"
    by (rule subset_trans [OF part(1) tree_bytes(2) [OF assms(1)]])
  ultimately show ?thesis unfolding dirLinks_def children_def childHead_def by (intro Un_least UN_least) blast
qed

lemma tree_dirD:
  assumes T: "tree_inv k U T" and n: "n \<in> nodes T - files T"
  shows "tmp_node (mem k) (tmpfsHandler k) (mntOf T n) TYPE_DIR n (tmpOf T n)" and "mntOf T n \<in> set (mountsOf T)"
    and "dir_rep (mem k) (tmpOf T n) (kidsOf T n)" and "\<forall>e \<in> set (kidsOf T n). length (snd e) < 32"
    and "fst ` set (kidsOf T n) \<subseteq> tmpOf T ` nodes T"
proof -
  have nn: "n \<in> nodes T" "n \<notin> files T" using n by blast+
  note i = tree_invD(5) [OF T nn(1), unfolded node_inv_def]
  show "tmp_node (mem k) (tmpfsHandler k) (mntOf T n) TYPE_DIR n (tmpOf T n)" "mntOf T n \<in> set (mountsOf T)"
    "dir_rep (mem k) (tmpOf T n) (kidsOf T n)" "\<forall>e \<in> set (kidsOf T n). length (snd e) < 32"
    using i nn(2) by simp_all
  have "\<forall>e \<in> set (kidsOf T n). \<exists>c \<in> nodes T. fst e = tmpOf T c" using i nn(2) by simp
  then show "fst ` set (kidsOf T n) \<subseteq> tmpOf T ` nodes T" by blast
qed

lemma tree_mntD:
  assumes T: "tree_inv k U T" and mnt: "mnt \<in> set (mountsOf T)"
  shows "mnt \<noteq> 0" and "llist (mem k) (mntNodes mnt) (map nodeHead (listOf T mnt))" and "set (listOf T mnt) \<subseteq> nodes T"
    and "\<forall>n \<in> set (listOf T mnt). mntOf T n = mnt" and "mountpoint (mem k) mnt \<in> insert (root k) (nodes T)"
    and "mntRoot (mem k) mnt \<in> insert 0 (nodes T)"
  using tree_invD(7) [OF T mnt] unfolding mnt_inv_def by blast+

lemma tree_dir_ready:
  assumes T: "tree_inv k U T" and n: "n \<in> nodes T - files T"
  shows "dir_ready k U n (kidsOf T n) (map nodeHead (listOf T (mntOf T n)))"
proof -
  note d = tree_dirD [OF T n] and s = tree_invD(3) [OF T]
  note m = tree_mntD [OF T d(2)]
  have R: "apart_objs (all_objs k T)" using s by (simp add: shape_inv_def)
  have nn: "n \<in> nodes T" using n by simp
  let ?L = "mntLinks (mntNodes (mntOf T n)) (map nodeHead (listOf T (mntOf T n)))"
    and ?O = "dirObjs (tmpOf T n) (kidsOf T n)"
  note L = mntLinks_apart [OF R d(2) m(3)]
  have U: "bytes_of (tree_objs k T) \<subseteq> U" using tree_invD(2) [OF T] by simp
  have O: "\<exists>q \<in> nodes T. c = tmpOf T q" if "c \<in> ?O" for c using that d(5) nn unfolding dirObjs_def by blast
  have objs: "rng c 88 \<subseteq> U \<and> rng c 88 \<inter> ?L = {} \<and> rng n 32 \<inter> rng c 88 = {}" if c: "c \<in> ?O" for c
  proof -
    obtain q where q: "q \<in> nodes T" "c = tmpOf T q" using O [OF c] by blast
    then show ?thesis
      using tree_bytes(2) [OF q(1), of k] U L [OF objs_in(2) [OF q(1)], of 0 88] field_apart [OF R objs_in(1) [OF nn] _ objs_in(2) [OF q(1)], of 0 32 0 88]
      by auto
  qed
  have "disjoint_family_on (\<lambda>c. rng c 88) ?O"
    unfolding disjoint_family_on_def
  proof (intro ballI impI)
    fix a b assume ab: "a \<in> ?O" "b \<in> ?O" "a \<noteq> b"
    then obtain p q where "p \<in> nodes T" "q \<in> nodes T" "a = tmpOf T p" "b = tmpOf T q" using O by metis
    then show "rng a 88 \<inter> rng b 88 = {}"
      using field_apart [OF R objs_in(2) _ objs_in(2), of p 0 88 q 0 88] ab(3) by simp
  qed
  moreover have "?L \<subseteq> U" using mntLinks_in [OF d(2) m(3)] U by blast
  moreover have "rng n 32 \<subseteq> U - ?L"
  proof -
    have "rng n 32 \<subseteq> rng n 48" by (rule rng_mono) simp
    then show ?thesis using tree_bytes(1) [OF nn, of k] U L [OF objs_in(1) [OF nn], of 0 32] by auto
  qed
  moreover have "objBytes ?O \<subseteq> U - ?L" "rng n 32 \<inter> objBytes ?O = {}" using objs unfolding objBytes_def by blast+
  ultimately show ?thesis
    using d(1,3,4) m(1,2) by (intro dir_readyI [where t = "tmpOf T n" and mnt = "mntOf T n"]) (simp_all add: tmp_node_def)
qed

subsection \<open>The tree with a new file\<close>

definition add_file :: "fs_tree \<Rightarrow> u64 \<Rightarrow> u64 \<Rightarrow> u64 \<Rightarrow> u64 \<Rightarrow> u8 list \<Rightarrow> fs_tree" where
  "add_file T n f t d q = T\<lparr>nodes := insert f (nodes T), files := insert f (files T),
     tmpOf := (tmpOf T)(f := t), mntOf := (mntOf T)(f := mntOf T n),
     kidsOf := (kidsOf T)(n := (t, q) # kidsOf T n, f := []), dataOf := (dataOf T)(f := d),
     listOf := (listOf T)(mntOf T n := f # listOf T (mntOf T n))\<rparr>"

lemma add_file_sel [simp]:
  "nodes (add_file T n f t d q) = insert f (nodes T)" "files (add_file T n f t d q) = insert f (files T)"
  "mountsOf (add_file T n f t d q) = mountsOf T" "dataOf (add_file T n f t d q) = (dataOf T)(f := d)"
  "kidsOf (add_file T n f t d q) = (kidsOf T)(n := (t, q) # kidsOf T n, f := [])"
  by (simp_all add: add_file_def)

text \<open>Its objects are the old ones and three more.\<close>

lemma add_file_objs:
  assumes "f \<notin> nodes T" and "files T \<subseteq> nodes T"
  shows "all_objs k (add_file T n f t d q) = insert (f, 48) (insert (t, 88) (insert (d, 8192) (all_objs k T)))"
proof -
  have upd: "(\<lambda>c. ((g(f := y)) c, l)) ` insert f A = insert (y, l) ((\<lambda>c. (g c, l)) ` A)" if "A \<subseteq> nodes T"
    for g :: "u64 \<Rightarrow> u64" and y A and l :: nat
  proof -
    have "((g(f := y)) c, l) = (g c, l)" if "c \<in> A" for c using that \<open>A \<subseteq> nodes T\<close> assms(1) by auto
    then show ?thesis by (simp add: image_def) blast
  qed
  from upd [OF order_refl, of "tmpOf T" t 88] upd [OF assms(2), of "dataOf T" d 8192]
  show ?thesis unfolding tree_objs_def data_objs_def add_file_def by (simp add: insert_commute Un_commute)
qed

lemma apart_insert:
  assumes "apart_objs R" and "rng (fst p) (snd p) \<inter> bytes_of R = {}"
  shows "apart_objs (insert p R)"
  using assms unfolding apart_objs_def disjoint_family_on_def bytes_of_def by fastforce

text \<open>Memory after \<open>tmpfsCreate\<close> has made the file \<open>f\<close> with tmpfs node \<open>t\<close> and name \<open>q\<close> in the directory \<open>n\<close>.\<close>

definition file_added ::
    "'a fs_state_scheme \<Rightarrow> u64 set \<Rightarrow> fs_tree \<Rightarrow> u64 \<Rightarrow> u8 list \<Rightarrow> u64 \<Rightarrow> u64 \<Rightarrow> mem \<Rightarrow> u64 set \<Rightarrow> bool" where
  "file_added k U T n q f t m' U' \<longleftrightarrow> tree_inv k U T \<and> n \<in> nodes T - files T \<and> length q < 32
     \<and> entry_made k U n (kidsOf T n) (map nodeHead (listOf T (mntOf T n))) TYPE_FILE q (k\<lparr>mem := m'\<rparr>) f t U'
     \<and> (\<forall>x \<in> U - mntLinks (mntNodes (mntOf T n)) (map nodeHead (listOf T (mntOf T n))) - dirLinks (tmpOf T n) (kidsOf T n).
          m' x = mem k x)"

lemma file_addedD:
  assumes "file_added k U T n q f t m' U'"
  shows "tree_inv k U T" and "n \<in> nodes T - files T" and "length q < 32"
    and "entry_made k U n (kidsOf T n) (map nodeHead (listOf T (mntOf T n))) TYPE_FILE q (k\<lparr>mem := m'\<rparr>) f t U'"
    and "apart_objs (all_objs k T)" and "bytes_of (all_objs k T) \<subseteq> U" and "files T \<subseteq> nodes T"
proof -
  show T: "tree_inv k U T" and "n \<in> nodes T - files T" "length q < 32"
    "entry_made k U n (kidsOf T n) (map nodeHead (listOf T (mntOf T n))) TYPE_FILE q (k\<lparr>mem := m'\<rparr>) f t U'"
    using assms unfolding file_added_def by blast+
  show "apart_objs (all_objs k T)" "bytes_of (all_objs k T) \<subseteq> U" "files T \<subseteq> nodes T"
    using tree_invD(2,3) [OF T] unfolding shape_inv_def by blast+
qed

text \<open>A field of an old object keeps its bytes, unless it is one of the links.\<close>

lemma added_field:
  assumes F: "file_added k U T n q f t m' U'" and a: "(a, l) \<in> all_objs k T" "unat i + j \<le> l"
    and node: "a \<notin> set (listOf T (mntOf T n)) \<or> l \<noteq> 48 \<or> unat i + j \<le> 32"
    and mount: "a \<noteq> mntOf T n \<or> l \<noteq> 216 \<or> unat i + j \<le> 200"
    and dir: "a \<noteq> tmpOf T n \<or> l \<noteq> 88 \<or> unat i + j \<le> 64 \<or> 80 \<le> unat i"
    and entry: "a \<notin> fst ` set (kidsOf T n) \<or> l \<noteq> 88 \<or> unat i + j \<le> 48 \<or> 64 \<le> unat i"
  shows "\<forall>x \<in> rng (a + i) j. m' x = mem k x" and "load j m' (a + i) = load j (mem k) (a + i)"
proof -
  note D = file_addedD [OF F]
  note d = tree_dirD [OF D(1,2)]
  note m = tree_mntD [OF D(1) d(2)]
  let ?L = "mntLinks (mntNodes (mntOf T n)) (map nodeHead (listOf T (mntOf T n)))" and ?D = "dirLinks (tmpOf T n) (kidsOf T n)"
  have "n \<in> nodes T" using D(2) by simp
  then have "rng (a + i) j \<inter> ?L = {}" "rng (a + i) j \<inter> ?D = {}"
    using mntLinks_apart [OF D(5) d(2) m(3) a node mount] dirLinks_apart [OF D(5) _ d(5) a dir entry] by blast+
  moreover have "rng (a + i) j \<subseteq> U" using field_in [OF a] D(6) by blast
  ultimately have sub: "rng (a + i) j \<subseteq> U - ?L - ?D" by blast
  have "\<forall>x \<in> U - ?L - ?D. m' x = mem k x" using F unfolding file_added_def by (elim conjE)
  then show same: "\<forall>x \<in> rng (a + i) j. m' x = mem k x" using sub by blast
  then show "load j m' (a + i) = load j (mem k) (a + i)" by (intro load_cong) blast
qed

text \<open>The new objects are apart from the old ones.\<close>

lemma added_new:
  assumes F: "file_added k U T n q f t m' U'"
  shows "f \<notin> nodes T" and "\<And>c. c \<in> nodes T \<Longrightarrow> tmpOf T c \<noteq> t" and "\<And>c. c \<in> files T \<Longrightarrow> dataOf T c \<noteq> tmpData m' t"
    and "f \<noteq> root k" and "f \<noteq> n"
    and "rng (tmpData m' t) 8192 \<inter> U = {}" and "\<forall>x \<in> rng (tmpData m' t) 8192. m' x = 0" and "rng (tmpData m' t) 8192 \<subseteq> U'"
    and "bytes_of (all_objs k (add_file T n f t (tmpData m' t) q)) \<subseteq> U'"
    and "apart_objs (all_objs k (add_file T n f t (tmpData m' t) q))"
    and "bytes_of (all_objs k (add_file T n f t (tmpData m' t) q)) \<inter> U \<subseteq> bytes_of (all_objs k T)"
proof -
  note D = file_addedD [OF F]
  note e = D(4) [unfolded entry_made_def mem_of_upd]
  have b: "blank_data m' (U \<union> rng f 48 \<union> rng t 88) U' t" using e by simp
  have new: "U \<inter> rng f 48 = {}" "U \<inter> rng t 88 = {}" "rng f 48 \<inter> rng t 88 = {}" "rng f 48 \<subseteq> U'" "rng t 88 \<subseteq> U'" "U \<subseteq> U'"
    using e by blast+
  show d: "rng (tmpData m' t) 8192 \<inter> U = {}" "\<forall>x \<in> rng (tmpData m' t) 8192. m' x = 0" "rng (tmpData m' t) 8192 \<subseteq> U'"
    using b unfolding blank_data_def by blast+
  have "f \<in> rng f 48" "t \<in> rng t 88" "tmpData m' t \<in> rng (tmpData m' t) 8192" by (simp_all add: in_rng)
  then have out: "f \<notin> U" "t \<notin> U" "tmpData m' t \<notin> U" using new(1,2) d(1) by blast+
  have old: "a \<in> U" if "(a, l) \<in> all_objs k T" "0 < l" for a l
  proof -
    have "a \<in> rng a l" using that(2) by (simp add: in_rng)
    moreover have "rng a l \<subseteq> bytes_of (all_objs k T)" using obj_bytes [OF that(1)] by simp
    ultimately show ?thesis using D(6) by blast
  qed
  show f: "f \<notin> nodes T" using old [OF objs_in(1)] out(1) by auto
  show "f \<noteq> root k" using old [OF objs_in(5)] out(1) by auto
  show "f \<noteq> n" using f D(2) by auto
  show "tmpOf T c \<noteq> t" if "c \<in> nodes T" for c using old [OF objs_in(2) [OF that]] out(2) by auto
  show "dataOf T c \<noteq> tmpData m' t" if "c \<in> files T" for c using old [OF objs_in(4) [OF that]] out(3) by auto
  have objs: "all_objs k (add_file T n f t (tmpData m' t) q)
      = insert (f, 48) (insert (t, 88) (insert (tmpData m' t, 8192) (all_objs k T)))"
    by (rule add_file_objs [OF f D(7)])
  show "bytes_of (all_objs k (add_file T n f t (tmpData m' t) q)) \<subseteq> U'"
    unfolding objs bytes_of_insert using d(3) new(4-6) D(6) by auto
  show "bytes_of (all_objs k (add_file T n f t (tmpData m' t) q)) \<inter> U \<subseteq> bytes_of (all_objs k T)"
    unfolding objs bytes_of_insert using d(1) new(1,2) by auto
  have "rng (tmpData m' t) 8192 \<inter> rng f 48 = {}" "rng (tmpData m' t) 8192 \<inter> rng t 88 = {}"
    using b unfolding blank_data_def by blast+
  then show "apart_objs (all_objs k (add_file T n f t (tmpData m' t) q))"
    unfolding objs using d(1) new(1-3) D(6)
    by (intro apart_insert D(5)) (simp_all add: Int_Un_distrib, blast+)
qed

lemma dir_rep_fields:
  assumes d: "dir_rep m t es" and len: "\<forall>e \<in> set es. length (snd e) < 32"
    and head: "\<forall>x \<in> rng (t + 64) 16. m' x = m x"
    and entry: "\<forall>e \<in> set es. (\<forall>x \<in> rng (fst e) 32. m' x = m x) \<and> (\<forall>x \<in> rng (fst e + 48) 16. m' x = m x)"
  shows "dir_rep m' t es"
proof -
  define A where "A = {x. m' x \<noteq> m x}"
  have out: "same_outside A m m'" by (simp add: A_def same_outside_def)
  have "llist m' (children t) (map (\<lambda>e. childHead (fst e)) es)"
  proof (rule llist_frame [OF _ out])
    show "llist m (children t) (map (\<lambda>e. childHead (fst e)) es)" using d unfolding dir_rep_def by (rule conjunct1)
    fix x assume "x \<in> set (children t # map (\<lambda>e. childHead (fst e)) es)"
    then consider "x = t + 64" | e where "e \<in> set es" "x = fst e + 48" by (auto simp: children_def childHead_def)
    then show "node_rng x \<inter> A = {}"
    proof cases
      case 1
      then show ?thesis using head unfolding A_def by auto
    next
      case (2 e)
      then show ?thesis using entry unfolding A_def by auto
    qed
  qed
  moreover have "cstr m' (fst e) (snd e)" if e: "e \<in> set es" for e
  proof (rule cstr_cong)
    show "cstr m (fst e) (snd e)" using d e by (simp add: dir_rep_def)
    have "rng (fst e) (Suc (length (snd e))) \<subseteq> rng (fst e) 32" using len e by (intro rng_mono) (simp add: Suc_le_eq)
    then show "m' x = m x" if "x \<in> rng (fst e) (Suc (length (snd e)))" for x using entry e that by blast
  qed
  ultimately show ?thesis using d by (simp add: dir_rep_def)
qed

lemma added_tmp_node:
  assumes F: "file_added k U T n q f t m' U'" and c: "c \<in> nodes T" "tmp_node (mem k) h mnt ty c (tmpOf T c)"
  shows "tmp_node m' h mnt ty c (tmpOf T c)"
proof (rule tmp_node_frame [OF c(2), of "{x. m' x \<noteq> mem k x}"])
  show "same_outside {x. m' x \<noteq> mem k x} (mem k) m'" by (simp add: same_outside_def)
  show "rng c 32 \<inter> {x. m' x \<noteq> mem k x} = {}" using added_field(1) [OF F objs_in(1) [OF c(1)], of 0 32] by auto
  show "rng (tmpOf T c + 40) 8 \<inter> {x. m' x \<noteq> mem k x} = {}"
    using added_field(1) [OF F objs_in(2) [OF c(1)], of 40 8] by auto
qed

lemma added_dir:
  assumes F: "file_added k U T n q f t m' U'" and p: "p \<in> nodes T - files T" "p \<noteq> n"
  shows "dir_rep m' (tmpOf T p) (kidsOf T p)"
proof -
  note D = file_addedD [OF F]
  note d = tree_dirD [OF D(1) p(1)]
  have pn: "p \<in> nodes T" "n \<in> nodes T" using p(1) D(2) by blast+
  have s: "shape_inv k T" by (rule tree_invD(3) [OF D(1)])
  then have kids: "fst ` set (kidsOf T p) \<inter> fst ` set (kidsOf T n) = {}"
    using p D(2) unfolding shape_inv_def by blast
  have inj: "tmpOf T p \<noteq> tmpOf T n"
  proof -
    have "tmpNode (mem k) (tmpOf T p) = p" "tmpNode (mem k) (tmpOf T n) = n"
      using d(1) tree_dirD(1) [OF D(1,2)] by (simp_all add: tmp_node_def)
    then show ?thesis using p(2) by metis
  qed
  show ?thesis
  proof (rule dir_rep_fields [OF d(3,4)])
    show "\<forall>x \<in> rng (tmpOf T p + 64) 16. m' x = mem k x"
      by (rule added_field(1) [OF F objs_in(2) [OF pn(1)]]) (use inj in auto)
    show "\<forall>e \<in> set (kidsOf T p). (\<forall>x \<in> rng (fst e) 32. m' x = mem k x) \<and> (\<forall>x \<in> rng (fst e + 48) 16. m' x = mem k x)"
    proof (intro ballI conjI)
      fix e x assume e: "e \<in> set (kidsOf T p)"
      then obtain c where c: "c \<in> nodes T" "fst e = tmpOf T c" using d(5) by blast
      have ne: "fst e \<notin> fst ` set (kidsOf T n)" using kids e by blast
      show "m' x = mem k x" if "x \<in> rng (fst e) 32"
        using added_field(1) [OF F objs_in(2) [OF c(1)], of 0 32] that c(2) by simp
      show "m' x = mem k x" if "x \<in> rng (fst e + 48) 16"
        using added_field(1) [OF F objs_in(2) [OF c(1)], of 48 16] that c(2) ne by simp
    qed
  qed
qed

text \<open>Directories, nodes, mounts, and then the whole.\<close>

lemma added_nodes:
  assumes F: "file_added k U T n q f t m' U'" and c: "c \<in> insert f (nodes T)"
  shows "node_inv m' (tmpfsHandler k) (add_file T n f t (tmpData m' t) q) c"
proof -
  note D = file_addedD [OF F] and new = added_new [OF F]
  note e = D(4) [unfolded entry_made_def mem_of_upd] and dn = tree_dirD [OF D(1,2)]
  let ?T = "add_file T n f t (tmpData m' t) q"
  have nn: "n \<in> nodes T" "n \<notin> files T" using D(2) by blast+
  have mn: "nodeMnt (mem k) n = mntOf T n" "fsData m' n = tmpOf T n"
    using dn(1) e by (simp_all add: tmp_node_def)
  show ?thesis
  proof (cases "c = f")
    case True
    have "tmpData m' t \<noteq> 0 \<and> unat (tmpData m' t) + 8192 \<le> 2 ^ 64" using e by (simp add: blank_data_def)
    then show ?thesis
      using True e dn(2) mn(1) by (simp add: node_inv_def add_file_def tmp_node_def)
  next
    case f: False
    then have c: "c \<in> nodes T" using c by simp
    note i = tree_invD(5) [OF D(1) c, unfolded node_inv_def]
    have tn: "tmp_node m' (tmpfsHandler k) (mntOf T c) (if c \<in> files T then TYPE_FILE else TYPE_DIR) c (tmpOf T c)"
      using added_tmp_node [OF F c] i by blast
    show ?thesis
    proof (cases "c \<in> files T")
      case True
      have "load 8 m' (tmpOf T c + 80) = load 8 (mem k) (tmpOf T c + 80)"
        by (rule added_field(2) [OF F objs_in(2) [OF c]]) simp_all
      then show ?thesis using True f i tn by (simp add: node_inv_def add_file_def tmpData_def)
    next
      case dir: False
      have old: "\<forall>e \<in> set (kidsOf T c). length (snd e) < 32 \<and> (\<exists>b \<in> nodes T. fst e = tmpOf T b)" using i dir by simp
      have up: "\<exists>b \<in> insert f (nodes T). fst e = ((tmpOf T)(f := t)) b" if "e \<in> set (kidsOf T c)" for e
        using old that new(1) by (metis fun_upd_other insertCI)
      show ?thesis
      proof (cases "c = n")
        case True
        have "dir_ready (k\<lparr>mem := m'\<rparr>) U' n ((t, q) # kidsOf T n) (nodeHead f # map nodeHead (listOf T (mntOf T n)))"
          using e by (elim conjE)
        from dir_readyD(4) [OF this _ refl] mn(2) have "dir_rep m' (tmpOf T n) ((t, q) # kidsOf T n)" by simp
        then show ?thesis
          using True tn i up old D(3) new(5) nn by (simp add: node_inv_def add_file_def)
      next
        case False
        have "dir_rep m' (tmpOf T c) (kidsOf T c)" using added_dir [OF F] c dir False by blast
        then show ?thesis using False f dir tn i up old by (simp add: node_inv_def add_file_def)
      qed
    qed
  qed
qed

lemma added_mnts:
  assumes F: "file_added k U T n q f t m' U'" and mnt: "mnt \<in> set (mountsOf T)"
  shows "mnt_inv (k\<lparr>mem := m'\<rparr>) (add_file T n f t (tmpData m' t) q) mnt"
    and "mountpoint m' mnt = mountpoint (mem k) mnt" and "mntRoot m' mnt = mntRoot (mem k) mnt"
proof -
  note D = file_addedD [OF F] and new = added_new [OF F]
  note e = D(4) [unfolded entry_made_def mem_of_upd] and dn = tree_dirD [OF D(1,2)]
  note m = tree_mntD [OF D(1) mnt]
  show fields: "mountpoint m' mnt = mountpoint (mem k) mnt" "mntRoot m' mnt = mntRoot (mem k) mnt"
    using added_field(2) [OF F objs_in(3) [OF mnt], of 168 8] added_field(2) [OF F objs_in(3) [OF mnt], of 176 8]
    by (simp_all add: mountpoint_def mntRoot_def)
  have mn: "nodeMnt m' n = mntOf T n" "nodeMnt (mem k) n = mntOf T n" using dn(1) e by (simp_all add: tmp_node_def)
  have l: "llist m' (mntNodes mnt) (map nodeHead (if mnt = mntOf T n then f # listOf T mnt else listOf T mnt))"
  proof (cases "mnt = mntOf T n")
    case True
    have "dir_ready (k\<lparr>mem := m'\<rparr>) U' n ((t, q) # kidsOf T n) (nodeHead f # map nodeHead (listOf T (mntOf T n)))"
      using e by (elim conjE)
    from dir_readyD(7) [OF this refl] mn(1) show ?thesis using True by simp
  next
    case False
    have "llist m' (mntNodes mnt) (map nodeHead (listOf T mnt))"
    proof (rule llist_frame [OF m(2), of "{x. m' x \<noteq> mem k x}"])
      show "same_outside {x. m' x \<noteq> mem k x} (mem k) m'" by (simp add: same_outside_def)
      fix x assume "x \<in> set (mntNodes mnt # map nodeHead (listOf T mnt))"
      then consider "x = mnt + 200" | b where "b \<in> set (listOf T mnt)" "x = b + 32" by (auto simp: mntNodes_def nodeHead_def)
      then show "node_rng x \<inter> {x. m' x \<noteq> mem k x} = {}"
      proof cases
        case 1
        then show ?thesis using added_field(1) [OF F objs_in(3) [OF mnt], of 200 16] False by auto
      next
        case (2 b)
        then have b: "b \<in> nodes T" "mntOf T b = mnt" using m(3,4) by blast+
        then have "b \<notin> set (listOf T (mntOf T n))" using tree_mntD(4) [OF D(1) dn(2)] False by auto
        then show ?thesis using added_field(1) [OF F objs_in(1) [OF b(1)], of 32 16] 2(2) by auto
      qed
    qed
    then show ?thesis using False by simp
  qed
  show "mnt_inv (k\<lparr>mem := m'\<rparr>) (add_file T n f t (tmpData m' t) q) mnt"
    unfolding mnt_inv_def
  proof (intro conjI)
    have "set (listOf T b) \<subseteq> nodes T" if "b \<in> set (mountsOf T)" for b by (rule tree_mntD(3) [OF D(1) that])
    then show "set (listOf (add_file T n f t (tmpData m' t) q) mnt)
        \<subseteq> {c \<in> nodes (add_file T n f t (tmpData m' t) q). mntOf (add_file T n f t (tmpData m' t) q) c = mnt}"
      using m(3,4) new(1) by (auto simp: add_file_def)
    show "mntRoot (mem (k\<lparr>mem := m'\<rparr>)) mnt \<in> insert 0 (nodes (add_file T n f t (tmpData m' t) q))"
      "mountpoint (mem (k\<lparr>mem := m'\<rparr>)) mnt \<in> insert (root (k\<lparr>mem := m'\<rparr>)) (nodes (add_file T n f t (tmpData m' t) q))"
      using m(5,6) fields by auto
    have "listOf (add_file T n f t (tmpData m' t) q) mnt = (if mnt = mntOf T n then f # listOf T mnt else listOf T mnt)"
      by (simp add: add_file_def)
    with l show "llist (mem (k\<lparr>mem := m'\<rparr>)) (mntNodes mnt) (map nodeHead (listOf (add_file T n f t (tmpData m' t) q) mnt))"
      by (simp only: mem_of_upd)
  qed (rule m(1))
qed

lemma grow_disjoint:
  assumes "K p \<inter> K p' = {}" and "t \<notin> K p" and "t \<notin> K p'" and "p \<noteq> p'"
    and big: "A \<subseteq> insert t (K p)" "B \<subseteq> insert t (K p')" and small: "p \<noteq> n \<Longrightarrow> A \<subseteq> K p" "p' \<noteq> n \<Longrightarrow> B \<subseteq> K p'"
  shows "A \<inter> B = {}"
proof (cases "p = n")
  case True
  then have "B \<subseteq> K p'" using small(2) assms(4) by simp
  then show ?thesis using assms(1,3) big(1) by blast
next
  case False
  then have "A \<subseteq> K p" by (rule small(1))
  then show ?thesis using assms(1,2) big(2) by blast
qed

lemma tree_add_file:
  assumes F: "file_added k U T n q f t m' U'"
  shows "tree_inv (k\<lparr>mem := m'\<rparr>) U' (add_file T n f t (tmpData m' t) q)"
    and "\<And>p. fs_through m' (mountsOf T) p = fs_through (mem k) (mountsOf T) p"
proof -
  note D = file_addedD [OF F] and new = added_new [OF F]
  note e = D(4) [unfolded entry_made_def mem_of_upd]
  let ?T = "add_file T n f t (tmpData m' t) q" and ?k = "k\<lparr>mem := m'\<rparr>"
  have objs: "all_objs ?k ?T = all_objs k ?T" by (simp add: tree_objs_def data_objs_def)
  have s: "shape_inv k T" by (rule tree_invD(3) [OF D(1)])
  have ts: "t \<notin> fst ` set (kidsOf T p)" if "p \<in> nodes T - files T" for p
  proof
    assume "t \<in> fst ` set (kidsOf T p)"
    then have "t \<in> tmpOf T ` nodes T" using tree_dirD(5) [OF D(1) that] by (rule subsetD [rotated])
    then show False using new(2) by auto
  qed
  have dirs: "nodes ?T - files ?T = nodes T - files T" using new(1) by auto
  have inj: "inj_on (dataOf ?T) (files ?T)"
  proof -
    have i: "inj_on (dataOf T) (files T)" using s by (simp add: shape_inv_def)
    have f: "f \<notin> files T" using new(1) D(7) by blast
    then have "inj_on (dataOf ?T) (files T)" by (subst inj_on_cong [where g = "dataOf T"]) (auto simp: i)
    moreover have "tmpData m' t \<notin> dataOf T ` files T"
    proof
      assume "tmpData m' t \<in> dataOf T ` files T"
      then obtain c where "c \<in> files T" "dataOf T c = tmpData m' t" by auto
      then show False using new(3) by blast
    qed
    then have "dataOf ?T f \<notin> dataOf ?T ` (files T - {f})" by (auto simp: image_iff)
    ultimately show ?thesis by simp
  qed
  have kids: "fst ` set (kidsOf ?T p) \<inter> fst ` set (kidsOf ?T p') = {}"
    if p: "p \<in> nodes T - files T" "p' \<in> nodes T - files T" "p \<noteq> p'" for p p'
  proof -
    have ap: "fst ` set (kidsOf T p) \<inter> fst ` set (kidsOf T p') = {}" using s p unfolding shape_inv_def by blast
    have big: "fst ` set (kidsOf ?T b) \<subseteq> insert t (fst ` set (kidsOf T b))" for b by auto
    have small: "b \<noteq> n \<Longrightarrow> fst ` set (kidsOf ?T b) \<subseteq> fst ` set (kidsOf T b)" for b by auto
    show ?thesis
      by (rule grow_disjoint [where K = "\<lambda>b. fst ` set (kidsOf T b)", OF ap ts [OF p(1)] ts [OF p(2)] p(3) big big small small])
  qed
  have leaf: "kidsOf ?T p = []" if "p \<in> files ?T" for p
  proof -
    have "\<forall>c \<in> files T. kidsOf T c = []" using s by (simp add: shape_inv_def)
    then show ?thesis using that D(2) by auto
  qed
  have rs: "root ?k \<noteq> 0" "spBuf ?k \<noteq> 0" using s by (simp_all add: shape_inv_def)
  have sub: "files ?T \<subseteq> nodes ?T" using D(7) by auto
  have shape: "shape_inv ?k ?T"
    unfolding shape_inv_def objs dirs by (intro conjI ballI impI new(10) sub inj rs leaf kids)
  have handler: "handler_inv ?k"
    using tree_invD(4) [OF D(1)] added_field(2) [OF F objs_in(6), of 8 8] added_field(2) [OF F objs_in(6), of 16 8]
      added_field(2) [OF F objs_in(6), of 24 8] added_field(2) [OF F objs_in(6), of 48 8]
    by (simp add: handler_inv_def opRead_def opWrite_def opCreate_def opLookup_def)
  have lst: "llist m' (mnts k) (map mntHead (mountsOf T))"
  proof (rule llist_frame [OF tree_invD(6) [OF D(1)], of "{x. m' x \<noteq> mem k x}"])
    show "same_outside {x. m' x \<noteq> mem k x} (mem k) m'" by (simp add: same_outside_def)
    fix x assume "x \<in> set (mnts k # map mntHead (mountsOf T))"
    then consider "x = mnts k" | mnt where "mnt \<in> set (mountsOf T)" "x = mnt + 184" by (auto simp: mntHead_def)
    then show "node_rng x \<inter> {x. m' x \<noteq> mem k x} = {}"
    proof cases
      case 1
      then show ?thesis using added_field(1) [OF F objs_in(7), of 0 16] by auto
    next
      case (2 mnt)
      then show ?thesis using added_field(1) [OF F objs_in(3) [OF 2(1)], of 184 16] by auto
    qed
  qed
  have "find (\<lambda>mnt. mountpoint m' mnt = p) (mountsOf T) = find (\<lambda>mnt. mountpoint (mem k) mnt = p) (mountsOf T)" for p
    using added_mnts(2) [OF F] by (intro find_cong) simp_all
  moreover have "mnt \<in> set (mountsOf T)" if "find (\<lambda>mnt. mountpoint (mem k) mnt = p) (mountsOf T) = Some mnt" for mnt p
    using that by (auto simp: find_Some_iff)
  ultimately show th: "fs_through m' (mountsOf T) p = fs_through (mem k) (mountsOf T) p" for p
    using added_mnts(3) [OF F] by (simp add: fs_through_def split: option.splits)
  have heap: "fs_heap ?k U'" using e by (elim conjE)
  have start: "fs_through m' (mountsOf T) (root k) \<in> insert 0 (insert f (nodes T))" using th tree_invD(8) [OF D(1)] by auto
  show "tree_inv ?k U' ?T"
    unfolding tree_inv_def objs using heap new(9) shape handler added_nodes [OF F] lst added_mnts(1) [OF F] start
    by (intro conjI ballI) simp_all
qed

end
