(* ===== verification/FsOps.thy ===== *)
theory FsOps
  imports FsTree
begin

section \<open>Operations on paths keep the tree\<close>

text \<open>
  Lookup, creation, writing and reading by path on a whole tree of files, each with what it
  leaves of the tree, and what a path leads to after a file has been created.
\<close>

subsection \<open>Walks along a path\<close>

definition names :: "u8 list \<Rightarrow> u8 list list" where
  "names s = filter (\<lambda>p. p \<noteq> []) (pieces s)"

text \<open>Empty pieces do not matter for the way to a directory, nor before a last piece that is not empty.\<close>

lemma walk_filter_dir:
  "fs_walk step isf n ps = d \<Longrightarrow> d \<noteq> 0 \<Longrightarrow> \<not> isf d \<Longrightarrow> fs_walk step isf n (filter (\<lambda>p. p \<noteq> []) ps) = d"
proof (induction ps arbitrary: n rule: induct_list012)
  case (3 a b r)
  show ?case
  proof (cases "a = []")
    case True
    then show ?thesis using 3 by simp
  next
    case False
    let ?n = "step n a"
    have w: "?n \<noteq> 0" "\<not> isf ?n" "fs_walk step isf ?n (b # r) = d"
      using "3.prems"(1,2) False by (auto simp: Let_def split: if_splits)
    have ih: "fs_walk step isf ?n (filter (\<lambda>p. p \<noteq> []) (b # r)) = d" by (rule "3.IH"(2) [OF w(3) "3.prems"(2,3)])
    show ?thesis
    proof (cases "filter (\<lambda>p. p \<noteq> []) (b # r)")
      case Nil
      then show ?thesis using ih False by simp
    next
      case (Cons x xs)
      have "filter (\<lambda>p. p \<noteq> []) (a # b # r) = a # x # xs" using False Cons by simp
      then show ?thesis using ih w(1,2) False by (simp add: Let_def Cons)
    qed
  qed
qed auto

lemma walk_filter_last:
  "ps \<noteq> [] \<Longrightarrow> last ps \<noteq> [] \<Longrightarrow> fs_walk step isf n ps = fs_walk step isf n (filter (\<lambda>p. p \<noteq> []) ps)"
proof (induction ps arbitrary: n rule: induct_list012)
  case (3 a b r)
  then have ih: "fs_walk step isf n' (b # r) = fs_walk step isf n' (filter (\<lambda>p. p \<noteq> []) (b # r))" for n' by simp
  have "last (b # r) \<in> set (b # r)" "last (b # r) \<noteq> []" using "3.prems"(2) last_in_set [of "b # r"] by simp_all
  then have "last (b # r) \<in> set (filter (\<lambda>p. p \<noteq> []) (b # r))" unfolding set_filter by blast
  then obtain x xs where x: "filter (\<lambda>p. p \<noteq> []) (b # r) = x # xs" by (cases "filter (\<lambda>p. p \<noteq> []) (b # r)") auto
  show ?case
  proof (cases "a = []")
    case True
    then show ?thesis using ih [of n] by simp
  next
    case False
    have "filter (\<lambda>p. p \<noteq> []) (a # b # r) = a # x # xs" using False x by simp
    then show ?thesis using False ih x by (simp add: Let_def)
  qed
qed simp_all

lemma walk_snoc:
  "fs_walk step isf n ps = d \<Longrightarrow> d \<noteq> 0 \<Longrightarrow> \<not> isf d \<Longrightarrow> [] \<notin> set ps \<Longrightarrow> q \<noteq> [] \<Longrightarrow> fs_walk step isf n (ps @ [q]) = step d q"
proof (induction ps arbitrary: n rule: induct_list012)
  case (3 a b r)
  have w: "step n a \<noteq> 0" "\<not> isf (step n a)" "fs_walk step isf (step n a) (b # r) = d"
    using "3.prems"(1,2,4) by (auto simp: Let_def split: if_splits)
  have "fs_walk step isf (step n a) ((b # r) @ [q]) = step d q"
    by (rule "3.IH"(2) [OF w(3)]) (use "3.prems" in simp_all)
  moreover have "a \<noteq> []" using "3.prems"(4) by auto
  ultimately show ?case using w(1,2) by (simp add: Let_def)
qed auto

text \<open>A walk that arrives somewhere does so too when more can be found on the way.\<close>

lemma walk_more:
  assumes step: "\<And>p u. p \<in> insert 0 V \<Longrightarrow> step p u \<in> insert 0 V" "\<And>p u. p \<in> V \<Longrightarrow> step p u \<noteq> 0 \<Longrightarrow> step' p u = step p u"
    and isf: "\<And>p. p \<in> V \<Longrightarrow> isf' p = isf p" and zero: "\<And>u. step 0 u = 0"
  shows "n \<in> insert 0 V \<Longrightarrow> fs_walk step isf n ps = d \<Longrightarrow> d \<noteq> 0 \<Longrightarrow> fs_walk step' isf' n ps = d"
proof (induction ps arbitrary: n rule: induct_list012)
  case (2 a)
  then show ?case using step(2) [of n a] zero [of a] by (cases "a = []") auto
next
  case (3 a b r)
  show ?case
  proof (cases "a = []")
    case True
    then show ?thesis using 3 by simp
  next
    case False
    have w: "step n a \<noteq> 0" "\<not> isf (step n a)" "fs_walk step isf (step n a) (b # r) = d"
      using "3.prems"(2,3) False by (auto simp: Let_def split: if_splits)
    then have n: "n \<in> V" "step n a \<in> V" using "3.prems"(1) zero [of a] step(1) [of n a] by (cases "n = 0"; simp)+
    have "fs_walk step' isf' (step n a) (b # r) = d" by (rule "3.IH"(2)) (use n w "3.prems"(3) in simp_all)
    then show ?thesis using step(2) [OF n(1) w(1)] isf [OF n(2)] w False by (simp add: Let_def)
  qed
qed auto

subsection \<open>What a path leads to after a file has been created\<close>

lemma added_find:
  assumes F: "file_added k U T n q f t m' U'" and es: "fst ` set es \<subseteq> tmpOf T ` nodes T"
  shows "dir_find m' es u = dir_find (mem k) es u"
proof (cases "find (\<lambda>e. snd e = u) es")
  case (Some e)
  then have "e \<in> set es" by (auto simp: find_Some_iff)
  then obtain c where c: "c \<in> nodes T" "fst e = tmpOf T c" using es by blast
  have "load 8 m' (tmpOf T c + 40) = load 8 (mem k) (tmpOf T c + 40)"
    by (rule added_field(2) [OF F objs_in(2) [OF c(1)]]) simp_all
  then show ?thesis using Some c(2) by (simp add: dir_find_def tmpNode_def)
qed (simp add: dir_find_def)

lemma added_type:
  assumes F: "file_added k U T n q f t m' U'" and p: "p \<in> nodes T"
  shows "nodeType m' p = nodeType (mem k) p"
proof -
  have "load 4 m' (p + 0) = load 4 (mem k) (p + 0)"
    by (rule added_field(2) [OF F objs_in(1) [OF p]]) simp_all
  then show ?thesis by (simp add: nodeType_def load32_def)
qed

lemma added_step:
  assumes F: "file_added k U T n q f t m' U'" and p: "p \<in> insert 0 (nodes T)"
  shows "fs_step m' (kidsOf (add_file T n f t d q)) (mountsOf T) p u
    = (if p = n \<and> u = q then f else fs_step (mem k) (kidsOf T) (mountsOf T) p u)"
proof -
  note D = file_addedD [OF F] and new = added_new [OF F] and th = tree_add_file(2) [OF F]
  have e: "tmpNode m' t = f" "f \<noteq> 0" using D(4) by (simp_all add: entry_made_def)
  have n0: "n \<noteq> 0" using tree_dirD(1) [OF D(1,2)] by (simp add: tmp_node_def)
  have ff: "fs_through m' (mountsOf T) f = f"
  proof -
    have "mountpoint (mem k) mnt \<noteq> f" if "mnt \<in> set (mountsOf T)" for mnt
    proof
      assume "mountpoint (mem k) mnt = f"
      then have "f \<in> insert (root k) (nodes T)" using tree_mntD(5) [OF D(1) that] by simp
      then show False using new(1,4) by simp
    qed
    then have "find (\<lambda>mnt. mountpoint (mem k) mnt = f) (mountsOf T) = None" by (auto simp: find_None_iff)
    then have "fs_through (mem k) (mountsOf T) f = f" by (simp add: fs_through_def)
    then show ?thesis using th by simp
  qed
  show ?thesis
  proof (cases "p = 0 \<or> p \<in> files T")
    case True
    have "nodeType m' p = TYPE_FILE \<and> nodeType (mem k) p = TYPE_FILE" if "p \<in> files T"
    proof -
      have "p \<in> nodes T" using that D(7) by blast
      then show ?thesis
        using that tree_invD(5) [OF D(1)] added_type [OF F] by (simp add: node_inv_def tmp_node_def)
    qed
    then show ?thesis using True n0 D(2) by (auto simp: fs_step_def)
  next
    case False
    then have pp: "p \<in> nodes T - files T" "p \<in> nodes T" "p \<noteq> 0" using p by blast+
    have ty: "nodeType m' p = TYPE_DIR" "nodeType (mem k) p = TYPE_DIR"
      using added_type [OF F pp(2)] tree_dirD(1) [OF D(1) pp(1)] by (simp_all add: tmp_node_def)
    have "p \<noteq> f" using pp(2) new(1) by blast
    then have "dir_find m' (kidsOf (add_file T n f t d q) p) u
        = (if p = n \<and> u = q then f else dir_find (mem k) (kidsOf T p) u)"
      using added_find [OF F tree_dirD(5) [OF D(1) pp(1)]] e(1) by (auto simp: dir_find_def)
    then show ?thesis using pp(3) ty th ff e(2) by (simp add: fs_step_def Let_def)
  qed
qed

subsection \<open>Lookup, creation, writing\<close>

lemma objs_mem [simp]: "tree_objs (k\<lparr>mem := m\<rparr>) T = tree_objs k T" "data_objs (k\<lparr>mem := m\<rparr>) T = data_objs k T"
  by (simp_all add: tree_objs_def data_objs_def)

lemma bytes_objs: "bytes_of (tree_objs k T) \<subseteq> bytes_of (all_objs k T)" "bytes_of (data_objs k T) \<subseteq> bytes_of (all_objs k T)"
  by simp_all

lemma tree_lookup:
  assumes T: "tree_inv k U T" and p: "own_path k U T path s"
  shows "\<exists>m. vfsLookup path k = Some (Inr (fs_at k (kidsOf T) (mountsOf T) s, k\<lparr>mem := m\<rparr>))
    \<and> same_outside (rng (spBuf k) 64) (mem k) m \<and> tree_inv (k\<lparr>mem := m\<rparr>) U T
    \<and> (\<forall>n \<in> insert 0 (nodes T). \<forall>u. fs_step m (kidsOf T) (mountsOf T) n u = fs_step (mem k) (kidsOf T) (mountsOf T) n u)
    \<and> (\<forall>n. fs_through m (mountsOf T) n = fs_through (mem k) (mountsOf T) n)
    \<and> (\<forall>n \<in> nodes T. nodeType m n = nodeType (mem k) n)"
proof -
  obtain m where m: "vfsLookup path k = Some (Inr (fs_at k (kidsOf T) (mountsOf T) s, k\<lparr>mem := m\<rparr>))"
    "same_outside (rng (spBuf k) 64) (mem k) m" using path_lookup [OF tree_path [OF T p]] by blast
  have s: "shape_inv k T" by (rule tree_invD(3) [OF T])
  have A: "rng (spBuf k) 64 \<subseteq> U" "bytes_of (tree_objs k T) \<inter> rng (spBuf k) 64 = {}"
    using data_bytes(1) [of k T] tree_data_apart [OF s] bytes_objs(2) [of k T] tree_invD(2) [OF T] by blast+
  have "fs_foot k (nodes T) (kidsOf T) (mountsOf T) \<inter> rng (spBuf k) 64 = {}" using tree_foot [OF T] A(2) by blast
  from fs_rep_frame(2-4) [OF tree_rep [OF T] m(2) this] tree_inv_frame [OF T m(2) A] m show ?thesis by blast
qed

text \<open>What the caller has beside the tree stays his when only the buffer and the tree change.\<close>

lemma own_str_mem:
  "own_str k U T p s \<Longrightarrow> \<forall>x \<in> U - bytes_of (all_objs k T). m x = mem k x \<Longrightarrow> own_str (k\<lparr>mem := m\<rparr>) U T p s"
  by (rule own_str_keep [OF _ _ order_refl]) auto

lemma sp_beside: "same_outside (rng (spBuf k) 64) (mem k) m \<Longrightarrow> \<forall>x \<in> U - bytes_of (all_objs k T). m x = mem k x"
  using data_bytes(1) [of k T] bytes_objs(2) [of k T] same_outsideD by blast

text \<open>The files of the tree after a creation, and what does not change.\<close>

definition file_created ::
    "'a fs_state_scheme \<Rightarrow> u64 set \<Rightarrow> fs_tree \<Rightarrow> u64 \<Rightarrow> u8 list \<Rightarrow> mem \<Rightarrow> u64 set \<Rightarrow> u64 \<Rightarrow> u64 \<Rightarrow> u64 \<Rightarrow> bool" where
  "file_created k U T n q m U' f t d \<longleftrightarrow> tree_inv (k\<lparr>mem := m\<rparr>) U' (add_file T n f t d q) \<and> U \<subseteq> U'
     \<and> f \<notin> nodes T \<and> f \<noteq> 0 \<and> rng d 8192 \<subseteq> U' - U \<and> (\<forall>x \<in> rng d 8192. m x = 0)
     \<and> (\<forall>x \<in> U - bytes_of (tree_objs k T) - rng (spBuf k) 64. m x = mem k x)
     \<and> bytes_of (all_objs k (add_file T n f t d q)) \<inter> U \<subseteq> bytes_of (all_objs k T)
     \<and> (\<forall>p \<in> insert 0 (nodes T). \<forall>u. fs_step m (kidsOf (add_file T n f t d q)) (mountsOf T) p u
          = (if p = n \<and> u = q then f else fs_step (mem k) (kidsOf T) (mountsOf T) p u))
     \<and> (\<forall>p. fs_through m (mountsOf T) p = fs_through (mem k) (mountsOf T) p)
     \<and> (\<forall>p \<in> nodes T. nodeType m p = nodeType (mem k) p)"

lemma vfsCreate_ok:
  assumes T: "tree_inv k U T" and p: "own_path k U T path s"
    and n: "fs_at k (kidsOf T) (mountsOf T) s = n" "n \<in> nodes T - files T"
    and name: "own_str k U T name q" "length q < 32"
  shows "vfsCreate path name k = Some (Inl (PanicMsg ''OUT OF MEMORY'')) \<and> \<not> has_run k 4
    \<or> (\<exists>m U' f t d. vfsCreate path name k = Some (Inr (0, k\<lparr>mem := m\<rparr>)) \<and> file_created k U T n q m U' f t d)"
proof -
  obtain m0 where m0: "vfsLookup path k = Some (Inr (n, k\<lparr>mem := m0\<rparr>))" "same_outside (rng (spBuf k) 64) (mem k) m0"
    "tree_inv (k\<lparr>mem := m0\<rparr>) U T"
    "\<forall>p \<in> insert 0 (nodes T). \<forall>u. fs_step m0 (kidsOf T) (mountsOf T) p u = fs_step (mem k) (kidsOf T) (mountsOf T) p u"
    "\<forall>p. fs_through m0 (mountsOf T) p = fs_through (mem k) (mountsOf T) p" "\<forall>p \<in> nodes T. nodeType m0 p = nodeType (mem k) p"
    using tree_lookup [OF T p] n(1) by blast
  let ?k = "k\<lparr>mem := m0\<rparr>" and ?ns = "map nodeHead (listOf T (mntOf T n))"
  note d = tree_dirD [OF m0(3) n(2), unfolded tmp_node_def mem_of_upd]
  have h: "opCreate m0 (tmpfsHandler k) = code k tmpfsCreateFn" "code k tmpfsCreateFn \<noteq> 0" "tmpfsHandler k \<noteq> 0"
    using tree_invD(4) [OF m0(3)] by (simp_all add: handler_inv_def)
  have run: "vfsCreate path name k = tmpfsMake TYPE_FILE n name ?k"
    using m0(1) d(1) h by (simp add: vfsCreate_def callFn_def make_steps)
  have own: "own_str ?k U T name q" by (rule own_str_mem [OF name(1) sp_beside [OF m0(2)]])
  have L: "mntLinks (mntNodes (mntOf T n)) ?ns \<subseteq> bytes_of (tree_objs k T)" "dirLinks (tmpOf T n) (kidsOf T n) \<subseteq> bytes_of (tree_objs k T)"
    using mntLinks_in [OF d(2) tree_mntD(3) [OF m0(3) d(2)], of k] dirLinks_in [OF _ d(5), of n k] n(2) by blast+
  have "rng name (Suc (length q)) \<subseteq> U - mntLinks (mntNodes (mntOf T n)) ?ns"
    using own L(1) unfolding own_str_def by auto
  then have made: "tmpfsMake TYPE_FILE n name ?k = Some (Inl (PanicMsg ''OUT OF MEMORY'')) \<and> \<not> has_run ?k (dataPages TYPE_FILE + 2)
    \<or> (\<exists>m' r t U'. tmpfsMake TYPE_FILE n name ?k = Some (Inr (0, ?k\<lparr>mem := m'\<rparr>))
         \<and> entry_made ?k U n (kidsOf T n) ?ns TYPE_FILE q (?k\<lparr>mem := m'\<rparr>) r t U'
         \<and> (\<forall>x \<in> U - mntLinks (mntNodes (mntOf T n)) ?ns - dirLinks (tmpOf T n) (kidsOf T n). m' x = mem ?k x)
         \<and> (TYPE_FILE \<noteq> TYPE_FILE \<longrightarrow> spends 2 ?k m'))"
    using own name(2) d(1) unfolding own_str_def
    by (intro tmpfsMake_ok [OF tree_invD(1) [OF m0(3)] tree_dir_ready [OF m0(3) n(2)]]) simp_all
  have runs: "has_run ?k 4 = has_run k 4"
  proof -
    have "rng (spBuf k) 64 \<subseteq> U"
      using data_bytes(1) [of k T] bytes_objs(2) [of k T] tree_invD(2) [OF T] by blast
    then have "same_outside U (mem k) m0" by (rule same_outside_mono [OF m0(2)])
    then show ?thesis using fs_heap_runs [of "mem k" k U m0 4] tree_invD(1) [OF T] by simp
  qed
  from made show ?thesis
  proof (elim disjE exE conjE)
    fix m f t U' assume r: "tmpfsMake TYPE_FILE n name ?k = Some (Inr (0, ?k\<lparr>mem := m\<rparr>))"
      and e: "entry_made ?k U n (kidsOf T n) ?ns TYPE_FILE q (?k\<lparr>mem := m\<rparr>) f t U'"
      and keep: "\<forall>x \<in> U - mntLinks (mntNodes (mntOf T n)) ?ns - dirLinks (tmpOf T n) (kidsOf T n). m x = mem ?k x"
    have F: "file_added ?k U T n q f t m U'"
      unfolding file_added_def using m0(3) n(2) name(2) e keep by blast
    note new = added_new [OF F]
    have tree: "tree_inv (k\<lparr>mem := m\<rparr>) U' (add_file T n f t (tmpData m t) q)" using tree_add_file(1) [OF F] by simp
    have file_data: "rng (tmpData m t) 8192 \<subseteq> U' - U" using new(6,8) by blast
    have "m x = mem k x" if x: "x \<in> U - bytes_of (tree_objs k T) - rng (spBuf k) 64" for x
    proof -
      have "m x = m0 x" using keep L x by auto
      also have "\<dots> = mem k x" using same_outsideD [OF m0(2)] x by blast
      finally show ?thesis .
    qed
    moreover have "U \<subseteq> U'" "f \<noteq> 0" using e by (simp_all add: entry_made_def)
    moreover have "fs_step m (kidsOf (add_file T n f t (tmpData m t) q)) (mountsOf T) p u
          = (if p = n \<and> u = q then f else fs_step (mem k) (kidsOf T) (mountsOf T) p u)" if "p \<in> insert 0 (nodes T)" for p u
      unfolding added_step [OF F that, of "tmpData m t" u] bspec [OF m0(4) that, THEN spec] mem_of_upd ..
    moreover have "fs_through m (mountsOf T) p = fs_through (mem k) (mountsOf T) p" for p
      using tree_add_file(2) [OF F, of p] m0(5) by simp
    moreover have "nodeType m p = nodeType (mem k) p" if "p \<in> nodes T" for p using added_type [OF F that] m0(6) that by simp
    ultimately have "file_created k U T n q m U' f t (tmpData m t)"
      unfolding file_created_def using tree new(1,7) file_data new(11) by (intro conjI ballI allI) simp_all
    moreover have "vfsCreate path name k = Some (Inr (0, k\<lparr>mem := m\<rparr>))" using run r by simp
    ultimately show ?thesis by blast
  qed (use run runs in simp)
qed

subsection \<open>A file is created, found, written and read\<close>

text \<open>The path \<open>s'\<close> names the entry \<open>q\<close> of the directory that the path \<open>s\<close> names.\<close>

definition entry_path :: "u8 list \<Rightarrow> u8 list \<Rightarrow> u8 list \<Rightarrow> bool" where
  "entry_path s q s' \<longleftrightarrow> q \<noteq> [] \<and> names s' = names s @ [q] \<and> last (pieces s') \<noteq> []"

lemma created_at:
  assumes T: "tree_inv k U T" and C: "file_created k U T n q m U' f t d"
    and n: "fs_at k (kidsOf T) (mountsOf T) s = n" "n \<in> nodes T - files T" "fs_step (mem k) (kidsOf T) (mountsOf T) n q = 0"
    and s': "entry_path s q s'"
  shows "fs_at (k\<lparr>mem := m\<rparr>) (kidsOf (add_file T n f t d q)) (mountsOf T) s' = f"
proof -
  let ?step = "fs_step (mem k) (kidsOf T) (mountsOf T)" and ?isf = "\<lambda>p. nodeType (mem k) p = TYPE_FILE"
    and ?step' = "fs_step m (kidsOf (add_file T n f t d q)) (mountsOf T)" and ?isf' = "\<lambda>p. nodeType m p = TYPE_FILE"
    and ?r = "fs_through (mem k) (mountsOf T) (root k)"
  have c: "\<forall>p \<in> insert 0 (nodes T). \<forall>u. ?step' p u = (if p = n \<and> u = q then f else ?step p u)"
    "\<forall>p. fs_through m (mountsOf T) p = fs_through (mem k) (mountsOf T) p" "\<forall>p \<in> nodes T. nodeType m p = nodeType (mem k) p"
    using C unfolding file_created_def by blast+
  have n0: "n \<noteq> 0" "\<not> ?isf n" "n \<in> nodes T" using tree_dirD(1) [OF T n(2)] n(2) by (simp_all add: tmp_node_def)
  have "fs_walk ?step ?isf ?r (pieces s) = n" using n(1) by (simp add: fs_at_def)
  from walk_filter_dir [OF this n0(1,2)] have walk: "fs_walk ?step ?isf ?r (names s) = n" by (simp add: names_def)
  have "fs_walk ?step' ?isf' ?r (names s) = n"
  proof (rule walk_more [OF _ _ _ _ tree_invD(8) [OF T] walk n0(1)])
    show "?step p u \<in> insert 0 (nodes T)" if "p \<in> insert 0 (nodes T)" for p u by (rule fs_step_in [OF tree_rep [OF T] that])
    show "?step' p u = ?step p u" if "p \<in> nodes T" "?step p u \<noteq> 0" for p u using c(1) that n(3) by auto
    show "?isf' p = ?isf p" if "p \<in> nodes T" for p using c(3) that by simp
  qed (simp add: fs_step_def)
  moreover have "[] \<notin> set (names s)" by (simp add: names_def)
  moreover have "\<not> ?isf' n" using c(3) n0(2,3) by simp
  ultimately have "fs_walk ?step' ?isf' ?r (names s @ [q]) = ?step' n q"
    using s' n0(1) by (intro walk_snoc) (simp_all add: entry_path_def)
  also have "\<dots> = f" using c(1) n0(3) by simp
  finally have "fs_walk ?step' ?isf' ?r (pieces s') = f"
    using s' walk_filter_last [OF pieces_ne, of s' ?step' ?isf' ?r] by (simp add: entry_path_def names_def)
  then show ?thesis using c(2) by (simp add: fs_at_def)
qed

text \<open>Buffers of the caller, beside the tree.\<close>

definition own_buf :: "'a fs_state_scheme \<Rightarrow> u64 set \<Rightarrow> fs_tree \<Rightarrow> u64 \<Rightarrow> u64 \<Rightarrow> bool" where
  "own_buf k U T b sz \<longleftrightarrow> b \<noteq> 0 \<and> sz \<noteq> 0 \<and> rng b (unat sz) \<subseteq> U - bytes_of (all_objs k T)"

lemma create_then_use:
  assumes T: "tree_inv k U T" and p: "own_path k U T path s"
    and n: "fs_at k (kidsOf T) (mountsOf T) s = n" "n \<in> nodes T - files T" "fs_step (mem k) (kidsOf T) (mountsOf T) n q = 0"
    and name: "own_str k U T name q" "length q < 32" and p': "own_path k U T path' s'" "entry_path s q s'"
    and io: "own_buf k U T src sz" "unat pos + unat sz < 8192" "own_buf k U T dst sz'" "unat pos' + unat sz' < 8192"
    and run: "has_run k 4"
  shows "\<exists>m m1 m2. vfsCreate path name k = Some (Inr (0, k\<lparr>mem := m\<rparr>))
    \<and> vfsWrite path' pos src sz (k\<lparr>mem := m\<rparr>) = Some (Inr (sz, k\<lparr>mem := m1\<rparr>))
    \<and> vfsRead path' pos' dst sz' (k\<lparr>mem := m1\<rparr>) = Some (Inr (sz', k\<lparr>mem := m2\<rparr>))
    \<and> (\<forall>i < unat sz'. m2 (dst + of_nat i) =
         (if unat pos \<le> unat pos' + i \<and> unat pos' + i < unat pos + unat sz then mem k (src + of_nat (unat pos' + i - unat pos)) else 0))"
proof -
  obtain m U' f t d where c: "vfsCreate path name k = Some (Inr (0, k\<lparr>mem := m\<rparr>))" and C: "file_created k U T n q m U' f t d"
    using vfsCreate_ok [OF T p n(1,2) name] run by blast
  let ?k = "k\<lparr>mem := m\<rparr>" and ?T = "add_file T n f t d q"
  have C': "tree_inv ?k U' ?T" "U \<subseteq> U'" "rng d 8192 \<subseteq> U' - U" "\<forall>x \<in> rng d 8192. m x = 0"
    "\<forall>x \<in> U - bytes_of (tree_objs k T) - rng (spBuf k) 64. m x = mem k x"
    "bytes_of (all_objs k ?T) \<inter> U \<subseteq> bytes_of (all_objs k T)"
    using C unfolding file_created_def by blast+
  have same: "\<forall>x \<in> U - bytes_of (all_objs k T). m x = mem k x" using C'(5) data_bytes(1) [of k T] by auto
  have "own_path ?k U' ?T path' s'"
    using p'(1) own_str_keep [where T' = ?T, OF _ same C'(2), unfolded objs_mem, OF _ C'(6)] unfolding own_path_def by blast
  from tree_file [OF C'(1) this] have f: "file_at ?k (nodes ?T) (kidsOf ?T) (mountsOf ?T) path' s' t d"
    using created_at [OF T C n p'(2)] by (simp add: add_file_def)
  have buf: "io_ok ?k d a b z" if "own_buf k U T b z" "unat a + unat z < 8192" for b z a
  proof -
    have b: "b \<noteq> 0" "z \<noteq> 0" "rng b (unat z) \<subseteq> U - bytes_of (all_objs k T)" using that(1) by (simp_all add: own_buf_def)
    have "rng (d + a) (unat z) \<subseteq> rng d 8192" using that(2) by (intro rng_sub) simp
    then have "rng (d + a) (unat z) \<inter> rng b (unat z) = {}" using C'(3) b(3) by blast
    moreover have "0 < unat z" using b(2) by (simp add: unat_gt_0)
    ultimately have "apart (d + a) (unat z) b (unat z)" using that(2) by (intro apartI) simp_all
    moreover have "rng b (unat z) \<inter> rng (spBuf k) 64 = {}" using b(3) data_bytes(1) [of k T] by auto
    ultimately show ?thesis using b that(2) by (simp add: io_ok_def)
  qed
  from write_then_read [OF f f _ file_atD(9) [OF f] buf [OF io(1,2)] buf [OF io(3,4)]]
  obtain m1 m2 where w: "vfsWrite path' pos src sz ?k = Some (Inr (sz, k\<lparr>mem := m1\<rparr>))"
    "vfsRead path' pos' dst sz' (k\<lparr>mem := m1\<rparr>) = Some (Inr (sz', k\<lparr>mem := m2\<rparr>))"
    "\<forall>i < unat sz'. m2 (dst + of_nat i) = (if unat pos \<le> unat pos' + i \<and> unat pos' + i < unat pos + unat sz
       then m (src + of_nat (unat pos' + i - unat pos)) else m (d + pos' + of_nat i))" by auto
  have "m2 (dst + of_nat i) = (if unat pos \<le> unat pos' + i \<and> unat pos' + i < unat pos + unat sz
      then mem k (src + of_nat (unat pos' + i - unat pos)) else 0)" if i: "i < unat sz'" for i
  proof (cases "unat pos \<le> unat pos' + i \<and> unat pos' + i < unat pos + unat sz")
    case True
    let ?j = "unat pos' + i - unat pos"
    have "?j < unat sz" using True by linarith
    moreover have "unat (of_nat ?j :: u64) = ?j" using \<open>?j < unat sz\<close> unat_less_max [of sz] by (intro unat_of_nat64) simp
    ultimately have "src + of_nat ?j \<in> rng src (unat sz)" unfolding in_rng by simp
    then have "m (src + of_nat ?j) = mem k (src + of_nat ?j)" using same io(1) unfolding own_buf_def by blast
    then show ?thesis using w(3) i True by simp
  next
    case False
    have "unat (of_nat i :: u64) = i" using i unat_less_max [of sz'] by (intro unat_of_nat64) simp
    then have "of_nat i + (d + pos') \<in> rng (d + pos') (unat sz')" using i by (simp add: in_rng)
    moreover have "rng (d + pos') (unat sz') \<subseteq> rng d 8192" using io(4) by (intro rng_sub) simp
    ultimately have "d + pos' + of_nat i \<in> rng d 8192" by (auto simp: add.commute)
    then show ?thesis using w(3) i False C'(4) by auto
  qed
  then show ?thesis using c w(1,2) by blast
qed

end
