(* ===== verification/FsMount.thy ===== *)
theory FsMount
  imports FsOps
begin

section \<open>Mounts on a tree of files\<close>

text \<open>
  The objects that \<open>vfsMount\<close> (filesystem/vfs.c) takes from the third slab cache, what it stores in
  them, and what linking one into the list of mounts means for the tree of \<open>FsTree\<close>.
\<close>

subsection \<open>The cache of mounts\<close>

text \<open>
  \<open>U\<close> is the memory in use as far as the caches of nodes are concerned; it contains the pages of the
  cache of mounts, so the part of it that really is in use is without \<open>mntFree\<close>.
\<close>

abbreviation mntFree :: "'a fs_state_scheme \<Rightarrow> nat \<Rightarrow> slab_view \<Rightarrow> u64 set" where
  "mntFree k n v \<equiv> slabOwn (mntCache k) 224 n v"

definition mounts_ready :: "'a fs_state_scheme \<Rightarrow> nat \<Rightarrow> slab_view \<Rightarrow> u64 set \<Rightarrow> bool" where
  "mounts_ready k n v U \<longleftrightarrow> fs_heap k U \<and> slab_ready k (mntCache k) 224 n v \<and> slabPages (mntCache k) v \<subseteq> U"

lemma fs_heapD:
  assumes "fs_heap k U"
  shows "pmm_inv k" and "window_ok k" and "held k U"
proof -
  obtain n v where "slab_ready k (nodeCache k) 56 n v" "held k U"
    using assms unfolding fs_heap_def two_caches_def by (elim exE conjE)
  then show "pmm_inv k" "window_ok k" "held k U" using slab_readyD(1,2) by blast+
qed

lemma mounts_readyD:
  assumes "mounts_ready k n v U"
  shows "fs_heap k U" and "slab_ready k (mntCache k) 224 n v" and "slabPages (mntCache k) v \<subseteq> U" and "mntFree k n v \<subseteq> U"
    and "held k U" and "pmm_inv k" and "window_ok k"
proof -
  show a: "fs_heap k U" "slab_ready k (mntCache k) 224 n v" "slabPages (mntCache k) v \<subseteq> U"
    using assms by (simp_all add: mounts_ready_def)
  have "slab_rep (mem k) (mntCache k) 224 n v" using a(2) by (simp add: slab_ready_def slab_inv_def)
  from slabOwn_pages [OF this] show "mntFree k n v \<subseteq> U" using a(3) by blast
  show "held k U" "pmm_inv k" "window_ok k" using fs_heapD [OF a(1)] by blast+
qed

lemma mounts_ready_keep:
  assumes R: "mounts_ready k n v U" and h: "fs_heap (k\<lparr>mem := m\<rparr>) U'" "U \<subseteq> U'" and same: "\<forall>x \<in> mntFree k n v. m x = mem k x"
  shows "mounts_ready (k\<lparr>mem := m\<rparr>) n v U'"
proof -
  note D = mounts_readyD [OF R]
  note h' = fs_heapD [OF h(1)]
  have "held (k\<lparr>mem := m\<rparr>) (slabPages (mntCache k) v)" using held_subset [OF h'(3)] D(3) h(2) by blast
  then have "slab_ready (k\<lparr>mem := m\<rparr>) (mntCache k) 224 n v" using same by (intro slab_ready_held [OF D(2) h'(1,2)]) simp_all
  then show ?thesis using h D(3) by (auto simp: mounts_ready_def)
qed

text \<open>A new mount: 216 bytes that nobody uses.\<close>

lemma mnt_alloc:
  assumes R: "mounts_ready k n v U"
  shows "slabAlloc (mntCache k) k = Some (Inl (PanicMsg ''OUT OF MEMORY'')) \<and> \<not> has_run k 1
    \<or> (\<exists>r m w U'. slabAlloc (mntCache k) k = Some (Inr (r, k\<lparr>mem := m\<rparr>)) \<and> mounts_ready (k\<lparr>mem := m\<rparr>) n w U'
         \<and> U \<subseteq> U' \<and> r \<noteq> 0 \<and> unat r + 216 \<le> 2 ^ 64 \<and> rng r 216 \<subseteq> U' - mntFree k n w
         \<and> (U - mntFree k n v) \<inter> (rng r 216 \<union> mntFree k n w) = {} \<and> (\<forall>x \<in> U - mntFree k n v. m x = mem k x) \<and> spends 1 k m)"
proof -
  note D = mounts_readyD [OF R]
  let ?d = "mntCache k"
  show ?thesis
  proof (cases "vCur v = None \<and> \<not> (\<exists>p < pgCount k. \<not> pgUsed k p)")
    case True
    then show ?thesis using slabAlloc_total [OF D(2)] has_run_one [of k] by simp
  next
    case False
    then obtain r k' w where run: "slabAlloc ?d k = Some (Inr (r, k'))" and post: "slab_alloc_post k ?d 224 n v r k' w"
      using slabAlloc_total [OF D(2)] unfolding if_not_P [OF False] by blast
    have p: "slab_ready k' ?d 224 n w" "k' = k\<lparr>mem := mem k'\<rparr>" "r \<noteq> 0" "unat r + 216 \<le> 2 ^ 64"
      "held k' (rng r 216)" "rng r 216 \<inter> slabOwn ?d 224 n w = {}" "\<And>i. has_run k (Suc i) \<Longrightarrow> has_run k' i"
      using post by (simp_all add: slab_alloc_post_def)
    note fr = slab_alloc_postD [OF post]
    obtain a va b vb where c: "slab_ready k (nodeCache k) 56 a va" "slab_ready k (tmpfsNodeCache k) 96 b vb"
      "slabOwn (nodeCache k) 56 a va \<inter> slabOwn (tmpfsNodeCache k) 96 b vb = {}"
      "U \<inter> slabOwn (nodeCache k) 56 a va = {}" "U \<inter> slabOwn (tmpfsNodeCache k) 96 b vb = {}"
      using D(1) unfolding fs_heap_def two_caches_def by (elim exE conjE)
    have off: "A \<inter> slabPages ?d w = {} \<and> A \<inter> rng r 216 = {} \<and> (\<forall>x \<in> A. mem k' x = mem k x)" if A: "held k A" "U \<inter> A = {}" for A
    proof -
      have "A \<inter> slabPages ?d v = {}" "A \<inter> slabOwn ?d 224 n v = {}" using A(2) D(3,4) by blast+
      then show ?thesis using fr(2,3) [OF A(1)] by simp
    qed
    note ca = off [OF slab_readyD(4) [OF c(1)] c(4)] and cb = off [OF slab_readyD(4) [OF c(2)] c(5)]
    have ra: "slab_ready k' (nodeCache k) 56 a va"
      by (rule slab_ready_keep [OF c(1) slab_readyD(1,2) [OF p(1)] fr(1)]) (use ca in simp_all)
    have rb: "slab_ready k' (tmpfsNodeCache k) 96 b vb"
      by (rule slab_ready_keep [OF c(2) slab_readyD(1,2) [OF p(1)] fr(1)]) (use cb in simp_all)
    have hR: "held k' (slabPages ?d w \<union> rng r 216)" by (rule held_Un [OF slab_readyD(3) [OF p(1)] p(5)])
    have "two_caches k' (nodeCache k) 56 (tmpfsNodeCache k) 96 (U \<union> (slabPages ?d w \<union> rng r 216))"
      by (rule two_cachesI [OF ra rb c(3) fr(1) [OF D(5)] c(4,5) hR]) (use ca cb in blast)+
    moreover have e: "nodeCache k' = nodeCache k" "tmpfsNodeCache k' = tmpfsNodeCache k" "mntCache k' = mntCache k"
      by (subst p(2), simp)+
    ultimately have "mounts_ready k' n w (U \<union> (slabPages ?d w \<union> rng r 216))"
      using p(1) unfolding mounts_ready_def fs_heap_def e by blast
    then have ready: "mounts_ready (k\<lparr>mem := mem k'\<rparr>) n w (U \<union> (slabPages ?d w \<union> rng r 216))"
      unfolding p(2) [symmetric] .
    have "held k (U - mntFree k n v)" by (rule held_subset [OF D(5)]) blast
    from fr(3) [OF this] have keep: "(U - mntFree k n v) \<inter> (rng r 216 \<union> mntFree k n w) = {}" "\<forall>x \<in> U - mntFree k n v. mem k' x = mem k x"
      by auto
    have "spends 1 k (mem k')" using p(7) p(2) unfolding spends_def by simp
    moreover have "slabAlloc ?d k = Some (Inr (r, k\<lparr>mem := mem k'\<rparr>))" using run p(2) by simp
    moreover have "rng r 216 \<subseteq> U \<union> (slabPages ?d w \<union> rng r 216) - mntFree k n w" using p(6) by blast
    ultimately show ?thesis using ready keep p(3,4)
      by (intro disjI2 exI [of _ r] exI [of _ "mem k'"] exI [of _ w] exI [of _ "U \<union> (slabPages ?d w \<union> rng r 216)"]) blast
  qed
qed

subsection \<open>Filling in a mount\<close>

text \<open>What \<open>vfsMount\<close> stores in the new mount before it looks at the type.\<close>

definition mntFill :: "u64 \<Rightarrow> u64 \<Rightarrow> u64 \<Rightarrow> u64 \<Rightarrow> u64 \<Rightarrow> 'a fs_state_scheme \<Rightarrow> 'a fs_state_scheme ores" where
  "mntFill mnt node path dev type k =
     bndO (onMem (strncpy (mntType mnt) type 32) k) (\<lambda>k.
     bndO (onMem (strncpy (mntDev mnt) dev 64) k) (\<lambda>k.
     bndO (onMem (strncpy (mntPath mnt) path 64) k) (\<lambda>k.
     bndO (put64 mnt 168 node k) (\<lambda>k.
     bndO (put64 mnt 176 0 k) (\<lambda>k.
     bndO (onMem (llInitHead (mntHead mnt)) k) (\<lambda>k. onMem (llInitHead (mntNodes mnt)) k))))))"

lemma vfsMount_steps:
  "vfsMount path dev type k =
     bndO (vfsLookup path k) (\<lambda>(lookedUp, k).
       if lookedUp = 0 then Some (Inr (False, k))
       else
         bndO (slabAlloc (mntCache k) k) (\<lambda>(mnt, k).
         bndO (mntFill mnt lookedUp path dev type k) (\<lambda>k.
         bndO (strcmp type (lit k ''tmp'') (mem k)) (\<lambda>c.
         bndO (if c = 0 then tmpfsMount mnt k else Some (Inr k)) (\<lambda>k.
         bndO (onMem (llInsertFront (mnts k) (mntHead mnt)) k) (\<lambda>k.
           Some (Inr (True, k))))))))"
  unfolding vfsMount_def mntFill_def bndO_assoc ..

lemma strncpy_in:
  assumes "d + i \<noteq> 0" and "src \<noteq> 0" and "cstr m src s" and "rng d 216 \<inter> rng src (Suc (length s)) = {}"
    and n: "n \<noteq> 0" "unat i + unat n \<le> 216"
  shows "\<exists>m'. strncpy (d + i) src n m = Inr m' \<and> same_outside (rng (d + i) (unat n)) m m'"
proof -
  have "rng (d + i) (unat n) \<subseteq> rng d 216" by (rule rng_sub [OF n(2)])
  moreover have "rng src (min (unat n) (Suc (length s))) \<subseteq> rng src (Suc (length s))" by (rule rng_mono) simp
  ultimately have "rng (d + i) (unat n) \<inter> rng src (min (unat n) (Suc (length s))) = {}" using assms(4) by blast
  from strncpy_cstr [OF assms(1,2) n(1) assms(3) this] show ?thesis by blast
qed

lemma mntFill_ok:
  assumes r: "r \<noteq> 0" "unat r + 216 \<le> 2 ^ 64"
    and strs: "\<forall>(p, s) \<in> {(type, st), (dev, sd), (path, sp)}. p \<noteq> 0 \<and> cstr (mem k) p s \<and> rng r 216 \<inter> rng p (Suc (length s)) = {}"
  shows "\<exists>m. mntFill r node path dev type k = Some (Inr (k\<lparr>mem := m\<rparr>)) \<and> same_outside (rng r 216) (mem k) m
    \<and> mountpoint m r = node \<and> mntRoot m r = 0 \<and> llist m (mntNodes r) []"
proof -
  have nz: "r + i \<noteq> 0" if "unat i < 216" for i
  proof -
    have "unat (r + i) = unat r + unat i" using that r(2) by (intro unat_add_no_wrap) linarith
    moreover have "unat r \<noteq> 0" using r(1) by (simp add: unat_eq_0)
    ultimately show ?thesis by (auto simp: unat_eq_0 [symmetric])
  qed
  have sub: "rng (r + i) j \<subseteq> rng r 216" if "unat i + j \<le> 216" for i j by (rule rng_sub [OF that])
  have keep: "cstr m p s \<and> p \<noteq> 0 \<and> rng r 216 \<inter> rng p (Suc (length s)) = {}"
    if "same_outside (rng r 216) (mem k) m" "(p, s) \<in> {(type, st), (dev, sd), (path, sp)}" for m p s
  proof -
    have s: "p \<noteq> 0" "cstr (mem k) p s" "rng r 216 \<inter> rng p (Suc (length s)) = {}" using strs that(2) by blast+
    have "cstr m p s" by (rule cstr_cong [OF s(2)]) (use same_outsideD [OF that(1)] s(3) in blast)
    then show ?thesis using s by blast
  qed
  have out: "same_outside (rng r 216) (mem k) m'"
    if "same_outside (rng r 216) (mem k) m" "same_outside (rng (r + i) j) m m'" "unat i + j \<le> 216" for m m' i j
    by (rule same_outside_trans [OF that(1) same_outside_mono [OF that(2) sub [OF that(3)]]])
  have "r + 0 \<noteq> 0" using r(1) by simp
  then obtain m1 where m1: "strncpy (r + 0) type 32 (mem k) = Inr m1" "same_outside (rng (r + 0) 32) (mem k) m1"
    using strncpy_in [of r 0 type "mem k" st 32] strs by auto
  have o1: "same_outside (rng r 216) (mem k) m1" by (rule out [OF same_outside_refl m1(2)]) simp
  have "(dev, sd) \<in> {(type, st), (dev, sd), (path, sp)}" "(path, sp) \<in> {(type, st), (dev, sd), (path, sp)}" by simp_all
  note kd = keep [OF _ this(1)] and kp = keep [OF _ this(2)]
  obtain m2 where m2: "strncpy (r + 33) dev 64 m1 = Inr m2" "same_outside (rng (r + 33) 64) m1 m2"
    using strncpy_in [of r 33 dev m1 sd 64] kd [OF o1] nz [of 33] by auto
  have o2: "same_outside (rng r 216) (mem k) m2" by (rule out [OF o1 m2(2)]) simp
  obtain m3 where m3: "strncpy (r + 98) path 64 m2 = Inr m3" "same_outside (rng (r + 98) 64) m2 m3"
    using strncpy_in [of r 98 path m2 sp 64] kp [OF o2] nz [of 98] by auto
  have o3: "same_outside (rng r 216) (mem k) m3" by (rule out [OF o2 m3(2)]) simp
  define m4 where "m4 = store64 (store64 m3 (r + 168) node) (r + 176) 0"
  have "same_outside (rng r 216) (mem k) (store64 m3 (r + 168) node)"
    by (rule out [OF o3 store_same_outside]) simp
  then have o4: "same_outside (rng r 216) (mem k) m4" unfolding m4_def by (rule out [OF _ store_same_outside]) simp
  have "unat (184 :: u64) < 216" "unat (200 :: u64) < 216" by simp_all
  note nz2 = this [THEN nz]
  obtain m5 where m5: "llInitHead (r + 184) m4 = Inr m5" "same_outside (node_rng (r + 184)) m4 m5"
    using llInitHead_list [OF nz2(1)] by blast
  have o5: "same_outside (rng r 216) (mem k) m5" by (rule out [OF o4 m5(2)]) simp
  obtain m6 where m6: "llInitHead (r + 200) m5 = Inr m6" "llist m6 (r + 200) []" "same_outside (node_rng (r + 200)) m5 m6"
    using llInitHead_list [OF nz2(2)] by blast
  have o6: "same_outside (rng r 216) (mem k) m6" by (rule out [OF o5 m6(3)]) simp
  have "apart (r + 176) 8 (r + 168) 8" by (simp add: apart_def)
  then have "load64 m4 (r + 168) = node" "load64 m4 (r + 176) = 0" unfolding m4_def by (simp_all add: mem_simps)
  moreover have "rng (r + 168) 8 \<inter> node_rng (r + 184) = {}" "rng (r + 176) 8 \<inter> node_rng (r + 184) = {}"
    "rng (r + 168) 8 \<inter> node_rng (r + 200) = {}" "rng (r + 176) 8 \<inter> node_rng (r + 200) = {}"
    by (rule rng_disjoint_base; simp)+
  ultimately have f: "load64 m6 (r + 168) = node" "load64 m6 (r + 176) = 0"
    using load_same_outside [OF m5(2)] load_same_outside [OF m6(3)] by simp_all
  have "mntFill r node path dev type k = Some (Inr (k\<lparr>mem := m6\<rparr>))"
    using m1(1) m2(1) m3(1) m5(1) m6(1) r(1)
    by (simp add: mntFill_def onMem_def put64_def mntType_def mntDev_def mntPath_def mntHead_def mntNodes_def m4_def)
  then show ?thesis using o6 f m6(2) unfolding mountpoint_def mntRoot_def mntNodes_def by blast
qed

subsection \<open>Linking a mount into the list of mounts\<close>

text \<open>The invariant of the tree, but for the list of mounts in memory.\<close>

definition tree_core :: "'a fs_state_scheme \<Rightarrow> u64 set \<Rightarrow> fs_tree \<Rightarrow> bool" where
  "tree_core k U T \<longleftrightarrow> fs_heap k U \<and> bytes_of (all_objs k T) \<subseteq> U \<and> shape_inv k T \<and> handler_inv k
     \<and> (\<forall>n \<in> nodes T. node_inv (mem k) (tmpfsHandler k) T n) \<and> (\<forall>mnt \<in> set (mountsOf T). mnt_inv k T mnt)
     \<and> fs_through (mem k) (mountsOf T) (root k) \<in> insert 0 (nodes T)"

lemma tree_inv_core: "tree_inv k U T \<longleftrightarrow> tree_core k U T \<and> llist (mem k) (mnts k) (map mntHead (mountsOf T))"
  unfolding tree_inv_def tree_core_def by blast

lemma tree_coreD:
  assumes "tree_core k U T"
  shows "fs_heap k U" and "bytes_of (all_objs k T) \<subseteq> U" and "shape_inv k T" and "handler_inv k"
    and "n \<in> nodes T \<Longrightarrow> node_inv (mem k) (tmpfsHandler k) T n" and "mnt \<in> set (mountsOf T) \<Longrightarrow> mnt_inv k T mnt"
    and "fs_through (mem k) (mountsOf T) (root k) \<in> insert 0 (nodes T)"
  using assms unfolding tree_core_def by blast+

text \<open>
  A change to the memory that leaves all fields of the nodes, the tmpfs nodes and the handler, and of
  the mounts all but the links between them.
\<close>

lemma fs_through_cong:
  assumes "\<And>q. q \<in> set ms \<Longrightarrow> mountpoint m' q = mountpoint m q \<and> mntRoot m' q = mntRoot m q"
  shows "fs_through m' ms n = fs_through m ms n"
proof -
  have "find (\<lambda>q. mountpoint m' q = n) ms = find (\<lambda>q. mountpoint m q = n) ms" using assms by (intro find_cong) simp_all
  moreover have "q \<in> set ms" if "find (\<lambda>q. mountpoint m q = n) ms = Some q" for q using that by (auto simp: find_Some_iff)
  ultimately show ?thesis using assms by (simp add: fs_through_def split: option.splits)
qed

lemma tree_core_frame:
  assumes C: "tree_core k U T" and out: "same_outside A (mem k) m'"
    and heap: "fs_heap (k\<lparr>mem := m'\<rparr>) U'" and U: "U \<subseteq> U'"
    and n: "\<And>n. n \<in> nodes T \<Longrightarrow> (rng n 48 \<union> rng (tmpOf T n) 88) \<inter> A = {}"
    and h: "rng (tmpfsHandler k) 56 \<inter> A = {}"
    and mnt: "\<And>mnt. mnt \<in> set (mountsOf T) \<Longrightarrow> (rng mnt 184 \<union> rng (mnt + 200) 16) \<inter> A = {}"
  shows "tree_core (k\<lparr>mem := m'\<rparr>) U' T"
proof -
  note D = tree_coreD [OF C]
  let ?k = "k\<lparr>mem := m'\<rparr>"
  have part: "rng (a + i) j \<inter> A = {}" if "rng a l \<inter> A = {}" "unat i + j \<le> l" for a i j l
    using rng_sub [OF that(2), of a] that(1) by blast
  note h4 = part [OF h, THEN load_same_outside [OF out]]
  have hand: "handler_inv ?k"
    using D(4) h4 [of 8 8] h4 [of 16 8] h4 [of 24 8] h4 [of 48 8]
    by (simp add: handler_inv_def opRead_def opWrite_def opCreate_def opLookup_def)
  have nodes: "node_inv m' (tmpfsHandler k) T p" if p: "p \<in> nodes T" for p
  proof (rule node_inv_frame [OF D(5) [OF p] out p])
    show "(rng c 32 \<union> rng (tmpOf T c) 48 \<union> rng (tmpOf T c + 80) 8) \<inter> A = {}" if "c \<in> nodes T" for c
    proof -
      have c: "rng c 48 \<inter> A = {}" "rng (tmpOf T c) 88 \<inter> A = {}" using n [OF that] by blast+
      then show ?thesis using part [OF c(1), of 0 32] part [OF c(2), of 0 48] part [OF c(2), of 80 8] by (simp add: Int_Un_distrib2)
    qed
    assume f: "p \<notin> files T" and d: "dir_rep (mem k) (tmpOf T p) (kidsOf T p)"
    have e: "\<forall>e \<in> set (kidsOf T p). length (snd e) < 32 \<and> (\<exists>c \<in> nodes T. fst e = tmpOf T c)"
      using D(5) [OF p] f by (simp add: node_inv_def)
    show "dir_rep m' (tmpOf T p) (kidsOf T p)"
    proof (rule dir_rep_frame [OF d out])
      show "\<forall>e \<in> set (kidsOf T p). length (snd e) \<le> 32" using e by (auto intro: less_imp_le)
      have "rng (fst e) 88 \<inter> A = {}" if "e \<in> set (kidsOf T p)" for e using e n that by (metis Int_Un_distrib2 Un_empty)
      moreover have "rng (tmpOf T p) 88 \<inter> A = {}" using n [OF p] by blast
      ultimately show "(rng (tmpOf T p) 88 \<union> (\<Union>e \<in> set (kidsOf T p). rng (fst e) 88)) \<inter> A = {}" by blast
    qed
  qed
  have fields: "mountpoint m' b = mountpoint (mem k) b" "mntRoot m' b = mntRoot (mem k) b" "mnt_inv ?k T b" if b: "b \<in> set (mountsOf T)" for b
  proof -
    have o: "rng b 184 \<inter> A = {}" "rng (b + 200) 16 \<inter> A = {}" using mnt [OF b] by blast+
    show f: "mountpoint m' b = mountpoint (mem k) b" "mntRoot m' b = mntRoot (mem k) b"
      using load_same_outside [OF out part [OF o(1)], of 168 8] load_same_outside [OF out part [OF o(1)], of 176 8]
      by (simp_all add: mountpoint_def mntRoot_def)
    note i = D(6) [OF b, unfolded mnt_inv_def]
    have "llist m' (mntNodes b) (map nodeHead (listOf T b))"
    proof (rule llist_frame [OF _ out])
      show "llist (mem k) (mntNodes b) (map nodeHead (listOf T b))" using i by (elim conjE)
      fix x assume "x \<in> set (mntNodes b # map nodeHead (listOf T b))"
      then consider "x = b + 200" | p where "p \<in> nodes T" "x = p + 32" using i by (auto simp: mntNodes_def nodeHead_def)
      then show "node_rng x \<inter> A = {}"
      proof cases
        case (2 p)
        have "rng p 48 \<inter> A = {}" using n [OF 2(1)] by blast
        from part [OF this, of 32 16] show ?thesis using 2(2) by simp
      qed (use o(2) in simp)
    qed
    then show "mnt_inv ?k T b" using i f by (simp add: mnt_inv_def)
  qed
  have "fs_through m' (mountsOf T) (root k) = fs_through (mem k) (mountsOf T) (root k)"
    using fields by (intro fs_through_cong) blast
  moreover have "shape_inv ?k T" using D(3) by (simp add: shape_inv_def)
  ultimately show ?thesis
    using heap order_trans [OF D(2) U] D(7) hand nodes fields(3) unfolding tree_core_def objs_mem by simp
qed

definition mount_links :: "'a fs_state_scheme \<Rightarrow> u64 list \<Rightarrow> u64 set" where
  "mount_links k ms = node_rng (mnts k) \<union> (\<Union>mnt \<in> set ms. node_rng (mntHead mnt))"

lemma mount_fields:
  assumes T: "shape_inv k T" and b: "b \<in> set (mountsOf T)" and out: "same_outside (mount_links k (mountsOf T)) m m'"
  shows "mountpoint m' b = mountpoint m b \<and> mntRoot m' b = mntRoot m b"
proof -
  have R: "apart_objs (all_objs k T)" using T by (simp add: shape_inv_def)
  have "rng (b + i) 8 \<inter> mount_links k (mountsOf T) = {}" if "unat i + 8 \<le> 184" for i
  proof -
    have "rng (b + i) 8 \<inter> node_rng (mnts k + 0) = {}"
      by (rule field_apart [OF R objs_in(3) [OF b] _ objs_in(7)]) (use that in simp_all)
    moreover have "rng (b + i) 8 \<inter> node_rng (q + 184) = {}" if "q \<in> set (mountsOf T)" for q
      by (rule field_apart [OF R objs_in(3) [OF b] _ objs_in(3) [OF that]]) (use \<open>unat i + 8 \<le> 184\<close> in simp_all)
    ultimately show ?thesis by (auto simp: mount_links_def mntHead_def)
  qed
  from this [THEN load_same_outside [OF out]] show ?thesis by (simp add: mountpoint_def mntRoot_def)
qed

lemma tree_link_mount:
  assumes C: "tree_core k U T" and ms: "mountsOf T = mnt # ms" "mnt \<notin> set ms" and l: "llist (mem k) (mnts k) (map mntHead ms)"
    and mnt: "unat mnt + 216 \<le> 2 ^ 64"
  shows "\<exists>m'. llInsertFront (mnts k) (mntHead mnt) (mem k) = Inr m' \<and> tree_inv (k\<lparr>mem := m'\<rparr>) U T
    \<and> same_outside (mount_links k (mountsOf T)) (mem k) m'"
proof -
  note D = tree_coreD [OF C]
  have R: "apart_objs (all_objs k T)" using D(3) by (simp add: shape_inv_def)
  have in_ms: "b \<in> set (mountsOf T)" if "b \<in> insert mnt (set ms)" for b using ms(1) that by simp
  have ap: "napart (mntHead mnt) x" if x: "x \<in> set (mnts k # map mntHead ms)" for x
  proof (rule node_range_napart)
    consider "x = mnts k" | b where "b \<in> set ms" "x = b + 184" using x by (auto simp: mntHead_def)
    then show "node_rng (mntHead mnt) \<inter> node_rng x = {}"
    proof cases
      case 1
      then show ?thesis
        using field_apart [OF R objs_in(3) [OF in_ms [of mnt]] _ objs_in(7), of 184 16 0 16] by (simp add: mntHead_def)
    next
      case (2 b)
      then have "b \<noteq> mnt" using ms(2) by blast
      then show ?thesis
        using field_apart [OF R objs_in(3) [OF in_ms [of mnt]] _ objs_in(3) [OF in_ms [of b]], of 184 16 184 16] 2 by (simp add: mntHead_def)
    qed
  qed
  have "unat (mnt + 184) = unat mnt + 184" using mnt by (simp add: unat_add_no_wrap)
  then have "mntHead mnt \<noteq> 0" by (auto simp: mntHead_def unat_eq_0 [symmetric])
  from llInsertFront_list [OF l this ap] obtain m' where m': "llInsertFront (mnts k) (mntHead mnt) (mem k) = Inr m'"
    "llist m' (mnts k) (mntHead mnt # map mntHead ms)"
    "same_outside (node_rng (mntHead mnt) \<union> node_rng (mnts k) \<union> node_rng (hd (map mntHead ms @ [mnts k]))) (mem k) m'" by blast
  have "node_rng x \<subseteq> mount_links k (mountsOf T)" if "x \<in> set (mnts k # map mntHead (mountsOf T))" for x
    using that by (auto simp: mount_links_def)
  moreover have "hd (map mntHead ms @ [mnts k]) \<in> set (mnts k # map mntHead (mountsOf T))"
    using hd_in [of "map mntHead ms" "mnts k"] ms(1) by auto
  moreover have "mntHead mnt \<in> set (mnts k # map mntHead (mountsOf T))" using ms(1) by simp
  ultimately have "node_rng (mntHead mnt) \<union> node_rng (mnts k) \<union> node_rng (hd (map mntHead ms @ [mnts k])) \<subseteq> mount_links k (mountsOf T)"
    by simp
  then have out: "same_outside (mount_links k (mountsOf T)) (mem k) m'" by (rule same_outside_mono [OF m'(3)])
  have off: "rng (a + i) j \<inter> mount_links k (mountsOf T) = {}"
    if a: "(a, l) \<in> all_objs k T" "unat i + j \<le> l" "a \<noteq> mnts k \<or> l \<noteq> 16" "l \<noteq> 216 \<or> unat i + j \<le> 184 \<or> 200 \<le> unat i" for a l i j
  proof -
    have "rng (a + i) j \<inter> node_rng (mnts k + 0) = {}" by (rule field_apart [OF R a(1,2) objs_in(7)]) (use a(3) in auto)
    moreover have "rng (a + i) j \<inter> node_rng (b + 184) = {}" if "b \<in> set (mountsOf T)" for b
      by (rule field_apart [OF R a(1,2) objs_in(3) [OF that]]) (use a(4) in auto)
    ultimately show ?thesis by (auto simp: mount_links_def mntHead_def)
  qed
  have "mount_links k (mountsOf T) \<subseteq> bytes_of (all_objs k T)"
    using field_in [OF objs_in(7), of 0 16 k T] field_in [OF objs_in(3), of _ T 184 16 k] by (auto simp: mount_links_def mntHead_def)
  then have U: "mount_links k (mountsOf T) \<subseteq> U" using D(2) by blast
  have "tree_core (k\<lparr>mem := m'\<rparr>) U T"
  proof (rule tree_core_frame [OF C out _ order_refl])
    show "fs_heap (k\<lparr>mem := m'\<rparr>) U" using fs_heap_write [of "mem k" k U m'] D(1) same_outside_mono [OF out U] by simp
    show "(rng p 48 \<union> rng (tmpOf T p) 88) \<inter> mount_links k (mountsOf T) = {}" if "p \<in> nodes T" for p
      using off [OF objs_in(1) [OF that], of 0 48] off [OF objs_in(2) [OF that], of 0 88] by (simp add: Int_Un_distrib2)
    show "rng (tmpfsHandler k) 56 \<inter> mount_links k (mountsOf T) = {}" using off [OF objs_in(6), of 0 56] by simp
    show "(rng b 184 \<union> rng (b + 200) 16) \<inter> mount_links k (mountsOf T) = {}" if "b \<in> set (mountsOf T)" for b
      using off [OF objs_in(3) [OF that], of 0 184] off [OF objs_in(3) [OF that], of 200 16] by (simp add: Int_Un_distrib2)
  qed
  then have "tree_inv (k\<lparr>mem := m'\<rparr>) U T" using m'(2) ms(1) by (simp add: tree_inv_core)
  then show ?thesis using m'(1) out by blast
qed

subsection \<open>A new mount\<close>

lemma mounts_ready_write:
  assumes R: "mounts_ready k n v U" and out: "same_outside A (mem k) m" and A: "A \<subseteq> U - mntFree k n v"
  shows "mounts_ready (k\<lparr>mem := m\<rparr>) n v U" and "has_run (k\<lparr>mem := m\<rparr>) i = has_run k i"
proof -
  have s: "same_outside U (mem k) m" using A by (intro same_outside_mono [OF out]) blast
  have "fs_heap (k\<lparr>mem := m\<rparr>) U" using fs_heap_write [of "mem k" k U m] mounts_readyD(1) [OF R] s by simp
  then show "mounts_ready (k\<lparr>mem := m\<rparr>) n v U"
    by (rule mounts_ready_keep [OF R _ order_refl]) (use same_outsideD [OF out] A in blast)
  show "has_run (k\<lparr>mem := m\<rparr>) i = has_run k i" using fs_heap_runs [of "mem k" k U m i] mounts_readyD(1) [OF R] s by simp
qed

text \<open>\<open>W\<close> is what is in use outside the allocators.\<close>

definition mount_made ::
    "'a fs_state_scheme \<Rightarrow> nat \<Rightarrow> u64 set \<Rightarrow> u64 set \<Rightarrow> u64 \<Rightarrow> u64 \<Rightarrow> mem \<Rightarrow> slab_view \<Rightarrow> u64 set \<Rightarrow> bool" where
  "mount_made k n U W node r m w U' \<longleftrightarrow> mounts_ready (k\<lparr>mem := m\<rparr>) n w U' \<and> U \<subseteq> U' \<and> r \<noteq> 0 \<and> unat r + 216 \<le> 2 ^ 64
     \<and> rng r 216 \<union> W \<subseteq> U' - mntFree k n w \<and> W \<inter> rng r 216 = {} \<and> (\<forall>x \<in> W. m x = mem k x)
     \<and> mountpoint m r = node \<and> mntRoot m r = 0 \<and> llist m (mntNodes r) [] \<and> spends 1 k m"

lemma mount_new:
  assumes R: "mounts_ready k n v U" and W: "W \<subseteq> U - mntFree k n v"
    and strs: "\<forall>(p, s) \<in> {(type, st), (dev, sd), (path, sp)}. p \<noteq> 0 \<and> cstr (mem k) p s \<and> rng p (Suc (length s)) \<subseteq> W"
  shows "slabAlloc (mntCache k) k = Some (Inl (PanicMsg ''OUT OF MEMORY'')) \<and> \<not> has_run k 1
    \<or> (\<exists>r m0 m w U'. slabAlloc (mntCache k) k = Some (Inr (r, k\<lparr>mem := m0\<rparr>))
         \<and> mntFill r node path dev type (k\<lparr>mem := m0\<rparr>) = Some (Inr (k\<lparr>mem := m\<rparr>)) \<and> mount_made k n U W node r m w U')"
  using mnt_alloc [OF R]
proof (elim disjE exE conjE)
  fix r m0 w U' assume run: "slabAlloc (mntCache k) k = Some (Inr (r, k\<lparr>mem := m0\<rparr>))" and R0: "mounts_ready (k\<lparr>mem := m0\<rparr>) n w U'"
    and U: "U \<subseteq> U'" and r: "r \<noteq> 0" "unat r + 216 \<le> 2 ^ 64" "rng r 216 \<subseteq> U' - mntFree k n w"
    and off: "(U - mntFree k n v) \<inter> (rng r 216 \<union> mntFree k n w) = {}" and same: "\<forall>x \<in> U - mntFree k n v. m0 x = mem k x"
    and sp: "spends 1 k m0"
  have "p \<noteq> 0 \<and> cstr m0 p s \<and> rng r 216 \<inter> rng p (Suc (length s)) = {}" if "(p, s) \<in> {(type, st), (dev, sd), (path, sp)}" for p s
  proof -
    have s: "p \<noteq> 0" "cstr (mem k) p s" "rng p (Suc (length s)) \<subseteq> W" using strs that by blast+
    have "cstr m0 p s" by (rule cstr_cong [OF s(2)]) (use same s(3) W in blast)
    then show ?thesis using s off W by blast
  qed
  then have "\<forall>(p, s) \<in> {(type, st), (dev, sd), (path, sp)}. p \<noteq> 0 \<and> cstr (mem (k\<lparr>mem := m0\<rparr>)) p s \<and> rng r 216 \<inter> rng p (Suc (length s)) = {}"
    by auto
  from mntFill_ok [OF r(1,2) this, of node] obtain m where
    m: "mntFill r node path dev type (k\<lparr>mem := m0\<rparr>) = Some (Inr (k\<lparr>mem := m\<rparr>))" "same_outside (rng r 216) m0 m"
      "mountpoint m r = node" "mntRoot m r = 0" "llist m (mntNodes r) []" by auto
  have A: "rng r 216 \<subseteq> U' - mntFree (k\<lparr>mem := m0\<rparr>) n w" using r(3) by simp
  have "same_outside (rng r 216) (mem (k\<lparr>mem := m0\<rparr>)) m" using m(2) by simp
  note wr = mounts_ready_write [OF R0 this A]
  have "spends 1 k m" using sp wr(2) unfolding spends_def by simp
  moreover have "\<forall>x \<in> W. m x = mem k x" 
  proof
    fix x assume "x \<in> W"
    then have x: "x \<in> U - mntFree k n v" "x \<notin> rng r 216" using W off by blast+
    then show "m x = mem k x" using same same_outsideD [OF m(2) x(2)] by simp
  qed
  moreover have "rng r 216 \<union> W \<subseteq> U' - mntFree k n w" "W \<inter> rng r 216 = {}" using r(3) off W U by blast+
  ultimately have "mount_made k n U W node r m w U'"
    unfolding mount_made_def using wr(1) U r(1,2) m(3-5) by simp
  then show ?thesis using run m(1) by blast
qed simp

subsection \<open>A further mount, without a root\<close>

definition add_mount :: "fs_tree \<Rightarrow> u64 \<Rightarrow> fs_tree" where
  "add_mount T b = T\<lparr>mountsOf := b # mountsOf T, listOf := (listOf T)(b := [])\<rparr>"

lemma add_mount_objs: "all_objs k (add_mount T b) = insert (b, 216) (all_objs k T)"
  by (auto simp: add_mount_def tree_objs_def data_objs_def)

lemma core_add_mount:
  assumes C: "tree_core k U T" and b: "b \<noteq> 0" "rng b 216 \<subseteq> U" "rng b 216 \<inter> bytes_of (all_objs k T) = {}"
    and at: "mountpoint (mem k) b \<in> nodes T" "mountpoint (mem k) b \<noteq> root k" "mntRoot (mem k) b = 0" "llist (mem k) (mntNodes b) []"
  shows "tree_core k U (add_mount T b)" and "b \<notin> set (mountsOf T)"
    and "fs_through (mem k) (b # mountsOf T) (root k) = fs_through (mem k) (mountsOf T) (root k)"
proof -
  note D = tree_coreD [OF C]
  show nb: "b \<notin> set (mountsOf T)"
  proof
    assume "b \<in> set (mountsOf T)"
    then have "rng b 216 \<subseteq> bytes_of (all_objs k T)" using obj_bytes [OF objs_in(3)] by fastforce
    moreover have "b \<in> rng b 216" by (simp add: in_rng)
    ultimately show False using b(3) by blast
  qed
  show th: "fs_through (mem k) (b # mountsOf T) (root k) = fs_through (mem k) (mountsOf T) (root k)"
    using at(2) by (simp add: fs_through_def)
  have sel: "nodes (add_mount T b) = nodes T" "files (add_mount T b) = files T" "tmpOf (add_mount T b) = tmpOf T"
    "mntOf (add_mount T b) = mntOf T" "kidsOf (add_mount T b) = kidsOf T" "dataOf (add_mount T b) = dataOf T"
    "mountsOf (add_mount T b) = b # mountsOf T" "listOf (add_mount T b) = (listOf T)(b := [])"
    by (simp_all add: add_mount_def)
  have "apart_objs (insert (b, 216) (all_objs k T))"
    by (rule apart_insert) (use D(3) b(3) in \<open>simp_all add: shape_inv_def\<close>)
  then have "shape_inv k (add_mount T b)" using D(3) unfolding shape_inv_def sel add_mount_objs by simp
  moreover have "bytes_of (all_objs k (add_mount T b)) \<subseteq> U"
    unfolding add_mount_objs bytes_of_insert fst_conv snd_conv using b(2) D(2) by blast
  moreover have "node_inv (mem k) (tmpfsHandler k) (add_mount T b) n" if "n \<in> nodes T" for n
    using D(5) [OF that] unfolding node_inv_def sel list.set by blast
  moreover have "mnt_inv k (add_mount T b) mnt" if "mnt \<in> set (mountsOf T)" for mnt
    using D(6) [OF that] that nb unfolding mnt_inv_def sel by auto
  moreover have "mnt_inv k (add_mount T b) b" using b(1) at unfolding mnt_inv_def sel by simp
  ultimately show "tree_core k U (add_mount T b)" unfolding tree_core_def using D(1,4,7) th by (simp add: sel)
qed

end
