(* ===== verification/FsStart.thy ===== *)
theory FsStart
  imports FsMount
begin

section \<open>Starting the file system\<close>

text \<open>
  \<open>vfsInit\<close> (filesystem/vfs.c) from a state in which only the page allocator works: the three slab
  caches, the node that the root is mounted on, and the two mounts. What it leaves is a tree as
  \<open>FsTree\<close> describes it, with the one directory \<open>/dev\<close>.
\<close>

subsection \<open>What the linker and the boot code provide\<close>

definition chars :: "string \<Rightarrow> u8 list" where
  "chars s = map of_char s"

text \<open>The string literals of \<open>vfs.c\<close>, \<open>tmpfs.c\<close> and the file system's part of \<open>test.c\<close>.\<close>

definition bootLits :: "string set" where
  "bootLits = {'''', ''/'', ''tmp'', ''/dev'', ''dev'', ''vfs nodes'', ''vfs mounts'', ''tmpfs nodes'', ''test'', ''/test'', ''hello world!''}"

definition boot_objs :: "'a fs_state_scheme \<Rightarrow> (u64 \<times> nat) set" where
  "boot_objs k = {(tmpfsHandler k, 56), (mnts k, 16), (spBuf k, 64)}"

text \<open>The handler, the head of the list of mounts, the buffer on the stack and the string literals, in \<open>S\<close>.\<close>

definition statics :: "'a fs_state_scheme \<Rightarrow> u64 set \<Rightarrow> bool" where
  "statics k S \<longleftrightarrow> handler_inv k \<and> spBuf k \<noteq> 0 \<and> mnts k \<noteq> 0 \<and> apart_objs (boot_objs k) \<and> bytes_of (boot_objs k) \<subseteq> S
     \<and> (\<forall>s \<in> bootLits. lit k s \<noteq> 0 \<and> cstr (mem k) (lit k s) (chars s)
          \<and> rng (lit k s) (Suc (length s)) \<subseteq> S - bytes_of (boot_objs k))"

lemma staticsD:
  assumes "statics k S"
  shows "handler_inv k" and "spBuf k \<noteq> 0" and "mnts k \<noteq> 0" and "apart_objs (boot_objs k)" and "bytes_of (boot_objs k) \<subseteq> S"
    and "s \<in> bootLits \<Longrightarrow> lit k s \<noteq> 0 \<and> cstr (mem k) (lit k s) (chars s)
          \<and> rng (lit k s) (Suc (length (chars s))) \<subseteq> S - bytes_of (boot_objs k)"
  using assms unfolding statics_def chars_def length_map by blast+

lemma boot_bytes: "rng (tmpfsHandler k) 56 \<subseteq> bytes_of (boot_objs k)" "node_rng (mnts k) \<subseteq> bytes_of (boot_objs k)"
  "rng (spBuf k) 64 \<subseteq> bytes_of (boot_objs k)"
  by (auto simp: boot_objs_def)

lemma statics_hand:
  assumes S: "statics k S" and h: "handler_inv (k\<lparr>mem := m\<rparr>)" and same: "\<forall>x \<in> S - bytes_of (boot_objs k). m x = mem k x"
  shows "statics (k\<lparr>mem := m\<rparr>) S"
proof -
  have "cstr m (lit k s) (chars s)" if "s \<in> bootLits" for s
  proof -
    note l = staticsD(6) [OF S that]
    have "cstr (mem k) (lit k s) (chars s)" using l by blast
    then show ?thesis by (rule cstr_cong) (use same l in blast)
  qed
  then show ?thesis using S h unfolding statics_def by (simp add: boot_objs_def)
qed

lemma statics_keep:
  assumes S: "statics k S" and same: "\<forall>x \<in> S - node_rng (mnts k) - rng (spBuf k) 64. m x = mem k x"
  shows "statics (k\<lparr>mem := m\<rparr>) S"
proof -
  note D = staticsD [OF S]
  have "rng (tmpfsHandler k) 56 \<inter> (node_rng (mnts k) \<union> rng (spBuf k) 64) = {}"
    using field_apart [OF D(4), of "tmpfsHandler k" 56 0 56 "mnts k" 16 0 16] field_apart [OF D(4), of "tmpfsHandler k" 56 0 56 "spBuf k" 64 0 64]
    by (simp add: boot_objs_def Int_Un_distrib)
  then have off: "rng (tmpfsHandler k) 56 \<inter> - (S - node_rng (mnts k) - rng (spBuf k) 64) = {}"
    using boot_bytes(1) [of k] D(5) by blast
  have "same_outside (- (S - node_rng (mnts k) - rng (spBuf k) 64)) (mem k) m" using same by (simp add: same_outside_def)
  note ld = load_same_outside [OF this]
  have "rng (tmpfsHandler k + i) 8 \<inter> - (S - node_rng (mnts k) - rng (spBuf k) 64) = {}" if "unat i + 8 \<le> 56" for i
    using rng_sub [OF that, of "tmpfsHandler k"] off by blast
  note h = this [THEN ld]
  have "handler_inv (k\<lparr>mem := m\<rparr>)"
    using D(1) h [of 8] h [of 16] h [of 24] h [of 48]
    by (simp add: handler_inv_def opRead_def opWrite_def opCreate_def opLookup_def)
  then show ?thesis by (rule statics_hand [OF S]) (use same boot_bytes(2,3) [of k] in blast)
qed

subsection \<open>The tree after the first mount\<close>

definition boot_tree :: "u64 \<Rightarrow> u64 \<Rightarrow> u64 \<Rightarrow> u64 \<Rightarrow> u64 \<Rightarrow> fs_tree" where
  "boot_tree r t c tc mnt = \<lparr>nodes = {r, c}, files = {}, tmpOf = (\<lambda>_. t)(c := tc), mntOf = (\<lambda>_. mnt),
     kidsOf = (\<lambda>_. [])(r := [(tc, chars ''dev'')]), dataOf = (\<lambda>_. 0), mountsOf = [mnt], listOf = (\<lambda>_. [])(mnt := [c, r])\<rparr>"

lemma boot_tree_objs:
  assumes "c \<noteq> r"
  shows "all_objs k (boot_tree r t c tc mnt)
    = insert (r, 48) (insert (t, 88) (insert (c, 48) (insert (tc, 88) (insert (mnt, 216) (insert (root k, 48) (boot_objs k))))))"
  using assms by (auto simp: tree_objs_def data_objs_def boot_tree_def boot_objs_def)

lemma boot_core:
  assumes heap: "fs_heap (k\<lparr>mem := m'\<rparr>) U2" and U: "U \<subseteq> U2" and S: "statics (k\<lparr>mem := m'\<rparr>) S"
    and root: "root k \<noteq> 0" "rng (root k) 48 \<inter> S = {}"
    and W: "rng mnt 216 \<union> S \<union> rng (root k) 48 \<subseteq> U" "rng mnt 216 \<inter> (S \<union> rng (root k) 48) = {}" "mnt \<noteq> 0"
    and at: "mountpoint m' mnt = root k" "mntRoot m' mnt = r"
    and dir: "dir_ready (k\<lparr>mem := m'\<rparr>) U2 r [(tc, chars ''dev'')] [nodeHead c, nodeHead r]" "dir_rep m' tc []"
    and r: "tmp_node m' (tmpfsHandler k) mnt TYPE_DIR r t" and c: "tmp_node m' (tmpfsHandler k) mnt TYPE_DIR c tc"
    and fresh: "fresh_nodes U U2 r t c tc"
  shows "tree_core (k\<lparr>mem := m'\<rparr>) U2 (boot_tree r t c tc mnt)"
proof -
  let ?k = "k\<lparr>mem := m'\<rparr>" and ?T = "boot_tree r t c tc mnt"
  note D = staticsD [OF S]
  have f: "rng r 48 \<union> rng t 88 \<union> rng c 48 \<union> rng tc 88 \<subseteq> U2 - U" "rng r 48 \<inter> rng t 88 = {}" "rng c 48 \<inter> rng tc 88 = {}"
    "(rng r 48 \<union> rng t 88) \<inter> (rng c 48 \<union> rng tc 88) = {}" using fresh by (simp_all add: fresh_nodes_def)
  have "r \<in> rng r 48" "c \<in> rng c 48" by (simp_all add: in_rng)
  then have ne: "c \<noteq> r" using f(4) by blast
  note objs = boot_tree_objs [OF ne, of ?k t tc mnt]
  have B: "bytes_of (boot_objs ?k) \<subseteq> S" by (rule D(5))
  have big: "rng mnt 216 \<union> (rng (root k) 48 \<union> bytes_of (boot_objs ?k)) \<subseteq> U" using B W(1) by blast
  have "apart_objs (insert (root k, 48) (boot_objs ?k))"
    by (rule apart_insert [OF D(4)]) (use B root(2) in auto)
  then have "apart_objs (insert (mnt, 216) (insert (root k, 48) (boot_objs ?k)))"
    by (rule apart_insert) (use B W(2) in auto)
  then have "apart_objs (insert (tc, 88) (insert (mnt, 216) (insert (root k, 48) (boot_objs ?k))))"
    by (rule apart_insert) (use f(1) big in auto)
  then have "apart_objs (insert (c, 48) (insert (tc, 88) (insert (mnt, 216) (insert (root k, 48) (boot_objs ?k)))))"
    by (rule apart_insert) (use f(1,3) big in auto)
  then have "apart_objs (insert (t, 88) (insert (c, 48) (insert (tc, 88) (insert (mnt, 216) (insert (root k, 48) (boot_objs ?k))))))"
    by (rule apart_insert) (use f(1,4) big in auto)
  then have "apart_objs (insert (r, 48) (insert (t, 88) (insert (c, 48) (insert (tc, 88) (insert (mnt, 216) (insert (root k, 48) (boot_objs ?k)))))))"
    by (rule apart_insert) (use f(1,2,4) big in auto)
  then have "apart_objs (all_objs ?k ?T)" unfolding objs by simp
  moreover have "files ?T = {}" "nodes ?T = {r, c}" "kidsOf ?T = (\<lambda>_. [])(r := [(tc, chars ''dev'')])" by (simp_all add: boot_tree_def)
  ultimately have shape: "shape_inv ?k ?T" using D(2) root(1) ne by (auto simp: shape_inv_def)
  have bytes: "bytes_of (all_objs ?k ?T) \<subseteq> U2"
    unfolding objs bytes_of_insert using f(1) big U by auto
  have nodes: "\<forall>n \<in> nodes ?T. node_inv m' (tmpfsHandler k) ?T n"
  proof -
    have "dir_rep m' t [(tc, chars ''dev'')]"
      using dir_readyD(4) [OF dir(1) _ refl] r by (simp add: tmp_node_def)
    then show ?thesis using r c dir(2) ne by (auto simp: node_inv_def boot_tree_def chars_def)
  qed
  have "llist m' (mntNodes mnt) [nodeHead c, nodeHead r]"
    using dir_readyD(7) [OF dir(1) refl] r by (simp add: tmp_node_def)
  then have "mnt_inv ?k ?T mnt" using W(3) at by (simp add: mnt_inv_def boot_tree_def)
  moreover have "fs_through m' [mnt] (root k) = r" using at by (simp add: fs_through_def)
  ultimately show ?thesis
    unfolding tree_core_def using heap bytes shape D(1) nodes by (simp add: boot_tree_def)
qed

subsection \<open>The mount on the root\<close>

lemma lookup_slash:
  assumes "path \<noteq> 0" and "cstr (mem k) path (chars ''/'')" and "spBuf k \<noteq> path" and "llist (mem k) (mnts k) []" and "root k \<noteq> 0"
  shows "vfsLookup path k = Some (Inr (root k, k\<lparr>mem := (mem k)(spBuf k := 0)\<rparr>))"
proof -
  have "vfsFindMnt (root k) k = Some (Inr 0)"
    using vfsFindMnt_find [of k "[]"] assms(4,5) by simp
  moreover have "vfsLookupLoop path 0 (root k) (k\<lparr>mem := (mem k)(spBuf k := 0)\<rparr>)
      = Some (Inr (Inr (root k), k\<lparr>mem := (mem k)(spBuf k := 0)\<rparr>))"
    using assms(2,3) by (subst vfsLookupLoop.simps, simp add: chars_def) (subst vfsLookupLoop.simps, simp)
  ultimately show ?thesis using assms(1) by (simp add: vfsLookup_def)
qed

lemma lit_region:
  assumes S: "statics k S" and s: "s \<in> bootLits"
  shows "lit k s \<noteq> 0" and "cstr (mem k) (lit k s) (chars s)" and "rng (lit k s) (Suc (length (chars s))) \<subseteq> S"
    and "rng (lit k s) (Suc (length (chars s))) \<inter> (rng (tmpfsHandler k) 56 \<union> node_rng (mnts k) \<union> rng (spBuf k) 64) = {}"
  using staticsD(6) [OF S s] boot_bytes [of k] by blast+

lemma mount_root:
  assumes R: "mounts_ready k n v U" and S: "statics k S" and root: "root k \<noteq> 0" "rng (root k) 48 \<inter> S = {}"
    and W: "S \<union> rng (root k) 48 \<subseteq> U - mntFree k n v" and l: "llist (mem k) (mnts k) []"
  shows "vfsMount (lit k ''/'') (lit k '''') (lit k ''tmp'') k = Some (Inl (PanicMsg ''OUT OF MEMORY'')) \<and> \<not> has_run k 5
    \<or> (\<exists>m w U' r t c tc mnt. vfsMount (lit k ''/'') (lit k '''') (lit k ''tmp'') k = Some (Inr (True, k\<lparr>mem := m\<rparr>))
         \<and> mounts_ready (k\<lparr>mem := m\<rparr>) n w U' \<and> tree_inv (k\<lparr>mem := m\<rparr>) U' (boot_tree r t c tc mnt)
         \<and> c \<noteq> r \<and> c \<noteq> root k \<and> mountpoint m mnt = root k \<and> mntRoot m mnt = r
         \<and> bytes_of (all_objs k (boot_tree r t c tc mnt)) \<union> S \<subseteq> U' - mntFree k n w
         \<and> bytes_of (all_objs k (boot_tree r t c tc mnt)) \<inter> S \<subseteq> bytes_of (boot_objs k)
         \<and> (\<forall>x \<in> S - node_rng (mnts k) - rng (spBuf k) 64. m x = mem k x) \<and> spends 5 k m)"
proof -
  have lits: "''/'' \<in> bootLits" "'''' \<in> bootLits"
    "''tmp'' \<in> bootLits" "''dev'' \<in> bootLits" by (simp_all add: bootLits_def)
  note D = staticsD [OF S]
  let ?k1 = "k\<lparr>mem := (mem k)(spBuf k := 0)\<rparr>" and ?W = "S \<union> rng (root k) 48"
  have spS: "rng (spBuf k) 64 \<subseteq> S" "node_rng (mnts k) \<subseteq> S" using D(5) boot_bytes [of k] by blast+
  have "lit k ''/'' \<in> rng (lit k ''/'') (Suc (length (chars ''/'')))" "spBuf k \<in> rng (spBuf k) 64" by (simp_all add: in_rng)
  then have "spBuf k \<noteq> lit k ''/''" using lit_region(4) [OF S lits(1)] by (metis IntI Un_iff empty_iff)
  note look = lookup_slash [OF lit_region(1,2) [OF S lits(1)] this l root(1)]
  have out1: "same_outside (rng (spBuf k) 64) (mem k) ((mem k)(spBuf k := 0))"
    using \<open>spBuf k \<in> rng (spBuf k) 64\<close> by (auto simp: same_outside_def)
  have A1: "rng (spBuf k) 64 \<subseteq> U - mntFree k n v" using spS(1) W by blast
  note R1 = mounts_ready_write [OF R out1 A1]
  have S1: "statics ?k1 S" by (rule statics_keep [OF S]) (use same_outsideD [OF out1] in blast)
  have W1: "?W \<subseteq> U - mntFree ?k1 n v" using W by simp
  have strs: "\<forall>(p, s) \<in> {(lit k ''tmp'', chars ''tmp''), (lit k '''', chars ''''), (lit k ''/'', chars ''/'')}.
      p \<noteq> 0 \<and> cstr (mem ?k1) p s \<and> rng p (Suc (length s)) \<subseteq> ?W"
    using lit_region(1-3) [OF S1 lits(1)] lit_region(1-3) [OF S1 lits(2)] lit_region(1-3) [OF S1 lits(3)] by auto
  have head: "vfsMount (lit k ''/'') (lit k '''') (lit k ''tmp'') k =
      bndO (slabAlloc (mntCache k) ?k1) (\<lambda>(mnt, k').
      bndO (mntFill mnt (root k) (lit k ''/'') (lit k '''') (lit k ''tmp'') k') (\<lambda>k'.
      bndO (strcmp (lit k ''tmp'') (lit k' ''tmp'') (mem k')) (\<lambda>c.
      bndO (if c = 0 then tmpfsMount mnt k' else Some (Inr k')) (\<lambda>k'.
      bndO (onMem (llInsertFront (mnts k') (mntHead mnt)) k') (\<lambda>k'. Some (Inr (True, k')))))))"
    unfolding vfsMount_steps look using root(1) by simp
  from mount_new [OF R1(1) W1 strs, of "root k"] show ?thesis
  proof (elim disjE exE conjE)
    fix b m0 m1 w U1 assume al: "slabAlloc (mntCache ?k1) ?k1 = Some (Inr (b, ?k1\<lparr>mem := m0\<rparr>))"
      and fl: "mntFill b (root k) (lit k ''/'') (lit k '''') (lit k ''tmp'') (?k1\<lparr>mem := m0\<rparr>) = Some (Inr (?k1\<lparr>mem := m1\<rparr>))"
      and made: "mount_made ?k1 n U ?W (root k) b m1 w U1"
    have M: "mounts_ready (k\<lparr>mem := m1\<rparr>) n w U1" "U \<subseteq> U1" "b \<noteq> 0" "unat b + 216 \<le> 2 ^ 64" "rng b 216 \<union> ?W \<subseteq> U1 - mntFree k n w"
      "?W \<inter> rng b 216 = {}" "mountpoint m1 b = root k" "mntRoot m1 b = 0" "llist m1 (mntNodes b) []" "spends 1 ?k1 m1"
      and same1: "\<forall>x \<in> ?W. m1 x = ((mem k)(spBuf k := 0)) x" using made by (simp_all add: mount_made_def)
    let ?k2 = "k\<lparr>mem := m1\<rparr>"
    have S2: "statics ?k2 S"
      by (rule statics_keep [OF S]) (use same1 same_outsideD [OF out1] in auto)
    have b: "node_rng (mntNodes b) \<subseteq> rng b 216" "rng (b + 176) 8 \<subseteq> rng b 216" "rng (b + 168) 8 \<subseteq> rng b 216"
      unfolding mntNodes_def by (rule rng_sub; simp)+
    have off: "S \<inter> rng b 216 = {}" "rng b 216 \<subseteq> U1" "S \<subseteq> U1" using M(5,6) by blast+
    have dev: "length (chars ''dev'') < 32" by (simp add: chars_def)
    have h1: "node_rng (mntNodes b) \<union> rng (b + 176) 8 \<subseteq> U1"
      "rng (lit ?k2 '''') 1 \<subseteq> U1 - node_rng (mntNodes b)"
      "rng (lit ?k2 ''dev'') (Suc (length (chars ''dev''))) \<subseteq> U1 - node_rng (mntNodes b) - rng (b + 176) 8"
      using b off lit_region(3) [OF S2 lits(2)] lit_region(3) [OF S2 lits(4)] by (auto simp: chars_def)
    have e1: "cstr (mem ?k2) (lit ?k2 '''') []" using lit_region(2) [OF S2 lits(2)] by (simp add: chars_def)
    have e2: "llist (mem ?k2) (mntNodes b) []" using M(9) by simp
    note mnt = tmpfsMount_ok [OF mounts_readyD(1) [OF M(1)] M(3) e2 h1(1) lit_region(1) [OF S2 lits(2)] e1 h1(2)
      lit_region(1,2) [OF S2 lits(4)] dev h1(3)]
    have run: "vfsMount (lit k ''/'') (lit k '''') (lit k ''tmp'') k =
        bndO (tmpfsMount b ?k2) (\<lambda>k'. bndO (onMem (llInsertFront (mnts k') (mntHead b)) k') (\<lambda>k'. Some (Inr (True, k'))))"
      unfolding head using al fl strcmp_cstr [OF lit_region(1,1,2,2) [OF S2 lits(3)]] strcmp_spec_eq_0 [of "chars ''tmp''" "chars ''tmp''"]
        cstr_nonzero [OF lit_region(2) [OF S2 lits(3)]] by simp
    have sp1: "has_run ?k2 i" if "has_run k (i + 1)" for i using M(10) that R1(2) unfolding spends_def by simp
    from mnt show ?thesis
    proof (elim disjE exE conjE)
      fix r m' t U2 ns assume tm: "tmpfsMount b ?k2 = Some (Inr (?k2\<lparr>mem := m'\<rparr>))" and h: "fs_heap (?k2\<lparr>mem := m'\<rparr>) U2" "U1 \<subseteq> U2"
        and rr: "mntRoot m' b = r" and dr: "dir_ready (?k2\<lparr>mem := m'\<rparr>) U2 r [(t, chars ''dev'')] ns" and dd: "dir_rep m' t []"
        and keep: "\<forall>x \<in> U1 - node_rng (mntNodes b) - rng (b + 176) 8. m' x = mem ?k2 x" and sp: "spends 4 ?k2 m'"
        and n1: "tmp_node m' (tmpfsHandler ?k2) b TYPE_DIR r (fsData m' r)"
        and n2: "tmp_node m' (tmpfsHandler ?k2) b TYPE_DIR (tmpNode m' t) t"
        and fr: "fresh_nodes U1 U2 r (fsData m' r) (tmpNode m' t) t" and ns: "ns = [nodeHead (tmpNode m' t), nodeHead r]"
      let ?c = "tmpNode m' t" and ?t = "fsData m' r" and ?k3 = "k\<lparr>mem := m'\<rparr>"
      let ?T = "boot_tree r ?t ?c t b"
      have sameS: "\<forall>x \<in> S - rng (spBuf k) 64. m' x = mem k x"
      proof
        fix x assume x: "x \<in> S - rng (spBuf k) 64"
        then have "x \<in> U1 - node_rng (mntNodes b) - rng (b + 176) 8" using off b by blast
        then have "m' x = m1 x" using keep by simp
        also have "\<dots> = mem k x" using same1 x same_outsideD [OF out1, of x] by simp
        finally show "m' x = mem k x" .
      qed
      then have S3: "statics ?k3 S" by (intro statics_keep [OF S]) blast
      have "rng (b + 168) 8 \<inter> node_rng (b + 200) = {}" "rng (b + 168) 8 \<inter> rng (b + 176) 8 = {}"
        by (rule rng_disjoint_base; simp)+
      then have "rng (b + 168) 8 \<subseteq> U1 - node_rng (mntNodes b) - rng (b + 176) 8" using b(3) off(2) unfolding mntNodes_def by blast
      then have "load64 m' (b + 168) = load64 m1 (b + 168)" using keep by (intro load_cong) auto
      then have mp: "mountpoint m' b = root k" using M(7) by (simp add: mountpoint_def)
      have W2: "rng b 216 \<union> S \<union> rng (root k) 48 \<subseteq> U1" "rng b 216 \<inter> (S \<union> rng (root k) 48) = {}" using M(5,6) by blast+
      have core: "tree_core ?k3 U2 ?T"
        using h n1 n2 dr fr ns by (intro boot_core [OF _ h(2) S3 root W2 M(3) mp rr _ dd]) simp_all
      have fresh: "rng r 48 \<union> rng ?t 88 \<union> rng ?c 48 \<union> rng t 88 \<subseteq> U2 - U1" using fr by (simp add: fresh_nodes_def)
      have ne: "?c \<noteq> r"
      proof -
        have "r \<in> rng r 48" "?c \<in> rng ?c 48" by (simp_all add: in_rng)
        then show ?thesis using fr unfolding fresh_nodes_def by blast
      qed
      have "rng (mnts k) 16 \<inter> rng (spBuf k) 64 = {}"
        using field_apart [OF D(4), of "mnts k" 16 0 16 "spBuf k" 64 0 64] by (simp add: boot_objs_def)
      then have "\<forall>x \<in> node_rng (mnts k). m' x = mem k x" using sameS spS(2) by blast
      then have l3: "llist m' (mnts k) []"
        by (intro llist_frame [OF l, of "{x. m' x \<noteq> mem k x}"]) (auto simp: same_outside_def)
      have ms: "mountsOf ?T = [b]" by (simp add: boot_tree_def)
      from tree_link_mount [OF core, of b "[]"] ms l3 M(4) obtain m2 where
        m2: "llInsertFront (mnts k) (mntHead b) m' = Inr m2" "tree_inv (k\<lparr>mem := m2\<rparr>) U2 ?T" "same_outside (mount_links ?k3 [b]) m' m2"
        by auto
      have "node_rng (mntHead b) \<subseteq> rng b 216" unfolding mntHead_def by (rule rng_sub) simp
      then have links: "mount_links ?k3 [b] \<subseteq> node_rng (mnts k) \<union> rng b 216" by (auto simp: mount_links_def)
      have free: "mntFree k n w \<subseteq> U1" "mntFree k n w \<inter> (S \<union> rng b 216) = {}" using mounts_readyD(4) [OF M(1)] M(5) by auto
      have R3: "mounts_ready ?k3 n w U2"
      proof -
        have same: "\<forall>x \<in> mntFree ?k2 n w. m' x = mem ?k2 x"
        proof
          fix x assume "x \<in> mntFree ?k2 n w"
          then have "x \<in> mntFree k n w" by simp
          then have "x \<in> U1 - node_rng (mntNodes b) - rng (b + 176) 8" using free b(1,2) by blast
          then show "m' x = mem ?k2 x" using keep by simp
        qed
        have h': "fs_heap (?k2\<lparr>mem := m'\<rparr>) U2" by (rule h(1))
        from mounts_ready_keep [OF M(1) h' h(2) same] show ?thesis by simp
      qed
      have A: "mount_links ?k3 [b] \<subseteq> U2 - mntFree ?k3 n w"
      proof -
        have "mount_links ?k3 [b] \<subseteq> U2 - mntFree k n w" using links spS(2) off free h(2) by blast
        then show ?thesis by simp
      qed
      have "same_outside (mount_links ?k3 [b]) (mem ?k3) m2" using m2(3) by simp
      note R4 = mounts_ready_write [OF R3 this A]
      have "has_run (k\<lparr>mem := m2\<rparr>) i" if "has_run k (i + 5)" for i
      proof -
        have "has_run ?k2 (i + 4)" using sp1 [of "i + 4"] that by (simp add: add.commute)
        then have "has_run ?k3 i" using sp unfolding spends_def by simp
        then show ?thesis using R4(2) by simp
      qed
      then have sp5: "spends 5 k m2" unfolding spends_def by blast
      have objs: "bytes_of (all_objs k ?T) = rng r 48 \<union> (rng ?t 88 \<union> (rng ?c 48 \<union> (rng t 88 \<union> (rng b 216 \<union> (rng (root k) 48 \<union> bytes_of (boot_objs k))))))"
        unfolding boot_tree_objs [OF ne] by simp
      have B: "bytes_of (boot_objs k) \<subseteq> S" by (rule D(5))
      have in2: "bytes_of (all_objs k ?T) \<union> S \<subseteq> U2 - mntFree k n w"
        unfolding objs Un_subset_iff using fresh free(1) M(5) B h(2) by blast
      have S': "bytes_of (all_objs k ?T) \<inter> S \<subseteq> bytes_of (boot_objs k)"
        unfolding objs using fresh off root(2) by blast
      have "\<forall>x \<in> S - node_rng (mnts k) - rng (spBuf k) 64. m2 x = mem k x"
      proof
        fix x assume x: "x \<in> S - node_rng (mnts k) - rng (spBuf k) 64"
        then have "x \<notin> mount_links ?k3 [b]" using links off(1) by blast
        from same_outsideD [OF m2(3) this] show "m2 x = mem k x" using sameS x by simp
      qed
      moreover have "vfsMount (lit k ''/'') (lit k '''') (lit k ''tmp'') k = Some (Inr (True, k\<lparr>mem := m2\<rparr>))"
        using tm m2(1) by (simp add: run onMem_def)
      moreover have "mountpoint m2 b = root k" "mntRoot m2 b = r"
      proof -
        have "same_outside (mount_links ?k3 (mountsOf ?T)) m' m2" using m2(3) by (simp add: ms)
        from mount_fields [OF tree_coreD(3) [OF core] _ this, of b] mp rr show "mountpoint m2 b = root k" "mntRoot m2 b = r"
          by (simp_all add: ms)
      qed
      moreover have "?c \<noteq> root k"
      proof
        assume "?c = root k"
        moreover have "?c \<in> rng ?c 48" "root k \<in> rng (root k) 48" by (simp_all add: in_rng)
        ultimately have "root k \<in> U2 - U1" "root k \<in> U1" using fresh W2(1) by auto
        then show False by blast
      qed
      ultimately show ?thesis using R4(1) m2(2) ne in2 S' sp5
        by (intro disjI2 exI [of _ m2] exI [of _ w] exI [of _ U2] exI [of _ r] exI [of _ ?t] exI [of _ ?c] exI [of _ t] exI [of _ b]) simp
    qed (use sp1 [of 4] in \<open>auto simp: run\<close>)
  qed (use R1(2) has_run_less [of k 5 1] in \<open>auto simp: head\<close>)
qed

subsection \<open>The mount on a directory\<close>

text \<open>A directory that nothing is mounted on as yet, other than the root.\<close>

lemma mount_other:
  assumes R: "mounts_ready k n v U" and T: "tree_inv k U T" and W: "bytes_of (all_objs k T) \<union> S \<subseteq> U - mntFree k n v"
    and p: "own_path k U T path sp" and c: "fs_at k (kidsOf T) (mountsOf T) sp = c" "c \<in> nodes T" "c \<noteq> root k"
    and strs: "\<forall>(p, s) \<in> {(type, st), (dev, sd), (path, sp), (lit k ''tmp'', tmp)}. p \<noteq> 0 \<and> cstr (mem k) p s
      \<and> rng p (Suc (length s)) \<subseteq> S - bytes_of (all_objs k T)"
    and ty: "st \<noteq> tmp"
  shows "vfsMount path dev type k = Some (Inl (PanicMsg ''OUT OF MEMORY'')) \<and> \<not> has_run k 1
    \<or> (\<exists>m w U' b. vfsMount path dev type k = Some (Inr (True, k\<lparr>mem := m\<rparr>))
         \<and> mounts_ready (k\<lparr>mem := m\<rparr>) n w U' \<and> tree_inv (k\<lparr>mem := m\<rparr>) U' (add_mount T b) \<and> U \<subseteq> U'
         \<and> rng b 216 \<inter> (bytes_of (all_objs k T) \<union> S) = {}
         \<and> (\<forall>x. fs_through m (b # mountsOf T) x = (if x = c then 0 else fs_through (mem k) (mountsOf T) x))
         \<and> (\<forall>x \<in> S - bytes_of (all_objs k T). m x = mem k x) \<and> spends 1 k m)"
proof -
  let ?W = "bytes_of (all_objs k T) \<union> S"
  obtain m1 where m1: "vfsLookup path k = Some (Inr (c, k\<lparr>mem := m1\<rparr>))" "same_outside (rng (spBuf k) 64) (mem k) m1"
    "tree_inv (k\<lparr>mem := m1\<rparr>) U T" "\<forall>x. fs_through m1 (mountsOf T) x = fs_through (mem k) (mountsOf T) x"
    using tree_lookup [OF T p] c(1) by blast
  let ?k1 = "k\<lparr>mem := m1\<rparr>"
  have sp: "rng (spBuf k) 64 \<subseteq> bytes_of (all_objs k T)" using data_bytes(1) [of k T] bytes_objs(2) [of k T] by blast
  have A1: "rng (spBuf k) 64 \<subseteq> U - mntFree k n v" using sp W by blast
  note R1 = mounts_ready_write [OF R m1(2) A1]
  have W1: "?W \<subseteq> U - mntFree ?k1 n v" using W by simp
  have strs1: "q \<noteq> 0 \<and> cstr m1 q s \<and> rng q (Suc (length s)) \<subseteq> ?W"
    if qs: "(q, s) \<in> {(type, st), (dev, sd), (path, sp), (lit k ''tmp'', tmp)}" for q s
  proof -
    have s: "q \<noteq> 0" "cstr (mem k) q s" "rng q (Suc (length s)) \<subseteq> S - bytes_of (all_objs k T)" using strs qs by blast+
    have "cstr m1 q s" by (rule cstr_cong [OF s(2)]) (use same_outsideD [OF m1(2)] s(3) sp in blast)
    then show ?thesis using s by blast
  qed
  then have strs1': "\<forall>(p, s) \<in> {(type, st), (dev, sd), (path, sp)}. p \<noteq> 0 \<and> cstr (mem ?k1) p s \<and> rng p (Suc (length s)) \<subseteq> ?W"
    by auto
  have c0: "c \<noteq> 0" using tree_invD(5) [OF T c(2)] by (simp add: node_inv_def tmp_node_def split: if_splits)
  have head: "vfsMount path dev type k =
      bndO (slabAlloc (mntCache k) ?k1) (\<lambda>(mnt, k').
      bndO (mntFill mnt c path dev type k') (\<lambda>k'.
      bndO (strcmp type (lit k' ''tmp'') (mem k')) (\<lambda>c.
      bndO (if c = 0 then tmpfsMount mnt k' else Some (Inr k')) (\<lambda>k'.
      bndO (onMem (llInsertFront (mnts k') (mntHead mnt)) k') (\<lambda>k'. Some (Inr (True, k')))))))"
    unfolding vfsMount_steps m1(1) using c0 by simp
  from mount_new [OF R1(1) W1 strs1', of c] show ?thesis
  proof (elim disjE exE conjE)
    fix b m0 m2 w U1 assume al: "slabAlloc (mntCache ?k1) ?k1 = Some (Inr (b, ?k1\<lparr>mem := m0\<rparr>))"
      and fl: "mntFill b c path dev type (?k1\<lparr>mem := m0\<rparr>) = Some (Inr (?k1\<lparr>mem := m2\<rparr>))"
      and made: "mount_made ?k1 n U ?W c b m2 w U1"
    have M: "mounts_ready (k\<lparr>mem := m2\<rparr>) n w U1" "U \<subseteq> U1" "b \<noteq> 0" "unat b + 216 \<le> 2 ^ 64" "rng b 216 \<union> ?W \<subseteq> U1 - mntFree k n w"
      "?W \<inter> rng b 216 = {}" "mountpoint m2 b = c" "mntRoot m2 b = 0" "llist m2 (mntNodes b) []" "spends 1 ?k1 m2"
      and same: "\<forall>x \<in> ?W. m2 x = m1 x" using made by (simp_all add: mount_made_def)
    let ?k2 = "k\<lparr>mem := m2\<rparr>"
    have out: "same_outside (- ?W) (mem ?k1) m2" using same by (simp add: same_outside_def)
    have inW: "rng a l \<inter> - ?W = {}" if "(a, l) \<in> all_objs k T" for a l using obj_bytes [OF that] by auto
    have sub: "rng (a + i) j \<inter> - ?W = {}" if "(a, l) \<in> all_objs k T" "unat i + j \<le> l" for a l i j
      using inW [OF that(1)] rng_sub [OF that(2), of a] by blast
    have core1: "tree_core ?k1 U T" using m1(3) by (simp add: tree_inv_core)
    have core: "tree_core (?k1\<lparr>mem := m2\<rparr>) U1 T"
    proof (rule tree_core_frame [OF core1 out _ M(2)])
      show "fs_heap (?k1\<lparr>mem := m2\<rparr>) U1" using mounts_readyD(1) [OF M(1)] by simp
      show "(rng p 48 \<union> rng (tmpOf T p) 88) \<inter> - ?W = {}" if "p \<in> nodes T" for p
        using inW [OF objs_in(1) [OF that]] inW [OF objs_in(2) [OF that]] by (simp add: Int_Un_distrib2)
      show "rng (tmpfsHandler ?k1) 56 \<inter> - ?W = {}" using inW [OF objs_in(6)] by simp
      show "(rng q 184 \<union> rng (q + 200) 16) \<inter> - ?W = {}" if "q \<in> set (mountsOf T)" for q
        using sub [OF objs_in(3) [OF that], of 0 184] sub [OF objs_in(3) [OF that], of 200 16]
        by (simp add: Int_Un_distrib2)
    qed
    have l2: "llist m2 (mnts k) (map mntHead (mountsOf T))"
    proof (rule llist_frame [OF _ out])
      show "llist (mem ?k1) (mnts k) (map mntHead (mountsOf T))" using tree_invD(6) [OF m1(3)] by simp
      fix x assume "x \<in> set (mnts k # map mntHead (mountsOf T))"
      then consider "x = mnts k" | q where "q \<in> set (mountsOf T)" "x = q + 184" by (auto simp: mntHead_def)
      then show "node_rng x \<inter> - ?W = {}"
        using inW [OF objs_in(7)] sub [OF objs_in(3), of _ 184 16] by cases simp_all
    qed
    have boff: "rng b 216 \<subseteq> U1" "rng b 216 \<inter> bytes_of (all_objs k T) = {}" using M(5,6) by blast+
    have core2: "tree_core ?k2 U1 T" using core by simp
    have new: "tree_core ?k2 U1 (add_mount T b)" "b \<notin> set (mountsOf T)"
      by (rule core_add_mount [OF core2]; use M(3,7-9) boff c(2,3) in simp)+
    have ms: "mountsOf (add_mount T b) = b # mountsOf T" by (simp add: add_mount_def)
    have l2': "llist (mem ?k2) (mnts ?k2) (map mntHead (mountsOf T))" using l2 by simp
    from tree_link_mount [OF new(1) ms new(2) l2' M(4)] obtain m3 where
      m3: "llInsertFront (mnts k) (mntHead b) m2 = Inr m3" "tree_inv (k\<lparr>mem := m3\<rparr>) U1 (add_mount T b)"
        "same_outside (mount_links ?k2 (mountsOf (add_mount T b))) m2 m3" by auto
    have links: "mount_links ?k2 (mountsOf (add_mount T b)) \<subseteq> bytes_of (all_objs k T) \<union> rng b 216"
    proof -
      have "node_rng (mnts k) \<subseteq> bytes_of (all_objs k T)" using obj_bytes [OF objs_in(7), of k T] by simp
      moreover have "node_rng (mntHead q) \<subseteq> bytes_of (all_objs k T)" if "q \<in> set (mountsOf T)" for q
        using field_in [OF objs_in(3) [OF that], of 184 16 k] by (simp add: mntHead_def)
      moreover have "node_rng (mntHead b) \<subseteq> rng b 216" unfolding mntHead_def by (rule rng_sub) simp
      ultimately show ?thesis unfolding mount_links_def ms by auto
    qed
    have A: "mount_links ?k2 (mountsOf (add_mount T b)) \<subseteq> U1 - mntFree ?k2 n w"
    proof -
      have "mount_links ?k2 (mountsOf (add_mount T b)) \<subseteq> U1 - mntFree k n w" using links M(5) by blast
      then show ?thesis by simp
    qed
    have "same_outside (mount_links ?k2 (mountsOf (add_mount T b))) (mem ?k2) m3" using m3(3) by simp
    note R2 = mounts_ready_write [OF M(1) this A]
    have "m3 x = mem k x" if x: "x \<in> S - bytes_of (all_objs k T)" for x
    proof -
      have "x \<notin> mount_links ?k2 (mountsOf (add_mount T b))" using x links M(6) by blast
      then have "m3 x = m2 x" by (rule same_outsideD [OF m3(3)])
      also have "\<dots> = m1 x" using same x by blast
      also have "\<dots> = mem k x" using same_outsideD [OF m1(2)] x sp by blast
      finally show ?thesis .
    qed
    moreover have "spends 1 k m3" using M(10) R1(2) R2(2) unfolding spends_def by simp
    moreover have "fs_through m3 (b # mountsOf T) x = (if x = c then 0 else fs_through (mem k) (mountsOf T) x)" for x
    proof -
      have "mountpoint m3 q = mountpoint m2 q \<and> mntRoot m3 q = mntRoot m2 q" if "q \<in> set (b # mountsOf T)" for q
        using mount_fields [OF tree_coreD(3) [OF new(1)], of q m2 m3] m3(3) that by (simp add: ms)
      then have "fs_through m3 (b # mountsOf T) x = fs_through m2 (b # mountsOf T) x" by (intro fs_through_cong) blast
      also have "\<dots> = (if x = c then 0 else fs_through m2 (mountsOf T) x)" using M(7,8) by (simp add: fs_through_def)
      also have "fs_through m2 (mountsOf T) x = fs_through m1 (mountsOf T) x"
      proof (rule fs_through_cong)
        fix q assume q: "q \<in> set (mountsOf T)"
        have o: "same_outside (- ?W) m1 m2" using out by simp
        show "mountpoint m2 q = mountpoint m1 q \<and> mntRoot m2 q = mntRoot m1 q"
          using sub [OF objs_in(3) [OF q], of 168 8] sub [OF objs_in(3) [OF q], of 176 8] load_same_outside [OF o]
          by (simp add: mountpoint_def mntRoot_def)
      qed
      finally show ?thesis using m1(4) by simp
    qed
    moreover have "vfsMount path dev type k = Some (Inr (True, k\<lparr>mem := m3\<rparr>))"
    proof -
      have s1: "type \<noteq> 0" "cstr m2 type st" "lit k ''tmp'' \<noteq> 0" "cstr m2 (lit k ''tmp'') tmp"
      proof -
        have s: "type \<noteq> 0" "cstr m1 type st" "rng type (Suc (length st)) \<subseteq> ?W" "lit k ''tmp'' \<noteq> 0"
          "cstr m1 (lit k ''tmp'') tmp" "rng (lit k ''tmp'') (Suc (length tmp)) \<subseteq> ?W"
          using strs1 [of type st] strs1 [of "lit k ''tmp''" tmp] by simp_all
        show "type \<noteq> 0" "lit k ''tmp'' \<noteq> 0" using s by simp_all
        show "cstr m2 type st" by (rule cstr_cong [OF s(2)]) (use s(3) same in blast)
        show "cstr m2 (lit k ''tmp'') tmp" by (rule cstr_cong [OF s(5)]) (use s(6) same in blast)
      qed
      then have "strcmp_spec st tmp \<noteq> 0" using ty strcmp_spec_eq_0 cstr_nonzero by blast
      then show ?thesis using al fl m3(1) strcmp_cstr [OF s1(1,3,2,4)] by (simp add: head onMem_def)
    qed
    ultimately show ?thesis using R2(1) m3(2) M(2,6)
      by (intro disjI2 exI [of _ m3] exI [of _ w] exI [of _ U1] exI [of _ b]) (simp add: Int_commute)
  qed (use R1(2) in \<open>simp add: head\<close>)
qed

subsection \<open>Initialisation\<close>

text \<open>The state before \<open>vfsInit\<close>: the page allocator works, and the static variables are where the linker put them.\<close>

definition boot_ok :: "'a fs_state_scheme \<Rightarrow> u64 set \<Rightarrow> bool" where
  "boot_ok k S \<longleftrightarrow> pmm_inv k \<and> window_ok k \<and> statics k S
     \<and> held k (S \<union> rng (nodeCache k) 144 \<union> rng (mntCache k) 144 \<union> rng (tmpfsNodeCache k) 144)
     \<and> (\<forall>c \<in> {nodeCache k, mntCache k, tmpfsNodeCache k}. c \<noteq> 0 \<and> unat c + 144 \<le> 2 ^ 64 \<and> rng c 144 \<inter> S = {})
     \<and> rng (nodeCache k) 144 \<inter> rng (mntCache k) 144 = {} \<and> rng (nodeCache k) 144 \<inter> rng (tmpfsNodeCache k) 144 = {}
     \<and> rng (mntCache k) 144 \<inter> rng (tmpfsNodeCache k) 144 = {}"

lemma init_cache:
  assumes inv: "pmm_inv k" "window_ok k" "held k H" and c: "rng c 144 \<subseteq> H" "c \<noteq> 0" "unat c + 144 \<le> 2 ^ 64"
    and sz: "0 < unat osz" "unat osz \<le> 4048"
    and S: "statics k S" "rng c 144 \<inter> S = {}" and s: "s \<in> bootLits"
  shows "\<exists>m. slabInitCache c (lit k s) osz k = Inr (k\<lparr>mem := m\<rparr>)
    \<and> slab_ready (k\<lparr>mem := m\<rparr>) c (slotBytes (unat osz)) (slotsPerSlab (unat osz)) newCache
    \<and> same_outside (rng c 144) (mem k) m \<and> held (k\<lparr>mem := m\<rparr>) H \<and> statics (k\<lparr>mem := m\<rparr>) S
    \<and> (\<forall>i. has_run (k\<lparr>mem := m\<rparr>) i = has_run k i)"
proof -
  note l = lit_region [OF S(1) s]
  have "rng c 64 \<subseteq> rng c 144" "rng (lit k s) (min 64 (Suc (length (chars s)))) \<subseteq> rng (lit k s) (Suc (length (chars s)))"
    by (rule rng_mono, simp)+
  then have n: "rng c 64 \<inter> rng (lit k s) (min 64 (Suc (length (chars s)))) = {}" using l(3) S(2) by blast
  have h: "held k (rng c 144)" by (rule held_subset [OF inv(3) c(1)])
  obtain k' where k': "slabInitCache c (lit k s) osz k = Inr k'" "k' = k\<lparr>mem := mem k'\<rparr>"
    "slab_ready k' c (slotBytes (unat osz)) (slotsPerSlab (unat osz)) newCache" "same_outside (rng c 144) (mem k) (mem k')"
    "\<forall>A. held k A \<longrightarrow> held k' A"
    using slabInitCache_ready [OF inv(1,2) h c(2,3) sz l(1,2) n] by blast
  have "statics (k\<lparr>mem := mem k'\<rparr>) S"
    by (rule statics_keep [OF S(1)]) (use same_outsideD [OF k'(4)] S(2) in blast)
  moreover have "has_run (k\<lparr>mem := mem k'\<rparr>) i = has_run k i" for i by (rule has_run_write [OF inv(1) h k'(4)])
  moreover have "held k' H" using k'(5) inv(3) by blast
  ultimately show ?thesis using k'(1,3,4) unfolding k'(2) [symmetric] by (intro exI [of _ "mem k'"]) (simp flip: k'(2))
qed

lemma slab_ready_part:
  assumes "mem k' = mem k" and "hhdm k' = hhdm k" and "pmmBitmap k' = pmmBitmap k" and "pmmSpinlock k' = pmmSpinlock k"
  shows "slab_ready k' c os n v = slab_ready k c os n v"
  using pmm_part [OF assms] assms(1) by (simp add: slab_ready_def slab_inv_def)

lemma vfsInit_steps:
  "vfsInit k =
     bndO (Some (slabInitCache (nodeCache k) (lit k ''vfs nodes'') 48 k)) (\<lambda>k.
     bndO (Some (slabInitCache (mntCache k) (lit k ''vfs mounts'') 216 k)) (\<lambda>k.
     bndO (onMem (llInitHead (mnts k)) k) (\<lambda>k.
     bndO (slabAlloc (nodeCache k) k) (\<lambda>(r, k).
     bndO (Some (slabInitCache (tmpfsNodeCache k) (lit k ''tmpfs nodes'') 88 (k\<lparr>root := r\<rparr>))) (\<lambda>k.
     bndO (vfsMount (lit k ''/'') (lit k '''') (lit k ''tmp'') k) (\<lambda>(_, k).
     bndO (vfsMount (lit k ''/dev'') (lit k '''') (lit k ''dev'') k) (\<lambda>(_, k). Some (Inr k))))))))"
  by (simp add: vfsInit_def vfsDoMounts_def tmpfsInit_def sizeofFsNode_def sizeofFsMnt_def sizeofTmpfsNode_def)

text \<open>Up to the mounts: the caches, an empty list of mounts, and a node for the root to be mounted on.\<close>

definition caches_made :: "'a fs_state_scheme \<Rightarrow> u64 set \<Rightarrow> mem \<Rightarrow> u64 \<Rightarrow> nat \<Rightarrow> slab_view \<Rightarrow> u64 set \<Rightarrow> bool" where
  "caches_made k S m r n v U \<longleftrightarrow> mounts_ready (k\<lparr>mem := m, root := r\<rparr>) n v U
     \<and> statics (k\<lparr>mem := m, root := r\<rparr>) S \<and> r \<noteq> 0 \<and> rng r 48 \<inter> S = {} \<and> S \<union> rng r 48 \<subseteq> U - mntFree k n v
     \<and> llist m (mnts k) [] \<and> (\<forall>i. has_run k (Suc i) \<longrightarrow> has_run (k\<lparr>mem := m, root := r\<rparr>) i)
     \<and> (\<forall>x \<in> S - node_rng (mnts k). m x = mem k x)"

lemma init_caches:
  assumes B: "boot_ok k S"
  shows "vfsInit k = Some (Inl (PanicMsg ''OUT OF MEMORY'')) \<and> \<not> has_run k 1
    \<or> (\<exists>m r n v U. vfsInit k = vfsDoMounts (k\<lparr>mem := m, root := r\<rparr>) \<and> caches_made k S m r n v U)"
proof -
  let ?N = "rng (nodeCache k) 144" and ?M = "rng (mntCache k) 144" and ?T = "rng (tmpfsNodeCache k) 144"
  let ?H = "S \<union> ?N \<union> ?M \<union> ?T"
  have b: "pmm_inv k" "window_ok k" "held k ?H" "statics k S" and c: "nodeCache k \<noteq> 0" "unat (nodeCache k) + 144 \<le> 2 ^ 64"
    "mntCache k \<noteq> 0" "unat (mntCache k) + 144 \<le> 2 ^ 64" "tmpfsNodeCache k \<noteq> 0" "unat (tmpfsNodeCache k) + 144 \<le> 2 ^ 64"
    and off: "?N \<inter> S = {}" "?M \<inter> S = {}" "?T \<inter> S = {}" "?N \<inter> ?M = {}" "?N \<inter> ?T = {}" "?M \<inter> ?T = {}"
    using B by (simp_all add: boot_ok_def)
  have H: "?N \<subseteq> ?H" "?M \<subseteq> ?H" "?T \<subseteq> ?H" "S \<subseteq> ?H" by blast+
  have ls: "''vfs nodes'' \<in> bootLits" "''vfs mounts'' \<in> bootLits" "''tmpfs nodes'' \<in> bootLits" by (simp_all add: bootLits_def)
  have sz: "slotBytes 48 = 56" "slotBytes 216 = 224" "slotBytes 88 = 96" by (simp_all add: slotBytes_def)
  have sB: "node_rng (mnts k) \<subseteq> S" using staticsD(5) [OF b(4)] boot_bytes(2) [of k] by blast
  \<comment> \<open>the cache of nodes\<close>
  obtain m1 where 1: "slabInitCache (nodeCache k) (lit k ''vfs nodes'') 48 k = Inr (k\<lparr>mem := m1\<rparr>)"
    "slab_ready (k\<lparr>mem := m1\<rparr>) (nodeCache k) 56 (slotsPerSlab 48) newCache" "same_outside ?N (mem k) m1" "held (k\<lparr>mem := m1\<rparr>) ?H"
    "statics (k\<lparr>mem := m1\<rparr>) S" "\<forall>i. has_run (k\<lparr>mem := m1\<rparr>) i = has_run k i"
    using init_cache [OF b(1-3) H(1) c(1,2) _ _ b(4) off(1) ls(1), of 48] sz by auto
  let ?k1 = "k\<lparr>mem := m1\<rparr>"
  note p1 = slab_readyD(1,2) [OF 1(2)]
  \<comment> \<open>the cache of mounts\<close>
  have o2: "rng (mntCache ?k1) 144 \<subseteq> ?H" "mntCache ?k1 \<noteq> 0" "unat (mntCache ?k1) + 144 \<le> 2 ^ 64" "rng (mntCache ?k1) 144 \<inter> S = {}"
    using H(2) c(3,4) off(2) by simp_all
  obtain m2 where 2: "slabInitCache (mntCache k) (lit k ''vfs mounts'') 216 ?k1 = Inr (k\<lparr>mem := m2\<rparr>)"
    "slab_ready (k\<lparr>mem := m2\<rparr>) (mntCache k) 224 (slotsPerSlab 216) newCache" "same_outside ?M m1 m2" "held (k\<lparr>mem := m2\<rparr>) ?H"
    "statics (k\<lparr>mem := m2\<rparr>) S" "\<forall>i. has_run (k\<lparr>mem := m2\<rparr>) i = has_run k i"
    using init_cache [OF p1 1(4) o2(1-3) _ _ 1(5) o2(4) ls(2), of 216] sz 1(6) by auto
  have r2: "slab_ready (?k1\<lparr>mem := m2\<rparr>) (nodeCache k) 56 (slotsPerSlab 48) newCache"
    by (rule slab_ready_write [OF 1(2) held_subset [OF 1(4) H(2)]]) (use off(4) 2(3) in \<open>auto simp: newCache_own\<close>)
  let ?k2 = "k\<lparr>mem := m2\<rparr>"
  note p2 = slab_readyD(1,2) [OF 2(2)]
  \<comment> \<open>the list of mounts\<close>
  obtain m3 where 3: "llInitHead (mnts k) m2 = Inr m3" "llist m3 (mnts k) []" "same_outside (node_rng (mnts k)) m2 m3"
    using llInitHead_list [OF staticsD(3) [OF b(4)]] by blast
  let ?k3 = "k\<lparr>mem := m3\<rparr>"
  have h3: "held ?k2 (node_rng (mnts k))" by (rule held_subset [OF 2(4)]) (use sB in blast)
  have out3: "same_outside (node_rng (mnts k)) (mem ?k2) m3" using 3(3) by simp
  note w3 = held_write [OF p2(1) h3 out3]
  have l3: "node_rng (mnts k) \<inter> ?N = {}" "node_rng (mnts k) \<inter> ?M = {}" using sB off(1,2) by blast+
  have H3: "held ?k3 ?H" using w3(2) [OF 2(4)] by simp
  have r3: "slab_ready ?k3 (nodeCache k) 56 (slotsPerSlab 48) newCache"
    using slab_ready_write [OF _ h3 _ out3, of "nodeCache k" 56 "slotsPerSlab 48" newCache] r2 l3(1) by (simp add: newCache_own)
  have r3': "slab_ready ?k3 (mntCache k) 224 (slotsPerSlab 216) newCache"
    using slab_ready_write [OF 2(2) h3 _ out3] l3(2) by (simp add: newCache_own)
  have S3: "statics ?k3 S" using statics_keep [OF 2(5), of m3] same_outsideD [OF 3(3)] by simp
  have run3: "has_run ?k3 i = has_run k i" for i using has_run_write [OF p2(1) h3 out3] 2(6) by simp
  have head: "vfsInit k = bndO (slabAlloc (nodeCache k) ?k3) (\<lambda>(r, k).
     bndO (Some (slabInitCache (tmpfsNodeCache k) (lit k ''tmpfs nodes'') 88 (k\<lparr>root := r\<rparr>))) vfsDoMounts)"
    unfolding vfsInit_steps vfsDoMounts_def using 1(1) 2(1) 3(1) by (simp add: onMem_def)
  \<comment> \<open>the node of the root\<close>
  show ?thesis
  proof (cases "vCur (newCache :: slab_view) = None \<and> \<not> (\<exists>p < pgCount ?k3. \<not> pgUsed ?k3 p)")
    case True
    then have "slabAlloc (nodeCache k) ?k3 = Some (Inl (PanicMsg ''OUT OF MEMORY''))" using slabAlloc_total [OF r3] by simp
    moreover have "\<not> has_run ?k3 1" unfolding has_run_one using True by (elim conjE)
    ultimately show ?thesis using run3 by (simp add: head)
  next
    case False
    then obtain r k4 w where al: "slabAlloc (nodeCache k) ?k3 = Some (Inr (r, k4))"
      and post: "slab_alloc_post ?k3 (nodeCache k) 56 (slotsPerSlab 48) newCache r k4 w"
      using slabAlloc_total [OF r3] unfolding if_not_P [OF False] by blast
    have p: "slab_ready k4 (nodeCache k) 56 (slotsPerSlab 48) w" "k4 = ?k3\<lparr>mem := mem k4\<rparr>" "r \<noteq> 0"
      "held k4 (rng r 48)" "rng r 48 \<inter> slabOwn (nodeCache k) 56 (slotsPerSlab 48) w = {}" "\<And>i. has_run ?k3 (Suc i) \<Longrightarrow> has_run k4 i"
      using post by (simp_all add: slab_alloc_post_def)
    note fr = slab_alloc_postD [OF post]
    let ?A = "S \<union> ?M \<union> ?T"
    have hA: "held ?k3 ?A" by (rule held_subset [OF H3]) blast
    have "?A \<inter> slabOwn (nodeCache k) 56 (slotsPerSlab 48) newCache = {}" using off by (auto simp: newCache_own)
    with fr(3) [OF hA] have A: "?A \<inter> slabOwn (nodeCache k) 56 (slotsPerSlab 48) w = {}" "?A \<inter> rng r 48 = {}" "\<forall>x \<in> ?A. mem k4 x = m3 x"
      by simp_all
    note p4 = slab_readyD(1,2) [OF p(1)]
    have r4: "slab_ready k4 (mntCache k) 224 (slotsPerSlab 216) newCache"
      by (rule slab_ready_keep [OF r3' p4 fr(1)]) (use A(3) in \<open>simp_all add: newCache_own\<close>)
    define k5 where "k5 = k\<lparr>mem := mem k4, root := r\<rparr>"
    have k4: "k4 = k\<lparr>mem := mem k4\<rparr>" using p(2) by simp
    have part: "mem k5 = mem k4" "hhdm k5 = hhdm k4" "pmmBitmap k5 = pmmBitmap k4" "pmmSpinlock k5 = pmmSpinlock k4"
      by (simp add: k5_def, (subst k4, simp add: k5_def)+)
    note pp = pmm_part [OF part] and sp = slab_ready_part [OF part]
    have S5: "statics k5 S"
    proof -
      have "statics (?k3\<lparr>mem := mem k4\<rparr>) S" by (rule statics_keep [OF S3]) (use A(3) in simp)
      then show ?thesis by (simp add: k5_def statics_def handler_inv_def boot_objs_def)
    qed
    have c5: "nodeCache k5 = nodeCache k" "mntCache k5 = mntCache k" "tmpfsNodeCache k5 = tmpfsNodeCache k" "lit k5 = lit k" "root k5 = r"
      by (simp_all add: k5_def)
    let ?U = "S \<union> ?M \<union> ?T \<union> rng r 48"
    have h5: "held k5 ?U" unfolding pp by (rule held_Un [OF fr(1) [OF hA] p(4)])
    have o5: "?T \<subseteq> ?U" by blast
    have p5: "pmm_inv k5" "window_ok k5" using p4 pp by simp_all
    \<comment> \<open>the cache of tmpfs nodes\<close>
    obtain m6 where 6: "slabInitCache (tmpfsNodeCache k) (lit k ''tmpfs nodes'') 88 k5 = Inr (k5\<lparr>mem := m6\<rparr>)"
      "slab_ready (k5\<lparr>mem := m6\<rparr>) (tmpfsNodeCache k) 96 (slotsPerSlab 88) newCache" "same_outside ?T (mem k4) m6" "held (k5\<lparr>mem := m6\<rparr>) ?U"
      "statics (k5\<lparr>mem := m6\<rparr>) S" "\<forall>i. has_run (k5\<lparr>mem := m6\<rparr>) i = has_run k4 i"
      using init_cache [OF p5 h5 o5 c(5,6) _ _ S5 off(3) ls(3), of 88] sz part(1) pp(4) c5 by auto
    let ?k6 = "k5\<lparr>mem := m6\<rparr>"
    have hT: "held k5 ?T" by (rule held_subset [OF h5 o5])
    have out6: "same_outside ?T (mem k5) m6" using 6(3) part(1) by simp
    have own4: "?T \<inter> slabOwn (nodeCache k) 56 (slotsPerSlab 48) w = {}" using A(1) by blast
    have r6: "slab_ready ?k6 (nodeCache k) 56 (slotsPerSlab 48) w"
      by (rule slab_ready_write [OF _ hT own4 out6]) (use p(1) sp in simp)
    have r6': "slab_ready ?k6 (mntCache k) 224 (slotsPerSlab 216) newCache"
      by (rule slab_ready_write [OF _ hT _ out6]) (use r4 sp off(6) in \<open>auto simp: newCache_own\<close>)
    let ?U' = "S \<union> ?M \<union> rng r 48"
    have "two_caches ?k6 (nodeCache k) 56 (tmpfsNodeCache k) 96 ?U'"
      unfolding two_caches_def using r6 6(2) own4 held_subset [OF 6(4), of ?U'] A(1,2) p(5) off(3,6)
      by (intro exI [of _ w] exI [of _ "slotsPerSlab 48"] exI [of _ newCache] exI [of _ "slotsPerSlab 88"]) (auto simp: newCache_own)
    then have mr: "mounts_ready ?k6 (slotsPerSlab 216) newCache ?U'"
      using r6' unfolding mounts_ready_def fs_heap_def by (auto simp: c5 slabPages_def slabs_def curSlabs_def newCache_def)
    have e6: "?k6 = k\<lparr>mem := m6, root := r\<rparr>" by (simp add: k5_def)
    have run: "vfsInit k = vfsDoMounts ?k6"
      unfolding head al using 6(1) by (subst k4) (simp add: k5_def)
    have W: "S \<union> rng r 48 \<subseteq> ?U' - mntFree k (slotsPerSlab 216) newCache" using off(2) A(2) by (auto simp: newCache_own)
    have same: "\<forall>x \<in> S. m6 x = m3 x"
    proof
      fix x assume x: "x \<in> S"
      then have "x \<notin> ?T" using off(3) by blast
      then show "m6 x = m3 x" using A(3) same_outsideD [OF 6(3)] x by simp
    qed
    have l6: "llist m6 (mnts k) []"
    proof (rule llist_frame [OF 3(2)])
      show "same_outside (- S) m3 m6" using same by (simp add: same_outside_def)
    qed (use sB in auto)
    have hr: "\<forall>i. has_run k (Suc i) \<longrightarrow> has_run ?k6 i" using 6(6) p(6) run3 by simp
    have "\<forall>x \<in> S - node_rng (mnts k). m6 x = mem k x"
    proof
      fix x assume x: "x \<in> S - node_rng (mnts k)"
      then have "x \<notin> ?N" "x \<notin> ?M" "x \<notin> node_rng (mnts k)" using off by blast+
      then show "m6 x = mem k x"
        using same x same_outsideD [OF 3(3)] same_outsideD [OF 2(3)] same_outsideD [OF 1(3)] by simp
    qed
    moreover have "rng r 48 \<inter> S = {}" using A(2) by blast
    ultimately have "caches_made k S m6 r (slotsPerSlab 216) newCache ?U'"
      unfolding caches_made_def using mr hr W l6 p(3) 6(5) unfolding e6 by (intro conjI)
    then show ?thesis using run unfolding e6 by blast
  qed
qed

subsection \<open>The file system after \<open>vfsInit\<close>\<close>

text \<open>The root directory of the tree after the first mount, and after a further one.\<close>

lemma boot_tree_sel [simp]:
  "nodes (boot_tree r t c tc mnt) = {r, c}" "files (boot_tree r t c tc mnt) = {}" "mountsOf (boot_tree r t c tc mnt) = [mnt]"
  "kidsOf (boot_tree r t c tc mnt) = (\<lambda>_. [])(r := [(tc, chars ''dev'')])" "tmpOf (boot_tree r t c tc mnt) c = tc"
  "nodes (add_mount T b) = nodes T" "files (add_mount T b) = files T" "mountsOf (add_mount T b) = b # mountsOf T"
  "kidsOf (add_mount T b) = kidsOf T" "tmpOf (add_mount T b) = tmpOf T"
  by (simp_all add: boot_tree_def add_mount_def)

lemma boot_step:
  assumes T: "tree_inv k U T" and sel: "nodes T = {r, c}" "files T = {}" "kidsOf T r = [(tc, chars ''dev'')]" "tmpOf T c = tc"
  shows "fs_step (mem k) (kidsOf T) ms r q = (if q = chars ''dev'' then fs_through (mem k) ms c else 0)"
proof -
  have "r \<noteq> 0" "nodeType (mem k) r = TYPE_DIR" "c \<noteq> 0" "tmpNode (mem k) tc = c"
    using tree_invD(5) [OF T, of r] tree_invD(5) [OF T, of c] sel by (simp_all add: node_inv_def tmp_node_def)
  then show ?thesis using sel(3) by (simp add: fs_step_def dir_find_def TYPE_DIR_def TYPE_FILE_def)
qed

lemma boot_paths:
  "pieces (chars ''/'') = [[], []]" "pieces (chars ''/dev'') = [[], chars ''dev'']" "pieces (chars ''/test'') = [[], chars ''test'']"
  by (simp_all add: chars_def)

text \<open>
  \<open>S\<close> are the bytes of the static variables and literals: of these only the list of mounts and
  the lookup's buffer change. The root directory is empty as far as lookup is concerned:
  \<open>/dev\<close> is hidden by the mount on it, which has no root.
\<close>

definition fs_started :: "'a fs_state_scheme \<Rightarrow> u64 set \<Rightarrow> u64 set \<Rightarrow> fs_tree \<Rightarrow> bool" where
  "fs_started k S U T \<longleftrightarrow> tree_inv k U T \<and> statics k S \<and> S \<subseteq> U \<and> bytes_of (all_objs k T) \<inter> S \<subseteq> bytes_of (boot_objs k)
     \<and> (\<exists>d \<in> nodes T - files T. fs_at k (kidsOf T) (mountsOf T) (chars ''/'') = d
          \<and> (\<forall>q. fs_step (mem k) (kidsOf T) (mountsOf T) d q = 0))"

lemma vfsDoMounts_ok:
  assumes R: "mounts_ready k n v U" and S: "statics k S" and root: "root k \<noteq> 0" "rng (root k) 48 \<inter> S = {}"
    and W: "S \<union> rng (root k) 48 \<subseteq> U - mntFree k n v" and l: "llist (mem k) (mnts k) []"
  shows "vfsDoMounts k = Some (Inl (PanicMsg ''OUT OF MEMORY'')) \<and> \<not> has_run k 6
    \<or> (\<exists>m U' T. vfsDoMounts k = Some (Inr (k\<lparr>mem := m\<rparr>)) \<and> fs_started (k\<lparr>mem := m\<rparr>) S U' T \<and> spends 6 k m
         \<and> (\<forall>x \<in> S - bytes_of (boot_objs k). m x = mem k x))"
  using mount_root [OF assms]
proof (elim disjE exE conjE)
  fix m1 w U1 r t c tc mnt
  let ?k1 = "k\<lparr>mem := m1\<rparr>" and ?T = "boot_tree r t c tc mnt"
  assume run1: "vfsMount (lit k ''/'') (lit k '''') (lit k ''tmp'') k = Some (Inr (True, ?k1))"
    and mr: "mounts_ready ?k1 n w U1" and T: "tree_inv ?k1 U1 ?T" and ne: "c \<noteq> r" "c \<noteq> root k"
    and mnt: "mountpoint m1 mnt = root k" "mntRoot m1 mnt = r"
    and W1: "bytes_of (all_objs k ?T) \<union> S \<subseteq> U1 - mntFree k n w" and SB: "bytes_of (all_objs k ?T) \<inter> S \<subseteq> bytes_of (boot_objs k)"
    and same1: "\<forall>x \<in> S - node_rng (mnts k) - rng (spBuf k) 64. m1 x = mem k x" and sp1: "spends 5 k m1"
  have S1: "statics ?k1 S" by (rule statics_keep [OF S same1])
  have strs: "lit k s \<noteq> 0 \<and> cstr m1 (lit k s) (chars s) \<and> rng (lit k s) (Suc (length (chars s))) \<subseteq> S - bytes_of (all_objs k ?T)"
    if "s \<in> bootLits" for s
    using staticsD(6) [OF S1 that] SB by (auto simp: boot_objs_def)
  have ls: "''/dev'' \<in> bootLits" "'''' \<in> bootLits" "''tmp'' \<in> bootLits" "''dev'' \<in> bootLits" by (simp_all add: bootLits_def)
  have own: "own_path ?k1 U1 ?T (lit k ''/dev'') (chars ''/dev'')"
  proof -
    have "rng (lit k ''/dev'') (Suc (length (chars ''/dev''))) \<subseteq> U1 - bytes_of (all_objs k ?T)" using strs [OF ls(1)] W1 by blast
    then show ?thesis using strs [OF ls(1)] unfolding own_path_def own_str_def boot_paths by (simp add: chars_def)
  qed
  have th: "fs_through m1 [mnt] (root k) = r" "fs_through m1 [mnt] c = c" using mnt ne(2) by (simp_all add: fs_through_def)
  have step1: "fs_step m1 (kidsOf ?T) [mnt] r (chars ''dev'') = c"
    using boot_step [OF T, of r c tc "[mnt]" "chars ''dev''"] th(2) by simp
  have at: "fs_at ?k1 (kidsOf ?T) (mountsOf ?T) (chars ''/dev'') = c"
    using step1 th(1) by (simp add: fs_at_def boot_paths chars_def)
  have c: "c \<in> nodes ?T" "c \<noteq> root ?k1" using ne(2) by simp_all
  have W2: "bytes_of (all_objs ?k1 ?T) \<union> S \<subseteq> U1 - mntFree ?k1 n w" using W1 by simp
  have strs2: "\<forall>(p, s) \<in> {(lit k ''dev'', chars ''dev''), (lit k '''', chars ''''), (lit k ''/dev'', chars ''/dev''), (lit ?k1 ''tmp'', chars ''tmp'')}.
      p \<noteq> 0 \<and> cstr (mem ?k1) p s \<and> rng p (Suc (length s)) \<subseteq> S - bytes_of (all_objs ?k1 ?T)"
    using ls [THEN strs] by simp
  have "chars ''dev'' \<noteq> chars ''tmp''" by (simp add: chars_def)
  from mount_other [OF mr T W2 own at c strs2 this] show ?thesis
  proof (elim disjE exE conjE)
    assume "vfsMount (lit k ''/dev'') (lit k '''') (lit k ''dev'') ?k1 = Some (Inl (PanicMsg ''OUT OF MEMORY''))" "\<not> has_run ?k1 1"
    then show ?thesis using run1 sp1 unfolding spends_def vfsDoMounts_def by auto
  next
    fix m2 w' U2 b
    let ?k2 = "k\<lparr>mem := m2\<rparr>" and ?T2 = "add_mount ?T b"
    assume run2: "vfsMount (lit k ''/dev'') (lit k '''') (lit k ''dev'') ?k1 = Some (Inr (True, ?k1\<lparr>mem := m2\<rparr>))"
      and T2': "tree_inv (?k1\<lparr>mem := m2\<rparr>) U2 ?T2" and U2: "U1 \<subseteq> U2" and b: "rng b 216 \<inter> (bytes_of (all_objs ?k1 ?T) \<union> S) = {}"
      and th2: "\<forall>x. fs_through m2 (b # mountsOf ?T) x = (if x = c then 0 else fs_through (mem ?k1) (mountsOf ?T) x)"
      and same2: "\<forall>x \<in> S - bytes_of (all_objs ?k1 ?T). m2 x = mem ?k1 x" and sp2: "spends 1 ?k1 m2"
    have T2: "tree_inv ?k2 U2 ?T2" using T2' by simp
    have same: "\<forall>x \<in> S - bytes_of (boot_objs k). m2 x = mem k x"
    proof
      fix x assume x: "x \<in> S - bytes_of (boot_objs k)"
      then have "x \<in> S - bytes_of (all_objs ?k1 ?T)" "x \<in> S - node_rng (mnts k) - rng (spBuf k) 64"
        using SB boot_bytes(2,3) [of k] by auto
      then show "m2 x = mem k x" using same1 same2 by simp
    qed
    have "statics ?k2 S" by (rule statics_hand [OF S tree_invD(4) [OF T2] same])
    moreover have "S \<subseteq> U2" using W1 U2 by blast
    moreover have "bytes_of (all_objs ?k2 ?T2) \<inter> S \<subseteq> bytes_of (boot_objs ?k2)"
      using SB b by (auto simp: add_mount_objs boot_objs_def)
    moreover have "fs_at ?k2 (kidsOf ?T2) (mountsOf ?T2) (chars ''/'') = r"
      using th2 th(1) ne(2) by (simp add: fs_at_def boot_paths)
    moreover have "fs_step (mem ?k2) (kidsOf ?T2) (mountsOf ?T2) r q = 0" for q
      using boot_step [OF T2, of r c tc "b # mountsOf ?T" q] th2 by simp
    ultimately have "fs_started ?k2 S U2 ?T2" using T2 unfolding fs_started_def by simp
    moreover have "vfsDoMounts k = Some (Inr ?k2)" using run1 run2 by (simp add: vfsDoMounts_def)
    moreover have "spends 6 k m2" using spends_trans [OF sp1 sp2] by simp
    ultimately show ?thesis using same by blast
  qed
qed (auto simp: vfsDoMounts_def dest: has_run_less [of k 6 5])

lemma vfsInit_ok:
  assumes B: "boot_ok k S"
  shows "vfsInit k = Some (Inl (PanicMsg ''OUT OF MEMORY'')) \<and> \<not> has_run k 7
    \<or> (\<exists>m r U T. let k' = k\<lparr>mem := m, root := r\<rparr> in vfsInit k = Some (Inr k') \<and> fs_started k' S U T
         \<and> (\<forall>i. has_run k (i + 7) \<longrightarrow> has_run k' i) \<and> (\<forall>x \<in> S - bytes_of (boot_objs k). m x = mem k x))"
  using init_caches [OF B]
proof (elim disjE exE conjE)
  assume "vfsInit k = Some (Inl (PanicMsg ''OUT OF MEMORY''))" "\<not> has_run k 1"
  then show ?thesis using has_run_less [of k 7 1] by auto
next
  fix m0 rt n v U0 assume run: "vfsInit k = vfsDoMounts (k\<lparr>mem := m0, root := rt\<rparr>)" and made: "caches_made k S m0 rt n v U0"
  let ?k0 = "k\<lparr>mem := m0, root := rt\<rparr>"
  have c: "mounts_ready ?k0 n v U0" "statics ?k0 S" "root ?k0 \<noteq> 0" "rng (root ?k0) 48 \<inter> S = {}"
    "S \<union> rng (root ?k0) 48 \<subseteq> U0 - mntFree ?k0 n v" "llist (mem ?k0) (mnts ?k0) []"
    "\<forall>i. has_run k (Suc i) \<longrightarrow> has_run ?k0 i" "\<forall>x \<in> S - node_rng (mnts k). m0 x = mem k x"
    using made unfolding caches_made_def by simp_all
  from vfsDoMounts_ok [OF c(1-6)] show ?thesis
  proof (elim disjE exE conjE)
    assume "vfsDoMounts ?k0 = Some (Inl (PanicMsg ''OUT OF MEMORY''))" and no: "\<not> has_run ?k0 6"
    moreover have "\<not> has_run k 7" using c(7) no by force
    ultimately show ?thesis using run by simp
  next
    fix m U T assume r: "vfsDoMounts ?k0 = Some (Inr (?k0\<lparr>mem := m\<rparr>))" and st: "fs_started (?k0\<lparr>mem := m\<rparr>) S U T"
      and sp: "spends 6 ?k0 m" and same: "\<forall>x \<in> S - bytes_of (boot_objs ?k0). m x = mem ?k0 x"
    have e: "?k0\<lparr>mem := m\<rparr> = k\<lparr>mem := m, root := rt\<rparr>" by simp
    have "has_run (k\<lparr>mem := m, root := rt\<rparr>) i" if "has_run k (i + 7)" for i
    proof -
      have "has_run k (Suc (i + 6))" using that by (simp add: eval_nat_numeral)
      then have "has_run ?k0 (i + 6)" using c(7) by blast
      then show ?thesis using sp unfolding spends_def e by blast
    qed
    moreover have "\<forall>x \<in> S - bytes_of (boot_objs k). m x = mem k x" using same c(8) boot_bytes(2) [of k] by (auto simp: boot_objs_def)
    ultimately show ?thesis using r st unfolding run e Let_def by blast
  qed
qed

subsection \<open>The file system's test (kernel/test.c)\<close>







subsection \<open>A machine for the witnesses\<close>

text \<open>
  The strings, the handler, the head of the list of mounts and the two buffers lie in the page of
  the page bitmap, at \<open>demoArea\<close> and after it, the cache of mounts at its end.
\<close>

definition demoText :: "u8 list" where
  "demoText = concat (map (\<lambda>s. chars s @ [0])
     ['''', ''/'', ''tmp'', ''/dev'', ''dev'', ''vfs nodes'', ''vfs mounts'', ''tmpfs nodes'', ''test'', ''/test'', ''hello world!''])"

definition demoLit :: "string \<Rightarrow> u64" where
  "demoLit s = demoArea + (if s = '''' then 0 else if s = ''/'' then 1 else if s = ''tmp'' then 3 else if s = ''/dev'' then 7
     else if s = ''dev'' then 12 else if s = ''vfs nodes'' then 16 else if s = ''vfs mounts'' then 26 else if s = ''tmpfs nodes'' then 37
     else if s = ''test'' then 49 else if s = ''/test'' then 54 else 60)"

definition demoTextMem :: mem where
  "demoTextMem = (\<lambda>x. if x \<in> rng demoArea 73 then demoText ! unat (x - demoArea) else mem demoPmm x)"

definition demoStartMem :: mem where
  "demoStartMem = store64 (store64 (store64 (store64 demoTextMem (demoArea + 0x88) 0x700) (demoArea + 0x90) 0x700)
     (demoArea + 0x98) 0x700) (demoArea + 0xb0) 0x700"

definition demoStart :: fs_state where
  "demoStart = demoBoot\<lparr>mem := demoStartMem, mnts := demoArea + 0x100, spBuf := demoArea + 0x140, tmpfsHandler := demoArea + 0x80,
     mntCache := demoArea + 0x300, lit := demoLit\<rparr>"

abbreviation demoStatics :: "u64 set" where "demoStatics \<equiv> rng demoArea 0x300"

lemma demo_start_handler: "handler_inv demoStart"
proof -
  have "load64 demoStartMem (demoArea + i) = 0x700" if "i \<in> {0x88, 0x90, 0x98, 0xb0}" for i
    using that by (auto simp: demoStartMem_def load_store_apart apart_def)
  then show ?thesis
    by (simp add: handler_inv_def opRead_def opWrite_def opCreate_def opLookup_def demoStart_def demoBoot_def demoFs_def add.assoc)
      (simp add: demoArea_def)
qed

lemma demo_start_stores: "same_outside (rng (demoArea + 0x80) 56) demoTextMem demoStartMem"
proof -
  have "rng (demoArea + i) 8 \<subseteq> rng (demoArea + 0x80) 56" if "i \<in> {0x88, 0x90, 0x98, 0xb0}" for i
    using that rng_sub [of "i - 0x80" 8 56 "demoArea + 0x80"] by auto
  then have "rng (demoArea + 0x88) 8 \<subseteq> rng (demoArea + 0x80) 56" "rng (demoArea + 0x90) 8 \<subseteq> rng (demoArea + 0x80) 56"
    "rng (demoArea + 0x98) 8 \<subseteq> rng (demoArea + 0x80) 56" "rng (demoArea + 0xb0) 8 \<subseteq> rng (demoArea + 0x80) 56" by simp_all
  from this [THEN store_same_outside'] show ?thesis unfolding demoStartMem_def by (meson same_outside_trans)
qed

lemma demo_text_at:
  assumes e: "demoText = xs @ s @ 0 # ys" and "0 \<notin> set s" and l: "length xs + length s < 73"
  shows "cstr demoTextMem (demoArea + of_nat (length xs)) s"
proof -
  have at: "demoTextMem (demoArea + of_nat (length xs) + of_nat j) = (s @ [0]) ! j" if j: "j \<le> length s" for j
  proof -
    have "unat (of_nat (length xs + j) :: u64) = length xs + j" using l j by (intro unat_of_nat64) simp
    moreover have "demoArea + of_nat (length xs) + of_nat j - demoArea = of_nat (length xs + j)" by simp
    ultimately have "demoTextMem (demoArea + of_nat (length xs) + of_nat j) = demoText ! (length xs + j)"
      using l j by (simp add: demoTextMem_def in_rng)
    then show ?thesis using j by (simp add: e nth_append)
  qed
  show ?thesis
    by (rule cstrI [OF assms(2)]; use at in \<open>simp add: nth_append\<close>)
qed

lemma demo_start_text:
  assumes s: "s \<in> bootLits"
  shows "demoLit s \<noteq> 0 \<and> cstr demoStartMem (demoLit s) (chars s) \<and> rng (demoLit s) (Suc (length (chars s))) \<subseteq> rng demoArea 73"
proof -
  obtain xs ys where p: "demoText = xs @ chars s @ 0 # ys" "0 \<notin> set (chars s)" "length xs + length (chars s) < 73"
    "demoLit s = demoArea + of_nat (length xs)"
  proof -
    let ?i = "unat (demoLit s - demoArea)"
    have "demoText = take ?i demoText @ chars s @ 0 # drop (Suc (?i + length (chars s))) demoText \<and> 0 \<notin> set (chars s)
      \<and> length (take ?i demoText) + length (chars s) < 73 \<and> demoLit s = demoArea + of_nat (length (take ?i demoText))"
      using s unfolding bootLits_def by (elim insertE emptyE) (simp_all add: demoText_def demoLit_def chars_def)
    then show thesis by (elim conjE) (rule that)
  qed
  have sub: "rng (demoLit s) (Suc (length (chars s))) \<subseteq> rng demoArea 73"
  proof -
    have "unat (of_nat (length xs) :: u64) = length xs" using p(3) by (intro unat_of_nat64) simp
    then show ?thesis unfolding p(4) using p(3) by (intro rng_sub) simp
  qed
  have "rng demoArea 73 \<inter> rng (demoArea + 0x80) 56 = {}" by (rule apart_disjoint) (simp add: apart_def)
  then have "demoStartMem x = demoTextMem x" if "x \<in> rng (demoLit s) (Suc (length (chars s)))" for x
    using same_outsideD [OF demo_start_stores, of x] sub that by blast
  from cstr_cong [OF demo_text_at [OF p(1-3)] this [unfolded p(4)]]
  have "cstr demoStartMem (demoLit s) (chars s)" unfolding p(4) .
  moreover have "demoLit s \<noteq> 0"
  proof -
    have "unat (of_nat (length xs) :: u64) = length xs" using p(3) by (intro unat_of_nat64) simp
    then have "unat demoArea + unat (of_nat (length xs) :: u64) < 2 ^ 64" using p(3) by (simp add: demoArea_def)
    then have "unat (demoLit s) = unat demoArea + length xs"
      unfolding p(4) using p(3) by (subst unat_add_no_wrap) (simp_all add: unat_of_nat64)
    then show ?thesis by (auto simp: demoArea_def)
  qed
  ultimately show ?thesis using sub by blast
qed

lemma demo_start_ok: "boot_ok demoStart demoStatics" and demo_start_run: "has_run demoStart 62"
proof -
  let ?k = demoStart
  have sel: "mnts ?k = demoArea + 0x100" "spBuf ?k = demoArea + 0x140" "tmpfsHandler ?k = demoArea + 0x80" "lit ?k = demoLit"
    "mem ?k = demoStartMem" "nodeCache ?k = demoCache" "mntCache ?k = demoArea + 0x300" "tmpfsNodeCache ?k = demoTmpCache"
    by (simp_all add: demoStart_def demoBoot_def)
  have sub: "rng (demoArea + i) n \<subseteq> rng demoArea 0x300" if "unat i + n \<le> 0x300" for i n by (rule rng_sub [OF that])
  have big: "rng demoArea 73 \<subseteq> rng demoArea 0xe00" "rng (demoArea + 0x80) 56 \<subseteq> rng demoArea 0xe00"
    "rng demoArea 0x300 \<subseteq> rng demoArea 0xe00" "rng (demoArea + 0x300) 144 \<subseteq> rng demoArea 0xe00"
    by ((rule rng_mono rng_sub), simp)+
  have "same_outside (rng demoArea 73) (mem demoPmm) demoTextMem" by (auto simp: same_outside_def demoTextMem_def)
  from same_outside_trans [OF same_outside_mono [OF this big(1)] same_outside_mono [OF demo_start_stores big(2)]]
  have out: "same_outside (rng demoArea 0xe00) (mem demoPmm) (mem ?k)" by (simp add: sel)
  have e: "hhdm ?k = hhdm demoPmm" "pmmBitmap ?k = pmmBitmap demoPmm" "pmmSpinlock ?k = pmmSpinlock demoPmm"
    by (simp_all add: demoStart_def demoBoot_def demoFs_def demoPmm_def)
  note P = demo_pmm_like [OF e out]
  show "has_run ?k 62" by (rule P(4))
  have N: "rng demoCache 144 \<subseteq> rng demoCache 4032" by (rule rng_mono) simp
  have M: "rng (demoArea + 0x300) 144 \<inter> rng demoArea 0x300 = {}" by (rule apart_disjoint) (simp add: apart_def)
  have "held ?k (rng demoArea 0x300 \<union> rng demoCache 144 \<union> rng (demoArea + 0x300) 144 \<union> rng demoTmpCache 144)"
    by (rule held_subset [OF P(3)]) (use big(3,4) N demo_areas(1,2) in blast)
  moreover have st: "statics ?k demoStatics"
  proof -
    have o: "boot_objs ?k = {(demoArea + 0x80, 56), (demoArea + 0x100, 16), (demoArea + 0x140, 64)}" by (simp add: boot_objs_def sel)
    have a: "rng (demoArea + 0x80) 56 \<inter> rng (demoArea + 0x100) 16 = {}" "rng (demoArea + 0x80) 56 \<inter> rng (demoArea + 0x140) 64 = {}"
      "rng (demoArea + 0x100) 16 \<inter> rng (demoArea + 0x140) 64 = {}"
      by (rule apart_disjoint, simp add: apart_def)+
    have ap: "apart_objs (boot_objs ?k)"
    proof -
      have "apart_objs {(demoArea + 0x140, 64)}" by (simp add: apart_objs_def disjoint_family_on_def)
      then have "apart_objs {(demoArea + 0x100, 16), (demoArea + 0x140, 64)}" by (rule apart_insert) (simp add: a)
      then show ?thesis unfolding o by (rule apart_insert) (simp add: a Int_Un_distrib)
    qed
    have in_S: "bytes_of (boot_objs ?k) \<subseteq> demoStatics" unfolding o using sub by (auto simp: bytes_of_def)
    have t: "rng demoArea 73 \<inter> bytes_of (boot_objs ?k) = {}" "rng demoArea 73 \<subseteq> demoStatics"
    proof -
      have "rng demoArea 73 \<inter> rng (demoArea + 0x80) 56 = {}" "rng demoArea 73 \<inter> rng (demoArea + 0x100) 16 = {}"
        "rng demoArea 73 \<inter> rng (demoArea + 0x140) 64 = {}" by (rule apart_disjoint, simp add: apart_def)+
      then show "rng demoArea 73 \<inter> bytes_of (boot_objs ?k) = {}" unfolding o by (simp add: Int_Un_distrib)
      show "rng demoArea 73 \<subseteq> demoStatics" by (rule rng_mono) simp
    qed
    have "lit ?k s \<noteq> 0 \<and> cstr (mem ?k) (lit ?k s) (chars s) \<and> rng (lit ?k s) (Suc (length s)) \<subseteq> demoStatics - bytes_of (boot_objs ?k)"
      if "s \<in> bootLits" for s
      using demo_start_text [OF that] t unfolding sel chars_def length_map by blast
    moreover have "spBuf ?k \<noteq> 0" "mnts ?k \<noteq> 0" by (simp_all add: sel demoArea_def)
    ultimately show ?thesis using demo_start_handler ap in_S unfolding statics_def by blast
  qed
  moreover have "demoStatics \<inter> rng demoCache 144 = {}" "demoStatics \<inter> rng demoTmpCache 144 = {}"
    "rng (demoArea + 0x300) 144 \<inter> rng demoCache 144 = {}" "rng (demoArea + 0x300) 144 \<inter> rng demoTmpCache 144 = {}"
    using big(3,4) demo_areas(3,4) by blast+
  moreover have "demoCache \<noteq> 0" "unat demoCache + 144 \<le> 2 ^ 64" "demoTmpCache \<noteq> 0" "unat demoTmpCache + 144 \<le> 2 ^ 64"
    "demoArea + 0x300 \<noteq> 0" "unat (demoArea + 0x300) + 144 \<le> 2 ^ 64"
    by (simp_all add: demoCache_def demoTmpCache_def demoArea_def)
  ultimately show "boot_ok ?k demoStatics"
    unfolding boot_ok_def sel using P(1,2) M demo_areas(5) by (simp add: Int_commute)
qed



subsection \<open>Properties\<close>

text \<open>C15: \<open>vfsInit\<close> brings the file system up or runs out of memory, the latter only when fewer than seven
  consecutive pages are free. What it leaves is a tree of files in memory (\<open>tree_inv\<close>: nodes, directories, mounts and
  their lists are linked as they should be, all objects are disjoint and belong to nobody else, the
  three caches are in order), whose root directory is found under \<open>/\<close> and in which no name leads
  anywhere as yet, not even \<open>dev\<close>, which the second mount hides. Of the bytes in use before
  only the list of mounts and the buffer of the lookup change.\<close>

theorem vfsInit_correct:
  assumes "boot_ok k S"
  shows "vfsInit k = Some (Inl (PanicMsg ''OUT OF MEMORY'')) \<and> \<not> has_run k 7
    \<or> (\<exists>m r U T. let k' = k\<lparr>mem := m, root := r\<rparr> in vfsInit k = Some (Inr k') \<and> fs_started k' S U T
         \<and> (\<forall>i. has_run k (i + 7) \<longrightarrow> has_run k' i) \<and> (\<forall>x \<in> S - bytes_of (boot_objs k). m x = mem k x))"
  by (rule vfsInit_ok [OF assms])

theorem vfsInit_correct_witness: "\<exists>k U T. vfsInit demoStart = Some (Inr k) \<and> fs_started k demoStatics U T"
proof -
  have "has_run demoStart 7" by (rule has_run_less [OF demo_start_run]) simp
  then show ?thesis using vfsInit_correct [OF demo_start_ok] unfolding Let_def by blast
qed





end
