(* ===== verification/Descriptors.thy ===== *)
theory Descriptors
  imports Prelude
begin

section \<open>Descriptor tables (cpu/gdt.c, cpu/idt.c, cpu/isr.c)\<close>

text \<open>
  The segment and interrupt descriptor tables. The entries are packed structs, here records with
  fields of the same widths, in the order of the struct; \<open>gdtBits\<close>, \<open>idtLow\<close> and \<open>idtHigh\<close> are the
  bytes of such a struct read as little-endian words. What the CPU reads from those words is
  stated separately (\<open>descBase\<close>, \<open>gateOffset\<close> and the like), after the manual of the CPU, and the
  lemmas show that it is what the functions were given.

  The two tables are static arrays of 6 and 256 entries. \<open>lgdt\<close>, \<open>lidt\<close> and the reload of the
  segment registers are effects on the CPU and fields of the state.
\<close>

record GDTEntry =
  limitLow :: u16
  baseLow :: u16
  baseMid :: u8
  access :: u8
  limitHigh :: "4 word"
  segFlags :: "4 word"
  baseHigh :: u8

record IDTEntry =
  offsetLow :: u16
  selector :: u16
  ist :: u8
  attributes :: u8
  offsetMid :: u16
  offsetHigh :: u32
  reserved :: u32

record cpu_tables =
  gdt :: "GDTEntry list"
  gdtAddr :: u64
  gdtr :: "u16 \<times> u64"
  idt :: "IDTEntry list"
  idtAddr :: u64
  idtr :: "u16 \<times> u64"
  cpuGdtr :: "u16 \<times> u64"
  cpuIdtr :: "u16 \<times> u64"
  cpuCs :: u16
  cpuSegs :: u16

subsection \<open>Operations\<close>

text \<open>A write past the end of the static array has no meaning in C; all calls are inside.\<close>

definition gdtSetDesc :: "u8 \<Rightarrow> u32 \<Rightarrow> u32 \<Rightarrow> u8 \<Rightarrow> u8 \<Rightarrow> cpu_tables \<Rightarrow> cpu_tables res" where
  "gdtSetDesc i limit base acc flgs t =
     (if unat i < length (gdt t)
      then Inr (t\<lparr>gdt := (gdt t)[unat i :=
             \<lparr>limitLow = ucast (limit AND 0xffff), baseLow = ucast (base AND 0xffff),
              baseMid = ucast (drop_bit 16 base AND 0xff), access = acc,
              limitHigh = ucast (drop_bit 16 limit AND 0xf), segFlags = ucast flgs,
              baseHigh = ucast (drop_bit 24 base AND 0xff)\<rparr>]\<rparr>)
      else Inl OutOfBounds)"

definition gdtLoad :: "cpu_tables \<Rightarrow> cpu_tables" where
  "gdtLoad t = t\<lparr>cpuGdtr := gdtr t\<rparr>"

definition segReload :: "cpu_tables \<Rightarrow> cpu_tables" where
  "segReload t = t\<lparr>cpuCs := 0x08, cpuSegs := 0x10\<rparr>"

definition gdtFlush :: "cpu_tables \<Rightarrow> cpu_tables" where
  "gdtFlush t = segReload (gdtLoad t)"

definition gdtInit :: "cpu_tables \<Rightarrow> cpu_tables res" where
  "gdtInit t =
     (let t = t\<lparr>gdtr := (6 * 8 - 1, gdtAddr t)\<rparr> in
      bnd (gdtSetDesc 0 0 0 0 0 t) (\<lambda>t.
      bnd (gdtSetDesc 1 0x00ffffff 0 0x9a 0xa t) (\<lambda>t.
      bnd (gdtSetDesc 2 0x00ffffff 0 0x92 0xc t) (\<lambda>t.
      bnd (gdtSetDesc 3 0x00ffffff 0 0xfa 0xa t) (\<lambda>t.
      bnd (gdtSetDesc 4 0x00ffffff 0 0xf2 0xc t) (\<lambda>t.
        Inr (gdtFlush t)))))))"

definition idtSetDesc :: "u8 \<Rightarrow> u64 \<Rightarrow> u8 \<Rightarrow> cpu_tables \<Rightarrow> cpu_tables res" where
  "idtSetDesc i isr flgs t =
     (if unat i < length (idt t)
      then Inr (t\<lparr>idt := (idt t)[unat i :=
             \<lparr>offsetLow = ucast (isr AND 0xFFFF), selector = 0x08, ist = 0, attributes = flgs,
              offsetMid = ucast (drop_bit 16 isr AND 0xFFFF),
              offsetHigh = ucast (drop_bit 32 isr AND 0xFFFFFFFF), reserved = 0\<rparr>]\<rparr>)
      else Inl OutOfBounds)"

definition idtFlush :: "cpu_tables \<Rightarrow> cpu_tables" where
  "idtFlush t = t\<lparr>cpuIdtr := idtr t\<rparr>"

definition idtInit :: "cpu_tables \<Rightarrow> cpu_tables" where
  "idtInit t = idtFlush (t\<lparr>idtr := (256 * 16 - 1, idtAddr t)\<rparr>)"

text \<open>\<open>isrStub i\<close> is the word at index \<open>i\<close> of the table of entry points in \<open>isr.asm\<close>.\<close>

function isrInitLoop :: "(nat \<Rightarrow> u64) \<Rightarrow> nat \<Rightarrow> cpu_tables \<Rightarrow> cpu_tables res" where
  "isrInitLoop isrStub i t =
     (if i < 256 then bnd (idtSetDesc (of_nat i) (isrStub i) 0x8E t) (isrInitLoop isrStub (i + 1))
      else Inr t)"
  by pat_completeness auto
termination
  by (relation "measure (\<lambda>(f, i, t). 256 - i)") auto

definition isrInit :: "(nat \<Rightarrow> u64) \<Rightarrow> cpu_tables \<Rightarrow> cpu_tables res" where
  "isrInit isrStub t = isrInitLoop isrStub 0 t"

declare isrInitLoop.simps [simp del]

subsection \<open>What the CPU reads\<close>

text \<open>The eight bytes of a segment descriptor, and the sixteen of a gate.\<close>

definition gdtBits :: "GDTEntry \<Rightarrow> u64" where
  "gdtBits e = ucast (limitLow e) OR push_bit 16 (ucast (baseLow e)) OR push_bit 32 (ucast (baseMid e))
     OR push_bit 40 (ucast (access e)) OR push_bit 48 (ucast (limitHigh e)) OR push_bit 52 (ucast (segFlags e))
     OR push_bit 56 (ucast (baseHigh e))"

definition idtLow :: "IDTEntry \<Rightarrow> u64" where
  "idtLow e = ucast (offsetLow e) OR push_bit 16 (ucast (selector e)) OR push_bit 32 (ucast (ist e))
     OR push_bit 40 (ucast (attributes e)) OR push_bit 48 (ucast (offsetMid e))"

definition idtHigh :: "IDTEntry \<Rightarrow> u64" where
  "idtHigh e = ucast (offsetHigh e) OR push_bit 32 (ucast (reserved e))"

definition descBase :: "u64 \<Rightarrow> u32" where
  "descBase d = ucast (drop_bit 16 d AND 0xffffff) OR push_bit 24 (ucast (drop_bit 56 d AND 0xff))"

definition descLimit :: "u64 \<Rightarrow> u32" where
  "descLimit d = ucast (d AND 0xffff) OR push_bit 16 (ucast (drop_bit 48 d AND 0xf))"

definition descAccess :: "u64 \<Rightarrow> u8" where "descAccess d = ucast (drop_bit 40 d AND 0xff)"
definition descFlags :: "u64 \<Rightarrow> u8" where "descFlags d = ucast (drop_bit 52 d AND 0xf)"

definition gateOffset :: "IDTEntry \<Rightarrow> u64" where
  "gateOffset e = (idtLow e AND 0xffff) OR push_bit 16 (drop_bit 48 (idtLow e))
     OR push_bit 32 (ucast (ucast (idtHigh e) :: u32))"

definition gateSelector :: "IDTEntry \<Rightarrow> u16" where "gateSelector e = ucast (drop_bit 16 (idtLow e))"
definition gateIst :: "IDTEntry \<Rightarrow> u8" where "gateIst e = ucast (drop_bit 32 (idtLow e) AND 7)"
definition gateType :: "IDTEntry \<Rightarrow> u8" where "gateType e = ucast (drop_bit 40 (idtLow e))"

text \<open>The fields a descriptor was built from come back, the limit cut to its 20 bits.\<close>

lemma gdt_entry_read:
  fixes limit base :: u32 and acc flgs :: u8
  defines "e \<equiv> \<lparr>limitLow = ucast (limit AND 0xffff), baseLow = ucast (base AND 0xffff),
              baseMid = ucast (drop_bit 16 base AND 0xff), access = acc,
              limitHigh = ucast (drop_bit 16 limit AND 0xf), segFlags = ucast flgs,
              baseHigh = ucast (drop_bit 24 base AND 0xff)\<rparr>"
  shows "descBase (gdtBits e) = base" and "descLimit (gdtBits e) = limit AND 0xfffff"
    and "descAccess (gdtBits e) = acc" and "descFlags (gdtBits e) = flgs AND 0xf"
proof -
  have b: "bit (gdtBits e) i \<longleftrightarrow>
      (if i < 16 then bit limit i else if i < 40 then bit base (i - 16) else if i < 48 then bit acc (i - 40)
       else if i < 52 then bit limit (i - 32) else if i < 56 then bit flgs (i - 52)
       else if i < 64 then bit base (i - 32) else False)" for i
  proof -
    consider "i < 16" | "16 \<le> i" "i < 32" | "32 \<le> i" "i < 40" | "40 \<le> i" "i < 48" | "48 \<le> i" "i < 52"
      | "52 \<le> i" "i < 56" | "56 \<le> i" "i < 64" | "64 \<le> i" by linarith
    then show ?thesis
      by cases (simp_all add: e_def gdtBits_def bit_simps mask_bits bit_beyond less_diff_conv2)
  qed
  show "descBase (gdtBits e) = base"
  proof (rule bit_word_eqI)
    fix i assume "i < LENGTH(32)"
    then consider "i < 24" | "24 \<le> i" "i < 32" by force
    then show "bit (descBase (gdtBits e)) i = bit base i"
      by cases (simp_all add: descBase_def bit_simps mask_bits b less_diff_conv2)
  qed
  show "descLimit (gdtBits e) = limit AND 0xfffff"
  proof (rule bit_word_eqI)
    fix i assume "i < LENGTH(32)"
    then consider "i < 16" | "16 \<le> i" "i < 20" | "20 \<le> i" "i < 32" by force
    then show "bit (descLimit (gdtBits e)) i = bit (limit AND 0xfffff) i"
      by cases (simp_all add: descLimit_def bit_simps mask_bits b less_diff_conv2)
  qed
  show "descAccess (gdtBits e) = acc"
    by (rule bit_word_eqI) (simp add: descAccess_def bit_simps mask_bits b)
  show "descFlags (gdtBits e) = flgs AND 0xf"
    by (rule bit_word_eqI) (auto simp add: descFlags_def bit_simps mask_bits b)
qed

lemma idt_entry_read:
  fixes isr :: u64 and flgs :: u8 and sel :: u16
  defines "e \<equiv> \<lparr>offsetLow = ucast (isr AND 0xFFFF), selector = sel, ist = 0, attributes = flgs,
              offsetMid = ucast (drop_bit 16 isr AND 0xFFFF),
              offsetHigh = ucast (drop_bit 32 isr AND 0xFFFFFFFF), reserved = 0\<rparr>"
  shows "gateOffset e = isr" and "gateSelector e = sel" and "gateIst e = 0" and "gateType e = flgs"
proof -
  have lo: "bit (idtLow e) i \<longleftrightarrow>
      (if i < 16 then bit isr i else if i < 32 then bit sel (i - 16) else if i < 40 then False
       else if i < 48 then bit flgs (i - 40) else if i < 64 then bit isr (i - 32) else False)" for i
  proof -
    consider "i < 16" | "16 \<le> i" "i < 32" | "32 \<le> i" "i < 40" | "40 \<le> i" "i < 48" | "48 \<le> i" "i < 64"
      | "64 \<le> i" by linarith
    then show ?thesis by cases (simp_all add: e_def idtLow_def bit_simps mask_bits bit_beyond less_diff_conv2)
  qed
  have hi: "bit (idtHigh e) i \<longleftrightarrow> i < 32 \<and> bit isr (i + 32)" for i
    by (cases "i < 32") (simp_all add: e_def idtHigh_def bit_simps mask_bits bit_beyond add.commute)
  show "gateOffset e = isr"
  proof (rule bit_word_eqI)
    fix i assume "i < LENGTH(64)"
    then consider "i < 16" | "16 \<le> i" "i < 32" | "32 \<le> i" "i < 64" by force
    then show "bit (gateOffset e) i = bit isr i"
      by cases (simp_all add: gateOffset_def bit_simps mask_bits lo hi less_diff_conv2)
  qed
  show "gateSelector e = sel"
    by (rule bit_word_eqI) (simp add: gateSelector_def bit_simps lo)
  show "gateIst e = 0"
    by (rule bit_word_eqI) (auto simp add: gateIst_def bit_simps mask_bits lo)
  show "gateType e = flgs"
    by (rule bit_word_eqI) (simp add: gateType_def bit_simps lo)
qed

subsection \<open>Properties\<close>

definition emptyTables :: cpu_tables where
  "emptyTables =
     \<lparr>gdt = replicate 6 \<lparr>limitLow = 0, baseLow = 0, baseMid = 0, access = 0, limitHigh = 0, segFlags = 0, baseHigh = 0\<rparr>,
      gdtAddr = 0x5000, gdtr = (0, 0),
      idt = replicate 256 \<lparr>offsetLow = 0, selector = 0, ist = 0, attributes = 0, offsetMid = 0, offsetHigh = 0, reserved = 0\<rparr>,
      idtAddr = 0x6000, idtr = (0, 0), cpuGdtr = (0, 0), cpuIdtr = (0, 0), cpuCs = 0, cpuSegs = 0\<rparr>"

text \<open>C34: what the CPU reads from a segment descriptor is what \<open>gdtSetDesc\<close> was given: the base,
  the limit cut to 20 bits, the access byte and the four flags. The other descriptors are
  unchanged, and an index outside the table is refused.\<close>

theorem gdtSetDesc_correct:
  shows "if unat i < length (gdt t)
    then \<exists>t'. gdtSetDesc i limit base acc flgs t = Inr t' \<and> length (gdt t') = length (gdt t)
      \<and> descBase (gdtBits (gdt t' ! unat i)) = base \<and> descLimit (gdtBits (gdt t' ! unat i)) = limit AND 0xfffff
      \<and> descAccess (gdtBits (gdt t' ! unat i)) = acc \<and> descFlags (gdtBits (gdt t' ! unat i)) = flgs AND 0xf
      \<and> (\<forall>j. j \<noteq> unat i \<longrightarrow> gdt t' ! j = gdt t ! j)
    else gdtSetDesc i limit base acc flgs t = Inl OutOfBounds"
  using gdt_entry_read [of limit base acc flgs] by (simp add: gdtSetDesc_def)

theorem gdtSetDesc_correct_witness:
  "\<exists>t'. gdtSetDesc 1 0x00ffffff 0 0x9a 0xa emptyTables = Inr t' \<and> descLimit (gdtBits (gdt t' ! 1)) = 0xfffff"
proof -
  have l: "unat (1 :: u8) < length (gdt emptyTables)" by (simp add: emptyTables_def)
  have m: "(0x00ffffff :: u32) AND 0xfffff = 0xfffff" by simp
  from gdtSetDesc_correct [of 1 emptyTables "0x00ffffff" 0 "0x9a" "0xa"] l m show ?thesis by auto
qed

lemma isrInitLoop_gates:
  "length (idt t) = 256 \<Longrightarrow> i \<le> 256 \<Longrightarrow> \<exists>t'. isrInitLoop stub i t = Inr t' \<and> length (idt t') = 256
    \<and> (\<forall>j < i. idt t' ! j = idt t ! j)
    \<and> (\<forall>j. i \<le> j \<and> j < 256 \<longrightarrow> gateOffset (idt t' ! j) = stub j \<and> gateSelector (idt t' ! j) = 0x08
        \<and> gateIst (idt t' ! j) = 0 \<and> gateType (idt t' ! j) = 0x8e)"
proof (induction stub i t rule: isrInitLoop.induct)
  case (1 stub i t)
  show ?case
  proof (cases "i < 256")
    case True
    then have u: "unat (of_nat i :: u8) = i" by (simp add: unsigned_of_nat take_bit_nat_eq_self)
    then obtain t1 where t1: "idtSetDesc (of_nat i) (stub i) 0x8E t = Inr t1" "length (idt t1) = 256"
      "\<forall>j < i. idt t1 ! j = idt t ! j" "gateOffset (idt t1 ! i) = stub i" "gateSelector (idt t1 ! i) = 0x08"
      "gateIst (idt t1 ! i) = 0" "gateType (idt t1 ! i) = 0x8e"
      using True 1(2) idt_entry_read [of "stub i" "0x08" "0x8E"] by (simp add: idtSetDesc_def)
    from 1(1) [OF True t1(1,2)] True obtain t' where t': "isrInitLoop stub (i + 1) t1 = Inr t'" "length (idt t') = 256"
      "\<forall>j < i + 1. idt t' ! j = idt t1 ! j"
      "\<forall>j. i + 1 \<le> j \<and> j < 256 \<longrightarrow> gateOffset (idt t' ! j) = stub j \<and> gateSelector (idt t' ! j) = 0x08
        \<and> gateIst (idt t' ! j) = 0 \<and> gateType (idt t' ! j) = 0x8e" by auto
    have "isrInitLoop stub i t = Inr t'" using True t1(1) t'(1) by (subst isrInitLoop.simps) simp
    moreover have "gateOffset (idt t' ! j) = stub j \<and> gateSelector (idt t' ! j) = 0x08
        \<and> gateIst (idt t' ! j) = 0 \<and> gateType (idt t' ! j) = 0x8e" if "i \<le> j \<and> j < 256" for j
    proof (cases "j = i")
      case True
      then show ?thesis using t'(3) t1(4-7) by simp
    next
      case False
      then show ?thesis using t'(4) that by simp
    qed
    ultimately show ?thesis using t'(2,3) t1(3) by auto
  qed (use 1(2,3) in \<open>subst isrInitLoop.simps, auto\<close>)
qed

text \<open>\<open>isrInit\<close> succeeds and makes every one of the 256 gates an interrupt gate of the kernel
  (type \<open>0x8e\<close>, selector \<open>0x08\<close>, no stack switch) whose offset, as the CPU puts it together, is
  the entry of the table of stubs at the gate's index.\<close>

theorem isrInit_correct:
  assumes "length (idt t) = 256"
  shows "\<exists>t'. isrInit stub t = Inr t' \<and> length (idt t') = 256
    \<and> (\<forall>j < 256. gateOffset (idt t' ! j) = stub j \<and> gateSelector (idt t' ! j) = 0x08
        \<and> gateIst (idt t' ! j) = 0 \<and> gateType (idt t' ! j) = 0x8e)"
  using isrInitLoop_gates [OF assms, of 0 stub] by (simp add: isrInit_def)

theorem isrInit_correct_witness:
  "\<exists>t'. isrInit (\<lambda>i. 0xffffffff80000000 + of_nat i) emptyTables = Inr t'
     \<and> gateOffset (idt t' ! 33) = 0xffffffff80000021"
proof -
  from isrInit_correct [of emptyTables "\<lambda>i. 0xffffffff80000000 + of_nat i"] obtain t' where
    "isrInit (\<lambda>i. 0xffffffff80000000 + of_nat i) emptyTables = Inr t'"
    "\<forall>j < 256. gateOffset (idt t' ! j) = 0xffffffff80000000 + of_nat j" by (auto simp: emptyTables_def)
  then show ?thesis by (intro exI [of _ t']) simp
qed

end
