(* ===== verification/Irq.thy ===== *)
theory Irq
  imports Pmm
begin

section \<open>Interrupt vectors and dispatch (driver/irq.c, cpu/isr.c)\<close>

text \<open>
  The vectors from 32 on have a handler each, and a bitmap says which are allocated. The handlers
  are functions of the drivers, of which a table holds the address; what running one does is a
  parameter (\<open>run\<close>), since any driver may install any function.
\<close>

definition IRQ_HANDLERS :: nat where "IRQ_HANDLERS = 256 - 32"

record irq_state = pmm_state +
  handlers :: "u64 list"
  irqBitmap :: Bitmap
  spuriousFn :: u64

subsection \<open>Operations\<close>

text \<open>The \<open>int\<close> arguments are 32-bit words; the index into the array is that of a signed number.\<close>

definition irqHandle ::
    "(u64 \<Rightarrow> 'a irq_state_scheme \<Rightarrow> 'a irq_state_scheme res) \<Rightarrow> u32 \<Rightarrow> 'a irq_state_scheme \<Rightarrow> 'a irq_state_scheme res" where
  "irqHandle run irq k =
     (if unat irq < length (handlers k)
      then let h = handlers k ! unat irq in if h = 0 then Inl NullDeref else run h k
      else Inl OutOfBounds)"

definition irqAllocVector :: "'a irq_state_scheme \<Rightarrow> (u32 \<times> 'a irq_state_scheme) res" where
  "irqAllocVector k =
     bnd (bitmapFind (irqBitmap k) 1 (mem k)) (\<lambda>r.
     let vector = (ucast r :: u32) in
     bnd (bitmapSet (irqBitmap k) (scast vector) True (mem k)) (\<lambda>m.
       Inr (vector + 32, k\<lparr>mem := m\<rparr>)))"

definition irqInstall :: "u32 \<Rightarrow> u64 \<Rightarrow> 'a irq_state_scheme \<Rightarrow> 'a irq_state_scheme res" where
  "irqInstall vector handler k =
     (let vector = vector - 32 in
      if unat vector < length (handlers k)
      then let k = k\<lparr>handlers := (handlers k)[unat vector := handler]\<rparr> in
           bnd (bitmapSet (irqBitmap k) (scast vector) True (mem k)) (\<lambda>m. Inr (k\<lparr>mem := m\<rparr>))
      else Inl OutOfBounds)"

definition irqInit :: "'a irq_state_scheme \<Rightarrow> 'a irq_state_scheme res" where
  "irqInit k =
     bnd (vmmAlloc 1 k) (\<lambda>(d, k).
     bnd (bitmapInit (of_nat IRQ_HANDLERS) d (mem k)) (\<lambda>(bm, m).
       irqInstall 255 (spuriousFn k) (k\<lparr>mem := m, irqBitmap := bm\<rparr>)))"

text \<open>Exceptions are reported: the argument \<open>report\<close> stands for the call of \<open>panicIsr\<close>, which the
  theory \<open>Panic\<close> models on the formatter's state.\<close>

definition isrHandler ::
    "(u64 \<Rightarrow> 'a irq_state_scheme \<Rightarrow> 'a irq_state_scheme res) \<Rightarrow>
     (u64 \<Rightarrow> 'a irq_state_scheme \<Rightarrow> 'a irq_state_scheme res) \<Rightarrow>
     u64 \<Rightarrow> 'a irq_state_scheme \<Rightarrow> 'a irq_state_scheme res" where
  "isrHandler report run intId k =
     (if intId < 32 then report intId k else irqHandle run (ucast (intId - 32)) k)"

subsection \<open>Allocated vectors\<close>

definition irq_inv :: "'a irq_state_scheme \<Rightarrow> bool" where
  "irq_inv k \<longleftrightarrow> bm_ok (irqBitmap k) \<and> bits (irqBitmap k) = of_nat IRQ_HANDLERS \<and> length (handlers k) = IRQ_HANDLERS"

definition vecUsed :: "'a irq_state_scheme \<Rightarrow> nat \<Rightarrow> bool" where
  "vecUsed k v \<longleftrightarrow> bmBit (mem k) (irqBitmap k) (v - 32)"

lemma irq_bits: "irq_inv k \<Longrightarrow> unat (bits (irqBitmap k)) = 224"
  by (simp add: irq_inv_def IRQ_HANDLERS_def)

lemma scast_small: "unat (v :: u32) < 2 ^ 31 \<Longrightarrow> (scast v :: u64) = ucast v"
proof (rule bit_word_eqI)
  fix i assume v: "unat v < 2 ^ 31" and "i < LENGTH(64)"
  have "v = take_bit 31 v"
    by (rule word_unat_eq_iff [THEN iffD2]) (use v in \<open>simp add: unsigned_take_bit_eq take_bit_nat_eq_self\<close>)
  then have "bit v 31 = bit (take_bit 31 v) 31" by simp
  then have "\<not> bit v 31" by (simp add: bit_take_bit_iff)
  have b: "bit (scast v :: u64) i = bit v (min i 31)" "bit (ucast v :: u64) i = bit v i"
    using \<open>i < LENGTH(64)\<close> by (auto simp: bit_simps min_def)
  consider "i \<le> 31" | "32 \<le> i" by linarith
  then show "bit (scast v :: u64) i = bit (ucast v :: u64) i"
    by cases (use \<open>\<not> bit v 31\<close> in \<open>simp_all add: b min_def bit_beyond\<close>)
qed

lemma unat_scast_small: "unat (v :: u32) < 2 ^ 31 \<Longrightarrow> unat (scast v :: u64) = unat v"
  by (simp add: scast_small unsigned_ucast_eq take_bit_nat_eq_self)

text \<open>Marking a vector.\<close>

lemma mark_vector:
  assumes inv: "irq_inv k" and v: "unat (v :: u32) < 224"
  shows "\<exists>m. bitmapSet (irqBitmap k) (scast v) True (mem k) = Inr m
    \<and> same_outside (bm_rng (irqBitmap k)) (mem k) m
    \<and> (\<forall>p < 224. bmBit m (irqBitmap k) p \<longleftrightarrow> p = unat v \<or> bmBit (mem k) (irqBitmap k) p)"
proof -
  have u: "unat (scast v :: u64) = unat v" using v by (intro unat_scast_small) simp
  have "scast v < bits (irqBitmap k)" using v u irq_bits [OF inv] by (simp add: word_less_nat_alt)
  moreover have "bm_ok (irqBitmap k)" using inv by (simp add: irq_inv_def)
  ultimately show ?thesis using bitmapSet_spec [of "irqBitmap k" "scast v" True "mem k"] u irq_bits [OF inv] by auto
qed

text \<open>The vector \<open>irqAllocVector\<close> takes.\<close>

lemma irqAllocVector_result:
  assumes inv: "irq_inv k"
  defines "f \<equiv> first_fit (bmBit (mem k) (irqBitmap k)) 224 1"
  shows "f < 224" and "\<exists>m. irqAllocVector k = Inr (of_nat (f + 32), k\<lparr>mem := m\<rparr>)
    \<and> same_outside (bm_rng (irqBitmap k)) (mem k) m
    \<and> (\<forall>p < 224. bmBit m (irqBitmap k) p \<longleftrightarrow> p = f \<or> bmBit (mem k) (irqBitmap k) p)"
proof -
  show f: "f < 224"
  proof (cases "\<exists>s. free_run (bmBit (mem k) (irqBitmap k)) 224 s 1")
    case True
    then obtain s where "free_run (bmBit (mem k) (irqBitmap k)) 224 s 1" ..
    from first_fit_run [OF this] show ?thesis unfolding f_def free_run_one by simp
  next
    case False
    then show ?thesis using first_fit_none unfolding f_def by simp
  qed
  have u: "unat (of_nat f :: u32) = f" using f by (simp add: unsigned_of_nat take_bit_nat_eq_self)
  have w: "ucast (of_nat f :: u64) = (of_nat f :: u32)"
    by (rule word_unat_eq_iff [THEN iffD2]) (use f in \<open>simp add: unsigned_ucast_eq unsigned_of_nat take_bit_nat_eq_self\<close>)
  have "bitmapFind (irqBitmap k) 1 (mem k) = Inr (of_nat f)"
    using bitmapFind_first_fit [of 1 "irqBitmap k" "mem k"] irq_bits [OF inv] by (simp add: f_def)
  moreover obtain m where m: "bitmapSet (irqBitmap k) (scast (of_nat f :: u32)) True (mem k) = Inr m"
    "same_outside (bm_rng (irqBitmap k)) (mem k) m"
    "\<forall>p < 224. bmBit m (irqBitmap k) p \<longleftrightarrow> p = f \<or> bmBit (mem k) (irqBitmap k) p"
    using mark_vector [OF inv, of "of_nat f"] f u by auto
  ultimately have "irqAllocVector k = Inr (of_nat (f + 32), k\<lparr>mem := m\<rparr>)"
    by (simp add: irqAllocVector_def w Let_def add.commute)
  then show "\<exists>m. irqAllocVector k = Inr (of_nat (f + 32), k\<lparr>mem := m\<rparr>)
    \<and> same_outside (bm_rng (irqBitmap k)) (mem k) m
    \<and> (\<forall>p < 224. bmBit m (irqBitmap k) p \<longleftrightarrow> p = f \<or> bmBit (mem k) (irqBitmap k) p)" using m(2,3) by blast
qed

lemma irqInstall_result:
  assumes inv: "irq_inv k" and v: "32 \<le> unat (v :: u32)" "unat v < 256"
  shows "\<exists>m. irqInstall v h k = Inr (k\<lparr>handlers := (handlers k)[unat v - 32 := h], mem := m\<rparr>)
    \<and> same_outside (bm_rng (irqBitmap k)) (mem k) m
    \<and> (\<forall>p < 224. bmBit m (irqBitmap k) p \<longleftrightarrow> p = unat v - 32 \<or> bmBit (mem k) (irqBitmap k) p)"
proof -
  have u: "unat (v - 32) = unat v - 32" using v by (simp add: unat_sub_if')
  then have "unat (v - 32) < 224" using v by simp
  from mark_vector [OF inv this] obtain m where m: "bitmapSet (irqBitmap k) (scast (v - 32)) True (mem k) = Inr m"
    "same_outside (bm_rng (irqBitmap k)) (mem k) m"
    "\<forall>p < 224. bmBit m (irqBitmap k) p \<longleftrightarrow> p = unat v - 32 \<or> bmBit (mem k) (irqBitmap k) p" by (auto simp: u)
  moreover have "irqInstall v h k = Inr (k\<lparr>handlers := (handlers k)[unat v - 32 := h], mem := m\<rparr>)"
    using m(1) u v inv by (simp add: irqInstall_def irq_inv_def IRQ_HANDLERS_def Let_def)
  ultimately show ?thesis by blast
qed

subsection \<open>Properties\<close>

text \<open>C35: while a vector is free, \<open>irqAllocVector\<close> returns the lowest free one, at least 32, and
  marks it and no other; the vectors that were free stay free. When none is free it does not
  fail: it returns vector 32 again, which is in use.\<close>

theorem irqAllocVector_correct:
  assumes "irq_inv k"
  shows "\<exists>v k'. irqAllocVector k = Inr (v, k') \<and> irq_inv k' \<and> 32 \<le> unat v \<and> unat v < 256
    \<and> (\<forall>w. 32 \<le> w \<and> w < 256 \<longrightarrow> (vecUsed k' w \<longleftrightarrow> w = unat v \<or> vecUsed k w))
    \<and> (if \<exists>w. 32 \<le> w \<and> w < 256 \<and> \<not> vecUsed k w
       then \<not> vecUsed k (unat v) \<and> (\<forall>w. 32 \<le> w \<and> w < unat v \<longrightarrow> vecUsed k w)
       else v = 32 \<and> vecUsed k 32)"
proof -
  define f where "f = first_fit (bmBit (mem k) (irqBitmap k)) 224 1"
  note r = irqAllocVector_result [OF assms, folded f_def]
  then obtain m where m: "irqAllocVector k = Inr (of_nat (f + 32), k\<lparr>mem := m\<rparr>)"
    "\<forall>p < 224. bmBit m (irqBitmap k) p \<longleftrightarrow> p = f \<or> bmBit (mem k) (irqBitmap k) p" by blast
  have u: "unat (of_nat (f + 32) :: u32) = f + 32"
    using r(1) by (simp add: unsigned_of_nat take_bit_nat_eq_self del: of_nat_add)
  have one: "free_run (bmBit (mem k) (irqBitmap k)) 224 s 1 \<longleftrightarrow> s < 224 \<and> \<not> vecUsed k (s + 32)" for s
    unfolding free_run_one by (simp add: vecUsed_def)
  have used: "vecUsed (k\<lparr>mem := m\<rparr>) w \<longleftrightarrow> w = f + 32 \<or> vecUsed k w" if "32 \<le> w \<and> w < 256" for w
    using m(2) that by (auto simp: vecUsed_def)
  have alt: "if \<exists>w. 32 \<le> w \<and> w < 256 \<and> \<not> vecUsed k w
       then \<not> vecUsed k (f + 32) \<and> (\<forall>w. 32 \<le> w \<and> w < f + 32 \<longrightarrow> vecUsed k w)
       else f = 0 \<and> vecUsed k 32"
  proof (cases "\<exists>w. 32 \<le> w \<and> w < 256 \<and> \<not> vecUsed k w")
    case True
    then obtain w where "32 \<le> w" "w < 256" "\<not> vecUsed k w" by blast
    then have "free_run (bmBit (mem k) (irqBitmap k)) 224 (w - 32) 1" unfolding one by simp
    from first_fit_run [OF this] have "\<not> vecUsed k (f + 32)" unfolding f_def [symmetric] one by simp
    moreover have "vecUsed k x" if x: "32 \<le> x \<and> x < f + 32" for x
    proof (rule ccontr)
      assume "\<not> vecUsed k x"
      then have "free_run (bmBit (mem k) (irqBitmap k)) 224 (x - 32) 1" using x r(1) unfolding one by auto
      then have "f \<le> x - 32" unfolding f_def by (rule first_fit_le)
      then show False using x by linarith
    qed
    ultimately show ?thesis using True by simp
  next
    case False
    then have "\<not> free_run (bmBit (mem k) (irqBitmap k)) 224 s 1" for s unfolding one by auto
    then have "f = 0" unfolding f_def by (rule first_fit_none)
    then show ?thesis using False by auto
  qed
  have inv: "irq_inv (k\<lparr>mem := m\<rparr>)" using assms by (simp add: irq_inv_def)
  define v where "v = (of_nat (f + 32) :: u32)"
  have v: "irqAllocVector k = Inr (v, k\<lparr>mem := m\<rparr>)" "unat v = f + 32" "v = 32 \<longleftrightarrow> f = 0"
    using m(1) u by (simp_all add: v_def word_unat_eq_iff [of "of_nat (f + 32) :: u32" 32] del: of_nat_add)
  show ?thesis
  proof (intro exI [of _ v] exI [of _ "k\<lparr>mem := m\<rparr>"] conjI allI impI)
    show "vecUsed (k\<lparr>mem := m\<rparr>) w \<longleftrightarrow> w = unat v \<or> vecUsed k w" if "32 \<le> w \<and> w < 256" for w
      using used [OF that] v(2) by simp
    show "if \<exists>w. 32 \<le> w \<and> w < 256 \<and> \<not> vecUsed k w
       then \<not> vecUsed k (unat v) \<and> (\<forall>w. 32 \<le> w \<and> w < unat v \<longrightarrow> vecUsed k w)
       else v = 32 \<and> vecUsed k 32" using alt unfolding v(2,3) .
  qed (use v inv r(1) in simp_all)
qed

text \<open>A table of 224 handlers, of which only the first vector is allocated.\<close>

definition demoIrq :: irq_state where
  "demoIrq = \<lparr>mem = store64 (\<lambda>_. 0) 0x1000 1, hhdm = 0, pmmBitmap = \<lparr>bits = 0, dataSize = 0, data = 0\<rparr>,
     pmmSpinlock = False, handlers = replicate 224 0,
     irqBitmap = \<lparr>bits = 224, dataSize = 32, data = 0x1000\<rparr>, spuriousFn = 0x2000\<rparr>"

lemma demo_irq_inv: "irq_inv demoIrq"
  by (simp add: irq_inv_def demoIrq_def IRQ_HANDLERS_def bm_ok_def bitmapCalculateSize_def DIV_ROUND_UP_def)

theorem irqAllocVector_correct_witness: "\<exists>k'. irqAllocVector demoIrq = Inr (33, k')"
proof -
  have b: "vecUsed demoIrq w \<longleftrightarrow> w = 32" if "32 \<le> w" "w < 96" for w
    using that by (auto simp: vecUsed_def bmBit_def demoIrq_def bit_1_iff)
  from irqAllocVector_correct [OF demo_irq_inv] obtain v k' where v: "irqAllocVector demoIrq = Inr (v, k')"
    "32 \<le> unat v" and alt: "if \<exists>w. 32 \<le> w \<and> w < 256 \<and> \<not> vecUsed demoIrq w
       then \<not> vecUsed demoIrq (unat v) \<and> (\<forall>w. 32 \<le> w \<and> w < unat v \<longrightarrow> vecUsed demoIrq w)
       else v = 32 \<and> vecUsed demoIrq 32" by blast
  have "\<exists>w. 32 \<le> w \<and> w < 256 \<and> \<not> vecUsed demoIrq w" using b [of 33] by (intro exI [of _ 33]) simp
  with alt have l: "\<not> vecUsed demoIrq (unat v)" "\<forall>w. 32 \<le> w \<and> w < unat v \<longrightarrow> vecUsed demoIrq w" by simp_all
  have "\<not> 33 < unat v" using l(2) b [of 33] by auto
  moreover have "unat v \<noteq> 32" using l(1) b [of 32] by auto
  ultimately have "unat v = 33" using v(2) by simp
  then have "v = 33" by (simp add: word_unat_eq_iff)
  with v(1) show ?thesis by blast
qed

text \<open>C36: a handler that was installed for a vector runs when that interrupt arrives, and only it;
  the handlers of the other vectors are as before. Interrupts below 32 are exceptions: they go to
  the report of the exception and to no handler.\<close>

theorem irq_install_dispatch:
  assumes "irq_inv k" and "32 \<le> unat v" and "unat v < 256" and "h \<noteq> 0"
  shows "\<exists>k'. irqInstall v h k = Inr k' \<and> irq_inv k' \<and> vecUsed k' (unat v)
    \<and> isrHandler report run (ucast v) k' = run h k'
    \<and> (\<forall>w. 32 \<le> unat w \<and> unat w < 256 \<and> w \<noteq> v \<and> handlers k ! (unat w - 32) \<noteq> 0 \<longrightarrow>
         isrHandler report run (ucast w) k' = run (handlers k ! (unat w - 32)) k')
    \<and> (\<forall>i. i < 32 \<longrightarrow> isrHandler report run i k' = report i k')"
proof -
  from irqInstall_result [OF assms(1-3)] obtain m where
    m: "irqInstall v h k = Inr (k\<lparr>handlers := (handlers k)[unat v - 32 := h], mem := m\<rparr>)"
    "\<forall>p < 224. bmBit m (irqBitmap k) p \<longleftrightarrow> p = unat v - 32 \<or> bmBit (mem k) (irqBitmap k) p" by blast
  let ?k = "k\<lparr>handlers := (handlers k)[unat v - 32 := h], mem := m\<rparr>"
  have len: "length (handlers k) = 224" using assms(1) by (simp add: irq_inv_def IRQ_HANDLERS_def)
  have idx: "unat (ucast (ucast w - 32 :: u64) :: u32) = unat w - 32" "\<not> (ucast w :: u64) < 32"
    if "32 \<le> unat w" "unat w < 256" for w :: u32
  proof -
    have c: "unat (ucast w :: u64) = unat w" using that by (simp add: unsigned_ucast_eq take_bit_nat_eq_self)
    then show "\<not> (ucast w :: u64) < 32" using that by (simp add: word_less_nat_alt)
    have "unat (ucast w - 32 :: u64) = unat w - 32" using c that by (simp add: unat_sub_if')
    then show "unat (ucast (ucast w - 32 :: u64) :: u32) = unat w - 32"
      using that by (simp add: unsigned_ucast_eq take_bit_nat_eq_self)
  qed
  have lt: "unat w - 32 < 224" if "unat w < 256" for w :: u32 using that by arith
  have hit: "isrHandler report run (ucast v) ?k = run h ?k"
    using idx [OF assms(2,3)] assms(2-4) len lt [OF assms(3)] by (simp add: isrHandler_def irqHandle_def)
  have other: "isrHandler report run (ucast w) ?k = run (handlers k ! (unat w - 32)) ?k"
    if w: "32 \<le> unat w" "unat w < 256" "w \<noteq> v" "handlers k ! (unat w - 32) \<noteq> 0" for w
  proof -
    have "unat w - 32 \<noteq> unat v - 32" using w(1,3) assms(2) word_unat_eq_iff by fastforce
    then show ?thesis using idx [OF w(1,2)] w len lt [OF w(2)] by (simp add: isrHandler_def irqHandle_def)
  qed
  have "irq_inv ?k" using assms(1) by (simp add: irq_inv_def)
  moreover have "vecUsed ?k (unat v)" using m(2) lt [OF assms(3)] by (simp add: vecUsed_def)
  moreover have "isrHandler report run i ?k = report i ?k" if "i < 32" for i
    using that by (simp add: isrHandler_def)
  ultimately show ?thesis using m(1) hit other by (intro exI [of _ ?k] conjI allI impI) simp_all
qed

theorem irq_install_dispatch_witness:
  "\<exists>k'. irqInstall 40 0x3000 demoIrq = Inr k' \<and> isrHandler (\<lambda>_ _. Inl AssertFail) (\<lambda>h k. Inr (k\<lparr>hhdm := h\<rparr>)) 40 k' = Inr (k'\<lparr>hhdm := 0x3000\<rparr>)"
  using irq_install_dispatch [OF demo_irq_inv, of 40 "0x3000" "\<lambda>_ _. Inl AssertFail" "\<lambda>h k. Inr (k\<lparr>hhdm := h\<rparr>)"] by auto

end
