(* ===== verification/Machine.thy ===== *)
theory Machine
  imports Vmm Slab
begin

section \<open>The machine behind the drivers (include/util.h)\<close>

text \<open>
  Port input and output, device registers in memory and the model-specific registers are
  instructions whose effect is the hardware's. They are a parameter of the drivers: a record of
  functions on a state \<open>'s\<close> of the devices, which the kernel's state carries as \<open>mach\<close>. What a
  driver relies on is stated as hypotheses on this record where a property needs it
  (\<open>reg_file\<close>, \<open>config_mechanism\<close> and the like).

  Registers in memory are accessed by address; they are no part of the byte memory \<open>mem\<close>.
\<close>

record 's machine =
  pout8 :: "u16 \<Rightarrow> u8 \<Rightarrow> 's \<Rightarrow> 's"
  pout16 :: "u16 \<Rightarrow> u16 \<Rightarrow> 's \<Rightarrow> 's"
  pout32 :: "u16 \<Rightarrow> u32 \<Rightarrow> 's \<Rightarrow> 's"
  pin8 :: "u16 \<Rightarrow> 's \<Rightarrow> u8 \<times> 's"
  pin32 :: "u16 \<Rightarrow> 's \<Rightarrow> u32 \<times> 's"
  mread :: "u64 \<Rightarrow> 's \<Rightarrow> u32 \<times> 's"
  mwrite8 :: "u64 \<Rightarrow> u8 \<Rightarrow> 's \<Rightarrow> 's"
  mwrite16 :: "u64 \<Rightarrow> u16 \<Rightarrow> 's \<Rightarrow> 's"
  mwrite :: "u64 \<Rightarrow> u32 \<Rightarrow> 's \<Rightarrow> 's"
  mwrite64 :: "u64 \<Rightarrow> u64 \<Rightarrow> 's \<Rightarrow> 's"
  msrRead :: "u32 \<Rightarrow> 's \<Rightarrow> (u32 \<times> u32) \<times> 's"
  msrWrite :: "u32 \<Rightarrow> u32 \<Rightarrow> u32 \<Rightarrow> 's \<Rightarrow> 's"
  cpuidEdx :: "u32 \<Rightarrow> 's \<Rightarrow> u32"

record 's dev_state = vmm_state +
  mach :: 's

subsection \<open>Instructions\<close>

definition onMach :: "('s \<Rightarrow> 's) \<Rightarrow> ('s, 'a) dev_state_scheme \<Rightarrow> ('s, 'a) dev_state_scheme" where
  "onMach f k = k\<lparr>mach := f (mach k)\<rparr>"

definition fromMach :: "('s \<Rightarrow> 'r \<times> 's) \<Rightarrow> ('s, 'a) dev_state_scheme \<Rightarrow> 'r \<times> ('s, 'a) dev_state_scheme" where
  "fromMach f k = (case f (mach k) of (r, s) \<Rightarrow> (r, k\<lparr>mach := s\<rparr>))"

definition out8 :: "'s machine \<Rightarrow> u16 \<Rightarrow> u8 \<Rightarrow> ('s, 'a) dev_state_scheme \<Rightarrow> ('s, 'a) dev_state_scheme" where
  "out8 M port val = onMach (pout8 M port val)"

definition out16 :: "'s machine \<Rightarrow> u16 \<Rightarrow> u16 \<Rightarrow> ('s, 'a) dev_state_scheme \<Rightarrow> ('s, 'a) dev_state_scheme" where
  "out16 M port val = onMach (pout16 M port val)"

definition out32 :: "'s machine \<Rightarrow> u16 \<Rightarrow> u32 \<Rightarrow> ('s, 'a) dev_state_scheme \<Rightarrow> ('s, 'a) dev_state_scheme" where
  "out32 M port val = onMach (pout32 M port val)"

definition in8 :: "'s machine \<Rightarrow> u16 \<Rightarrow> ('s, 'a) dev_state_scheme \<Rightarrow> u8 \<times> ('s, 'a) dev_state_scheme" where
  "in8 M port = fromMach (pin8 M port)"

definition in32 :: "'s machine \<Rightarrow> u16 \<Rightarrow> ('s, 'a) dev_state_scheme \<Rightarrow> u32 \<times> ('s, 'a) dev_state_scheme" where
  "in32 M port = fromMach (pin32 M port)"

definition readReg :: "'s machine \<Rightarrow> u64 \<Rightarrow> ('s, 'a) dev_state_scheme \<Rightarrow> u32 \<times> ('s, 'a) dev_state_scheme" where
  "readReg M addr = fromMach (mread M addr)"

definition writeReg :: "'s machine \<Rightarrow> u64 \<Rightarrow> u32 \<Rightarrow> ('s, 'a) dev_state_scheme \<Rightarrow> ('s, 'a) dev_state_scheme" where
  "writeReg M addr val = onMach (mwrite M addr val)"

text \<open>The functions of \<open>util.h\<close> that do more than one instruction.\<close>

function ins32 :: "'s machine \<Rightarrow> u16 \<Rightarrow> u64 \<Rightarrow> nat \<Rightarrow> nat \<Rightarrow> ('s, 'a) dev_state_scheme \<Rightarrow> ('s, 'a) dev_state_scheme" where
  "ins32 M port buf i q k =
     (if i < q
      then case in32 M port k of (v, k) \<Rightarrow>
             ins32 M port buf (i + 1) q (k\<lparr>mem := store32 (mem k) (buf + of_nat (4 * i)) v\<rparr>)
      else k)"
  by pat_completeness auto
termination
  by (relation "measure (\<lambda>(M, port, buf, i, q, k). q - i)") auto

partial_function (option) waitKey ::
    "'s machine \<Rightarrow> ('s, 'a) dev_state_scheme \<Rightarrow> ('s, 'a) dev_state_scheme option" where
  "waitKey M k =
     (case in8 M 0x64 k of (st, k) \<Rightarrow> if st AND 1 = 0 then waitKey M k else Some k)"

definition keypress :: "'s machine \<Rightarrow> ('s, 'a) dev_state_scheme \<Rightarrow> (u8 \<times> ('s, 'a) dev_state_scheme) option" where
  "keypress M k =
     (case waitKey M k of
        None \<Rightarrow> None
      | Some k \<Rightarrow> (case waitKey M (snd (in8 M 0x60 k)) of
          None \<Rightarrow> None
        | Some k \<Rightarrow> Some (in8 M 0x60 k)))"

definition wrmsr :: "'s machine \<Rightarrow> u32 \<Rightarrow> u64 \<Rightarrow> ('s, 'a) dev_state_scheme \<Rightarrow> ('s, 'a) dev_state_scheme" where
  "wrmsr M msr val =
     onMach (msrWrite M msr (ucast (val AND 0xFFFFFFFF)) (ucast (drop_bit 32 val)))"

definition rdmsr :: "'s machine \<Rightarrow> u32 \<Rightarrow> ('s, 'a) dev_state_scheme \<Rightarrow> u64 \<times> ('s, 'a) dev_state_scheme" where
  "rdmsr M msr k =
     (case fromMach (msrRead M msr) k of ((low, high), k) \<Rightarrow> (push_bit 32 (ucast high) OR ucast low, k))"

declare ins32.simps [simp del]

lemma onMach_simps [simp]: "mach (onMach f k) = f (mach k)" "mem (onMach f k) = mem k" "hhdm (onMach f k) = hhdm k"
  by (simp_all add: onMach_def)

text \<open>The two halves of a model-specific register.\<close>

lemma halves: "push_bit 32 (ucast (ucast (drop_bit 32 v) :: u32)) OR ucast (ucast (v AND 0xFFFFFFFF) :: u32) = (v :: u64)"
proof (rule bit_word_eqI)
  fix i assume "i < LENGTH(64)"
  then consider "i < 32" | "32 \<le> i" "i < 64" by force
  then show "bit (push_bit 32 (ucast (ucast (drop_bit 32 v) :: u32)) OR ucast (ucast (v AND 0xFFFFFFFF) :: u32) :: u64) i = bit v i"
    by cases (simp_all add: bit_simps mask_bits less_diff_conv2)
qed

text \<open>Writing a field of a struct of \<open>n\<close> bytes, and a list operation on the memory of the state.\<close>

definition setField :: "nat \<Rightarrow> u64 \<Rightarrow> u64 \<Rightarrow> u64 \<Rightarrow> 'a pmm_state_scheme \<Rightarrow> 'a pmm_state_scheme res" where
  "setField n p off v k = deref p (Inr (k\<lparr>mem := store n (mem k) (p + off) v\<rparr>))"

definition onMemR :: "(mem \<Rightarrow> mem res) \<Rightarrow> 'a pmm_state_scheme \<Rightarrow> 'a pmm_state_scheme res" where
  "onMemR f k = bnd (f (mem k)) (\<lambda>m. Inr (k\<lparr>mem := m\<rparr>))"

subsection \<open>Mapping device pages\<close>

text \<open>The page tables do not depend on the devices, and mapping leaves the devices alone.\<close>

lemma vm_mach [simp]:
  fixes k :: "('s, 'a) dev_state_scheme"
  shows "vm_inv (k\<lparr>mach := s\<rparr>) = vm_inv k" "clear (k\<lparr>mach := s\<rparr>) v = clear k v" "leaf (k\<lparr>mach := s\<rparr>) a = leaf k a"
    "freePages (k\<lparr>mach := s\<rparr>) = freePages k"
  by (simp_all add: vm_inv_def vm_core_def vm_tree_def pmm_inv_def window_ok_def held_def phys_rng_def vmmPhysToVirt_def
      clear_def clearEnt_def leaf_def freePages_def)

lemma pmmZeroAlloc_mach:
  "pmmZeroAlloc n k = Inr (a, k') \<Longrightarrow> mach (k' :: ('s, 'a) dev_state_scheme) = mach k \<and> hhdm k' = hhdm k"
  by (auto simp: pmmZeroAlloc_def pmmAlloc_def pmmHandleOOM_def Let_def res_simps split: if_splits)

lemma vmmLevel_mach:
  "vmmLevel al fl t i k = Inr (p, k') \<Longrightarrow> mach (k' :: ('s, 'a) dev_state_scheme) = mach k \<and> hhdm k' = hhdm k"
  by (auto simp: vmmLevel_def res_simps split: if_splits dest!: pmmZeroAlloc_mach)

lemma vmmMap_mach:
  "vmmMap v p fl k = Inr k' \<Longrightarrow> mach (k' :: ('s, 'a) dev_state_scheme) = mach k \<and> hhdm k' = hhdm k"
  by (auto simp: vmmMap_def vmmWalk_def vmmInvalidatePage_def res_simps dest!: vmmLevel_mach)

lemma vmmMapMMIO_page:
  fixes k :: "('s, 'a) dev_state_scheme"
  assumes "vm_inv k" and "clear k (addr + hhdm k)"
  shows "(vmmMapMMIO addr 1 k = Inl (PanicMsg ''OUT OF MEMORY'') \<and> freePages k < 3)
    \<or> (\<exists>k'. vmmMapMMIO addr 1 k = Inr k' \<and> vm_inv k' \<and> mach k' = mach k \<and> hhdm k' = hhdm k
         \<and> leaf k' (leafOf (addr + hhdm k)) = PTE addr (PTE_WRITABLE OR PTE_NOT_CACHEABLE))"
proof -
  have e: "vmmMapMMIO addr 1 k = vmmMap (addr + hhdm k) addr (PTE_WRITABLE OR PTE_NOT_CACHEABLE) k"
    unfolding vmmMapMMIO_def vmmPhysToVirt_def
    by (cases "vmmMap (addr + hhdm k) addr (PTE_WRITABLE OR PTE_NOT_CACHEABLE) k")
       (simp_all add: vmmMapPages.simps [where n = 1] vmmMapPages.simps [where n = 0])
  have f: "flags_ok (PTE_WRITABLE OR PTE_NOT_CACHEABLE)"
    by (simp add: flags_ok_def PTE_WRITABLE_def PTE_NOT_CACHEABLE_def)
  from vmmMap_spec [OF assms f, of addr] show ?thesis
  proof (elim disjE exE conjE)
    fix k' assume k': "vmmMap (addr + hhdm k) addr (PTE_WRITABLE OR PTE_NOT_CACHEABLE) k = Inr k'"
      and r: "map_result k (addr + hhdm k) (PTE addr (PTE_WRITABLE OR PTE_NOT_CACHEABLE)) k'"
    have "leaf k' (leafOf (addr + hhdm k)) = PTE addr (PTE_WRITABLE OR PTE_NOT_CACHEABLE)"
      using r leafOf_ok [of "addr + hhdm k"] unfolding map_result_def by metis
    moreover have "vm_inv k'" using r by (simp add: map_result_def)
    ultimately show ?thesis unfolding e using k' vmmMap_mach [OF k'] by blast
  qed (simp add: e)
qed

subsection \<open>Device registers as a register file\<close>

text \<open>
  Devices whose registers keep what is written to them and are not changed by being read: the
  registers (\<open>reg\<close>) by their address, the model-specific ones (\<open>msr\<close>) by their number.
\<close>

definition reg_file :: "'s machine \<Rightarrow> ('s \<Rightarrow> u64 \<Rightarrow> u32) \<Rightarrow> bool" where
  "reg_file M reg \<longleftrightarrow> (\<forall>s a. mread M a s = (reg s a, s)) \<and> (\<forall>s a v. reg (mwrite M a v s) = (reg s)(a := v))"

definition msr_file :: "'s machine \<Rightarrow> ('s \<Rightarrow> u32 \<Rightarrow> u64) \<Rightarrow> bool" where
  "msr_file M msr \<longleftrightarrow>
     (\<forall>s r. msrRead M r s = ((ucast (msr s r AND 0xFFFFFFFF), ucast (drop_bit 32 (msr s r))), s))
     \<and> (\<forall>s r l h. msr (msrWrite M r l h s) = (msr s)(r := push_bit 32 (ucast h) OR ucast l))"

lemma reg_fileD:
  assumes "reg_file M reg"
  shows "readReg M a k = (reg (mach k) a, k)" and "reg (mach (writeReg M a v k)) = (reg (mach k))(a := v)"
  using assms by (simp_all add: reg_file_def readReg_def fromMach_def writeReg_def)

lemma msr_fileD:
  assumes "msr_file M msr"
  shows "rdmsr M r k = (msr (mach k) r, k)" and "msr (mach (wrmsr M r v k)) = (msr (mach k))(r := v)"
  using assms by (simp_all add: msr_file_def rdmsr_def fromMach_def wrmsr_def halves)

text \<open>A machine of that kind, with the PCI configuration ports; what is written to other ports is recorded.\<close>

record devices =
  dReg :: "u64 \<Rightarrow> u32"
  dMsr :: "u32 \<Rightarrow> u64"
  dLatch :: u32
  dCfg :: "u32 \<Rightarrow> u32"
  dOut :: "(u16 \<times> u32) list"

definition simpleMachine :: "devices machine" where
  "simpleMachine =
     \<lparr>pout8 = (\<lambda>p v s. s\<lparr>dOut := dOut s @ [(p, ucast v)]\<rparr>),
      pout16 = (\<lambda>p v s. s\<lparr>dOut := dOut s @ [(p, ucast v)]\<rparr>),
      pout32 = (\<lambda>p v s. if p = 0xCF8 then s\<lparr>dLatch := v\<rparr>
         else if p = 0xCFC then s\<lparr>dCfg := (dCfg s)(dLatch s := v)\<rparr> else s\<lparr>dOut := dOut s @ [(p, v)]\<rparr>),
      pin8 = (\<lambda>p s. (1, s)),
      pin32 = (\<lambda>p s. (if p = 0xCFC then dCfg s (dLatch s) else 0, s)),
      mread = (\<lambda>a s. (dReg s a, s)),
      mwrite8 = (\<lambda>a v s. s), mwrite16 = (\<lambda>a v s. s),
      mwrite = (\<lambda>a v s. s\<lparr>dReg := (dReg s)(a := v)\<rparr>),
      mwrite64 = (\<lambda>a v s. s),
      msrRead = (\<lambda>r s. ((ucast (dMsr s r AND 0xFFFFFFFF), ucast (drop_bit 32 (dMsr s r))), s)),
      msrWrite = (\<lambda>r l h s. s\<lparr>dMsr := (dMsr s)(r := push_bit 32 (ucast h) OR ucast l)\<rparr>),
      cpuidEdx = (\<lambda>l s. 0x200)\<rparr>"

lemma simple_regs: "reg_file simpleMachine dReg"
  and simple_msrs: "msr_file simpleMachine dMsr"
  by (simp_all add: reg_file_def msr_file_def simpleMachine_def)

text \<open>The example of the page tables with devices.\<close>

definition demoDev :: "'s \<Rightarrow> 's dev_state" where
  "demoDev s =
     \<lparr>mem = mem demoVmm, hhdm = hhdm demoVmm, pmmBitmap = pmmBitmap demoVmm, pmmSpinlock = pmmSpinlock demoVmm,
      p4 = p4 demoVmm, walkSpinlock = walkSpinlock demoVmm, cr3 = cr3 demoVmm, invalidated = invalidated demoVmm, mach = s\<rparr>"

lemma demoDev_ok: "vm_inv (demoDev s)" "clear (demoDev s) v" "freePages (demoDev s) = freePages demoVmm"
proof -
  show "vm_inv (demoDev s)" using demoVmm_inv
    by (simp add: vm_inv_def vm_core_def vm_tree_def pmm_inv_def window_ok_def held_def phys_rng_def vmmPhysToVirt_def demoDev_def)
  show "clear (demoDev s) v" using demoVmm_clear [of v] by (simp add: clear_def clearEnt_def demoDev_def)
  show "freePages (demoDev s) = freePages demoVmm" by (simp add: freePages_def demoDev_def)
qed

end
