(* ===== verification/Acpi.thy ===== *)
theory Acpi
  imports Machine
begin

section \<open>ACPI tables and power (driver/acpi.c, include/acpi.h)\<close>

text \<open>
  The tables are packed structs that the firmware left in memory; the offsets of their fields are
  those of the packed layout. \<open>rsdt\<close>, \<open>fadt\<close> and the two sleep types are the static variables.
  The loop over the root table counts in a \<open>u32\<close> but compares with a 64-bit quotient (\<open>sizeof\<close> is
  a \<open>size_t\<close>), so with a table length below 36 the bound is that of a number near \<open>2\<^sup>62\<close>.
  \<open>response\<close> is the address of the boot loader's answer, or 0.
\<close>

record 's acpi_state = "'s dev_state" +
  rsdp :: u64
  rsdt :: u64
  fadt :: u64
  SLP_TYPa :: u32
  SLP_TYPb :: u32
  sigStr :: "string \<Rightarrow> u64"

subsection \<open>Fields\<close>

definition sizeofSDTHeader :: u64 where "sizeofSDTHeader = 36"
definition sdtLength :: "mem \<Rightarrow> u64 \<Rightarrow> u32" where "sdtLength m h = load32 m (h + 4)"
definition rsdpRsdt :: "mem \<Rightarrow> u64 \<Rightarrow> u32" where "rsdpRsdt m p = load32 m (p + 16)"
definition sdtPtr :: "mem \<Rightarrow> u64 \<Rightarrow> u32 \<Rightarrow> u32" where
  "sdtPtr m r i = load32 m (r + 36 + 4 * ucast i)"

definition fadtDsdt :: "mem \<Rightarrow> u64 \<Rightarrow> u32" where "fadtDsdt m f = load32 m (f + 40)"
definition fadtPM1aControl :: "mem \<Rightarrow> u64 \<Rightarrow> u32" where "fadtPM1aControl m f = load32 m (f + 64)"
definition fadtPM1bControl :: "mem \<Rightarrow> u64 \<Rightarrow> u32" where "fadtPM1bControl m f = load32 m (f + 68)"
definition fadtResetReg :: "u64 \<Rightarrow> u64" where "fadtResetReg f = f + 116"
definition fadtResetValue :: "mem \<Rightarrow> u64 \<Rightarrow> u8" where "fadtResetValue m f = m (f + 128)"

record GenericAddress =
  addrSpace :: u8
  bitWidth :: u8
  bitOffset :: u8
  accessSize :: u8
  gaddr :: u64

definition readGenericAddress :: "mem \<Rightarrow> u64 \<Rightarrow> GenericAddress" where
  "readGenericAddress m a =
     \<lparr>addrSpace = m a, bitWidth = m (a + 1), bitOffset = m (a + 2), accessSize = m (a + 3),
      gaddr = load64 m (a + 4)\<rparr>"

subsection \<open>Operations\<close>

text \<open>
  The tests are separate statements; at most one of them holds. The value is a byte, widened to
  the size of the access.
\<close>

definition acpiOut ::
    "'s machine \<Rightarrow> GenericAddress \<Rightarrow> u8 \<Rightarrow> ('s, 'a) acpi_state_scheme \<Rightarrow> ('s, 'a) acpi_state_scheme res" where
  "acpiOut M g val k =
     bnd (if addrSpace g = 0
          then bnd (vmmMapMMIO (gaddr g) 1 k) (\<lambda>k.
               let p = vmmPhysToVirt k (gaddr g);
                   k = (if accessSize g \<le> 1 then onMach (mwrite8 M p val) k else k);
                   k = (if accessSize g = 2 then onMach (mwrite16 M p (ucast val)) k else k);
                   k = (if accessSize g = 3 then onMach (mwrite M p (ucast val)) k else k)
               in Inr (if accessSize g = 4 then onMach (mwrite64 M p (ucast val)) k else k))
          else Inr k) (\<lambda>k.
       if addrSpace g = 1
       then let k = (if accessSize g \<le> 1 then out8 M (ucast (gaddr g)) val k else k);
                k = (if accessSize g = 2 then out16 M (ucast (gaddr g)) (ucast val) k else k)
            in Inr (if accessSize g = 3 then out32 M (ucast (gaddr g)) (ucast val) k else k)
       else Inr k)"

partial_function (option) acpiFindLoop ::
    "u64 \<Rightarrow> u32 \<Rightarrow> ('s, 'a) acpi_state_scheme \<Rightarrow> u64 ores" where
  "acpiFindLoop signature i k =
     (if ucast i < (ucast (sdtLength (mem k) (rsdt k)) - sizeofSDTHeader) div 4
      then let a = vmmPhysToVirt k (ucast (sdtPtr (mem k) (rsdt k) i)) in
           bndO (Some (memcmp a signature 4 (mem k))) (\<lambda>c.
             if c = 0 then Some (Inr a) else acpiFindLoop signature (i + 1) k)
      else Some (Inr 0))"

definition acpiFindTable :: "u64 \<Rightarrow> ('s, 'a) acpi_state_scheme \<Rightarrow> u64 ores" where
  "acpiFindTable signature k =
     bndO (Some (deref (rsdt k) (Inr ()))) (\<lambda>_. acpiFindLoop signature 0 k)"

text \<open>The search for the name \<open>_S5\<close>: \<open>i\<close> counts, \<open>s5\<close> moves with it.\<close>

function findS5 :: "u32 \<Rightarrow> u32 \<Rightarrow> u64 \<Rightarrow> u64 \<Rightarrow> mem \<Rightarrow> (bool \<times> u64) res" where
  "findS5 i len s5 name m =
     (if i < len
      then bnd (memcmp s5 name 3 m) (\<lambda>c.
             if c = 0 then Inr (True, s5) else findS5 (i + 1) len (s5 + 1) name m)
      else Inr (False, s5))"
  by pat_completeness auto
termination
proof (relation "measure (\<lambda>(i, len, s5, name, m). unat len - unat i)")
  fix i len :: u32
  assume "i < len"
  then have "unat (i + 1) = Suc (unat i)"
    using unsigned_less [of len, where 'a = nat] by (auto simp: unat_plus_if' word_less_nat_alt)
  with \<open>i < len\<close> show "((i + 1, len, s5 + 1, name, m), (i, len, s5, name, m)) \<in>
      measure (\<lambda>(i, len, s5, name, m). unat len - unat i)" for s5 :: u64 and name :: u64 and m :: mem
    by (simp add: word_less_nat_alt)
qed simp

text \<open>
  The sleep types: skip the name, the package length and, before each number, a byte prefix.
  \<open>char\<close> is signed, and \<open>\<lless>\<close> is on the promoted \<open>int\<close>.
\<close>

definition skipPrefix :: "u64 \<Rightarrow> mem \<Rightarrow> u64" where
  "skipPrefix s m = (if m s = 0x0A then s + 1 else s)"

definition readS5 :: "u64 \<Rightarrow> mem \<Rightarrow> u32 \<times> u32" where
  "readS5 s5 m =
     (let s = s5 + 5;
          s = s + ucast (drop_bit 6 (m s AND 0xc0)) + 2;
          s = skipPrefix s m;
          a = push_bit 10 (scast (m s));
          s = skipPrefix (s + 1) m
      in (a, push_bit 10 (scast (m s))))"

definition acpiFadt :: "('s, 'a) acpi_state_scheme \<Rightarrow> ('s, 'a) acpi_state_scheme ores" where
  "acpiFadt k =
     bndO (acpiFindTable (sigStr k ''FACP'') k) (\<lambda>f.
     let k = k\<lparr>fadt := f\<rparr> in
     if f = 0 then Some (Inr k)
     else
       let dsdt = vmmPhysToVirt k (ucast (fadtDsdt (mem k) f)) in
       Some (bnd (memcmp dsdt (sigStr k ''DSDT'') 4 (mem k)) (\<lambda>c.
         if c = 0
         then bnd (findS5 0 (sdtLength (mem k) dsdt) (vmmPhysToVirt k (ucast (fadtDsdt (mem k) f + 36)))
                     (sigStr k ''_S5'') (mem k)) (\<lambda>(found, s5).
                if found
                then case readS5 s5 (mem k) of (a, b) \<Rightarrow> Inr (k\<lparr>SLP_TYPa := a, SLP_TYPb := b\<rparr>)
                else Inr k)
         else Inr k)))"

text \<open>\<open>acpiRsdt\<close> only prints the names of the tables and is left out.\<close>

definition acpiReboot :: "'s machine \<Rightarrow> ('s, 'a) acpi_state_scheme \<Rightarrow> ('s, 'a) acpi_state_scheme res" where
  "acpiReboot M k =
     deref (fadt k) (acpiOut M (readGenericAddress (mem k) (fadtResetReg (fadt k))) (fadtResetValue (mem k) (fadt k)) k)"

text \<open>When the machine is still running afterwards it panics; the state is that of the panic.\<close>

definition acpiShutdown :: "'s machine \<Rightarrow> ('s, 'a) acpi_state_scheme \<Rightarrow> err \<times> ('s, 'a) acpi_state_scheme" where
  "acpiShutdown M k =
     (if fadt k = 0 then (NullDeref, k)
      else let k = out16 M (ucast (fadtPM1aControl (mem k) (fadt k))) (ucast (SLP_TYPa k OR push_bit 13 1)) k;
               k = (if fadtPM1bControl (mem k) (fadt k) \<noteq> 0
                    then out16 M (ucast (fadtPM1bControl (mem k) (fadt k))) (ucast (SLP_TYPb k OR push_bit 13 1)) k
                    else k)
           in (PanicMsg ''SHUTDOWN FAILED'', k))"

definition acpiInit :: "u64 \<Rightarrow> u64 \<Rightarrow> ('s, 'a) acpi_state_scheme \<Rightarrow> ('s, 'a) acpi_state_scheme ores" where
  "acpiInit response address k =
     (if response = 0 \<or> address = 0 then Some (Inl (PanicMsg ''acpi not found!''))
      else acpiFadt (k\<lparr>rsdp := address, rsdt := vmmPhysToVirt k (ucast (rsdpRsdt (mem k) address))\<rparr>))"

declare findS5.simps [simp del]

subsection \<open>Properties\<close>

definition tableAt :: "('s, 'a) acpi_state_scheme \<Rightarrow> nat \<Rightarrow> u64" where
  "tableAt k i = vmmPhysToVirt k (ucast (sdtPtr (mem k) (rsdt k) (of_nat i)))"

definition hasSig :: "mem \<Rightarrow> u64 \<Rightarrow> u64 \<Rightarrow> bool" where
  "hasSig m sig a \<longleftrightarrow> (\<forall>j < 4. m (a + of_nat j) = m (sig + of_nat j))"

lemma memcmp_sig: "a \<noteq> 0 \<Longrightarrow> sig \<noteq> 0 \<Longrightarrow> \<exists>c. memcmp a sig 4 m = Inr c \<and> (c = 0 \<longleftrightarrow> hasSig m sig a)"
  using memcmpLoop_eq_0 [of 4 a sig m] by (simp add: memcmp_def hasSig_def)

lemma unat_up32: "unat (ucast (w :: u32) :: u64) = unat w"
proof -
  have "unat w < 2 ^ 32" using unsigned_less [of w, where 'a = nat] by simp
  then have "unat w < 2 ^ 64" by simp
  then show ?thesis by (simp add: unsigned_ucast_eq take_bit_nat_eq_self)
qed

lemma acpiFindLoop_cond:
  assumes "36 \<le> unat (len :: u32)" and "i \<le> (unat len - 36) div 4"
  shows "ucast (of_nat i :: u32) < ((ucast len :: u64) - sizeofSDTHeader) div 4 \<longleftrightarrow> i < (unat len - 36) div 4"
proof -
  have "unat len < 2 ^ 32" using unsigned_less [of len, where 'a = nat] by simp
  then have "unat (ucast (of_nat i :: u32) :: u64) = i"
    using assms(2) by (simp add: unat_up32 unsigned_of_nat take_bit_nat_eq_self)
  moreover have "unat ((ucast len :: u64) - 36) = unat len - 36"
    using assms(1) by (simp add: unat_sub_if' unat_up32)
  ultimately show ?thesis by (simp add: word_less_nat_alt sizeofSDTHeader_def unat_div)
qed

lemma acpiFindLoop_find:
  assumes "sig \<noteq> 0" and len: "36 \<le> unat (sdtLength (mem k) (rsdt k))"
    and n: "n = (unat (sdtLength (mem k) (rsdt k)) - 36) div 4" and t: "\<forall>j < n. tableAt k j \<noteq> 0" and "i \<le> n"
  shows "acpiFindLoop sig (of_nat i) k
    = Some (Inr (case find (\<lambda>j. hasSig (mem k) sig (tableAt k j)) [i..<n] of None \<Rightarrow> 0 | Some j \<Rightarrow> tableAt k j))"
  using assms(5)
proof (induction "n - i" arbitrary: i)
  case 0
  then show ?case using acpiFindLoop_cond [OF len, of i] n by (subst acpiFindLoop.simps) simp
next
  case (Suc d)
  then have i: "i < n" by simp
  from t i obtain c where c: "memcmp (tableAt k i) sig 4 (mem k) = Inr c" "c = 0 \<longleftrightarrow> hasSig (mem k) sig (tableAt k i)"
    using memcmp_sig [OF _ assms(1)] by meson
  have "acpiFindLoop sig (of_nat i) k = (if c = 0 then Some (Inr (tableAt k i)) else acpiFindLoop sig (of_nat (i + 1)) k)"
    using acpiFindLoop_cond [OF len, of i] i n c(1) by (subst acpiFindLoop.simps) (simp add: tableAt_def add.commute)
  moreover have "[i..<n] = i # [i + 1..<n]" using i by (simp add: upt_conv_Cons)
  ultimately show ?case using Suc(1) [of "i + 1"] Suc(2) i c(2) by simp
qed

text \<open>\<open>acpiFindTable\<close> returns the first table listed in the root table whose four signature bytes are
  those asked for, at its address in the direct map, and 0 when there is none; the root table's
  length must cover its header.
\<close>

theorem acpiFindTable_correct:
  assumes "rsdt k \<noteq> 0" and "sig \<noteq> 0" and "36 \<le> unat (sdtLength (mem k) (rsdt k))"
    and "n = (unat (sdtLength (mem k) (rsdt k)) - 36) div 4" and "\<forall>i < n. tableAt k i \<noteq> 0"
  shows "(\<exists>i < n. acpiFindTable sig k = Some (Inr (tableAt k i)) \<and> hasSig (mem k) sig (tableAt k i)
        \<and> (\<forall>j < i. \<not> hasSig (mem k) sig (tableAt k j)))
    \<or> (acpiFindTable sig k = Some (Inr 0) \<and> (\<forall>i < n. \<not> hasSig (mem k) sig (tableAt k i)))"
proof -
  have r: "acpiFindTable sig k = Some (Inr (case find (\<lambda>j. hasSig (mem k) sig (tableAt k j)) [0..<n] of None \<Rightarrow> 0 | Some j \<Rightarrow> tableAt k j))"
    using acpiFindLoop_find [OF assms(2-5), of 0] assms(1) by (simp add: acpiFindTable_def)
  show ?thesis
  proof (cases "find (\<lambda>j. hasSig (mem k) sig (tableAt k j)) [0..<n]")
    case None
    then have "\<forall>i < n. \<not> hasSig (mem k) sig (tableAt k i)" by (simp add: find_None_iff)
    then show ?thesis using r None by simp
  next
    case (Some i)
    then have "i < n \<and> hasSig (mem k) sig (tableAt k i) \<and> (\<forall>j < i. \<not> hasSig (mem k) sig (tableAt k j))"
      unfolding find_Some_iff by auto
    then show ?thesis using r Some by (intro disjI1 exI [of _ i]) simp
  qed
qed

text \<open>A root table at \<open>0x1000\<close> with two entries, the second with the signature \<open>"APIC"\<close>.\<close>

definition demoTables :: mem where
  "demoTables = store32 (store32 (store32 (store32 (store32 (\<lambda>_. 0) 0x1004 44) 0x1024 0x2000) 0x1028 0x3000)
     0x3000 0x43495041) 0x5000 0x43495041"

definition demoAcpi :: "devices acpi_state" where
  "demoAcpi =
     \<lparr>mem = demoTables, hhdm = 0, pmmBitmap = \<lparr>bits = 0, dataSize = 0, data = 0\<rparr>, pmmSpinlock = False,
      p4 = 0, walkSpinlock = False, cr3 = 0, invalidated = [],
      mach = \<lparr>dReg = (\<lambda>_. 0), dMsr = (\<lambda>_. 0), dLatch = 0, dCfg = (\<lambda>_. 0), dOut = []\<rparr>,
      rsdp = 0, rsdt = 0x1000, fadt = 0, SLP_TYPa = 0, SLP_TYPb = 0, sigStr = (\<lambda>_. 0)\<rparr>"

lemma demoTables_fields:
  "sdtLength demoTables 0x1000 = 44" "sdtPtr demoTables 0x1000 0 = 0x2000" "sdtPtr demoTables 0x1000 1 = 0x3000"
  "hasSig demoTables 0x5000 0x3000" "\<not> hasSig demoTables 0x5000 0x2000"
proof -
  have l: "load32 (store32 m a v) b = (if b = a then v else load32 m b)" if "b = a \<or> (4 \<le> unat (b - a) \<and> 4 \<le> unat (a - b))"
    for m a b v
    using that load_store_apart [of a 4 b 4 m "ucast v"] by (auto simp: load32_def store32_def apart_def load32_store32 [unfolded load32_def store32_def])
  show "sdtLength demoTables 0x1000 = 44" "sdtPtr demoTables 0x1000 0 = 0x2000" "sdtPtr demoTables 0x1000 1 = 0x3000"
    by (simp_all add: sdtLength_def sdtPtr_def demoTables_def l)
  have four: "j < 4 \<longleftrightarrow> j = 0 \<or> j = 1 \<or> j = 2 \<or> j = (3 :: nat)" for j by auto
  show "hasSig demoTables 0x5000 0x3000"
    by (auto simp: hasSig_def four demoTables_def store32_def store_at)
  have "demoTables (0x2000 + of_nat 0) \<noteq> demoTables (0x5000 + of_nat 0)"
    by (simp add: demoTables_def store32_def store_at)
  then show "\<not> hasSig demoTables 0x5000 0x2000" unfolding hasSig_def by (meson zero_less_numeral)
qed

theorem acpiFindTable_correct_witness: "acpiFindTable 0x5000 demoAcpi = Some (Inr 0x3000)"
proof -
  have f: "mem demoAcpi = demoTables" "rsdt demoAcpi = 0x1000" by (simp_all add: demoAcpi_def)
  have t: "tableAt demoAcpi 0 = 0x2000" "tableAt demoAcpi 1 = 0x3000"
    by (simp_all add: tableAt_def f demoTables_fields vmmPhysToVirt_def) (simp_all add: demoAcpi_def)
  have two: "i < 2 \<longleftrightarrow> i = 0 \<or> i = (1 :: nat)" for i by auto
  have "\<forall>i < 2. tableAt demoAcpi i \<noteq> 0" by (simp add: two t t(2) [simplified])
  moreover have "rsdt demoAcpi \<noteq> 0" "(0x5000 :: u64) \<noteq> 0" "36 \<le> unat (sdtLength (mem demoAcpi) (rsdt demoAcpi))"
    "2 = (unat (sdtLength (mem demoAcpi) (rsdt demoAcpi)) - 36) div 4"
    by (simp_all add: f demoTables_fields)
  ultimately have r: "(\<exists>i < 2. acpiFindTable 0x5000 demoAcpi = Some (Inr (tableAt demoAcpi i)) \<and> hasSig (mem demoAcpi) 0x5000 (tableAt demoAcpi i)
        \<and> (\<forall>j < i. \<not> hasSig (mem demoAcpi) 0x5000 (tableAt demoAcpi j)))
    \<or> (acpiFindTable 0x5000 demoAcpi = Some (Inr 0) \<and> (\<forall>i < 2. \<not> hasSig (mem demoAcpi) 0x5000 (tableAt demoAcpi i)))"
    by (intro acpiFindTable_correct)
  have h: "\<not> hasSig (mem demoAcpi) 0x5000 (tableAt demoAcpi 0)" "hasSig (mem demoAcpi) 0x5000 (tableAt demoAcpi 1)"
    unfolding t f by (rule demoTables_fields)+
  from r show ?thesis unfolding two using h t(2) by metis
qed

end
