(* ===== verification/Lapic.thy ===== *)
theory Lapic
  imports Machine
begin

section \<open>The local interrupt controller (cpu/lapic.c)\<close>

text \<open>
  The controller's registers lie in the page that its model-specific register names; every access
  reads that register again. The registers that \<open>lapicInit\<close> reads only to print them are left
  out.
\<close>

definition IA32_APIC_BASE_MSR :: u32 where "IA32_APIC_BASE_MSR = 0x1B"
definition IA32_APIC_BASE_MSR_ENABLE :: u64 where "IA32_APIC_BASE_MSR_ENABLE = 0x800"
definition PIC1_DATA :: u16 where "PIC1_DATA = 0x21"
definition PIC2_DATA :: u16 where "PIC2_DATA = 0xa1"
definition LAPIC_REGEOI :: u32 where "LAPIC_REGEOI = 0xb0"
definition LAPIC_REGSPI :: u32 where "LAPIC_REGSPI = 0xf0"

definition lapicSetBase :: "'s machine \<Rightarrow> u64 \<Rightarrow> ('s, 'a) dev_state_scheme \<Rightarrow> ('s, 'a) dev_state_scheme" where
  "lapicSetBase M base = wrmsr M IA32_APIC_BASE_MSR (base OR IA32_APIC_BASE_MSR_ENABLE)"

definition lapicGetBase :: "'s machine \<Rightarrow> ('s, 'a) dev_state_scheme \<Rightarrow> u64 \<times> ('s, 'a) dev_state_scheme" where
  "lapicGetBase M k = (case rdmsr M IA32_APIC_BASE_MSR k of (base, k) \<Rightarrow> (base AND NOT 0xfff, k))"

definition lapicWriteReg :: "'s machine \<Rightarrow> u32 \<Rightarrow> u32 \<Rightarrow> ('s, 'a) dev_state_scheme \<Rightarrow> ('s, 'a) dev_state_scheme" where
  "lapicWriteReg M reg val k =
     (case lapicGetBase M k of (base, k) \<Rightarrow> writeReg M (vmmPhysToVirt k (base + ucast reg)) val k)"

definition lapicReadReg :: "'s machine \<Rightarrow> u32 \<Rightarrow> ('s, 'a) dev_state_scheme \<Rightarrow> u32 \<times> ('s, 'a) dev_state_scheme" where
  "lapicReadReg M reg k =
     (case lapicGetBase M k of (base, k) \<Rightarrow> readReg M (vmmPhysToVirt k (base + ucast reg)) k)"

definition lapicSendEOI :: "'s machine \<Rightarrow> ('s, 'a) dev_state_scheme \<Rightarrow> ('s, 'a) dev_state_scheme" where
  "lapicSendEOI M = lapicWriteReg M LAPIC_REGEOI 0"

definition lapicInit :: "'s machine \<Rightarrow> ('s, 'a) dev_state_scheme \<Rightarrow> ('s, 'a) dev_state_scheme res" where
  "lapicInit M k =
     (let k = out8 M PIC1_DATA 0xff k;
          k = out8 M PIC2_DATA 0xff k
      in case lapicGetBase M k of (base, k) \<Rightarrow>
         bnd (vmmMapMMIO base 1 k) (\<lambda>k.
           let k = (case lapicGetBase M k of (base, k) \<Rightarrow> lapicSetBase M base k)
           in case lapicReadReg M LAPIC_REGSPI k of (spi, k) \<Rightarrow>
              Inr (lapicWriteReg M LAPIC_REGSPI (spi OR 0x100) k)))"

subsection \<open>Initialisation\<close>

text \<open>
  The registers in memory, the model-specific ones and the ports do not affect each other;
  \<open>outs\<close> is what was written to 8-bit ports.
\<close>

definition cpu_regs ::
    "'s machine \<Rightarrow> ('s \<Rightarrow> u64 \<Rightarrow> u32) \<Rightarrow> ('s \<Rightarrow> u32 \<Rightarrow> u64) \<Rightarrow> ('s \<Rightarrow> (u16 \<times> u8) list) \<Rightarrow> bool" where
  "cpu_regs M reg msr outs \<longleftrightarrow> reg_file M reg \<and> msr_file M msr
     \<and> (\<forall>s a v. msr (mwrite M a v s) = msr s \<and> outs (mwrite M a v s) = outs s)
     \<and> (\<forall>s r l h. reg (msrWrite M r l h s) = reg s \<and> outs (msrWrite M r l h s) = outs s)
     \<and> (\<forall>s p v. reg (pout8 M p v s) = reg s \<and> msr (pout8 M p v s) = msr s \<and> outs (pout8 M p v s) = outs s @ [(p, v)])"

lemma cpu_regsD:
  assumes "cpu_regs M reg msr outs"
  shows "reg_file M reg" and "msr_file M msr"
    and "msr (mach (writeReg M a v k)) = msr (mach k)" and "outs (mach (writeReg M a v k)) = outs (mach k)"
    and "reg (mach (wrmsr M r w k)) = reg (mach k)" and "outs (mach (wrmsr M r w k)) = outs (mach k)"
    and "reg (mach (out8 M p b k)) = reg (mach k)" and "msr (mach (out8 M p b k)) = msr (mach k)"
    and "outs (mach (out8 M p b k)) = outs (mach k) @ [(p, b)]"
  using assms by (simp_all add: cpu_regs_def writeReg_def wrmsr_def out8_def)

lemma machine_only:
  fixes k :: "('s, 'a) dev_state_scheme"
  shows "freePages (onMach g k) = freePages k" "vm_inv (onMach g k) = vm_inv k" "clear (onMach g k) v = clear k v" "leaf (onMach g k) a = leaf k a"
  by (simp_all add: onMach_def)

lemma base_kept: "(x AND NOT 0xfff OR 0x800) AND NOT 0xfff = (x :: u64) AND NOT 0xfff"
proof -
  have e: "(- 4096 :: int) = NOT (mask 12)" "(0x800 :: int) = push_bit 11 1"
    by (simp_all add: mask_eq_exp_minus_1 push_bit_eq_mult not_int_def)
  have "bit (- 4096 :: int) i \<longleftrightarrow> \<not> i < 12" "bit (0x800 :: int) i \<longleftrightarrow> i = 11" for i
    unfolding e bit_push_bit_iff bit_mask_iff bit_1_iff bit_not_iff by auto
  then show ?thesis by (intro bit_word_eqI) (auto simp: bit_simps)
qed

subsection \<open>Properties\<close>

text \<open>C40: \<open>lapicInit\<close> masks both old interrupt controllers, maps the controller's page at its address in
  the direct map without caching, enables the controller without moving it, and sets bit 8 of
  the spurious interrupt register; no other register changes. It can only fail with
  fewer than three free pages. No huge page may be on the way to that address (\<open>clear\<close>).
\<close>

theorem lapicInit_correct:
  fixes k :: "('s, 'a) dev_state_scheme"
  assumes "cpu_regs M reg msr outs" and "vm_inv k" and "base = msr (mach k) 0x1B AND NOT 0xfff" and "clear k (base + hhdm k)"
    and "spi = base + 0xf0 + hhdm k"
  shows "(lapicInit M k = Inl (PanicMsg ''OUT OF MEMORY'') \<and> freePages k < 3)
    \<or> (\<exists>k'. lapicInit M k = Inr k' \<and> vm_inv k'
         \<and> leaf k' (leafOf (base + hhdm k)) = PTE base (PTE_WRITABLE OR PTE_NOT_CACHEABLE)
         \<and> msr (mach k') = (msr (mach k))(0x1B := base OR 0x800)
         \<and> reg (mach k') = (reg (mach k))(spi := reg (mach k) spi OR 0x100)
         \<and> outs (mach k') = outs (mach k) @ [(0x21, 0xff), (0xa1, 0xff)])"
proof -
  note D = cpu_regsD [OF assms(1)] and R = reg_fileD [OF cpu_regsD(1) [OF assms(1)]] and S = msr_fileD [OF cpu_regsD(2) [OF assms(1)]]
  define k1 where "k1 = out8 M PIC2_DATA 0xff (out8 M PIC1_DATA 0xff k)"
  have k1: "msr (mach k1) = msr (mach k)" "reg (mach k1) = reg (mach k)"
    "outs (mach k1) = outs (mach k) @ [(0x21, 0xff), (0xa1, 0xff)]" "hhdm k1 = hhdm k" "freePages k1 = freePages k" "vm_inv k1" "clear k1 (base + hhdm k1)"
    using assms(2,4) by (simp_all add: k1_def D PIC1_DATA_def PIC2_DATA_def) (simp_all add: out8_def machine_only)
  have g: "lapicGetBase M j = (msr (mach j) 0x1B AND NOT 0xfff, j)" for j :: "('s, 'a) dev_state_scheme"
    by (simp add: lapicGetBase_def S IA32_APIC_BASE_MSR_def)
  have hw: "hhdm (wrmsr M r w j) = hhdm j" for r w and j :: "('s, 'a) dev_state_scheme" by (simp add: wrmsr_def)
  from vmmMapMMIO_page [OF k1(6,7)] show ?thesis
  proof (elim disjE exE conjE)
    assume "vmmMapMMIO base 1 k1 = Inl (PanicMsg ''OUT OF MEMORY'')" "freePages k1 < 3"
    then show ?thesis by (simp add: lapicInit_def Let_def g k1 assms(3) flip: k1_def)
  next
    fix k2 assume k2: "vmmMapMMIO base 1 k1 = Inr k2" "vm_inv k2" "mach k2 = mach k1" "hhdm k2 = hhdm k1"
      "leaf k2 (leafOf (base + hhdm k1)) = PTE base (PTE_WRITABLE OR PTE_NOT_CACHEABLE)"
    define k3 where "k3 = wrmsr M IA32_APIC_BASE_MSR (base OR 0x800) k2"
    have k3: "lapicGetBase M k3 = (base, k3)" "hhdm k3 = hhdm k"
      by (simp_all add: g k3_def S IA32_APIC_BASE_MSR_def assms(3) base_kept [simplified] hw k2(4) k1)
    define k4 where "k4 = writeReg M spi (reg (mach k) spi OR 0x100) k3"
    have r3: "reg (mach k3) = reg (mach k)" by (simp add: k3_def D k2(3) k1)
    have sa: "vmmPhysToVirt k3 (base + 0xf0) = spi" by (simp add: vmmPhysToVirt_def k3 assms(5))
    have gb: "lapicGetBase M k1 = (base, k1)" "lapicGetBase M k2 = (base, k2)"
      by (simp_all add: g k1 k2(3) assms(3))
    have set: "lapicSetBase M base k2 = k3" by (simp add: lapicSetBase_def IA32_APIC_BASE_MSR_ENABLE_def k3_def)
    have "lapicReadReg M LAPIC_REGSPI k3 = (reg (mach k) spi, k3)" "lapicWriteReg M LAPIC_REGSPI v k3 = writeReg M spi v k3" for v
      by (simp_all add: lapicReadReg_def lapicWriteReg_def k3(1) LAPIC_REGSPI_def sa R r3)
    then have "lapicInit M k = Inr k4"
      using k2(1) by (simp add: lapicInit_def Let_def gb set k4_def flip: k1_def)
    moreover have "vm_inv k4 \<and> leaf k4 (leafOf (base + hhdm k)) = PTE base (PTE_WRITABLE OR PTE_NOT_CACHEABLE)"
      using k2(2,5) k1(4) by (simp add: k4_def k3_def writeReg_def wrmsr_def machine_only)
    moreover have "msr (mach k4) = (msr (mach k))(0x1B := base OR 0x800)" "outs (mach k4) = outs (mach k) @ [(0x21, 0xff), (0xa1, 0xff)]"
      "reg (mach k4) = (reg (mach k))(spi := reg (mach k) spi OR 0x100)"
      by (simp_all add: k4_def k3_def D R S k2(3) k1 IA32_APIC_BASE_MSR_def)
    ultimately show ?thesis by blast
  qed
qed

lemma simple_cpu: "cpu_regs simpleMachine dReg dMsr (\<lambda>s. map (\<lambda>(p, v). (p, ucast v)) (dOut s))"
proof -
  have "ucast (ucast v :: u32) = v" for v :: u8 by (rule bit_word_eqI) (simp add: bit_simps)
  then show ?thesis unfolding cpu_regs_def
    by (intro conjI simple_regs simple_msrs) (simp_all add: simpleMachine_def)
qed

definition demoLapic :: "devices dev_state" where
  "demoLapic = demoDev \<lparr>dReg = (\<lambda>_. 0), dMsr = (\<lambda>_. 0)(0x1B := 0xfee00900), dLatch = 0, dCfg = (\<lambda>_. 0), dOut = []\<rparr>"

theorem lapicInit_correct_witness:
  "\<exists>k'. lapicInit simpleMachine demoLapic = Inr k' \<and> dMsr (mach k') 0x1B = 0xfee00800
     \<and> dReg (mach k') 0xffff8000fee000f0 = 0x100"
proof -
  have s: "hhdm demoLapic = 0xffff800000000000" "dMsr (mach demoLapic) = (\<lambda>_. 0)(0x1B := 0xfee00900)"
    "dReg (mach demoLapic) = (\<lambda>_. 0)"
    by (simp_all add: demoLapic_def demoDev_def demoVmm_def)
  have "vm_inv demoLapic" "clear demoLapic v" "\<not> freePages demoLapic < 3" for v
    using demoVmm_free by (simp_all add: demoLapic_def demoDev_ok)
  with lapicInit_correct [OF simple_cpu this(1) _ this(2), of "0xfee00000" "0xffff8000fee000f0"] show ?thesis
    by (auto simp: s)
qed

end
