(* ===== verification/IoApic.thy ===== *)
theory IoApic
  imports Acpi Lapic
begin

section \<open>The I/O interrupt controllers (cpu/ioapic.c, cpu/apic.c)\<close>

text \<open>
  The controllers and the overrides of ISA interrupts are read from the MADT and kept in two
  lists of structs. A controller's registers are reached through a select register at its
  address and a data window 16 bytes above it. Interrupts are numbered globally (GSI); each
  controller serves a range of them.

  The loop over the table is a partial function: an entry of length 0 makes it run for ever.
\<close>

definition IOAPIC_REGVER :: u32 where "IOAPIC_REGVER = 0x01"
definition IOAPIC_REGREDIR :: u32 where "IOAPIC_REGREDIR = 0x10"

record 's ioapic_state = "'s acpi_state" +
  ioApics :: u64
  isaOverrides :: u64
  ioApicCache :: u64
  isaOverrideCache :: u64
  nameStr :: "string \<Rightarrow> u64"

subsection \<open>Fields\<close>

definition sizeofIOAPIC :: u64 where "sizeofIOAPIC = 40"
definition ioAddr :: "mem \<Rightarrow> u64 \<Rightarrow> u64" where "ioAddr m p = load64 m p"
definition gsiStart :: "mem \<Rightarrow> u64 \<Rightarrow> u32" where "gsiStart m p = load32 m (p + 8)"
definition gsiEnd :: "mem \<Rightarrow> u64 \<Rightarrow> u32" where "gsiEnd m p = load32 m (p + 12)"
definition apicHead :: "u64 \<Rightarrow> u64" where "apicHead p = p + 24"

definition sizeofISAOverride :: u64 where "sizeofISAOverride = 32"
definition ovSource :: "mem \<Rightarrow> u64 \<Rightarrow> u32" where "ovSource m p = load32 m (p + 4)"
definition ovGsi :: "mem \<Rightarrow> u64 \<Rightarrow> u32" where "ovGsi m p = load32 m (p + 8)"
definition ovFlags :: "mem \<Rightarrow> u64 \<Rightarrow> u16" where "ovFlags m p = ucast (load 2 m (p + 12))"
definition ovHead :: "u64 \<Rightarrow> u64" where "ovHead p = p + 16"

subsection \<open>Registers\<close>

definition ioApicWriteReg ::
    "'s machine \<Rightarrow> u64 \<Rightarrow> u32 \<Rightarrow> u32 \<Rightarrow> ('s, 'a) dev_state_scheme \<Rightarrow> ('s, 'a) dev_state_scheme" where
  "ioApicWriteReg M p reg val k =
     (let k = writeReg M (ioAddr (mem k) p) reg k
      in writeReg M (ioAddr (mem k) p + 0x10) val k)"

definition ioApicReadReg ::
    "'s machine \<Rightarrow> u64 \<Rightarrow> u32 \<Rightarrow> ('s, 'a) dev_state_scheme \<Rightarrow> u32 \<times> ('s, 'a) dev_state_scheme" where
  "ioApicReadReg M p reg k =
     (let k = writeReg M (ioAddr (mem k) p) reg k
      in readReg M (ioAddr (mem k) p + 0x10) k)"

subsection \<open>Operations\<close>

definition ioApicAdd ::
    "'s machine \<Rightarrow> u32 \<Rightarrow> u64 \<Rightarrow> u32 \<Rightarrow> ('s, 'a) ioapic_state_scheme \<Rightarrow> ('s, 'a) ioapic_state_scheme ores" where
  "ioApicAdd M aid addr baseGsi k =
     bndO (slabAlloc (ioApicCache k) k) (\<lambda>(p, k).
     Some (bnd (vmmMapMMIO addr 1 k) (\<lambda>k.
           bnd (setField 8 p 0 (vmmPhysToVirt k addr) k) (\<lambda>k.
           bnd (setField 4 p 8 (ucast baseGsi) k) (\<lambda>k.
           case ioApicReadReg M p IOAPIC_REGVER k of (ver, k) \<Rightarrow>
           let redirEntries = drop_bit 16 ver + 1 in
           bnd (setField 4 p 12 (ucast (baseGsi + redirEntries)) k) (\<lambda>k.
           bnd (setField 4 p 16 (ucast aid) k) (\<lambda>k.
           bnd (onMemR (llInitHead (apicHead p)) k) (\<lambda>k.
             onMemR (llInsertFront (ioApics k) (apicHead p)) k))))))))"

text \<open>One entry of the table; entries of other types are skipped.\<close>

definition madtEntry ::
    "'s machine \<Rightarrow> u64 \<Rightarrow> ('s, 'a) ioapic_state_scheme \<Rightarrow> ('s, 'a) ioapic_state_scheme ores" where
  "madtEntry M ptr k =
     (if mem k ptr = 1
      then ioApicAdd M (ucast (mem k (ptr + 2))) (ucast (load32 (mem k) (ptr + 4))) (load32 (mem k) (ptr + 8)) k
      else if mem k ptr = 2
      then bndO (slabAlloc (isaOverrideCache k) k) (\<lambda>(p, k).
           Some (bnd (setField 4 p 0 (ucast (mem k (ptr + 2))) k) (\<lambda>k.
                 bnd (setField 4 p 4 (ucast (mem k (ptr + 3))) k) (\<lambda>k.
                 bnd (setField 4 p 8 (ucast (load32 (mem k) (ptr + 4))) k) (\<lambda>k.
                 bnd (setField 2 p 12 (load 2 (mem k) (ptr + 8)) k) (\<lambda>k.
                 bnd (onMemR (llInitHead (ovHead p)) k) (\<lambda>k.
                   onMemR (llInsertFront (isaOverrides k) (ovHead p)) k)))))))
      else Some (Inr k))"

partial_function (option) madtLoop ::
    "'s machine \<Rightarrow> u64 \<Rightarrow> u64 \<Rightarrow> ('s, 'a) ioapic_state_scheme \<Rightarrow> ('s, 'a) ioapic_state_scheme ores" where
  "madtLoop M tableEnd ptr k =
     (if ptr < tableEnd
      then bndO (madtEntry M ptr k) (\<lambda>k. madtLoop M tableEnd (ptr + ucast (mem k (ptr + 1))) k)
      else Some (Inr k))"

definition ioApicParseMadt ::
    "'s machine \<Rightarrow> ('s, 'a) ioapic_state_scheme \<Rightarrow> ('s, 'a) ioapic_state_scheme ores" where
  "ioApicParseMadt M k =
     bndO (acpiFindTable (sigStr k ''APIC'') k) (\<lambda>madt.
       if madt = 0 then Some (Inl (PanicMsg ''no i/o apics are available''))
       else madtLoop M (madt + ucast (sdtLength (mem k) madt)) (madt + 44) k)"

text \<open>The low half of a redirection entry, from the fields as they are passed.\<close>

definition redirLow :: "u8 \<Rightarrow> u8 \<Rightarrow> u8 \<Rightarrow> u8 \<Rightarrow> u8 \<Rightarrow> u8 \<Rightarrow> u8 \<Rightarrow> u32" where
  "redirLow vector delivery destinationMode deliveryStatus polarity trigger masked =
     (let low = ucast vector;
          low = low OR push_bit 8 (ucast (delivery AND 0x3));
          low = low OR push_bit 11 (ucast (destinationMode AND 1));
          low = low OR push_bit 12 (ucast (deliveryStatus AND 1));
          low = low OR push_bit 13 (ucast (polarity AND 1));
          low = low OR push_bit 15 (ucast (trigger AND 1))
      in low OR push_bit 16 (ucast (masked AND 1)))"

definition ioApicWriteRedirEntry ::
    "'s machine \<Rightarrow> u64 \<Rightarrow> u32 \<Rightarrow> u8 \<Rightarrow> u8 \<Rightarrow> u8 \<Rightarrow> u8 \<Rightarrow> u8 \<Rightarrow> u8 \<Rightarrow> u8 \<Rightarrow> u32 \<Rightarrow>
      ('s, 'a) dev_state_scheme \<Rightarrow> ('s, 'a) dev_state_scheme" where
  "ioApicWriteRedirEntry M p entryId vector delivery destinationMode deliveryStatus polarity trigger masked destination k =
     (let low = redirLow vector delivery destinationMode deliveryStatus polarity trigger masked;
          high = push_bit 24 destination;
          pos = IOAPIC_REGREDIR + 2 * entryId;
          k = ioApicWriteReg M p pos low k
      in ioApicWriteReg M p (pos + 1) high k)"

definition gsiBody :: "u32 \<Rightarrow> mem \<Rightarrow> u64 \<Rightarrow> unit \<Rightarrow> (u64 + unit) ores" where
  "gsiBody gsi m cur _ =
     (let p = LIST_ENTRY cur 24 in
      if gsiStart m p \<le> gsi \<and> gsi < gsiEnd m p then Some (Inr (Inl p)) else Some (Inr (Inr ())))"

definition ioApicFindForGSI :: "u32 \<Rightarrow> ('s, 'a) ioapic_state_scheme \<Rightarrow> u64 ores" where
  "ioApicFindForGSI gsi k =
     bndO (LL_TRAVERSE (gsiBody gsi (mem k)) (mem k) (ioApics k) ()) (\<lambda>r.
       case r of Inl p \<Rightarrow> Some (Inr p) | Inr _ \<Rightarrow> Some (Inr 0))"

text \<open>The panic message prints the number; here it is the constant part.\<close>

definition ioApicMap ::
    "'s machine \<Rightarrow> u32 \<Rightarrow> u32 \<Rightarrow> u16 \<Rightarrow> u16 \<Rightarrow> ('s, 'a) ioapic_state_scheme \<Rightarrow> ('s, 'a) ioapic_state_scheme ores" where
  "ioApicMap M gsi vector polarity trigger k =
     bndO (ioApicFindForGSI gsi k) (\<lambda>p.
       if p = 0 then Some (Inl (PanicMsg ''couldn't find an i/o apic for gsi''))
       else Some (Inr (ioApicWriteRedirEntry M p (gsi - gsiStart (mem k) p) (ucast vector) 0 0 0
                         (ucast polarity) (ucast trigger) 0 0 k)))"

definition isaBody :: "u32 \<Rightarrow> mem \<Rightarrow> u64 \<Rightarrow> unit \<Rightarrow> ((u32 \<times> u16 \<times> u16) + unit) ores" where
  "isaBody isa m cur _ =
     (let p = LIST_ENTRY cur 16 in
      if ovSource m p = isa
      then Some (Inr (Inl (ovGsi m p, ovFlags m p AND 0x3, drop_bit 2 (ovFlags m p) AND 0x3)))
      else Some (Inr (Inr ())))"

definition ioApicMapISA ::
    "'s machine \<Rightarrow> u32 \<Rightarrow> u32 \<Rightarrow> ('s, 'a) ioapic_state_scheme \<Rightarrow> ('s, 'a) ioapic_state_scheme ores" where
  "ioApicMapISA M isa vector k =
     bndO (LL_TRAVERSE (isaBody isa (mem k)) (mem k) (isaOverrides k) ()) (\<lambda>r.
       case r of
         Inl (gsi, polarity, trigger) \<Rightarrow> ioApicMap M gsi vector polarity trigger k
       | Inr _ \<Rightarrow> ioApicMap M isa vector 0 0 k)"

definition ioApicInit :: "'s machine \<Rightarrow> ('s, 'a) ioapic_state_scheme \<Rightarrow> ('s, 'a) ioapic_state_scheme ores" where
  "ioApicInit M k =
     bndO (Some (slabInitCache (ioApicCache k) (nameStr k ''io apics'') sizeofIOAPIC k)) (\<lambda>k.
     bndO (Some (slabInitCache (isaOverrideCache k) (nameStr k ''io apic isa overrides'') sizeofISAOverride k)) (\<lambda>k.
     bndO (Some (onMemR (llInitHead (ioApics k)) k)) (\<lambda>k.
     bndO (Some (onMemR (llInitHead (isaOverrides k)) k)) (\<lambda>k.
       ioApicParseMadt M k))))"

text \<open>Both controllers (\<open>apic.c\<close>); leaf 1 of \<open>cpuid\<close> says whether there is one at all.\<close>

definition CPUID_FEAT_EDX_APIC :: u32 where "CPUID_FEAT_EDX_APIC = push_bit 9 1"

definition apicCheckSupport :: "'s machine \<Rightarrow> ('s, 'a) dev_state_scheme \<Rightarrow> bool" where
  "apicCheckSupport M k \<longleftrightarrow> cpuidEdx M 1 (mach k) AND CPUID_FEAT_EDX_APIC \<noteq> 0"

definition apicInit :: "'s machine \<Rightarrow> ('s, 'a) ioapic_state_scheme \<Rightarrow> ('s, 'a) ioapic_state_scheme ores" where
  "apicInit M k =
     (if \<not> apicCheckSupport M k then Some (Inl (PanicMsg ''apic is not supported!''))
      else bndO (ioApicInit M k) (\<lambda>k. Some (lapicInit M k)))"

subsection \<open>The table: entries of length 0\<close>

text \<open>An entry of a type that is skipped, with length 0, is read again and again.\<close>

lemma madtLoop_not_stuck:
  "madtLoop M tableEnd ptr k = Some r \<Longrightarrow>
     \<not> (ptr < tableEnd \<and> mem k ptr \<noteq> 1 \<and> mem k ptr \<noteq> 2 \<and> mem k (ptr + 1) = 0)"
proof (rule madtLoop.raw_induct [where P = "\<lambda>M tableEnd ptr k r.
    \<not> (ptr < tableEnd \<and> mem k ptr \<noteq> 1 \<and> mem k ptr \<noteq> 2 \<and> mem k (ptr + 1) = 0)"])
qed (auto simp: madtEntry_def, blast)

lemma madtLoop_hangs:
  assumes "ptr < tableEnd" and "mem k ptr \<noteq> 1" and "mem k ptr \<noteq> 2" and "mem k (ptr + 1) = 0"
  shows "madtLoop M tableEnd ptr k = None"
  using madtLoop_not_stuck assms by (cases "madtLoop M tableEnd ptr k") blast+

subsection \<open>Routing\<close>

text \<open>
  A controller's registers, as the code uses them: the word at its address selects (\<open>sel\<close>), the
  one 16 bytes above it is the register selected (\<open>ioreg\<close>, by address and number). \<open>A\<close> are the
  addresses of the controllers.
\<close>

definition ioapic_regs ::
    "'s machine \<Rightarrow> ('s \<Rightarrow> u64 \<Rightarrow> u32) \<Rightarrow> ('s \<Rightarrow> u64 \<Rightarrow> u32 \<Rightarrow> u32) \<Rightarrow> u64 set \<Rightarrow> bool" where
  "ioapic_regs M sel ioreg A \<longleftrightarrow> (\<forall>a \<in> A. \<forall>s v.
     sel (mwrite M a v s) = (sel s)(a := v) \<and> ioreg (mwrite M a v s) = ioreg s
     \<and> sel (mwrite M (a + 0x10) v s) = sel s
     \<and> ioreg (mwrite M (a + 0x10) v s) = (ioreg s)(a := (ioreg s a)(sel s a := v)))"

lemma ioApicWriteReg_sets:
  assumes "ioapic_regs M sel ioreg A" and "ioAddr (mem k) p \<in> A"
  shows "\<exists>s. ioApicWriteReg M p r v k = k\<lparr>mach := s\<rparr>
    \<and> ioreg s = (ioreg (mach k))(ioAddr (mem k) p := (ioreg (mach k) (ioAddr (mem k) p))(r := v))"
  using assms by (auto simp: ioApicWriteReg_def Let_def writeReg_def onMach_def ioapic_regs_def)

lemma redirLow_bits:
  "bit (redirLow vector 0 0 0 pol trig 0) i \<longleftrightarrow> i < 8 \<and> bit vector i \<or> i = 13 \<and> bit pol 0 \<or> i = 15 \<and> bit trig 0"
  by (auto simp: redirLow_def Let_def bit_simps bit_beyond bit_1_iff)

lemma find_traverse:
  assumes "\<And>p. p \<in> set ps \<Longrightarrow> body (g p) () = Some (Inr (if P p then Inl (r p) else Inr ()))"
  shows "traverse body (map g ps) () = Some (Inr (case find P ps of None \<Rightarrow> Inr () | Some p \<Rightarrow> Inl (r p)))"
  using assms by (induction ps) auto

lemma ioApicFindForGSI_find:
  assumes "llist (mem k) (ioApics k) (map apicHead cs)"
  shows "ioApicFindForGSI gsi k = Some (Inr (case find (\<lambda>p. gsiStart (mem k) p \<le> gsi \<and> gsi < gsiEnd (mem k) p) cs of
      None \<Rightarrow> 0 | Some p \<Rightarrow> p))"
proof -
  have "traverse (gsiBody gsi (mem k)) (map apicHead cs) ()
      = Some (Inr (case find (\<lambda>p. gsiStart (mem k) p \<le> gsi \<and> gsi < gsiEnd (mem k) p) cs of None \<Rightarrow> Inr () | Some p \<Rightarrow> Inl p))"
    by (rule find_traverse) (simp add: gsiBody_def LIST_ENTRY_def apicHead_def)
  then show ?thesis unfolding ioApicFindForGSI_def LL_TRAVERSE_list [OF assms] by (simp split: option.splits)
qed

lemma isa_traverse:
  assumes "llist (mem k) (isaOverrides k) (map ovHead ovs)"
  shows "LL_TRAVERSE (isaBody isa (mem k)) (mem k) (isaOverrides k) ()
    = Some (Inr (case find (\<lambda>ov. ovSource (mem k) ov = isa) ovs of None \<Rightarrow> Inr ()
        | Some ov \<Rightarrow> Inl (ovGsi (mem k) ov, ovFlags (mem k) ov AND 0x3, drop_bit 2 (ovFlags (mem k) ov) AND 0x3)))"
  unfolding LL_TRAVERSE_list [OF assms]
  by (rule find_traverse) (simp add: isaBody_def LIST_ENTRY_def ovHead_def)

subsection \<open>Properties\<close>

text \<open>C39: \<open>ioApicMapISA\<close> takes the newest override of the interrupt, or the interrupt's own number with
  flags 0, finds the newest controller whose range has that number, and writes the two halves of
  its entry and no other register: the vector, not masked, to processor 0. Bits 13 and 15 of the
  entry (active low, level triggered) are bits 0 and 2 of the override's flags. Without a
  controller it panics.
\<close>

theorem ioApicMapISA_correct:
  fixes k :: "('s, 'a) ioapic_state_scheme"
  assumes "llist (mem k) (isaOverrides k) (map ovHead ovs)" and "llist (mem k) (ioApics k) (map apicHead cs)" and "0 \<notin> set cs"
    and "ioapic_regs M sel ioreg (ioAddr (mem k) ` set cs)"
    and "(gsi, flags) = (case find (\<lambda>ov. ovSource (mem k) ov = isa) ovs of
           None \<Rightarrow> (isa, 0) | Some ov \<Rightarrow> (ovGsi (mem k) ov, ovFlags (mem k) ov))"
  shows "case find (\<lambda>p. gsiStart (mem k) p \<le> gsi \<and> gsi < gsiEnd (mem k) p) cs of
      None \<Rightarrow> ioApicMapISA M isa vector k = Some (Inl (PanicMsg ''couldn't find an i/o apic for gsi''))
    | Some p \<Rightarrow> \<exists>s low. ioApicMapISA M isa vector k = Some (Inr (k\<lparr>mach := s\<rparr>))
        \<and> ioreg s = (ioreg (mach k))(ioAddr (mem k) p := (ioreg (mach k) (ioAddr (mem k) p))
             (0x10 + 2 * (gsi - gsiStart (mem k) p) := low, 0x11 + 2 * (gsi - gsiStart (mem k) p) := 0))
        \<and> (\<forall>i. bit low i \<longleftrightarrow> i < 8 \<and> bit vector i \<or> i = 13 \<and> bit flags 0 \<or> i = 15 \<and> bit flags 2)"
proof -
  define pol where "pol = flags AND 0x3"
  define trig where "trig = drop_bit 2 flags AND 0x3"
  have map: "ioApicMapISA M isa vector k = ioApicMap M gsi vector pol trig k"
    using assms(5) unfolding ioApicMapISA_def isa_traverse [OF assms(1)]
    by (auto simp: pol_def trig_def split: option.splits)
  show ?thesis
  proof (cases "find (\<lambda>p. gsiStart (mem k) p \<le> gsi \<and> gsi < gsiEnd (mem k) p) cs")
    case None
    then show ?thesis by (simp add: map ioApicMap_def ioApicFindForGSI_find [OF assms(2)])
  next
    case (Some p)
    then have p: "p \<in> set cs" by (auto simp: find_Some_iff)
    then have p0: "p \<noteq> 0" and a: "ioAddr (mem k) p \<in> ioAddr (mem k) ` set cs" using assms(3) by auto
    define low where "low = redirLow (ucast vector) 0 0 0 (ucast pol) (ucast trig) 0"
    define pos where "pos = 0x10 + 2 * (gsi - gsiStart (mem k) p)"
    obtain s1 where s1: "ioApicWriteReg M p pos low k = k\<lparr>mach := s1\<rparr>"
      "ioreg s1 = (ioreg (mach k))(ioAddr (mem k) p := (ioreg (mach k) (ioAddr (mem k) p))(pos := low))"
      using ioApicWriteReg_sets [OF assms(4) a, of pos low] by blast
    obtain s2 where s2: "ioApicWriteReg M p (pos + 1) 0 (k\<lparr>mach := s1\<rparr>) = k\<lparr>mach := s2\<rparr>"
      "ioreg s2 = (ioreg s1)(ioAddr (mem k) p := (ioreg s1 (ioAddr (mem k) p))(pos + 1 := 0))"
      using ioApicWriteReg_sets [OF assms(4), of "k\<lparr>mach := s1\<rparr>" p "pos + 1" 0] a by auto
    have "ioApicMap M gsi vector pol trig k = Some (Inr (k\<lparr>mach := s2\<rparr>))"
      using s1(1) s2(1) p0 Some
      by (simp add: ioApicMap_def ioApicFindForGSI_find [OF assms(2)] ioApicWriteRedirEntry_def IOAPIC_REGREDIR_def
          Let_def low_def pos_def)
    moreover have "ioreg s2 = (ioreg (mach k))(ioAddr (mem k) p := (ioreg (mach k) (ioAddr (mem k) p))(pos := low, pos + 1 := 0))"
      using s1(2) s2(2) by simp
    moreover have "bit low i \<longleftrightarrow> i < 8 \<and> bit vector i \<or> i = 13 \<and> bit flags 0 \<or> i = 15 \<and> bit flags 2" for i
      unfolding low_def redirLow_bits by (auto simp: pol_def trig_def bit_simps mask_bits)
    ultimately show ?thesis unfolding Some map
      by (auto intro!: exI [of _ s2] exI [of _ low] simp: pos_def add.commute)
  qed
qed

text \<open>One controller for the numbers 0 to 23 at \<open>0xfec00000\<close>, and an override of interrupt 9: active high,
  level triggered (flags \<open>0xd\<close>).\<close>

record demo_io =
  dSel :: "u64 \<Rightarrow> u32"
  dIoreg :: "u64 \<Rightarrow> u32 \<Rightarrow> u32"

definition demoIo :: "demo_io machine" where
  "demoIo =
     \<lparr>pout8 = (\<lambda>p v s. s), pout16 = (\<lambda>p v s. s), pout32 = (\<lambda>p v s. s), pin8 = (\<lambda>p s. (0, s)), pin32 = (\<lambda>p s. (0, s)),
      mread = (\<lambda>a s. (0, s)), mwrite8 = (\<lambda>a v s. s), mwrite16 = (\<lambda>a v s. s),
      mwrite = (\<lambda>a v s. if a = 0xfec00010
         then s\<lparr>dIoreg := (dIoreg s)(a - 0x10 := (dIoreg s (a - 0x10))(dSel s (a - 0x10) := v))\<rparr>
         else s\<lparr>dSel := (dSel s)(a := v)\<rparr>),
      mwrite64 = (\<lambda>a v s. s), msrRead = (\<lambda>r s. ((0, 0), s)), msrWrite = (\<lambda>r l h s. s), cpuidEdx = (\<lambda>l s. 0x200)\<rparr>"

definition demoIsa :: mem where
  "demoIsa = store64 (store64 (store64 (store64 (store64 (store64 (store64 (store64 (store64 (store64 (store64 (store64 (\<lambda>_. 0)
     0x1000 0x3018) 0x1008 0x3018) 0x3018 0x1000) 0x3020 0x1000) 0x3000 0xfec00000) 0x3008 0x1800000000)
     0x2000 0x4010) 0x2008 0x4010) 0x4010 0x2000) 0x4018 0x2000) 0x4000 0x900000000) 0x4008 0xd00000009"

definition demoRouting :: "demo_io ioapic_state" where
  "demoRouting =
     \<lparr>mem = demoIsa, hhdm = 0, pmmBitmap = \<lparr>bits = 0, dataSize = 0, data = 0\<rparr>, pmmSpinlock = False,
      p4 = 0, walkSpinlock = False, cr3 = 0, invalidated = [], mach = \<lparr>dSel = (\<lambda>_. 0), dIoreg = (\<lambda>_ _. 0)\<rparr>,
      rsdp = 0, rsdt = 0, fadt = 0, SLP_TYPa = 0, SLP_TYPb = 0, sigStr = (\<lambda>_. 0),
      ioApics = 0x1000, isaOverrides = 0x2000, ioApicCache = 0, isaOverrideCache = 0, nameStr = (\<lambda>_. 0)\<rparr>"

lemma demoIsa_lists: "llist demoIsa 0x1000 [0x3018]" "llist demoIsa 0x2000 [0x4010]"
  by (simp_all add: llist_def llNext_def llPrev_def demoIsa_def mem_simps apart_def)

lemma load_2: "load 2 m a = ucast (m a) OR push_bit 8 (ucast (m (a + 1)))"
  and load_4: "load 4 m a = ucast (m a) OR push_bit 8 (ucast (m (a + 1)) OR push_bit 8 (ucast (m (a + 2)) OR push_bit 8 (ucast (m (a + 3)))))"
  by (simp_all add: numeral_eq_Suc add.assoc)

lemma demoIsa_fields: "ioAddr demoIsa 0x3000 = 0xfec00000" "gsiStart demoIsa 0x3000 = 0" "gsiEnd demoIsa 0x3000 = 24"
  "ovSource demoIsa 0x4000 = 9" "ovGsi demoIsa 0x4000 = 9" "ovFlags demoIsa 0x4000 = 0xd"
  unfolding ioAddr_def gsiStart_def gsiEnd_def ovSource_def ovGsi_def ovFlags_def load32_def load_2 load_4
  by (simp_all add: demoIsa_def mem_simps unat_uminus)

theorem ioApicMapISA_correct_witness:
  "\<exists>s. ioApicMapISA demoIo 9 0x29 demoRouting = Some (Inr (demoRouting\<lparr>mach := s\<rparr>))
     \<and> bit (dIoreg s 0xfec00000 0x22) 13 \<and> bit (dIoreg s 0xfec00000 0x22) 15 \<and> dIoreg s 0xfec00000 0x23 = 0"
proof -
  have m: "mem demoRouting = demoIsa" "isaOverrides demoRouting = 0x2000" "ioApics demoRouting = 0x1000"
    by (simp_all add: demoRouting_def)
  have r: "ioapic_regs demoIo dSel dIoreg {0xfec00000}" by (simp add: ioapic_regs_def demoIo_def)
  have b: "bit (0xd :: u16) 0" "bit (0xd :: u16) 2" by (simp_all add: bit_0)
  have l: "llist (mem demoRouting) (isaOverrides demoRouting) (map ovHead [0x4000])"
    "llist (mem demoRouting) (ioApics demoRouting) (map apicHead [0x3000])"
    using demoIsa_lists by (simp_all add: m ovHead_def apicHead_def)
  have rs: "ioapic_regs demoIo dSel dIoreg (ioAddr (mem demoRouting) ` set [0x3000])"
    using r by (simp add: m demoIsa_fields)
  have ov: "(9, 0xd) = (case find (\<lambda>ov. ovSource (mem demoRouting) ov = 9) [0x4000] of
           None \<Rightarrow> (9, 0) | Some ov \<Rightarrow> (ovGsi (mem demoRouting) ov, ovFlags (mem demoRouting) ov))"
    by (simp add: m demoIsa_fields)
  have f: "find (\<lambda>p. gsiStart (mem demoRouting) p \<le> 9 \<and> 9 < gsiEnd (mem demoRouting) p) [0x3000] = Some 0x3000"
    by (simp add: m demoIsa_fields)
  obtain s low where "ioApicMapISA demoIo 9 0x29 demoRouting = Some (Inr (demoRouting\<lparr>mach := s\<rparr>))"
    and "dIoreg s = (dIoreg (mach demoRouting))(0xfec00000 := (dIoreg (mach demoRouting) 0xfec00000)(0x22 := low, 0x23 := 0))"
    and "\<forall>i. bit low i \<longleftrightarrow> i < 8 \<and> bit (0x29 :: u32) i \<or> i = 13 \<and> bit (0xd :: u16) 0 \<or> i = 15 \<and> bit (0xd :: u16) 2"
    using ioApicMapISA_correct [OF l _ rs ov, of "0x29"] unfolding f by (simp add: m demoIsa_fields) blast
  then show ?thesis using b by (intro exI [of _ s]) simp
qed

end
