(* ===== verification/Ahci.thy ===== *)
theory Ahci
  imports Machine
begin

section \<open>The disk controller (driver/disk/ahci.c, include/ahci.h)\<close>

text \<open>
  A controller has up to 32 ports, each with a block of registers. Commands are passed through
  memory: a list of command headers, each naming a command table that holds the command itself
  (a frame for the drive) and the description of the buffer. Registers are accesses to the
  machine, the structures are bytes of \<open>mem\<close>; reads and writes of registers happen in the order of
  the code. What the drive itself stores in memory is not part of the model.

  The busy-waiting loops that have no limit are partial functions.
\<close>

definition FIS_TYPE_REG_H2D :: u8 where "FIS_TYPE_REG_H2D = 0x27"
definition ATA_CMD_READ_DMA_EXT :: u8 where "ATA_CMD_READ_DMA_EXT = 0x25"
definition ATA_CMD_WRITE_DMA_EXT :: u8 where "ATA_CMD_WRITE_DMA_EXT = 0x35"
definition ATA_SR_BSY :: u32 where "ATA_SR_BSY = 0x80"
definition ATA_SR_DRQ :: u32 where "ATA_SR_DRQ = 0x08"

definition SATA_SIG_ATAPI :: u32 where "SATA_SIG_ATAPI = 0xEB140101"
definition SATA_SIG_SEMB :: u32 where "SATA_SIG_SEMB = 0xC33C0101"
definition SATA_SIG_PM :: u32 where "SATA_SIG_PM = 0x96690101"

definition AHCI_DEV_SATA :: u32 where "AHCI_DEV_SATA = 1"
definition AHCI_DEV_SEMB :: u32 where "AHCI_DEV_SEMB = 2"
definition AHCI_DEV_PM :: u32 where "AHCI_DEV_PM = 3"
definition AHCI_DEV_SATAPI :: u32 where "AHCI_DEV_SATAPI = 4"

definition HBA_PORT_IPM_ACTIVE :: u8 where "HBA_PORT_IPM_ACTIVE = 1"
definition HBA_PORT_DET_PRESENT :: u8 where "HBA_PORT_DET_PRESENT = 3"
definition HBA_PxCMD_ST :: u32 where "HBA_PxCMD_ST = 0x0001"
definition HBA_PxCMD_FRE :: u32 where "HBA_PxCMD_FRE = 0x0010"
definition HBA_PxCMD_FR :: u32 where "HBA_PxCMD_FR = 0x4000"
definition HBA_PxCMD_CR :: u32 where "HBA_PxCMD_CR = 0x8000"
definition HBA_PxIS_TFES :: u32 where "HBA_PxIS_TFES = push_bit 30 1"

record 's ahci_state = "'s dev_state" +
  ahciBase :: u64

subsection \<open>Registers and structures\<close>

text \<open>The controller's own registers, the blocks of the ports, and the registers of a port.\<close>

definition hbaCap :: "u64 \<Rightarrow> u64" where "hbaCap base = base"
definition hbaPi :: "u64 \<Rightarrow> u64" where "hbaPi base = base + 12"
definition hbaPort :: "u64 \<Rightarrow> u32 \<Rightarrow> u64" where "hbaPort base i = base + 0x100 + 0x80 * scast i"

definition portClb :: "u64 \<Rightarrow> u64" where "portClb p = p"
definition portClbUp :: "u64 \<Rightarrow> u64" where "portClbUp p = p + 4"
definition portFb :: "u64 \<Rightarrow> u64" where "portFb p = p + 8"
definition portFbUp :: "u64 \<Rightarrow> u64" where "portFbUp p = p + 12"
definition portIs :: "u64 \<Rightarrow> u64" where "portIs p = p + 16"
definition portCmd :: "u64 \<Rightarrow> u64" where "portCmd p = p + 24"
definition portTfd :: "u64 \<Rightarrow> u64" where "portTfd p = p + 32"
definition portSign :: "u64 \<Rightarrow> u64" where "portSign p = p + 36"
definition portSsts :: "u64 \<Rightarrow> u64" where "portSsts p = p + 40"
definition portSAct :: "u64 \<Rightarrow> u64" where "portSAct p = p + 52"
definition portCi :: "u64 \<Rightarrow> u64" where "portCi p = p + 56"

lemmas port_regs = portClb_def portClbUp_def portFb_def portFbUp_def portIs_def portCmd_def
  portTfd_def portSign_def portSsts_def portSAct_def portCi_def

text \<open>A command header is 32 bytes; the first byte holds bit fields.\<close>

definition cmdHeader :: "u64 \<Rightarrow> int \<Rightarrow> u64" where "cmdHeader cl i = cl + 32 * of_int i"
definition setCmdFisLen :: "u8 \<Rightarrow> u64 \<Rightarrow> mem \<Rightarrow> mem" where
  "setCmdFisLen v h m = m(h := m h AND 0xE0 OR v AND 0x1F)"
definition setWrite :: "bool \<Rightarrow> u64 \<Rightarrow> mem \<Rightarrow> mem" where
  "setWrite w h m = m(h := m h AND 0xBF OR (if w then 0x40 else 0))"
definition setPrdtLen :: "u16 \<Rightarrow> u64 \<Rightarrow> mem \<Rightarrow> mem" where
  "setPrdtLen v h m = store 2 m (h + 2) (ucast v)"
definition setCtbAddr :: "u64 \<Rightarrow> u64 \<Rightarrow> mem \<Rightarrow> mem" where
  "setCtbAddr phys h m = store32 (store32 m (h + 8) (U64_LOW phys)) (h + 12) (U64_HIGH phys)"
definition ctb :: "mem \<Rightarrow> u64 \<Rightarrow> u64" where
  "ctb m h = U64 (load32 m (h + 8)) (load32 m (h + 12))"

text \<open>The command table: the frame at 0, the first buffer entry at 128.\<close>

definition tblEnt0 :: "u64 \<Rightarrow> u64" where "tblEnt0 t = t + 128"
definition setDbAddr :: "u64 \<Rightarrow> u64 \<Rightarrow> mem \<Rightarrow> mem" where
  "setDbAddr phys e m = store32 (store32 m e (U64_LOW phys)) (e + 4) (U64_HIGH phys)"
definition setDbc :: "u32 \<Rightarrow> u64 \<Rightarrow> mem \<Rightarrow> mem" where
  "setDbc v e m = store32 m (e + 12) (load32 m (e + 12) AND 0xFFC00000 OR v AND 0x3FFFFF)"
definition setI :: "u64 \<Rightarrow> mem \<Rightarrow> mem" where
  "setI e m = store32 m (e + 12) (load32 m (e + 12) OR 0x80000000)"

text \<open>The frame, field by field in the order of the code.\<close>

definition fillFis :: "bool \<Rightarrow> u64 \<Rightarrow> u32 \<Rightarrow> u64 \<Rightarrow> mem \<Rightarrow> mem" where
  "fillFis write lba sectAmount f m =
     (let m = m(f := FIS_TYPE_REG_H2D);
          m = m(f + 1 := m (f + 1) OR 0x80);
          m = m(f + 2 := ATA_CMD_READ_DMA_EXT);
          m = (if write then m(f + 2 := ATA_CMD_WRITE_DMA_EXT) else m);
          m = m(f + 4 := ucast (lba AND 0xFF));
          m = m(f + 5 := ucast (drop_bit 8 lba AND 0xFF));
          m = m(f + 6 := ucast (drop_bit 16 lba AND 0xFF));
          m = m(f + 7 := 64);
          m = m(f + 8 := ucast (drop_bit 24 lba AND 0xFF));
          m = m(f + 9 := ucast (drop_bit 32 lba AND 0xFF));
          m = m(f + 10 := ucast (drop_bit 40 lba AND 0xFF));
          m = m(f + 12 := ucast (sectAmount AND 0xFF))
      in m(f + 13 := ucast (drop_bit 8 sectAmount AND 0xFF)))"

subsection \<open>Operations\<close>

definition setReg :: "'s machine \<Rightarrow> u64 \<Rightarrow> (u32 \<Rightarrow> u32) \<Rightarrow> ('s, 'a) dev_state_scheme \<Rightarrow> ('s, 'a) dev_state_scheme" where
  "setReg M a f k = (case readReg M a k of (v, k) \<Rightarrow> writeReg M a (f v) k)"

partial_function (option) waitCR ::
    "'s machine \<Rightarrow> u64 \<Rightarrow> ('s, 'a) dev_state_scheme \<Rightarrow> ('s, 'a) dev_state_scheme option" where
  "waitCR M port k =
     (case readReg M (portCmd port) k of (v, k) \<Rightarrow>
        if v AND HBA_PxCMD_CR \<noteq> 0 then waitCR M port k else Some k)"

definition ahciCmdStart ::
    "'s machine \<Rightarrow> u64 \<Rightarrow> ('s, 'a) dev_state_scheme \<Rightarrow> ('s, 'a) dev_state_scheme ores" where
  "ahciCmdStart M port k =
     (case waitCR M port k of
        None \<Rightarrow> None
      | Some k \<Rightarrow> Some (Inr (setReg M (portCmd port) (\<lambda>v. v OR HBA_PxCMD_FRE)
                             (setReg M (portCmd port) (\<lambda>v. v OR HBA_PxCMD_ST) k))))"

partial_function (option) waitStopped ::
    "'s machine \<Rightarrow> u64 \<Rightarrow> ('s, 'a) dev_state_scheme \<Rightarrow> ('s, 'a) dev_state_scheme option" where
  "waitStopped M port k =
     (case readReg M (portCmd port) k of (v, k) \<Rightarrow>
        if v AND HBA_PxCMD_FR \<noteq> 0 then waitStopped M port k
        else (case readReg M (portCmd port) k of (v, k) \<Rightarrow>
                if v AND HBA_PxCMD_CR \<noteq> 0 then waitStopped M port k else Some k))"

definition ahciCmdStop ::
    "'s machine \<Rightarrow> u64 \<Rightarrow> ('s, 'a) dev_state_scheme \<Rightarrow> ('s, 'a) dev_state_scheme ores" where
  "ahciCmdStop M port k =
     (let k = setReg M (portCmd port) (\<lambda>v. v AND NOT HBA_PxCMD_ST) k;
          k = setReg M (portCmd port) (\<lambda>v. v AND NOT HBA_PxCMD_FRE) k
      in map_option Inr (waitStopped M port k))"

text \<open>A page for the hardware: allocated, cleared, and its physical address.\<close>

definition zeroPage :: "('s, 'a) dev_state_scheme \<Rightarrow> (u64 \<times> ('s, 'a) dev_state_scheme) res" where
  "zeroPage k =
     bnd (vmmAlloc 1 k) (\<lambda>(p, k).
     bnd (memset p 0 PAGE_SIZE (mem k)) (\<lambda>m. Inr (p, k\<lparr>mem := m\<rparr>)))"

function rebaseLoop :: "u64 \<Rightarrow> nat \<Rightarrow> ('s, 'a) dev_state_scheme \<Rightarrow> ('s, 'a) dev_state_scheme res" where
  "rebaseLoop cl i k =
     (if i < 32
      then let h = cmdHeader cl (int i); k = k\<lparr>mem := setPrdtLen 8 h (mem k)\<rparr> in
           bnd (zeroPage k) (\<lambda>(ctba, k).
             rebaseLoop cl (i + 1) (k\<lparr>mem := setCtbAddr (vmmVirtToPhys k ctba) h (mem k)\<rparr>))
      else Inr k)"
  by pat_completeness auto
termination
  by (relation "measure (\<lambda>(cl, i, k). 32 - i)") auto

definition ahciRebase ::
    "'s machine \<Rightarrow> u64 \<Rightarrow> ('s, 'a) dev_state_scheme \<Rightarrow> ('s, 'a) dev_state_scheme ores" where
  "ahciRebase M port k =
     bndO (ahciCmdStop M port k) (\<lambda>k.
     bndO (Some (zeroPage k)) (\<lambda>(cl, k).
     let clPhys = vmmVirtToPhys k cl;
         k = writeReg M (portClb port) (U64_LOW clPhys) k;
         k = writeReg M (portClbUp port) (U64_HIGH clPhys) k
     in bndO (Some (zeroPage k)) (\<lambda>(fis, k).
        let fisPhys = vmmVirtToPhys k fis;
            k = writeReg M (portFb port) (U64_LOW fisPhys) k;
            k = writeReg M (portFbUp port) (U64_HIGH fisPhys) k
        in bndO (Some (rebaseLoop cl 0 k)) (ahciCmdStart M port))))"

function findFreeLoop :: "nat \<Rightarrow> nat \<Rightarrow> u32 \<Rightarrow> int" where
  "findFreeLoop i cmdSlots slots =
     (if i < cmdSlots then if slots AND 1 = 0 then int i else findFreeLoop (i + 1) cmdSlots (drop_bit 1 slots)
      else - 1)"
  by pat_completeness auto
termination
  by (relation "measure (\<lambda>(i, n, s). n - i)") auto

definition ahciCmdFindFree ::
    "'s machine \<Rightarrow> u64 \<Rightarrow> ('s, 'a) ahci_state_scheme \<Rightarrow> int \<times> ('s, 'a) ahci_state_scheme" where
  "ahciCmdFindFree M port k =
     (case readReg M (portSAct port) k of (sact, k) \<Rightarrow>
      case readReg M (portCi port) k of (ci, k) \<Rightarrow>
      case readReg M (hbaCap (ahciBase k)) k of (cap, k) \<Rightarrow>
        (findFreeLoop 0 (unat (drop_bit 8 (cap AND 0x0f00))) (sact OR ci), k))"

definition ahciCheckType ::
    "'s machine \<Rightarrow> u64 \<Rightarrow> ('s, 'a) dev_state_scheme \<Rightarrow> u32 \<times> ('s, 'a) dev_state_scheme" where
  "ahciCheckType M port k =
     (case readReg M (portSsts port) k of (s1, k) \<Rightarrow>
      case readReg M (portSsts port) k of (s2, k) \<Rightarrow>
      let ipm = ucast (drop_bit 8 s1 AND 0x0F) :: u8;
          det = ucast (s2 AND 0x0F) :: u8
      in if det \<noteq> HBA_PORT_DET_PRESENT then (0, k)
         else if ipm \<noteq> HBA_PORT_IPM_ACTIVE then (0, k)
         else case readReg M (portSign port) k of (sig, k) \<Rightarrow>
              (if sig = SATA_SIG_ATAPI then AHCI_DEV_SATAPI
               else if sig = SATA_SIG_SEMB then AHCI_DEV_SEMB
               else if sig = SATA_SIG_PM then AHCI_DEV_PM
               else AHCI_DEV_SATA, k))"

function waitReady ::
    "'s machine \<Rightarrow> u64 \<Rightarrow> nat \<Rightarrow> nat \<Rightarrow> ('s, 'a) dev_state_scheme \<Rightarrow> nat \<times> ('s, 'a) dev_state_scheme" where
  "waitReady M port wait spin k =
     (case readReg M (portTfd port) k of (v, k) \<Rightarrow>
        if v AND (ATA_SR_BSY OR ATA_SR_DRQ) \<noteq> 0 \<and> spin < wait
        then waitReady M port wait (spin + 1) k else (spin, k))"
  by pat_completeness auto
termination
  by (relation "measure (\<lambda>(M, port, wait, spin, k). wait - spin)") auto

partial_function (option) waitDone ::
    "'s machine \<Rightarrow> u64 \<Rightarrow> ('s, 'a) dev_state_scheme \<Rightarrow> ('s, 'a) dev_state_scheme option" where
  "waitDone M port k =
     (case readReg M (portCi port) k of (ci, k) \<Rightarrow>
        if ci = 1
        then case readReg M (portIs port) k of (st, k) \<Rightarrow>
               if st AND HBA_PxIS_TFES = 0 then waitDone M port k else Some k
        else Some k)"

definition ahciSendCommand ::
    "'s machine \<Rightarrow> u64 \<Rightarrow> ('s, 'a) dev_state_scheme \<Rightarrow> (bool \<times> ('s, 'a) dev_state_scheme) ores" where
  "ahciSendCommand M port k =
     (case waitReady M port 1000000000 0 k of (spin, k) \<Rightarrow>
        if spin = 1000000000 then Some (Inr (False, k))
        else case waitDone M port (writeReg M (portCi port) 1 k) of
               None \<Rightarrow> None
             | Some k \<Rightarrow> (case readReg M (portIs port) k of (st, k) \<Rightarrow>
                            Some (Inr (st AND HBA_PxIS_TFES = 0, k))))"

definition ahciReadOrWrite ::
    "'s machine \<Rightarrow> u32 \<Rightarrow> u64 \<Rightarrow> u32 \<Rightarrow> u64 \<Rightarrow> bool \<Rightarrow> ('s, 'a) ahci_state_scheme \<Rightarrow>
      (bool \<times> ('s, 'a) ahci_state_scheme) ores" where
  "ahciReadOrWrite M p lba sectAmount buf write k =
     (if ahciBase k = 0 then Some (Inl NullDeref)
      else
        let port = hbaPort (ahciBase k) p;
            k = writeReg M (portIs port) 0xFFFFFFFF k
        in case ahciCmdFindFree M port k of (cslot, k) \<Rightarrow>
           if cslot = - 1 then Some (Inr (False, k))
           else case readReg M (portClbUp port) k of (up, k) \<Rightarrow>
                case readReg M (portClb port) k of (low, k) \<Rightarrow>
                let cmd = vmmPhysToVirt k (U64 low up) in
                if cmd = 0 then Some (Inr (False, k))
                else
                  let h = cmdHeader cmd cslot;
                      k = k\<lparr>mem := setCmdFisLen (20 div 4) h (mem k)\<rparr>;
                      k = k\<lparr>mem := setWrite write h (mem k)\<rparr>;
                      table = vmmPhysToVirt k (ctb (mem k) h)
                  in if table = 0 then Some (Inr (False, k))
                     else
                       let bufPhys = vmmVirtToPhys k buf;
                           k = k\<lparr>mem := setDbAddr bufPhys (tblEnt0 table) (mem k)\<rparr>;
                           k = k\<lparr>mem := setDbc (512 * sectAmount - 1) (tblEnt0 table) (mem k)\<rparr>;
                           k = k\<lparr>mem := setI (tblEnt0 table) (mem k)\<rparr>;
                           k = k\<lparr>mem := fillFis write lba sectAmount table (mem k)\<rparr>
                       in ahciSendCommand M port k)"

definition ahciRead ::
    "'s machine \<Rightarrow> u32 \<Rightarrow> u64 \<Rightarrow> u32 \<Rightarrow> u64 \<Rightarrow> ('s, 'a) ahci_state_scheme \<Rightarrow>
      (bool \<times> ('s, 'a) ahci_state_scheme) ores" where
  "ahciRead M p lba sectAmount buf = ahciReadOrWrite M p lba sectAmount buf False"

definition ahciWrite ::
    "'s machine \<Rightarrow> u32 \<Rightarrow> u64 \<Rightarrow> u32 \<Rightarrow> u64 \<Rightarrow> ('s, 'a) ahci_state_scheme \<Rightarrow>
      (bool \<times> ('s, 'a) ahci_state_scheme) ores" where
  "ahciWrite M p lba sectAmount buf = ahciReadOrWrite M p lba sectAmount buf True"

function ahciEnumLoop ::
    "'s machine \<Rightarrow> nat \<Rightarrow> u32 \<Rightarrow> ('s, 'a) ahci_state_scheme \<Rightarrow> ('s, 'a) ahci_state_scheme ores" where
  "ahciEnumLoop M i pi k =
     (if i < 32
      then bndO (if pi AND 1 \<noteq> 0
                 then let port = hbaPort (ahciBase k) (of_nat i) in
                      case ahciCheckType M port k of (type, k) \<Rightarrow>
                        if type = AHCI_DEV_SATA then ahciRebase M port k else Some (Inr k)
                 else Some (Inr k))
             (\<lambda>k. ahciEnumLoop M (i + 1) (drop_bit 1 pi) k)
      else Some (Inr k))"
  by pat_completeness auto
termination
  by (relation "measure (\<lambda>(M, i, pi, k). 32 - i)") auto

definition ahciEnum :: "'s machine \<Rightarrow> ('s, 'a) ahci_state_scheme \<Rightarrow> ('s, 'a) ahci_state_scheme ores" where
  "ahciEnum M k = (case readReg M (hbaPi (ahciBase k)) k of (pi, k) \<Rightarrow> ahciEnumLoop M 0 pi k)"

definition ahciInit :: "'s machine \<Rightarrow> u64 \<Rightarrow> ('s, 'a) ahci_state_scheme \<Rightarrow> ('s, 'a) ahci_state_scheme ores" where
  "ahciInit M bar5 k =
     (if ahciBase k \<noteq> 0 then Some (Inr k)
      else bndO (Some (vmmMapMMIO bar5 1 k)) (\<lambda>k. ahciEnum M (k\<lparr>ahciBase := vmmPhysToVirt k bar5\<rparr>)))"

declare rebaseLoop.simps [simp del] findFreeLoop.simps [simp del] waitReady.simps [simp del] ahciEnumLoop.simps [simp del]

subsection \<open>Free slots\<close>

lemma findFreeLoop_spec:
  "i \<le> n \<Longrightarrow>
   (\<exists>j. i \<le> j \<and> j < n \<and> \<not> bit s (j - i) \<and> (\<forall>l. i \<le> l \<and> l < j \<longrightarrow> bit s (l - i)) \<and> findFreeLoop i n s = int j)
   \<or> ((\<forall>l. i \<le> l \<and> l < n \<longrightarrow> bit s (l - i)) \<and> findFreeLoop i n s = - 1)"
proof (induction i n s rule: findFreeLoop.induct)
  case (1 i n s)
  have b0: "s AND 1 = 0 \<longleftrightarrow> \<not> bit s 0" by (simp add: and_one_eq even_iff_mod_2_eq_zero bit_0)
  show ?case
  proof (cases "i < n \<and> bit s 0")
    case False
    then show ?thesis using \<open>i \<le> n\<close> b0 by (subst (1 2) findFreeLoop.simps) (auto intro: exI [of _ i])
  next
    case True
    have sh: "bit (drop_bit 1 s) (l - (i + 1)) = bit s (l - i)" if "i + 1 \<le> l" for l
      using that by (simp add: bit_drop_bit_eq Suc_diff_Suc)
    have e: "findFreeLoop i n s = findFreeLoop (i + 1) n (drop_bit 1 s)"
      using True b0 by (subst findFreeLoop.simps) simp
    have low: "bit s (l - i)" if "i \<le> l" "\<forall>l. i + 1 \<le> l \<and> l < j \<longrightarrow> bit (drop_bit 1 s) (l - (i + 1))" "l < j" for l j
      using that True sh [of l] by (cases "l = i") auto
    from 1 True b0 have "(\<exists>j. i + 1 \<le> j \<and> j < n \<and> \<not> bit (drop_bit 1 s) (j - (i + 1))
           \<and> (\<forall>l. i + 1 \<le> l \<and> l < j \<longrightarrow> bit (drop_bit 1 s) (l - (i + 1))) \<and> findFreeLoop (i + 1) n (drop_bit 1 s) = int j)
        \<or> ((\<forall>l. i + 1 \<le> l \<and> l < n \<longrightarrow> bit (drop_bit 1 s) (l - (i + 1))) \<and> findFreeLoop (i + 1) n (drop_bit 1 s) = - 1)"
      by simp
    then show ?thesis
    proof (elim disjE exE conjE)
      fix j assume j: "i + 1 \<le> j" "j < n" "\<not> bit (drop_bit 1 s) (j - (i + 1))"
        "\<forall>l. i + 1 \<le> l \<and> l < j \<longrightarrow> bit (drop_bit 1 s) (l - (i + 1))" "findFreeLoop (i + 1) n (drop_bit 1 s) = int j"
      have "i \<le> j \<and> j < n \<and> \<not> bit s (j - i) \<and> (\<forall>l. i \<le> l \<and> l < j \<longrightarrow> bit s (l - i)) \<and> findFreeLoop i n s = int j"
        using j sh [of j] low [OF _ j(4)] unfolding e by simp
      then show ?thesis by (intro disjI1 exI [of _ j])
    next
      assume a: "\<forall>l. i + 1 \<le> l \<and> l < n \<longrightarrow> bit (drop_bit 1 s) (l - (i + 1))" "findFreeLoop (i + 1) n (drop_bit 1 s) = - 1"
      show ?thesis using low [OF _ a(1)] a(2) unfolding e by simp
    qed
  qed
qed

subsection \<open>What the drive sees of a command\<close>

definition fisLba :: "mem \<Rightarrow> u64 \<Rightarrow> u64" where
  "fisLba m f = ucast (m (f + 4)) OR push_bit 8 (ucast (m (f + 5))) OR push_bit 16 (ucast (m (f + 6)))
     OR push_bit 24 (ucast (m (f + 8))) OR push_bit 32 (ucast (m (f + 9))) OR push_bit 40 (ucast (m (f + 10)))"

definition fisCount :: "mem \<Rightarrow> u64 \<Rightarrow> u32" where
  "fisCount m f = ucast (m (f + 12)) OR push_bit 8 (ucast (m (f + 13)))"

definition fis_posted :: "bool \<Rightarrow> u64 \<Rightarrow> u32 \<Rightarrow> u64 \<Rightarrow> mem \<Rightarrow> bool" where
  "fis_posted write lba sectAmount f m \<longleftrightarrow>
     m f = 0x27 \<and> bit (m (f + 1)) 7 \<and> m (f + 2) = (if write then 0x35 else 0x25)
     \<and> fisLba m f = take_bit 48 lba \<and> m (f + 7) = 64 \<and> fisCount m f = take_bit 16 sectAmount"

definition prd_posted :: "u64 \<Rightarrow> u32 \<Rightarrow> u64 \<Rightarrow> mem \<Rightarrow> bool" where
  "prd_posted phys sectAmount e m \<longleftrightarrow>
     U64 (load32 m e) (load32 m (e + 4)) = phys
     \<and> take_bit 22 (load32 m (e + 12)) = take_bit 22 (512 * sectAmount - 1) \<and> bit (load32 m (e + 12)) 31"

lemma lba_bytes:
  "ucast (ucast (lba AND 0xFF) :: u8) OR push_bit 8 (ucast (ucast (drop_bit 8 lba AND 0xFF) :: u8))
     OR push_bit 16 (ucast (ucast (drop_bit 16 lba AND 0xFF) :: u8)) OR push_bit 24 (ucast (ucast (drop_bit 24 lba AND 0xFF) :: u8))
     OR push_bit 32 (ucast (ucast (drop_bit 32 lba AND 0xFF) :: u8)) OR push_bit 40 (ucast (ucast (drop_bit 40 lba AND 0xFF) :: u8))
   = take_bit 48 (lba :: u64)"
  (is "?l = _")
proof (rule bit_word_eqI)
  fix i assume "i < LENGTH(64)"
  then consider "i < 8" | "8 \<le> i" "i < 16" | "16 \<le> i" "i < 24" | "24 \<le> i" "i < 32" | "32 \<le> i" "i < 40"
    | "40 \<le> i" "i < 48" | "48 \<le> i" "i < 64" by force
  then show "bit ?l i = bit (take_bit 48 lba) i"
    by cases (simp_all add: bit_simps mask_bits less_diff_conv2)
qed

lemma count_bytes:
  "ucast (ucast (s AND 0xFF) :: u8) OR push_bit 8 (ucast (ucast (drop_bit 8 s AND 0xFF) :: u8)) = take_bit 16 (s :: u32)"
  (is "?l = _")
proof (rule bit_word_eqI)
  fix i assume "i < LENGTH(32)"
  then consider "i < 8" | "8 \<le> i" "i < 16" | "16 \<le> i" "i < 32" by force
  then show "bit ?l i = bit (take_bit 16 s) i"
    by cases (simp_all add: bit_simps mask_bits less_diff_conv2)
qed

lemma fillFis_posted: "fis_posted write lba sectAmount f (fillFis write lba sectAmount f m)"
  by (cases "write")
     (simp_all add: fis_posted_def fisLba_def fisCount_def fillFis_def Let_def lba_bytes count_bytes
        FIS_TYPE_REG_H2D_def ATA_CMD_READ_DMA_EXT_def ATA_CMD_WRITE_DMA_EXT_def bit_simps)

lemma fillFis_outside: "same_outside (rng f 14) m (fillFis write lba sectAmount f m)"
  by (auto simp: same_outside_def fillFis_def Let_def in_rng)

lemma U64_halves: "U64 (U64_LOW v) (U64_HIGH v) = v"
proof -
  have "push_bit 32 (ucast (U64_HIGH v)) + ucast (U64_LOW v)
      = (push_bit 32 (ucast (U64_HIGH v)) OR ucast (U64_LOW v) :: u64)"
    by (rule disjunctive_add) (simp add: bit_simps U64_LOW_def)
  also have "\<dots> = v"
  proof (rule bit_word_eqI)
    fix i assume "i < LENGTH(64)"
    then consider "i < 32" | "32 \<le> i" "i < 64" by force
    then show "bit (push_bit 32 (ucast (U64_HIGH v)) OR ucast (U64_LOW v) :: u64) i = bit v i"
      by cases (simp_all add: bit_simps mask_bits less_diff_conv2 U64_LOW_def U64_HIGH_def)
  qed
  finally show ?thesis by (simp add: U64_def)
qed

lemma load32_store32_apart:
  "4 \<le> unat (b - a) \<Longrightarrow> 4 \<le> unat (a - b) \<Longrightarrow> load32 (store32 m a v) b = load32 m b"
  unfolding load32_def store32_def using load_store_apart [of a 4 b 4] by (simp add: apart_def)

definition prdFill :: "u64 \<Rightarrow> u32 \<Rightarrow> u64 \<Rightarrow> mem \<Rightarrow> mem" where
  "prdFill phys sectAmount e m = setI e (setDbc (512 * sectAmount - 1) e (setDbAddr phys e m))"

lemma dbc_masks:
  "bit (0xFFC00000 :: int) i \<longleftrightarrow> 22 \<le> i \<and> i < 32" "bit (0x3FFFFF :: int) i \<longleftrightarrow> i < 22"
  "bit (0x80000000 :: int) i \<longleftrightarrow> i = 31"
proof -
  have e: "(0xFFC00000 :: int) = push_bit 22 (mask 10)" "(0x3FFFFF :: int) = mask 22" "(0x80000000 :: int) = push_bit 31 1"
    by (simp_all add: push_bit_eq_mult mask_eq_exp_minus_1)
  show "bit (0xFFC00000 :: int) i \<longleftrightarrow> 22 \<le> i \<and> i < 32" "bit (0x3FFFFF :: int) i \<longleftrightarrow> i < 22"
    "bit (0x80000000 :: int) i \<longleftrightarrow> i = 31"
    unfolding e bit_push_bit_iff bit_mask_iff bit_1_iff by auto
qed

lemma dbc_fields:
  "take_bit 22 ((w AND 0xFFC00000 OR v AND 0x3FFFFF) OR 0x80000000) = take_bit 22 (v :: u32)"
  "bit ((w AND 0xFFC00000 OR v AND 0x3FFFFF) OR 0x80000000 :: u32) 31"
  by (rule bit_word_eqI) (auto simp: bit_simps dbc_masks)

lemma prdFill_posted: "prd_posted phys sectAmount e (prdFill phys sectAmount e m)"
proof -
  have "load32 (prdFill phys sectAmount e m) (e + 12)
      = (load32 m (e + 12) AND 0xFFC00000 OR (512 * sectAmount - 1) AND 0x3FFFFF) OR 0x80000000"
    and "U64 (load32 (prdFill phys sectAmount e m) e) (load32 (prdFill phys sectAmount e m) (e + 4)) = phys"
    by (simp_all add: prdFill_def setI_def setDbc_def setDbAddr_def load32_store32_apart U64_halves)
  then show ?thesis by (simp only: prd_posted_def dbc_fields simp_thms)
qed

lemma store32_outside: "same_outside (rng a 4) m (store32 m a v)"
  by (simp add: store32_def store_same_outside)

lemma store32_within:
  "same_outside (rng e n) m m' \<Longrightarrow> unat (a - e) + 4 \<le> n \<Longrightarrow> same_outside (rng e n) m (store32 m' a v)"
  using rng_sub [of "a - e" 4 n e] by (auto intro!: same_outside_trans [OF _ same_outside_mono [OF store32_outside]])

lemma prdFill_outside: "same_outside (rng e 16) m (prdFill phys sectAmount e m)"
  unfolding prdFill_def setI_def setDbc_def setDbAddr_def
  by (intro store32_within same_outside_refl) simp_all

lemma prd_posted_outside:
  assumes "same_outside A m m'" and "rng e 16 \<inter> A = {}"
  shows "prd_posted phys s e m' = prd_posted phys s e m"
proof -
  have "load32 m' a = load32 m a" if a: "unat (a - e) + 4 \<le> 16" for a
  proof -
    have "rng a 4 \<subseteq> rng e 16" using rng_sub [OF a, of e] by simp
    then have "rng a 4 \<inter> A = {}" using assms(2) by blast
    then show ?thesis using load_same_outside [OF assms(1)] unfolding load32_def by metis
  qed
  then show ?thesis by (simp add: prd_posted_def)
qed

subsection \<open>A port of the controller\<close>

text \<open>
  What the driver relies on (AHCI specification, 3.3 and 6.2): the registers of port \<open>p\<close> can be read
  back; writing ones to \<open>PxIS\<close> clears bits, writing ones to \<open>PxCI\<close> sets them; and while \<open>PxCI\<close> is
  read again and again (\<open>pend\<close> bounds how often) the controller only clears bits of it, and in the end it
  has either finished its commands and cleared the register, or it has stopped at a command that failed and
  set the bit for a task file error in \<open>PxIS\<close>, in which case the bit in \<open>PxCI\<close> may stay set for ever.
  \<open>issued\<close> is the list of the values written to \<open>PxCI\<close>.
\<close>

definition hba_port ::
    "'s machine \<Rightarrow> u64 \<Rightarrow> ('s \<Rightarrow> u64 \<Rightarrow> u32) \<Rightarrow> ('s \<Rightarrow> nat) \<Rightarrow> ('s \<Rightarrow> u32 list) \<Rightarrow> bool" where
  "hba_port M p reg pend issued \<longleftrightarrow>
     (\<forall>a s. fst (mread M a s) = reg s a \<and> issued (snd (mread M a s)) = issued s)
     \<and> (\<forall>a s. a \<noteq> portCi p \<or> reg s (portCi p) = 0 \<longrightarrow>
          reg (snd (mread M a s)) = reg s \<and> pend (snd (mread M a s)) = pend s)
     \<and> (\<forall>s. reg s (portCi p) \<noteq> 0 \<longrightarrow>
          reg (snd (mread M (portCi p) s)) (portCi p) AND reg s (portCi p) = reg (snd (mread M (portCi p) s)) (portCi p)
          \<and> (reg (snd (mread M (portCi p) s)) (portCi p) = 0
             \<or> reg (snd (mread M (portCi p) s)) (portIs p) AND HBA_PxIS_TFES \<noteq> 0
             \<or> pend (snd (mread M (portCi p) s)) < pend s))
     \<and> (\<forall>a v s. reg (mwrite M a v s) =
          (reg s)(a := if a = portIs p then reg s a AND NOT v else if a = portCi p then reg s a OR v else v)
          \<and> issued (mwrite M a v s) = (if a = portCi p then issued s @ [v] else issued s))"

lemma hba_read:
  assumes "hba_port M p reg pend issued" and "a \<noteq> portCi p \<or> reg (mach k) (portCi p) = 0"
  obtains s where "readReg M a k = (reg (mach k) a, k\<lparr>mach := s\<rparr>)" and "reg s = reg (mach k)" and "pend s = pend (mach k)"
    and "issued s = issued (mach k)"
proof -
  obtain v s where s: "mread M a (mach k) = (v, s)" by fastforce
  from assms have "fst (mread M a (mach k)) = reg (mach k) a" and "reg (snd (mread M a (mach k))) = reg (mach k)"
    and "issued (snd (mread M a (mach k))) = issued (mach k)" and "pend (snd (mread M a (mach k))) = pend (mach k)"
    unfolding hba_port_def by simp_all
  then show thesis using s that [of s] by (simp add: readReg_def fromMach_def)
qed

lemma hba_poll:
  assumes "hba_port M p reg pend issued" and "reg (mach k) (portCi p) = 1"
  obtains s where "readReg M (portCi p) k = (1, k\<lparr>mach := s\<rparr>)" and "reg s (portCi p) \<in> {0, 1}"
    and "reg s (portCi p) = 0 \<or> reg s (portIs p) AND HBA_PxIS_TFES \<noteq> 0 \<or> pend s < pend (mach k)" and "issued s = issued (mach k)"
proof -
  obtain v s where s: "mread M (portCi p) (mach k) = (v, s)" by fastforce
  from assms(1) have f: "fst (mread M (portCi p) (mach k)) = reg (mach k) (portCi p)"
    and i: "issued (snd (mread M (portCi p) (mach k))) = issued (mach k)"
    and c: "\<forall>s. reg s (portCi p) \<noteq> 0 \<longrightarrow>
          reg (snd (mread M (portCi p) s)) (portCi p) AND reg s (portCi p) = reg (snd (mread M (portCi p) s)) (portCi p)
          \<and> (reg (snd (mread M (portCi p) s)) (portCi p) = 0
             \<or> reg (snd (mread M (portCi p) s)) (portIs p) AND HBA_PxIS_TFES \<noteq> 0
             \<or> pend (snd (mread M (portCi p) s)) < pend s)"
    unfolding hba_port_def by simp_all
  have c: "reg s (portCi p) AND 1 = reg s (portCi p)"
    "reg s (portCi p) = 0 \<or> reg s (portIs p) AND HBA_PxIS_TFES \<noteq> 0 \<or> pend s < pend (mach k)"
    using c [rule_format, of "mach k"] assms(2) s by simp_all
  have "reg s (portCi p) AND 1 \<in> {0, 1}" by (simp add: and_one_eq mod_2_eq_odd)
  then have "reg s (portCi p) \<in> {0, 1}" unfolding c(1) .
  then show thesis
    using f i c(2) assms(2) s that [of s] by (simp add: readReg_def fromMach_def)
qed

lemma hba_write:
  assumes "hba_port M p reg pend issued"
  obtains s where "writeReg M a v k = k\<lparr>mach := s\<rparr>"
    and "reg s = (reg (mach k))(a := if a = portIs p then reg (mach k) a AND NOT v
                                 else if a = portCi p then reg (mach k) a OR v else v)"
    and "issued s = (if a = portCi p then issued (mach k) @ [v] else issued (mach k))"
proof (rule that [of "mwrite M a v (mach k)"])
  show "writeReg M a v k = k\<lparr>mach := mwrite M a v (mach k)\<rparr>" by (simp add: writeReg_def onMach_def)
qed (use assms in \<open>simp_all add: hba_port_def\<close>)

text \<open>The wait ends with the command done or with an error, whichever of the two the controller reports.\<close>

lemma waitDone_returns:
  fixes k :: "('s, 'a) dev_state_scheme"
  assumes h: "hba_port M p reg pend issued" and ci: "reg (mach k) (portCi p) \<in> {0, 1}"
  shows "\<exists>s. waitDone M p k = Some (k\<lparr>mach := s\<rparr>) \<and> issued s = issued (mach k)
    \<and> (reg s (portIs p) AND HBA_PxIS_TFES \<noteq> 0 \<or> reg s (portCi p) = 0)"
  using ci
proof (induction "pend (mach k)" arbitrary: k rule: less_induct)
  case (less k)
  have ne: "portIs p \<noteq> portCi p" by (simp add: port_regs)
  have stop: "\<exists>s. waitDone M p k = Some (k\<lparr>mach := s\<rparr>) \<and> issued s = issued (mach k)
      \<and> (reg s (portIs p) AND HBA_PxIS_TFES \<noteq> 0 \<or> reg s (portCi p) = 0)"
    if z: "reg (mach k) (portCi p) = 0" for k :: "('s, 'a) dev_state_scheme"
  proof -
    obtain s where s: "readReg M (portCi p) k = (0, k\<lparr>mach := s\<rparr>)" "reg s = reg (mach k)" "issued s = issued (mach k)"
      using hba_read [OF h, of "portCi p" k] z by auto
    have "waitDone M p k = Some (k\<lparr>mach := s\<rparr>)" using s(1) by (subst waitDone.simps) simp
    moreover have "reg s (portCi p) = 0" using s(2) z by simp
    ultimately show ?thesis using s(3) by blast
  qed
  show ?case
  proof (cases "reg (mach k) (portCi p) = 0")
    case True
    then show ?thesis by (rule stop)
  next
    case False
    then have "reg (mach k) (portCi p) = 1" using less.prems by simp
    from hba_poll [OF h this] obtain s where s: "readReg M (portCi p) k = (1, k\<lparr>mach := s\<rparr>)" "reg s (portCi p) \<in> {0, 1}"
        "reg s (portCi p) = 0 \<or> reg s (portIs p) AND HBA_PxIS_TFES \<noteq> 0 \<or> pend s < pend (mach k)" "issued s = issued (mach k)" .
    obtain t where t: "readReg M (portIs p) (k\<lparr>mach := s\<rparr>) = (reg s (portIs p), k\<lparr>mach := t\<rparr>)"
        "reg t = reg s" "pend t = pend s" "issued t = issued s"
      using hba_read [OF h, of "portIs p" "k\<lparr>mach := s\<rparr>"] ne by auto
    show ?thesis
    proof (cases "reg s (portIs p) AND HBA_PxIS_TFES = 0")
      case False
      then have "waitDone M p k = Some (k\<lparr>mach := t\<rparr>)" using s(1) t(1) by (subst waitDone.simps) simp
      then show ?thesis using False s(4) t(2,4) by (intro exI [of _ t]) simp
    next
      case True
      then have "waitDone M p k = waitDone M p (k\<lparr>mach := t\<rparr>)" using s(1) t(1) by (subst waitDone.simps) simp
      moreover have "\<exists>u. waitDone M p (k\<lparr>mach := t\<rparr>) = Some (k\<lparr>mach := u\<rparr>) \<and> issued u = issued t
          \<and> (reg u (portIs p) AND HBA_PxIS_TFES \<noteq> 0 \<or> reg u (portCi p) = 0)"
        using s(2,3) t(2,3) True less.hyps [of "k\<lparr>mach := t\<rparr>"] stop [of "k\<lparr>mach := t\<rparr>"] by auto
      ultimately show ?thesis using s(4) t(4) by metis
    qed
  qed
qed

lemma ahciSendCommand_done:
  assumes h: "hba_port M p reg pend issued" and idle: "reg (mach k) (portTfd p) AND (ATA_SR_BSY OR ATA_SR_DRQ) = 0"
    and ci: "reg (mach k) (portCi p) = 0"
  shows "\<exists>s. ahciSendCommand M p k = Some (Inr (reg s (portIs p) AND HBA_PxIS_TFES = 0, k\<lparr>mach := s\<rparr>))
    \<and> issued s = issued (mach k) @ [1] \<and> (reg s (portIs p) AND HBA_PxIS_TFES \<noteq> 0 \<or> reg s (portCi p) = 0)"
proof -
  have ne: "portTfd p \<noteq> portCi p" "portIs p \<noteq> portCi p" by (simp_all add: port_regs)
  obtain s where s: "readReg M (portTfd p) k = (reg (mach k) (portTfd p), k\<lparr>mach := s\<rparr>)" "issued s = issued (mach k)"
      "reg s = reg (mach k)"
    using hba_read [OF h, of "portTfd p" k] ne by auto
  then have r: "waitReady M p 1000000000 0 k = (0, k\<lparr>mach := s\<rparr>)"
    using idle by (subst waitReady.simps) simp
  obtain w where w: "writeReg M (portCi p) 1 (k\<lparr>mach := s\<rparr>) = k\<lparr>mach := w\<rparr>" "issued w = issued s @ [1]"
      "reg w (portCi p) = 1"
  proof (rule hba_write [OF h, of "portCi p" 1 "k\<lparr>mach := s\<rparr>"])
    fix w assume "writeReg M (portCi p) 1 (k\<lparr>mach := s\<rparr>) = k\<lparr>mach := s, mach := w\<rparr>"
      and "reg w = (reg (mach (k\<lparr>mach := s\<rparr>)))(portCi p := if portCi p = portIs p then reg (mach (k\<lparr>mach := s\<rparr>)) (portCi p) AND NOT 1
                                 else if portCi p = portCi p then reg (mach (k\<lparr>mach := s\<rparr>)) (portCi p) OR 1 else 1)"
      and "issued w = (if portCi p = portCi p then issued (mach (k\<lparr>mach := s\<rparr>)) @ [1] else issued (mach (k\<lparr>mach := s\<rparr>)))"
    then show thesis using that [of w] ne s(3) ci by simp
  qed
  obtain t where t: "waitDone M p (k\<lparr>mach := w\<rparr>) = Some (k\<lparr>mach := t\<rparr>)" "issued t = issued w"
      "reg t (portIs p) AND HBA_PxIS_TFES \<noteq> 0 \<or> reg t (portCi p) = 0"
    using waitDone_returns [OF h, of "k\<lparr>mach := w\<rparr>"] w(3) by auto
  obtain u where u: "readReg M (portIs p) (k\<lparr>mach := t\<rparr>) = (reg t (portIs p), k\<lparr>mach := u\<rparr>)" "reg u = reg t" "issued u = issued t"
    using hba_read [OF h, of "portIs p" "k\<lparr>mach := t\<rparr>"] ne by auto
  then have "ahciSendCommand M p k = Some (Inr (reg u (portIs p) AND HBA_PxIS_TFES = 0, k\<lparr>mach := u\<rparr>))
      \<and> issued u = issued (mach k) @ [1] \<and> (reg u (portIs p) AND HBA_PxIS_TFES \<noteq> 0 \<or> reg u (portCi p) = 0)"
    using r t s(2) w by (simp add: ahciSendCommand_def)
  then show ?thesis by blast
qed

lemma low7: "128 * (x :: u64) = c \<Longrightarrow> take_bit 7 c = 0"
proof -
  assume "128 * x = c"
  moreover have "128 * x = push_bit 7 x" by (simp add: push_bit_eq_mult)
  ultimately have "take_bit 7 c = take_bit 7 (push_bit 7 x)" by simp
  then show ?thesis by (simp only: take_bit_push_bit) simp
qed

lemma hbaCap_apart: "hbaCap base \<noteq> hbaPort base p + 56" "hbaCap base \<noteq> hbaPort base p + 16"
proof -
  have "c + 128 * x \<noteq> 0" if "take_bit 7 (- c) \<noteq> 0" for c x :: u64
  proof
    assume "c + 128 * x = 0"
    then have "128 * x = - c" by (simp add: eq_neg_iff_add_eq_0 add.commute)
    from low7 [OF this] that show False by simp
  qed
  from this [of 312] this [of 272] show "hbaCap base \<noteq> hbaPort base p + 56" "hbaCap base \<noteq> hbaPort base p + 16"
    by (simp_all add: hbaCap_def hbaPort_def add.assoc)
qed

lemma findFreeLoop_first: "0 < n \<Longrightarrow> \<not> bit s 0 \<Longrightarrow> findFreeLoop 0 n s = 0"
  by (subst findFreeLoop.simps) (simp add: and_one_eq even_iff_mod_2_eq_zero bit_0)

lemma ahciCmdFindFree_first:
  assumes h: "hba_port M p reg pend issued" and ci: "reg (mach k) (portCi p) = 0" and free: "\<not> bit (reg (mach k) (portSAct p)) 0"
    and cap: "reg (mach k) (hbaCap (ahciBase k)) AND 0x0f00 \<noteq> 0"
  shows "\<exists>s. ahciCmdFindFree M p k = (0, k\<lparr>mach := s\<rparr>) \<and> reg s = reg (mach k) \<and> issued s = issued (mach k)"
proof -
  obtain s where s: "readReg M (portSAct p) k = (reg (mach k) (portSAct p), k\<lparr>mach := s\<rparr>)" "reg s = reg (mach k)"
      "issued s = issued (mach k)"
    using hba_read [OF h, where a = "portSAct p" and k = k] ci by blast
  obtain t where t: "readReg M (portCi p) (k\<lparr>mach := s\<rparr>) = (0, k\<lparr>mach := t\<rparr>)" "reg t = reg (mach k)"
      "issued t = issued (mach k)"
    using hba_read [OF h, where a = "portCi p" and k = "k\<lparr>mach := s\<rparr>"] ci s by auto
  obtain u where u: "readReg M (hbaCap (ahciBase k)) (k\<lparr>mach := t\<rparr>) = (reg (mach k) (hbaCap (ahciBase k)), k\<lparr>mach := u\<rparr>)"
      "reg u = reg (mach k)" "issued u = issued (mach k)"
    using hba_read [OF h, where a = "hbaCap (ahciBase k)" and k = "k\<lparr>mach := t\<rparr>"] ci t by auto
  have "drop_bit 8 (reg (mach k) (hbaCap (ahciBase k)) AND 0x0f00) \<noteq> 0"
  proof
    assume z: "drop_bit 8 (reg (mach k) (hbaCap (ahciBase k)) AND 0x0f00) = 0"
    have m: "(0x0f00 :: int) = push_bit 8 (mask 4)" by (simp add: push_bit_eq_mult mask_eq_exp_minus_1)
    have f: "bit (0x0f00 :: int) i \<longleftrightarrow> 8 \<le> i \<and> i < 12" for i
      unfolding m bit_push_bit_iff bit_mask_iff by auto
    have "reg (mach k) (hbaCap (ahciBase k)) AND 0x0f00 = 0"
    proof (rule bit_word_eqI)
      fix i assume "i < LENGTH(32)"
      show "bit (reg (mach k) (hbaCap (ahciBase k)) AND 0x0f00) i = bit (0 :: u32) i"
        using arg_cong [OF z, of "\<lambda>w. bit w (i - 8)"] by (auto simp: bit_simps f mask_bits)
    qed
    with cap show False by simp
  qed
  then have "0 < unat (drop_bit 8 (reg (mach k) (hbaCap (ahciBase k)) AND 0x0f00))" by (simp add: unat_gt_0)
  then show ?thesis using s t u free
    by (auto intro!: exI [of _ u] simp: ahciCmdFindFree_def findFreeLoop_first)
qed

text \<open>The command, written and sent.\<close>

lemma mach_mem: "k\<lparr>mach := s, mem := m\<rparr> = (k :: ('s, 'a) dev_state_scheme)\<lparr>mem := m, mach := s\<rparr>"
  by (cases k) simp

lemma ahciReadOrWrite_sends:
  fixes k :: "('s, 'a) ahci_state_scheme" and port :: u32
  defines "p \<equiv> hbaPort (ahciBase k) port"
  assumes h: "hba_port M p reg pend issued" and base: "ahciBase k \<noteq> 0"
    and ci: "reg (mach k) (portCi p) = 0" and free: "\<not> bit (reg (mach k) (portSAct p)) 0"
    and cap: "reg (mach k) (hbaCap (ahciBase k)) AND 0x0f00 \<noteq> 0"
    and idle: "reg (mach k) (portTfd p) AND (ATA_SR_BSY OR ATA_SR_DRQ) = 0"
    and hd: "ch = U64 (reg (mach k) (portClb p)) (reg (mach k) (portClbUp p)) + hhdm k" "ch \<noteq> 0"
    and m1: "m1 = setWrite w ch (setCmdFisLen 5 ch (mem k))"
    and t: "t = ctb m1 ch + hhdm k" "t \<noteq> 0"
  shows "\<exists>s. ahciReadOrWrite M port lba n buf w k =
     Some (Inr (reg s (portIs p) AND HBA_PxIS_TFES = 0,
       k\<lparr>mem := fillFis w lba n t (prdFill (buf - hhdm k) n (t + 128) m1), mach := s\<rparr>))
     \<and> issued s = issued (mach k) @ [1] \<and> (reg s (portIs p) AND HBA_PxIS_TFES \<noteq> 0 \<or> reg s (portCi p) = 0)"
proof -
  have ne: "portIs p \<noteq> portCi p" "portIs p \<noteq> portSAct p" "portIs p \<noteq> portTfd p" "portIs p \<noteq> portClb p" "portIs p \<noteq> portClbUp p"
    "hbaCap (ahciBase k) \<noteq> portIs p"
    using hbaCap_apart(2) by (simp_all add: port_regs p_def)
  obtain s1 where w1: "writeReg M (portIs p) 0xFFFFFFFF k = k\<lparr>mach := s1\<rparr>"
      "reg s1 = (reg (mach k))(portIs p := if portIs p = portIs p then reg (mach k) (portIs p) AND NOT 0xFFFFFFFF
         else if portIs p = portCi p then reg (mach k) (portIs p) OR 0xFFFFFFFF else 0xFFFFFFFF)"
      "issued s1 = (if portIs p = portCi p then issued (mach k) @ [0xFFFFFFFF] else issued (mach k))"
    by (rule hba_write [OF h])
  have s1: "writeReg M (portIs p) 0xFFFFFFFF k = k\<lparr>mach := s1\<rparr>" "issued s1 = issued (mach k)"
    using w1 ne(1) by simp_all
  have r1: "reg s1 a = reg (mach k) a" if "a \<noteq> portIs p" for a
    using that unfolding w1(2) by simp
  obtain s2 where s2: "ahciCmdFindFree M p (k\<lparr>mach := s1\<rparr>) = (0, k\<lparr>mach := s2\<rparr>)" "reg s2 = reg s1" "issued s2 = issued s1"
    using ahciCmdFindFree_first [OF h, of "k\<lparr>mach := s1\<rparr>"] ci free cap ne r1 by (auto simp del: neq0_conv)
  have c2: "reg s2 (portCi p) = 0" using s2(2) r1 ci ne by metis
  obtain s3 where s3: "readReg M (portClbUp p) (k\<lparr>mach := s2\<rparr>) = (reg (mach k) (portClbUp p), k\<lparr>mach := s3\<rparr>)"
      "reg s3 = reg s2" "issued s3 = issued s2"
    using hba_read [OF h, where a = "portClbUp p" and k = "k\<lparr>mach := s2\<rparr>"] c2 s2 r1 ne by auto
  obtain s4 where s4: "readReg M (portClb p) (k\<lparr>mach := s3\<rparr>) = (reg (mach k) (portClb p), k\<lparr>mach := s4\<rparr>)"
      "reg s4 = reg s3" "issued s4 = issued s3"
    using hba_read [OF h, where a = "portClb p" and k = "k\<lparr>mach := s3\<rparr>"] c2 s2 s3 r1 ne by auto
  define k4 where "k4 = k\<lparr>mem := fillFis w lba n t (prdFill (buf - hhdm k) n (t + 128) m1), mach := s4\<rparr>"
  have "reg (mach k4) (portTfd p) AND (ATA_SR_BSY OR ATA_SR_DRQ) = 0"
    using idle s2 s3 s4 r1 ne by (simp add: k4_def)
  moreover have "reg (mach k4) (portCi p) = 0" using c2 s3 s4 by (simp add: k4_def)
  ultimately obtain s
    where s: "ahciSendCommand M p k4 = Some (Inr (reg s (portIs p) AND HBA_PxIS_TFES = 0, k4\<lparr>mach := s\<rparr>))"
      "issued s = issued (mach k4) @ [1]" "reg s (portIs p) AND HBA_PxIS_TFES \<noteq> 0 \<or> reg s (portCi p) = 0"
    using ahciSendCommand_done [OF h] by blast
  have "ahciReadOrWrite M port lba n buf w k = ahciSendCommand M p k4"
    using base s1 s2 s3 s4 hd t
    by (simp add: ahciReadOrWrite_def Let_def p_def [symmetric] vmmPhysToVirt_def vmmVirtToPhys_def cmdHeader_def
        tblEnt0_def prdFill_def k4_def m1 mach_mem)
  then show ?thesis using s s1 s2 s3 s4 by (auto simp: k4_def)
qed

lemma cmdByte:
  assumes "m1 = setWrite w ch (setCmdFisLen 5 ch m)"
  shows "m1 ch AND 0x1F = 5" and "bit (m1 ch) 6 = w" and "same_outside {ch} m m1"
proof -
  have e: "(0xE0 :: int) = push_bit 5 (mask 3)" "(0xBF :: int) = mask 6 OR 2 ^ 7" "(0x1F :: int) = mask 5" "(0x40 :: int) = 2 ^ 6"
    by (simp_all add: push_bit_eq_mult mask_eq_exp_minus_1)
  have "bit (0xE0 :: int) i \<longleftrightarrow> 5 \<le> i \<and> i < 8" "bit (0xBF :: int) i \<longleftrightarrow> i < 6 \<or> i = 7" "bit (0x1F :: int) i \<longleftrightarrow> i < 5"
    "bit (0x40 :: int) i \<longleftrightarrow> i = 6" for i
    unfolding e bit_push_bit_iff bit_mask_iff bit_or_iff bit_exp_iff by auto
  note bits = this
  have b5: "bit (5 :: int) i \<Longrightarrow> i < 5" for i
  proof -
    assume "bit (5 :: int) i"
    moreover have "(5 :: int) = take_bit 3 5" by simp
    ultimately have "bit (take_bit 3 5 :: int) i" by metis
    then show "i < 5" unfolding bit_take_bit_iff by simp
  qed
  show "m1 ch AND 0x1F = 5" unfolding assms
    by (rule bit_word_eqI) (auto simp: setWrite_def setCmdFisLen_def bit_simps bits dest: b5)
  show "bit (m1 ch) 6 = w" unfolding assms
    by (cases w) (auto simp: setWrite_def setCmdFisLen_def bit_simps bits dest: b5)
  show "same_outside {ch} m m1" unfolding assms by (simp add: same_outside_def setWrite_def setCmdFisLen_def)
qed

lemma dbc_bytes:
  assumes "0 < unat (n :: u32)" and "unat n \<le> 8192"
  shows "unat (take_bit 22 (512 * n - 1)) + 1 = 512 * unat n"
proof -
  have a: "unat (512 * n) = 512 * unat n" using assms(2) by (simp add: unat_mult_lem [THEN iffD1])
  have ge: "\<not> unat (512 * n) < unat (1 :: u32)" using a assms(1) by simp
  then have "unat (512 * n - 1) = 512 * unat n - 1" using a by (simp add: unat_sub_if')
  then show ?thesis using assms by (simp add: unsigned_take_bit_eq take_bit_nat_eq_self)
qed

subsection \<open>Properties\<close>

text \<open>the slot \<open>ahciCmdFindFree\<close> returns is the lowest one that neither \<open>PxSACT\<close> nor \<open>PxCI\<close> marks as
  busy, among the first \<open>(CAP & 0xf00) >> 8\<close>; it is -1 exactly when all of these are busy.
\<close>

theorem ahciCmdFindFree_correct:
  assumes "\<And>a s. mread M a s = (reg s a, s)"
  shows "\<exists>busy n. busy = reg (mach k) (portSAct p) OR reg (mach k) (portCi p)
    \<and> n = unat (drop_bit 8 (reg (mach k) (hbaCap (ahciBase k)) AND 0x0f00)) \<and> n < 16
    \<and> (if \<forall>l < n. bit busy l then ahciCmdFindFree M p k = (- 1, k)
       else \<exists>j < n. ahciCmdFindFree M p k = (int j, k) \<and> \<not> bit busy j \<and> (\<forall>l < j. bit busy l))"
proof -
  define busy where "busy = reg (mach k) (portSAct p) OR reg (mach k) (portCi p)"
  define n where "n = unat (drop_bit 8 (reg (mach k) (hbaCap (ahciBase k)) AND 0x0f00))"
  have r: "ahciCmdFindFree M p k = (findFreeLoop 0 n busy, k)"
    by (simp add: ahciCmdFindFree_def readReg_def fromMach_def assms busy_def n_def)
  have "drop_bit 8 (w AND 0x0f00) = drop_bit 8 w AND 0xf" for w :: u32 by (simp add: drop_bit_and)
  then have "drop_bit 8 (w AND 0x0f00) \<le> 0xf" for w :: u32 by (simp add: word_and_le1)
  then have "unat (drop_bit 8 (w AND 0x0f00)) \<le> unat (0xf :: u32)" for w :: u32 by (simp only: word_le_nat_alt)
  then have "n \<le> 15" unfolding n_def by simp
  then have "n < 16" by simp
  moreover from findFreeLoop_spec [of 0 n busy]
  have "if \<forall>l < n. bit busy l then ahciCmdFindFree M p k = (- 1, k)
       else \<exists>j < n. ahciCmdFindFree M p k = (int j, k) \<and> \<not> bit busy j \<and> (\<forall>l < j. bit busy l)"
    unfolding r by auto
  ultimately show ?thesis by (intro exI [of _ busy] exI [of _ n]) (simp add: busy_def n_def)
qed

text \<open>C37: on an idle port whose lowest slot is free, of a controller with at least one slot by the code's count
  (\<open>(CAP & 0xf00) >> 8\<close>, which is 0 for a controller with 1 or 17), \<open>ahciReadOrWrite\<close> returns, having written \<open>PxCI\<close> once, whether
  the command ends or fails: its result says whether \<open>PxIS\<close> is free of a task file error, and if so the
  controller has finished the command. What it left in memory is the
  command: the header of the slot with the length of the frame and the direction; the frame with
  the command code, the sector number (48 bits of it) and the count (16 bits of it); the buffer's
  physical address, and for up to 8192 sectors its length. No other memory is written.
\<close>

theorem ahciReadOrWrite_correct:
  fixes k :: "('s, 'a) ahci_state_scheme"
  assumes "hba_port M (hbaPort (ahciBase k) port) reg pend issued" and "ahciBase k \<noteq> 0"
    and "p = hbaPort (ahciBase k) port"
    and "reg (mach k) (portCi p) = 0" and "\<not> bit (reg (mach k) (portSAct p)) 0"
    and "reg (mach k) (hbaCap (ahciBase k)) AND 0x0f00 \<noteq> 0"
    and "reg (mach k) (portTfd p) AND (ATA_SR_BSY OR ATA_SR_DRQ) = 0"
    and "ch = U64 (reg (mach k) (portClb p)) (reg (mach k) (portClbUp p)) + hhdm k" and "ch \<noteq> 0"
    and "t = ctb (mem k) ch + hhdm k" and "t \<noteq> 0" and "apart ch 32 t 144"
  shows "\<exists>k'. ahciReadOrWrite M port lba n buf w k = Some (Inr (reg (mach k') (portIs p) AND HBA_PxIS_TFES = 0, k'))
    \<and> issued (mach k') = issued (mach k) @ [1]
    \<and> (reg (mach k') (portIs p) AND HBA_PxIS_TFES = 0 \<longrightarrow> reg (mach k') (portCi p) = 0)
    \<and> mem k' ch AND 0x1F = 5 \<and> bit (mem k' ch) 6 = w \<and> ctb (mem k') ch + hhdm k = t
    \<and> fis_posted w lba n t (mem k') \<and> prd_posted (vmmVirtToPhys k buf) n (t + 128) (mem k')
    \<and> (0 < unat n \<and> unat n \<le> 8192 \<longrightarrow> unat (take_bit 22 (load32 (mem k') (t + 140))) + 1 = 512 * unat n)
    \<and> same_outside (insert ch (rng t 144)) (mem k) (mem k')"
proof -
  define m1 where "m1 = setWrite w ch (setCmdFisLen 5 ch (mem k))"
  define m2 where "m2 = prdFill (buf - hhdm k) n (t + 128) m1"
  define m3 where "m3 = fillFis w lba n t m2"
  note cb = cmdByte [OF m1_def]
  have c: "ctb m' ch = ctb (mem k) ch" if "same_outside A (mem k) m'" "rng (ch + 8) 4 \<inter> A = {}" "rng (ch + 12) 4 \<inter> A = {}" for m' A
    using load_same_outside [OF that(1,2)] load_same_outside [OF that(1,3)] by (simp add: ctb_def load32_def)
  have c1: "ctb m1 ch = ctb (mem k) ch" by (rule c [OF cb(3)]) (simp_all add: in_rng)
  from assms(12) have off: "rng ch 32 \<inter> rng t 144 = {}" by (rule apart_disjoint)
  have o2: "same_outside (rng t 144) m1 m2" unfolding m2_def
    by (rule same_outside_mono [OF prdFill_outside]) (use rng_sub [of 128 16 144 t] in simp)
  have o3: "same_outside (rng t 14) m2 m3" unfolding m3_def by (rule fillFis_outside)
  have sub: "rng t 14 \<subseteq> rng t 144" by (rule rng_mono) simp
  have o13: "same_outside (rng t 144) m1 m3" by (rule same_outside_trans [OF o2 same_outside_mono [OF o3 sub]])
  have fr: "same_outside (insert ch (rng t 144)) (mem k) m3"
    by (rule same_outside_trans [OF same_outside_mono [OF cb(3)] same_outside_mono [OF o13]]) blast+
  have "ch \<in> rng ch 32" by (simp add: in_rng)
  then have same: "m3 ch = m1 ch" using same_outsideD [OF o13] off by blast
  have sub8: "rng (ch + 8) 4 \<subseteq> rng ch 32" "rng (ch + 12) 4 \<subseteq> rng ch 32"
    using rng_sub [of 8 4 32 ch] rng_sub [of 12 4 32 ch] by simp_all
  have c3: "ctb m3 ch = ctb (mem k) ch"
    by (rule c [OF fr]) (use off sub8 in \<open>auto simp: in_rng\<close>)
  have pp: "prd_posted (buf - hhdm k) n (t + 128) m3"
  proof -
    have "rng (t + 128) 16 \<inter> rng t 14 = {}"
      using rng_disjoint_base [of 0 14 128 16 t] by (simp add: Int_commute)
    from prd_posted_outside [OF o3 this] show ?thesis using prdFill_posted by (simp add: m2_def)
  qed
  have fp: "fis_posted w lba n t m3" unfolding m3_def by (rule fillFis_posted)
  have len: "0 < unat n \<and> unat n \<le> 8192 \<longrightarrow> unat (take_bit 22 (load32 m3 (t + 140))) + 1 = 512 * unat n"
    using pp dbc_bytes [of n] by (simp add: prd_posted_def add.commute)
  have t1: "t = ctb m1 ch + hhdm k" using assms(10) c1 by simp
  from ahciReadOrWrite_sends [OF assms(1,2) _ _ assms(6) _ _ assms(9) m1_def t1 assms(11), where n = n and buf = buf and lba = lba] assms(3,4,5,7,8)
  obtain s where "ahciReadOrWrite M port lba n buf w k = Some (Inr (reg s (portIs p) AND HBA_PxIS_TFES = 0, k\<lparr>mem := m3, mach := s\<rparr>))"
    and "issued s = issued (mach k) @ [1]" and "reg s (portIs p) AND HBA_PxIS_TFES = 0 \<longrightarrow> reg s (portCi p) = 0"
    unfolding m2_def m3_def by blast
  then show ?thesis using cb(1,2) same c3 fp pp len fr assms(10)
    by (intro exI [of _ "k\<lparr>mem := m3, mach := s\<rparr>"]) (simp add: vmmVirtToPhys_def)
qed

text \<open>A controller at \<open>0x10000\<close> with one port, whose commands end, or fail, at the first poll.\<close>

record demo_hba =
  hReg :: "u64 \<Rightarrow> u32"
  hIssued :: "u32 list"
  hFails :: bool

definition demoHba :: "demo_hba machine" where
  "demoHba =
     \<lparr>pout8 = (\<lambda>p v s. s), pout16 = (\<lambda>p v s. s), pout32 = (\<lambda>p v s. s), pin8 = (\<lambda>p s. (0, s)), pin32 = (\<lambda>p s. (0, s)),
      mread = (\<lambda>a s. (hReg s a, if a = 0x10138 \<and> hReg s a \<noteq> 0
        then if hFails s then s\<lparr>hReg := (hReg s)(0x10110 := hReg s 0x10110 OR HBA_PxIS_TFES)\<rparr> else s\<lparr>hReg := (hReg s)(a := 0)\<rparr>
        else s)),
      mwrite8 = (\<lambda>a v s. s), mwrite16 = (\<lambda>a v s. s),
      mwrite = (\<lambda>a v s. s\<lparr>hReg := (hReg s)(a := if a = 0x10110 then hReg s a AND NOT v
                             else if a = 0x10138 then hReg s a OR v else v),
                      hIssued := (if a = 0x10138 then hIssued s @ [v] else hIssued s)\<rparr>),
      mwrite64 = (\<lambda>a v s. s), msrRead = (\<lambda>r s. ((0, 0), s)), msrWrite = (\<lambda>r l h s. s), cpuidEdx = (\<lambda>l s. 0)\<rparr>"

definition demoDisk :: "bool \<Rightarrow> demo_hba ahci_state" where
  "demoDisk fails =
     \<lparr>mem = store32 (\<lambda>_. 0) 0xffff800000003008 0x5000, hhdm = 0xffff800000000000,
      pmmBitmap = \<lparr>bits = 64, dataSize = 8, data = 0xffff800000001000\<rparr>, pmmSpinlock = False,
      p4 = 0xffff800000002000, walkSpinlock = False, cr3 = 0x2000, invalidated = [],
      mach = \<lparr>hReg = (\<lambda>_. 0)(0x10000 := 0x1f00, 0x10100 := 0x3000), hIssued = [], hFails = fails\<rparr>, ahciBase = 0x10000\<rparr>"

lemma demoHba_port: "hba_port demoHba (hbaPort 0x10000 0) hReg (\<lambda>_. 0) hIssued"
  by (auto simp: hba_port_def demoHba_def port_regs hbaPort_def HBA_PxIS_TFES_def bit.conj_disj_distrib2 or_eq_0_iff)

definition demoSlots :: "devices ahci_state" where
  "demoSlots =
     \<lparr>mem = (\<lambda>_. 0), hhdm = 0xffff800000000000,
      pmmBitmap = \<lparr>bits = 64, dataSize = 8, data = 0xffff800000001000\<rparr>, pmmSpinlock = False,
      p4 = 0xffff800000002000, walkSpinlock = False, cr3 = 0x2000, invalidated = [],
      mach = \<lparr>dReg = (\<lambda>_. 0)(0x10000 := 0x1f00, 0x10138 := 1), dMsr = (\<lambda>_. 0), dLatch = 0, dCfg = (\<lambda>_. 0), dOut = []\<rparr>,
      ahciBase = 0x10000\<rparr>"

theorem ahciCmdFindFree_correct_witness: "ahciCmdFindFree simpleMachine 0x10100 demoSlots = (1, demoSlots)"
proof -
  have b: "bit (1 :: u32) j \<longleftrightarrow> j = 0" for j by (simp add: bit_1_iff)
  have r: "mread simpleMachine a s = (dReg s a, s)" for a s by (simp add: simpleMachine_def)
  have d: "dReg (mach demoSlots) = (\<lambda>_. 0)(0x10000 := 0x1f00, 0x10138 := 1)" "ahciBase demoSlots = 0x10000"
    by (simp_all add: demoSlots_def)
  obtain busy n where busy: "busy = dReg (mach demoSlots) (portSAct 0x10100) OR dReg (mach demoSlots) (portCi 0x10100)"
    and n: "n = unat (drop_bit 8 (dReg (mach demoSlots) (hbaCap (ahciBase demoSlots)) AND 0x0f00))"
    and res: "if \<forall>l < n. bit busy l then ahciCmdFindFree simpleMachine 0x10100 demoSlots = (- 1, demoSlots)
       else \<exists>j < n. ahciCmdFindFree simpleMachine 0x10100 demoSlots = (int j, demoSlots) \<and> \<not> bit busy j \<and> (\<forall>l < j. bit busy l)"
    using ahciCmdFindFree_correct [of simpleMachine dReg demoSlots "0x10100", OF r] by blast
  have n15: "n = 15" and b1: "bit busy j \<longleftrightarrow> j = 0" for j
    unfolding n busy by (simp_all add: d port_regs hbaCap_def b)
  have "\<not> (\<forall>l < n. bit busy l)" unfolding n15 b1 by (auto intro!: exI [of _ 1])
  with res obtain j where j: "ahciCmdFindFree simpleMachine 0x10100 demoSlots = (int j, demoSlots)" "\<not> bit busy j" "\<forall>l < j. bit busy l"
    by (simp only: if_False) blast
  then have "j \<noteq> 0" "\<not> 1 < j" unfolding b1 by auto
  then have "j = 1" by simp
  then show ?thesis using j(1) by simp
qed

theorem ahciReadOrWrite_correct_witness:
  "\<forall>fails. \<exists>k'. ahciReadOrWrite demoHba 0 0x123456 8 0xffff800000007000 True (demoDisk fails)
        = Some (Inr (hReg (mach k') 0x10110 AND HBA_PxIS_TFES = 0, k'))
     \<and> hIssued (mach k') = [1] \<and> fisLba (mem k') 0xffff800000005000 = 0x123456"
proof
  fix fails
  have "ctb (mem (demoDisk fails)) 0xffff800000003000 + hhdm (demoDisk fails) = 0xffff800000005000"
    by (simp add: ctb_def demoDisk_def U64_def load32_store32_apart) (simp add: load32_def store32_def mem_simps load_store_apart apart_def)
  then have t: "0xffff800000005000 = ctb (mem (demoDisk fails)) 0xffff800000003000 + hhdm (demoDisk fails)" by simp
  have b: "ahciBase (demoDisk fails) = 0x10000" "hReg (mach (demoDisk fails)) = (\<lambda>_. 0)(0x10000 := 0x1f00, 0x10100 := 0x3000)"
    "hhdm (demoDisk fails) = 0xffff800000000000" "hIssued (mach (demoDisk fails)) = []"
    by (simp_all add: demoDisk_def)
  have p: "hbaPort 0x10000 0 = 0x10100" by (simp add: hbaPort_def)
  have h: "hba_port demoHba (hbaPort (ahciBase (demoDisk fails)) 0) hReg (\<lambda>_. 0) hIssued" using demoHba_port b by simp
  obtain k' where k': "ahciReadOrWrite demoHba 0 0x123456 8 0xffff800000007000 True (demoDisk fails)
        = Some (Inr (hReg (mach k') (portIs 0x10100) AND HBA_PxIS_TFES = 0, k'))
     \<and> hIssued (mach k') = hIssued (mach (demoDisk fails)) @ [1] \<and> fis_posted True 0x123456 8 0xffff800000005000 (mem k')"
    using ahciReadOrWrite_correct [OF h _ _ _ _ _ _ _ _ t, where p = "0x10100" and n = 8 and lba = "0x123456"
        and buf = "0xffff800000007000" and w = True]
    unfolding b p by (simp add: port_regs hbaCap_def U64_def apart_def) blast
  then show "\<exists>k'. ahciReadOrWrite demoHba 0 0x123456 8 0xffff800000007000 True (demoDisk fails)
        = Some (Inr (hReg (mach k') 0x10110 AND HBA_PxIS_TFES = 0, k'))
     \<and> hIssued (mach k') = [1] \<and> fisLba (mem k') 0xffff800000005000 = 0x123456" by (intro exI [of _ k']) (simp add: b port_regs fis_posted_def)
qed

end
