(* ===== verification/Pci.thy ===== *)
theory Pci
  imports Ahci
begin

section \<open>PCI configuration space and devices (driver/pci.c, include/pci.h)\<close>

text \<open>
  A function's configuration space is read through two ports: the address of a 32-bit register
  goes to one, its value comes from the other. \<open>pciEnum\<close> looks at every function of every device
  on every bus, keeps a struct for each one present, and starts the disk driver for a controller
  of its class. Messages are left out, but not the read of the table of class names that one of
  them needs: it has 32 entries and the class code is a byte.
\<close>

definition CONFIG_ADDRESS :: u16 where "CONFIG_ADDRESS = 0xCF8"
definition CONFIG_DATA :: u16 where "CONFIG_DATA = 0xCFC"

text \<open>\<open>pciName\<close> is the address of the string given to the cache as its name.\<close>

record 's pci_state = "'s ahci_state" +
  pciDeviceCache :: u64
  pciDevices :: u64
  pciName :: u64

text \<open>\<open>PCIDevice\<close> is 56 bytes.\<close>

definition sizeofPCIDevice :: u64 where "sizeofPCIDevice = 56"
definition devSubclass :: "mem \<Rightarrow> u64 \<Rightarrow> u8" where "devSubclass m d = m (d + 10)"
definition devClasscode :: "mem \<Rightarrow> u64 \<Rightarrow> u8" where "devClasscode m d = m (d + 11)"
definition devBar5 :: "mem \<Rightarrow> u64 \<Rightarrow> u32" where "devBar5 m d = load32 m (d + 36)"
definition devHead :: "u64 \<Rightarrow> u64" where "devHead d = d + 40"

subsection \<open>Operations\<close>

definition pciGetConfigAddress :: "u32 \<Rightarrow> u32 \<Rightarrow> u32 \<Rightarrow> u32 \<Rightarrow> u32" where
  "pciGetConfigAddress bus dev func offset =
     0x80000000 OR push_bit 16 bus OR push_bit 11 dev OR push_bit 8 func OR (offset AND 0xFC)"

definition pciWrite32 ::
    "'s machine \<Rightarrow> u32 \<Rightarrow> u32 \<Rightarrow> u32 \<Rightarrow> u32 \<Rightarrow> u32 \<Rightarrow> ('s, 'a) dev_state_scheme \<Rightarrow> ('s, 'a) dev_state_scheme" where
  "pciWrite32 M bus dev func offset val k =
     out32 M CONFIG_DATA val (out32 M CONFIG_ADDRESS (pciGetConfigAddress bus dev func offset) k)"

definition pciWrite16 ::
    "'s machine \<Rightarrow> u32 \<Rightarrow> u32 \<Rightarrow> u32 \<Rightarrow> u32 \<Rightarrow> u16 \<Rightarrow> ('s, 'a) dev_state_scheme \<Rightarrow> ('s, 'a) dev_state_scheme" where
  "pciWrite16 M bus dev func offset val k =
     out16 M CONFIG_DATA val (out32 M CONFIG_ADDRESS (pciGetConfigAddress bus dev func offset) k)"

definition pciWrite8 ::
    "'s machine \<Rightarrow> u32 \<Rightarrow> u32 \<Rightarrow> u32 \<Rightarrow> u32 \<Rightarrow> u8 \<Rightarrow> ('s, 'a) dev_state_scheme \<Rightarrow> ('s, 'a) dev_state_scheme" where
  "pciWrite8 M bus dev func offset val k =
     out8 M CONFIG_DATA val (out32 M CONFIG_ADDRESS (pciGetConfigAddress bus dev func offset) k)"

definition pciRead32 ::
    "'s machine \<Rightarrow> u32 \<Rightarrow> u32 \<Rightarrow> u32 \<Rightarrow> u32 \<Rightarrow> ('s, 'a) dev_state_scheme \<Rightarrow> u32 \<times> ('s, 'a) dev_state_scheme" where
  "pciRead32 M bus dev func offset k =
     in32 M CONFIG_DATA (out32 M CONFIG_ADDRESS (pciGetConfigAddress bus dev func offset) k)"

definition pciRead16 ::
    "'s machine \<Rightarrow> u32 \<Rightarrow> u32 \<Rightarrow> u32 \<Rightarrow> u32 \<Rightarrow> ('s, 'a) dev_state_scheme \<Rightarrow> u16 \<times> ('s, 'a) dev_state_scheme" where
  "pciRead16 M bus dev func offset k =
     (case pciRead32 M bus dev func offset k of (v, k) \<Rightarrow>
        (ucast (drop_bit (unat ((offset AND 2) * 8)) v AND 0xFFFF), k))"

definition pciRead8High ::
    "'s machine \<Rightarrow> u32 \<Rightarrow> u32 \<Rightarrow> u32 \<Rightarrow> u32 \<Rightarrow> ('s, 'a) dev_state_scheme \<Rightarrow> u8 \<times> ('s, 'a) dev_state_scheme" where
  "pciRead8High M bus dev func offset k =
     (case pciRead16 M bus dev func offset k of (tmp, k) \<Rightarrow> (ucast (drop_bit 8 tmp), k))"

definition pciRead8Low ::
    "'s machine \<Rightarrow> u32 \<Rightarrow> u32 \<Rightarrow> u32 \<Rightarrow> u32 \<Rightarrow> ('s, 'a) dev_state_scheme \<Rightarrow> u8 \<times> ('s, 'a) dev_state_scheme" where
  "pciRead8Low M bus dev func offset k =
     (case pciRead16 M bus dev func offset k of (tmp, k) \<Rightarrow> (ucast (tmp AND 0xFF), k))"

definition pciInitDriver :: "'s machine \<Rightarrow> u64 \<Rightarrow> ('s, 'a) ahci_state_scheme \<Rightarrow> ('s, 'a) ahci_state_scheme ores" where
  "pciInitDriver M dev k =
     (if devClasscode (mem k) dev = 1 \<and> devSubclass (mem k) dev = 6
      then ahciInit M (ucast (devBar5 (mem k) dev)) k else Some (Inr k))"

text \<open>One assignment of the result of a read to a field of \<open>n\<close> bytes.\<close>

definition pciStore ::
    "nat \<Rightarrow> u64 \<Rightarrow> u64 \<Rightarrow> 'w::len word \<times> ('s, 'a) dev_state_scheme \<Rightarrow> ('s, 'a) dev_state_scheme res" where
  "pciStore n off buf r = (case r of (v, k) \<Rightarrow> setField n buf off (ucast v) k)"

definition pciReadDeviceData ::
    "'s machine \<Rightarrow> u32 \<Rightarrow> u32 \<Rightarrow> u32 \<Rightarrow> u64 \<Rightarrow> ('s, 'a) dev_state_scheme \<Rightarrow> ('s, 'a) dev_state_scheme res" where
  "pciReadDeviceData M bus dev func buf k =
     bnd (pciStore 2 0 buf (pciRead16 M bus dev func 0 k)) (\<lambda>k.
     bnd (pciStore 2 2 buf (pciRead16 M bus dev func 2 k)) (\<lambda>k.
     bnd (pciStore 2 4 buf (pciRead16 M bus dev func 4 k)) (\<lambda>k.
     bnd (pciStore 2 6 buf (pciRead16 M bus dev func 6 k)) (\<lambda>k.
     bnd (pciStore 1 8 buf (pciRead8Low M bus dev func 8 k)) (\<lambda>k.
     bnd (pciStore 1 9 buf (pciRead8High M bus dev func 8 k)) (\<lambda>k.
     bnd (pciStore 1 10 buf (pciRead8Low M bus dev func 10 k)) (\<lambda>k.
     bnd (pciStore 1 11 buf (pciRead8High M bus dev func 10 k)) (\<lambda>k.
     bnd (pciStore 1 12 buf (pciRead8Low M bus dev func 0xC k)) (\<lambda>k.
     bnd (pciStore 1 13 buf (pciRead8High M bus dev func 0xC k)) (\<lambda>k.
     bnd (pciStore 1 14 buf (pciRead8Low M bus dev func 0xF k)) (\<lambda>k.
     bnd (pciStore 1 15 buf (pciRead8High M bus dev func 0xF k)) (\<lambda>k.
     bnd (pciStore 4 16 buf (pciRead32 M bus dev func 0x10 k)) (\<lambda>k.
     bnd (pciStore 4 20 buf (pciRead32 M bus dev func 0x14 k)) (\<lambda>k.
     bnd (pciStore 4 24 buf (pciRead32 M bus dev func 0x18 k)) (\<lambda>k.
     bnd (pciStore 4 28 buf (pciRead32 M bus dev func 0x1C k)) (\<lambda>k.
     bnd (pciStore 4 32 buf (pciRead32 M bus dev func 0x20 k)) (\<lambda>k.
       pciStore 4 36 buf (pciRead32 M bus dev func 0x24 k))))))))))))))))))"

definition pciCheckFunction ::
    "'s machine \<Rightarrow> u32 \<Rightarrow> u32 \<Rightarrow> u32 \<Rightarrow> ('s, 'a) pci_state_scheme \<Rightarrow> ('s, 'a) pci_state_scheme ores" where
  "pciCheckFunction M busId devId func k =
     (case pciRead16 M busId devId func 0 k of (vendor, k) \<Rightarrow>
        if vendor \<noteq> 0xFFFF
        then bndO (slabAlloc (pciDeviceCache k) k) (\<lambda>(dev, k).
             bndO (Some (deref dev (onMemR (llInitHead (devHead dev)) k))) (\<lambda>k.
             bndO (Some (pciReadDeviceData M busId devId func dev k)) (\<lambda>k.
             if \<not> devClasscode (mem k) dev < 32 then Some (Inl OutOfBounds)
             else bndO (Some (onMemR (llInsertFront (pciDevices k) (devHead dev)) k)) (pciInitDriver M dev))))
        else Some (Inr k))"

function pciCheckDevice ::
    "'s machine \<Rightarrow> u32 \<Rightarrow> u32 \<Rightarrow> nat \<Rightarrow> ('s, 'a) pci_state_scheme \<Rightarrow> ('s, 'a) pci_state_scheme ores" where
  "pciCheckDevice M busId devId func k =
     (if func < 8
      then bndO (pciCheckFunction M busId devId (of_nat func) k) (pciCheckDevice M busId devId (func + 1))
      else Some (Inr k))"
  by pat_completeness auto
termination
  by (relation "measure (\<lambda>(M, b, d, func, k). 8 - func)") auto

function pciEnumDevs ::
    "'s machine \<Rightarrow> nat \<Rightarrow> nat \<Rightarrow> ('s, 'a) pci_state_scheme \<Rightarrow> ('s, 'a) pci_state_scheme ores" where
  "pciEnumDevs M bus dev k =
     (if dev < 32
      then bndO (pciCheckDevice M (of_nat bus) (of_nat dev) 0 k) (pciEnumDevs M bus (dev + 1))
      else Some (Inr k))"
  by pat_completeness auto
termination
  by (relation "measure (\<lambda>(M, b, d, k). 32 - d)") auto

function pciEnum :: "'s machine \<Rightarrow> nat \<Rightarrow> ('s, 'a) pci_state_scheme \<Rightarrow> ('s, 'a) pci_state_scheme ores" where
  "pciEnum M bus k =
     (if bus < 256 then bndO (pciEnumDevs M bus 0 k) (pciEnum M (bus + 1)) else Some (Inr k))"
  by pat_completeness auto
termination
  by (relation "measure (\<lambda>(M, b, k). 256 - b)") auto

definition pciInit :: "'s machine \<Rightarrow> ('s, 'a) pci_state_scheme \<Rightarrow> ('s, 'a) pci_state_scheme ores" where
  "pciInit M k =
     bndO (Some (slabInitCache (pciDeviceCache k) (pciName k) sizeofPCIDevice k)) (\<lambda>k.
     bndO (Some (onMemR (llInitHead (pciDevices k)) k)) (pciEnum M 0))"

declare pciCheckDevice.simps [simp del] pciEnumDevs.simps [simp del] pciEnum.simps [simp del]

subsection \<open>Configuration space as bytes\<close>

text \<open>
  What the ports do (PCI local bus specification, 3.2.2.3): the address port holds the last
  address written (\<open>latch\<close>), and the data port reads the register there. \<open>cfg\<close> is the value of the
  register at each address; reading does not change it.
\<close>

definition config_mechanism :: "'s machine \<Rightarrow> ('s \<Rightarrow> u32 \<Rightarrow> u32) \<Rightarrow> ('s \<Rightarrow> u32) \<Rightarrow> bool" where
  "config_mechanism M cfg latch \<longleftrightarrow>
     (\<forall>v s. latch (pout32 M CONFIG_ADDRESS v s) = v \<and> cfg (pout32 M CONFIG_ADDRESS v s) = cfg s)
     \<and> (\<forall>s. fst (pin32 M CONFIG_DATA s) = cfg s (latch s) \<and> cfg (snd (pin32 M CONFIG_DATA s)) = cfg s)"

text \<open>Byte \<open>i\<close> of the configuration space of a function.\<close>

definition cfgByte :: "(u32 \<Rightarrow> u32) \<Rightarrow> u32 \<Rightarrow> u32 \<Rightarrow> u32 \<Rightarrow> nat \<Rightarrow> u8" where
  "cfgByte c bus dev func i = ucast (drop_bit (8 * (i mod 4)) (c (pciGetConfigAddress bus dev func (of_nat i))))"

lemma and_FC: "i < 256 \<Longrightarrow> (of_nat i :: u32) AND 0xFC = of_nat (4 * (i div 4))"
proof (rule bit_word_eqI)
  fix n assume i: "i < 256" and "n < LENGTH(32)"
  have e: "(0xFC :: int) = push_bit 2 (mask 6)" by (simp add: push_bit_eq_mult mask_eq_exp_minus_1)
  have "i = take_bit 8 i" using i by (simp add: take_bit_nat_eq_self)
  then have b: "bit i n \<Longrightarrow> n < 8" using bit_take_bit_iff [of 8 i n] by auto
  have "4 * (i div 4) = push_bit 2 (drop_bit 2 i)" by (simp add: push_bit_eq_mult drop_bit_eq_div)
  then have q: "bit (4 * (i div 4)) n \<longleftrightarrow> 2 \<le> n \<and> bit i n"
    by (cases "2 \<le> n")
       (simp_all only: bit_push_bit_iff bit_drop_bit_eq o_def le_add_diff_inverse, simp_all)
  have f: "bit (0xFC :: int) n \<longleftrightarrow> 2 \<le> n \<and> n < 8" unfolding e bit_push_bit_iff bit_mask_iff by auto
  show "bit ((of_nat i :: u32) AND 0xFC) n = bit (of_nat (4 * (i div 4)) :: u32) n"
    using b q \<open>n < LENGTH(32)\<close> by (auto simp: bit_and_iff bit_of_nat_iff_bit bit_simps f simp del: of_nat_mult)
qed

lemma configAddress_div: "i < 256 \<Longrightarrow> pciGetConfigAddress b d f (of_nat i) = pciGetConfigAddress b d f (of_nat (4 * (i div 4)))"
  using and_FC [of i] and_FC [of "4 * (i div 4)"] by (simp add: pciGetConfigAddress_def del: of_nat_mult)

lemma pciRead32_reads:
  assumes "config_mechanism M cfg latch"
  obtains s where "pciRead32 M b d f off k = (cfg (mach k) (pciGetConfigAddress b d f off), k\<lparr>mach := s\<rparr>)"
    and "cfg s = cfg (mach k)"
proof -
  define s where "s = pout32 M CONFIG_ADDRESS (pciGetConfigAddress b d f off) (mach k)"
  have l: "latch s = pciGetConfigAddress b d f off" "cfg s = cfg (mach k)"
    and r: "fst (pin32 M CONFIG_DATA s) = cfg s (latch s)" "cfg (snd (pin32 M CONFIG_DATA s)) = cfg s"
    using assms by (simp_all add: config_mechanism_def s_def)
  obtain v t where "pin32 M CONFIG_DATA s = (v, t)" by fastforce
  then show thesis using that [of t] l r
    by (simp add: pciRead32_def in32_def out32_def fromMach_def onMach_def s_def)
qed

lemma addr_same:
  "i < 256 \<Longrightarrow> j < 256 \<Longrightarrow> i div 4 = j div 4 \<Longrightarrow> pciGetConfigAddress b d f (of_nat i) = pciGetConfigAddress b d f (of_nat j)"
  using configAddress_div by metis

lemma bit_ucast_drop: "bit (ucast (drop_bit m (w :: u32)) :: u8) n \<longleftrightarrow> n < 8 \<and> bit w (m + n)"
  by (auto simp: bit_simps)

lemma pciRead16_reads:
  assumes "config_mechanism M cfg latch" and i: "i < 256"
  obtains s where "pciRead16 M b d f (of_nat i) k =
      (ucast (cfgByte (cfg (mach k)) b d f (2 * (i div 2))) OR push_bit 8 (ucast (cfgByte (cfg (mach k)) b d f (2 * (i div 2) + 1))),
       k\<lparr>mach := s\<rparr>)"
    and "cfg s = cfg (mach k)"
proof -
  obtain s where s: "pciRead32 M b d f (of_nat i) k = (cfg (mach k) (pciGetConfigAddress b d f (of_nat i)), k\<lparr>mach := s\<rparr>)"
    "cfg s = cfg (mach k)" by (rule pciRead32_reads [OF assms(1)])
  define w where "w = cfg (mach k) (pciGetConfigAddress b d f (of_nat i))"
  define m where "m = 8 * (2 * (i div 2) mod 4)"
  have "(of_nat i :: u32) AND 2 = of_nat (2 * (i div 2) mod 4)"
  proof (rule bit_word_eqI)
    fix n assume "n < LENGTH(32)"
    have "2 * q mod 4 = q mod 2 * 2" for q :: nat by presburger
    then have e: "2 * (i div 2) mod 4 = push_bit 1 (take_bit 1 (drop_bit 1 i))"
      by (simp add: push_bit_eq_mult drop_bit_eq_div take_bit_eq_mod)
    have f: "bit (2 :: int) n \<longleftrightarrow> n = 1" by (cases n) (simp_all add: bit_Suc bit_1_iff)
    have "bit (2 * (i div 2) mod 4) n \<longleftrightarrow> n = 1 \<and> bit i 1"
      unfolding e bit_push_bit_iff bit_take_bit_iff bit_drop_bit_eq by (auto simp: possible_bit_def)
    then show "bit ((of_nat i :: u32) AND 2) n = bit (of_nat (2 * (i div 2) mod 4) :: u32) n"
      using \<open>n < LENGTH(32)\<close> by (auto simp: bit_and_iff bit_of_nat_iff_bit bit_simps f)
  qed
  moreover have small: "unat ((of_nat x :: u32) * 8) = 8 * x" if "x < 4" for x
  proof -
    from that have "x = 0 \<or> x = 1 \<or> x = 2 \<or> x = 3" by auto
    then show ?thesis by (elim disjE) simp_all
  qed
  ultimately have "unat (((of_nat i :: u32) AND 2) * 8) = m"
    using small [of "2 * (i div 2) mod 4"] unfolding m_def by simp
  then have r: "pciRead16 M b d f (of_nat i) k = (ucast (drop_bit m w AND 0xFFFF), k\<lparr>mach := s\<rparr>)"
    by (simp add: pciRead16_def s(1) w_def)
  have lt: "2 * (i div 2) < 256" "2 * (i div 2) + 1 < 256" using i by presburger+
  have dv: "2 * (i div 2) div 4 = i div 4" "(2 * (i div 2) + 1) div 4 = i div 4" by presburger+
  have a: "pciGetConfigAddress b d f (of_nat (2 * (i div 2))) = pciGetConfigAddress b d f (of_nat i)"
    "pciGetConfigAddress b d f (of_nat (2 * (i div 2) + 1)) = pciGetConfigAddress b d f (of_nat i)"
    using addr_same [of "2 * (i div 2)" i b d f] addr_same [of "2 * (i div 2) + 1" i b d f] i lt dv by simp_all
  have "(2 * q + 1) mod 4 = 2 * q mod 4 + 1" for q :: nat by presburger
  then have m1: "8 * ((2 * (i div 2) + 1) mod 4) = m + 8" unfolding m_def by simp
  have "cfgByte (cfg (mach k)) b d f (2 * (i div 2)) = ucast (drop_bit m w)"
    "cfgByte (cfg (mach k)) b d f (2 * (i div 2) + 1) = ucast (drop_bit (m + 8) w)"
    unfolding cfgByte_def a m1 by (simp_all add: m_def w_def)
  moreover have "(ucast (drop_bit m w AND 0xFFFF) :: u16)
      = ucast (ucast (drop_bit m w) :: u8) OR push_bit 8 (ucast (ucast (drop_bit (m + 8) w) :: u8))"
  proof (rule bit_word_eqI)
    fix n assume "n < LENGTH(16)"
    then consider "n < 8" | "8 \<le> n" "n < 16" by force
    then show "bit (ucast (drop_bit m w AND 0xFFFF) :: u16) n
       = bit (ucast (ucast (drop_bit m w) :: u8) OR push_bit 8 (ucast (ucast (drop_bit (m + 8) w) :: u8)) :: u16) n"
      by cases (simp_all add: bit_simps mask_bits less_diff_conv2 ac_simps)
  qed
  ultimately show thesis using that [of s] r s(2) by simp
qed

subsection \<open>The struct of a device\<close>

text \<open>The first \<open>o\<close> bytes of the struct are those of the configuration space.\<close>

definition dev_filled ::
    "('s \<Rightarrow> u32 \<Rightarrow> u32) \<Rightarrow> u32 \<Rightarrow> u32 \<Rightarrow> u32 \<Rightarrow> u64 \<Rightarrow> ('s, 'a) dev_state_scheme \<Rightarrow> nat \<Rightarrow> ('s, 'a) dev_state_scheme \<Rightarrow> bool" where
  "dev_filled cfg b d f buf k0 n k \<longleftrightarrow>
     (\<exists>m s. k = k0\<lparr>mem := m, mach := s\<rparr> \<and> cfg s = cfg (mach k0) \<and> same_outside (rng buf 40) (mem k0) m
        \<and> (\<forall>i < n. m (buf + of_nat i) = cfgByte (cfg (mach k0)) b d f i))"

lemma pciStore_step:
  assumes k: "dev_filled cfg b d f buf k0 pos k" and buf: "buf \<noteq> 0" and n: "pos + n \<le> 40"
    and r: "r = (v, k\<lparr>mach := s\<rparr>)" "cfg s = cfg (mach k)" and off: "off = of_nat pos"
    and v: "\<And>j. j < n \<Longrightarrow> ucast (drop_bit (8 * j) (ucast v :: u64)) = cfgByte (cfg (mach k)) b d f (pos + j)"
  shows "\<exists>k'. pciStore n off buf r = Inr k' \<and> dev_filled cfg b d f buf k0 (pos + n) k'"
proof -
  from k obtain m s0 where m: "k = k0\<lparr>mem := m, mach := s0\<rparr>" "cfg s0 = cfg (mach k0)" "same_outside (rng buf 40) (mem k0) m"
    "\<forall>i < pos. m (buf + of_nat i) = cfgByte (cfg (mach k0)) b d f i"
    by (auto simp: dev_filled_def)
  define m' where "m' = store n m (buf + of_nat pos) (ucast v)"
  have pn: "unat (of_nat pos :: u64) = pos" using n by (intro unat_of_nat64) simp
  have "same_outside (rng buf 40) m m'" unfolding m'_def
    by (rule store_same_outside') (use rng_sub [of "of_nat pos" n 40 buf] n pn in simp)
  then have out: "same_outside (rng buf 40) (mem k0) m'" using m(3) same_outside_trans by blast
  have new: "m' (buf + of_nat i) = cfgByte (cfg (mach k0)) b d f i" if "i < pos + n" for i
  proof (cases "i < pos")
    case True
    then have "unat (of_nat i - of_nat pos :: u64) = 2 ^ 64 - (pos - i)"
      using n pn unat_of_nat64 [of i] by (simp add: unat_sub_if' )
    then have "\<not> unat (of_nat i - of_nat pos :: u64) < n" using True n by simp
    then show ?thesis using True m(4) by (simp add: m'_def store_at)
  next
    case False
    then have "unat (of_nat i - of_nat pos :: u64) = i - pos"
      using n pn that unat_of_nat64 [of i] by (simp add: unat_sub_if')
    moreover have "i - pos < n" using False that by simp
    ultimately show ?thesis using v [of "i - pos"] False m(1,2) by (simp add: m'_def store_at)
  qed
  have "pciStore n off buf r = Inr (k0\<lparr>mem := m', mach := s\<rparr>)"
    by (simp add: pciStore_def setField_def r(1) m(1) buf off m'_def mach_mem)
  moreover have "dev_filled cfg b d f buf k0 (pos + n) (k0\<lparr>mem := m', mach := s\<rparr>)"
    unfolding dev_filled_def using out new r(2) m(1,2) by (intro exI [of _ m'] exI [of _ s]) simp
  ultimately show ?thesis by blast
qed

lemma lt2: "j < 2 \<longleftrightarrow> j = 0 \<or> j = (1 :: nat)" by auto
lemma lt4: "j < 4 \<longleftrightarrow> j = 0 \<or> j = 1 \<or> j = 2 \<or> j = (3 :: nat)" by auto

lemma word16_bytes:
  "ucast (ucast (ucast (x :: u8) OR push_bit 8 (ucast (y :: u8)) :: u16) :: u64) = x"
  "ucast (drop_bit 8 (ucast (ucast x OR push_bit 8 (ucast y) :: u16) :: u64)) = y"
  "ucast ((ucast x OR push_bit 8 (ucast y) :: u16) AND 0xFF) = x"
  "ucast (drop_bit 8 (ucast x OR push_bit 8 (ucast y) :: u16)) = y"
  by (rule bit_word_eqI; auto simp: bit_simps mask_bits bit_beyond)+

lemma byte_ucast: "ucast (ucast (x :: u8) :: u64) = x"
  by (rule bit_word_eqI) (simp add: bit_simps)

lemma step16:
  assumes ports: "config_mechanism M cfg latch" and buf: "buf \<noteq> 0" and k: "dev_filled cfg b d f buf k0 pos k"
    and pos: "pos + 2 \<le> 40" "even pos" and off: "off = of_nat pos" "roff = of_nat pos" and n: "n = pos + 2"
  shows "\<exists>k'. pciStore 2 off buf (pciRead16 M b d f roff k) = Inr k' \<and> dev_filled cfg b d f buf k0 n k'"
proof -
  have e: "2 * (pos div 2) = pos" using pos by simp
  obtain s where s: "pciRead16 M b d f (of_nat pos) k =
      (ucast (cfgByte (cfg (mach k)) b d f pos) OR push_bit 8 (ucast (cfgByte (cfg (mach k)) b d f (pos + 1))), k\<lparr>mach := s\<rparr>)"
    "cfg s = cfg (mach k)"
    using pciRead16_reads [OF ports, of pos b d f k] pos unfolding e by auto
  show ?thesis unfolding off(2) n
    by (rule pciStore_step [OF k buf pos(1) s off(1)]) (auto simp: lt2 word16_bytes)
qed

lemma step8:
  assumes ports: "config_mechanism M cfg latch" and buf: "buf \<noteq> 0" and k: "dev_filled cfg b d f buf k0 pos k"
    and pos: "pos + 1 \<le> 40" and i: "i < 256" and off: "off = of_nat pos" "roff = of_nat i" and n: "n = pos + 1"
  shows "2 * (i div 2) = pos \<Longrightarrow>
      \<exists>k'. pciStore 1 off buf (pciRead8Low M b d f roff k) = Inr k' \<and> dev_filled cfg b d f buf k0 n k'"
    and "2 * (i div 2) + 1 = pos \<Longrightarrow>
      \<exists>k'. pciStore 1 off buf (pciRead8High M b d f roff k) = Inr k' \<and> dev_filled cfg b d f buf k0 n k'"
proof -
  obtain s where s: "pciRead16 M b d f (of_nat i) k =
      (ucast (cfgByte (cfg (mach k)) b d f (2 * (i div 2))) OR push_bit 8 (ucast (cfgByte (cfg (mach k)) b d f (2 * (i div 2) + 1))),
       k\<lparr>mach := s\<rparr>)"
    "cfg s = cfg (mach k)"
    by (rule pciRead16_reads [OF ports i])
  have "pciRead8Low M b d f (of_nat i) k = (cfgByte (cfg (mach k)) b d f (2 * (i div 2)), k\<lparr>mach := s\<rparr>)"
    and "pciRead8High M b d f (of_nat i) k = (cfgByte (cfg (mach k)) b d f (2 * (i div 2) + 1), k\<lparr>mach := s\<rparr>)"
    unfolding pciRead8Low_def pciRead8High_def s(1) prod.case word16_bytes by (rule refl)+
  note r = this
  show "\<exists>k'. pciStore 1 off buf (pciRead8Low M b d f roff k) = Inr k' \<and> dev_filled cfg b d f buf k0 n k'"
    if "2 * (i div 2) = pos"
    unfolding off(2) n by (rule pciStore_step [OF k buf pos r(1) s(2) off(1)]) (simp add: that byte_ucast)
  show "\<exists>k'. pciStore 1 off buf (pciRead8High M b d f roff k) = Inr k' \<and> dev_filled cfg b d f buf k0 n k'"
    if "2 * (i div 2) + 1 = pos"
    unfolding off(2) n by (rule pciStore_step [OF k buf pos r(2) s(2) off(1)]) (use that byte_ucast in auto)
qed

lemma step32:
  assumes ports: "config_mechanism M cfg latch" and buf: "buf \<noteq> 0" and k: "dev_filled cfg b d f buf k0 pos k"
    and pos: "pos + 4 \<le> 40" "4 * (pos div 4) = pos" and off: "off = of_nat pos" "roff = of_nat pos" and n: "n = pos + 4"
  shows "\<exists>k'. pciStore 4 off buf (pciRead32 M b d f roff k) = Inr k' \<and> dev_filled cfg b d f buf k0 n k'"
proof -
  define w where "w = cfg (mach k) (pciGetConfigAddress b d f (of_nat pos))"
  obtain s where s: "pciRead32 M b d f (of_nat pos) k = (w, k\<lparr>mach := s\<rparr>)" "cfg s = cfg (mach k)"
    unfolding w_def by (rule pciRead32_reads [OF ports])
  have byte: "cfgByte (cfg (mach k)) b d f (pos + j) = ucast (drop_bit (8 * j) w)" if "j < 4" for j
  proof -
    have "(pos + j) div 4 = pos div 4" "(pos + j) mod 4 = j" using pos(2) that by presburger+
    then show ?thesis using addr_same [of "pos + j" pos b d f] pos(1) that by (simp add: cfgByte_def w_def)
  qed
  have "ucast (drop_bit (8 * j) (ucast w :: u64)) = (ucast (drop_bit (8 * j) w) :: u8)" if "j < 4" for j
    by (rule bit_word_eqI) (use that in \<open>auto simp: bit_simps\<close>)
  then show ?thesis unfolding off(2) n
    by (intro pciStore_step [OF k buf pos(1) s off(1)]) (simp add: byte)
qed

lemma then_step:
  assumes "\<exists>k'. x = Inr k' \<and> dev_filled cfg b d f buf k0 n k'"
    and "\<And>k'. dev_filled cfg b d f buf k0 n k' \<Longrightarrow> \<exists>r. g k' = Inr r \<and> dev_filled cfg b d f buf k0 40 r"
  shows "\<exists>r. bnd x g = Inr r \<and> dev_filled cfg b d f buf k0 40 r"
  using assms by auto

lemma dev_filled_start: "dev_filled cfg b d f buf k0 0 k0"
  unfolding dev_filled_def by (intro exI [of _ "mem k0"] exI [of _ "mach k0"]) simp

lemma pciReadDeviceData_filled:
  assumes ports: "config_mechanism M cfg latch" and buf: "buf \<noteq> 0"
  shows "\<exists>k'. pciReadDeviceData M b d f buf k = Inr k' \<and> dev_filled cfg b d f buf k 40 k'"
proof -
  note s16 = step16 [OF ports buf] and sL = step8(1) [OF ports buf] and sH = step8(2) [OF ports buf] and s32 = step32 [OF ports buf]
  show ?thesis unfolding pciReadDeviceData_def
    apply (rule then_step, rule s16, rule dev_filled_start, simp, simp, simp, simp, simp)
    apply (rule then_step, rule s16, assumption, simp, simp, simp, simp, simp)+
    apply (rule then_step, rule sL [where i = 8], assumption, simp, simp, simp, simp, simp, simp)
    apply (rule then_step, rule sH [where i = 8], assumption, simp, simp, simp, simp, simp, simp)
    apply (rule then_step, rule sL [where i = 10], assumption, simp, simp, simp, simp, simp, simp)
    apply (rule then_step, rule sH [where i = 10], assumption, simp, simp, simp, simp, simp, simp)
    apply (rule then_step, rule sL [where i = 12], assumption, simp, simp, simp, simp, simp, simp)
    apply (rule then_step, rule sH [where i = 12], assumption, simp, simp, simp, simp, simp, simp)
    apply (rule then_step, rule sL [where i = 15], assumption, simp, simp, simp, simp, simp, simp)
    apply (rule then_step, rule sH [where i = 15], assumption, simp, simp, simp, simp, simp, simp)
    apply (rule then_step, rule s32, assumption, simp, simp, simp, simp, simp)+
    apply (rule s32, assumption, simp, simp, simp, simp, simp)
    done
qed

subsection \<open>Properties\<close>

lemma small_bits_lt: "unat (w :: u32) < 2 ^ n \<Longrightarrow> bit w i \<Longrightarrow> i < n"
proof -
  assume "unat w < 2 ^ n" and b: "bit w i"
  then have "unat w = take_bit n (unat w)" by (simp add: take_bit_nat_eq_self)
  moreover have "bit (unat w) i" using b by (simp add: bit_unsigned_iff)
  ultimately have "bit (take_bit n (unat w)) i" by metis
  then show "i < n" by (simp add: bit_take_bit_iff)
qed

text \<open>a configuration address determines bus, device, function and register: for numbers in range
  each can be read off its bits, and bit 31 is set.
\<close>

theorem pciGetConfigAddress_fields:
  assumes "unat bus < 256" and "unat dev < 32" and "unat func < 8"
  shows "take_bit 8 (drop_bit 16 (pciGetConfigAddress bus dev func offset)) = bus
    \<and> take_bit 5 (drop_bit 11 (pciGetConfigAddress bus dev func offset)) = dev
    \<and> take_bit 3 (drop_bit 8 (pciGetConfigAddress bus dev func offset)) = func
    \<and> take_bit 8 (pciGetConfigAddress bus dev func offset) = offset AND 0xFC
    \<and> bit (pciGetConfigAddress bus dev func offset) 31"
proof -
  have lo: "bit bus i \<Longrightarrow> i < 8" "bit dev i \<Longrightarrow> i < 5" "bit func i \<Longrightarrow> i < 3" for i
    using assms small_bits_lt [of bus 8] small_bits_lt [of dev 5] small_bits_lt [of func 3] by simp_all
  have e: "(0xFC :: int) = push_bit 2 (mask 6)" "(0x80000000 :: int) = push_bit 31 1"
    by (simp_all add: push_bit_eq_mult mask_eq_exp_minus_1)
  have fc: "bit (0xFC :: int) i \<longleftrightarrow> 2 \<le> i \<and> i < 8" for i unfolding e bit_push_bit_iff bit_mask_iff by auto
  define a where "a = pciGetConfigAddress bus dev func offset"
  have bits: "bit a i \<longleftrightarrow> i = 31 \<or> (16 \<le> i \<and> i < 24 \<and> bit bus (i - 16)) \<or> (11 \<le> i \<and> i < 16 \<and> bit dev (i - 11))
      \<or> (8 \<le> i \<and> i < 11 \<and> bit func (i - 8)) \<or> (2 \<le> i \<and> i < 8 \<and> bit offset i)" if "i < 32" for i
    using that lo [of "i - 16"] lo [of "i - 11"] lo [of "i - 8"]
    by (auto simp: a_def pciGetConfigAddress_def bit_simps fc dbc_masks)
  have field: "take_bit l (drop_bit m a) = w"
    if "\<And>i. bit w i \<Longrightarrow> i < l" "\<And>i. i < l \<Longrightarrow> bit a (m + i) = bit w i" for l m w
    by (rule bit_word_eqI) (use that in \<open>auto simp: bit_take_bit_iff bit_drop_bit_eq\<close>)
  have "take_bit 8 (drop_bit 16 a) = bus" "take_bit 5 (drop_bit 11 a) = dev" "take_bit 3 (drop_bit 8 a) = func"
    by (rule field, use lo in blast, simp add: bits)+
  moreover have "take_bit 8 a = offset AND 0xFC"
    by (rule bit_word_eqI) (auto simp: bit_take_bit_iff bits bit_and_iff bit_simps fc)
  moreover have "bit a 31" by (simp add: bits)
  ultimately show ?thesis by (simp only: a_def simp_thms)
qed

theorem pciGetConfigAddress_fields_witness:
  "take_bit 5 (drop_bit 11 (pciGetConfigAddress 3 31 7 0x25)) = 31"
  using pciGetConfigAddress_fields [of 3 31 7 "0x25"] by simp

text \<open>C38: \<open>pciReadDeviceData\<close>, field by field with reads of 8, 16 and 32 bits, is the copy of the first
  40 bytes of the function's configuration space into the struct, in the same order; nothing else
  is written. \<open>pciGetConfigAddress_fields\<close> says what the addresses are that the mechanism decodes.
\<close>

theorem pciReadDeviceData_correct:
  assumes "config_mechanism M cfg latch" and "buf \<noteq> 0"
  shows "\<exists>m s. pciReadDeviceData M b d f buf k = Inr (k\<lparr>mem := m, mach := s\<rparr>) \<and> cfg s = cfg (mach k)
    \<and> (\<forall>i < 40. m (buf + of_nat i) = cfgByte (cfg (mach k)) b d f i) \<and> same_outside (rng buf 40) (mem k) m"
  using pciReadDeviceData_filled [OF assms, of b d f k] by (auto simp: dev_filled_def)

lemma simple_config: "config_mechanism simpleMachine dCfg dLatch"
  by (simp add: config_mechanism_def simpleMachine_def CONFIG_ADDRESS_def CONFIG_DATA_def)

definition demoConfig :: "devices ahci_state" where
  "demoConfig = demoSlots\<lparr>mach := \<lparr>dReg = (\<lambda>_. 0), dMsr = (\<lambda>_. 0), dLatch = 0,
     dCfg = (\<lambda>_. 0)(0x8000f808 := 0x01060185), dOut = []\<rparr>\<rparr>"

theorem pciReadDeviceData_correct_witness:
  "\<exists>k'. pciReadDeviceData simpleMachine 0 31 0 0x1000 demoConfig = Inr k'
     \<and> devClasscode (mem k') 0x1000 = 1 \<and> devSubclass (mem k') 0x1000 = 6"
proof -
  have c: "dCfg (mach demoConfig) = (\<lambda>_. 0)(0x8000f808 := 0x01060185)" by (simp add: demoConfig_def)
  obtain m s where m: "pciReadDeviceData simpleMachine 0 31 0 0x1000 demoConfig = Inr (demoConfig\<lparr>mem := m, mach := s\<rparr>)"
    and i: "\<forall>i < 40. m (0x1000 + of_nat i) = cfgByte (dCfg (mach demoConfig)) 0 31 0 i"
    using pciReadDeviceData_correct [OF simple_config, of "0x1000" 0 31 0 demoConfig] by auto
  show ?thesis
    using m i [rule_format, of 10] i [rule_format, of 11]
    by (intro exI [of _ "demoConfig\<lparr>mem := m, mach := s\<rparr>"])
       (simp add: devClasscode_def devSubclass_def cfgByte_def c pciGetConfigAddress_def)
qed

end
