(* ===== verification/Printf.thy ===== *)
theory Printf
  imports Strings Spinlocks
begin

section \<open>Formatted printing (util/printf.c)\<close>

text \<open>
  The formatter of the kernel's log and of \<open>panic\<close>, without floating point (which
  \<open>PRINTF_DISABLE_SUPPORT_FLOAT\<close> turns off). A format is the list of its characters up to the
  terminator, since formats are literals; going past the terminator is \<open>OutOfBounds\<close>. The
  \<open>va_list\<close> is the list of the 8-byte slots of the arguments that are left; taking one more than
  there are is \<open>OutOfBounds\<close> too. Strings for \<open>%s\<close> and the output buffer are in memory. What
  \<open>_putchar\<close> was given is \<open>console\<close>, oldest first, and what the function of \<open>fctprintf\<close> was
  given is \<open>called\<close>.
\<close>

record out_state =
  omem :: mem
  console :: "u8 list"
  called :: "u8 list"
  printfSpinlock :: Spinlock

abbreviation ch :: "char \<Rightarrow> u8" where "ch \<equiv> of_char"

definition NTOA_BUFFER_SIZE :: nat where "NTOA_BUFFER_SIZE = 32"

definition FLAGS_ZEROPAD :: u32 where "FLAGS_ZEROPAD = 0x1"
definition FLAGS_LEFT :: u32 where "FLAGS_LEFT = 0x2"
definition FLAGS_PLUS :: u32 where "FLAGS_PLUS = 0x4"
definition FLAGS_SPACE :: u32 where "FLAGS_SPACE = 0x8"
definition FLAGS_HASH :: u32 where "FLAGS_HASH = 0x10"
definition FLAGS_UPPERCASE :: u32 where "FLAGS_UPPERCASE = 0x20"
definition FLAGS_CHAR :: u32 where "FLAGS_CHAR = 0x40"
definition FLAGS_SHORT :: u32 where "FLAGS_SHORT = 0x80"
definition FLAGS_LONG :: u32 where "FLAGS_LONG = 0x100"
definition FLAGS_LONG_LONG :: u32 where "FLAGS_LONG_LONG = 0x200"
definition FLAGS_PRECISION :: u32 where "FLAGS_PRECISION = 0x400"

abbreviation has :: "u32 \<Rightarrow> u32 \<Rightarrow> bool" where "has flags f \<equiv> flags AND f \<noteq> 0"

subsection \<open>Output functions\<close>

text \<open>\<open>out(character, buffer, idx, maxlen)\<close>; \<open>buffer\<close> and \<open>maxlen\<close> never change during a call.\<close>

type_synonym out_fct = "u8 \<Rightarrow> u64 \<Rightarrow> out_state \<Rightarrow> out_state"

definition out_buffer :: "u64 \<Rightarrow> u64 \<Rightarrow> out_fct" where
  "out_buffer buffer maxlen character idx s =
     (if idx < maxlen then s\<lparr>omem := (omem s)(buffer + idx := character)\<rparr> else s)"

definition out_null :: out_fct where
  "out_null character idx s = s"

definition out_char :: out_fct where
  "out_char character idx s = (if character \<noteq> 0 then s\<lparr>console := console s @ [character]\<rparr> else s)"

definition out_fct_call :: out_fct where
  "out_fct_call character idx s = (if character \<noteq> 0 then s\<lparr>called := called s @ [character]\<rparr> else s)"

text \<open>The loops around \<open>out(c, buffer, idx++, maxlen)\<close>: these characters, one after the other.\<close>

primrec emit :: "out_fct \<Rightarrow> u8 list \<Rightarrow> u64 \<Rightarrow> out_state \<Rightarrow> u64 \<times> out_state" where
  "emit out [] idx s = (idx, s)"
| "emit out (c # cs) idx s = emit out cs (idx + 1) (out c idx s)"

abbreviation spaces :: "nat \<Rightarrow> u8 list" where "spaces n \<equiv> replicate n (ch CHR '' '')"

subsection \<open>Helpers\<close>

text \<open>\<open>for (s = str; *s && maxsize--; ++s);\<close>\<close>

function strnlenLoop :: "mem \<Rightarrow> u64 \<Rightarrow> u64 \<Rightarrow> u64" where
  "strnlenLoop m s maxsize = (if m s \<noteq> 0 \<and> maxsize \<noteq> 0 then strnlenLoop m (s + 1) (maxsize - 1) else s)"
  by pat_completeness auto
termination
  by (relation "measure (\<lambda>(m, s, maxsize). unat maxsize)") (auto simp: unat_minus_one unat_gt_0)

declare strnlenLoop.simps [simp del]

definition strnlen_s :: "u64 \<Rightarrow> u64 \<Rightarrow> mem \<Rightarrow> u32 res" where
  "strnlen_s str maxsize m = deref str (Inr (ucast (strnlenLoop m str maxsize - str)))"

definition is_digit :: "u8 \<Rightarrow> bool" where
  "is_digit c \<longleftrightarrow> ch CHR ''0'' \<le> c \<and> c \<le> ch CHR ''9''"

fun atoi :: "u8 list \<Rightarrow> u32 \<Rightarrow> u32 \<times> u8 list" where
  "atoi (c # f) i = (if is_digit c then atoi f (i * 10 + ucast (c - ch CHR ''0'')) else (i, c # f))"
| "atoi [] i = (i, [])"

fun va_arg :: "u64 list \<Rightarrow> (u64 \<times> u64 list) res" where
  "va_arg (v # va) = Inr (v, va)"
| "va_arg [] = Inl OutOfBounds"

subsection \<open>Numbers\<close>

definition outRev :: "out_fct \<Rightarrow> u64 \<Rightarrow> u8 list \<Rightarrow> u32 \<Rightarrow> u32 \<Rightarrow> out_state \<Rightarrow> u64 \<times> out_state" where
  "outRev out idx buf width flags s =
     (let start_idx = idx;
          (idx, s) = (if \<not> has flags FLAGS_LEFT \<and> \<not> has flags FLAGS_ZEROPAD
                      then emit out (spaces (unat width - length buf)) idx s else (idx, s));
          (idx, s) = emit out (rev buf) idx s
      in if has flags FLAGS_LEFT then emit out (spaces (unat width - unat (idx - start_idx))) idx s else (idx, s))"

text \<open>\<open>while (len < n && len < PRINTF_NTOA_BUFFER_SIZE) buf[len++] = '0'\<close>, and one guarded character.\<close>

definition padZeros :: "nat \<Rightarrow> u8 list \<Rightarrow> u8 list" where
  "padZeros n buf = buf @ replicate (min n NTOA_BUFFER_SIZE - length buf) (ch CHR ''0'')"

definition putBuf :: "u8 \<Rightarrow> u8 list \<Rightarrow> u8 list" where
  "putBuf c buf = (if length buf < NTOA_BUFFER_SIZE then buf @ [c] else buf)"

definition ntoaZeros :: "u8 list \<Rightarrow> u32 \<Rightarrow> u32 \<Rightarrow> u32 \<Rightarrow> u8 list" where
  "ntoaZeros buf prec width flags =
     (if has flags FLAGS_LEFT then buf
      else let buf = padZeros (unat prec) buf in
        if has flags FLAGS_ZEROPAD then padZeros (unat width) buf else buf)"

definition ntoaHash :: "u8 list \<Rightarrow> u32 \<Rightarrow> u32 \<Rightarrow> u32 \<Rightarrow> u32 \<Rightarrow> u8 list" where
  "ntoaHash buf base prec width flags =
     (if has flags FLAGS_HASH
      then let len = length buf;
               buf = (if \<not> has flags FLAGS_PRECISION \<and> len \<noteq> 0 \<and> (len = unat prec \<or> len = unat width)
                      then let buf = butlast buf in if buf \<noteq> [] \<and> base = 16 then butlast buf else buf
                      else buf);
               room = length buf < NTOA_BUFFER_SIZE;
               buf = (if base = 16 \<and> \<not> has flags FLAGS_UPPERCASE \<and> room then buf @ [ch CHR ''x'']
                      else if base = 16 \<and> has flags FLAGS_UPPERCASE \<and> room then buf @ [ch CHR ''X'']
                      else if base = 2 \<and> room then buf @ [ch CHR ''b'']
                      else buf)
           in putBuf (ch CHR ''0'') buf
      else buf)"

definition ntoaSign :: "u8 list \<Rightarrow> bool \<Rightarrow> u32 \<Rightarrow> u8 list" where
  "ntoaSign buf negative flags =
     (if negative then putBuf (ch CHR ''-'') buf
      else if has flags FLAGS_PLUS then putBuf (ch CHR ''+'') buf
      else if has flags FLAGS_SPACE then putBuf (ch CHR '' '') buf
      else buf)"

definition ntoaFormat ::
    "out_fct \<Rightarrow> u64 \<Rightarrow> u8 list \<Rightarrow> bool \<Rightarrow> u32 \<Rightarrow> u32 \<Rightarrow> u32 \<Rightarrow> u32 \<Rightarrow> out_state \<Rightarrow> u64 \<times> out_state" where
  "ntoaFormat out idx buf negative base prec width flags s =
     (let width = (if \<not> has flags FLAGS_LEFT \<and> width \<noteq> 0 \<and> has flags FLAGS_ZEROPAD
                      \<and> (negative \<or> has flags (FLAGS_PLUS OR FLAGS_SPACE)) then width - 1 else width);
          buf = ntoaZeros buf prec width flags;
          buf = ntoaHash buf base prec width flags;
          buf = ntoaSign buf negative flags
      in outRev out idx buf width flags s)"

text \<open>The digits, least significant first, in a buffer of 32 characters; bases are at most 16.\<close>

definition digitChar :: "u8 \<Rightarrow> u32 \<Rightarrow> u8" where
  "digitChar digit flags =
     (if digit < 10 then ch CHR ''0'' + digit
      else (if has flags FLAGS_UPPERCASE then ch CHR ''A'' else ch CHR ''a'') + digit - 10)"

function ntoaDigits :: "u64 \<Rightarrow> u64 \<Rightarrow> u32 \<Rightarrow> u8 list \<Rightarrow> u8 list" where
  "ntoaDigits value base flags buf =
     (let digit = ucast (value mod base);
          buf = buf @ [digitChar digit flags];
          value = value div base
      in if value \<noteq> 0 \<and> length buf < NTOA_BUFFER_SIZE then ntoaDigits value base flags buf else buf)"
  by pat_completeness auto
termination
  by (relation "measure (\<lambda>(value, base, flags, buf). NTOA_BUFFER_SIZE - length buf)") auto

declare ntoaDigits.simps [simp del]

definition ntoaLong ::
    "out_fct \<Rightarrow> u64 \<Rightarrow> u64 \<Rightarrow> bool \<Rightarrow> u64 \<Rightarrow> u32 \<Rightarrow> u32 \<Rightarrow> u32 \<Rightarrow> out_state \<Rightarrow> u64 \<times> out_state" where
  "ntoaLong out idx value negative base prec width flags s =
     (let flags = (if value = 0 then flags AND NOT FLAGS_HASH else flags);
          buf = (if \<not> has flags FLAGS_PRECISION \<or> value \<noteq> 0 then ntoaDigits value base flags [] else [])
      in ntoaFormat out idx buf negative (ucast base) prec width flags s)"

text \<open>\<open>long\<close> and \<open>long long\<close> both have 64 bits, so this function has the same body.\<close>

definition ntoaLongLong ::
    "out_fct \<Rightarrow> u64 \<Rightarrow> u64 \<Rightarrow> bool \<Rightarrow> u64 \<Rightarrow> u32 \<Rightarrow> u32 \<Rightarrow> u32 \<Rightarrow> out_state \<Rightarrow> u64 \<times> out_state" where
  "ntoaLongLong out idx value negative base prec width flags s =
     (let flags = (if value = 0 then flags AND NOT FLAGS_HASH else flags);
          buf = (if \<not> has flags FLAGS_PRECISION \<or> value \<noteq> 0 then ntoaDigits value base flags [] else [])
      in ntoaFormat out idx buf negative (ucast base) prec width flags s)"

subsection \<open>Conversions\<close>

text \<open>The base of an integer conversion, and the flags that count for it.\<close>

definition intFlags :: "u8 \<Rightarrow> u32 \<Rightarrow> u64 \<times> u32" where
  "intFlags c flags =
     (let (base, flags) =
            (if c = ch CHR ''x'' \<or> c = ch CHR ''X'' then (16, flags)
             else if c = ch CHR ''o'' then (8, flags)
             else if c = ch CHR ''b'' then (2, flags)
             else (10, flags AND NOT FLAGS_HASH));
          flags = (if c = ch CHR ''X'' then flags OR FLAGS_UPPERCASE else flags);
          flags = (if c \<noteq> ch CHR ''i'' \<and> c \<noteq> ch CHR ''d'' then flags AND NOT (FLAGS_PLUS OR FLAGS_SPACE) else flags);
          flags = (if has flags FLAGS_PRECISION then flags AND NOT FLAGS_ZEROPAD else flags)
      in (base, flags))"

text \<open>The value of a signed argument: what it is, then its magnitude and sign. The
  negation of the least value, which C leaves open, wraps.\<close>

definition convInt ::
    "out_fct \<Rightarrow> u8 \<Rightarrow> u32 \<Rightarrow> u32 \<Rightarrow> u32 \<Rightarrow> u64 list \<Rightarrow> u64 \<Rightarrow> out_state \<Rightarrow> (u64 \<times> u64 list \<times> out_state) res" where
  "convInt out c flags width precision va idx s =
     (let (base, flags) = intFlags c flags
      in bnd (va_arg va) (\<lambda>(v, va).
         let (idx, s) =
           (if c = ch CHR ''i'' \<or> c = ch CHR ''d''
            then if has flags FLAGS_LONG_LONG
                 then ntoaLongLong out idx (if sint v > 0 then v else 0 - v) (sint v < 0) base precision width flags s
                 else if has flags FLAGS_LONG
                 then ntoaLong out idx (if sint v > 0 then v else 0 - v) (sint v < 0) base precision width flags s
                 else let value = (if has flags FLAGS_CHAR then scast (ucast v :: u8)
                                   else if has flags FLAGS_SHORT then scast (ucast v :: u16) else ucast v :: u32)
                      in ntoaLong out idx (ucast (if sint value > 0 then value else 0 - value)) (sint value < 0)
                           base precision width flags s
            else if has flags FLAGS_LONG_LONG
                 then ntoaLongLong out idx v False base precision width flags s
                 else if has flags FLAGS_LONG
                 then ntoaLong out idx v False base precision width flags s
                 else let value = (if has flags FLAGS_CHAR then ucast (ucast v :: u8)
                                   else if has flags FLAGS_SHORT then ucast (ucast v :: u16) else ucast v :: u32)
                      in ntoaLong out idx (ucast value) False base precision width flags s)
         in Inr (idx, va, s)))"

definition convChar ::
    "out_fct \<Rightarrow> u32 \<Rightarrow> u32 \<Rightarrow> u64 list \<Rightarrow> u64 \<Rightarrow> out_state \<Rightarrow> (u64 \<times> u64 list \<times> out_state) res" where
  "convChar out flags width va idx s =
     (let pad = spaces (unat width - 1);
          (idx, s) = (if has flags FLAGS_LEFT then (idx, s) else emit out pad idx s)
      in bnd (va_arg va) (\<lambda>(v, va).
         let (idx, s) = emit out [ucast v] idx s;
             (idx, s) = (if has flags FLAGS_LEFT then emit out pad idx s else (idx, s))
         in Inr (idx, va, s)))"

text \<open>\<open>while (*p != 0 && (!(flags & FLAGS_PRECISION) || precision--)) out(*(p++), ...)\<close>\<close>

partial_function (option) outString ::
    "out_fct \<Rightarrow> u32 \<Rightarrow> u64 \<Rightarrow> u32 \<Rightarrow> u64 \<Rightarrow> out_state \<Rightarrow> (u64 \<times> out_state) option" where
  "outString out flags p precision idx s =
     (if omem s p \<noteq> 0 \<and> (\<not> has flags FLAGS_PRECISION \<or> precision \<noteq> 0)
      then outString out flags (p + 1) (if has flags FLAGS_PRECISION then precision - 1 else precision)
             (idx + 1) (out (omem s p) idx s)
      else Some (idx, s))"

declare outString.simps [code]

definition convString ::
    "out_fct \<Rightarrow> u32 \<Rightarrow> u32 \<Rightarrow> u32 \<Rightarrow> u64 list \<Rightarrow> u64 \<Rightarrow> out_state \<Rightarrow> (u64 \<times> u64 list \<times> out_state) ores" where
  "convString out flags width precision va idx s =
     bndO (Some (va_arg va)) (\<lambda>(p, va).
     bndO (Some (strnlen_s p (if precision \<noteq> 0 then ucast precision else - 1) (omem s))) (\<lambda>l.
     let l = (if has flags FLAGS_PRECISION then (if l < precision then l else precision) else l);
         pad = spaces (unat width - unat l);
         (idx, s) = (if has flags FLAGS_LEFT then (idx, s) else emit out pad idx s)
     in bndO (map_option Inr (outString out flags p precision idx s)) (\<lambda>(idx, s).
        let (idx, s) = (if has flags FLAGS_LEFT then emit out pad idx s else (idx, s))
        in Some (Inr (idx, va, s)))))"

definition convPointer ::
    "out_fct \<Rightarrow> u32 \<Rightarrow> u32 \<Rightarrow> u64 list \<Rightarrow> u64 \<Rightarrow> out_state \<Rightarrow> (u64 \<times> u64 list \<times> out_state) res" where
  "convPointer out flags precision va idx s =
     (let width = 16; flags = flags OR (FLAGS_ZEROPAD OR FLAGS_UPPERCASE)
      in bnd (va_arg va) (\<lambda>(v, va).
         let (idx, s) = ntoaLongLong out idx v False 16 precision width flags s in Inr (idx, va, s)))"

definition convert ::
    "out_fct \<Rightarrow> u8 \<Rightarrow> u32 \<Rightarrow> u32 \<Rightarrow> u32 \<Rightarrow> u64 list \<Rightarrow> u64 \<Rightarrow> out_state \<Rightarrow> (u64 \<times> u64 list \<times> out_state) ores" where
  "convert out c flags width precision va idx s =
     (if c \<in> set (map ch ''diuxXob'') then Some (convInt out c flags width precision va idx s)
      else if c = ch CHR ''c'' then Some (convChar out flags width va idx s)
      else if c = ch CHR ''s'' then convString out flags width precision va idx s
      else if c = ch CHR ''p'' then Some (convPointer out flags precision va idx s)
      else let (idx, s) = emit out [c] idx s in Some (Inr (idx, va, s)))"

subsection \<open>Reading a conversion specification\<close>

fun readFlags :: "u8 list \<Rightarrow> u32 \<Rightarrow> u32 \<times> u8 list" where
  "readFlags (c # f) flags =
     (if c = ch CHR ''0'' then readFlags f (flags OR FLAGS_ZEROPAD)
      else if c = ch CHR ''-'' then readFlags f (flags OR FLAGS_LEFT)
      else if c = ch CHR ''+'' then readFlags f (flags OR FLAGS_PLUS)
      else if c = ch CHR '' '' then readFlags f (flags OR FLAGS_SPACE)
      else if c = ch CHR ''#'' then readFlags f (flags OR FLAGS_HASH)
      else (flags, c # f))"
| "readFlags [] flags = (flags, [])"

fun readWidth :: "u8 list \<Rightarrow> u32 \<Rightarrow> u64 list \<Rightarrow> (u32 \<times> u32 \<times> u8 list \<times> u64 list) res" where
  "readWidth (c # f) flags va =
     (if is_digit c then (case atoi (c # f) 0 of (width, f) \<Rightarrow> Inr (flags, width, f, va))
      else if c = ch CHR ''*''
      then bnd (va_arg va) (\<lambda>(v, va). let w = ucast v :: u32 in
             if sint w < 0 then Inr (flags OR FLAGS_LEFT, - w, f, va) else Inr (flags, w, f, va))
      else Inr (flags, 0, c # f, va))"
| "readWidth [] flags va = Inr (flags, 0, [], va)"

fun readPrecision :: "u8 list \<Rightarrow> u32 \<Rightarrow> u64 list \<Rightarrow> (u32 \<times> u32 \<times> u8 list \<times> u64 list) res" where
  "readPrecision (c # f) flags va =
     (if c \<noteq> ch CHR ''.'' then Inr (flags, 0, c # f, va)
      else let flags = flags OR FLAGS_PRECISION in
        case f of
          [] \<Rightarrow> Inr (flags, 0, f, va)
        | d # f' \<Rightarrow>
            if is_digit d then (case atoi f 0 of (precision, f) \<Rightarrow> Inr (flags, precision, f, va))
            else if d = ch CHR ''*''
            then bnd (va_arg va) (\<lambda>(v, va). let prec = ucast v :: u32 in
                   Inr (flags, if sint prec > 0 then prec else 0, f', va))
            else Inr (flags, 0, f, va))"
| "readPrecision [] flags va = Inr (flags, 0, [], va)"

text \<open>\<open>ptrdiff_t\<close>, \<open>intmax_t\<close> and \<open>size_t\<close> have the size of \<open>long\<close>.\<close>

fun readLength :: "u8 list \<Rightarrow> u32 \<Rightarrow> u32 \<times> u8 list" where
  "readLength (c # f) flags =
     (if c = ch CHR ''l''
      then let flags = flags OR FLAGS_LONG in
        (case f of [] \<Rightarrow> (flags, f)
         | d # f' \<Rightarrow> if d = ch CHR ''l'' then (flags OR FLAGS_LONG_LONG, f') else (flags, f))
      else if c = ch CHR ''h''
      then let flags = flags OR FLAGS_SHORT in
        (case f of [] \<Rightarrow> (flags, f)
         | d # f' \<Rightarrow> if d = ch CHR ''h'' then (flags OR FLAGS_CHAR, f') else (flags, f))
      else if c = ch CHR ''t'' \<or> c = ch CHR ''j'' \<or> c = ch CHR ''z'' then (flags OR FLAGS_LONG, f)
      else (flags, c # f))"
| "readLength [] flags = (flags, [])"

text \<open>The whole of \<open>%[flags][width][.precision][length]\<close>, the character of the conversion not included.\<close>

definition readSpec :: "u8 list \<Rightarrow> u64 list \<Rightarrow> (u32 \<times> u32 \<times> u32 \<times> u8 list \<times> u64 list) res" where
  "readSpec f va =
     (case readFlags f 0 of (flags, f) \<Rightarrow>
      bnd (readWidth f flags va) (\<lambda>(flags, width, f, va).
      bnd (readPrecision f flags va) (\<lambda>(flags, precision, f, va).
      case readLength f flags of (flags, f) \<Rightarrow> Inr (flags, width, precision, f, va))))"

lemma readFlags_length: "readFlags f flags = (flags', f') \<Longrightarrow> length f' \<le> length f"
  by (induction f flags rule: readFlags.induct) (auto split: if_splits)

lemma atoi_length: "atoi f i = (n, f') \<Longrightarrow> length f' \<le> length f"
  by (induction f i rule: atoi.induct) (auto split: if_splits)

lemma readWidth_length: "readWidth f flags va = Inr (flags', w, f', va') \<Longrightarrow> length f' \<le> length f"
  by (cases "(f, flags, va)" rule: readWidth.cases)
    (auto simp: bnd_eq_Inr Let_def split: if_splits prod.splits dest: atoi_length)

lemma readPrecision_length: "readPrecision f flags va = Inr (flags', w, f', va') \<Longrightarrow> length f' \<le> length f"
  by (cases "(f, flags, va)" rule: readPrecision.cases)
    (auto simp: bnd_eq_Inr Let_def split: if_splits prod.splits list.splits dest: atoi_length)

lemma readLength_length: "readLength f flags = (flags', f') \<Longrightarrow> length f' \<le> length f"
  by (cases "(f, flags)" rule: readLength.cases) (auto simp: Let_def split: if_splits list.splits)

lemma readSpec_length:
  assumes "readSpec f va = Inr (flags, w, p, f', va')"
  shows "length f' \<le> length f"
proof -
  obtain fl1 f1 where 1: "readFlags f 0 = (fl1, f1)" by (cases "readFlags f 0")
  obtain fl2 w2 f2 va2 where 2: "readWidth f1 fl1 va = Inr (fl2, w2, f2, va2)"
    using assms 1 by (auto simp: readSpec_def bnd_eq_Inr)
  obtain fl3 p3 f3 va3 where 3: "readPrecision f2 fl2 va2 = Inr (fl3, p3, f3, va3)"
    using assms 1 2 by (auto simp: readSpec_def bnd_eq_Inr)
  obtain fl4 f4 where 4: "readLength f3 fl3 = (fl4, f4)" by (cases "readLength f3 fl3")
  have "f' = f4" using assms 1 2 3 4 by (simp add: readSpec_def)
  with readPrecision_length [OF 3] readLength_length [OF 4]
    readFlags_length [OF 1] readWidth_length [OF 2] show ?thesis by simp
qed

subsection \<open>The loop over the format\<close>

lemma bndO_cong [fundef_cong]:
  "r = r' \<Longrightarrow> (\<And>x. r' = Some (Inr x) \<Longrightarrow> f x = g x) \<Longrightarrow> bndO r f = bndO r' g"
  by (auto simp: bndO_def split: option.splits sum.splits)

text \<open>The last step of an iteration, \<open>format++\<close>, is past the terminator when a \<open>%\<close> has no conversion.\<close>

function formatLoop :: "out_fct \<Rightarrow> u8 list \<Rightarrow> u64 list \<Rightarrow> u64 \<Rightarrow> out_state \<Rightarrow> (u64 \<times> out_state) ores" where
  "formatLoop out [] va idx s = Some (Inr (idx, s))"
| "formatLoop out (c # f) va idx s =
     (if c \<noteq> ch CHR ''%''
      then let (idx, s) = emit out [c] idx s in formatLoop out f va idx s
      else bndO (Some (readSpec f va)) (\<lambda>(flags, width, precision, f, va).
        case f of
          [] \<Rightarrow> Some (Inl OutOfBounds)
        | c # f \<Rightarrow> bndO (convert out c flags width precision va idx s) (\<lambda>(idx, va, s). formatLoop out f va idx s)))"
  by pat_completeness auto
termination
  by (relation "measure (\<lambda>(out, f, va, idx, s). length f)") (auto dest: readSpec_length)

declare formatLoop.simps(2) [simp del]

definition vsnprintf_internal ::
    "(u64 \<Rightarrow> u64 \<Rightarrow> out_fct) \<Rightarrow> u64 \<Rightarrow> u64 \<Rightarrow> u8 list \<Rightarrow> u64 list \<Rightarrow> out_state \<Rightarrow> (u32 \<times> out_state) ores" where
  "vsnprintf_internal out_fn buffer maxlen format va s =
     (let out = (if buffer = 0 then out_null else out_fn buffer maxlen)
      in bndO (formatLoop out format va 0 s) (\<lambda>(idx, s).
         let s = out 0 (if idx < maxlen then idx else maxlen - 1) s
         in Some (Inr (ucast idx, s))))"

subsection \<open>The functions of printf.h\<close>

text \<open>\<open>stk\<close> is the address of the local that a function passes as its buffer, which is not null.\<close>

definition printf_fn :: "u64 \<Rightarrow> u8 list \<Rightarrow> u64 list \<Rightarrow> out_state \<Rightarrow> (u32 \<times> out_state) ores" where
  "printf_fn stk format va s =
     bndO (Some (spinlockAcquire (printfSpinlock s))) (\<lambda>l.
     bndO (vsnprintf_internal (\<lambda>_ _. out_char) stk (- 1) format va (s\<lparr>printfSpinlock := l\<rparr>)) (\<lambda>(ret, s).
       Some (Inr (ret, s\<lparr>printfSpinlock := spinlockDrop (printfSpinlock s)\<rparr>))))"

definition sprintf_fn :: "u64 \<Rightarrow> u8 list \<Rightarrow> u64 list \<Rightarrow> out_state \<Rightarrow> (u32 \<times> out_state) ores" where
  "sprintf_fn buffer format va s = vsnprintf_internal out_buffer buffer (- 1) format va s"

definition snprintf_fn :: "u64 \<Rightarrow> u64 \<Rightarrow> u8 list \<Rightarrow> u64 list \<Rightarrow> out_state \<Rightarrow> (u32 \<times> out_state) ores" where
  "snprintf_fn buffer count format va s = vsnprintf_internal out_buffer buffer count format va s"

definition vprintf_fn :: "u64 \<Rightarrow> u8 list \<Rightarrow> u64 list \<Rightarrow> out_state \<Rightarrow> (u32 \<times> out_state) ores" where
  "vprintf_fn stk format va s = vsnprintf_internal (\<lambda>_ _. out_char) stk (- 1) format va s"

definition vsnprintf_fn :: "u64 \<Rightarrow> u64 \<Rightarrow> u8 list \<Rightarrow> u64 list \<Rightarrow> out_state \<Rightarrow> (u32 \<times> out_state) ores" where
  "vsnprintf_fn buffer count format va s = vsnprintf_internal out_buffer buffer count format va s"

definition fctprintf :: "u64 \<Rightarrow> u8 list \<Rightarrow> u64 list \<Rightarrow> out_state \<Rightarrow> (u32 \<times> out_state) ores" where
  "fctprintf stk format va s = vsnprintf_internal (\<lambda>_ _. out_fct_call) stk (- 1) format va s"

end
