(* ===== verification/Console.thy ===== *)
theory Console
  imports Machine Printf
begin

section \<open>The console: serial line, terminal and framebuffer (driver/log, driver/fb.c)\<close>

text \<open>
  \<open>_putchar\<close>, to which \<open>printf\<close> gives its characters, sends each to the serial port and to the
  terminal. The UART is part of the machine. The terminal is the library flanterm, which is not
  part of the repository: its two functions are the parameter \<open>T\<close>, with an effect on the state
  of the devices. The static variables are fields of the state.
\<close>

record 's flanterm =
  fbTermInit :: "u64 \<Rightarrow> u64 \<Rightarrow> u64 \<Rightarrow> u64 \<Rightarrow> u8 list \<Rightarrow> u32 \<Rightarrow> 's \<Rightarrow> u64 \<times> 's"
  termWrite :: "u64 \<Rightarrow> u8 list \<Rightarrow> 's \<Rightarrow> 's"

record 's con_state = "'s dev_state" +
  serialSpinlock :: Spinlock
  fbMain :: u64
  flantermCtx :: u64
  termInitialized :: bool

subsection \<open>Serial port\<close>

definition COM1 :: u16 where "COM1 = 0x3F8"

definition serialIsEmpty :: "'s machine \<Rightarrow> ('s, 'a) con_state_scheme \<Rightarrow> u32 \<times> ('s, 'a) con_state_scheme" where
  "serialIsEmpty M k = (case in8 M (COM1 + 5) k of (v, k) \<Rightarrow> (ucast v AND 0x20, k))"

partial_function (option) serialWait ::
    "'s machine \<Rightarrow> ('s, 'a) con_state_scheme \<Rightarrow> ('s, 'a) con_state_scheme option" where
  "serialWait M k = (case serialIsEmpty M k of (e, k) \<Rightarrow> if e = 0 then serialWait M k else Some k)"

declare serialWait.simps [code]

definition serialPutc :: "'s machine \<Rightarrow> u8 \<Rightarrow> ('s, 'a) con_state_scheme \<Rightarrow> ('s, 'a) con_state_scheme ores" where
  "serialPutc M c k =
     bndO (Some (spinlockAcquire (serialSpinlock k))) (\<lambda>l.
     bndO (map_option Inr (serialWait M (k\<lparr>serialSpinlock := l\<rparr>))) (\<lambda>k.
     let k = out8 M COM1 c k
     in Some (Inr (k\<lparr>serialSpinlock := spinlockDrop (serialSpinlock k)\<rparr>))))"

definition serialInit :: "'s machine \<Rightarrow> ('s, 'a) con_state_scheme \<Rightarrow> ('s, 'a) con_state_scheme" where
  "serialInit M k =
     (let k = out8 M (COM1 + 1) 0x00 k;
          k = out8 M (COM1 + 3) 0x80 k;
          k = out8 M (COM1 + 0) 0x03 k;
          k = out8 M (COM1 + 1) 0x00 k;
          k = out8 M (COM1 + 3) 0x03 k;
          k = out8 M (COM1 + 2) 0xC7 k;
          k = out8 M (COM1 + 4) 0x0B k;
          k = out8 M (COM1 + 4) 0x1E k;
          k = out8 M (COM1 + 0) 0xAE k
      in case in8 M (COM1 + 0) k of (v, k) \<Rightarrow> if v \<noteq> 0xAE then k else out8 M (COM1 + 4) 0x0F k)"

subsection \<open>Framebuffer\<close>

text \<open>\<open>response\<close> is the address of the boot loader's answer, or 0. The field is read for the log.\<close>

definition fbInit :: "u64 \<Rightarrow> ('s, 'a) con_state_scheme \<Rightarrow> ('s, 'a) con_state_scheme res" where
  "fbInit response k =
     (if response = 0 \<or> load64 (mem k) (response + 16) = 0 then Inl (PanicMsg ''no framebuffers found!'')
      else let k = k\<lparr>fbMain := load64 (mem k) (load64 (mem k) (response + 16))\<rparr>
           in deref (fbMain k) (Inr k))"

definition fbGetMainFb :: "('s, 'a) con_state_scheme \<Rightarrow> u64" where
  "fbGetMainFb k = fbMain k"

subsection \<open>Terminal\<close>

text \<open>Address, width, height, pitch, then the six mask sizes and shifts; \<open>fg\<close> is the text colour.\<close>

definition fg :: u32 where "fg = 0x00ffffff"

definition fbMasks :: "mem \<Rightarrow> u64 \<Rightarrow> u8 list" where
  "fbMasks m fb = map (\<lambda>i. m (fb + of_nat i)) [35, 36, 37, 38, 39, 40]"

definition termInit :: "'s flanterm \<Rightarrow> ('s, 'a) con_state_scheme \<Rightarrow> ('s, 'a) con_state_scheme res" where
  "termInit T k =
     (let fb = fbGetMainFb k; m = mem k in
      deref fb
       (case fromMach (fbTermInit T (load64 m fb) (load64 m (fb + 8)) (load64 m (fb + 16)) (load64 m (fb + 24)) (fbMasks m fb) fg) k of
          (ctx, k) \<Rightarrow>
            let k = k\<lparr>flantermCtx := ctx\<rparr>
            in if flantermCtx k = 0 then Inr k else Inr (k\<lparr>termInitialized := True\<rparr>)))"

definition termPutc :: "'s flanterm \<Rightarrow> u8 \<Rightarrow> ('s, 'a) con_state_scheme \<Rightarrow> ('s, 'a) con_state_scheme" where
  "termPutc T c k =
     (if \<not> termInitialized k then k
      else let k = (if c = ch (CHR 0x0A) then onMach (termWrite T (flantermCtx k) [ch (CHR 0x0D)]) k else k)
           in onMach (termWrite T (flantermCtx k) [c]) k)"

definition putchar :: "'s machine \<Rightarrow> 's flanterm \<Rightarrow> u8 \<Rightarrow> ('s, 'a) con_state_scheme \<Rightarrow> ('s, 'a) con_state_scheme ores" where
  "putchar M T c k = bndO (serialPutc M c k) (\<lambda>k. Some (Inr (termPutc T c k)))"

text \<open>What \<open>printf\<close> does with the text it prints, one character after the other.\<close>

primrec putchars :: "'s machine \<Rightarrow> 's flanterm \<Rightarrow> u8 list \<Rightarrow> ('s, 'a) con_state_scheme \<Rightarrow> ('s, 'a) con_state_scheme ores" where
  "putchars M T [] k = Some (Inr k)"
| "putchars M T (c # cs) k = bndO (putchar M T c k) (\<lambda>k. putchars M T cs k)"

subsection \<open>A UART\<close>

text \<open>
  Reading the line status register takes time off; once none is left the transmitter is empty
  (bit 5), and a byte written then is sent. What it has sent is \<open>sent\<close>, and how often the status
  still has to be read is \<open>busy\<close>. The other registers do not matter here.
\<close>

definition uart :: "'s machine \<Rightarrow> ('s \<Rightarrow> u8 list) \<Rightarrow> ('s \<Rightarrow> nat) \<Rightarrow> bool" where
  "uart M sent busy \<longleftrightarrow>
     (\<forall>s. sent (snd (pin8 M (COM1 + 5) s)) = sent s \<and> busy (snd (pin8 M (COM1 + 5) s)) = busy s - 1
        \<and> (bit (fst (pin8 M (COM1 + 5) s)) 5 \<longleftrightarrow> busy s = 0))
     \<and> (\<forall>s c. busy s = 0 \<longrightarrow> sent (pout8 M COM1 c s) = sent s @ [c])"

text \<open>A terminal that shows what is written to it, and does not disturb the UART, nor the UART it.\<close>

definition terminal :: "'s machine \<Rightarrow> 's flanterm \<Rightarrow> ('s \<Rightarrow> u8 list) \<Rightarrow> ('s \<Rightarrow> u8 list) \<Rightarrow> bool" where
  "terminal M T sent shown \<longleftrightarrow>
     (\<forall>ctx cs s. shown (termWrite T ctx cs s) = shown s @ cs \<and> sent (termWrite T ctx cs s) = sent s)
     \<and> (\<forall>s c. shown (snd (pin8 M (COM1 + 5) s)) = shown s \<and> shown (pout8 M COM1 c s) = shown s)"

lemma status_bit: "ucast (v :: u8) AND 0x20 = (0 :: u32) \<longleftrightarrow> \<not> bit v 5"
proof -
  have "ucast v AND (2 ^ 5 :: u32) = 0 \<longleftrightarrow> \<not> bit (ucast v :: u32) 5" by (rule and_exp_eq_0_iff_not_bit)
  then show ?thesis by (simp add: bit_simps)
qed

lemma serialWait_ends:
  assumes "uart M sent busy"
  shows "\<exists>s. serialWait M k = Some (k\<lparr>mach := s\<rparr>) \<and> sent s = sent (mach k) \<and> busy s = 0
    \<and> (terminal M T sent shown \<longrightarrow> shown s = shown (mach k))"
proof (induction "busy (mach k)" arbitrary: k rule: less_induct)
  case less
  obtain v s where r: "pin8 M (COM1 + 5) (mach k) = (v, s)" by (cases "pin8 M (COM1 + 5) (mach k)")
  have s: "sent s = sent (mach k)" "busy s = busy (mach k) - 1" "bit v 5 \<longleftrightarrow> busy (mach k) = 0"
    using assms r unfolding uart_def by (metis fst_conv snd_conv)+
  have t: "terminal M T sent shown \<longrightarrow> shown s = shown (mach k)"
    using r unfolding terminal_def by (metis snd_conv)
  have e: "serialIsEmpty M k = (ucast v AND 0x20, k\<lparr>mach := s\<rparr>)"
    using r by (simp add: serialIsEmpty_def in8_def fromMach_def)
  show ?case
  proof (cases "bit v 5")
    case True
    then show ?thesis using s t by (intro exI [of _ s]) (simp add: serialWait.simps [of M k] e status_bit)
  next
    case False
    then have "busy (mach (k\<lparr>mach := s\<rparr>)) < busy (mach k)" using s by simp
    from less [OF this] obtain s' where "serialWait M (k\<lparr>mach := s\<rparr>) = Some (k\<lparr>mach := s'\<rparr>)" "sent s' = sent s" "busy s' = 0"
        "terminal M T sent shown \<longrightarrow> shown s' = shown s" by auto
    with False s t show ?thesis by (intro exI [of _ s']) (simp add: serialWait.simps [of M k] e status_bit)
  qed
qed

lemma serialPutc_sends:
  assumes "uart M sent busy" and "\<not> serialSpinlock k"
  shows "\<exists>s. serialPutc M c k = Some (Inr (k\<lparr>mach := s\<rparr>)) \<and> sent s = sent (mach k) @ [c]
    \<and> (terminal M T sent shown \<longrightarrow> shown s = shown (mach k))"
proof -
  obtain s where s: "serialWait M (k\<lparr>serialSpinlock := True\<rparr>) = Some (k\<lparr>serialSpinlock := True, mach := s\<rparr>)"
      "sent s = sent (mach k)" "busy s = 0" "terminal M T sent shown \<longrightarrow> shown s = shown (mach k)"
    using serialWait_ends [OF assms(1), of "k\<lparr>serialSpinlock := True\<rparr>"] by auto
  show ?thesis
  proof (intro exI conjI)
    show "serialPutc M c k = Some (Inr (k\<lparr>mach := pout8 M COM1 c s\<rparr>))"
      using assms(2) s(1) by (simp add: serialPutc_def out8_def onMach_def)
    show "sent (pout8 M COM1 c s) = sent (mach k) @ [c]" using assms(1) s(2,3) by (simp add: uart_def)
    show "terminal M T sent shown \<longrightarrow> shown (pout8 M COM1 c s) = shown (mach k)" using s(4) by (simp add: terminal_def)
  qed
qed

definition crlf :: "u8 list \<Rightarrow> u8 list" where
  "crlf cs = concat (map (\<lambda>c. if c = ch (CHR 0x0A) then [ch (CHR 0x0D), c] else [c]) cs)"

lemma termPutc_shows:
  assumes "terminal M T sent shown"
  shows "\<exists>s. termPutc T c k = k\<lparr>mach := s\<rparr> \<and> sent s = sent (mach k)
    \<and> shown s = shown (mach k) @ (if termInitialized k then crlf [c] else [])"
proof -
  have w: "shown (termWrite T ctx cs s) = shown s @ cs" "sent (termWrite T ctx cs s) = sent s" for ctx cs s
    using assms by (simp_all add: terminal_def)
  show ?thesis
  proof (cases "termInitialized k")
    case True
    let ?s = "if c = ch (CHR 0x0A) then termWrite T (flantermCtx k) [ch (CHR 0x0D)] (mach k) else mach k"
    have "termPutc T c k = k\<lparr>mach := termWrite T (flantermCtx k) [c] ?s\<rparr>"
      using True by (simp add: termPutc_def onMach_def)
    with True w show ?thesis by (intro exI [of _ "termWrite T (flantermCtx k) [c] ?s"]) (simp add: crlf_def)
  next
    case False
    then show ?thesis by (intro exI [of _ "mach k"]) (simp add: termPutc_def)
  qed
qed

lemma putchars_shown:
  assumes "uart M sent busy" and "terminal M T sent shown" and "\<not> serialSpinlock k"
  shows "\<exists>s. putchars M T cs k = Some (Inr (k\<lparr>mach := s\<rparr>)) \<and> sent s = sent (mach k) @ cs
    \<and> shown s = shown (mach k) @ (if termInitialized k then crlf cs else [])"
  using assms(3)
proof (induction cs arbitrary: k)
  case Nil
  then show ?case by (intro exI [of _ "mach k"]) (simp add: crlf_def)
next
  case (Cons c cs)
  obtain s where s: "serialPutc M c k = Some (Inr (k\<lparr>mach := s\<rparr>))" "sent s = sent (mach k) @ [c]" "shown s = shown (mach k)"
    using serialPutc_sends [OF assms(1) Cons.prems, of c T shown] assms(2) by blast
  obtain t where t: "termPutc T c (k\<lparr>mach := s\<rparr>) = k\<lparr>mach := t\<rparr>" "sent t = sent s"
      "shown t = shown s @ (if termInitialized k then crlf [c] else [])"
    using termPutc_shows [OF assms(2), of c "k\<lparr>mach := s\<rparr>"] by auto
  obtain u where "putchars M T cs (k\<lparr>mach := t\<rparr>) = Some (Inr (k\<lparr>mach := u\<rparr>))" "sent u = sent t @ cs"
      "shown u = shown t @ (if termInitialized k then crlf cs else [])"
    using Cons.IH [of "k\<lparr>mach := t\<rparr>"] Cons.prems by auto
  with s t show ?case by (intro exI [of _ u]) (simp add: putchar_def crlf_def)
qed

subsection \<open>A UART that is never ready\<close>

lemma serialWait_ready:
  fixes M :: "'s machine" and k :: "('s, 'a) con_state_scheme"
  assumes "serialWait M k = Some k'"
  shows "\<exists>s. bit (fst (pin8 M (COM1 + 5) s)) 5"
  using assms
proof (rule serialWait.raw_induct [where P = "\<lambda>M k k'. \<exists>s. bit (fst (pin8 M (COM1 + 5) s)) 5", rotated])
  fix f :: "'s machine \<Rightarrow> ('s, 'a) con_state_scheme \<Rightarrow> ('s, 'a) con_state_scheme option" and M k k'
  assume IH: "\<And>M k k'. f M k = Some k' \<Longrightarrow> \<exists>s. bit (fst (pin8 M (COM1 + 5) s)) 5"
    and e: "(case serialIsEmpty M k of (e, k) \<Rightarrow> if e = 0 then f M k else Some k) = Some k'"
  show "\<exists>s. bit (fst (pin8 M (COM1 + 5) s)) 5"
  proof (cases "bit (fst (pin8 M (COM1 + 5) (mach k))) 5")
    case False
    with e obtain k1 where "f M k1 = Some k'"
      by (auto simp: serialIsEmpty_def in8_def fromMach_def status_bit split: prod.splits)
    then show ?thesis by (rule IH)
  qed blast
qed

subsection \<open>Properties\<close>

text \<open>C30: With a UART and a terminal that work, giving a text to \<open>_putchar\<close> ends, sends exactly this
  text on the serial line, shows it on the terminal with a carriage return before every line
  feed when the terminal is initialised, and leaves the lock free; nothing else changes.\<close>

theorem console_shows_text:
  assumes "uart M sent busy" and "terminal M T sent shown" and "\<not> serialSpinlock k"
  shows "\<exists>s. putchars M T cs k = Some (Inr (k\<lparr>mach := s\<rparr>)) \<and> sent s = sent (mach k) @ cs
    \<and> shown s = shown (mach k) @ (if termInitialized k then crlf cs else [])"
  by (rule putchars_shown [OF assms])

text \<open>A UART that is busy for a while, and a terminal; the state is (sent, busy, shown).\<close>

definition demoUart :: "(u8 list \<times> nat \<times> u8 list) machine" where
  "demoUart =
     \<lparr>pout8 = (\<lambda>p v (t, b, w). if p = 0x3F8 then (t @ [v], 3, w) else (t, b, w)),
      pout16 = (\<lambda>p v s. s), pout32 = (\<lambda>p v s. s),
      pin8 = (\<lambda>p (t, b, w). if p = 0x3FD then (if b = 0 then 0x60 else 0, (t, b - 1, w)) else (0, (t, b, w))),
      pin32 = (\<lambda>p s. (0, s)), mread = (\<lambda>a s. (0, s)), mwrite8 = (\<lambda>a v s. s), mwrite16 = (\<lambda>a v s. s),
      mwrite = (\<lambda>a v s. s), mwrite64 = (\<lambda>a v s. s), msrRead = (\<lambda>r s. ((0, 0), s)), msrWrite = (\<lambda>r l h s. s),
      cpuidEdx = (\<lambda>l s. 0)\<rparr>"

definition demoTerm :: "(u8 list \<times> nat \<times> u8 list) flanterm" where
  "demoTerm = \<lparr>fbTermInit = (\<lambda>a w h p ms c s. (1, s)), termWrite = (\<lambda>ctx cs (t, b, w). (t, b, w @ cs))\<rparr>"

definition demoConsole :: "(u8 list \<times> nat \<times> u8 list) con_state" where
  "demoConsole =
     \<lparr>mem = mem demoVmm, hhdm = hhdm demoVmm, pmmBitmap = pmmBitmap demoVmm, pmmSpinlock = False,
      p4 = p4 demoVmm, walkSpinlock = False, cr3 = cr3 demoVmm, invalidated = [], mach = ([], 2, []),
      serialSpinlock = False, fbMain = 0x1000, flantermCtx = 1, termInitialized = True\<rparr>"

lemma demo_uart: "uart demoUart fst (\<lambda>s. fst (snd s))" and demo_term: "terminal demoUart demoTerm fst (\<lambda>s. snd (snd s))"
  by (auto simp: uart_def terminal_def demoUart_def demoTerm_def COM1_def)

theorem console_shows_text_witness:
  "\<exists>s. putchars demoUart demoTerm [ch CHR ''o'', ch CHR ''k'', 10] demoConsole = Some (Inr (demoConsole\<lparr>mach := s\<rparr>))
     \<and> fst s = [ch CHR ''o'', ch CHR ''k'', 10] \<and> snd (snd s) = [ch CHR ''o'', ch CHR ''k'', 13, 10]"
  using console_shows_text [OF demo_uart demo_term, of demoConsole "[ch CHR ''o'', ch CHR ''k'', 10]"]
  by (auto simp: demoConsole_def crlf_def)

text \<open>When the status register never says that the transmitter is empty, as with no serial port
  behind the address, \<open>serialPutc\<close> does not return, and neither does \<open>_putchar\<close>: there is no time-out,
  and \<open>serialInit\<close> does not tell anyone that its self-test failed.\<close>

theorem serialPutc_stuck:
  assumes "\<forall>s. \<not> bit (fst (pin8 M (COM1 + 5) s)) 5" and "\<not> serialSpinlock k"
  shows "serialPutc M c k = None \<and> putchar M T c k = None"
proof
  have "serialWait M (k\<lparr>serialSpinlock := True\<rparr>) = None"
    using serialWait_ready [of M "k\<lparr>serialSpinlock := True\<rparr>"] assms(1) by (cases "serialWait M (k\<lparr>serialSpinlock := True\<rparr>)") auto
  then show "serialPutc M c k = None" using assms(2) by (simp add: serialPutc_def)
  then show "putchar M T c k = None" by (simp add: putchar_def)
qed

theorem serialPutc_stuck_witness:
  "serialPutc (demoUart\<lparr>pin8 := \<lambda>p s. (0, s)\<rparr>) 65 demoConsole = None
     \<and> putchar (demoUart\<lparr>pin8 := \<lambda>p s. (0, s)\<rparr>) demoTerm 65 demoConsole = None"
  by (rule serialPutc_stuck) (simp_all add: demoConsole_def)

end
