(* ===== verification/PrintfSpec.thy ===== *)
theory PrintfSpec
  imports Printf
begin

section \<open>What the formatter prints\<close>

text \<open>
  The text of a call does not depend on where it goes: every function of \<open>printf.c\<close> that prints
  is \<open>emit\<close> of a text given here by a function without state. \<open>fmtText\<close> is the text of a whole
  format; its arguments carry, for a \<open>%s\<close>, the string that the pointer points to.
\<close>

subsection \<open>Texts are emitted\<close>

lemma emit_append: "emit out (cs @ ds) idx s = (case emit out cs idx s of (idx, s) \<Rightarrow> emit out ds idx s)"
  by (induction cs arbitrary: idx s) simp_all

lemma emit_idx: "fst (emit out cs idx s) = idx + of_nat (length cs)"
  by (induction cs arbitrary: idx s) (simp_all add: algebra_simps)

lemma emit_parts: "emit out cs idx s = (idx + of_nat (length cs), snd (emit out cs idx s))"
  using emit_idx [of out cs idx s] by (cases "emit out cs idx s") simp

definition revText :: "u8 list \<Rightarrow> u32 \<Rightarrow> u32 \<Rightarrow> u8 list" where
  "revText buf width flags =
     (if \<not> has flags FLAGS_LEFT \<and> \<not> has flags FLAGS_ZEROPAD then spaces (unat width - length buf) else [])
     @ rev buf @ (if has flags FLAGS_LEFT then spaces (unat width - length buf) else [])"

lemma outRev_text:
  assumes "length buf < 2 ^ 64"
  shows "outRev out idx buf width flags s = emit out (revText buf width flags) idx s"
proof (cases "has flags FLAGS_LEFT")
  case True
  obtain s1 where e: "emit out (rev buf) idx s = (idx + of_nat (length buf), s1)"
    using emit_parts [of out "rev buf" idx s] by auto
  show ?thesis
    using True e unat_of_nat64 [OF assms] by (simp add: outRev_def revText_def emit_append)
qed (simp add: outRev_def revText_def emit_append split: prod.splits)

definition ntoaText :: "u64 \<Rightarrow> bool \<Rightarrow> u64 \<Rightarrow> u32 \<Rightarrow> u32 \<Rightarrow> u32 \<Rightarrow> u8 list" where
  "ntoaText v negative base prec width flags =
     (let flags = (if v = 0 then flags AND NOT FLAGS_HASH else flags);
          buf = (if \<not> has flags FLAGS_PRECISION \<or> v \<noteq> 0 then ntoaDigits v base flags [] else []);
          width = (if \<not> has flags FLAGS_LEFT \<and> width \<noteq> 0 \<and> has flags FLAGS_ZEROPAD
                      \<and> (negative \<or> has flags (FLAGS_PLUS OR FLAGS_SPACE)) then width - 1 else width)
      in revText (ntoaSign (ntoaHash (ntoaZeros buf prec width flags) (ucast base) prec width flags) negative flags) width flags)"

lemma ntoaDigits_length: "length buf < NTOA_BUFFER_SIZE \<Longrightarrow> length (ntoaDigits v base flags buf) \<le> NTOA_BUFFER_SIZE"
proof (induction v base flags buf rule: ntoaDigits.induct)
  case (1 v base flags buf)
  show ?case
    unfolding ntoaDigits.simps [of v base flags buf] Let_def using 1 by (auto simp del: ntoaDigits.simps)
qed

lemma buffer_lengths:
  "length buf \<le> NTOA_BUFFER_SIZE \<Longrightarrow> length (padZeros n buf) \<le> NTOA_BUFFER_SIZE"
  "length buf \<le> NTOA_BUFFER_SIZE \<Longrightarrow> length (putBuf c buf) \<le> NTOA_BUFFER_SIZE"
  "length buf \<le> NTOA_BUFFER_SIZE \<Longrightarrow> length (ntoaZeros buf prec width flags) \<le> NTOA_BUFFER_SIZE"
  "length buf \<le> NTOA_BUFFER_SIZE \<Longrightarrow> length (ntoaHash buf base prec width flags) \<le> NTOA_BUFFER_SIZE"
  "length buf \<le> NTOA_BUFFER_SIZE \<Longrightarrow> length (ntoaSign buf negative flags) \<le> NTOA_BUFFER_SIZE"
proof -
  show p: "length (padZeros n buf) \<le> NTOA_BUFFER_SIZE" if "length buf \<le> NTOA_BUFFER_SIZE" for n buf
    using that by (simp add: padZeros_def)
  show q: "length (putBuf c buf) \<le> NTOA_BUFFER_SIZE" if "length buf \<le> NTOA_BUFFER_SIZE" for c buf
    using that by (simp add: putBuf_def)
  show "length (ntoaZeros buf prec width flags) \<le> NTOA_BUFFER_SIZE" if "length buf \<le> NTOA_BUFFER_SIZE"
    using that p by (simp add: ntoaZeros_def Let_def)
  have trim: "length (if P then if Q then butlast (butlast buf) else butlast buf else buf) \<le> NTOA_BUFFER_SIZE"
    if "length buf \<le> NTOA_BUFFER_SIZE" for P Q and buf :: "u8 list"
    using that by auto
  have step: "length (if P \<and> length b < NTOA_BUFFER_SIZE then b @ [x]
      else if Q \<and> length b < NTOA_BUFFER_SIZE then b @ [y]
      else if R \<and> length b < NTOA_BUFFER_SIZE then b @ [z] else b) \<le> NTOA_BUFFER_SIZE"
    if "length b \<le> NTOA_BUFFER_SIZE" for P Q R x y z and b :: "u8 list"
    using that by simp
  show "length (ntoaHash buf base prec width flags) \<le> NTOA_BUFFER_SIZE" if "length buf \<le> NTOA_BUFFER_SIZE"
  proof (cases "has flags FLAGS_HASH")
    case True
    then show ?thesis
      unfolding ntoaHash_def Let_def if_P [OF True] conj_assoc [symmetric]
      by (intro q step trim that)
  qed (use that in \<open>simp add: ntoaHash_def\<close>)
  show "length (ntoaSign buf negative flags) \<le> NTOA_BUFFER_SIZE" if "length buf \<le> NTOA_BUFFER_SIZE"
    using that q by (simp add: ntoaSign_def)
qed

lemma ntoa_text:
  "ntoaLong out idx v negative base prec width flags s = emit out (ntoaText v negative base prec width flags) idx s"
  "ntoaLongLong out idx v negative base prec width flags s = emit out (ntoaText v negative base prec width flags) idx s"
proof -
  have len: "length (ntoaSign (ntoaHash (ntoaZeros (if b then ntoaDigits v base f [] else []) prec w f) c prec w f) negative f) < 2 ^ 64"
    for b f w c
  proof -
    have "length (if b then ntoaDigits v base f [] else []) \<le> NTOA_BUFFER_SIZE"
      using ntoaDigits_length [of "[]"] by (simp add: NTOA_BUFFER_SIZE_def)
    from buffer_lengths(5) [OF buffer_lengths(4) [OF buffer_lengths(3) [OF this]]]
    show ?thesis by (rule le_less_trans) (simp add: NTOA_BUFFER_SIZE_def)
  qed
  show "ntoaLong out idx v negative base prec width flags s = emit out (ntoaText v negative base prec width flags) idx s"
    unfolding ntoaLong_def ntoaFormat_def ntoaText_def Let_def by (rule outRev_text [OF len])
  then show "ntoaLongLong out idx v negative base prec width flags s = emit out (ntoaText v negative base prec width flags) idx s"
    by (simp add: ntoaLong_def ntoaLongLong_def)
qed

lemma ntoaText_length: "length (revText buf width flags) = max (unat width) (length buf) \<or> length (revText buf width flags) = length buf"
  by (auto simp: revText_def)

subsection \<open>The text of each conversion\<close>

definition intText :: "u8 \<Rightarrow> u32 \<Rightarrow> u32 \<Rightarrow> u32 \<Rightarrow> u64 \<Rightarrow> u8 list" where
  "intText c flags width precision v =
     (let (base, flags) = intFlags c flags
      in if c = ch CHR ''i'' \<or> c = ch CHR ''d''
         then if has flags FLAGS_LONG_LONG \<or> has flags FLAGS_LONG
              then ntoaText (if sint v > 0 then v else 0 - v) (sint v < 0) base precision width flags
              else let value = (if has flags FLAGS_CHAR then scast (ucast v :: u8)
                                else if has flags FLAGS_SHORT then scast (ucast v :: u16) else ucast v :: u32)
                   in ntoaText (ucast (if sint value > 0 then value else 0 - value)) (sint value < 0) base precision width flags
         else if has flags FLAGS_LONG_LONG \<or> has flags FLAGS_LONG
              then ntoaText v False base precision width flags
              else let value = (if has flags FLAGS_CHAR then ucast (ucast v :: u8)
                                else if has flags FLAGS_SHORT then ucast (ucast v :: u16) else ucast v :: u32)
                   in ntoaText (ucast value) False base precision width flags)"

definition charText :: "u32 \<Rightarrow> u32 \<Rightarrow> u64 \<Rightarrow> u8 list" where
  "charText flags width v =
     (let pad = spaces (unat width - 1) in if has flags FLAGS_LEFT then ucast v # pad else pad @ [ucast v])"

definition shownText :: "u32 \<Rightarrow> u32 \<Rightarrow> u8 list \<Rightarrow> u8 list" where
  "shownText flags precision t = (if has flags FLAGS_PRECISION then take (unat precision) t else t)"

definition strText :: "u32 \<Rightarrow> u32 \<Rightarrow> u32 \<Rightarrow> u8 list \<Rightarrow> u8 list" where
  "strText flags width precision t =
     (let shown = shownText flags precision t;
          pad = spaces (unat width - length shown)
      in if has flags FLAGS_LEFT then shown @ pad else pad @ shown)"

definition pointerText :: "u32 \<Rightarrow> u32 \<Rightarrow> u64 \<Rightarrow> u8 list" where
  "pointerText flags precision v = ntoaText v False 16 precision 16 (flags OR (FLAGS_ZEROPAD OR FLAGS_UPPERCASE))"

lemma emit_prod: "(case emit out cs idx s of (idx, s) \<Rightarrow> f idx s) = f (fst (emit out cs idx s)) (snd (emit out cs idx s))"
  by (simp add: case_prod_beta)

lemma convInt_text:
  "convInt out c flags width precision (v # va) idx s
     = (case emit out (intText c flags width precision v) idx s of (idx, s) \<Rightarrow> Inr (idx, va, s))"
proof -
  obtain base fl where fl: "intFlags c flags = (base, fl)" by (cases "intFlags c flags")
  show ?thesis
    by (cases "c = ch CHR ''i'' \<or> c = ch CHR ''d''"; cases "has fl FLAGS_LONG_LONG"; cases "has fl FLAGS_LONG")
      (simp_all only: convInt_def intText_def fl ntoa_text va_arg.simps bnd_Inl bnd_Inr prod.case Let_def if_True if_False
         simp_thms case_prod_beta prod.collapse fst_conv snd_conv)
qed

lemma convChar_text:
  "convChar out flags width (v # va) idx s
     = (case emit out (charText flags width v) idx s of (idx, s) \<Rightarrow> Inr (idx, va, s))"
  unfolding convChar_def charText_def by (simp add: emit_append Let_def split: prod.split)

lemma convPointer_text:
  "convPointer out flags precision (v # va) idx s
     = (case emit out (pointerText flags precision v) idx s of (idx, s) \<Rightarrow> Inr (idx, va, s))"
  unfolding convPointer_def pointerText_def by (simp add: ntoa_text Let_def split: prod.split)

subsection \<open>Strings\<close>

text \<open>A sink that does not write to \<open>W\<close> while fewer than \<open>n\<close> characters have come.\<close>

definition keeps :: "out_fct \<Rightarrow> u64 set \<Rightarrow> nat \<Rightarrow> bool" where
  "keeps out W n \<longleftrightarrow> n < 2 ^ 64 \<and> (\<forall>c i s. unat i < n \<longrightarrow> (\<forall>a\<in>W. omem (out c i s) a = omem s a))"

lemma unat_plus_one: "unat (i :: u64) + 1 < 2 ^ 64 \<Longrightarrow> unat (i + 1) = unat i + 1"
  by (simp add: unat_word_ariths)

lemma emit_keeps:
  assumes "keeps out W n" and "unat idx + length cs \<le> n" and "a \<in> W"
  shows "omem (snd (emit out cs idx s)) a = omem s a"
  using assms(2)
proof (induction cs arbitrary: idx s)
  case (Cons c cs)
  have i: "unat (idx + 1) = unat idx + 1" using Cons.prems assms(1) by (intro unat_plus_one) (simp add: keeps_def)
  then have "omem (snd (emit out (c # cs) idx s)) a = omem (out c idx s) a" using Cons.prems by (simp add: Cons.IH)
  also have "\<dots> = omem s a" using assms(1,3) Cons.prems by (simp add: keeps_def)
  finally show ?case .
qed simp

lemma strnlenLoop_cstr: "cstr m p t \<Longrightarrow> length t < 2 ^ 64 \<Longrightarrow> strnlenLoop m p n = p + of_nat (min (length t) (unat n))"
proof (induction t arbitrary: p n)
  case Nil
  then show ?case by (simp add: strnlenLoop.simps [of m p n])
next
  case (Cons c t)
  show ?case
  proof (cases "n = 0")
    case False
    then have "unat n = Suc (unat (n - 1))" by (simp add: unat_minus_one unat_gt_0)
    with False Cons show ?thesis by (simp add: strnlenLoop.simps [of m p n] algebra_simps)
  qed (simp add: strnlenLoop.simps)
qed

lemma outString_text:
  assumes "keeps out W n" and "unat idx + length (shownText flags precision t) \<le> n" and "length t < 2 ^ 32"
    and "cstr (omem s) p t" and "rng p (Suc (length t)) \<subseteq> W"
  shows "outString out flags p precision idx s = Some (emit out (shownText flags precision t) idx s)"
  using assms(2-)
proof (induction t arbitrary: p precision idx s)
  case Nil
  then show ?case by (simp add: outString.simps [of out flags p] shownText_def)
next
  case (Cons c t)
  show ?case
  proof (cases "has flags FLAGS_PRECISION \<and> precision = 0")
    case True
    then show ?thesis by (simp add: outString.simps [of out flags p] shownText_def)
  next
    case False
    let ?s = "out c idx s" and ?prec = "if has flags FLAGS_PRECISION then precision - 1 else precision"
    have "has flags FLAGS_PRECISION \<Longrightarrow> unat precision = Suc (unat (precision - 1))"
      using False by (simp add: unat_minus_one unat_gt_0)
    then have shown: "shownText flags precision (c # t) = c # shownText flags ?prec t" by (simp add: shownText_def)
    have n: "n < 2 ^ 64" and lt: "unat idx < n" using assms(1) Cons.prems(1) shown by (simp_all add: keeps_def)
    have sub: "rng (p + 1) (Suc (length t)) \<subseteq> W"
    proof
      fix x assume "x \<in> rng (p + 1) (Suc (length t))"
      then have "x \<in> rng p (Suc (Suc (length t)))"
        using rng_Suc [of "Suc (length t)" x p] Cons.prems(2) by simp
      with Cons.prems(4) show "x \<in> W" by auto
    qed
    have same: "omem ?s a = omem s a" if "a \<in> W" for a
      using assms(1) lt that by (simp add: keeps_def)
    have cstr: "cstr (omem ?s) (p + 1) t"
    proof (rule cstr_cong)
      show "cstr (omem s) (p + 1) t" using Cons.prems(3) by simp
      show "omem ?s x = omem s x" if "x \<in> rng (p + 1) (Suc (length t))" for x using same sub that by blast
    qed
    have "unat (idx + 1) = unat idx + 1" using lt n by (intro unat_plus_one) simp
    then have "outString out flags (p + 1) ?prec (idx + 1) ?s = Some (emit out (shownText flags ?prec t) (idx + 1) ?s)"
      using Cons.prems(1,2) shown by (intro Cons.IH [OF _ _ cstr sub]) simp_all
    moreover have "omem s p = c" "c \<noteq> 0" using Cons.prems(3) by simp_all
    ultimately show ?thesis using False shown by (simp add: outString.simps [of out flags p])
  qed
qed

lemma unat_up: "unat (ucast (x :: u32) :: u64) = unat x"
  by transfer (simp add: take_bit_eq_mod)

lemma down_of_nat: "(ucast (of_nat n :: u64) :: u32) = of_nat n"
  by transfer (simp add: take_bit_take_bit)

lemma emit_idx_unat:
  assumes "unat idx + length cs < 2 ^ 64"
  shows "unat (fst (emit out cs idx s)) = unat idx + length cs"
proof -
  have "unat (of_nat (length cs) :: u64) = length cs" using assms by (intro unat_of_nat64) simp
  then show ?thesis using assms by (simp add: emit_idx unat_word_ariths)
qed

lemma convString_text:
  assumes "keeps out W n" and "unat idx + length (strText flags width precision t) \<le> n" and "length t < 2 ^ 32"
    and "p \<noteq> 0" and "cstr (omem s) p t" and "rng p (Suc (length t)) \<subseteq> W" and "has flags FLAGS_PRECISION \<or> precision = 0"
  shows "convString out flags width precision (p # va) idx s
      = (case emit out (strText flags width precision t) idx s of (idx, s) \<Rightarrow> Some (Inr (idx, va, s)))"
proof -
  let ?l = "ucast (strnlenLoop (omem s) p (if precision \<noteq> 0 then ucast precision else - 1) - p) :: u32"
  let ?m = "min (length t) (if precision \<noteq> 0 then unat precision else 2 ^ 64 - 1)"
  have "strnlenLoop (omem s) p (if precision \<noteq> 0 then ucast precision else - 1) - p = of_nat ?m"
    using strnlenLoop_cstr [OF assms(5)] assms(3) by (simp add: unat_up unsigned_minus_1_eq_mask mask_eq_exp_minus_1)
  then have "?l = of_nat ?m" by (simp only: down_of_nat)
  moreover have "?m < 2 ^ 32" using assms(3) by simp
  ultimately have l: "unat ?l = ?m" by (simp add: take_bit_nat_eq_self unat_of_nat)
  let ?pad = "spaces (unat width - length (shownText flags precision t))"
  have pad: "unat (if has flags FLAGS_PRECISION then (if ?l < precision then ?l else precision) else ?l)
      = length (shownText flags precision t)"
    using l assms(3,7) by (auto simp: shownText_def word_less_nat_alt)
  let ?t = "shownText flags precision t" and ?idx = "if has flags FLAGS_LEFT then idx else fst (emit out ?pad idx s)"
    and ?s = "if has flags FLAGS_LEFT then s else snd (emit out ?pad idx s)"
  have n: "n < 2 ^ 64" using assms(1) by (simp add: keeps_def)
  have len: "unat idx + length ?pad + length ?t \<le> n" using assms(2) by (auto simp: strText_def Let_def split: if_splits)
  have "outString out flags p precision ?idx ?s = Some (emit out ?t ?idx ?s)"
  proof (rule outString_text [OF assms(1) _ assms(3) _ assms(6)])
    show "unat ?idx + length ?t \<le> n"
      using len n emit_idx_unat [of idx ?pad out s] by simp
    have "omem ?s x = omem s x" if "x \<in> rng p (Suc (length t))" for x
      using emit_keeps [OF assms(1), of idx ?pad x s] len that assms(6) by auto
    then show "cstr (omem ?s) p t" by (rule cstr_cong [OF assms(5)])
  qed
  then show ?thesis
    using assms(4) pad
    by (cases "has flags FLAGS_LEFT")
      (simp_all add: convString_def strText_def strnlen_s_def Let_def emit_append case_prod_beta)
qed

subsection \<open>The text of a format\<close>

text \<open>An argument: a number, a character or a pointer that is only printed; or a pointer and its string.\<close>

datatype arg = Num u64 | Str u64 "u8 list"

fun slot_of :: "arg \<Rightarrow> u64" where
  "slot_of (Num v) = v"
| "slot_of (Str p t) = p"

fun convText :: "u8 \<Rightarrow> u32 \<Rightarrow> u32 \<Rightarrow> u32 \<Rightarrow> arg list \<Rightarrow> (u8 list \<times> arg list) option" where
  "convText c flags width precision [] =
     (if c \<in> set (map ch ''diuxXobcsp'') then None else Some ([c], []))"
| "convText c flags width precision (a # args) =
     (if c \<in> set (map ch ''diuxXob'') then Some (intText c flags width precision (slot_of a), args)
      else if c = ch CHR ''c'' then Some (charText flags width (slot_of a), args)
      else if c = ch CHR ''s'' then (case a of Num _ \<Rightarrow> None | Str p t \<Rightarrow> Some (strText flags width precision t, args))
      else if c = ch CHR ''p'' then Some (pointerText flags precision (slot_of a), args)
      else Some ([c], a # args))"

definition argsLeft :: "arg list \<Rightarrow> u64 list \<Rightarrow> arg list" where
  "argsLeft args va = drop (length args - length va) args"

function fmtText :: "u8 list \<Rightarrow> arg list \<Rightarrow> u8 list option" where
  "fmtText [] args = Some []"
| "fmtText (c # f) args =
     (if c \<noteq> ch CHR ''%'' then map_option (\<lambda>cs. c # cs) (fmtText f args)
      else case readSpec f (map slot_of args) of Inl e \<Rightarrow> None
      | Inr (flags, width, precision, f, va) \<Rightarrow>
          (case f of [] \<Rightarrow> None
           | c # f \<Rightarrow> Option.bind (convText c flags width precision (argsLeft args va))
               (\<lambda>(cs, args). map_option (\<lambda>ds. cs @ ds) (fmtText f args))))"
  by pat_completeness auto
termination
  by (relation "measure (\<lambda>(f, args). length f)") (auto dest: readSpec_length)

declare fmtText.simps(2) [simp del]

lemma has_or: "has flags f \<Longrightarrow> has (flags OR x) f"
  by (simp add: word_bw_assocs bit.conj_disj_distrib2 or_eq_0_iff)

lemma va_arg_suffix: "va_arg va = Inr (v, va') \<Longrightarrow> \<exists>k. va' = drop k va"
  by (cases va) (auto intro: exI [of _ 1])

lemma readWidth_suffix: "readWidth f flags va = Inr (flags', w, f', va') \<Longrightarrow> \<exists>k. va' = drop k va"
  by (cases "(f, flags, va)" rule: readWidth.cases)
    (auto simp: bnd_eq_Inr Let_def split: if_splits prod.splits intro: exI [of _ 0] dest: va_arg_suffix)

lemma readPrecision_suffix: "readPrecision f flags va = Inr (flags', w, f', va') \<Longrightarrow> \<exists>k. va' = drop k va"
  by (cases "(f, flags, va)" rule: readPrecision.cases)
    (auto simp: bnd_eq_Inr Let_def split: if_splits prod.splits list.splits intro: exI [of _ 0] dest: va_arg_suffix)

lemma readPrecision_flag: "readPrecision f flags va = Inr (flags', p, f', va') \<Longrightarrow> has flags' FLAGS_PRECISION \<or> p = 0"
  by (cases "(f, flags, va)" rule: readPrecision.cases)
    (auto simp: bnd_eq_Inr Let_def FLAGS_PRECISION_def bit.conj_disj_distrib2 or_eq_0_iff split: if_splits prod.splits list.splits)

lemma readLength_flag: "readLength f flags = (flags', f') \<Longrightarrow> has flags x \<Longrightarrow> has flags' x"
  by (cases "(f, flags)" rule: readLength.cases) (auto simp: Let_def has_or split: if_splits list.splits)

lemma readSpec_facts:
  assumes "readSpec f va = Inr (flags, width, precision, f', va')"
  shows "\<exists>k. va' = drop k va" and "has flags FLAGS_PRECISION \<or> precision = 0"
proof -
  obtain fl1 f1 where 1: "readFlags f 0 = (fl1, f1)" by (cases "readFlags f 0")
  obtain fl2 w2 f2 va2 where 2: "readWidth f1 fl1 va = Inr (fl2, w2, f2, va2)"
    using assms 1 by (auto simp: readSpec_def bnd_eq_Inr)
  obtain fl3 p3 f3 va3 where 3: "readPrecision f2 fl2 va2 = Inr (fl3, p3, f3, va3)"
    using assms 1 2 by (auto simp: readSpec_def bnd_eq_Inr)
  obtain fl4 f4 where 4: "readLength f3 fl3 = (fl4, f4)" by (cases "readLength f3 fl3")
  have r: "flags = fl4" "precision = p3" "va' = va3" using assms 1 2 3 4 by (simp_all add: readSpec_def)
  obtain j where "va2 = drop j va" using readWidth_suffix [OF 2] by blast
  moreover obtain i where "va3 = drop i va2" using readPrecision_suffix [OF 3] by blast
  ultimately show "\<exists>k. va' = drop k va" using r by auto
  show "has flags FLAGS_PRECISION \<or> precision = 0" using readPrecision_flag [OF 3] readLength_flag [OF 4] r by blast
qed

lemma argsLeft_slots:
  assumes "va = drop k (map slot_of args)"
  shows "map slot_of (argsLeft args va) = va"
proof (cases "k \<le> length args")
  case True
  with assms show ?thesis by (simp add: argsLeft_def drop_map)
qed (use assms in \<open>simp add: argsLeft_def\<close>)

text \<open>Every \<open>%s\<close> argument is a pointer to its string, in memory that the output does not touch.\<close>

fun arg_ok :: "u64 set \<Rightarrow> mem \<Rightarrow> arg \<Rightarrow> bool" where
  "arg_ok W m (Num v) \<longleftrightarrow> True"
| "arg_ok W m (Str p t) \<longleftrightarrow> p \<noteq> 0 \<and> cstr m p t \<and> length t < 2 ^ 32 \<and> rng p (Suc (length t)) \<subseteq> W"

lemma arg_ok_cong: "arg_ok W m a \<Longrightarrow> (\<And>x. x \<in> W \<Longrightarrow> m' x = m x) \<Longrightarrow> arg_ok W m' a"
  by (cases a) (auto intro: cstr_cong)

lemma convert_text:
  assumes "convText c flags width precision args = Some (cs, args')" and "\<forall>a\<in>set args. arg_ok W (omem s) a"
    and "keeps out W n" and "unat idx + length cs \<le> n" and "has flags FLAGS_PRECISION \<or> precision = 0"
  shows "convert out c flags width precision (map slot_of args) idx s
      = (case emit out cs idx s of (idx, s) \<Rightarrow> Some (Inr (idx, map slot_of args', s)))"
proof (cases args)
  case Nil
  then show ?thesis using assms(1) by (auto simp: convert_def split: if_splits)
next
  case (Cons a as)
  consider (int) "c \<in> set (map ch ''diuxXob'')" | (char) "c = ch CHR ''c''" | (str) "c = ch CHR ''s''"
    | (ptr) "c = ch CHR ''p''" | (lit) "c \<notin> set (map ch ''diuxXobcsp'')" by auto
  then show ?thesis
  proof cases
    case int
    then have "cs = intText c flags width precision (slot_of a)" "args' = as" using assms(1) Cons by auto
    with int Cons show ?thesis by (simp add: convert_def convInt_text case_prod_beta)
  next
    case char
    with assms(1) Cons show ?thesis by (simp add: convert_def convChar_text case_prod_beta)
  next
    case str
    then obtain p t where a: "a = Str p t" "cs = strText flags width precision t" "args' = as"
      using assms(1) Cons by (auto split: arg.splits)
    have ok: "p \<noteq> 0" "cstr (omem s) p t" "length t < 2 ^ 32" "rng p (Suc (length t)) \<subseteq> W" using assms(2) Cons a by auto
    have "convString out flags width precision (p # map slot_of as) idx s
        = (case emit out cs idx s of (idx, s) \<Rightarrow> Some (Inr (idx, map slot_of as, s)))"
      unfolding a(2) by (rule convString_text [OF assms(3) _ ok(3,1,2,4) assms(5)]) (use assms(4) a in simp)
    with str a Cons show ?thesis by (simp add: convert_def)
  next
    case ptr
    with assms(1) Cons show ?thesis by (simp add: convert_def convPointer_text case_prod_beta)
  next
    case lit
    then have "cs = [c]" "args' = args" using assms(1) Cons by auto
    with lit show ?thesis by (simp add: convert_def)
  qed
qed

lemma convText_args: "convText c flags width precision args = Some (cs, args') \<Longrightarrow> set args' \<subseteq> set args"
  by (cases args) (auto split: if_splits arg.splits)

lemma emit_args_ok:
  assumes "\<forall>a\<in>set args. arg_ok W (omem s) a" and "keeps out W n" and "unat idx + length cs \<le> n"
  shows "\<forall>a\<in>set args. arg_ok W (omem (snd (emit out cs idx s))) a"
  using assms arg_ok_cong [of W "omem s" _ "omem (snd (emit out cs idx s))"] emit_keeps [OF assms(2,3)] by blast

lemma formatLoop_text:
  assumes "fmtText f args = Some cs" and "\<forall>a\<in>set args. arg_ok W (omem s) a" and "keeps out W n"
    and "unat idx + length cs \<le> n"
  shows "formatLoop out f (map slot_of args) idx s = Some (Inr (emit out cs idx s))"
  using assms
proof (induction f args arbitrary: idx s cs rule: fmtText.induct)
  case (1 args)
  then show ?case by simp
next
  case (2 c f args)
  have n: "n < 2 ^ 64" using "2.prems"(3) by (simp add: keeps_def)
  show ?case
  proof (cases "c = ch CHR ''%''")
    case False
    then obtain ds where ds: "fmtText f args = Some ds" "cs = c # ds"
      using "2.prems"(1) by (auto simp: fmtText.simps)
    have idx: "unat (idx + 1) = unat idx + 1" using "2.prems"(4) ds n by (intro unat_plus_one) simp
    have "\<forall>a\<in>set args. arg_ok W (omem (out c idx s)) a"
      using emit_args_ok [OF "2.prems"(2,3), of idx "[c]"] "2.prems"(4) ds by simp
    then have "formatLoop out f (map slot_of args) (idx + 1) (out c idx s) = Some (Inr (emit out ds (idx + 1) (out c idx s)))"
      by (rule "2.IH"(1) [OF False ds(1) _ "2.prems"(3)]) (use "2.prems"(4) ds idx in simp)
    then show ?thesis using False ds by (simp add: formatLoop.simps)
  next
    case True
    obtain flags width precision c' f' va args' ds es where
        spec: "readSpec f (map slot_of args) = Inr (flags, width, precision, c' # f', va)"
      and conv: "convText c' flags width precision (argsLeft args va) = Some (ds, args')"
      and rest: "fmtText f' args' = Some es" and cs: "cs = ds @ es"
      using "2.prems"(1) True by (auto simp: fmtText.simps bind_eq_Some_conv split: sum.splits list.splits)
    obtain k where k: "va = drop k (map slot_of args)" using readSpec_facts(1) [OF spec] by blast
    let ?idx = "fst (emit out ds idx s)" and ?s = "snd (emit out ds idx s)"
    have sub: "set (argsLeft args va) \<subseteq> set args" by (simp add: argsLeft_def set_drop_subset)
    have ok: "\<forall>a\<in>set (argsLeft args va). arg_ok W (omem s) a" using "2.prems"(2) sub by blast
    have here: "unat idx + length ds \<le> n" using "2.prems"(4) cs by simp
    have c: "convert out c' flags width precision va idx s
        = (case emit out ds idx s of (idx, s) \<Rightarrow> Some (Inr (idx, map slot_of args', s)))"
      using convert_text [OF conv ok "2.prems"(3) here readSpec_facts(2) [OF spec]] argsLeft_slots [OF k] by simp
    have ok': "\<forall>a\<in>set args'. arg_ok W (omem ?s) a"
      using emit_args_ok [OF ok "2.prems"(3) here] convText_args [OF conv] by blast
    have "unat ?idx + length es \<le> n" using emit_idx_unat [of idx ds out s] "2.prems"(4) cs n by simp
    from "2.IH"(2) [of _ flags _ width _ precision _ "c' # f'" va c' f' _ ds args', OF _ spec _ _ _ _ _ _ _ rest ok' "2.prems"(3) this]
    have "formatLoop out f' (map slot_of args') ?idx ?s = Some (Inr (emit out es ?idx ?s))"
      using True conv by simp
    then show ?thesis
      using True spec c cs by (simp add: formatLoop.simps emit_append case_prod_beta)
  qed
qed

end
