(* ===== verification/PrintfRead.thy ===== *)
theory PrintfRead
  imports PrintfSpec
begin

section \<open>Conversion specifications (util/printf.c)\<close>

text \<open>
  The grammar \<open>[flags][width][.precision][length]\<close> of the text between a \<open>%\<close> and the letter of the
  conversion, what each such text means, and that the reader of \<open>_vsnprintf\<close> splits every format
  accordingly.
\<close>

subsection \<open>Flags\<close>

lemma has_or_iff: "has (flags OR x) f \<longleftrightarrow> has flags f \<or> has x f"
  by (auto simp: bit.conj_disj_distrib2 or_eq_0_iff)

lemmas flag_consts = FLAGS_ZEROPAD_def FLAGS_LEFT_def FLAGS_PLUS_def FLAGS_SPACE_def FLAGS_HASH_def FLAGS_UPPERCASE_def
  FLAGS_CHAR_def FLAGS_SHORT_def FLAGS_LONG_def FLAGS_LONG_LONG_def FLAGS_PRECISION_def

text \<open>Letters are lower case, and of the length modifiers there is at most one.\<close>

definition spec_flags :: "u32 \<Rightarrow> bool" where
  "spec_flags flags \<longleftrightarrow> \<not> has flags FLAGS_UPPERCASE \<and> (has flags FLAGS_LONG_LONG \<longrightarrow> has flags FLAGS_LONG)
     \<and> (has flags FLAGS_CHAR \<longrightarrow> has flags FLAGS_SHORT) \<and> \<not> (has flags FLAGS_LONG \<and> has flags FLAGS_SHORT)"

definition flagBit :: "u8 \<Rightarrow> u32" where
  "flagBit c = (if c = ch CHR ''0'' then FLAGS_ZEROPAD else if c = ch CHR ''-'' then FLAGS_LEFT
     else if c = ch CHR ''+'' then FLAGS_PLUS else if c = ch CHR '' '' then FLAGS_SPACE else FLAGS_HASH)"

abbreviation is_flag :: "u8 \<Rightarrow> bool" where
  "is_flag c \<equiv> c \<in> set (map ch ''0-+ #'')"

definition lengthBits :: "u8 list \<Rightarrow> u32" where
  "lengthBits l = (if l = [] then 0 else if l = map ch ''h'' then FLAGS_SHORT else if l = map ch ''hh'' then FLAGS_SHORT OR FLAGS_CHAR
     else if l = map ch ''ll'' then FLAGS_LONG OR FLAGS_LONG_LONG else FLAGS_LONG)"

subsection \<open>The grammar\<close>

text \<open>A width or precision: digits, none for an absent width and for a lone point, or the next argument.\<close>

datatype amount =
    Digits "u8 list"
  | Star

record conv_spec =
  cFlags :: "u8 list"
  cWidth :: amount
  cPrec :: "amount option"
  cLength :: "u8 list"

fun amountText :: "amount \<Rightarrow> u8 list" where
  "amountText (Digits ds) = ds"
| "amountText Star = [ch CHR ''*'']"

fun precText :: "amount option \<Rightarrow> u8 list" where
  "precText None = []"
| "precText (Some a) = ch CHR ''.'' # amountText a"

definition specText :: "conv_spec \<Rightarrow> u8 list" where
  "specText sp = cFlags sp @ amountText (cWidth sp) @ precText (cPrec sp) @ cLength sp"

text \<open>
  \<open>spec_at f sp f'\<close>: the format \<open>f\<close> begins with the specification \<open>sp\<close>, and \<open>f'\<close> follows. Each part is as long
  as it can be.
\<close>

fun next_not :: "(u8 \<Rightarrow> bool) \<Rightarrow> u8 list \<Rightarrow> bool" where
  "next_not P [] \<longleftrightarrow> True"
| "next_not P (c # f) \<longleftrightarrow> \<not> P c"

fun amount_ends :: "amount \<Rightarrow> u8 list \<Rightarrow> bool" where
  "amount_ends (Digits ds) f \<longleftrightarrow> (\<forall>c \<in> set ds. is_digit c) \<and> next_not (\<lambda>c. is_digit c \<or> (ds = [] \<and> c = ch CHR ''*'')) f"
| "amount_ends Star f \<longleftrightarrow> True"

fun prec_ends :: "amount option \<Rightarrow> u8 list \<Rightarrow> bool" where
  "prec_ends None f \<longleftrightarrow> next_not (\<lambda>c. c = ch CHR ''.'') f"
| "prec_ends (Some a) f \<longleftrightarrow> amount_ends a f"

definition length_ends :: "u8 list \<Rightarrow> u8 list \<Rightarrow> bool" where
  "length_ends l f \<longleftrightarrow> l \<in> {[], map ch ''h'', map ch ''hh'', map ch ''l'', map ch ''ll'', map ch ''t'', map ch ''j'', map ch ''z''}
     \<and> next_not (\<lambda>c. (l = [] \<and> c \<in> set (map ch ''hltjz'')) \<or> (l = [c] \<and> c \<in> set (map ch ''hl''))) f"

definition spec_at :: "u8 list \<Rightarrow> conv_spec \<Rightarrow> u8 list \<Rightarrow> bool" where
  "spec_at f sp f' \<longleftrightarrow> f = specText sp @ f' \<and> (\<forall>c \<in> set (cFlags sp). is_flag c)
     \<and> next_not is_flag (amountText (cWidth sp) @ precText (cPrec sp) @ cLength sp @ f')
     \<and> amount_ends (cWidth sp) (precText (cPrec sp) @ cLength sp @ f')
     \<and> prec_ends (cPrec sp) (cLength sp @ f') \<and> length_ends (cLength sp) f'"

subsection \<open>What a specification means\<close>

text \<open>Numbers are read modulo \<open>2 ^ 32\<close>. The arguments for stars come first.\<close>

definition decimal :: "u8 list \<Rightarrow> u32" where
  "decimal ds = foldl (\<lambda>i c. i * 10 + ucast (c - ch CHR ''0'')) 0 ds"

definition starArg :: "u64 list \<Rightarrow> nat \<Rightarrow> u32" where
  "starArg va i = (if i < length va then ucast (va ! i) else 0)"

definition amountArgs :: "amount \<Rightarrow> nat" where
  "amountArgs a = (if a = Star then 1 else 0)"

definition specArgs :: "conv_spec \<Rightarrow> nat" where
  "specArgs sp = amountArgs (cWidth sp) + (case cPrec sp of None \<Rightarrow> 0 | Some a \<Rightarrow> amountArgs a)"

definition specFlags :: "conv_spec \<Rightarrow> u64 list \<Rightarrow> u32" where
  "specFlags sp va = foldl (\<lambda>b c. b OR flagBit c) 0 (cFlags sp)
     OR (if cWidth sp = Star \<and> sint (starArg va 0) < 0 then FLAGS_LEFT else 0)
     OR (if cPrec sp = None then 0 else FLAGS_PRECISION) OR lengthBits (cLength sp)"

definition specWidth :: "conv_spec \<Rightarrow> u64 list \<Rightarrow> u32" where
  "specWidth sp va = (case cWidth sp of Digits ds \<Rightarrow> decimal ds
     | Star \<Rightarrow> if sint (starArg va 0) < 0 then - starArg va 0 else starArg va 0)"

definition specPrec :: "conv_spec \<Rightarrow> u64 list \<Rightarrow> u32" where
  "specPrec sp va = (case cPrec sp of None \<Rightarrow> 0 | Some (Digits ds) \<Rightarrow> decimal ds
     | Some Star \<Rightarrow> if 0 < sint (starArg va (amountArgs (cWidth sp))) then starArg va (amountArgs (cWidth sp)) else 0)"

lemma spec_flags_sp:
  assumes "length_ends (cLength sp) f" and "\<forall>c \<in> set (cFlags sp). is_flag c"
  shows "spec_flags (specFlags sp va)" and "has (specFlags sp va) FLAGS_PRECISION \<or> specPrec sp va = 0"
proof -
  define early where "early b \<longleftrightarrow> (\<forall>f \<in> {FLAGS_UPPERCASE, FLAGS_CHAR, FLAGS_SHORT, FLAGS_LONG, FLAGS_LONG_LONG}. \<not> has b f)" for b :: u32
  have "early (foldl (\<lambda>b c. b OR flagBit c) b fs)" if "early b" for b fs
    using that
  proof (induction fs arbitrary: b)
    case (Cons c fs)
    have "early (b OR flagBit c)" using Cons.prems unfolding early_def has_or_iff by (auto simp: flagBit_def flag_consts)
    then show ?case using Cons.IH by simp
  qed simp
  moreover have "early 0" by (simp add: early_def)
  ultimately have e: "early (foldl (\<lambda>b c. b OR flagBit c) 0 (cFlags sp))" by blast
  have l: "lengthBits (cLength sp) \<in> {0, FLAGS_SHORT, FLAGS_SHORT OR FLAGS_CHAR, FLAGS_LONG, FLAGS_LONG OR FLAGS_LONG_LONG}"
    by (auto simp: lengthBits_def)
  show "spec_flags (specFlags sp va)"
    using e l unfolding spec_flags_def specFlags_def has_or_iff early_def by (auto simp: flag_consts)
  show "has (specFlags sp va) FLAGS_PRECISION \<or> specPrec sp va = 0"
    by (cases "cPrec sp") (simp_all add: specFlags_def has_or_iff specPrec_def FLAGS_PRECISION_def)
qed

subsection \<open>The reader\<close>

lemma readFlags_at:
  "\<forall>c \<in> set fs. is_flag c \<Longrightarrow> next_not is_flag f \<Longrightarrow> readFlags (fs @ f) b = (foldl (\<lambda>b c. b OR flagBit c) b fs, f)"
proof (induction fs arbitrary: b)
  case Nil
  then show ?case by (cases f) auto
next
  case (Cons c fs)
  then have "c \<in> set (map ch ''0-+ #'')" by simp
  then show ?case using Cons by (auto simp: flagBit_def)
qed

lemma atoi_at:
  "\<forall>c \<in> set ds. is_digit c \<Longrightarrow> next_not is_digit f \<Longrightarrow> atoi (ds @ f) i = (foldl (\<lambda>i c. i * 10 + ucast (c - ch CHR ''0'')) i ds, f)"
proof (induction ds arbitrary: i)
  case Nil
  then show ?case by (cases f) auto
qed auto

lemma readWidth_at:
  assumes "amount_ends w f"
  shows "readWidth (amountText w @ f) flags va =
    (if length va < amountArgs w then Inl OutOfBounds
     else Inr (flags OR (if w = Star \<and> sint (starArg va 0) < 0 then FLAGS_LEFT else 0),
       case w of Digits ds \<Rightarrow> decimal ds | Star \<Rightarrow> if sint (starArg va 0) < 0 then - starArg va 0 else starArg va 0,
       f, drop (amountArgs w) va))"
proof (cases w)
  case (Digits ds)
  show ?thesis
  proof (cases ds)
    case Nil
    then show ?thesis using assms Digits by (cases f) (auto simp: amountArgs_def decimal_def)
  next
    case (Cons d ds')
    have n: "next_not is_digit f" using assms Digits by (cases f) auto
    then show ?thesis using assms Digits Cons atoi_at [of ds f 0] by (simp add: amountArgs_def decimal_def)
  qed
next
  case Star
  have "\<not> is_digit (ch CHR ''*'')" by (simp add: is_digit_def)
  then show ?thesis using Star by (cases va) (auto simp: amountArgs_def starArg_def Let_def)
qed

lemma readPrecision_at:
  assumes "prec_ends p f"
  shows "readPrecision (precText p @ f) flags va =
    (if length va < (case p of None \<Rightarrow> 0 | Some a \<Rightarrow> amountArgs a) then Inl OutOfBounds
     else Inr (flags OR (if p = None then 0 else FLAGS_PRECISION),
       case p of None \<Rightarrow> 0 | Some (Digits ds) \<Rightarrow> decimal ds | Some Star \<Rightarrow> if 0 < sint (starArg va 0) then starArg va 0 else 0,
       f, drop (case p of None \<Rightarrow> 0 | Some a \<Rightarrow> amountArgs a) va))"
proof (cases p)
  case None
  then show ?thesis using assms by (cases f) auto
next
  case (Some a)
  show ?thesis
  proof (cases a)
    case (Digits ds)
    show ?thesis
    proof (cases ds)
      case Nil
      then show ?thesis using assms Some Digits by (cases f) (auto simp: amountArgs_def decimal_def)
    next
      case (Cons d ds')
      have n: "next_not is_digit f" using assms Some Digits by (cases f) auto
      then show ?thesis using assms Some Digits Cons atoi_at [of ds f 0] by (simp add: amountArgs_def decimal_def)
    qed
  next
    case Star
    have "\<not> is_digit (ch CHR ''*'')" by (simp add: is_digit_def)
    then show ?thesis using Star Some by (cases va) (auto simp: amountArgs_def starArg_def Let_def)
  qed
qed

lemma readLength_at:
  assumes "length_ends l f"
  shows "readLength (l @ f) flags = (flags OR lengthBits l, f)"
proof -
  have "l \<in> {[], map ch ''h'', map ch ''hh'', map ch ''l'', map ch ''ll'', map ch ''t'', map ch ''j'', map ch ''z''}"
    using assms by (simp add: length_ends_def)
  then show ?thesis using assms by (cases f) (auto simp: length_ends_def lengthBits_def Let_def or.assoc)
qed

lemma readSpec_at:
  assumes "spec_at f sp f'"
  shows "readSpec f va = (if length va < specArgs sp then Inl OutOfBounds
    else Inr (specFlags sp va, specWidth sp va, specPrec sp va, f', drop (specArgs sp) va))"
proof -
  have f: "f = cFlags sp @ amountText (cWidth sp) @ precText (cPrec sp) @ cLength sp @ f'" and e: "\<forall>c \<in> set (cFlags sp). is_flag c"
    "next_not is_flag (amountText (cWidth sp) @ precText (cPrec sp) @ cLength sp @ f')"
    "amount_ends (cWidth sp) (precText (cPrec sp) @ cLength sp @ f')" "prec_ends (cPrec sp) (cLength sp @ f')" "length_ends (cLength sp) f'"
    using assms by (simp_all add: spec_at_def specText_def)
  have arg: "starArg (drop n va) 0 = starArg va n" for n by (auto simp: starArg_def)
  show ?thesis
    unfolding f readSpec_def readFlags_at [OF e(1,2)] prod.case readWidth_at [OF e(3)]
    using readPrecision_at [OF e(4)] readLength_at [OF e(5)]
    by (simp add: specArgs_def specFlags_def specWidth_def specPrec_def arg or.assoc drop_drop add.commute
        less_diff_conv del: readPrecision.simps precText.simps split: option.split amount.split) auto
qed

subsection \<open>Every format can be read\<close>

lemma take_while: "\<exists>xs ys. f = xs @ ys \<and> (\<forall>c \<in> set xs. P c) \<and> next_not P ys"
proof (intro exI conjI)
  show "f = takeWhile P f @ dropWhile P f" by simp
  show "\<forall>c \<in> set (takeWhile P f). P c" by (auto dest: set_takeWhileD)
  show "next_not P (dropWhile P f)" by (induction f) auto
qed

lemma amount_ex: "\<exists>a f'. f = amountText a @ f' \<and> amount_ends a f'"
proof -
  obtain xs ys where xy: "f = xs @ ys" "\<forall>c \<in> set xs. is_digit c" "next_not is_digit ys" using take_while [of f is_digit] by blast
  show ?thesis
  proof (cases "xs = [] \<and> (\<exists>g. ys = ch CHR ''*'' # g)")
    case True
    then obtain g where "f = amountText Star @ g" using xy(1) by auto
    then show ?thesis by (intro exI [of _ Star] exI [of _ g]) simp
  next
    case False
    then have "amount_ends (Digits xs) ys" using xy(2,3) by (cases ys) auto
    then show ?thesis using xy(1) by (intro exI [of _ "Digits xs"] exI [of _ ys]) simp
  qed
qed

lemma prec_ex: "\<exists>p f'. f = precText p @ f' \<and> prec_ends p f'"
proof (cases "\<exists>g. f = ch CHR ''.'' # g")
  case True
  then obtain g where g: "f = ch CHR ''.'' # g" by blast
  obtain a f' where "g = amountText a @ f'" "amount_ends a f'" using amount_ex [of g] by blast
  then show ?thesis using g by (intro exI [of _ "Some a"] exI [of _ f']) simp
next
  case False
  then have "prec_ends None f" by (cases f) auto
  then show ?thesis by (intro exI [of _ None] exI [of _ f]) simp
qed

lemma length_ex: "\<exists>l f'. f = l @ f' \<and> length_ends l f'"
proof (cases f)
  case Nil
  then show ?thesis by (intro exI [of _ "[]"]) (simp add: length_ends_def)
next
  case (Cons c g)
  have one: "\<exists>l f'. f = l @ f' \<and> length_ends l f'" if "c \<in> set (map ch ''hl'')"
  proof (cases "\<exists>g'. g = c # g'")
    case True
    then obtain g' where "f = [c, c] @ g'" using Cons by auto
    moreover have "length_ends [c, c] g'" using that by (cases g') (auto simp: length_ends_def)
    ultimately show ?thesis by blast
  next
    case False
    then have "length_ends [c] g" using that by (cases g) (auto simp: length_ends_def)
    then show ?thesis using Cons by (intro exI [of _ "[c]"] exI [of _ g]) simp
  qed
  consider "c \<in> set (map ch ''hl'')" | "c \<in> set (map ch ''tjz'')" | "c \<notin> set (map ch ''hltjz'')" by auto
  then show ?thesis
  proof cases
    case 2
    then have "length_ends [c] g" by (cases g) (auto simp: length_ends_def)
    then show ?thesis using Cons by (intro exI [of _ "[c]"] exI [of _ g]) simp
  next
    case 3
    then have "length_ends [] f" using Cons by (auto simp: length_ends_def)
    then show ?thesis by (intro exI [of _ "[]"] exI [of _ f]) simp
  qed (rule one)
qed

lemma spec_ex: "\<exists>sp f'. spec_at f sp f'"
proof -
  obtain fs f1 where 1: "f = fs @ f1" "\<forall>c \<in> set fs. is_flag c" "next_not is_flag f1" using take_while [of f is_flag] by blast
  obtain w f2 where 2: "f1 = amountText w @ f2" "amount_ends w f2" using amount_ex [of f1] by blast
  obtain p f3 where 3: "f2 = precText p @ f3" "prec_ends p f3" using prec_ex [of f2] by blast
  obtain l f4 where 4: "f3 = l @ f4" "length_ends l f4" using length_ex [of f3] by blast
  have "spec_at f \<lparr>cFlags = fs, cWidth = w, cPrec = p, cLength = l\<rparr> f4"
    using 1 2 3 4 by (simp add: spec_at_def specText_def)
  then show ?thesis by blast
qed

text \<open>Reading more text: nothing changes as long as a letter for the conversion follows in the first part.\<close>

lemma next_not_append: "f \<noteq> [] \<Longrightarrow> next_not P (f @ g) = next_not P f"
  by (cases f) simp_all

lemma spec_at_append:
  assumes "spec_at f sp f'" and "f' \<noteq> []"
  shows "spec_at (f @ g) sp (f' @ g)"
proof -
  have "next_not P (xs @ f' @ g) = next_not P (xs @ f')" for P xs using next_not_append [of "xs @ f'" P g] assms(2) by simp
  note n = this this [of _ "[]", simplified] this [of _ "xs @ ys" for xs ys, simplified] this [of _ "xs @ ys @ zs" for xs ys zs, simplified]
  have "amount_ends a (xs @ f' @ g) = amount_ends a (xs @ f')" for a xs by (cases a) (simp_all add: n)
  note m = this this [of _ "xs @ ys" for xs ys, simplified]
  have "prec_ends p (xs @ f' @ g) = prec_ends p (xs @ f')" for p xs by (cases p) (simp_all add: m n)
  then show ?thesis using assms(1) unfolding spec_at_def length_ends_def by (simp add: specText_def m n)
qed

lemma readSpec_append:
  assumes "readSpec f va = Inr (flags, width, precision, f', va')" and "f' \<noteq> []"
  shows "readSpec (f @ g) va = Inr (flags, width, precision, f' @ g, va')"
proof -
  obtain sp f'' where sp: "spec_at f sp f''" using spec_ex by blast
  have "f'' = f'" using assms(1) readSpec_at [OF sp, of va] by (auto split: if_splits)
  then show ?thesis
    using assms(1) readSpec_at [OF sp, of va] readSpec_at [OF spec_at_append [OF sp], of g va] assms(2) by (auto split: if_splits)
qed

lemma formatLoop_append:
  "formatLoop out f va idx s = Some (Inr (idx', s')) \<Longrightarrow> \<exists>va'. formatLoop out (f @ g) va idx s = formatLoop out g va' idx' s'"
proof (induction out f va idx s rule: formatLoop.induct)
  case (2 out c f va idx s)
  show ?case
  proof (cases "c = ch CHR ''%''")
    case False
    then show ?thesis using 2 by (simp add: formatLoop.simps(2) split: prod.splits)
  next
    case True
    obtain flags width precision d f1 va1 where r: "readSpec f va = Inr (flags, width, precision, d # f1, va1)"
      using 2(3) True by (auto simp: formatLoop.simps(2) bndO_def split: sum.splits list.splits option.splits)
    obtain idx1 va2 s1 where c: "convert out d flags width precision va1 idx s = Some (Inr (idx1, va2, s1))"
      "formatLoop out f1 va2 idx1 s1 = Some (Inr (idx', s'))"
      using 2(3) True r by (auto simp: formatLoop.simps(2) bndO_def split: sum.splits list.splits option.splits)
    have "\<exists>va'. formatLoop out (f1 @ g) va2 idx1 s1 = formatLoop out g va' idx' s'"
      using 2(2) True r c by simp
    moreover have "formatLoop out ((c # f) @ g) va idx s = formatLoop out (f1 @ g) va2 idx1 s1"
      using True c(1) readSpec_append [OF r] by (simp add: formatLoop.simps(2))
    ultimately show ?thesis by simp
  qed
qed auto

subsection \<open>Properties\<close>

text \<open>C28: Whatever the format and the arguments are, the text after a \<open>%\<close> is split into flags, width, precision and
  length, each as long as it can be, and what is left of the format begins where the length ends. The flags returned
  are those of the characters, of a negative star, of the point and of the length; the numbers are those of the
  digits, or the arguments, of which exactly one per star is taken; only a missing argument is an error. The flags
  are well-formed: a length is one of none, \<open>h\<close>, \<open>hh\<close>, \<open>l\<close> and \<open>ll\<close>, letters are lower case, and there is a precision only if
  the flag says so.\<close>

theorem readSpec_well_formed:
  "\<exists>sp f'. spec_at f sp f'
    \<and> readSpec f va = (if length va < specArgs sp then Inl OutOfBounds
        else Inr (specFlags sp va, specWidth sp va, specPrec sp va, f', drop (specArgs sp) va))
    \<and> spec_flags (specFlags sp va) \<and> (has (specFlags sp va) FLAGS_PRECISION \<or> specPrec sp va = 0)"
proof -
  obtain sp f' where sp: "spec_at f sp f'" using spec_ex by blast
  then have "length_ends (cLength sp) f'" "\<forall>c \<in> set (cFlags sp). is_flag c" by (simp_all add: spec_at_def)
  from spec_flags_sp [OF this, of va] readSpec_at [OF sp, of va] sp show ?thesis by blast
qed

theorem readSpec_well_formed_witness:
  "\<exists>sp. spec_at (map ch ''-*.3llx'') sp (map ch ''x'') \<and> specFlags sp [0xfffffffb, 7] = 0x702 \<and> specWidth sp [0xfffffffb, 7] = 5
    \<and> specPrec sp [0xfffffffb, 7] = 3 \<and> specArgs sp = 1"
proof -
  have r: "readSpec (map ch ''-*.3llx'') [0xfffffffb, 7] = Inr (0x702, 5, 3, map ch ''x'', [7])" by code_simp
  obtain sp f' where sp: "spec_at (map ch ''-*.3llx'') sp f'" and "readSpec (map ch ''-*.3llx'') [0xfffffffb, 7] =
      (if length [0xfffffffb :: u64, 7] < specArgs sp then Inl OutOfBounds else Inr (specFlags sp [0xfffffffb, 7],
        specWidth sp [0xfffffffb, 7], specPrec sp [0xfffffffb, 7], f', drop (specArgs sp) [0xfffffffb, 7]))"
    using readSpec_well_formed [of "map ch ''-*.3llx''" "[0xfffffffb, 7]"] by blast
  then have e: "0x702 = specFlags sp [0xfffffffb, 7]" "5 = specWidth sp [0xfffffffb, 7]" "3 = specPrec sp [0xfffffffb, 7]"
    "f' = map ch ''x''" "[7] = drop (specArgs sp) [0xfffffffb :: u64, 7]"
    unfolding r by (simp_all split: if_splits)
  from arg_cong [OF e(5), of length] have "specArgs sp = 1" by simp
  then show ?thesis using sp e(1-4) by metis
qed

end
