(* ===== verification/PrintfOutput.thy ===== *)
theory PrintfOutput
  imports PrintfRead
begin

section \<open>Where the text goes\<close>

text \<open>
  The functions of \<open>printf.h\<close>: for a format and arguments with the text \<open>cs\<close>, what is in the buffer,
  on the console and in the lock afterwards, and what is returned.
\<close>

subsection \<open>Sinks\<close>

lemma emit_out_char: "emit out_char cs idx s = (idx + of_nat (length cs), s\<lparr>console := console s @ filter (\<lambda>c. c \<noteq> 0) cs\<rparr>)"
  by (induction cs arbitrary: idx s) (simp_all add: out_char_def algebra_simps)

lemma emit_out_fct: "emit out_fct_call cs idx s = (idx + of_nat (length cs), s\<lparr>called := called s @ filter (\<lambda>c. c \<noteq> 0) cs\<rparr>)"
  by (induction cs arbitrary: idx s) (simp_all add: out_fct_call_def algebra_simps)

lemma emit_out_null: "emit out_null cs idx s = (idx + of_nat (length cs), s)"
  by (induction cs arbitrary: idx s) (simp_all add: out_null_def algebra_simps)

lemma keeps_char: "n < 2 ^ 64 \<Longrightarrow> keeps out_char W n" and keeps_fct: "n < 2 ^ 64 \<Longrightarrow> keeps out_fct_call W n"
  and keeps_null: "n < 2 ^ 64 \<Longrightarrow> keeps out_null W n"
  by (simp_all add: keeps_def out_char_def out_fct_call_def out_null_def)

text \<open>The bytes \<open>bs\<close> at \<open>a\<close>.\<close>

definition stored :: "u64 \<Rightarrow> u8 list \<Rightarrow> mem \<Rightarrow> mem" where
  "stored a bs m = (\<lambda>x. if unat (x - a) < length bs then bs ! unat (x - a) else m x)"

lemma keeps_buffer:
  assumes "n < 2 ^ 64" and "W \<inter> rng buffer (min n (unat maxlen)) = {}"
  shows "keeps (out_buffer buffer maxlen) W n"
proof -
  have "buffer + i \<notin> W" if "unat i < n" "i < maxlen" for i
    using assms(2) that by (auto simp: in_rng word_less_nat_alt)
  then show ?thesis using assms(1) by (auto simp: keeps_def out_buffer_def)
qed

lemma stored_snoc:
  assumes "length bs < 2 ^ 64"
  shows "(stored a bs m)(a + of_nat (length bs) := c) = stored a (bs @ [c]) m"
proof (rule ext)
  fix x
  have "unat (x - a) = length bs \<longleftrightarrow> x = a + of_nat (length bs)"
  proof
    assume "unat (x - a) = length bs"
    then have "of_nat (unat (x - a)) = (of_nat (length bs) :: u64)" by simp
    then have "x - a = of_nat (length bs)" by simp
    then show "x = a + of_nat (length bs)" by (simp add: algebra_simps)
  qed (simp add: unat_of_nat64 [OF assms])
  then show "((stored a bs m)(a + of_nat (length bs) := c)) x = stored a (bs @ [c]) m x"
    by (auto simp: stored_def nth_append less_Suc_eq)
qed

lemma emit_out_buffer:
  assumes "length cs < 2 ^ 64"
  shows "emit (out_buffer buffer maxlen) cs 0 s
      = (of_nat (length cs), s\<lparr>omem := stored buffer (take (unat maxlen) cs) (omem s)\<rparr>)"
  using assms
proof (induction cs rule: rev_induct)
  case Nil
  then show ?case by (simp add: stored_def)
next
  case (snoc c cs)
  let ?i = "of_nat (length cs) :: u64"
  have u: "unat ?i = length cs" using snoc.prems by (intro unat_of_nat64) simp
  show ?case
  proof (cases "?i < maxlen")
    case True
    then have "length cs < unat maxlen" using u by (simp add: word_less_nat_alt)
    then show ?thesis
      using True snoc stored_snoc [of cs buffer "omem s" c] by (simp add: emit_append out_buffer_def)
  next
    case False
    then have "unat maxlen \<le> length cs" using u by (simp add: word_less_nat_alt)
    then show ?thesis using False snoc by (simp add: emit_append out_buffer_def)
  qed
qed

lemma stored_last: "length bs < 2 ^ 64 \<Longrightarrow> (stored a (bs @ [c]) m)(a + of_nat (length bs) := d) = stored a (bs @ [d]) m"
  by (simp add: stored_snoc [symmetric])

lemma terminated:
  assumes "length cs < 2 ^ 64"
  shows "omem (out_buffer buffer maxlen 0 (if of_nat (length cs) < maxlen then of_nat (length cs) else maxlen - 1)
           (s\<lparr>omem := stored buffer (take (unat maxlen) cs) m\<rparr>))
      = stored buffer (if maxlen = 0 then [] else take (unat maxlen - 1) cs @ [0]) m"
proof -
  have u: "unat (of_nat (length cs) :: u64) = length cs" by (rule unat_of_nat64 [OF assms])
  consider (zero) "maxlen = 0" | (short) "maxlen \<noteq> 0" "length cs < unat maxlen" | (cut) "maxlen \<noteq> 0" "unat maxlen \<le> length cs" by linarith
  then show ?thesis
  proof cases
    case zero
    then show ?thesis by (simp add: out_buffer_def)
  next
    case short
    then have "of_nat (length cs) < maxlen" using u by (simp add: word_less_nat_alt)
    with short show ?thesis by (simp add: out_buffer_def stored_snoc [OF assms])
  next
    case cut
    let ?bs = "take (unat maxlen - 1) cs"
    have m: "unat maxlen = Suc (unat (maxlen - 1))" using cut(1) by (simp add: unat_minus_one unat_gt_0)
    have bs: "length ?bs = unat (maxlen - 1)" using cut(2) m by simp
    have "take (unat maxlen) cs = ?bs @ [cs ! (unat maxlen - 1)]" using cut(2) m by (simp add: take_Suc_conv_app_nth)
    moreover have "maxlen - 1 = of_nat (length ?bs)" using bs by simp
    moreover have "\<not> of_nat (length cs) < maxlen" using cut(2) u by (simp add: word_less_nat_alt)
    moreover have "maxlen - 1 < maxlen" using m by (simp add: word_less_nat_alt)
    moreover have "length ?bs < 2 ^ 64" using assms by simp
    ultimately show ?thesis using cut(1) stored_last [of ?bs buffer _ m 0] by (simp add: out_buffer_def)
  qed
qed

lemma vsnprintf_text:
  assumes "buffer \<noteq> 0" and "fmtText f args = Some cs" and "\<forall>a\<in>set args. arg_ok W (omem s) a"
    and "keeps (out_fn buffer maxlen) W (length cs)" and "emit (out_fn buffer maxlen) cs 0 s = (of_nat (length cs), s')"
  shows "vsnprintf_internal out_fn buffer maxlen f (map slot_of args) s
      = Some (Inr (of_nat (length cs),
          out_fn buffer maxlen 0 (if of_nat (length cs) < maxlen then of_nat (length cs) else maxlen - 1) s'))"
proof -
  have "formatLoop (out_fn buffer maxlen) f (map slot_of args) 0 s = Some (Inr (of_nat (length cs), s'))"
    using formatLoop_text [OF assms(2,3,4)] assms(5) by simp
  then show ?thesis using assms(1) by (simp add: vsnprintf_internal_def Let_def down_of_nat)
qed

lemma out_buffer_omem: "out_buffer buffer maxlen c idx s = s\<lparr>omem := omem (out_buffer buffer maxlen c idx s)\<rparr>"
  by (simp add: out_buffer_def)

subsection \<open>Calls\<close>

lemma snprintf_text:
  assumes "buffer \<noteq> 0" and "fmtText f args = Some cs" and "length cs < 2 ^ 31"
    and "\<forall>a\<in>set args. arg_ok (- rng buffer (min (length cs + 1) (unat count))) (omem s) a"
  shows "snprintf_fn buffer count f (map slot_of args) s
    = Some (Inr (of_nat (length cs),
        s\<lparr>omem := stored buffer (if count = 0 then [] else take (unat count - 1) cs @ [0]) (omem s)\<rparr>))"
proof -
  have len: "length cs < 2 ^ 64" using assms(3) by simp
  have sub: "rng buffer (min (length cs) (unat count)) \<subseteq> rng buffer (min (length cs + 1) (unat count))"
    by (rule rng_mono) simp
  have "keeps (out_buffer buffer count) (- rng buffer (min (length cs + 1) (unat count))) (length cs)"
    by (rule keeps_buffer [OF len]) (use sub in blast)
  then have "snprintf_fn buffer count f (map slot_of args) s
      = Some (Inr (of_nat (length cs),
          out_buffer buffer count 0 (if of_nat (length cs) < count then of_nat (length cs) else count - 1)
            (s\<lparr>omem := stored buffer (take (unat count) cs) (omem s)\<rparr>)))"
    unfolding snprintf_fn_def by (rule vsnprintf_text [OF assms(1,2,4) _ emit_out_buffer [OF len]])
  then show ?thesis
    using terminated [OF len, of buffer count "omem s" s] by (subst (asm) out_buffer_omem) simp
qed

lemma printf_text:
  assumes "stk \<noteq> 0" and "fmtText f args = Some cs" and "length cs < 2 ^ 31"
    and "\<forall>a\<in>set args. arg_ok UNIV (omem s) a"
  shows "printf_fn stk f (map slot_of args) s
    = (if printfSpinlock s then Some (Inl Deadlock)
       else Some (Inr (of_nat (length cs),
         s\<lparr>console := console s @ filter (\<lambda>c. c \<noteq> 0) cs, printfSpinlock := False\<rparr>)))"
proof (cases "printfSpinlock s")
  case False
  have "vsnprintf_internal (\<lambda>_ _. out_char) stk (- 1) f (map slot_of args) (s\<lparr>printfSpinlock := True\<rparr>)
      = Some (Inr (of_nat (length cs), out_char 0 (if of_nat (length cs) < (- 1 :: u64) then of_nat (length cs) else - 1 - 1)
          (s\<lparr>printfSpinlock := True, console := console s @ filter (\<lambda>c. c \<noteq> 0) cs\<rparr>)))"
    by (rule vsnprintf_text [OF assms(1,2), where W = UNIV])
      (use assms(3,4) in \<open>simp_all add: keeps_char emit_out_char\<close>)
  with False show ?thesis by (simp add: printf_fn_def out_char_def)
qed (simp add: printf_fn_def)

subsection \<open>Properties\<close>

text \<open>C25: \<open>snprintf\<close> of a format whose text is \<open>cs\<close> returns the length of \<open>cs\<close> and stores
  exactly the first \<open>count - 1\<close> characters of it and a terminator at the buffer; no byte behind
  \<open>count\<close> and nothing else is written, and nothing at all when \<open>count\<close> is zero. The strings that
  it prints must not overlap the part of the buffer that is written.\<close>

theorem snprintf_correct:
  assumes "buffer \<noteq> 0" and "fmtText f args = Some cs" and "length cs < 2 ^ 31"
    and "\<forall>a\<in>set args. arg_ok (- rng buffer (min (length cs + 1) (unat count))) (omem s) a"
  shows "snprintf_fn buffer count f (map slot_of args) s
    = Some (Inr (of_nat (length cs),
        s\<lparr>omem := stored buffer (if count = 0 then [] else take (unat count - 1) cs @ [0]) (omem s)\<rparr>))"
  by (rule snprintf_text [OF assms])

theorem snprintf_correct_witness:
  "snprintf_fn 0x1000 6 (map ch ''%s=%03d;'') [0x2000, 7] \<lparr>omem = (\<lambda>_. 0)(0x2000 := ch CHR ''i'', 0x2001 := ch CHR ''d''),
       console = [], called = [], printfSpinlock = False\<rparr>
     = Some (Inr (7, \<lparr>omem = stored 0x1000 (map ch ''id=00'' @ [0]) ((\<lambda>_. 0)(0x2000 := ch CHR ''i'', 0x2001 := ch CHR ''d'')),
         console = [], called = [], printfSpinlock = False\<rparr>))"
proof -
  let ?m = "(\<lambda>_. 0)(0x2000 := ch CHR ''i'', 0x2001 := ch CHR ''d'') :: mem"
  let ?s = "\<lparr>omem = ?m, console = [], called = [], printfSpinlock = False\<rparr>"
  let ?args = "[Str 0x2000 (map ch ''id''), Num 7]"
  have txt1: "fmtText (map ch ''%s=%03d;'') ?args = Some (map ch ''id=007;'')" by code_simp
  have arg: "arg_ok (- rng 0x1000 6) ?m (Str 0x2000 (map ch ''id''))"
    using apart_disjoint [of "0x1000" 6 "0x2000" "Suc (Suc (Suc 0))"] by (auto simp: apart_def)
  have least: "min (length (map ch ''id=007;'') + 1) (unat (6 :: u64)) = 6" by simp
  have ok: "\<forall>a\<in>set ?args. arg_ok (- rng 0x1000 (min (length (map ch ''id=007;'') + 1) (unat (6 :: u64)))) (omem ?s) a"
    unfolding least using arg by (simp del: arg_ok.simps(2))
  show ?thesis using snprintf_correct [OF _ txt1 _ ok] by simp
qed

text \<open>C26: \<open>printf\<close> spins for ever when its lock is taken already. Otherwise it prints the text of the
  format, less its zero characters, returns the length of the text and leaves the lock free;
  memory is not changed.\<close>

theorem printf_correct:
  assumes "stk \<noteq> 0" and "fmtText f args = Some cs" and "length cs < 2 ^ 31"
    and "\<forall>a\<in>set args. arg_ok UNIV (omem s) a"
  shows "printf_fn stk f (map slot_of args) s
    = (if printfSpinlock s then Some (Inl Deadlock)
       else Some (Inr (of_nat (length cs),
         s\<lparr>console := console s @ filter (\<lambda>c. c \<noteq> 0) cs, printfSpinlock := False\<rparr>)))"
  by (rule printf_text [OF assms])

theorem printf_correct_witness:
  "printf_fn 0x1000 (map ch ''cpu%d'') [3] \<lparr>omem = (\<lambda>_. 0), console = map ch ''> '', called = [], printfSpinlock = False\<rparr>
     = Some (Inr (4, \<lparr>omem = (\<lambda>_. 0), console = map ch ''> cpu3'', called = [], printfSpinlock = False\<rparr>))"
proof -
  have txt1: "fmtText (map ch ''cpu%d'') [Num 3] = Some (map ch ''cpu3'')" by code_simp
  show ?thesis
    using printf_correct [OF _ txt1, of "0x1000" "\<lparr>omem = (\<lambda>_. 0), console = map ch ''> '', called = [], printfSpinlock = False\<rparr>"]
    by simp
qed

text \<open>C29: A format that ends inside a conversion specification makes the formatter read past the terminator of the
  format, whatever it prints to: after any text and conversions that can be printed, a \<open>%\<close> and the whole or a part of
  flags, width, precision and length, but no letter of a conversion.\<close>

theorem unfinished_conversion:
  assumes "formatLoop out f va idx s = Some (Inr r)" and "spec_at g sp []"
  shows "formatLoop out (f @ ch CHR ''%'' # g) va idx s = Some (Inl OutOfBounds)"
proof -
  obtain va' where "formatLoop out (f @ ch CHR ''%'' # g) va idx s = formatLoop out (ch CHR ''%'' # g) va' (fst r) (snd r)"
    using formatLoop_append [of out f va idx s "fst r" "snd r"] assms(1) by auto
  then show ?thesis using readSpec_at [OF assms(2), of va'] by (simp add: formatLoop.simps(2))
qed

theorem unfinished_conversion_witness:
  "\<forall>s. snprintf_fn 0x1000 64 (map ch ''%c: 100%-5.3ll'') [0x41] s = Some (Inl OutOfBounds)"
proof
  fix s
  let ?sp = "\<lparr>cFlags = map ch ''-'', cWidth = Digits (map ch ''5''), cPrec = Some (Digits (map ch ''3'')), cLength = map ch ''ll''\<rparr>"
  have g: "spec_at (map ch ''-5.3ll'') ?sp []"
    by (simp add: spec_at_def specText_def length_ends_def is_digit_def)
  have "readSpec (map ch ''c: 100'') va = Inr (0, 0, 0, map ch ''c: 100'', va)" for va by (simp add: readSpec_def is_digit_def)
  then obtain r where f: "formatLoop (out_buffer 0x1000 64) (map ch ''%c: 100'') [0x41] 0 s = Some (Inr r)"
    by (simp add: formatLoop.simps(2) convert_def convChar_def split_def Let_def)
  from unfinished_conversion [OF f g]
  have "formatLoop (out_buffer 0x1000 64) (map ch ''%c: 100%-5.3ll'') [0x41] 0 s = Some (Inl OutOfBounds)" by simp
  then show "snprintf_fn 0x1000 64 (map ch ''%c: 100%-5.3ll'') [0x41] s = Some (Inl OutOfBounds)"
    by (simp add: snprintf_fn_def vsnprintf_internal_def)
qed

end
