(* ===== verification/PrintfNumbers.thy ===== *)
theory PrintfNumbers
  imports PrintfSpec
begin

section \<open>Integer conversions and the C standard\<close>

text \<open>
  What the standard prescribes for an integer conversion, over the integers, and the proof that
  \<open>printf.c\<close> prints it wherever its digit buffer of 32 characters is large enough.
\<close>

subsection \<open>The prescribed text\<close>

function natDigits :: "bool \<Rightarrow> nat \<Rightarrow> nat \<Rightarrow> u8 list" where
  "natDigits upper b n =
     (let d = ch ((if upper then ''0123456789ABCDEF'' else ''0123456789abcdef'') ! (n mod b))
      in if n < b \<or> b < 2 then [d] else natDigits upper b (n div b) @ [d])"
  by pat_completeness auto
termination
  by (relation "measure (\<lambda>(upper, b, n). n)") (auto intro: div_less_dividend)

declare natDigits.simps [simp del]

abbreviation zeros :: "nat \<Rightarrow> u8 list" where "zeros n \<equiv> replicate n (ch CHR ''0'')"

text \<open>Precision \<open>None\<close> is no precision.\<close>

definition stdText :: "bool \<Rightarrow> nat \<Rightarrow> bool \<Rightarrow> bool \<Rightarrow> bool \<Rightarrow> bool \<Rightarrow> nat option \<Rightarrow> nat \<Rightarrow> int \<Rightarrow> u8 list" where
  "stdText upper b left plusSign blank zeroPad prec width v =
     (let ds = (if v = 0 \<and> prec = Some 0 then [] else natDigits upper b (nat \<bar>v\<bar>));
          ds = zeros (case prec of None \<Rightarrow> 0 | Some p \<Rightarrow> p - length ds) @ ds;
          sign = (if v < 0 then [ch CHR ''-''] else if plusSign then [ch CHR ''+''] else if blank then [ch CHR '' ''] else []);
          pad = width - (length sign + length ds)
      in if left then sign @ ds @ spaces pad
         else if zeroPad \<and> prec = None then sign @ zeros pad @ ds
         else spaces pad @ sign @ ds)"

subsection \<open>Digits\<close>

lemma natDigits_nonempty [simp]: "natDigits upper b n \<noteq> []"
  by (simp add: natDigits.simps [of upper b n] Let_def)

lemma natDigits_length:
  assumes "2 \<le> b" and "n < b ^ Suc k"
  shows "length (natDigits upper b n) \<le> Suc k"
  using assms(2)
proof (induction k arbitrary: n)
  case 0
  then show ?case by (simp add: natDigits.simps [of upper b n])
next
  case (Suc k)
  show ?case
  proof (cases "n < b")
    case False
    have "n div b < b ^ Suc k" using Suc.prems by (intro less_mult_imp_div_less) (simp add: mult.commute)
    from Suc.IH [OF this] False assms(1) show ?thesis by (simp add: natDigits.simps [of upper b n])
  qed (simp add: natDigits.simps [of upper b n])
qed

lemma nat_less_16: "d < 16 \<Longrightarrow> d \<in> {0, 1, 2, 3, 4, 5, 6, 7, 8, 9, 10, 11, 12, 13, 14, 15 :: nat}"
  unfolding insert_iff empty_iff by presburger

lemma digitChar_std:
  assumes "d < 16"
  shows "digitChar (of_nat d) flags
      = ch ((if has flags FLAGS_UPPERCASE then ''0123456789ABCDEF'' else ''0123456789abcdef'') ! d)"
  using nat_less_16 [OF assms] by (auto simp: digitChar_def word_less_nat_alt)

lemma ntoaDigits_std:
  assumes "2 \<le> base" and "base \<le> 16"
    and "length buf + length (natDigits (has flags FLAGS_UPPERCASE) (unat base) (unat v)) \<le> NTOA_BUFFER_SIZE"
  shows "ntoaDigits v base flags buf = buf @ rev (natDigits (has flags FLAGS_UPPERCASE) (unat base) (unat v))"
  using assms
proof (induction v base flags buf rule: ntoaDigits.induct)
  case (1 v base flags buf)
  let ?D = "natDigits (has flags FLAGS_UPPERCASE) (unat base)" and ?d = "unat v mod unat base"
  have b: "2 \<le> unat base" "unat base \<le> 16" using 1(2,3) by (simp_all add: word_le_nat_alt)
  have d16: "?d < 16" using less_le_trans [OF mod_less_divisor b(2)] b(1) by simp
  have "ucast (v mod base) = (of_nat ?d :: u8)" by (simp add: unat_mod_distrib [symmetric])
  then have d: "digitChar (ucast (v mod base)) flags
      = ch ((if has flags FLAGS_UPPERCASE then ''0123456789ABCDEF'' else ''0123456789abcdef'') ! ?d)"
    using digitChar_std [OF d16, of flags] by simp
  have q: "unat (v div base) = unat v div unat base" by (rule unat_div_distrib)
  have z: "v div base = 0 \<longleftrightarrow> unat v < unat base"
    using b by (simp add: q unat_eq_0 [symmetric] div_eq_0_iff)
  show ?case
  proof (cases "v div base = 0")
    case True
    then show ?thesis using d z by (simp add: ntoaDigits.simps [of v] natDigits.simps [of _ _ "unat v"])
  next
    case False
    then have D: "?D (unat v) = ?D (unat v div unat base) @ [digitChar (ucast (v mod base)) flags]"
      using d z b(1) by (simp add: natDigits.simps [of _ _ "unat v"])
    have "0 < length (?D (unat v div unat base))" by (simp del: length_0_conv)
    with 1(4) D have room: "length buf + 1 < NTOA_BUFFER_SIZE" by (simp del: length_greater_0_conv)
    have "ntoaDigits (v div base) base flags (buf @ [digitChar (ucast (v mod base)) flags])
        = (buf @ [digitChar (ucast (v mod base)) flags]) @ rev (?D (unat (v div base)))"
      by (rule 1(1) [OF refl refl refl _ 1(2,3)]) (use False room 1(4) D q in simp_all)
    then show ?thesis using False room D q by (simp add: ntoaDigits.simps [of v])
  qed
qed

subsection \<open>Flags as bits\<close>

lemma has_bits:
  "has flags FLAGS_ZEROPAD \<longleftrightarrow> bit flags 0" "has flags FLAGS_LEFT \<longleftrightarrow> bit flags 1"
  "has flags FLAGS_PLUS \<longleftrightarrow> bit flags 2" "has flags FLAGS_SPACE \<longleftrightarrow> bit flags 3"
  "has flags FLAGS_HASH \<longleftrightarrow> bit flags 4" "has flags FLAGS_UPPERCASE \<longleftrightarrow> bit flags 5"
  "has flags FLAGS_CHAR \<longleftrightarrow> bit flags 6" "has flags FLAGS_SHORT \<longleftrightarrow> bit flags 7"
  "has flags FLAGS_LONG \<longleftrightarrow> bit flags 8" "has flags FLAGS_LONG_LONG \<longleftrightarrow> bit flags 9"
  "has flags FLAGS_PRECISION \<longleftrightarrow> bit flags 10"
  using and_exp_eq_0_iff_not_bit [of flags 0] and_exp_eq_0_iff_not_bit [of flags 1] and_exp_eq_0_iff_not_bit [of flags 2]
    and_exp_eq_0_iff_not_bit [of flags 3] and_exp_eq_0_iff_not_bit [of flags 4] and_exp_eq_0_iff_not_bit [of flags 5]
    and_exp_eq_0_iff_not_bit [of flags 6] and_exp_eq_0_iff_not_bit [of flags 7] and_exp_eq_0_iff_not_bit [of flags 8]
    and_exp_eq_0_iff_not_bit [of flags 9] and_exp_eq_0_iff_not_bit [of flags 10]
  by (simp_all add: FLAGS_ZEROPAD_def FLAGS_LEFT_def FLAGS_PLUS_def FLAGS_SPACE_def FLAGS_HASH_def FLAGS_UPPERCASE_def
      FLAGS_CHAR_def FLAGS_SHORT_def FLAGS_LONG_def FLAGS_LONG_LONG_def FLAGS_PRECISION_def)

lemma one_bit: "k < 32 \<Longrightarrow> bit (2 ^ k :: u32) n \<longleftrightarrow> n = k"
  by (auto simp: bit_exp_iff)

lemma flag_bits:
  "bit FLAGS_ZEROPAD n \<longleftrightarrow> n = 0" "bit FLAGS_PLUS n \<longleftrightarrow> n = 2" "bit FLAGS_SPACE n \<longleftrightarrow> n = 3"
  "bit FLAGS_HASH n \<longleftrightarrow> n = 4" "bit FLAGS_UPPERCASE n \<longleftrightarrow> n = 5"
proof -
  show "bit FLAGS_ZEROPAD n \<longleftrightarrow> n = 0" using one_bit [of 0 n] by (simp only: FLAGS_ZEROPAD_def power_0)
  have f: "FLAGS_PLUS = 2 ^ 2" "FLAGS_SPACE = 2 ^ 3" "FLAGS_HASH = 2 ^ 4" "FLAGS_UPPERCASE = 2 ^ 5"
    by (simp_all add: FLAGS_PLUS_def FLAGS_SPACE_def FLAGS_HASH_def FLAGS_UPPERCASE_def)
  show "bit FLAGS_PLUS n \<longleftrightarrow> n = 2" unfolding f by (rule one_bit) simp
  show "bit FLAGS_SPACE n \<longleftrightarrow> n = 3" unfolding f by (rule one_bit) simp
  show "bit FLAGS_HASH n \<longleftrightarrow> n = 4" unfolding f by (rule one_bit) simp
  show "bit FLAGS_UPPERCASE n \<longleftrightarrow> n = 5" unfolding f by (rule one_bit) simp
qed

lemma has_sign: "has flags (FLAGS_PLUS OR FLAGS_SPACE) \<longleftrightarrow> has flags FLAGS_PLUS \<or> has flags FLAGS_SPACE"
  by (simp add: bit.conj_disj_distrib or_eq_0_iff)

subsection \<open>The text of \<open>_ntoa_format\<close>\<close>

definition signText :: "bool \<Rightarrow> bool \<Rightarrow> bool \<Rightarrow> u8 list" where
  "signText negative plusSign blank =
     (if negative then [ch CHR ''-''] else if plusSign then [ch CHR ''+''] else if blank then [ch CHR '' ''] else [])"

lemma ntoaSign_std:
  assumes "length buf < NTOA_BUFFER_SIZE \<or> \<not> negative \<and> \<not> has flags FLAGS_PLUS \<and> \<not> has flags FLAGS_SPACE"
  shows "ntoaSign buf negative flags = buf @ rev (signText negative (has flags FLAGS_PLUS) (has flags FLAGS_SPACE))"
  using assms by (auto simp: ntoaSign_def signText_def putBuf_def)

lemma rev_replicate_append: "rev (buf @ replicate n x) = replicate n x @ rev buf"
  by simp

text \<open>What one call prints for digits that fit: left-justified, zero-padded, and the rest.\<close>

lemma ntoaText_left:
  assumes "has flags FLAGS_LEFT" and "\<not> has flags FLAGS_HASH" and "2 \<le> base" and "base \<le> 16"
    and "ds = (if \<not> has flags FLAGS_PRECISION \<or> v \<noteq> 0
      then natDigits (has flags FLAGS_UPPERCASE) (unat base) (unat v) else [])"
    and "length ds \<le> NTOA_BUFFER_SIZE"
    and "length ds < NTOA_BUFFER_SIZE \<or> \<not> negative \<and> \<not> has flags FLAGS_PLUS \<and> \<not> has flags FLAGS_SPACE"
    and "sign = signText negative (has flags FLAGS_PLUS) (has flags FLAGS_SPACE)"
  shows "ntoaText v negative base precision width flags = sign @ ds @ spaces (unat width - length (sign @ ds))"
proof -
  let ?fl = "if v = 0 then flags AND NOT FLAGS_HASH else flags"
  have fl: "has ?fl FLAGS_LEFT" "\<not> has ?fl FLAGS_HASH" "has ?fl FLAGS_PRECISION = has flags FLAGS_PRECISION"
      "has ?fl FLAGS_UPPERCASE = has flags FLAGS_UPPERCASE" "has ?fl FLAGS_PLUS = has flags FLAGS_PLUS"
      "has ?fl FLAGS_SPACE = has flags FLAGS_SPACE"
    using assms(1,2) unfolding has_bits by (simp_all add: bit_simps flag_bits)
  have ds: "(if \<not> has ?fl FLAGS_PRECISION \<or> v \<noteq> 0 then ntoaDigits v base ?fl [] else []) = rev ds"
    using ntoaDigits_std [OF assms(3,4), of "[]" ?fl v] assms(5,6) fl by auto
  show ?thesis
    unfolding ntoaText_def Let_def ds
    using fl(1,2,5,6) ntoaSign_std [of "rev ds" negative ?fl] assms(7,8)
    by (simp add: ntoaZeros_def ntoaHash_def revText_def)
qed

lemma padZeros_rev:
  assumes "n \<le> NTOA_BUFFER_SIZE"
  shows "padZeros n (rev ds) = rev (zeros (n - length ds) @ ds)"
  using assms by (simp add: padZeros_def)

lemma unat_pred: "w \<noteq> 0 \<Longrightarrow> unat (w - 1) = unat (w :: u32) - 1"
  by (simp add: unat_minus_one)

lemma signText_length: "length (signText negative p b) = (if negative \<or> p \<or> b then 1 else 0)"
  by (simp add: signText_def)

lemma ntoaText_right:
  assumes "\<not> has flags FLAGS_LEFT" and "\<not> has flags FLAGS_HASH" and "2 \<le> base" and "base \<le> 16"
    and ds: "ds = (if \<not> has flags FLAGS_PRECISION \<or> v \<noteq> 0
      then natDigits (has flags FLAGS_UPPERCASE) (unat base) (unat v) else [])"
    and len: "length ds \<le> NTOA_BUFFER_SIZE" "precision < 32"
      "length ds < NTOA_BUFFER_SIZE \<or> \<not> negative \<and> \<not> has flags FLAGS_PLUS \<and> \<not> has flags FLAGS_SPACE"
    and zp: "has flags FLAGS_ZEROPAD \<Longrightarrow> width \<le> 32 \<and> precision = 0"
    and sign: "sign = signText negative (has flags FLAGS_PLUS) (has flags FLAGS_SPACE)"
    and ds': "ds' = zeros (unat precision - length ds) @ ds"
  shows "ntoaText v negative base precision width flags
      = (if has flags FLAGS_ZEROPAD then sign @ zeros (unat width - length (sign @ ds')) @ ds'
         else spaces (unat width - length (sign @ ds')) @ sign @ ds')"
proof -
  let ?fl = "if v = 0 then flags AND NOT FLAGS_HASH else flags"
  have fl: "\<not> has ?fl FLAGS_LEFT" "\<not> has ?fl FLAGS_HASH" "has ?fl FLAGS_PRECISION = has flags FLAGS_PRECISION"
      "has ?fl FLAGS_UPPERCASE = has flags FLAGS_UPPERCASE" "has ?fl FLAGS_PLUS = has flags FLAGS_PLUS"
      "has ?fl FLAGS_SPACE = has flags FLAGS_SPACE" "has ?fl FLAGS_ZEROPAD = has flags FLAGS_ZEROPAD"
    using assms(1,2) unfolding has_bits by (simp_all add: bit_simps flag_bits)
  have digits: "(if \<not> has ?fl FLAGS_PRECISION \<or> v \<noteq> 0 then ntoaDigits v base ?fl [] else []) = rev ds"
    using ntoaDigits_std [OF assms(3,4), of "[]" ?fl v] ds len(1) fl by auto
  let ?w = "if \<not> has ?fl FLAGS_LEFT \<and> width \<noteq> 0 \<and> has ?fl FLAGS_ZEROPAD
      \<and> (negative \<or> has ?fl (FLAGS_PLUS OR FLAGS_SPACE)) then width - 1 else width"
  have p: "unat precision < NTOA_BUFFER_SIZE" using len(2) by (simp add: word_less_nat_alt NTOA_BUFFER_SIZE_def)
  show ?thesis
  proof (cases "has flags FLAGS_ZEROPAD")
    case False
    have "ntoaZeros (rev ds) precision ?w ?fl = rev ds'"
      using False fl p padZeros_rev [of "unat precision" ds] ds' by (simp add: ntoaZeros_def Let_def)
    moreover have "ntoaSign (rev ds') negative ?fl = rev ds' @ rev sign"
      unfolding sign fl(5,6) [symmetric]
    proof (rule ntoaSign_std)
      have "length (rev ds') = max (unat precision) (length ds)" unfolding ds' by simp
      then show "length (rev ds') < NTOA_BUFFER_SIZE \<or> \<not> negative \<and> \<not> has ?fl FLAGS_PLUS \<and> \<not> has ?fl FLAGS_SPACE"
        unfolding fl(5,6) using len(3) p by linarith
    qed
    ultimately show ?thesis
      unfolding ntoaText_def Let_def digits
      using False fl by (simp add: ntoaHash_def revText_def)
  next
    case True
    then have z: "unat width \<le> NTOA_BUFFER_SIZE" "precision = 0" "ds' = ds"
      using zp ds' by (simp_all add: NTOA_BUFFER_SIZE_def word_le_nat_alt)
    have w: "unat ?w = unat width - length sign"
      using True fl sign has_sign [of ?fl] by (simp add: signText_length unat_pred)
    let ?z = "zeros (unat width - length sign - length ds) @ ds"
    have "ntoaZeros (rev ds) precision ?w ?fl = rev ?z"
      using True fl z padZeros_rev [of 0 ds] padZeros_rev [of "unat width - length sign" ds] w
      by (simp add: ntoaZeros_def Let_def)
    moreover have "ntoaSign (rev ?z) negative ?fl
        = rev ?z @ rev (signText negative (has ?fl FLAGS_PLUS) (has ?fl FLAGS_SPACE))"
    proof (rule ntoaSign_std)
      have "length (rev ?z) = max (unat width - length sign) (length ds)" by simp
      moreover have "length sign = 1 \<or> \<not> negative \<and> \<not> has flags FLAGS_PLUS \<and> \<not> has flags FLAGS_SPACE"
        unfolding sign by (simp add: signText_length)
      moreover have "0 < NTOA_BUFFER_SIZE" by (simp add: NTOA_BUFFER_SIZE_def)
      ultimately show "length (rev ?z) < NTOA_BUFFER_SIZE \<or> \<not> negative \<and> \<not> has ?fl FLAGS_PLUS \<and> \<not> has ?fl FLAGS_SPACE"
        unfolding fl(5,6) using len(3) z(1) by linarith
    qed
    moreover have "signText negative (has ?fl FLAGS_PLUS) (has ?fl FLAGS_SPACE) = sign"
      using sign fl(5,6) by simp
    ultimately show ?thesis
      unfolding ntoaText_def Let_def digits
      using True fl z(3) by (simp add: ntoaHash_def revText_def)
  qed
qed

lemma natDigits_0: "2 \<le> b \<Longrightarrow> natDigits upper b 0 = [ch CHR ''0'']"
  by (simp add: natDigits.simps [of upper b 0])

lemma ntoaText_std:
  assumes hash: "\<not> has flags FLAGS_HASH" and b: "2 \<le> base" "base \<le> 16"
    and p: "has flags FLAGS_PRECISION \<or> precision = 0" "precision < 32" "\<not> (has flags FLAGS_PRECISION \<and> has flags FLAGS_ZEROPAD)"
    and w: "has flags FLAGS_ZEROPAD \<Longrightarrow> width \<le> 32"
    and v: "unat v = nat \<bar>x\<bar>" "negative = (x < 0)"
    and ds: "ds = natDigits (has flags FLAGS_UPPERCASE) (unat base) (unat v)" "length ds \<le> 32"
      "length ds < 32 \<or> \<not> negative \<and> \<not> has flags FLAGS_PLUS \<and> \<not> has flags FLAGS_SPACE"
    and left: "has flags FLAGS_LEFT \<Longrightarrow> precision = 0 \<or> x \<noteq> 0 \<and> unat precision \<le> length ds"
  shows "ntoaText v negative base precision width flags
      = stdText (has flags FLAGS_UPPERCASE) (unat base) (has flags FLAGS_LEFT) (has flags FLAGS_PLUS) (has flags FLAGS_SPACE)
          (has flags FLAGS_ZEROPAD) (if has flags FLAGS_PRECISION then Some (unat precision) else None) (unat width) x"
proof -
  let ?ds = "if \<not> has flags FLAGS_PRECISION \<or> v \<noteq> 0 then ds else []" and ?prec = "if has flags FLAGS_PRECISION then Some (unat precision) else None"
    and ?std = "if x = 0 \<and> (if has flags FLAGS_PRECISION then Some (unat precision) else None) = Some 0 then [] else ds"
    and ?sign = "signText negative (has flags FLAGS_PLUS) (has flags FLAGS_SPACE)"
  have v0: "v = 0 \<longleftrightarrow> x = 0" using v(1) by (simp add: unat_eq_0 [symmetric])
  have ub: "2 \<le> unat base" using b(1) by (simp add: word_le_nat_alt)
  have padded: "zeros (unat precision - length ?ds) @ ?ds
      = zeros (case ?prec of None \<Rightarrow> 0 | Some p \<Rightarrow> p - length ?std) @ ?std"
  proof (cases "has flags FLAGS_PRECISION \<and> x = 0")
    case True
    then have "ds = [ch CHR ''0'']" using ds(1) v(1) natDigits_0 [OF ub] by simp
    with True v0 show ?thesis by (cases "unat precision") (simp_all add: replicate_append_same [symmetric] del: replicate_0)
  next
    case False
    with p(1) v0 show ?thesis by auto
  qed
  have len: "length ?ds \<le> NTOA_BUFFER_SIZE"
      "length ?ds < NTOA_BUFFER_SIZE \<or> \<not> negative \<and> \<not> has flags FLAGS_PLUS \<and> \<not> has flags FLAGS_SPACE"
    using ds(2,3) by (auto simp: NTOA_BUFFER_SIZE_def)
  have digits: "?ds = (if \<not> has flags FLAGS_PRECISION \<or> v \<noteq> 0
      then natDigits (has flags FLAGS_UPPERCASE) (unat base) (unat v) else [])" using ds(1) by simp
  have nd: "natDigits (has flags FLAGS_UPPERCASE) (unat base) (nat \<bar>x\<bar>) = ds" using ds(1) v(1) by simp
  have none: "?prec = None \<longleftrightarrow> \<not> has flags FLAGS_PRECISION" by simp
  have std: "stdText (has flags FLAGS_UPPERCASE) (unat base) left' plus' blank' zp ?prec (unat width) x
    = (let ds = zeros (unat precision - length ?ds) @ ?ds; sign = signText negative plus' blank';
           pad = unat width - (length sign + length ds)
       in if left' then sign @ ds @ spaces pad
         else if zp \<and> \<not> has flags FLAGS_PRECISION then sign @ zeros pad @ ds
         else spaces pad @ sign @ ds)" for left' plus' blank' zp
    unfolding stdText_def Let_def signText_def [symmetric] v(2) [symmetric] nd padded [symmetric] none ..
  show ?thesis
  proof (cases "has flags FLAGS_LEFT")
    case True
    have "zeros (unat precision - length ?ds) = []" using left [OF True] v0 by auto
    with ntoaText_left [OF True hash b digits len refl] True show ?thesis
      unfolding std by (simp add: Let_def)
  next
    case False
    have zp: "width \<le> 32 \<and> precision = 0" if "has flags FLAGS_ZEROPAD" using w p(1,3) that by blast
    have z: "has flags FLAGS_ZEROPAD \<and> \<not> has flags FLAGS_PRECISION \<longleftrightarrow> has flags FLAGS_ZEROPAD" using p(3) by blast
    show ?thesis
      unfolding std Let_def z using False ntoaText_right [OF False hash b digits len(1) p(2) len(2) zp refl refl]
      by (simp only: if_False length_append simp_thms)
  qed
qed

subsection \<open>Integer conversions\<close>

text \<open>What the argument stands for, as its length modifier and its conversion say.\<close>

definition intValue :: "u8 \<Rightarrow> u32 \<Rightarrow> u64 \<Rightarrow> int" where
  "intValue c flags v =
     (if c = ch CHR ''i'' \<or> c = ch CHR ''d''
      then if has flags FLAGS_LONG_LONG \<or> has flags FLAGS_LONG then sint v
           else if has flags FLAGS_CHAR then sint (ucast v :: u8)
           else if has flags FLAGS_SHORT then sint (ucast v :: u16) else sint (ucast v :: u32)
      else if has flags FLAGS_LONG_LONG \<or> has flags FLAGS_LONG then uint v
           else if has flags FLAGS_CHAR then uint (ucast v :: u8)
           else if has flags FLAGS_SHORT then uint (ucast v :: u16) else uint (ucast v :: u32))"

definition intBase :: "u8 \<Rightarrow> nat" where
  "intBase c = (if c = ch CHR ''x'' \<or> c = ch CHR ''X'' then 16 else if c = ch CHR ''o'' then 8
                else if c = ch CHR ''b'' then 2 else 10)"

definition stdConv :: "u8 \<Rightarrow> u32 \<Rightarrow> u32 \<Rightarrow> u32 \<Rightarrow> u64 \<Rightarrow> u8 list" where
  "stdConv c flags width precision v =
     (let isSigned = c = ch CHR ''i'' \<or> c = ch CHR ''d''
      in stdText (c = ch CHR ''X'') (intBase c) (has flags FLAGS_LEFT) (isSigned \<and> has flags FLAGS_PLUS)
           (isSigned \<and> has flags FLAGS_SPACE) (has flags FLAGS_ZEROPAD)
           (if has flags FLAGS_PRECISION then Some (unat precision) else None) (unat width) (intValue c flags v))"

lemma magnitude:
  fixes w :: "'a::len word"
  shows "unat (if sint w > 0 then w else 0 - w) = nat \<bar>sint w\<bar>"
proof -
  have "(if sint w > 0 then w else 0 - w) = (of_nat (nat \<bar>sint w\<bar>) :: 'a word)"
    by simp
  moreover have "unat (of_nat (nat \<bar>sint w\<bar>) :: 'a word) = nat \<bar>sint w\<bar>"
  proof -
    have "- (2 ^ (LENGTH('a) - 1)) \<le> sint w" "sint w < 2 ^ (LENGTH('a) - 1)"
      using sint_greater_eq [of w] sint_less [of w] by simp_all
    then have "\<bar>sint w\<bar> \<le> 2 ^ (LENGTH('a) - 1)" by simp
    also have "(2 :: int) ^ (LENGTH('a) - 1) < 2 ^ LENGTH('a)" by (intro power_strict_increasing) simp_all
    finally have "nat \<bar>sint w\<bar> < 2 ^ LENGTH('a)" by (simp add: nat_less_iff)
    then show ?thesis by (simp only: unat_of_nat mod_less)
  qed
  ultimately show ?thesis by (simp only:)
qed

lemma magnitude_up:
  "unat (ucast (if sint w > 0 then w else 0 - w) :: u64) = nat \<bar>sint (w :: u32)\<bar>"
  by (simp only: unat_up magnitude)

lemma sint_up: "sint (scast (x :: u8) :: u32) = sint x" "sint (scast (y :: u16) :: u32) = sint y"
  using sint_greater_eq [of x] sint_less [of x] sint_greater_eq [of y] sint_less [of y]
  by (simp_all add: signed_scast_eq signed_take_bit_int_eq_self)

lemma uint_up: "uint (ucast (x :: u8) :: u32) = uint x" "uint (ucast (y :: u16) :: u32) = uint y"
  by (transfer, simp add: take_bit_eq_mod)+

lemma intFlags_facts:
  assumes "intFlags c flags = (base, fl)" and "c \<in> set (map ch ''diuxXob'')" and "\<not> has flags FLAGS_UPPERCASE"
    and "has flags FLAGS_HASH \<longrightarrow> c \<in> set (map ch ''diu'')"
  shows "unat base = intBase c" and "\<not> has fl FLAGS_HASH" and "has fl FLAGS_UPPERCASE \<longleftrightarrow> c = ch CHR ''X''"
    and "has fl FLAGS_LEFT \<longleftrightarrow> has flags FLAGS_LEFT" and "has fl FLAGS_PRECISION \<longleftrightarrow> has flags FLAGS_PRECISION"
    and "has fl FLAGS_PLUS \<longleftrightarrow> (c = ch CHR ''i'' \<or> c = ch CHR ''d'') \<and> has flags FLAGS_PLUS"
    and "has fl FLAGS_SPACE \<longleftrightarrow> (c = ch CHR ''i'' \<or> c = ch CHR ''d'') \<and> has flags FLAGS_SPACE"
    and "has fl FLAGS_ZEROPAD \<longleftrightarrow> has flags FLAGS_ZEROPAD \<and> \<not> has flags FLAGS_PRECISION"
    and "has fl FLAGS_CHAR \<longleftrightarrow> has flags FLAGS_CHAR" and "has fl FLAGS_SHORT \<longleftrightarrow> has flags FLAGS_SHORT"
    and "has fl FLAGS_LONG \<longleftrightarrow> has flags FLAGS_LONG" and "has fl FLAGS_LONG_LONG \<longleftrightarrow> has flags FLAGS_LONG_LONG"
proof -
  have c: "c = ch CHR ''d'' \<or> c = ch CHR ''i'' \<or> c = ch CHR ''u'' \<or> c = ch CHR ''x'' \<or> c = ch CHR ''X''
      \<or> c = ch CHR ''o'' \<or> c = ch CHR ''b''" using assms(2) by simp
  show "unat base = intBase c" using c assms(1) by (auto simp: intFlags_def intBase_def Let_def)
  have hash: "\<not> bit flags 4 \<or> c = ch CHR ''d'' \<or> c = ch CHR ''i'' \<or> c = ch CHR ''u''"
    using assms(4) unfolding has_bits by auto
  have upper: "\<not> bit flags 5" using assms(3) unfolding has_bits .
  let ?h = "if c = ch CHR ''x'' \<or> c = ch CHR ''X'' \<or> c = ch CHR ''o'' \<or> c = ch CHR ''b'' then flags else flags AND NOT FLAGS_HASH"
  let ?u = "if c = ch CHR ''X'' then ?h OR FLAGS_UPPERCASE else ?h"
  let ?s = "if c \<noteq> ch CHR ''i'' \<and> c \<noteq> ch CHR ''d'' then ?u AND NOT (FLAGS_PLUS OR FLAGS_SPACE) else ?u"
  have "snd (intFlags c flags) = (if has ?s FLAGS_PRECISION then ?s AND NOT FLAGS_ZEROPAD else ?s)"
    using c by (elim disjE) (simp_all add: intFlags_def Let_def)
  then have fl: "fl = (if has ?s FLAGS_PRECISION then ?s AND NOT FLAGS_ZEROPAD else ?s)" using assms(1) by simp
  have s: "n < 32 \<Longrightarrow> bit ?s n \<longleftrightarrow> (if n = 4 then False else if n = 5 then c = ch CHR ''X'' else if n = 2 \<or> n = 3
        then (c = ch CHR ''i'' \<or> c = ch CHR ''d'') \<and> bit flags n else bit flags n)" for n
    using c hash upper by (elim disjE) (simp_all add: bit_simps flag_bits)
  have p: "has ?s FLAGS_PRECISION \<longleftrightarrow> bit flags 10" unfolding has_bits by (subst s) simp_all
  have "n < 32 \<Longrightarrow> bit fl n \<longleftrightarrow> bit ?s n \<and> \<not> (bit flags 10 \<and> n = 0)" for n
    unfolding fl p by (simp add: bit_simps flag_bits)
  then have f: "n < 32 \<Longrightarrow> bit fl n \<longleftrightarrow> (if n = 4 then False else if n = 5 then c = ch CHR ''X'' else if n = 2 \<or> n = 3
        then (c = ch CHR ''i'' \<or> c = ch CHR ''d'') \<and> bit flags n else bit flags n) \<and> \<not> (bit flags 10 \<and> n = 0)" for n
    using s by blast
  show "\<not> has fl FLAGS_HASH" "has fl FLAGS_UPPERCASE \<longleftrightarrow> c = ch CHR ''X''"
    "has fl FLAGS_LEFT \<longleftrightarrow> has flags FLAGS_LEFT" "has fl FLAGS_PRECISION \<longleftrightarrow> has flags FLAGS_PRECISION"
    "has fl FLAGS_PLUS \<longleftrightarrow> (c = ch CHR ''i'' \<or> c = ch CHR ''d'') \<and> has flags FLAGS_PLUS"
    "has fl FLAGS_SPACE \<longleftrightarrow> (c = ch CHR ''i'' \<or> c = ch CHR ''d'') \<and> has flags FLAGS_SPACE"
    "has fl FLAGS_ZEROPAD \<longleftrightarrow> has flags FLAGS_ZEROPAD \<and> \<not> has flags FLAGS_PRECISION"
    "has fl FLAGS_CHAR \<longleftrightarrow> has flags FLAGS_CHAR" "has fl FLAGS_SHORT \<longleftrightarrow> has flags FLAGS_SHORT"
    "has fl FLAGS_LONG \<longleftrightarrow> has flags FLAGS_LONG" "has fl FLAGS_LONG_LONG \<longleftrightarrow> has flags FLAGS_LONG_LONG"
    unfolding has_bits by (simp_all add: f)
qed

text \<open>A conversion as the text of a number and its sign.\<close>

lemma intText_number:
  assumes "intFlags c flags = (base, fl)"
    and "has fl FLAGS_CHAR = has flags FLAGS_CHAR" and "has fl FLAGS_SHORT = has flags FLAGS_SHORT"
    and "has fl FLAGS_LONG = has flags FLAGS_LONG" and "has fl FLAGS_LONG_LONG = has flags FLAGS_LONG_LONG"
  obtains m negative where "intText c flags width precision v = ntoaText m negative base precision width fl"
    and "unat m = nat \<bar>intValue c flags v\<bar>" and "negative = (intValue c flags v < 0)"
proof (cases "has flags FLAGS_LONG_LONG \<or> has flags FLAGS_LONG"; cases "c = ch CHR ''i'' \<or> c = ch CHR ''d''")
  assume long: "has flags FLAGS_LONG_LONG \<or> has flags FLAGS_LONG" and s: "c = ch CHR ''i'' \<or> c = ch CHR ''d''"
  let ?m = "if sint v > 0 then v else 0 - v"
  have i: "intValue c flags v = sint v" using long s by (simp add: intValue_def)
  have "intText c flags width precision v = ntoaText ?m (sint v < 0) base precision width fl"
    unfolding intText_def assms Let_def prod.case if_P [OF long] if_P [OF s] ..
  then show thesis by (rule that) (simp_all only: i magnitude)
next
  assume long: "has flags FLAGS_LONG_LONG \<or> has flags FLAGS_LONG" and s: "\<not> (c = ch CHR ''i'' \<or> c = ch CHR ''d'')"
  have i: "intValue c flags v = uint v" using long s by (simp add: intValue_def)
  have "intText c flags width precision v = ntoaText v False base precision width fl"
    unfolding intText_def assms Let_def prod.case if_P [OF long] if_not_P [OF s] ..
  then show thesis by (rule that) (simp_all add: i)
next
  let ?w = "if has flags FLAGS_CHAR then scast (ucast v :: u8)
            else if has flags FLAGS_SHORT then scast (ucast v :: u16) else ucast v :: u32"
  assume short: "\<not> (has flags FLAGS_LONG_LONG \<or> has flags FLAGS_LONG)" and s: "c = ch CHR ''i'' \<or> c = ch CHR ''d''"
  have i: "intValue c flags v = sint ?w" using short s by (simp add: intValue_def sint_up)
  have "intText c flags width precision v
      = ntoaText (ucast (if sint ?w > 0 then ?w else 0 - ?w)) (sint ?w < 0) base precision width fl"
    unfolding intText_def assms Let_def prod.case if_not_P [OF short] if_P [OF s] ..
  then show thesis by (rule that) (simp_all only: i magnitude_up)
next
  let ?w = "if has flags FLAGS_CHAR then ucast (ucast v :: u8)
            else if has flags FLAGS_SHORT then ucast (ucast v :: u16) else ucast v :: u32"
  assume short: "\<not> (has flags FLAGS_LONG_LONG \<or> has flags FLAGS_LONG)" and s: "\<not> (c = ch CHR ''i'' \<or> c = ch CHR ''d'')"
  have i: "intValue c flags v = int (unat ?w)" using short s by (simp add: intValue_def uint_up)
  have "intText c flags width precision v = ntoaText (ucast ?w) False base precision width fl"
    unfolding intText_def assms Let_def prod.case if_not_P [OF short] if_not_P [OF s] ..
  then show thesis by (rule that) (simp_all only: i unat_up, simp_all)
qed

definition fits :: "u8 \<Rightarrow> u32 \<Rightarrow> u32 \<Rightarrow> u32 \<Rightarrow> u64 \<Rightarrow> bool" where
  "fits c flags width precision v \<longleftrightarrow>
     precision < 32 \<and> (has flags FLAGS_ZEROPAD \<and> \<not> has flags FLAGS_PRECISION \<longrightarrow> width \<le> 32)
     \<and> (c = ch CHR ''b'' \<longrightarrow> intValue c flags v < 2 ^ 32)"

text \<open>\<open>printf.c\<close> does not fill a left-justified number up to its precision.\<close>

definition leftFits :: "u8 \<Rightarrow> u32 \<Rightarrow> u32 \<Rightarrow> u64 \<Rightarrow> bool" where
  "leftFits c flags precision v \<longleftrightarrow> (has flags FLAGS_LEFT \<longrightarrow> precision = 0 \<or> intValue c flags v \<noteq> 0
     \<and> unat precision \<le> length (natDigits (c = ch CHR ''X'') (intBase c) (nat \<bar>intValue c flags v\<bar>)))"

lemma stdText_zeroPad: "stdText upper b l p sp (z \<and> prec = None) prec w x = stdText upper b l p sp z prec w x"
  by (simp add: stdText_def Let_def)

lemma intBase_bounds: "2 \<le> intBase c" "intBase c \<le> 16"
  by (simp_all add: intBase_def)

lemma digits_fit:
  assumes "n < 2 ^ 64" and "c = ch CHR ''b'' \<Longrightarrow> n < 2 ^ 32"
  shows "length (natDigits upper (intBase c) n) \<le> 32" and "c \<noteq> ch CHR ''b'' \<Longrightarrow> length (natDigits upper (intBase c) n) < 32"
proof -
  have "length (natDigits upper (intBase c) n) \<le> Suc 21" if "c \<noteq> ch CHR ''b''"
  proof (rule natDigits_length [OF intBase_bounds(1)])
    have "(2 :: nat) ^ 64 \<le> 8 ^ Suc 21" by simp
    also have "8 ^ Suc 21 \<le> intBase c ^ Suc 21" using that by (intro power_mono) (simp_all add: intBase_def)
    finally show "n < intBase c ^ Suc 21" using assms(1) by simp
  qed
  moreover have "length (natDigits upper (intBase c) n) \<le> Suc 31" if "c = ch CHR ''b''"
    using assms(2) [OF that] that by (intro natDigits_length) (simp_all add: intBase_def)
  ultimately show "length (natDigits upper (intBase c) n) \<le> 32" "c \<noteq> ch CHR ''b'' \<Longrightarrow> length (natDigits upper (intBase c) n) < 32"
    by fastforce+
qed

lemma intText_std:
  assumes c: "c \<in> set (map ch ''diuxXob'')" and upper: "\<not> has flags FLAGS_UPPERCASE"
    and hash: "has flags FLAGS_HASH \<longrightarrow> c \<in> set (map ch ''diu'')"
    and prec: "has flags FLAGS_PRECISION \<or> precision = 0" and fits: "fits c flags width precision v"
    and left: "leftFits c flags precision v"
  shows "intText c flags width precision v = stdConv c flags width precision v"
proof -
  obtain base fl where fl: "intFlags c flags = (base, fl)" by (cases "intFlags c flags")
  note f = intFlags_facts [OF fl c upper hash]
  obtain m negative where number: "intText c flags width precision v = ntoaText m negative base precision width fl"
      and m: "unat m = nat \<bar>intValue c flags v\<bar>" "negative = (intValue c flags v < 0)"
    by (rule intText_number [OF fl f(9-12)])
  let ?ds = "natDigits (c = ch CHR ''X'') (intBase c) (nat \<bar>intValue c flags v\<bar>)"
  have pos: "\<not> intValue c flags v < 0" if "\<not> (c = ch CHR ''i'' \<or> c = ch CHR ''d'')"
    using that by (simp add: intValue_def)
  have "nat \<bar>intValue c flags v\<bar> < 2 ^ 64" using m(1) unsigned_less [of m, where 'a = nat] by simp
  moreover have "nat \<bar>intValue c flags v\<bar> < 2 ^ 32" if "c = ch CHR ''b''"
    using fits that pos by (simp add: fits_def not_less nat_less_iff)
  ultimately have len: "length ?ds \<le> 32" "c \<noteq> ch CHR ''b'' \<Longrightarrow> length ?ds < 32"
    using digits_fit [of "nat \<bar>intValue c flags v\<bar>" c "c = ch CHR ''X''"] by blast+
  have ds: "?ds = natDigits (has fl FLAGS_UPPERCASE) (unat base) (unat m)" unfolding f(1,3) m(1) ..
  have "ntoaText m negative base precision width fl
      = stdText (has fl FLAGS_UPPERCASE) (unat base) (has fl FLAGS_LEFT) (has fl FLAGS_PLUS) (has fl FLAGS_SPACE)
          (has fl FLAGS_ZEROPAD) (if has fl FLAGS_PRECISION then Some (unat precision) else None) (unat width) (intValue c flags v)"
  proof (rule ntoaText_std [OF f(2) _ _ _ _ _ _ m ds len(1)])
    show "2 \<le> base" "base \<le> 16" using intBase_bounds [of c] unfolding f(1) [symmetric] by (simp_all add: word_le_nat_alt)
    show "has fl FLAGS_PRECISION \<or> precision = 0" using prec unfolding f(5) .
    show "precision < 32" using fits by (simp add: fits_def)
    show "\<not> (has fl FLAGS_PRECISION \<and> has fl FLAGS_ZEROPAD)" unfolding f(5,8) by blast
    show "width \<le> 32" if "has fl FLAGS_ZEROPAD" using fits that unfolding f(8) fits_def by blast
    show "length ?ds < 32 \<or> \<not> negative \<and> \<not> has fl FLAGS_PLUS \<and> \<not> has fl FLAGS_SPACE"
      using len(2) pos unfolding f(6,7) m(2) by (cases "c = ch CHR ''b''") simp_all
    show "precision = 0 \<or> intValue c flags v \<noteq> 0 \<and> unat precision \<le> length ?ds" if "has fl FLAGS_LEFT"
      using left that unfolding f(4) leftFits_def by blast
  qed
  then show ?thesis
    unfolding number stdConv_def Let_def f stdText_zeroPad [of _ _ _ _ _ "has flags FLAGS_ZEROPAD", symmetric] by simp
qed

subsection \<open>Reading a number back\<close>

lemma digit_read:
  assumes "d < 10"
  shows "is_digit (ch (''0123456789abcdef'' ! d))" and "ucast (ch (''0123456789abcdef'' ! d) - ch CHR ''0'') = (of_nat d :: u32)"
proof -
  have "d \<in> {0, 1, 2, 3, 4, 5, 6, 7, 8, 9}" using assms unfolding insert_iff empty_iff by presburger
  then show "is_digit (ch (''0123456789abcdef'' ! d))"
    and "ucast (ch (''0123456789abcdef'' ! d) - ch CHR ''0'') = (of_nat d :: u32)"
    by (auto simp: is_digit_def word_le_nat_alt)
qed

lemma atoi_natDigits:
  "atoi (natDigits False 10 n @ f) i = atoi f (i * 10 ^ length (natDigits False 10 n) + of_nat n)"
proof (induction n arbitrary: f rule: less_induct)
  case (less n)
  let ?d = "ch (''0123456789abcdef'' ! (n mod 10))"
  note d = digit_read [of "n mod 10", simplified]
  show ?case
  proof (cases "n < 10")
    case True
    then show ?thesis using d by (simp add: natDigits.simps [of _ _ n])
  next
    case False
    then have D: "natDigits False 10 n = natDigits False 10 (n div 10) @ [?d]" by (simp add: natDigits.simps [of _ _ n])
    have n: "of_nat (n div 10) * 10 + of_nat (n mod 10) = (of_nat n :: u32)"
      by (metis div_mult_mod_eq mult.commute of_nat_add of_nat_mult of_nat_numeral)
    have "atoi (natDigits False 10 n @ f) i = atoi (?d # f) (i * 10 ^ length (natDigits False 10 (n div 10)) + of_nat (n div 10))"
      unfolding D append_assoc append_Cons append_Nil by (rule less) (use False in simp)
    also have "\<dots> = atoi f (i * 10 ^ length (natDigits False 10 n) + (of_nat (n div 10) * 10 + of_nat (n mod 10)))"
      using d unfolding D by (simp add: algebra_simps)
    finally show ?thesis unfolding n .
  qed
qed

lemma intText_plain: "intText (ch CHR ''u'') 0 0 0 v = natDigits False 10 (unat (ucast v :: u32))"
proof -
  have "intText (ch CHR ''u'') 0 0 0 v = stdConv (ch CHR ''u'') 0 0 0 v"
    by (rule intText_std) (simp_all add: fits_def leftFits_def)
  then show ?thesis by (simp add: stdConv_def stdText_def intBase_def intValue_def)
qed

subsection \<open>Properties\<close>



text \<open>C27: A number printed with \<open>%u\<close> is read back by the reader of widths and precisions, whatever
  follows it that is not a digit.\<close>

theorem print_read_roundtrip:
  assumes "f = [] \<or> \<not> is_digit (hd f)"
  shows "\<exists>cs. formatLoop out (map ch ''%u'') (v # va) idx s = Some (Inr (emit out cs idx s))
    \<and> atoi (cs @ f) 0 = (ucast v, f)"
proof (intro exI conjI)
  let ?cs = "natDigits False 10 (unat (ucast v :: u32))"
  have "convert out (ch CHR ''u'') 0 0 0 (v # va) idx s
      = (case emit out ?cs idx s of (idx, s) \<Rightarrow> Some (Inr (idx, va, s)))"
    by (simp add: convert_def convInt_text intText_plain [simplified] case_prod_beta)
  then show "formatLoop out (map ch ''%u'') (v # va) idx s = Some (Inr (emit out ?cs idx s))"
    by (simp add: formatLoop.simps readSpec_def is_digit_def case_prod_beta)
  show "atoi (?cs @ f) 0 = (ucast v, f)"
    using assms atoi_natDigits [of "unat (ucast v :: u32)" f 0] by (cases f) simp_all
qed

theorem print_read_roundtrip_witness:
  "\<forall>s. \<exists>cs. formatLoop out_null (map ch ''%u'') [4711] 0 s = Some (Inr (emit out_null cs 0 s))
    \<and> atoi (cs @ map ch ''.3d'') 0 = (4711, map ch ''.3d'')"
  using print_read_roundtrip [of "map ch ''.3d''" out_null 4711 "[]" 0] by (simp add: is_digit_def)

end
