(* ===== verification/Panic.thy ===== *)
theory Panic
  imports PrintfOutput PrintfNumbers
begin

section \<open>Panic reports (kernel/panic.c)\<close>

text \<open>
  Everything that these functions do is printed, so their state is that of the formatter, and the
  result is what is on the console when the CPU has halted. What comes from elsewhere is an
  argument: the addresses of the locals (\<open>stk\<close>, \<open>buf\<close>), of the literals (\<open>lit\<close>), the two registers that are
  read by instructions (\<open>ebx\<close> of \<open>cpuid\<close>, \<open>rbp\<close>) and the registers that the stub has pushed.
\<close>

abbreviation newline :: u8 where "newline \<equiv> 10"

text \<open>The line of a literal.\<close>

abbreviation line :: "string \<Rightarrow> u8 list" where "line f \<equiv> map ch f @ [newline]"

record Regs =
  rdiIgnore :: u64
  regR15 :: u64
  regR14 :: u64
  regR13 :: u64
  regR12 :: u64
  regR11 :: u64
  regR10 :: u64
  regR9 :: u64
  regR8 :: u64
  regRsp :: u64
  regRsi :: u64
  regRdi :: u64
  regRdx :: u64
  regRcx :: u64
  regRbx :: u64
  regRax :: u64
  intId :: u64
  errId :: u64
  regRip :: u64
  regCs :: u64
  regRFlags :: u64
  regKRsp :: u64
  regSs :: u64

text \<open>The initialiser of an array of 32 pointers; the last two are null, for want of a literal.\<close>

definition exceptions :: "string list" where
  "exceptions =
     [''Div By Zero'', ''Debug'', ''NMI'', ''Breakpoint'', ''Overflow'', ''Bound Range Exceeded'', ''Invalid Opcode'',
      ''Device Not Available'', ''Double Fault'', ''Coprocessor Segment Overrun'', ''Bad TSS'', ''Segment Not Present'',
      ''Stack-Segment Fault'', ''General Protection Fault'', ''Page Fault'', ''Unknown'', ''x87 Floating-Point'',
      ''Alignment Check'', ''Machine Check'', ''Unknown'', ''Unknown'', ''Unknown'', ''Unknown'', ''Unknown'', ''Unknown'',
      ''Unknown'', ''Unknown'', ''Unknown'', ''Unknown'', ''Unknown'']"

definition exceptionPtr :: "(string \<Rightarrow> u64) \<Rightarrow> u64 \<Rightarrow> u64 res" where
  "exceptionPtr lit i =
     (if unat i < length exceptions then Inr (lit (exceptions ! unat i))
      else if i < 32 then Inr 0 else Inl OutOfBounds)"

text \<open>Several calls of \<open>printf\<close>, one after the other.\<close>

fun printAll :: "u64 \<Rightarrow> (u8 list \<times> u64 list) list \<Rightarrow> out_state \<Rightarrow> out_state ores" where
  "printAll stk [] s = Some (Inr s)"
| "printAll stk ((f, va) # ps) s = bndO (printf_fn stk f va s) (\<lambda>(_, s). printAll stk ps s)"

subsection \<open>Operations\<close>

text \<open>\<open>for (u64 fr = 0; stk && fr < 10; ++fr)\<close> over frames \<open>(rbp, rip)\<close>.\<close>

function backtraceLoop :: "u64 \<Rightarrow> u64 \<Rightarrow> u64 \<Rightarrow> out_state \<Rightarrow> out_state ores" where
  "backtraceLoop stk fr frame s =
     (if frame \<noteq> 0 \<and> fr < 10
      then if load64 (omem s) (frame + 8) = 0 then Some (Inr s)
           else bndO (printAll stk [(line ''panic: %llx'', [load64 (omem s) (frame + 8)])] s) (\<lambda>s.
                  backtraceLoop stk (fr + 1) (load64 (omem s) frame) s)
      else Some (Inr s))"
  by pat_completeness auto
termination
  by (relation "measure (\<lambda>(stk, fr, frame, s). 10 - unat fr)") (auto simp: word_less_nat_alt unat_word_ariths)

declare backtraceLoop.simps [simp del]

definition doPanic :: "u64 \<Rightarrow> u32 \<Rightarrow> u64 \<Rightarrow> u64 \<Rightarrow> out_state \<Rightarrow> out_state ores" where
  "doPanic stk ebx rbp err s =
     (let cpuId = drop_bit 24 ebx AND 0xFF in
      bndO (if omem s err \<noteq> 0 then printAll stk [(map ch ''panic: %s'', [err])] s else Some (Inr s)) (\<lambda>s.
      bndO (printAll stk
        [(line ''panic: caused by cpu%d'', [ucast cpuId]), (line ''panic: --- Kernel Call Trace ---'', [])] s) (\<lambda>s.
      bndO (backtraceLoop stk 0 rbp s) (\<lambda>s.
      printAll stk [(line ''panic: call trace end, everything halted!'', [])] s))))"

definition panic :: "u64 \<Rightarrow> u64 \<Rightarrow> u32 \<Rightarrow> u64 \<Rightarrow> u8 list \<Rightarrow> u64 list \<Rightarrow> out_state \<Rightarrow> out_state ores" where
  "panic stk buf ebx rbp fmt va s =
     bndO (Some (memset buf 0 1024 (omem s))) (\<lambda>m.
     bndO (vsnprintf_fn buf 1024 fmt va (s\<lparr>omem := m\<rparr>)) (\<lambda>(_, s).
     doPanic stk ebx rbp buf s))"

definition panicIsr :: "u64 \<Rightarrow> u64 \<Rightarrow> (string \<Rightarrow> u64) \<Rightarrow> u32 \<Rightarrow> u64 \<Rightarrow> Regs \<Rightarrow> out_state \<Rightarrow> out_state ores" where
  "panicIsr stk buf lit ebx rbp regs s =
     bndO (printAll stk [(line ''panic: kernel exception!'', [])] s) (\<lambda>s.
     bndO (Some (exceptionPtr lit (intId regs))) (\<lambda>name.
     bndO (printAll stk
       [(line ''panic: %s'', [name]),
        (line ''panic: err %016llx int %016llx'', [errId regs, intId regs]),
        (line ''panic: rax %016llx r8  %016llx'', [regRax regs, regR8 regs]),
        (line ''panic: rbx %016llx r9  %016llx'', [regRbx regs, regR9 regs]),
        (line ''panic: rcx %016llx r10 %016llx'', [regRcx regs, regR10 regs]),
        (line ''panic: rdx %016llx r11 %016llx'', [regRdx regs, regR11 regs]),
        (line ''panic: rsi %016llx r12 %016llx'', [regRsi regs, regR12 regs]),
        (line ''panic: rdi %016llx r13 %016llx'', [regRdi regs, regR13 regs]),
        (line ''panic: rsp %016llx r14 %016llx'', [regRsp regs, regR14 regs]),
        (line ''panic: rip %016llx r15 %016llx'', [regRip regs, regR15 regs]),
        (line ''panic: rfl %016llx'', [regRFlags regs]),
        (line ''panic: cs  %016llx ss  %016llx'', [regCs regs, regSs regs]),
        (line ''panic: kRsp %016llx'', [regKRsp regs])] s) (\<lambda>s.
     panic stk buf ebx rbp [] [] s)))"

subsection \<open>Texts\<close>

lemma fmtText_chars: "ch CHR ''%'' \<notin> set xs \<Longrightarrow> fmtText (xs @ f) args = map_option (\<lambda>cs. xs @ cs) (fmtText f args)"
  by (induction xs) (simp_all add: fmtText.simps option.map_comp comp_def option.map_id [unfolded id_def] cong: option.map_cong)

text \<open>The 16 digits of \<open>%016llx\<close>, and the number of \<open>%llx\<close>.\<close>

definition hex16 :: "u64 \<Rightarrow> u8 list" where
  "hex16 v = (let ds = natDigits False 16 (unat v) in zeros (16 - length ds) @ ds)"

lemma hex16_text: "intText 0x78 0x301 16 0 v = hex16 v"
proof -
  have "intText (ch CHR ''x'') 0x301 16 0 v = stdConv (ch CHR ''x'') 0x301 16 0 v"
    by (rule intText_std) (simp_all add: has_bits fits_def leftFits_def)
  then show ?thesis by (simp add: has_bits stdConv_def stdText_def intBase_def intValue_def hex16_def Let_def)
qed

lemma hex_text: "intText 0x78 0x300 0 0 v = natDigits False 16 (unat v)"
proof -
  have "intText (ch CHR ''x'') 0x300 0 0 v = stdConv (ch CHR ''x'') 0x300 0 0 v"
    by (rule intText_std) (simp_all add: has_bits fits_def leftFits_def)
  then show ?thesis by (simp add: has_bits stdConv_def stdText_def intBase_def intValue_def)
qed

lemma str_text: "strText 0 0 0 t = t"
  by (simp add: strText_def shownText_def)

lemmas flag_values = FLAGS_ZEROPAD_def FLAGS_LONG_def FLAGS_LONG_LONG_def

lemma spec_hex16: "readSpec (48 # 49 # 54 # 108 # 108 # 120 # f) va = Inr (0x301, 16, 0, 120 # f, va)"
  by (simp add: readSpec_def is_digit_def flag_values)

lemma spec_hex: "readSpec (108 # 108 # 120 # f) va = Inr (0x300, 0, 0, 120 # f, va)"
  by (simp add: readSpec_def is_digit_def flag_values)

lemma spec_plain: "c = 100 \<or> c = 115 \<Longrightarrow> readSpec (c # f) va = Inr (0, 0, 0, c # f, va)"
  by (auto simp: readSpec_def is_digit_def)

lemmas line_text = fmtText.simps spec_hex16 spec_hex spec_plain argsLeft_def hex16_text hex_text str_text

lemma natDigits_nonzero: "2 \<le> b \<Longrightarrow> b \<le> 16 \<Longrightarrow> 0 \<notin> set (natDigits upper b n)"
proof (induction upper b n rule: natDigits.induct)
  case (1 upper b n)
  let ?D = "if upper then ''0123456789ABCDEF'' else ''0123456789abcdef''"
  have "n mod b < 16" using 1(2,3) less_le_trans [OF mod_less_divisor] by simp
  then have "ch (?D ! (n mod b)) \<noteq> 0" using nat_less_16 [of "n mod b"] by (cases upper) auto
  then show ?case using 1 by (cases "n < b") (simp_all add: natDigits.simps [of upper b n] Let_def)
qed

lemma digits_printed [simp]: "filter (\<lambda>c. c \<noteq> 0) (natDigits False 16 n) = natDigits False 16 n"
    "filter (\<lambda>c. c \<noteq> 0) (natDigits False 10 n) = natDigits False 10 n" "filter (\<lambda>c. c \<noteq> 0) (hex16 v) = hex16 v"
  using natDigits_nonzero [of 16 False n] natDigits_nonzero [of 10 False n] natDigits_nonzero [of 16 False "unat v"]
  by (auto simp: filter_id_conv hex16_def Let_def)

lemma hex_length: "length (natDigits False 16 (unat (v :: u64))) \<le> 16" "length (hex16 v) = 16"
proof -
  show len: "length (natDigits False 16 (unat v)) \<le> 16"
    using natDigits_length [of 16 "unat v" 15] unsigned_less [of v, where 'a = nat] by simp
  show "length (hex16 v) = 16" using len by (simp add: hex16_def Let_def)
qed

lemma dec_length: "length (natDigits False 10 (unat (v :: u32))) \<le> 10"
  using natDigits_length [of 10 "unat v" 9] unsigned_less [of v, where 'a = nat] by simp

text \<open>Calls of \<open>printf\<close> with the texts \<open>cs\<close>.\<close>

lemma printAll_text:
  assumes "stk \<noteq> 0" and "\<not> printfSpinlock s"
    and "\<forall>(f, args, cs)\<in>set ps. fmtText f args = Some cs \<and> length cs < 2 ^ 31 \<and> (\<forall>a\<in>set args. arg_ok UNIV (omem s) a)"
  shows "printAll stk (map (\<lambda>(f, args, cs). (f, map slot_of args)) ps) s
    = Some (Inr (s\<lparr>console := console s @ filter (\<lambda>c. c \<noteq> 0) (concat (map (\<lambda>(f, args, cs). cs) ps))\<rparr>))"
  using assms(2,3)
proof (induction ps arbitrary: s)
  case (Cons p ps)
  obtain f args cs where p: "p = (f, args, cs)" by (cases p)
  then have ok: "fmtText f args = Some cs" "length cs < 2 ^ 31" "\<forall>a\<in>set args. arg_ok UNIV (omem s) a"
    using Cons.prems(2) by auto
  let ?s = "s\<lparr>console := console s @ filter (\<lambda>c. c \<noteq> 0) cs\<rparr>"
  have "printf_fn stk f (map slot_of args) s = Some (Inr (of_nat (length cs), ?s))"
    using printf_text [OF assms(1) ok] Cons.prems(1) by simp
  moreover have "printAll stk (map (\<lambda>(f, args, cs). (f, map slot_of args)) ps) ?s
      = Some (Inr (?s\<lparr>console := console ?s @ filter (\<lambda>c. c \<noteq> 0) (concat (map (\<lambda>(f, args, cs). cs) ps))\<rparr>))"
    by (rule Cons.IH) (use Cons.prems in auto)
  ultimately show ?case using p by simp
qed simp

subsection \<open>The call trace\<close>

fun frames :: "nat \<Rightarrow> mem \<Rightarrow> u64 \<Rightarrow> u64 list" where
  "frames 0 m frame = []"
| "frames (Suc n) m frame =
     (if frame = 0 \<or> load64 m (frame + 8) = 0 then [] else load64 m (frame + 8) # frames n m (load64 m frame))"

definition frameLine :: "u64 \<Rightarrow> u8 list" where
  "frameLine rip = map ch ''panic: '' @ natDigits False 16 (unat rip) @ [newline]"

lemma frameLine_text: "fmtText (line ''panic: %llx'') [Num v] = Some (frameLine v)"
  by (simp add: line_text frameLine_def)

lemma backtrace_text:
  assumes "stk \<noteq> 0" and "\<not> printfSpinlock s"
  shows "backtraceLoop stk fr frame s
    = Some (Inr (s\<lparr>console := console s @ concat (map frameLine (frames (10 - unat fr) (omem s) frame))\<rparr>))"
  using assms(2)
proof (induction "10 - unat fr" arbitrary: fr frame s)
  case 0
  then have "\<not> fr < 10" by (simp add: word_less_nat_alt)
  with 0 show ?case by (simp add: backtraceLoop.simps [of stk fr])
next
  case (Suc n)
  then have fr: "fr < 10" and n: "n = 10 - unat (fr + 1)" by (simp_all add: word_less_nat_alt unat_word_ariths)
  let ?v = "load64 (omem s) (frame + 8)" and ?s = "s\<lparr>console := console s @ frameLine (load64 (omem s) (frame + 8))\<rparr>"
  have "printAll stk [(line ''panic: %llx'', [?v])] s = Some (Inr ?s)"
  proof -
    have l: "length (frameLine ?v) < 2 ^ 31" using hex_length(1) [of ?v] by (simp add: frameLine_def)
    show ?thesis
      using printAll_text [OF assms(1) Suc.prems, of "[(line ''panic: %llx'', [Num ?v], frameLine ?v)]"] l
      by (simp add: frameLine_text del: map_append list.map) (simp add: frameLine_def)
  qed
  moreover have "backtraceLoop stk (fr + 1) (load64 (omem s) frame) ?s
      = Some (Inr (?s\<lparr>console := console ?s @ concat (map frameLine (frames (10 - unat (fr + 1)) (omem ?s) (load64 (omem s) frame)))\<rparr>))"
    by (rule Suc.hyps(1) [OF n]) (use Suc.prems in simp)
  ultimately show ?case
    using fr n Suc.hyps(2) [symmetric] by (simp add: backtraceLoop.simps [of stk fr])
qed

subsection \<open>Reports\<close>

definition haltReport :: "u32 \<Rightarrow> u64 \<Rightarrow> mem \<Rightarrow> u8 list" where
  "haltReport ebx rbp m =
     map ch ''panic: caused by cpu'' @ natDigits False 10 (unat (drop_bit 24 ebx AND 0xFF)) @ [newline]
     @ line ''panic: --- Kernel Call Trace ---'' @ concat (map frameLine (frames 10 m rbp))
     @ line ''panic: call trace end, everything halted!''"

lemma dec_text: "fmtText (line ''panic: caused by cpu%d'') [Num (ucast (v :: u32))]
    = Some (map ch ''panic: caused by cpu'' @ natDigits False 10 (unat v) @ [newline])"
  if "v < 2 ^ 31" for v :: u32
proof -
  have "uint v < 2 ^ 31" using that by (simp add: word_less_def)
  moreover have "- (2 ^ 31) \<le> uint v" by (rule order_trans [OF _ uint_ge_0]) simp
  ultimately have "signed_take_bit 31 (uint v) = uint v" by (intro signed_take_bit_int_eq_self)
  then have s: "sint v = uint v" by (simp add: sint_uint)
  have u: "(ucast (ucast v :: u64) :: u32) = v" by transfer (simp add: take_bit_take_bit)
  have "intText (ch CHR ''d'') 0 0 0 (ucast v) = stdConv (ch CHR ''d'') 0 0 0 (ucast v)"
    by (rule intText_std) (simp_all add: fits_def leftFits_def)
  then have "intText 0x64 0 0 0 (ucast v) = natDigits False 10 (unat v)"
    using s u by (simp add: stdConv_def stdText_def intBase_def intValue_def)
  then show ?thesis by (simp add: line_text)
qed

lemma doPanic_text:
  assumes "stk \<noteq> 0" and "\<not> printfSpinlock s" and "err \<noteq> 0" and "cstr (omem s) err t" and "length t < 2 ^ 30"
  shows "doPanic stk ebx rbp err s
    = Some (Inr (s\<lparr>console := console s @ (if t = [] then [] else map ch ''panic: '' @ t) @ haltReport ebx rbp (omem s)\<rparr>))"
proof -
  let ?cpu = "drop_bit 24 ebx AND 0xFF"
  let ?s1 = "s\<lparr>console := console s @ (if t = [] then [] else map ch ''panic: '' @ t)\<rparr>"
  have nz: "filter (\<lambda>c. c \<noteq> 0) t = t" using cstr_nonzero [OF assms(4)] by (auto simp: filter_id_conv)
  have 1: "(if omem s err \<noteq> 0 then printAll stk [(map ch ''panic: %s'', [err])] s else Some (Inr s)) = Some (Inr ?s1)"
  proof (cases t)
    case Nil
    then show ?thesis using assms(4) by simp
  next
    case (Cons c u)
    then have c: "omem s err \<noteq> 0" "t \<noteq> []" using assms(4) by auto
    have f: "fmtText (map ch ''panic: %s'') [Str err t] = Some (map ch ''panic: '' @ t)" by (simp add: line_text)
    have "printAll stk [(map ch ''panic: %s'', [err])] s = Some (Inr ?s1)"
      using printAll_text [OF assms(1,2), of "[(map ch ''panic: %s'', [Str err t], map ch ''panic: '' @ t)]"] f assms(3,4,5) nz c
      by simp
    then show ?thesis using c by simp
  qed
  have "?cpu \<le> 0xFF" by (rule word_and_le1)
  then have cpu: "?cpu < 2 ^ 31" by (rule order_le_less_trans) simp
  let ?ps = "[(line ''panic: caused by cpu%d'', [Num (ucast ?cpu)],
      map ch ''panic: caused by cpu'' @ natDigits False 10 (unat ?cpu) @ [newline]),
    (line ''panic: --- Kernel Call Trace ---'', [], line ''panic: --- Kernel Call Trace ---'')]"
  let ?t2 = "map ch ''panic: caused by cpu'' @ natDigits False 10 (unat ?cpu) @ line [] @ line ''panic: --- Kernel Call Trace ---''"
  let ?s2 = "?s1\<lparr>console := console ?s1 @ ?t2\<rparr>"
  have f: "fmtText (line ''panic: --- Kernel Call Trace ---'') [] = Some (line ''panic: --- Kernel Call Trace ---'')"
    "fmtText (line ''panic: call trace end, everything halted!'') [] = Some (line ''panic: call trace end, everything halted!'')"
    by (simp_all add: fmtText.simps)
  have 2: "printAll stk [(line ''panic: caused by cpu%d'', [ucast ?cpu]), (line ''panic: --- Kernel Call Trace ---'', [])] ?s1
      = Some (Inr ?s2)"
    using printAll_text [OF assms(1), of ?s1 ?ps] assms(2) dec_text [OF cpu] f dec_length [of ?cpu] by simp
  let ?s3 = "?s2\<lparr>console := console ?s2 @ concat (map frameLine (frames 10 (omem s) rbp))\<rparr>"
  have 3: "backtraceLoop stk 0 rbp ?s2 = Some (Inr ?s3)"
    using backtrace_text [OF assms(1), of ?s2 0 rbp] assms(2) by simp
  have 4: "printAll stk [(line ''panic: call trace end, everything halted!'', [])] ?s3
      = Some (Inr (?s3\<lparr>console := console ?s3 @ line ''panic: call trace end, everything halted!''\<rparr>))"
    using printAll_text [OF assms(1), of ?s3 "[(line ''panic: call trace end, everything halted!'', [], line ''panic: call trace end, everything halted!'')]"]
      assms(2) f by simp
  show ?thesis
    unfolding doPanic_def Let_def 1 bndO_simps 2 3 4 by (simp add: haltReport_def)
qed

lemma arg_ok_mono: "arg_ok W m a \<Longrightarrow> W \<subseteq> W' \<Longrightarrow> arg_ok W' m a"
  by (cases a) auto

lemma cstr_stored:
  assumes "0 \<notin> set cs" and "length cs < 2 ^ 63"
  shows "cstr (stored a (cs @ [0]) m) a cs"
proof (rule cstrI [OF assms(1)])
  fix i assume "i < length cs"
  moreover from this have "unat (of_nat i :: u64) = i" using assms(2) by (intro unat_of_nat64) simp
  ultimately show "stored a (cs @ [0]) m (a + of_nat i) = cs ! i" by (simp add: stored_def nth_append)
next
  have "unat (of_nat (length cs) :: u64) = length cs" using assms(2) by (intro unat_of_nat64) simp
  then show "stored a (cs @ [0]) m (a + of_nat (length cs)) = 0" by (simp add: stored_def)
qed

text \<open>The memory with the message in the local buffer.\<close>

definition panicMem :: "u64 \<Rightarrow> u8 list \<Rightarrow> mem \<Rightarrow> mem" where
  "panicMem buf cs m = stored buf (take 1023 cs @ [0]) (filled buf 1024 0 m)"

lemma panic_text:
  assumes "stk \<noteq> 0" and "buf \<noteq> 0" and "\<not> printfSpinlock s" and "fmtText fmt args = Some cs" and "0 \<notin> set cs"
    and "length cs < 2 ^ 31" and "\<forall>a\<in>set args. arg_ok (- rng buf 1024) (omem s) a"
  shows "panic stk buf ebx rbp fmt (map slot_of args) s
    = Some (Inr (s\<lparr>omem := panicMem buf cs (omem s),
        console := console s @ (if cs = [] then [] else map ch ''panic: '' @ take 1023 cs)
          @ haltReport ebx rbp (panicMem buf cs (omem s))\<rparr>))"
proof -
  let ?m = "filled buf 1024 0 (omem s)" and ?m2 = "panicMem buf cs (omem s)"
  have out: "?m x = omem s x" if "x \<in> - rng buf 1024" for x using that by (simp add: filled_def)
  have sub: "- rng buf 1024 \<subseteq> - rng buf (min (length cs + 1) (unat (1024 :: u64)))"
    using rng_mono [of "min (length cs + 1) 1024" 1024 buf] by auto
  have ok: "\<forall>a\<in>set args. arg_ok (- rng buf (min (length cs + 1) (unat (1024 :: u64)))) (omem (s\<lparr>omem := ?m\<rparr>)) a"
  proof
    fix a assume "a \<in> set args"
    with assms(7) have "arg_ok (- rng buf 1024) (omem s) a" by blast
    from arg_ok_mono [OF arg_ok_cong [OF this out] sub]
    show "arg_ok (- rng buf (min (length cs + 1) (unat (1024 :: u64)))) (omem (s\<lparr>omem := ?m\<rparr>)) a" by simp
  qed
  have p: "vsnprintf_fn buf 1024 fmt (map slot_of args) (s\<lparr>omem := ?m\<rparr>) = Some (Inr (of_nat (length cs), s\<lparr>omem := ?m2\<rparr>))"
    using snprintf_text [OF assms(2,4,6) ok] by (simp add: vsnprintf_fn_def snprintf_fn_def panicMem_def)
  have "cstr ?m2 buf (take 1023 cs)"
    unfolding panicMem_def by (rule cstr_stored) (use assms(5) in \<open>auto dest: in_set_takeD\<close>)
  then have d: "doPanic stk ebx rbp buf (s\<lparr>omem := ?m2\<rparr>)
      = Some (Inr (s\<lparr>omem := ?m2, console := console s @ (if take 1023 cs = [] then [] else map ch ''panic: '' @ take 1023 cs)
          @ haltReport ebx rbp ?m2\<rparr>))"
    using doPanic_text [OF assms(1), of "s\<lparr>omem := ?m2\<rparr>" buf "take 1023 cs" ebx rbp] assms(2,3) by simp
  have m: "memset buf 0 1024 (omem s) = Inr ?m" using memset_filled [OF assms(2), of 1024 0 "omem s"] by simp
  show ?thesis
    unfolding panic_def m bndO_simps p prod.case d by simp
qed

definition regLine :: "string \<Rightarrow> u64 \<Rightarrow> string \<Rightarrow> u64 \<Rightarrow> u8 list" where
  "regLine l v r w = map ch l @ hex16 v @ map ch r @ hex16 w @ [newline]"

definition isrReport :: "string \<Rightarrow> Regs \<Rightarrow> u8 list" where
  "isrReport name regs =
     line ''panic: kernel exception!'' @ line (''panic: '' @ name)
     @ regLine ''panic: err '' (errId regs) '' int '' (intId regs)
     @ regLine ''panic: rax '' (regRax regs) '' r8  '' (regR8 regs)
     @ regLine ''panic: rbx '' (regRbx regs) '' r9  '' (regR9 regs)
     @ regLine ''panic: rcx '' (regRcx regs) '' r10 '' (regR10 regs)
     @ regLine ''panic: rdx '' (regRdx regs) '' r11 '' (regR11 regs)
     @ regLine ''panic: rsi '' (regRsi regs) '' r12 '' (regR12 regs)
     @ regLine ''panic: rdi '' (regRdi regs) '' r13 '' (regR13 regs)
     @ regLine ''panic: rsp '' (regRsp regs) '' r14 '' (regR14 regs)
     @ regLine ''panic: rip '' (regRip regs) '' r15 '' (regR15 regs)
     @ map ch ''panic: rfl '' @ hex16 (regRFlags regs) @ [newline]
     @ regLine ''panic: cs  '' (regCs regs) '' ss  '' (regSs regs)
     @ map ch ''panic: kRsp '' @ hex16 (regKRsp regs) @ [newline]"

lemma reg_texts:
  "fmtText (line ''panic: err %016llx int %016llx'') [Num v, Num w] = Some (regLine ''panic: err '' v '' int '' w)"
  "fmtText (line ''panic: rax %016llx r8  %016llx'') [Num v, Num w] = Some (regLine ''panic: rax '' v '' r8  '' w)"
  "fmtText (line ''panic: rbx %016llx r9  %016llx'') [Num v, Num w] = Some (regLine ''panic: rbx '' v '' r9  '' w)"
  "fmtText (line ''panic: rcx %016llx r10 %016llx'') [Num v, Num w] = Some (regLine ''panic: rcx '' v '' r10 '' w)"
  "fmtText (line ''panic: rdx %016llx r11 %016llx'') [Num v, Num w] = Some (regLine ''panic: rdx '' v '' r11 '' w)"
  "fmtText (line ''panic: rsi %016llx r12 %016llx'') [Num v, Num w] = Some (regLine ''panic: rsi '' v '' r12 '' w)"
  "fmtText (line ''panic: rdi %016llx r13 %016llx'') [Num v, Num w] = Some (regLine ''panic: rdi '' v '' r13 '' w)"
  "fmtText (line ''panic: rsp %016llx r14 %016llx'') [Num v, Num w] = Some (regLine ''panic: rsp '' v '' r14 '' w)"
  "fmtText (line ''panic: rip %016llx r15 %016llx'') [Num v, Num w] = Some (regLine ''panic: rip '' v '' r15 '' w)"
  "fmtText (line ''panic: cs  %016llx ss  %016llx'') [Num v, Num w] = Some (regLine ''panic: cs  '' v '' ss  '' w)"
  "fmtText (line ''panic: rfl %016llx'') [Num v] = Some (map ch ''panic: rfl '' @ hex16 v @ [newline])"
  "fmtText (line ''panic: kRsp %016llx'') [Num v] = Some (map ch ''panic: kRsp '' @ hex16 v @ [newline])"
  "fmtText (line ''panic: kernel exception!'') [] = Some (line ''panic: kernel exception!'')"
  "fmtText (line ''panic: %s'') [Str p t] = Some (map ch ''panic: '' @ t @ [newline])"
  by (simp_all add: line_text regLine_def)

lemma regLine_length: "length (regLine l v r w) = length l + length r + 33"
  by (simp add: regLine_def hex_length)

lemma regLine_printed: "filter (\<lambda>c. c \<noteq> 0) (map ch l) = map ch l \<Longrightarrow> filter (\<lambda>c. c \<noteq> 0) (map ch r) = map ch r
    \<Longrightarrow> filter (\<lambda>c. c \<noteq> 0) (regLine l v r w) = regLine l v r w"
  by (simp add: regLine_def)

text \<open>The lines after the first, as calls and texts.\<close>

definition isrCalls :: "u64 \<Rightarrow> string \<Rightarrow> Regs \<Rightarrow> (u8 list \<times> arg list \<times> u8 list) list" where
  "isrCalls p name regs =
     [(line ''panic: %s'', [Str p (map ch name)], map ch ''panic: '' @ map ch name @ [newline]),
      (line ''panic: err %016llx int %016llx'', [Num (errId regs), Num (intId regs)], regLine ''panic: err '' (errId regs) '' int '' (intId regs)),
      (line ''panic: rax %016llx r8  %016llx'', [Num (regRax regs), Num (regR8 regs)], regLine ''panic: rax '' (regRax regs) '' r8  '' (regR8 regs)),
      (line ''panic: rbx %016llx r9  %016llx'', [Num (regRbx regs), Num (regR9 regs)], regLine ''panic: rbx '' (regRbx regs) '' r9  '' (regR9 regs)),
      (line ''panic: rcx %016llx r10 %016llx'', [Num (regRcx regs), Num (regR10 regs)], regLine ''panic: rcx '' (regRcx regs) '' r10 '' (regR10 regs)),
      (line ''panic: rdx %016llx r11 %016llx'', [Num (regRdx regs), Num (regR11 regs)], regLine ''panic: rdx '' (regRdx regs) '' r11 '' (regR11 regs)),
      (line ''panic: rsi %016llx r12 %016llx'', [Num (regRsi regs), Num (regR12 regs)], regLine ''panic: rsi '' (regRsi regs) '' r12 '' (regR12 regs)),
      (line ''panic: rdi %016llx r13 %016llx'', [Num (regRdi regs), Num (regR13 regs)], regLine ''panic: rdi '' (regRdi regs) '' r13 '' (regR13 regs)),
      (line ''panic: rsp %016llx r14 %016llx'', [Num (regRsp regs), Num (regR14 regs)], regLine ''panic: rsp '' (regRsp regs) '' r14 '' (regR14 regs)),
      (line ''panic: rip %016llx r15 %016llx'', [Num (regRip regs), Num (regR15 regs)], regLine ''panic: rip '' (regRip regs) '' r15 '' (regR15 regs)),
      (line ''panic: rfl %016llx'', [Num (regRFlags regs)], map ch ''panic: rfl '' @ hex16 (regRFlags regs) @ [newline]),
      (line ''panic: cs  %016llx ss  %016llx'', [Num (regCs regs), Num (regSs regs)], regLine ''panic: cs  '' (regCs regs) '' ss  '' (regSs regs)),
      (line ''panic: kRsp %016llx'', [Num (regKRsp regs)], map ch ''panic: kRsp '' @ hex16 (regKRsp regs) @ [newline])]"

lemma isrCalls_ok:
  assumes "p \<noteq> 0" and "cstr m p (map ch name)" and "length name < 1000"
  shows "\<forall>(f, args, cs)\<in>set (isrCalls p name regs). fmtText f args = Some cs \<and> length cs < 2 ^ 31 \<and> (\<forall>a\<in>set args. arg_ok UNIV m a)"
  using assms unfolding isrCalls_def
  by (simp add: reg_texts regLine_length hex_length del: fmtText.simps map_append list.map)

lemma isrCalls_texts:
  assumes "0 \<notin> set (map ch name)"
  shows "line ''panic: kernel exception!'' @ filter (\<lambda>c. c \<noteq> 0) (concat (map (\<lambda>(f, args, cs). cs) (isrCalls p name regs))) = isrReport name regs"
proof -
  have "filter (\<lambda>c. c \<noteq> 0) (map ch name) = map ch name" using assms by (auto simp: filter_id_conv)
  then show ?thesis
    by (simp only: isrCalls_def isrReport_def list.map concat.simps prod.case filter_append filter.simps append_Nil2)
      (simp add: regLine_printed)
qed

lemma exceptions_ok: "i < length exceptions \<Longrightarrow> length (exceptions ! i) < 1000"
proof -
  assume "i < length exceptions"
  then have "exceptions ! i \<in> set exceptions" by simp
  moreover have "\<forall>n\<in>set exceptions. length n < 1000" by (simp add: exceptions_def)
  ultimately show ?thesis by blast
qed

lemma exceptions_length: "length exceptions = 30"
  by (simp add: exceptions_def)

lemma first_line:
  assumes "stk \<noteq> 0" and "\<not> printfSpinlock s"
  shows "printAll stk [(line ''panic: kernel exception!'', [])] s
    = Some (Inr (s\<lparr>console := console s @ line ''panic: kernel exception!''\<rparr>))"
  using printAll_text [OF assms, of "[(line ''panic: kernel exception!'', [], line ''panic: kernel exception!'')]"]
    reg_texts(13) by simp

lemma panicIsr_text:
  assumes "stk \<noteq> 0" and "buf \<noteq> 0" and "\<not> printfSpinlock s" and "unat (intId regs) < 30"
    and "name = exceptions ! unat (intId regs)" and "lit name \<noteq> 0" and "cstr (omem s) (lit name) (map ch name)"
  shows "panicIsr stk buf lit ebx rbp regs s
    = Some (Inr (s\<lparr>omem := panicMem buf [] (omem s),
        console := console s @ isrReport name regs @ haltReport ebx rbp (panicMem buf [] (omem s))\<rparr>))"
proof -
  let ?s1 = "s\<lparr>console := console s @ line ''panic: kernel exception!''\<rparr>"
  have name: "exceptionPtr lit (intId regs) = Inr (lit name)"
    using assms(4,5) by (simp add: exceptionPtr_def exceptions_length)
  have len: "length name < 1000" using exceptions_ok [of "unat (intId regs)"] assms(4,5) by (simp add: exceptions_length)
  let ?cs = "filter (\<lambda>c. c \<noteq> 0) (concat (map (\<lambda>(f, args, cs). cs) (isrCalls (lit name) name regs)))"
  let ?s2 = "?s1\<lparr>console := console ?s1 @ ?cs\<rparr>"
  have calls: "printAll stk (map (\<lambda>(f, args, cs). (f, map slot_of args)) (isrCalls (lit name) name regs)) ?s1 = Some (Inr ?s2)"
    by (rule printAll_text) (use assms isrCalls_ok [OF assms(6) _ len, of "omem s"] in simp_all)
  have t: "console ?s2 = console s @ isrReport name regs"
    using isrCalls_texts [OF cstr_nonzero [OF assms(7)], of "lit name" regs] by simp
  have "panic stk buf ebx rbp [] [] ?s2 = panic stk buf ebx rbp [] (map slot_of []) ?s2" by simp
  also have "\<dots> = Some (Inr (?s2\<lparr>omem := panicMem buf [] (omem s), console := console ?s2 @ haltReport ebx rbp (panicMem buf [] (omem s))\<rparr>))"
    using panic_text [OF assms(1,2), of ?s2 "[]" "[]" "[]" ebx rbp] assms(3) by simp
  finally have p: "panic stk buf ebx rbp [] [] ?s2
      = Some (Inr (s\<lparr>omem := panicMem buf [] (omem s), console := (console s @ isrReport name regs) @ haltReport ebx rbp (panicMem buf [] (omem s))\<rparr>))"
    unfolding t by simp
  show ?thesis
    unfolding panicIsr_def first_line [OF assms(1,3)] bndO_simps name
    using calls p by (simp add: isrCalls_def)
qed

subsection \<open>Properties\<close>

text \<open>C31: For an exception with a name and with the lock of \<open>printf\<close> free, the handler prints the name,
  all the registers and the state of the CPU as 16 hexadecimal digits each, the CPU's number and a
  call trace of at most ten frames, and halts; this holds for every chain of frames, a
  cyclic one as well.\<close>

theorem panicIsr_correct:
  assumes "stk \<noteq> 0" and "buf \<noteq> 0" and "\<not> printfSpinlock s" and "unat (intId regs) < 30"
    and "name = exceptions ! unat (intId regs)" and "lit name \<noteq> 0" and "cstr (omem s) (lit name) (map ch name)"
  shows "panicIsr stk buf lit ebx rbp regs s
    = Some (Inr (s\<lparr>omem := panicMem buf [] (omem s),
        console := console s @ isrReport name regs @ haltReport ebx rbp (panicMem buf [] (omem s))\<rparr>))"
  by (rule panicIsr_text) (use assms in simp_all)

definition demoRegs :: "u64 \<Rightarrow> Regs" where
  "demoRegs i =
     \<lparr>rdiIgnore = 0, regR15 = 15, regR14 = 14, regR13 = 13, regR12 = 12, regR11 = 11, regR10 = 10, regR9 = 9, regR8 = 8,
      regRsp = 0x8000, regRsi = 6, regRdi = 5, regRdx = 4, regRcx = 3, regRbx = 2, regRax = 1, intId = i, errId = 0,
      regRip = 0x1234, regCs = 8, regRFlags = 2, regKRsp = 0x9000, regSs = 16\<rparr>"

definition demoOut :: out_state where
  "demoOut = \<lparr>omem = (\<lambda>_. 0)(0x100 := ch CHR ''N'', 0x101 := ch CHR ''M'', 0x102 := ch CHR ''I''),
     console = [], called = [], printfSpinlock = False\<rparr>"

theorem panicIsr_correct_witness:
  "panicIsr 0x7000 0x7100 (\<lambda>_. 0x100) 0x02000000 0 (demoRegs 2) demoOut
     = Some (Inr (demoOut\<lparr>omem := panicMem 0x7100 [] (omem demoOut),
         console := isrReport ''NMI'' (demoRegs 2) @ haltReport 0x02000000 0 (panicMem 0x7100 [] (omem demoOut))\<rparr>))"
  using panicIsr_correct [of "0x7000" "0x7100" demoOut "demoRegs 2" "''NMI''" "\<lambda>_. 0x100" "0x02000000" 0]
  by (simp add: demoOut_def demoRegs_def exceptions_def)

text \<open>C32: The handler reports nothing useful in two situations. Vectors 30 and 31 have no name in the
  table of exceptions: \<open>%s\<close> is given a null pointer and reads from it. And when the exception came
  while the lock of \<open>printf\<close> was taken, by this CPU in \<open>printf\<close> itself for instance, the handler
  waits for the lock for ever.\<close>

theorem panicIsr_fails:
  assumes "stk \<noteq> 0"
  shows "(printfSpinlock s \<longrightarrow> panicIsr stk buf lit ebx rbp regs s = Some (Inl Deadlock))
    \<and> (\<not> printfSpinlock s \<and> intId regs \<in> {30, 31} \<longrightarrow> panicIsr stk buf lit ebx rbp regs s = Some (Inl NullDeref))"
proof (intro conjI impI)
  assume "printfSpinlock s"
  then show "panicIsr stk buf lit ebx rbp regs s = Some (Inl Deadlock)"
    by (simp add: panicIsr_def printf_fn_def)
next
  assume a: "\<not> printfSpinlock s \<and> intId regs \<in> {30, 31}"
  then have name: "exceptionPtr lit (intId regs) = Inr 0" by (auto simp: exceptionPtr_def exceptions_length)
  have "printf_fn stk (line ''panic: %s'') [0] s' = Some (Inl NullDeref)" if "\<not> printfSpinlock s'" for s'
    using that assms
    by (simp add: printf_fn_def vsnprintf_internal_def Let_def formatLoop.simps spec_plain convert_def convString_def strnlen_s_def)
  with a show "panicIsr stk buf lit ebx rbp regs s = Some (Inl NullDeref)"
    unfolding panicIsr_def first_line [OF assms conjunct1 [OF a]] bndO_simps name by simp
qed

theorem panicIsr_fails_witness:
  "panicIsr 0x7000 0x7100 (\<lambda>_. 0x100) 0 0 (demoRegs 30) demoOut = Some (Inl NullDeref)
     \<and> panicIsr 0x7000 0x7100 (\<lambda>_. 0x100) 0 0 (demoRegs 2) (demoOut\<lparr>printfSpinlock := True\<rparr>) = Some (Inl Deadlock)"
  using panicIsr_fails [of "0x7000" demoOut "0x7100" "\<lambda>_. 0x100" 0 0 "demoRegs 30"]
    panicIsr_fails [of "0x7000" "demoOut\<lparr>printfSpinlock := True\<rparr>" "0x7100" "\<lambda>_. 0x100" 0 0 "demoRegs 2"]
  by (simp add: demoOut_def demoRegs_def)

text \<open>\<open>panic\<close> prints its formatted message, cut to the 1023 characters that fit its buffer, after
  \<open>panic:\<close>, or nothing for an empty message; then the CPU's number, the call trace and that
  everything is halted.\<close>

theorem panic_correct:
  assumes "stk \<noteq> 0" and "buf \<noteq> 0" and "\<not> printfSpinlock s" and "fmtText fmt args = Some cs" and "0 \<notin> set cs"
    and "length cs < 2 ^ 31" and "\<forall>a\<in>set args. arg_ok (- rng buf 1024) (omem s) a"
  shows "panic stk buf ebx rbp fmt (map slot_of args) s
    = Some (Inr (s\<lparr>omem := panicMem buf cs (omem s),
        console := console s @ (if cs = [] then [] else map ch ''panic: '' @ take 1023 cs)
          @ haltReport ebx rbp (panicMem buf cs (omem s))\<rparr>))"
  by (rule panic_text [OF assms])

theorem panic_correct_witness:
  "panic 0x7000 0x7100 0 0 (line ''OUT OF MEMORY'') [] demoOut
     = Some (Inr (demoOut\<lparr>omem := panicMem 0x7100 (line ''OUT OF MEMORY'') (omem demoOut),
         console := line ''panic: OUT OF MEMORY''
           @ haltReport 0 0 (panicMem 0x7100 (line ''OUT OF MEMORY'') (omem demoOut))\<rparr>))"
proof -
  have f: "fmtText (line ''OUT OF MEMORY'') [] = Some (line ''OUT OF MEMORY'')" by (simp add: fmtText.simps)
  show ?thesis using panic_correct [OF _ _ _ f, of "0x7000" "0x7100" demoOut 0 0] by (simp add: demoOut_def)
qed

end
