(* ===== verification/Mp.thy ===== *)
theory Mp
  imports Lapic Descriptors
begin

section \<open>The other processors (cpu/mp.c)\<close>

text \<open>
  The boot loader parks the other processors until the \<open>goto_address\<close> in their entry of its
  answer is set. \<open>response\<close> is the address of the answer (\<open>limine_mp_response\<close>), or 0; the fields of
  the packed structs are loads. \<open>entry\<close> is the address of \<open>mpEntry\<close>, and the registers of the
  processor that runs \<open>mpEntry\<close>, with the shared tables, are the first part of its state.
\<close>

definition mpCpuCount :: "mem \<Rightarrow> u64 \<Rightarrow> u64" where "mpCpuCount m r = load64 m (r + 16)"
definition mpCpu :: "mem \<Rightarrow> u64 \<Rightarrow> u64 \<Rightarrow> u64" where "mpCpu m r i = load64 m (load64 m (r + 24) + 8 * i)"

definition mpEntry ::
    "'s machine \<Rightarrow> cpu_tables \<times> ('s, 'a) dev_state_scheme \<Rightarrow> (cpu_tables \<times> ('s, 'a) dev_state_scheme) res" where
  "mpEntry M = (\<lambda>(t, k).
     let t = gdtFlush t; t = idtFlush t in bnd (lapicInit M k) (\<lambda>k. Inr (t, k)))"

text \<open>The count and the array are read again in every round.\<close>

partial_function (option) mpLoop :: "u64 \<Rightarrow> u64 \<Rightarrow> u64 \<Rightarrow> mem \<Rightarrow> mem ores" where
  "mpLoop entry r i m =
     (if i < mpCpuCount m r
      then bndO (Some (deref (mpCpu m r i) (Inr (store64 m (mpCpu m r i + 16) entry)))) (\<lambda>m.
             mpLoop entry r (i + 1) m)
      else Some (Inr m))"

declare mpLoop.simps [code]

definition mpInit :: "u64 \<Rightarrow> u64 \<Rightarrow> mem \<Rightarrow> mem ores" where
  "mpInit entry response m = (if response = 0 then Some (Inr m) else mpLoop entry response 0 m)"

lemma all_less_two: "(\<forall>i<Suc (Suc 0). P i) \<longleftrightarrow> P 0 \<and> P (Suc 0)"
  by (auto simp: less_Suc_eq)

subsection \<open>The answer of the boot loader\<close>

text \<open>
  \<open>mp_answer m r ps\<close>: an answer at \<open>r\<close> for the processors with entries \<open>ps\<close>, none of them null, whose
  \<open>goto_address\<close> is apart from those of the others, from the answer and from its array.
\<close>

abbreviation gotoRng :: "u64 \<Rightarrow> u64 set" where "gotoRng p \<equiv> rng (p + 16) 8"

definition mp_answer :: "mem \<Rightarrow> u64 \<Rightarrow> u64 list \<Rightarrow> bool" where
  "mp_answer m r ps \<longleftrightarrow> mpCpuCount m r = of_nat (length ps) \<and> length ps < 2 ^ 60
     \<and> (\<forall>i<length ps. mpCpu m r (of_nat i) = ps ! i \<and> ps ! i \<noteq> 0
          \<and> gotoRng (ps ! i) \<inter> rng (r + 16) 16 = {}
          \<and> (\<forall>j<length ps. gotoRng (ps ! i) \<inter> rng (load64 m (r + 24) + 8 * of_nat j) 8 = {})
          \<and> (\<forall>j<length ps. i \<noteq> j \<longrightarrow> gotoRng (ps ! i) \<inter> gotoRng (ps ! j) = {}))"

lemma mp_answer_cong:
  assumes "mp_answer m r ps" and "i < length ps" and "same_outside (gotoRng (ps ! i)) m m'"
  shows "mp_answer m' r ps" and "mpCpuCount m' r = mpCpuCount m r" and "load64 m' (r + 24) = load64 m (r + 24)"
proof -
  have off: "rng (r + 16) 16 \<inter> gotoRng (ps ! i) = {}"
    and arr: "j < length ps \<Longrightarrow> rng (load64 m (r + 24) + 8 * of_nat j) 8 \<inter> gotoRng (ps ! i) = {}" for j
    using assms(1,2) unfolding mp_answer_def by blast+
  have "rng (r + 16) 8 \<inter> gotoRng (ps ! i) = {}" "rng (r + 24) 8 \<inter> gotoRng (ps ! i) = {}"
    using off rng_sub [of 0 8 16 "r + 16"] rng_sub [of 8 8 16 "r + 16"] by (auto simp: algebra_simps)
  then show c: "mpCpuCount m' r = mpCpuCount m r" and a: "load64 m' (r + 24) = load64 m (r + 24)"
    unfolding mpCpuCount_def by (simp_all only: load_same_outside [OF assms(3)])
  have "mpCpu m' r (of_nat j) = mpCpu m r (of_nat j)" if "j < length ps" for j
    unfolding mpCpu_def a by (rule load_same_outside [OF assms(3) arr [OF that]])
  with assms(1) show "mp_answer m' r ps" unfolding mp_answer_def c a by simp
qed

lemma mpLoop_spec:
  assumes "mp_answer m r ps" and "i + n = length ps"
  shows "\<exists>m'. mpLoop entry r (of_nat i) m = Some (Inr m')
    \<and> (\<forall>j. i \<le> j \<and> j < length ps \<longrightarrow> load64 m' (ps ! j + 16) = entry)
    \<and> same_outside (\<Union>j\<in>{i..<length ps}. gotoRng (ps ! j)) m m'"
  using assms
proof (induction n arbitrary: i m)
  case 0
  then show ?case
    by (intro exI [of _ m]) (auto simp: mpLoop.simps [of entry r _ m] mp_answer_def)
next
  case (Suc n)
  have ans: "mpCpuCount m r = of_nat (length ps)" "length ps < 2 ^ 60" and i: "i < length ps"
    and p: "mpCpu m r (of_nat i) = ps ! i" "ps ! i \<noteq> 0"
    using Suc.prems unfolding mp_answer_def by auto
  have lt: "of_nat i < mpCpuCount m r"
    unfolding ans(1) word_less_nat_alt using ans(2) i by (simp add: unat_of_nat64)
  let ?m = "store64 m (ps ! i + 16) entry"
  have s: "same_outside (gotoRng (ps ! i)) m ?m" by (rule store_same_outside)
  have e: "Suc i + n = length ps" using Suc.prems(2) by simp
  obtain m' where m': "mpLoop entry r (of_nat (Suc i)) ?m = Some (Inr m')"
      "\<forall>j. Suc i \<le> j \<and> j < length ps \<longrightarrow> load64 m' (ps ! j + 16) = entry"
      "same_outside (\<Union>j\<in>{Suc i..<length ps}. gotoRng (ps ! j)) ?m m'"
    using Suc.IH [OF mp_answer_cong(1) [OF Suc.prems(1) i s] e] by blast
  have "gotoRng (ps ! i) \<inter> gotoRng (ps ! j) = {}" if "j \<in> {Suc i..<length ps}" for j
  proof -
    have "j < length ps" "i \<noteq> j" using that by auto
    with Suc.prems(1) i show ?thesis unfolding mp_answer_def by blast
  qed
  then have "gotoRng (ps ! i) \<inter> (\<Union>j\<in>{Suc i..<length ps}. gotoRng (ps ! j)) = {}" by blast
  then have "load64 m' (ps ! i + 16) = entry" using load_same_outside [OF m'(3)] by simp
  then have all: "\<forall>j. i \<le> j \<and> j < length ps \<longrightarrow> load64 m' (ps ! j + 16) = entry"
    using m'(2) by (metis Suc_leI le_neq_implies_less)
  have "same_outside (\<Union>j\<in>{i..<length ps}. gotoRng (ps ! j)) m m'"
  proof (rule same_outside_trans [OF same_outside_mono [OF s] same_outside_mono [OF m'(3)]])
    show "gotoRng (ps ! i) \<subseteq> (\<Union>j\<in>{i..<length ps}. gotoRng (ps ! j))" using i by (intro UN_upper) simp
    show "(\<Union>j\<in>{Suc i..<length ps}. gotoRng (ps ! j)) \<subseteq> (\<Union>j\<in>{i..<length ps}. gotoRng (ps ! j))"
      by (rule UN_mono) auto
  qed
  moreover have "mpLoop entry r (of_nat i) m = Some (Inr m')"
    using lt p m'(1) by (simp add: mpLoop.simps [of entry r _ m] add.commute)
  ultimately show ?case using all by blast
qed

text \<open>Two processors.\<close>

definition demoAnswer :: mem where
  "demoAnswer = store64 (store64 (store64 (store64 (\<lambda>_. 0) 0x1010 2) 0x1018 0x1100) 0x1100 0x1200) 0x1108 0x1300"

lemma demo_answer: "mp_answer demoAnswer 0x1000 [0x1200, 0x1300]"
proof -
  have l: "load64 demoAnswer 0x1018 = 0x1100" "mpCpuCount demoAnswer 0x1000 = 2"
    "mpCpu demoAnswer 0x1000 0 = 0x1200" "mpCpu demoAnswer 0x1000 1 = 0x1300"
    by (simp_all add: mpCpuCount_def mpCpu_def demoAnswer_def mem_simps)
  have d: "rng a 8 \<inter> rng b n = {}" if "apart a 8 b n" for a b n using apart_disjoint [OF that] .
  have "gotoRng 0x1200 \<inter> rng 0x1010 16 = {}" "gotoRng 0x1300 \<inter> rng 0x1010 16 = {}"
    "gotoRng 0x1200 \<inter> rng 0x1100 8 = {}" "gotoRng 0x1300 \<inter> rng 0x1100 8 = {}"
    "gotoRng 0x1200 \<inter> rng 0x1108 8 = {}" "gotoRng 0x1300 \<inter> rng 0x1108 8 = {}"
    "gotoRng 0x1200 \<inter> gotoRng 0x1300 = {}" "gotoRng 0x1300 \<inter> gotoRng 0x1200 = {}"
    by (rule d, simp add: apart_def)+
  with l show ?thesis by (simp add: mp_answer_def all_less_two)
qed

subsection \<open>Properties\<close>

text \<open>C33: After \<open>mpInit\<close> every processor that the boot loader reports is told to go to \<open>mpEntry\<close>, and
  nothing else in memory has changed.\<close>

theorem mpInit_correct:
  assumes "response \<noteq> 0" and "mp_answer m response ps"
  shows "\<exists>m'. mpInit entry response m = Some (Inr m') \<and> (\<forall>p\<in>set ps. load64 m' (p + 16) = entry)
    \<and> same_outside (\<Union>p\<in>set ps. gotoRng p) m m'"
proof -
  obtain m' where m': "mpLoop entry response (of_nat 0) m = Some (Inr m')"
      "\<forall>j. 0 \<le> j \<and> j < length ps \<longrightarrow> load64 m' (ps ! j + 16) = entry"
      "same_outside (\<Union>j\<in>{0..<length ps}. gotoRng (ps ! j)) m m'"
    using mpLoop_spec [OF assms(2), of 0 "length ps" entry] by auto
  have "(\<Union>j\<in>{0..<length ps}. gotoRng (ps ! j)) = (\<Union>p\<in>set ps. gotoRng p)"
    using set_map [of "(!) ps" "[0..<length ps]"] by (simp add: map_nth)
  with m' assms(1) show ?thesis by (intro exI [of _ m']) (auto simp: mpInit_def in_set_conv_nth)
qed

theorem mpInit_correct_witness:
  "\<exists>m'. mpInit 0xffffffff80001000 0x1000 demoAnswer = Some (Inr m')
     \<and> load64 m' 0x1210 = 0xffffffff80001000 \<and> load64 m' 0x1310 = 0xffffffff80001000"
  using mpInit_correct [OF _ demo_answer, of "0xffffffff80001000"] by auto

end
