(* ===== verification/Spec2Isabelle.thy ===== *)
theory Spec2Isabelle
  imports Vmm FsStart Descriptors Irq IoApic Pci Console Panic Mp
begin

text \<open>
  A verification development for the \<open>spctrx\<close> kernel, an x86-64 kernel in C (\<open>src/kernel/src\<close>).

  \<^bold>\<open>Parts of the program and the theories that model them.\<close> Names of definitions are those of the C
  functions; a struct that lives in memory is an address with one accessor per field.

  \<^item> \<open>Prelude\<close>: integer types and macros of \<open>include/util.h\<close>, errors (\<open>include/assert.h\<close>, panic),
    the byte-addressed memory, bit fields.
  \<^item> \<open>Strings\<close>: \<open>util/string.c\<close>.
  \<^item> \<open>BitmapData\<close>: \<open>util/datastructures/bitmap.c\<close>.
  \<^item> \<open>LinkedList\<close>: \<open>util/datastructures/ll.c\<close>, \<open>include/ll.h\<close>.
  \<^item> \<open>Spinlocks\<close>: \<open>cpu/spinlock.c\<close>, for one CPU and for several.
  \<^item> \<open>Pmm\<close>: \<open>mem/pmm.c\<close>, the page allocator, with \<open>vmmPhysToVirt\<close> and \<open>vmmAlloc\<close> of \<open>mem/vmm.c\<close>.
  \<^item> \<open>Slab\<close>: \<open>mem/slab.c\<close>, the object allocator.
  \<^item> \<open>Vmm\<close>: \<open>mem/vmm.c\<close>, \<open>include/paging.h\<close>, the page tables.
  \<^item> \<open>FsNodes\<close>, \<open>Tmpfs\<close>, \<open>Vfs\<close>: \<open>filesystem\<close>, nodes, the memory file system, paths and mounts.
  \<^item> \<open>Paths\<close>: \<open>filesystem/vfsops.c\<close> from the path to the bytes: what a read by path returns after a write by path.
  \<^item> \<open>FsHeap\<close>, \<open>Files\<close>: the same functions on top of the allocators: what \<open>tmpfsAllocNode\<close>, \<open>tmpfsCreate\<close>,
    \<open>tmpfsMkdir\<close> and \<open>tmpfsMount\<close> build in memory that the allocators hand out.
  \<^item> \<open>FsTree\<close>, \<open>FsOps\<close>: nodes, directories, mounts and allocators together as one tree of files, with the
    invariant that \<open>vfsCreate\<close> keeps. \<open>FsMount\<close>, \<open>FsStart\<close>: how \<open>vfsMount\<close> and \<open>vfsInit\<close> set up such a
    tree, and the file system's test in \<open>kernel/test.c\<close>.
  \<^item> \<open>Printf\<close>: \<open>util/printf.c\<close>, the formatter. \<open>PrintfSpec\<close>: the text that it prints, as functions
    without state. \<open>PrintfRead\<close>: the grammar of conversion specifications and its reader. \<open>PrintfNumbers\<close>: that text and the C standard. \<open>PrintfOutput\<close>: the functions of
    \<open>include/printf.h\<close>, with the buffer, the console and the lock.
  \<^item> \<open>Console\<close>: \<open>driver/log/serial.c\<close>, \<open>driver/log/term.c\<close>, \<open>driver/log/log.c\<close>, \<open>driver/fb.c\<close>.
  \<^item> \<open>Panic\<close>: \<open>kernel/panic.c\<close>, the reports of exceptions and panics.
  \<^item> \<open>Mp\<close>: \<open>cpu/mp.c\<close>, the other processors.
  \<^item> \<open>Descriptors\<close>: \<open>cpu/gdt.c\<close>, \<open>cpu/idt.c\<close> and \<open>isrInit\<close> of \<open>cpu/isr.c\<close>.
  \<^item> \<open>Irq\<close>: \<open>driver/irq.c\<close> and \<open>isrHandler\<close> of \<open>cpu/isr.c\<close>, in which the report of an exception is a parameter.
  \<^item> \<open>Machine\<close>: the inline functions of \<open>include/util.h\<close> that talk to hardware.
  \<^item> \<open>Lapic\<close>, \<open>IoApic\<close>: \<open>cpu/lapic.c\<close>, \<open>cpu/ioapic.c\<close>, \<open>cpu/apic.c\<close>, the interrupt controllers.
  \<^item> \<open>Acpi\<close>: \<open>driver/acpi.c\<close>, the firmware's tables and power.
  \<^item> \<open>Ahci\<close>, \<open>Pci\<close>: \<open>driver/disk/ahci.c\<close>, \<open>driver/pci.c\<close>, disk controller and device enumeration.

  \<^bold>\<open>State.\<close> All of the kernel shares one byte memory. The state of a component is a record that extends
  the one of the component it calls: \<open>pmm_state\<close> (memory, direct map, bitmap of the pages, lock),
  \<open>vmm_state\<close> (root table, lock, \<open>cr3\<close>, flushed pages), \<open>fs_state\<close>, \<open>irq_state\<close>, and \<open>dev_state\<close> with the
  devices, from which \<open>acpi_state\<close>, \<open>ioapic_state\<close>, \<open>ahci_state\<close> and \<open>pci_state\<close> come. Operations are
  polymorphic in the extension, so a caller's state can be passed to the functions it calls. The
  addresses of static variables, of string literals and of functions are fields of these records.
  \<open>con_state\<close> adds the console's variables to \<open>dev_state\<close>. The formatter has a state of its own
  (\<open>out_state\<close>), in which the characters given to \<open>_putchar\<close> are a list; \<open>Console\<close> then says what
  \<open>_putchar\<close> does with each of them. The reports of \<open>Panic\<close> are on the formatter's state. In the other
  theories the messages that the code prints are left out, and a panic is a value.

  \<^bold>\<open>Errors and loops.\<close> An operation that can fail returns \<open>err + 'a\<close>: assertion, panic, a lock never
  released, null pointer, wild call, index outside a static array. A loop that C does not bound
  is a partial function to \<open>option\<close>, with \<open>None\<close> for not returning; the properties then state
  that it returns, or that it does not. Bounded loops are total functions with a measure (the
  longest is the wait of \<open>ahciSendCommand\<close>, 1000000000 rounds). No fuel is used.

  \<^bold>\<open>Hardware.\<close> Ports, device registers and model-specific registers are a record \<open>machine\<close> of functions
  on a device state. A property about a device has a hypothesis with the documented behaviour it
  relies on: \<open>reg_file\<close> and \<open>msr_file\<close> (registers keep what is written), \<open>cpu_regs\<close>, \<open>ioapic_regs\<close>
  (select and window), \<open>hba_port\<close> (write-one registers, commands that end or fail), \<open>config_mechanism\<close>,
  \<open>uart\<close> (a transmitter that is ready in the end) and \<open>terminal\<close>.
  Each is shown to hold of a concrete machine.

  \<^bold>\<open>What the lemmas show.\<close> Memory: a page is never handed out twice, freeing undoes allocating, the
  bitmap set up at start-up reserves what must be reserved; objects of a slab cache are disjoint as
  long as none is freed (freeing shifts the object, and is stated for the first object freed);
  mapping and unmapping change one leaf entry of the page tables and keep their tree. Data
  structures: bitmaps and lists refine their abstract views, string routines their definitions
  on lists. Files: lookup of a path is the abstract walk across mounts; what is written is read
  back; \<open>vfsInit\<close> sets up a tree on which files can be created and used by path, and which creating
  a file keeps in order. Interrupts: descriptors decode to what they were given, vectors are allocated once and
  dispatch to what was installed, an ISA interrupt is routed as its override says. Devices: a
  disk command in memory is the one asked for, device data is the configuration space, tables
  are found by signature. Printing: the output of every call is a text that is computed without
  state, conversion specifications are split by their grammar, integer conversions print what the C standard
  prescribes on a domain that is stated, buffers are not overrun, the text reaches the serial line and the terminal; an
  exception report has the registers and at most ten frames.

  \<^bold>\<open>Not modelled.\<close> The library flanterm behind the terminal, a submodule whose two functions are a
  parameter, and the font. Floating point in \<open>printf.c\<close>, which is not compiled. Messages of the other
  components, and \<open>acpiRsdt\<close>, which only prints. The boot loader's structs (\<open>include/limine.h\<close>,
  \<open>kernel/boot.c\<close>), whose answers are arguments. \<open>kernel/kernel.c\<close> and the rest of \<open>kernel/test.c\<close>, which
  call the other components. Assembly stubs; \<open>cli\<close>, \<open>sti\<close> and \<open>hlt\<close>. Data that a drive writes to memory; the
  second view of memory that a mapping outside the direct map gives; interrupts that arrive while
  other code runs, and concurrent CPUs outside \<open>Spinlocks\<close>.
\<close>

end
